(* ===== verification/Prelude.thy ===== *)
theory Prelude
  imports Main "HOL-Library.Word" "HOL-Library.AList"
begin

text \<open>
  Shared vocabulary of the development: the fixed-width integers of Rust, the
  checked and saturating operations of its standard library, the result type
  \<open>'e + 'a\<close> (\<open>Inl\<close> is \<open>Err\<close>, \<open>Inr\<close> is \<open>Ok\<close>) with the combinators behind the
  \<open>?\<close> operator, and a Rust \<open>String\<close> as the list of its UTF-8 bytes.
  Arithmetic written \<open>+\<close> on words wraps, which is what the release profile of
  the repository does (it leaves \<open>overflow-checks\<close> off).
\<close>

section \<open>Machine integers\<close>

type_synonym u8 = "8 word"
type_synonym u16 = "16 word"
type_synonym u32 = "32 word"
type_synonym u64 = "64 word"

definition saturating_add :: "'a::len word \<Rightarrow> 'a word \<Rightarrow> 'a word" where
  "saturating_add x y = (if x \<le> x + y then x + y else - 1)"

definition saturating_sub :: "'a::len word \<Rightarrow> 'a word \<Rightarrow> 'a word" where
  "saturating_sub x y = (if y \<le> x then x - y else 0)"

definition checked_add :: "'a::len word \<Rightarrow> 'a word \<Rightarrow> 'a word option" where
  "checked_add x y = (if x \<le> x + y then Some (x + y) else None)"

lemma unat_less_2p: "unat w < 2 ^ LENGTH('a)"
  for w :: "'a::len word"
  by (rule unsigned_less)

lemma unat_minus_one [simp]: "unat (- 1 :: 'a::len word) = 2 ^ LENGTH('a) - 1"
  by (simp add: unsigned_minus_1_eq_mask mask_eq_exp_minus_1)

lemma no_wrap_iff: "x \<le> x + y \<longleftrightarrow> unat x + unat y < 2 ^ LENGTH('a)"
  for x y :: "'a::len word"
  by (metis no_olen_add_nat)

lemma unat_saturating_add:
  "unat (saturating_add x y) = min (unat x + unat y) (2 ^ LENGTH('a) - 1)"
  for x y :: "'a::len word"
proof (cases "x \<le> x + y")
  case True
  then have "unat x + unat y < 2 ^ LENGTH('a)" by (simp add: no_wrap_iff)
  then show ?thesis using True by (simp add: saturating_add_def unat_word_ariths)
next
  case False
  then have "\<not> unat x + unat y < 2 ^ LENGTH('a)" by (simp add: no_wrap_iff)
  then show ?thesis using False
    by (simp add: saturating_add_def)
qed

lemma unat_saturating_sub: "unat (saturating_sub x y) = unat x - unat y"
  for x y :: "'a::len word"
  by (simp add: saturating_sub_def unat_sub word_le_nat_alt)

lemma checked_add_Some:
  "checked_add x y = Some z \<longleftrightarrow> unat x + unat y < 2 ^ LENGTH('a) \<and> z = x + y"
  for x y z :: "'a::len word"
  by (auto simp: checked_add_def no_wrap_iff)

lemma checked_add_None:
  "checked_add x y = None \<longleftrightarrow> 2 ^ LENGTH('a) \<le> unat x + unat y"
  for x y :: "'a::len word"
  by (auto simp: checked_add_def no_wrap_iff)

lemma checked_add_unat:
  "checked_add x y = Some z \<Longrightarrow> unat z = unat x + unat y"
  for x y z :: "'a::len word"
  by (simp add: checked_add_Some unat_word_ariths)

lemma saturating_add_ge: "x \<le> saturating_add x y"
  for x y :: "'a::len word"
  by (simp add: saturating_add_def)

lemma saturating_sub_le: "saturating_sub x y \<le> x"
  for x y :: "'a::len word"
  by (simp add: word_le_nat_alt unat_saturating_sub)

lemma unat_successor:
  fixes v w :: "'a::len word"
  assumes "v < w"
  shows "unat (v + 1) = Suc (unat v)"
proof -
  have "unat v < unat w" using assms by (simp add: word_less_nat_alt)
  then have "unat v + 1 \<le> unat w" by simp
  also have "\<dots> < 2 ^ LENGTH('a)" by (rule unat_less_2p)
  finally show ?thesis by (simp add: unat_word_ariths)
qed

section \<open>Results\<close>

fun and_then :: "'e + 'a \<Rightarrow> ('a \<Rightarrow> 'e + 'b) \<Rightarrow> 'e + 'b" where
  "and_then (Inl e) f = Inl e"
| "and_then (Inr a) f = f a"

fun map_err :: "('e \<Rightarrow> 'f) \<Rightarrow> 'e + 'a \<Rightarrow> 'f + 'a" where
  "map_err h (Inl e) = Inl (h e)"
| "map_err h (Inr a) = Inr a"

fun ok_or :: "'e \<Rightarrow> 'a option \<Rightarrow> 'e + 'a" where
  "ok_or e None = Inl e"
| "ok_or e (Some a) = Inr a"

fun is_ok :: "'e + 'a \<Rightarrow> bool" where
  "is_ok (Inl e) = False"
| "is_ok (Inr a) = True"

lemma and_then_Inr_iff [simp]:
  "and_then r f = Inr b \<longleftrightarrow> (\<exists>a. r = Inr a \<and> f a = Inr b)"
  by (cases r) auto

lemma and_then_Inl_iff:
  "and_then r f = Inl e \<longleftrightarrow> r = Inl e \<or> (\<exists>a. r = Inr a \<and> f a = Inl e)"
  by (cases r) auto

lemma map_err_Inr_iff [simp]: "map_err h r = Inr a \<longleftrightarrow> r = Inr a"
  by (cases r) auto

lemma map_err_Inl_iff: "map_err h r = Inl e \<longleftrightarrow> (\<exists>d. r = Inl d \<and> e = h d)"
  by (cases r) auto

lemma ok_or_Inr_iff [simp]: "ok_or e r = Inr a \<longleftrightarrow> r = Some a"
  by (cases r) auto

lemma ok_or_Inl_iff [simp]: "ok_or e r = Inl d \<longleftrightarrow> r = None \<and> d = e"
  by (cases r) auto

lemma is_ok_iff: "is_ok r \<longleftrightarrow> (\<exists>a. r = Inr a)"
  by (cases r) auto

section \<open>The JSON crate\<close>

text \<open>
  \<open>serde_json::Value\<close> is a type variable; the operations the source uses on it
  are the fields of this record, which every definition that touches JSON takes
  as an argument.
\<close>

datatype json_variant = JString | JNumber | JBool | JObject | JArray | JNull

record 'j json_api =
  json_variant_of :: "'j \<Rightarrow> json_variant"
  as_object :: "'j \<Rightarrow> (string \<rightharpoonup> 'j) option"
  as_str :: "'j \<Rightarrow> string option"
  as_u64 :: "'j \<Rightarrow> u64 option"
  null_value :: 'j

section \<open>Locks\<close>

text \<open>
  A \<open>std::sync::Mutex\<close> is its content with a poison flag; \<open>lock\<close> fails exactly
  on a poisoned lock, with the text of \<open>PoisonError\<close>.
\<close>

record 'a mutex =
  mx_poisoned :: bool
  mx_value :: 'a

definition mutex_new :: "'a \<Rightarrow> 'a mutex" where
  "mutex_new v = \<lparr>mx_poisoned = False, mx_value = v\<rparr>"

definition poison_text :: string where
  "poison_text = ''poisoned lock: another task failed inside''"

text \<open>Run a critical section: what it returns, and the mutex with the new content.\<close>

definition with_lock ::
  "'a mutex \<Rightarrow> 'e \<Rightarrow> ('a \<Rightarrow> ('e + 'r) \<times> 'a) \<Rightarrow> ('e + 'r) \<times> 'a mutex" where
  "with_lock m poison_error body =
     (if mx_poisoned m then (Inl poison_error, m)
      else (case body (mx_value m) of (r, v) \<Rightarrow> (r, m\<lparr>mx_value := v\<rparr>)))"

lemma with_lock_open [simp]:
  "\<not> mx_poisoned m \<Longrightarrow>
     with_lock m e body = (fst (body (mx_value m)), m\<lparr>mx_value := snd (body (mx_value m))\<rparr>)"
  by (simp add: with_lock_def split: prod.splits)

lemma with_lock_poisoned [simp]: "mx_poisoned m \<Longrightarrow> with_lock m e body = (Inl e, m)"
  by (simp add: with_lock_def)

lemma mutex_new_simps [simp]:
  "\<not> mx_poisoned (mutex_new v)" "mx_value (mutex_new v) = v"
  by (simp_all add: mutex_new_def)

lemma with_lock_snd_value:
  "mx_value (snd (with_lock m e body)) =
     (if mx_poisoned m then mx_value m else snd (body (mx_value m)))"
  by (simp add: with_lock_def split: prod.splits)

section \<open>Hash maps\<close>

text \<open>
  A hash map whose size or content is enumerated is an association list with
  distinct keys, its order being that of the iteration.  Collecting the keys of
  the entries that satisfy a test and removing them one by one is how the
  stores purge.
\<close>

lemma map_of_fold_delete:
  "map_of (fold AList.delete ks al) k = (if k \<in> set ks then None else map_of al k)"
  by (induction ks arbitrary: al) (auto simp: delete_conv)

lemma distinct_fold_delete:
  "distinct (map fst al) \<Longrightarrow> distinct (map fst (fold AList.delete ks al))"
  by (induction ks arbitrary: al) (auto simp: distinct_delete)

lemma map_of_fold_delete_filter:
  assumes "distinct (map fst al)"
  shows "map_of (fold AList.delete (map fst (filter (\<lambda>(k, v). P v) al)) al) k =
     (case map_of al k of None \<Rightarrow> None | Some v \<Rightarrow> if P v then None else Some v)"
proof -
  have "k \<in> set (map fst (filter (\<lambda>(k, v). P v) al)) \<longleftrightarrow> (\<exists>v. map_of al k = Some v \<and> P v)"
    using assms by (force simp: map_of_eq_Some_iff)
  then show ?thesis by (auto simp: map_of_fold_delete split: option.splits)
qed

end
