(* ===== verification/Machines.thy ===== *)
theory Machines
  imports Prelude
begin

text \<open>
  Contracts shared by the protocol state machines of the engine.  A machine is
  a fallible step function; \<open>exec\<close> feeds it a sequence of events and stops at
  the first rejected one.  The locales state what a terminal state promises and
  when a protocol can only make a bounded number of moves; they are interpreted
  in the theories of the lifecycle, effect, compensation, saga, connector and
  transaction state machines.
\<close>

fun exec :: "('s \<Rightarrow> 'e \<Rightarrow> 'err + 's) \<Rightarrow> 's \<Rightarrow> 'e list \<Rightarrow> 'err + 's" where
  "exec step s [] = Inr s"
| "exec step s (e # es) = and_then (step s e) (\<lambda>s'. exec step s' es)"

inductive reaches :: "('s \<Rightarrow> 'e \<Rightarrow> 'err + 's) \<Rightarrow> 's \<Rightarrow> 's \<Rightarrow> bool"
  for step :: "'s \<Rightarrow> 'e \<Rightarrow> 'err + 's" and s\<^sub>0 :: 's where
  reaches_init [intro]: "reaches step s\<^sub>0 s\<^sub>0"
| reaches_step: "reaches step s\<^sub>0 s \<Longrightarrow> step s e = Inr t \<Longrightarrow> reaches step s\<^sub>0 t"

lemma exec_append:
  "exec step s (es @ fs) = and_then (exec step s es) (\<lambda>t. exec step t fs)"
proof (induction es arbitrary: s)
  case (Cons e es)
  then show ?case by (cases "step s e") simp_all
qed simp

lemma exec_snoc: "exec step s (es @ [e]) = and_then (exec step s es) (\<lambda>t. step t e)"
proof -
  have "and_then (step t e) Inr = step t e" for t by (cases "step t e") simp_all
  then show ?thesis by (simp add: exec_append)
qed

lemma exec_error_sticks: "exec step s es = Inl err \<Longrightarrow> exec step s (es @ fs) = Inl err"
  by (simp add: exec_append)

lemma reaches_iff_exec: "reaches step s t \<longleftrightarrow> (\<exists>es. exec step s es = Inr t)"
proof
  assume "reaches step s t"
  then show "\<exists>es. exec step s es = Inr t"
  proof induction
    case reaches_init
    have "exec step s [] = Inr s" by simp
    then show ?case by blast
  next
    case (reaches_step u e t)
    then obtain es where "exec step s es = Inr u" by blast
    then have "exec step s (es @ [e]) = Inr t" using reaches_step by (simp add: exec_snoc)
    then show ?case by blast
  qed
next
  assume "\<exists>es. exec step s es = Inr t"
  then obtain es where "exec step s es = Inr t" by blast
  then show "reaches step s t"
  proof (induction es arbitrary: t rule: rev_induct)
    case (snoc e es)
    then obtain u where u: "exec step s es = Inr u" "step u e = Inr t" by (auto simp: exec_snoc)
    show ?case by (rule reaches_step [OF snoc.IH [OF u(1)] u(2)])
  qed auto
qed

lemma exec_reaches: "exec step s es = Inr t \<Longrightarrow> reaches step s t"
  by (rule iffD2 [OF reaches_iff_exec]) (rule exI)

lemma reaches_invariant:
  assumes "reaches step s t" and "P s"
    and "\<And>u e v. P u \<Longrightarrow> step u e = Inr v \<Longrightarrow> P v"
  shows "P t"
  using assms(1)
proof induction
  case reaches_init
  show ?case by (rule assms(2))
next
  case (reaches_step u e v)
  show ?case by (rule assms(3) [OF reaches_step.IH reaches_step.hyps(2)])
qed

lemma exec_invariant:
  assumes "exec step s es = Inr t" and "P s"
    and "\<And>u e v. P u \<Longrightarrow> step u e = Inr v \<Longrightarrow> P v"
  shows "P t"
  by (rule reaches_invariant [OF exec_reaches [OF assms(1)], of P]) (fact assms)+

text \<open>An invariant of the state and the events accepted so far.\<close>

lemma exec_history:
  assumes "exec step s es = Inr t" and "P [] s"
    and "\<And>es u e v. exec step s es = Inr u \<Longrightarrow> P es u \<Longrightarrow> step u e = Inr v \<Longrightarrow> P (es @ [e]) v"
  shows "P es t"
  using assms(1)
proof (induction es arbitrary: t rule: rev_induct)
  case Nil
  then show ?case using assms(2) by simp
next
  case (snoc e es)
  then obtain u where "exec step s es = Inr u" "step u e = Inr t" by (auto simp: exec_snoc)
  then show ?case using assms(3) snoc.IH by blast
qed

text \<open>
  \<open>absorbing\<close> names the states no event leaves.  The two facts every client
  needs: an accepted run stays there, and once reached the outcome of the
  protocol never changes.
\<close>

locale machine =
  fixes step :: "'s \<Rightarrow> 'e \<Rightarrow> 'err + 's"
    and absorbing :: "'s \<Rightarrow> bool"
  assumes absorbing_step: "absorbing s \<Longrightarrow> step s e = Inr t \<Longrightarrow> t = s"
begin

lemma exec_absorbing: "absorbing s \<Longrightarrow> exec step s es = Inr t \<Longrightarrow> t = s"
  by (induction es) (auto dest: absorbing_step)

lemma outcome_stable:
  assumes "exec step s es = Inr t" and "absorbing t"
    and "exec step s (es @ fs) = Inr u"
  shows "u = t"
  using assms by (auto simp: exec_append dest: exec_absorbing)

lemma absorbing_reaches: "reaches step s t \<Longrightarrow> absorbing s \<Longrightarrow> t = s"
  by (auto simp: reaches_iff_exec dest: exec_absorbing)

end

text \<open>
  A closed protocol: terminal states reject every event, and every accepted
  event strictly decreases a rank.  Such a protocol accepts at most \<open>rank s\<close>
  events from \<open>s\<close>, so it cannot run for ever.
\<close>

locale bounded_machine =
  fixes step :: "'s \<Rightarrow> 'e \<Rightarrow> 'err + 's"
    and terminal :: "'s \<Rightarrow> bool"
    and rank :: "'s \<Rightarrow> nat"
  assumes terminal_rejects: "terminal s \<Longrightarrow> \<exists>err. step s e = Inl err"
    and rank_decreases: "step s e = Inr t \<Longrightarrow> rank t < rank s"
begin

lemma terminal_no_step: "terminal s \<Longrightarrow> step s e \<noteq> Inr t"
  using terminal_rejects [of s e] by auto

lemma exec_length: "exec step s es = Inr t \<Longrightarrow> length es + rank t \<le> rank s"
proof (induction es arbitrary: s)
  case (Cons e es)
  then obtain u where u: "step s e = Inr u" "exec step u es = Inr t" by auto
  have "length es + rank t \<le> rank u" using Cons.IH [OF u(2)] .
  then show ?case using rank_decreases [OF u(1)] by simp
qed simp

lemma exec_bounded: "exec step s es = Inr t \<Longrightarrow> length es \<le> rank s"
  using exec_length [of s es t] by simp

lemma exec_from_terminal: "terminal s \<Longrightarrow> exec step s es = Inr t \<Longrightarrow> es = [] \<and> t = s"
  by (cases es) (auto simp: terminal_no_step)

lemma no_revisit: "exec step s es = Inr s \<Longrightarrow> es = []"
  using exec_length [of s es s] by simp

end

sublocale bounded_machine \<subseteq> machine step terminal
  by unfold_locales (blast dest: terminal_no_step)

text \<open>
  A service answers every request: \<open>run_trace\<close> feeds it a sequence of requests
  and records what each of them led to.
\<close>

fun run_trace :: "('st \<Rightarrow> 'op \<Rightarrow> 'ev \<times> 'st) \<Rightarrow> 'st \<Rightarrow> 'op list \<Rightarrow> 'ev list \<times> 'st" where
  "run_trace step st [] = ([], st)"
| "run_trace step st (op # ops) =
     (case step st op of (ev, st1) \<Rightarrow>
        (case run_trace step st1 ops of (evs, st2) \<Rightarrow> (ev # evs, st2)))"

lemma run_trace_cons:
  assumes "run_trace step st (op # ops) = (evs, st')"
  obtains ev st1 evs1 where "step st op = (ev, st1)"
    "run_trace step st1 ops = (evs1, st')" "evs = ev # evs1"
  using assms by (auto split: prod.splits)

lemma run_trace_split:
  "run_trace step st ops = (xs @ ys, st') \<Longrightarrow>
     \<exists>ops1 ops2 st1. ops = ops1 @ ops2 \<and> run_trace step st ops1 = (xs, st1)
       \<and> run_trace step st1 ops2 = (ys, st')"
proof (induction xs arbitrary: st ops)
  case Nil
  have "ops = [] @ ops" "run_trace step st [] = ([], st)" by simp_all
  then show ?case using Nil by (metis append_Nil)
next
  case (Cons x xs)
  then obtain op ops0 where ops: "ops = op # ops0" by (cases ops) auto
  from Cons.prems [unfolded ops] obtain ev st1 evs1 where
    s: "step st op = (ev, st1)" "run_trace step st1 ops0 = (evs1, st')" "x # xs @ ys = ev # evs1"
    by (auto split: prod.splits)
  then obtain ops1 ops2 st2 where "ops0 = ops1 @ ops2" "run_trace step st1 ops1 = (xs, st2)"
    "run_trace step st2 ops2 = (ys, st')" using Cons.IH [of st1 ops0] by auto
  then have "ops = (op # ops1) @ ops2" "run_trace step st (op # ops1) = (x # xs, st2)"
    "run_trace step st2 ops2 = (ys, st')" using ops s by auto
  then show ?case by blast
qed

end
