(* ===== verification/Lifecycle.thy ===== *)
theory Lifecycle
  imports Machines
begin

text \<open>
  The lifecycle state machine of a workflow instance
  (vo-types/src/state/lifecycle.rs, state/transition.rs) and the declarative
  transition tables that are meant to express it (state/compiler).
\<close>

section \<open>States and events\<close>

datatype LifecycleState =
    Pending | RunningDecision | StepScheduled | StepExecuting
  | WaitingForTimer | WaitingForSignal | PendingPublication | Hibernated
  | Compensating | Reconciling | Completed | Failed | Cancelled

datatype BlockedReason =
    DependenciesPending | ResourceContention | ManualHold | AwaitingWakeSignal

datatype OperationalStatus = Healthy | Blocked BlockedReason | Recovering

datatype LifecycleSuperstate =
    Super_Active | Super_Suspended | Super_Recovering | Super_Compensating | Super_Terminal

datatype TransitionEvent =
    AssignToNode | Cancel | StepScheduled | Fail | ExecuteStep | WaitForTimer
  | WaitForSignal | CompleteStep | YieldWithBlob | TimerFired | TimerExpired
  | SignalReceived | ConfirmPublication | PublicationFailed | EmitOutputRef
  | InstanceResumed | Hibernate | WakeFromHibernation | BeginCompensation
  | CompensationCompleted | CompensationFailed | ReconciliationCompleted
  | ReconciliationFailed

datatype TransitionError = TerminalStateTransition | InvalidTransition

definition all_variants :: "TransitionEvent list" where
  "all_variants =
     [AssignToNode, Cancel, TransitionEvent.StepScheduled, Fail, ExecuteStep, WaitForTimer,
      WaitForSignal, CompleteStep, YieldWithBlob, TimerFired, TimerExpired, SignalReceived,
      ConfirmPublication, PublicationFailed, EmitOutputRef, InstanceResumed, Hibernate,
      WakeFromHibernation, BeginCompensation, CompensationCompleted, CompensationFailed,
      ReconciliationCompleted, ReconciliationFailed]"

fun get_operational_status :: "LifecycleState \<Rightarrow> OperationalStatus" where
  "get_operational_status Pending = Healthy"
| "get_operational_status RunningDecision = Healthy"
| "get_operational_status LifecycleState.StepScheduled = Healthy"
| "get_operational_status StepExecuting = Healthy"
| "get_operational_status WaitingForTimer = Healthy"
| "get_operational_status WaitingForSignal = Healthy"
| "get_operational_status PendingPublication = Blocked DependenciesPending"
| "get_operational_status Hibernated = Blocked AwaitingWakeSignal"
| "get_operational_status Compensating = OperationalStatus.Recovering"
| "get_operational_status Reconciling = OperationalStatus.Recovering"
| "get_operational_status Completed = Blocked ManualHold"
| "get_operational_status Cancelled = Blocked ManualHold"
| "get_operational_status Failed = OperationalStatus.Recovering"

definition is_terminal :: "LifecycleState \<Rightarrow> bool" where
  "is_terminal s = (s = Completed \<or> s = Failed \<or> s = Cancelled)"

fun superstate :: "LifecycleState \<Rightarrow> LifecycleSuperstate" where
  "superstate Pending = Super_Active"
| "superstate RunningDecision = Super_Active"
| "superstate LifecycleState.StepScheduled = Super_Active"
| "superstate StepExecuting = Super_Active"
| "superstate WaitingForTimer = Super_Suspended"
| "superstate WaitingForSignal = Super_Suspended"
| "superstate PendingPublication = Super_Suspended"
| "superstate Failed = Super_Recovering"
| "superstate Reconciling = Super_Recovering"
| "superstate Compensating = Super_Compensating"
| "superstate Completed = Super_Terminal"
| "superstate Cancelled = Super_Terminal"
| "superstate Hibernated = Super_Suspended"

fun get_valid_transitions :: "LifecycleState \<Rightarrow> TransitionEvent list" where
  "get_valid_transitions Pending = [AssignToNode, Cancel]"
| "get_valid_transitions RunningDecision =
     [TransitionEvent.StepScheduled, Hibernate, Cancel, Fail]"
| "get_valid_transitions LifecycleState.StepScheduled = [ExecuteStep, Cancel, Fail]"
| "get_valid_transitions StepExecuting =
     [WaitForTimer, WaitForSignal, YieldWithBlob, CompleteStep, Cancel, Fail]"
| "get_valid_transitions WaitingForTimer =
     [TimerFired, TimerExpired, Hibernate, Cancel, Fail]"
| "get_valid_transitions WaitingForSignal = [SignalReceived, Cancel, Fail]"
| "get_valid_transitions PendingPublication =
     [ConfirmPublication, PublicationFailed, Cancel]"
| "get_valid_transitions Hibernated = [WakeFromHibernation, Cancel]"
| "get_valid_transitions Compensating =
     [CompensationCompleted, CompensationFailed, Cancel]"
| "get_valid_transitions Reconciling =
     [ReconciliationCompleted, ReconciliationFailed, Cancel]"
| "get_valid_transitions Completed = []"
| "get_valid_transitions Cancelled = []"
| "get_valid_transitions Failed = [InstanceResumed]"

section \<open>The transition function\<close>

definition apply_transition ::
  "LifecycleState \<Rightarrow> TransitionEvent \<Rightarrow> TransitionError + LifecycleState" where
  "apply_transition current_state event =
     (case (current_state, event) of
        (Pending, AssignToNode) \<Rightarrow> Inr RunningDecision
      | (Failed, InstanceResumed) \<Rightarrow> Inr RunningDecision
      | (RunningDecision, TransitionEvent.StepScheduled) \<Rightarrow> Inr LifecycleState.StepScheduled
      | (LifecycleState.StepScheduled, ExecuteStep) \<Rightarrow> Inr StepExecuting
      | (WaitingForTimer, TimerFired) \<Rightarrow> Inr StepExecuting
      | (WaitingForSignal, SignalReceived) \<Rightarrow> Inr StepExecuting
      | (StepExecuting, WaitForTimer) \<Rightarrow> Inr WaitingForTimer
      | (StepExecuting, WaitForSignal) \<Rightarrow> Inr WaitingForSignal
      | (StepExecuting, CompleteStep) \<Rightarrow> Inr Completed
      | (WaitingForTimer, TimerExpired) \<Rightarrow> Inr Failed
      | (Pending, Cancel) \<Rightarrow> Inr Cancelled
      | (RunningDecision, Cancel) \<Rightarrow> Inr Cancelled
      | (LifecycleState.StepScheduled, Cancel) \<Rightarrow> Inr Cancelled
      | (StepExecuting, Cancel) \<Rightarrow> Inr Cancelled
      | (WaitingForTimer, Cancel) \<Rightarrow> Inr Cancelled
      | (WaitingForSignal, Cancel) \<Rightarrow> Inr Cancelled
      | (PendingPublication, Cancel) \<Rightarrow> Inr Cancelled
      | (RunningDecision, Fail) \<Rightarrow> Inr Failed
      | (LifecycleState.StepScheduled, Fail) \<Rightarrow> Inr Failed
      | (StepExecuting, Fail) \<Rightarrow> Inr Failed
      | (WaitingForTimer, Fail) \<Rightarrow> Inr Failed
      | (WaitingForSignal, Fail) \<Rightarrow> Inr Failed
      | (PendingPublication, Fail) \<Rightarrow> Inr Failed
      | (StepExecuting, YieldWithBlob) \<Rightarrow> Inr PendingPublication
      | (PendingPublication, ConfirmPublication) \<Rightarrow> Inr Completed
      | (PendingPublication, PublicationFailed) \<Rightarrow> Inr Failed
      | (Completed, EmitOutputRef) \<Rightarrow> Inr Completed
      | (RunningDecision, Hibernate) \<Rightarrow> Inr Hibernated
      | (WaitingForTimer, Hibernate) \<Rightarrow> Inr Hibernated
      | (Hibernated, WakeFromHibernation) \<Rightarrow> Inr RunningDecision
      | (StepExecuting, BeginCompensation) \<Rightarrow> Inr Compensating
      | (Compensating, CompensationCompleted) \<Rightarrow> Inr Completed
      | (Compensating, CompensationFailed) \<Rightarrow> Inr Failed
      | (Reconciling, ReconciliationCompleted) \<Rightarrow> Inr RunningDecision
      | (Reconciling, ReconciliationFailed) \<Rightarrow> Inr Failed
      | (Completed, _) \<Rightarrow> Inl TerminalStateTransition
      | (Failed, _) \<Rightarrow> Inl TerminalStateTransition
      | (Cancelled, _) \<Rightarrow> Inl TerminalStateTransition
      | (_, _) \<Rightarrow> Inl InvalidTransition)"

section \<open>Declarative transition tables\<close>

datatype GuardResult = Accepted | Rejected

datatype Guard =
    Always
  | Never
  | Guard_If "LifecycleState \<Rightarrow> TransitionEvent \<Rightarrow> bool"
  | Guard_Fn "LifecycleState \<Rightarrow> TransitionEvent \<Rightarrow> GuardResult"

fun clone_guard :: "Guard \<Rightarrow> Guard" where
  "clone_guard Always = Always"
| "clone_guard Never = Never"
| "clone_guard (Guard_If predicate) = Guard_If predicate"
| "clone_guard (Guard_Fn f) = Guard_Fn (\<lambda>_ _. Rejected)"

fun check_guard :: "Guard \<Rightarrow> LifecycleState \<Rightarrow> TransitionEvent \<Rightarrow> GuardResult" where
  "check_guard Always state event = Accepted"
| "check_guard Never state event = Rejected"
| "check_guard (Guard_If predicate) state event =
     (if predicate state event then Accepted else Rejected)"
| "check_guard (Guard_Fn f) state event = f state event"

datatype SideEffectResult = Executed | Skipped

datatype SideEffect =
    SideEffect_None
  | Log string
  | SideEffect_Fn
      "LifecycleState \<Rightarrow> TransitionEvent \<Rightarrow> LifecycleState \<Rightarrow> SideEffectResult"

fun clone_side_effect :: "SideEffect \<Rightarrow> SideEffect" where
  "clone_side_effect SideEffect_None = SideEffect_None"
| "clone_side_effect (Log message) = Log message"
| "clone_side_effect (SideEffect_Fn f) = SideEffect_Fn (\<lambda>_ _ _. Skipped)"

fun execute_side_effect ::
  "SideEffect \<Rightarrow> LifecycleState \<Rightarrow> TransitionEvent \<Rightarrow> LifecycleState \<Rightarrow> SideEffectResult" where
  "execute_side_effect SideEffect_None src event dst = Skipped"
| "execute_side_effect (Log message) src event dst = Executed"
| "execute_side_effect (SideEffect_Fn f) src event dst = f src event dst"

record TransitionRule =
  tr_from :: LifecycleState
  tr_event :: TransitionEvent
  tr_to :: LifecycleState
  tr_guard :: Guard
  tr_side_effect :: SideEffect
  tr_description :: "string option"

definition TransitionRule_new ::
  "LifecycleState \<Rightarrow> TransitionEvent \<Rightarrow> LifecycleState \<Rightarrow> TransitionRule" where
  "TransitionRule_new src event dst =
     \<lparr>tr_from = src, tr_event = event, tr_to = dst, tr_guard = Always,
      tr_side_effect = SideEffect_None, tr_description = None\<rparr>"

definition clone_rule :: "TransitionRule \<Rightarrow> TransitionRule" where
  "clone_rule r =
     \<lparr>tr_from = tr_from r, tr_event = tr_event r, tr_to = tr_to r,
      tr_guard = clone_guard (tr_guard r),
      tr_side_effect = clone_side_effect (tr_side_effect r),
      tr_description = tr_description r\<rparr>"

record TransitionTable =
  tt_rules :: "LifecycleState \<times> TransitionEvent \<rightharpoonup> TransitionRule"
  tt_terminal_states :: "LifecycleState list"

definition clone_table :: "TransitionTable \<Rightarrow> TransitionTable" where
  "clone_table t = t\<lparr>tt_rules := (\<lambda>k. map_option clone_rule (tt_rules t k))\<rparr>"

datatype CompilerTransitionError =
    Table_TerminalStateTransition | Table_InvalidTransition | Table_GuardRejected

definition is_terminal_state :: "TransitionTable \<Rightarrow> LifecycleState \<Rightarrow> bool" where
  "is_terminal_state t state = List.member (tt_terminal_states t) state"

text \<open>
  \<open>apply_table\<close> returns the result of \<open>TransitionTable::apply\<close> together with what
  the side effects it ran returned, in call order (the source discards them).
\<close>

definition apply_table ::
  "TransitionTable \<Rightarrow> LifecycleState \<Rightarrow> TransitionEvent
     \<Rightarrow> (CompilerTransitionError + LifecycleState) \<times> SideEffectResult list" where
  "apply_table t current event =
     (if is_terminal_state t current
         \<and> \<not> (current = Failed \<and> event = InstanceResumed)
      then (Inl Table_TerminalStateTransition, [])
      else (case tt_rules t (current, event) of
              Some rule \<Rightarrow>
                (case check_guard (tr_guard rule) current event of
                   Accepted \<Rightarrow>
                     (Inr (tr_to rule),
                      [execute_side_effect (tr_side_effect rule) current event (tr_to rule)])
                 | Rejected \<Rightarrow> (Inl Table_GuardRejected, []))
            | None \<Rightarrow> (Inl Table_InvalidTransition, [])))"

definition get_rule ::
  "TransitionTable \<Rightarrow> LifecycleState \<Rightarrow> TransitionEvent \<Rightarrow> TransitionRule option" where
  "get_rule t src event = tt_rules t (src, event)"

definition get_transitions_from :: "TransitionTable \<Rightarrow> LifecycleState \<Rightarrow> TransitionRule set" where
  "get_transitions_from t state = Set.filter (\<lambda>rule. tr_from rule = state) (ran (tt_rules t))"

definition table_builder :: TransitionTable where
  "table_builder =
     \<lparr>tt_rules = Map.empty, tt_terminal_states = [Completed, Failed, Cancelled]\<rparr>"

definition terminal_state :: "TransitionTable \<Rightarrow> LifecycleState \<Rightarrow> TransitionTable" where
  "terminal_state t state =
     (if List.member (tt_terminal_states t) state then t
      else t\<lparr>tt_terminal_states := tt_terminal_states t @ [state]\<rparr>)"

record TransitionBuilder =
  tb_table :: TransitionTable
  tb_from :: LifecycleState
  tb_event :: TransitionEvent
  tb_to :: LifecycleState
  tb_guard :: Guard
  tb_side_effect :: SideEffect
  tb_description :: "string option"

definition add_transition ::
  "TransitionTable \<Rightarrow> LifecycleState \<Rightarrow> TransitionEvent \<Rightarrow> TransitionBuilder" where
  "add_transition t src event =
     \<lparr>tb_table = t, tb_from = src, tb_event = event, tb_to = Pending, tb_guard = Always,
      tb_side_effect = SideEffect_None, tb_description = None\<rparr>"

definition to_state :: "LifecycleState \<Rightarrow> TransitionBuilder \<Rightarrow> TransitionBuilder" where
  "to_state state b = b\<lparr>tb_to := state\<rparr>"

definition with_guard :: "Guard \<Rightarrow> TransitionBuilder \<Rightarrow> TransitionBuilder" where
  "with_guard guard b = b\<lparr>tb_guard := guard\<rparr>"

definition with_side_effect :: "SideEffect \<Rightarrow> TransitionBuilder \<Rightarrow> TransitionBuilder" where
  "with_side_effect effect b = b\<lparr>tb_side_effect := effect\<rparr>"

definition with_description :: "string \<Rightarrow> TransitionBuilder \<Rightarrow> TransitionBuilder" where
  "with_description desc b = b\<lparr>tb_description := Some desc\<rparr>"

definition build_transition :: "TransitionBuilder \<Rightarrow> TransitionTable" where
  "build_transition b =
     (tb_table b)\<lparr>tt_rules := (tt_rules (tb_table b))
        ((tb_from b, tb_event b) \<mapsto>
          \<lparr>tr_from = tb_from b, tr_event = tb_event b, tr_to = tb_to b, tr_guard = tb_guard b,
           tr_side_effect = tb_side_effect b, tr_description = tb_description b\<rparr>)\<rparr>"

definition described_transition ::
  "LifecycleState \<times> TransitionEvent \<times> LifecycleState \<times> string
     \<Rightarrow> TransitionTable \<Rightarrow> TransitionTable" where
  "described_transition row t =
     (case row of (src, event, dst, desc) \<Rightarrow>
        build_transition (with_description desc (to_state dst (add_transition t src event))))"

definition create_lifecycle_table :: TransitionTable where
  "create_lifecycle_table =
     build_transition (with_guard Always (with_description ''Resume failed instance''
       (to_state RunningDecision (add_transition
         (fold described_transition
           [(Pending, AssignToNode, RunningDecision, ''Assign pending bead to node''),
            (Pending, Cancel, Cancelled, ''Cancel pending bead''),
            (RunningDecision, TransitionEvent.StepScheduled, LifecycleState.StepScheduled,
              ''Schedule step for execution''),
            (RunningDecision, Cancel, Cancelled, ''Cancel during decision''),
            (RunningDecision, Fail, Failed, ''Fail during decision''),
            (LifecycleState.StepScheduled, ExecuteStep, StepExecuting,
              ''Begin step execution''),
            (LifecycleState.StepScheduled, Cancel, Cancelled, ''Cancel scheduled step''),
            (LifecycleState.StepScheduled, Fail, Failed, ''Fail scheduled step''),
            (StepExecuting, WaitForTimer, WaitingForTimer, ''Wait for timer''),
            (StepExecuting, CompleteStep, Completed, ''Complete step successfully''),
            (StepExecuting, Cancel, Cancelled, ''Cancel executing step''),
            (StepExecuting, Fail, Failed, ''Fail executing step''),
            (WaitingForTimer, TimerFired, StepExecuting, ''Timer fired, resume execution''),
            (WaitingForTimer, TimerExpired, Failed, ''Timer expired''),
            (WaitingForTimer, Cancel, Cancelled, ''Cancel while waiting for timer''),
            (WaitingForTimer, Fail, Failed, ''Fail while waiting for timer'')]
           table_builder)
         Failed InstanceResumed))))"

section \<open>The lifecycle graph\<close>

text \<open>The accepted transitions, as a list of edges: the form the proofs below use.\<close>

definition lifecycle_edges :: "(LifecycleState \<times> TransitionEvent \<times> LifecycleState) list" where
  "lifecycle_edges =
     [(Pending, AssignToNode, RunningDecision), (Pending, Cancel, Cancelled),
      (RunningDecision, TransitionEvent.StepScheduled, LifecycleState.StepScheduled),
      (RunningDecision, Cancel, Cancelled), (RunningDecision, Fail, Failed),
      (RunningDecision, Hibernate, Hibernated),
      (LifecycleState.StepScheduled, ExecuteStep, StepExecuting),
      (LifecycleState.StepScheduled, Cancel, Cancelled),
      (LifecycleState.StepScheduled, Fail, Failed),
      (StepExecuting, WaitForTimer, WaitingForTimer),
      (StepExecuting, WaitForSignal, WaitingForSignal),
      (StepExecuting, CompleteStep, Completed), (StepExecuting, Cancel, Cancelled),
      (StepExecuting, Fail, Failed), (StepExecuting, YieldWithBlob, PendingPublication),
      (StepExecuting, BeginCompensation, Compensating),
      (WaitingForTimer, TimerFired, StepExecuting), (WaitingForTimer, TimerExpired, Failed),
      (WaitingForTimer, Cancel, Cancelled), (WaitingForTimer, Fail, Failed),
      (WaitingForTimer, Hibernate, Hibernated),
      (WaitingForSignal, SignalReceived, StepExecuting),
      (WaitingForSignal, Cancel, Cancelled), (WaitingForSignal, Fail, Failed),
      (PendingPublication, Cancel, Cancelled), (PendingPublication, Fail, Failed),
      (PendingPublication, ConfirmPublication, Completed),
      (PendingPublication, PublicationFailed, Failed),
      (Completed, EmitOutputRef, Completed), (Failed, InstanceResumed, RunningDecision),
      (Hibernated, WakeFromHibernation, RunningDecision),
      (Compensating, CompensationCompleted, Completed),
      (Compensating, CompensationFailed, Failed),
      (Reconciling, ReconciliationCompleted, RunningDecision),
      (Reconciling, ReconciliationFailed, Failed)]"

lemma apply_transition_edges:
  "apply_transition s e = Inr t \<longleftrightarrow> (s, e, t) \<in> set lifecycle_edges"
  by (cases s; cases e) (auto simp: apply_transition_def lifecycle_edges_def)

lemma apply_transition_error:
  "apply_transition s e = Inl err \<longleftrightarrow>
     (\<forall>t. (s, e, t) \<notin> set lifecycle_edges)
     \<and> err = (if is_terminal s then TerminalStateTransition else InvalidTransition)"
  by (cases s; cases e)
    (auto simp: apply_transition_def lifecycle_edges_def is_terminal_def)

interpretation lc: machine apply_transition "\<lambda>s. s = Completed \<or> s = Cancelled"
  by unfold_locales (auto simp: apply_transition_edges lifecycle_edges_def)

text \<open>
  (C27) The outcome of an instance is final: once a sequence of transition events
  takes a fresh instance to Completed or Cancelled, no longer accepted sequence
  ends anywhere else.
\<close>

theorem lifecycle_outcome_final:
  assumes "exec apply_transition Pending es = Inr t"
    and "t = Completed \<or> t = Cancelled"
    and "exec apply_transition Pending (es @ fs) = Inr u"
  shows "u = t"
  using lc.outcome_stable [OF assms] .

theorem lifecycle_outcome_final_witness:
  "exec apply_transition Pending
     [AssignToNode, TransitionEvent.StepScheduled, ExecuteStep, CompleteStep, EmitOutputRef]
     = Inr Completed \<and>
   (\<exists>u. exec apply_transition Pending
     ([AssignToNode, TransitionEvent.StepScheduled, ExecuteStep, CompleteStep] @ [EmitOutputRef])
       = Inr u \<and> u = Completed)"
proof -
  have run: "exec apply_transition Pending
     ([AssignToNode, TransitionEvent.StepScheduled, ExecuteStep, CompleteStep] @ [EmitOutputRef])
       = Inr Completed"
    by (simp add: apply_transition_def)
  have "exec apply_transition Pending
     [AssignToNode, TransitionEvent.StepScheduled, ExecuteStep, CompleteStep] = Inr Completed"
    by (simp add: apply_transition_def)
  from lifecycle_outcome_final [OF this disjI1 [OF refl] run] run show ?thesis by simp
qed

text \<open>
  An event is refused with the terminal-state error exactly in the terminal
  states Completed, Failed and Cancelled, apart from resuming a failed instance
  and emitting the output reference of a completed one; every other refusal is
  the invalid-transition error.
\<close>

theorem lifecycle_refusals:
  "(apply_transition s e = Inl TerminalStateTransition \<longleftrightarrow>
      is_terminal s \<and> (s, e) \<noteq> (Failed, InstanceResumed) \<and> (s, e) \<noteq> (Completed, EmitOutputRef))
   \<and> (apply_transition s e = Inl InvalidTransition \<longleftrightarrow>
      \<not> is_terminal s \<and> (\<forall>t. apply_transition s e \<noteq> Inr t))"
  by (auto simp: apply_transition_error apply_transition_edges is_terminal_def
      lifecycle_edges_def)

lemma lifecycle_reach_edge:
  "reaches apply_transition Pending s \<Longrightarrow> (s, e, t) \<in> set lifecycle_edges
     \<Longrightarrow> reaches apply_transition Pending t"
  by (rule reaches_step [where e = e]) (simp_all add: apply_transition_edges)

lemma lifecycle_reach_working:
  "reaches apply_transition Pending RunningDecision"
  "reaches apply_transition Pending LifecycleState.StepScheduled"
  "reaches apply_transition Pending StepExecuting"
proof -
  show r1: "reaches apply_transition Pending RunningDecision"
    by (rule lifecycle_reach_edge [OF reaches_init, of AssignToNode])
      (simp add: lifecycle_edges_def)
  show r2: "reaches apply_transition Pending LifecycleState.StepScheduled"
    by (rule lifecycle_reach_edge [OF r1, of TransitionEvent.StepScheduled])
      (simp add: lifecycle_edges_def)
  show "reaches apply_transition Pending StepExecuting"
    by (rule lifecycle_reach_edge [OF r2, of ExecuteStep])
      (simp add: lifecycle_edges_def)
qed

lemma lifecycle_reach_from_step:
  assumes "(StepExecuting, e, t) \<in> set lifecycle_edges"
  shows "reaches apply_transition Pending t"
  by (rule lifecycle_reach_edge [OF lifecycle_reach_working(3) assms])

lemma lifecycle_reach_all: "t \<noteq> Reconciling \<Longrightarrow> reaches apply_transition Pending t"
proof (cases t)
  case Hibernated
  have "(RunningDecision, Hibernate, Hibernated) \<in> set lifecycle_edges"
    by (simp add: lifecycle_edges_def)
  then show ?thesis using lifecycle_reach_edge [OF lifecycle_reach_working(1)] Hibernated by blast
next
  case WaitingForTimer
  show ?thesis unfolding WaitingForTimer
    by (rule lifecycle_reach_from_step [of WaitForTimer]) (simp add: lifecycle_edges_def)
next
  case WaitingForSignal
  show ?thesis unfolding WaitingForSignal
    by (rule lifecycle_reach_from_step [of WaitForSignal]) (simp add: lifecycle_edges_def)
next
  case PendingPublication
  show ?thesis unfolding PendingPublication
    by (rule lifecycle_reach_from_step [of YieldWithBlob]) (simp add: lifecycle_edges_def)
next
  case Compensating
  show ?thesis unfolding Compensating
    by (rule lifecycle_reach_from_step [of BeginCompensation]) (simp add: lifecycle_edges_def)
next
  case Completed
  show ?thesis unfolding Completed
    by (rule lifecycle_reach_from_step [of CompleteStep]) (simp add: lifecycle_edges_def)
next
  case Failed
  show ?thesis unfolding Failed
    by (rule lifecycle_reach_from_step [of Fail]) (simp add: lifecycle_edges_def)
next
  case Cancelled
  show ?thesis unfolding Cancelled
    by (rule lifecycle_reach_from_step [of Cancel]) (simp add: lifecycle_edges_def)
qed (auto intro: lifecycle_reach_working reaches_init)

text \<open>
  Every lifecycle state except Reconciling is reached by some sequence of
  accepted events from Pending; Reconciling is reached by none.
\<close>

theorem lifecycle_reachable_states:
  "reaches apply_transition Pending t \<longleftrightarrow> t \<noteq> Reconciling"
proof
  assume "reaches apply_transition Pending t"
  then show "t \<noteq> Reconciling"
    by (rule reaches_invariant) (auto simp: apply_transition_edges lifecycle_edges_def)
qed (rule lifecycle_reach_all)

section \<open>Tables against the transition function\<close>

lemmas table_builder_defs =
  described_transition_def build_transition_def with_description_def with_guard_def
  to_state_def add_transition_def table_builder_def

lemma create_lifecycle_table_terminal:
  "is_terminal_state create_lifecycle_table s = is_terminal s"
  by (auto simp: is_terminal_state_def create_lifecycle_table_def table_builder_defs
      is_terminal_def)

definition rule_core :: "TransitionRule \<Rightarrow> LifecycleState \<times> Guard \<times> SideEffect" where
  "rule_core r = (tr_to r, tr_guard r, tr_side_effect r)"

definition core_rules ::
  "TransitionTable \<Rightarrow> LifecycleState \<times> TransitionEvent \<rightharpoonup> LifecycleState \<times> Guard \<times> SideEffect"
  where
  "core_rules t = (\<lambda>k. map_option rule_core (tt_rules t k))"

lemma core_rules_described:
  "core_rules (described_transition (s, e, u, d) t) =
     (core_rules t)((s, e) \<mapsto> (u, Always, SideEffect_None))"
  by (auto simp: core_rules_def rule_core_def table_builder_defs)

lemma core_rules_lifecycle:
  "core_rules create_lifecycle_table s =
     map_option (\<lambda>u. (u, Always, SideEffect_None))
       (map_of [((Failed, InstanceResumed), RunningDecision),
          ((WaitingForTimer, Fail), Failed), ((WaitingForTimer, Cancel), Cancelled),
          ((WaitingForTimer, TimerExpired), Failed),
          ((WaitingForTimer, TimerFired), StepExecuting), ((StepExecuting, Fail), Failed),
          ((StepExecuting, Cancel), Cancelled), ((StepExecuting, CompleteStep), Completed),
          ((StepExecuting, WaitForTimer), WaitingForTimer),
          ((LifecycleState.StepScheduled, Fail), Failed),
          ((LifecycleState.StepScheduled, Cancel), Cancelled),
          ((LifecycleState.StepScheduled, ExecuteStep), StepExecuting),
          ((RunningDecision, Fail), Failed), ((RunningDecision, Cancel), Cancelled),
          ((RunningDecision, TransitionEvent.StepScheduled), LifecycleState.StepScheduled),
          ((Pending, Cancel), Cancelled), ((Pending, AssignToNode), RunningDecision)] s)"
proof -
  have last: "core_rules (build_transition (with_guard Always (with_description d
      (to_state u (add_transition t r e))))) = (core_rules t)((r, e) \<mapsto> (u, Always, SideEffect_None))"
    for d u t r e
    by (auto simp: core_rules_def rule_core_def table_builder_defs)
  have base: "core_rules table_builder = Map.empty"
    by (auto simp: core_rules_def table_builder_def)
  show ?thesis
    unfolding create_lifecycle_table_def last
    by (simp add: core_rules_described base)
qed

lemma apply_table_core:
  assumes "core_rules t (s, e) = map_option (\<lambda>u. (u, Always, SideEffect_None)) m"
  shows "fst (apply_table t s e) =
     (if is_terminal_state t s \<and> \<not> (s = Failed \<and> e = InstanceResumed)
      then Inl Table_TerminalStateTransition
      else ok_or Table_InvalidTransition m)"
  using assms
  by (cases m; cases "tt_rules t (s, e)")
    (auto simp: apply_table_def core_rules_def rule_core_def)

text \<open>
  The compiled lifecycle table refines the transition function: whatever it
  accepts, \<open>apply\<close> accepts with the same successor, and conversely except for the
  eighteen transitions on signals, publication, hibernation, compensation and
  reconciliation that the table does not list (among them every event of the
  states WaitingForSignal and PendingPublication).
\<close>

theorem lifecycle_table_refines_apply:
  "fst (apply_table create_lifecycle_table s e) = Inr t \<longleftrightarrow>
     apply_transition s e = Inr t
     \<and> s \<notin> {WaitingForSignal, PendingPublication, Hibernated, Compensating, Reconciling, Completed}
     \<and> e \<notin> {WaitForSignal, YieldWithBlob, Hibernate, BeginCompensation}"
  unfolding apply_table_core [OF core_rules_lifecycle]
    create_lifecycle_table_terminal apply_transition_edges
  by (cases s; cases e) (auto simp: is_terminal_def lifecycle_edges_def)

text \<open>
  A clone of a table keeps its states and predicates but replaces every closure
  guard by one that rejects, so the clone refuses what the original decides by a
  closure.
\<close>

lemma clone_table_rejects_closure_guard:
  assumes "tt_rules t (s, e) = Some r" and "tr_guard r = Guard_Fn f"
    and "\<not> is_terminal_state t s"
  shows "apply_table (clone_table t) s e = (Inl Table_GuardRejected, [])"
  using assms
  by (simp add: apply_table_def clone_table_def clone_rule_def is_terminal_state_def)

lemma clone_table_faithful:
  assumes "\<And>r f. tt_rules t (s, e) = Some r \<Longrightarrow> tr_guard r \<noteq> Guard_Fn f"
  shows "fst (apply_table (clone_table t) s e) = fst (apply_table t s e)"
proof (cases "tt_rules t (s, e)")
  case None
  then show ?thesis by (simp add: apply_table_def clone_table_def is_terminal_state_def)
next
  case (Some r)
  then show ?thesis using assms [OF Some]
    by (cases "tr_guard r")
      (auto simp: apply_table_def clone_table_def clone_rule_def is_terminal_state_def)
qed

section \<open>Where the listed transitions and the accepted ones differ\<close>

text \<open>
  \<open>get_valid_transitions\<close> lists exactly the events \<open>apply\<close> accepts, with
  six exceptions: it offers Cancel for hibernated, compensating and reconciling
  instances, which \<open>apply\<close> refuses, and it omits the accepted start of a
  compensation, the failure of a pending publication and the emission of an
  output reference.
\<close>

theorem valid_transitions_vs_apply:
  "List.member (get_valid_transitions s) e \<longleftrightarrow>
     (if (s, e) \<in> {(Hibernated, Cancel), (Compensating, Cancel), (Reconciling, Cancel)} then True
      else if (s, e) \<in> {(StepExecuting, BeginCompensation), (PendingPublication, Fail),
                        (Completed, EmitOutputRef)} then False
      else is_ok (apply_transition s e))
   \<and> \<not> is_ok (apply_transition Hibernated Cancel)
   \<and> \<not> is_ok (apply_transition Compensating Cancel)
   \<and> \<not> is_ok (apply_transition Reconciling Cancel)"
  by (cases s; cases e) (simp_all add: apply_transition_def)

text \<open>
  No instance is stuck: from every state but Cancelled, Failed included,
  some sequence of accepted events leads to Completed.
\<close>

theorem lifecycle_can_complete:
  assumes "s \<noteq> Cancelled"
  shows "\<exists>es. exec apply_transition s es = Inr Completed"
proof -
  let ?go = "[TransitionEvent.StepScheduled, ExecuteStep, CompleteStep]"
  have "exec apply_transition s
      (case s of Pending \<Rightarrow> AssignToNode # ?go | RunningDecision \<Rightarrow> ?go
       | LifecycleState.StepScheduled \<Rightarrow> [ExecuteStep, CompleteStep]
       | StepExecuting \<Rightarrow> [CompleteStep] | WaitingForTimer \<Rightarrow> [TimerFired, CompleteStep]
       | WaitingForSignal \<Rightarrow> [SignalReceived, CompleteStep]
       | PendingPublication \<Rightarrow> [ConfirmPublication]
       | Hibernated \<Rightarrow> WakeFromHibernation # ?go | Compensating \<Rightarrow> [CompensationCompleted]
       | Reconciling \<Rightarrow> ReconciliationCompleted # ?go | Completed \<Rightarrow> []
       | Failed \<Rightarrow> InstanceResumed # ?go | Cancelled \<Rightarrow> []) = Inr Completed"
    using assms by (cases s) (simp_all add: apply_transition_def)
  then show ?thesis by blast
qed

theorem lifecycle_can_complete_witness:
  "\<exists>es. exec apply_transition Failed es = Inr Completed"
  by (rule lifecycle_can_complete) simp

end
