(* ===== verification/Bytes.thy ===== *)
theory Bytes
  imports Prelude
begin

text \<open>
  Byte strings: the big-endian encodings of Rust's \<open>to_be_bytes\<close> and
  \<open>from_be_bytes\<close>, the lexicographic order in which the key-value store keeps
  its keys, and the contract of an encoder with its decoder.
\<close>

type_synonym bytes = "u8 list"

section \<open>Big-endian integers\<close>

fun be_encode :: "nat \<Rightarrow> nat \<Rightarrow> bytes" where
  "be_encode 0 v = []"
| "be_encode (Suc n) v = be_encode n (v div 256) @ [word_of_nat v]"

definition be_decode :: "bytes \<Rightarrow> nat" where
  "be_decode bs = foldl (\<lambda>acc b. acc * 256 + unat b) 0 bs"

definition u16_to_be_bytes :: "u16 \<Rightarrow> bytes" where
  "u16_to_be_bytes w = be_encode 2 (unat w)"

definition u16_from_be_bytes :: "bytes \<Rightarrow> u16" where
  "u16_from_be_bytes bs = word_of_nat (be_decode bs)"

definition u64_to_be_bytes :: "u64 \<Rightarrow> bytes" where
  "u64_to_be_bytes w = be_encode 8 (unat w)"

definition u64_from_be_bytes :: "bytes \<Rightarrow> u64" where
  "u64_from_be_bytes bs = word_of_nat (be_decode bs)"

definition u128_to_be_bytes :: "128 word \<Rightarrow> bytes" where
  "u128_to_be_bytes w = be_encode 16 (unat w)"

definition u128_from_be_bytes :: "bytes \<Rightarrow> 128 word" where
  "u128_from_be_bytes bs = word_of_nat (be_decode bs)"

lemma length_be_encode [simp]: "length (be_encode n v) = n"
  by (induction n arbitrary: v) simp_all

lemma be_decode_Nil [simp]: "be_decode [] = 0"
  by (simp add: be_decode_def)

lemma be_decode_snoc [simp]: "be_decode (bs @ [b]) = be_decode bs * 256 + unat b"
  by (simp add: be_decode_def)

lemma unat_byte_lt [simp]: "unat b < 256" for b :: u8
  using unat_less_2p [of b] by simp

lemma unat_byte_of_nat [simp]: "unat (word_of_nat v :: u8) = v mod 256"
  by (simp add: unat_of_nat)

lemma be_decode_encode: "be_decode (be_encode n v) = v mod 256 ^ n"
proof (induction n arbitrary: v)
  case (Suc n)
  have "v mod (256 * 256 ^ n) = 256 * (v div 256 mod 256 ^ n) + v mod 256"
    by (rule mod_mult2_eq)
  then show ?case using Suc by simp
qed simp

lemma be_decode_less: "be_decode bs < 256 ^ length bs"
proof (induction bs rule: rev_induct)
  case (snoc b bs)
  have "be_decode bs * 256 + unat b < (be_decode bs + 1) * 256"
    using unat_byte_lt [of b] by simp
  also have "\<dots> \<le> 256 ^ length bs * 256"
    using snoc by (intro mult_right_mono) simp_all
  finally show ?case by (simp add: mult.commute)
qed simp

lemma be_encode_decode: "be_encode (length bs) (be_decode bs) = bs"
proof (induction bs rule: rev_induct)
  case (snoc b bs)
  have "(be_decode bs * 256 + unat b) div 256 = be_decode bs"
    using unat_byte_lt [of b] by simp
  moreover have "word_of_nat (be_decode bs * 256 + unat b) = b"
    using unat_byte_of_nat [of "be_decode bs * 256 + unat b"]
    by (intro word_unat_eq_iff [THEN iffD2]) (simp del: of_nat_add of_nat_mult)
  ultimately show ?case using snoc by simp
qed simp

lemma u16_be_roundtrip [simp]: "u16_from_be_bytes (u16_to_be_bytes w) = w"
  using unat_less_2p [of w]
  by (simp add: u16_from_be_bytes_def u16_to_be_bytes_def be_decode_encode)

lemma u64_be_roundtrip [simp]: "u64_from_be_bytes (u64_to_be_bytes w) = w"
  using unat_less_2p [of w]
  by (simp add: u64_from_be_bytes_def u64_to_be_bytes_def be_decode_encode)

lemma u128_be_roundtrip [simp]: "u128_from_be_bytes (u128_to_be_bytes w) = w"
  using unat_less_2p [of w]
  by (simp add: u128_from_be_bytes_def u128_to_be_bytes_def be_decode_encode)

lemma u64_be_inverse:
  assumes "length bs = 8"
  shows "u64_to_be_bytes (u64_from_be_bytes bs) = bs"
proof -
  have "be_decode bs < 2 ^ 64" using be_decode_less [of bs] assms by simp
  then have "unat (word_of_nat (be_decode bs) :: u64) = be_decode bs"
    by (simp add: unat_of_nat)
  then show ?thesis
    using be_encode_decode [of bs] assms by (simp add: u64_to_be_bytes_def u64_from_be_bytes_def)
qed

lemma u128_be_inverse:
  assumes "length bs = 16"
  shows "u128_to_be_bytes (u128_from_be_bytes bs) = bs"
proof -
  have "be_decode bs < 2 ^ 128" using be_decode_less [of bs] assms by simp
  then have "unat (word_of_nat (be_decode bs) :: 128 word) = be_decode bs"
    by (simp add: unat_of_nat)
  then show ?thesis
    using be_encode_decode [of bs] assms by (simp add: u128_to_be_bytes_def u128_from_be_bytes_def)
qed

lemma u16_be_inverse:
  assumes "length bs = 2"
  shows "u16_to_be_bytes (u16_from_be_bytes bs) = bs"
proof -
  have "be_decode bs < 2 ^ 16" using be_decode_less [of bs] assms by simp
  then have "unat (word_of_nat (be_decode bs) :: u16) = be_decode bs"
    by (simp add: unat_of_nat)
  then show ?thesis
    using be_encode_decode [of bs] assms by (simp add: u16_to_be_bytes_def u16_from_be_bytes_def)
qed

lemma length_be_bytes [simp]:
  "length (u16_to_be_bytes h) = 2" "length (u64_to_be_bytes w) = 8"
  "length (u128_to_be_bytes q) = 16"
  by (simp_all add: u16_to_be_bytes_def u64_to_be_bytes_def u128_to_be_bytes_def)

lemma u64_to_be_bytes_inj [simp]: "u64_to_be_bytes v = u64_to_be_bytes w \<longleftrightarrow> v = w"
  by (metis u64_be_roundtrip)

lemma u16_to_be_bytes_inj [simp]: "u16_to_be_bytes v = u16_to_be_bytes w \<longleftrightarrow> v = w"
  by (metis u16_be_roundtrip)

section \<open>Lexicographic order of keys\<close>

fun bytes_less :: "bytes \<Rightarrow> bytes \<Rightarrow> bool" where
  "bytes_less xs [] = False"
| "bytes_less [] (y # ys) = True"
| "bytes_less (x # xs) (y # ys) = (x < y \<or> x = y \<and> bytes_less xs ys)"

lemma bytes_less_irrefl [simp]: "\<not> bytes_less xs xs"
  by (induction xs) simp_all

lemma bytes_less_trans: "bytes_less xs ys \<Longrightarrow> bytes_less ys zs \<Longrightarrow> bytes_less xs zs"
proof (induction xs ys arbitrary: zs rule: bytes_less.induct)
  case (2 y ys)
  then show ?case by (cases zs) simp_all
next
  case (3 x xs y ys)
  then show ?case by (cases zs) (auto intro: less_trans)
qed simp

lemma bytes_less_total: "xs = ys \<or> bytes_less xs ys \<or> bytes_less ys xs"
proof (induction xs ys rule: bytes_less.induct)
  case (1 xs)
  then show ?case by (cases xs) simp_all
next
  case (3 x xs y ys)
  then show ?case by (cases x y rule: linorder_cases) auto
qed simp

lemma bytes_less_append_left [simp]: "bytes_less (ps @ xs) (ps @ ys) = bytes_less xs ys"
  by (induction ps) simp_all

lemma bytes_less_append:
  "length xs = length ys \<Longrightarrow>
     bytes_less (xs @ us) (ys @ vs) \<longleftrightarrow> bytes_less xs ys \<or> xs = ys \<and> bytes_less us vs"
  by (induction xs ys rule: list_induct2) auto

lemma be_foldl:
  "foldl (\<lambda>acc b. acc * 256 + unat b) a bs = a * 256 ^ length bs + be_decode bs"
  for bs :: bytes
  by (induction bs rule: rev_induct) (simp_all add: be_decode_def algebra_simps)

lemma be_decode_Cons: "be_decode (b # bs) = unat b * 256 ^ length bs + be_decode bs"
  using be_foldl [of "unat b" bs] by (simp add: be_decode_def)

lemma bytes_less_decode:
  "length xs = length ys \<Longrightarrow> bytes_less xs ys \<longleftrightarrow> be_decode xs < be_decode ys"
proof (induction xs ys rule: list_induct2)
  case (Cons x xs y ys)
  let ?B = "256 ^ length xs :: nat"
  have bx: "be_decode xs < ?B" and byy: "be_decode ys < ?B"
    using be_decode_less [of xs] be_decode_less [of ys] Cons.hyps by simp_all
  have step: "u * ?B + a < v * ?B + b" if "u < v" "a < ?B" for u v a b :: nat
  proof -
    have "u * ?B + a < (u + 1) * ?B" using that by simp
    also have "\<dots> \<le> v * ?B" using that by (intro mult_right_mono) simp_all
    finally show ?thesis by simp
  qed
  show ?case
  proof (cases x y rule: linorder_cases)
    case less
    then show ?thesis using step [of "unat x" "unat y"] bx Cons.hyps
      by (simp add: be_decode_Cons word_less_nat_alt)
  next
    case equal
    then show ?thesis using Cons by (simp add: be_decode_Cons)
  next
    case greater
    then have "\<not> bytes_less (x # xs) (y # ys)" by auto
    moreover have "be_decode (y # ys) < be_decode (x # xs)"
      using step [of "unat y" "unat x"] byy Cons.hyps greater
      by (simp add: be_decode_Cons word_less_nat_alt)
    ultimately show ?thesis by simp
  qed
qed simp

lemma u64_to_be_bytes_mono: "bytes_less (u64_to_be_bytes v) (u64_to_be_bytes w) \<longleftrightarrow> v < w"
  using unat_less_2p [of v] unat_less_2p [of w]
  by (simp add: bytes_less_decode u64_to_be_bytes_def be_decode_encode word_less_nat_alt)

section \<open>Codecs\<close>

text \<open>
  An encoder with its decoder: decoding an encoded valid value returns it.  It
  follows that distinct valid values never share an encoding.
\<close>

locale codec =
  fixes encode :: "'a \<Rightarrow> bytes"
    and decode :: "bytes \<Rightarrow> 'e + 'a"
    and valid :: "'a \<Rightarrow> bool"
  assumes decode_encode: "valid x \<Longrightarrow> decode (encode x) = Inr x"
begin

lemma encode_inj: "valid x \<Longrightarrow> valid y \<Longrightarrow> encode x = encode y \<Longrightarrow> x = y"
  by (metis decode_encode sum.inject(2))

lemma encode_inj_on: "inj_on encode {x. valid x}"
  by (rule inj_onI) (blast intro: encode_inj)

end

end
