(* ===== verification/Ids.thy ===== *)
theory Ids
  imports Bytes
begin

text \<open>
  Validated identifiers and integers (vo-types/src/types.rs, integer_types.rs,
  string_types.rs, dedupe.rs, errors.rs).  A newtype is modelled by its content;
  the parse functions are the only way the source builds one from text.  The
  \<open>ulid\<close>, \<open>uuid\<close> and \<open>regex\<close> crates are parameters.
\<close>

section \<open>Text\<close>

definition code :: "char \<Rightarrow> nat" where
  "code c = of_char c"

definition is_ascii_digit :: "char \<Rightarrow> bool" where
  "is_ascii_digit c = (48 \<le> code c \<and> code c \<le> 57)"

definition is_ascii_alphanumeric :: "char \<Rightarrow> bool" where
  "is_ascii_alphanumeric c =
     (is_ascii_digit c \<or> 65 \<le> code c \<and> code c \<le> 90 \<or> 97 \<le> code c \<and> code c \<le> 122)"

text \<open>
  \<open>str::chars().count()\<close>: the bytes that are not UTF-8 continuation bytes
  (10xxxxxx).
\<close>

definition chars_count :: "string \<Rightarrow> nat" where
  "chars_count s = length (filter (\<lambda>c. \<not> (128 \<le> code c \<and> code c < 192)) s)"

fun contains_str :: "string \<Rightarrow> string \<Rightarrow> bool" where
  "contains_str pat [] = (pat = [])"
| "contains_str pat (c # cs) = (take (length pat) (c # cs) = pat \<or> contains_str pat cs)"

definition as_bytes :: "string \<Rightarrow> bytes" where
  "as_bytes s = map of_char s"

text \<open>\<open>u64::from_str\<close>: an optional plus sign, then decimal digits within range.\<close>

fun digits_value :: "nat \<Rightarrow> string \<Rightarrow> nat option" where
  "digits_value acc [] = Some acc"
| "digits_value acc (c # cs) =
     (if is_ascii_digit c then digits_value (10 * acc + (code c - 48)) cs else None)"

definition str_parse_u64 :: "string \<Rightarrow> u64 option" where
  "str_parse_u64 s =
     (let ds = (if take 1 s = ''+'' then drop 1 s else s) in
      if ds = [] then None
      else (case digits_value 0 ds of
              None \<Rightarrow> None
            | Some n \<Rightarrow> if n < 2 ^ 64 then Some (word_of_nat n) else None))"

text \<open>\<open>impl Display for u64\<close>: decimal digits without leading zeros.\<close>

fun show_nat :: "nat \<Rightarrow> string" where
  "show_nat n =
     (if n < 10 then [char_of (48 + n)] else show_nat (n div 10) @ [char_of (48 + n mod 10)])"

declare show_nat.simps [simp del]

definition show_u64 :: "u64 \<Rightarrow> string" where
  "show_u64 w = show_nat (unat w)"

section \<open>Parse errors and helpers\<close>

datatype ParseError =
    Empty string
  | InvalidCharacters string string
  | InvalidFormat string string
  | ExceedsMaxLength string nat nat
  | BoundaryViolation string string
  | ConsecutiveHyphens string
  | ConsecutiveSeparators string
  | NotAnInteger string string
  | ZeroValue string
  | OutOfRange string u64 u64 u64
  | InternalError string

definition extract_invalid_chars :: "string \<Rightarrow> (char \<Rightarrow> bool) \<Rightarrow> string" where
  "extract_invalid_chars input is_valid = filter (\<lambda>c. \<not> is_valid c) input"

definition parse_u64_str :: "string \<Rightarrow> string \<Rightarrow> ParseError + u64" where
  "parse_u64_str input type_name = ok_or (NotAnInteger type_name input) (str_parse_u64 input)"

definition require_nonzero :: "u64 \<Rightarrow> string \<Rightarrow> ParseError + u64" where
  "require_nonzero value type_name = (if value = 0 then Inl (ZeroValue type_name) else Inr value)"

definition parse_nonzero_u64 :: "string \<Rightarrow> string \<Rightarrow> ParseError + u64" where
  "parse_nonzero_u64 input type_name =
     and_then (parse_u64_str input type_name) (\<lambda>value. require_nonzero value type_name)"

definition is_identifier_char :: "char \<Rightarrow> bool" where
  "is_identifier_char c = (is_ascii_alphanumeric c \<or> c = CHR ''-'' \<or> c = CHR ''_'')"

definition is_lowercase_hex :: "char \<Rightarrow> bool" where
  "is_lowercase_hex c = (is_ascii_digit c \<or> 97 \<le> code c \<and> code c \<le> 102)"

definition check_identifier_boundaries :: "string \<Rightarrow> string \<Rightarrow> ParseError + unit" where
  "check_identifier_boundaries input type_name =
     (if input \<noteq> [] \<and> hd input = CHR ''-''
      then Inl (BoundaryViolation type_name ''must not start with hyphen'')
      else if input \<noteq> [] \<and> last input = CHR ''-''
      then Inl (BoundaryViolation type_name ''must not end with hyphen'')
      else if input \<noteq> [] \<and> last input = CHR ''_''
      then Inl (BoundaryViolation type_name ''must not end with underscore'')
      else Inr ())"

section \<open>Integer types\<close>

type_synonym SequenceNumber = u64
type_synonym FenceToken = u64
type_synonym TimestampMs = u64
type_synonym FireAtMs = u64
type_synonym AttemptNumber = u64

definition SequenceNumber_parse :: "string \<Rightarrow> ParseError + SequenceNumber" where
  "SequenceNumber_parse input = parse_nonzero_u64 input ''SequenceNumber''"

definition SequenceNumber_try_from :: "u64 \<Rightarrow> ParseError + SequenceNumber" where
  "SequenceNumber_try_from value = require_nonzero value ''SequenceNumber''"

definition EventVersion_parse :: "string \<Rightarrow> ParseError + u64" where
  "EventVersion_parse input = parse_nonzero_u64 input ''EventVersion''"

definition AttemptNumber_parse :: "string \<Rightarrow> ParseError + AttemptNumber" where
  "AttemptNumber_parse input = parse_nonzero_u64 input ''AttemptNumber''"

definition TimeoutMs_parse :: "string \<Rightarrow> ParseError + u64" where
  "TimeoutMs_parse input = parse_nonzero_u64 input ''TimeoutMs''"

definition DurationMs_parse :: "string \<Rightarrow> ParseError + u64" where
  "DurationMs_parse input = parse_u64_str input ''DurationMs''"

definition TimestampMs_parse :: "string \<Rightarrow> ParseError + TimestampMs" where
  "TimestampMs_parse input = parse_u64_str input ''TimestampMs''"

text \<open>
  \<open>TimestampMs::now\<close>, given the clock's milliseconds since the epoch (a u128
  in the source, \<open>None\<close> for a clock set before the epoch).
\<close>

definition TimestampMs_now :: "nat option \<Rightarrow> TimestampMs" where
  "TimestampMs_now since_epoch =
     (let millis = (case since_epoch of None \<Rightarrow> 0 | Some d \<Rightarrow> d) in
      if millis < 2 ^ 64 then word_of_nat millis else - 1)"

definition FireAtMs_parse :: "string \<Rightarrow> ParseError + FireAtMs" where
  "FireAtMs_parse input = parse_u64_str input ''FireAtMs''"

definition has_elapsed :: "FireAtMs \<Rightarrow> TimestampMs \<Rightarrow> bool" where
  "has_elapsed fire_at now = (fire_at < now)"

definition MaxAttempts_parse :: "string \<Rightarrow> ParseError + u64" where
  "MaxAttempts_parse input = parse_nonzero_u64 input ''MaxAttempts''"

definition is_exhausted :: "u64 \<Rightarrow> AttemptNumber \<Rightarrow> bool" where
  "is_exhausted max_attempts attempt = (max_attempts \<le> attempt)"

definition FenceToken_new :: "u64 \<Rightarrow> ParseError + FenceToken" where
  "FenceToken_new value = require_nonzero value ''FenceToken''"

definition FenceToken_parse :: "string \<Rightarrow> ParseError + FenceToken" where
  "FenceToken_parse input = parse_nonzero_u64 input ''FenceToken''"

definition FenceToken_next :: "FenceToken \<Rightarrow> ParseError + FenceToken" where
  "FenceToken_next current =
     and_then (ok_or (OutOfRange ''FenceToken'' current 1 (- 2)) (checked_add current 1))
       FenceToken_new"

section \<open>String types\<close>

type_synonym InstanceId = string
type_synonym WorkflowName = string
type_synonym NodeName = string
type_synonym TimerId = string
type_synonym StepId = string
type_synonym DedupeKey = string
type_synonym u128 = "128 word"

text \<open>
  What the source uses of the \<open>ulid\<close> and \<open>uuid\<close> crates: the 128-bit value of a
  ULID text (or the text of the parse error), the canonical text of a value, and
  the byte forms of UUIDs.
\<close>

record id_crates =
  ulid_from_string :: "string \<Rightarrow> string + u128"
  ulid_to_string :: "u128 \<Rightarrow> string"
  uuid_parse_str :: "string \<Rightarrow> bytes option"
  uuid_new_v5_dns :: "bytes \<Rightarrow> bytes"
  uuid_to_string :: "bytes \<Rightarrow> string"

definition InstanceId_parse :: "id_crates \<Rightarrow> string \<Rightarrow> ParseError + InstanceId" where
  "InstanceId_parse api input =
     (if input = [] then Inl (Empty ''InstanceId'')
      else if length input \<noteq> 26
      then Inl (InvalidFormat ''InstanceId''
                  (''expected 26 characters, got '' @ show_nat (length input)))
      else case ulid_from_string api input of
             Inl e \<Rightarrow> Inl (InvalidFormat ''InstanceId'' (''invalid ULID: '' @ e))
           | Inr ulid \<Rightarrow>
               if ulid = 0
               then Inl (InvalidFormat ''InstanceId''
                           ''invalid ULID validation: nil value not permitted'')
               else Inr (ulid_to_string api ulid))"

definition InstanceId_to_bytes :: "id_crates \<Rightarrow> InstanceId \<Rightarrow> ParseError + bytes" where
  "InstanceId_to_bytes api iid =
     (case ulid_from_string api iid of
        Inl e \<Rightarrow> Inl (InvalidFormat ''InstanceId'' (''cannot convert to bytes: '' @ e))
      | Inr u \<Rightarrow> Inr (u128_to_be_bytes u))"

definition InstanceId_from_bytes :: "id_crates \<Rightarrow> bytes \<Rightarrow> InstanceId" where
  "InstanceId_from_bytes api bs = ulid_to_string api (u128_from_be_bytes bs)"

text \<open>
  \<open>WorkflowName::parse\<close> and \<open>NodeName::parse\<close> have the same body apart from
  the type name in the errors.
\<close>

definition name_parse :: "string \<Rightarrow> string \<Rightarrow> ParseError + string" where
  "name_parse type_name input =
     (if input = [] then Inl (Empty type_name)
      else let invalid = extract_invalid_chars input is_identifier_char in
        if invalid \<noteq> [] then Inl (InvalidCharacters type_name invalid)
        else if 128 < chars_count input
        then Inl (ExceedsMaxLength type_name 128 (chars_count input))
        else if contains_str ''--'' input then Inl (ConsecutiveHyphens type_name)
        else if contains_str ''__'' input \<or> contains_str ''-_'' input \<or> contains_str ''_-'' input
        then Inl (ConsecutiveSeparators type_name)
        else and_then (check_identifier_boundaries input type_name)
          (\<lambda>_. if is_ascii_digit (hd input)
               then Inl (BoundaryViolation type_name ''must not start with digit'')
               else Inr input))"

definition WorkflowName_parse :: "string \<Rightarrow> ParseError + WorkflowName" where
  "WorkflowName_parse input = name_parse ''WorkflowName'' input"

definition NodeName_parse :: "string \<Rightarrow> ParseError + NodeName" where
  "NodeName_parse input = name_parse ''NodeName'' input"

text \<open>\<open>BinaryHash::parse\<close> and \<open>WorkflowVersionHash::parse\<close>, likewise.\<close>

definition hash_parse :: "string \<Rightarrow> string \<Rightarrow> ParseError + string" where
  "hash_parse type_name input =
     (if input = [] then Inl (Empty type_name)
      else let invalid = extract_invalid_chars input is_lowercase_hex in
        if invalid \<noteq> [] then Inl (InvalidCharacters type_name invalid)
        else if length input mod 2 \<noteq> 0
        then Inl (InvalidFormat type_name ''hex string has odd length'')
        else if length input < 8
        then Inl (InvalidFormat type_name ''hex string must be at least 8 characters'')
        else Inr input)"

definition BinaryHash_parse :: "string \<Rightarrow> ParseError + string" where
  "BinaryHash_parse input = hash_parse ''BinaryHash'' input"

definition WorkflowVersionHash_parse :: "string \<Rightarrow> ParseError + string" where
  "WorkflowVersionHash_parse input = hash_parse ''WorkflowVersionHash'' input"

text \<open>\<open>TimerId::parse\<close> and \<open>IdempotencyKey::parse\<close> differ in name and bound.\<close>

definition bounded_id_parse :: "string \<Rightarrow> nat \<Rightarrow> string \<Rightarrow> ParseError + string" where
  "bounded_id_parse type_name max_len input =
     (if input = [] then Inl (Empty type_name)
      else if max_len < chars_count input
      then Inl (ExceedsMaxLength type_name max_len (chars_count input))
      else let invalid = extract_invalid_chars input is_identifier_char in
        if invalid \<noteq> [] then Inl (InvalidCharacters type_name invalid)
        else Inr input)"

definition TimerId_parse :: "string \<Rightarrow> ParseError + TimerId" where
  "TimerId_parse input = bounded_id_parse ''TimerId'' 256 input"

definition IdempotencyKey_parse :: "string \<Rightarrow> ParseError + string" where
  "IdempotencyKey_parse input = bounded_id_parse ''IdempotencyKey'' 1024 input"

definition TimerId_to_bytes :: "id_crates \<Rightarrow> TimerId \<Rightarrow> ParseError + bytes" where
  "TimerId_to_bytes api tid =
     (case uuid_parse_str api tid of
        Some u \<Rightarrow> Inr u
      | None \<Rightarrow>
          (case ulid_from_string api tid of
             Inr u \<Rightarrow> Inr (u128_to_be_bytes u)
           | Inl _ \<Rightarrow> Inr (uuid_new_v5_dns api (as_bytes tid))))"

definition TimerId_from_bytes :: "id_crates \<Rightarrow> bytes \<Rightarrow> TimerId" where
  "TimerId_from_bytes api bs = uuid_to_string api bs"

definition SpawnId_parse :: "string \<Rightarrow> ParseError + string" where
  "SpawnId_parse input =
     (if input = [] then Inl (InvalidCharacters ''SpawnId'' [])
      else let invalid = extract_invalid_chars input is_identifier_char in
        if invalid \<noteq> [] then Inl (InvalidCharacters ''SpawnId'' invalid)
        else and_then (check_identifier_boundaries input ''SpawnId'') (\<lambda>_. Inr input))"

definition StepId_parse :: "string \<Rightarrow> ParseError + StepId" where
  "StepId_parse input =
     (if input = [] then Inl (InvalidCharacters ''StepId'' [])
      else let invalid = extract_invalid_chars input is_identifier_char in
        if invalid \<noteq> [] then Inl (InvalidCharacters ''StepId'' invalid)
        else and_then (check_identifier_boundaries input ''StepId'')
          (\<lambda>_. if hd input = CHR ''_''
               then Inl (BoundaryViolation ''StepId'' ''must not start with underscore'')
               else Inr input))"

text \<open>
  \<open>SignalName::parse\<close>; the parameter is the compiled regular expression
  \<open>^[a-z][a-z0-9_]+$\<close> of the \<open>regex\<close> crate, or the text of its compile error.
\<close>

definition SignalName_parse :: "string + (string \<Rightarrow> bool) \<Rightarrow> string \<Rightarrow> ParseError + string" where
  "SignalName_parse signal_name_regex input =
     (if input = [] then Inl (Empty ''SignalName'')
      else if 256 < length input then Inl (ExceedsMaxLength ''SignalName'' 256 (length input))
      else if CHR 0x00 \<in> set input then Inl (InvalidCharacters ''SignalName'' [CHR 0x5C, CHR ''0''])
      else case signal_name_regex of
             Inl e \<Rightarrow> Inl (InternalError e)
           | Inr is_match \<Rightarrow>
               if is_match input then Inr input
               else Inl (InvalidFormat ''SignalName'' ''must match ^[a-z][a-z0-9_]+$''))"

definition DedupeKey_parse :: "string \<Rightarrow> ParseError + DedupeKey" where
  "DedupeKey_parse input =
     (if input = [] then Inl (Empty ''DedupeKey'')
      else if 256 < chars_count input
      then Inl (ExceedsMaxLength ''DedupeKey'' 256 (chars_count input))
      else Inr input)"

record DedupePartitionKey =
  dpk_instance_id :: InstanceId
  dpk_command_type :: string

definition DedupePartitionKey_new ::
  "InstanceId \<Rightarrow> string \<Rightarrow> ParseError + DedupePartitionKey" where
  "DedupePartitionKey_new instance_id command_type =
     (if command_type = [] then Inl (Empty ''DedupePartitionKey'')
      else if 256 < chars_count command_type
      then Inl (ExceedsMaxLength ''DedupePartitionKey'' 256 (chars_count command_type))
      else Inr \<lparr>dpk_instance_id = instance_id, dpk_command_type = command_type\<rparr>)"

section \<open>Non-empty vectors\<close>

definition NonEmptyVec_new :: "'a list \<Rightarrow> string + 'a list" where
  "NonEmptyVec_new items =
     (if items = [] then Inl ''NonEmptyVec must not be empty'' else Inr items)"

text \<open>The accessors are undefined behaviour or a panic on an empty vector: \<open>None\<close>.\<close>

definition nev_first :: "'a list \<Rightarrow> 'a option" where
  "nev_first items = (case items of [] \<Rightarrow> None | x # xs \<Rightarrow> Some x)"

definition nev_rest :: "'a list \<Rightarrow> 'a list option" where
  "nev_rest items = (case items of [] \<Rightarrow> None | x # xs \<Rightarrow> Some xs)"

section \<open>Facts about the parsers\<close>

lemma code_char_of: "n < 256 \<Longrightarrow> code (char_of n) = n"
  by (simp add: code_def)

lemma digits_value_append:
  "digits_value acc (s @ t) =
     (case digits_value acc s of None \<Rightarrow> None | Some a \<Rightarrow> digits_value a t)"
  by (induction acc s rule: digits_value.induct) simp_all

lemma digit_char: "k < 10 \<Longrightarrow> is_ascii_digit (char_of (48 + k)) \<and> code (char_of (48 + k)) = 48 + k"
  by (simp add: is_ascii_digit_def code_char_of)

lemma digits_value_show_nat: "digits_value 0 (show_nat n) = Some n"
proof (induction n rule: show_nat.induct)
  case (1 n)
  show ?case
  proof (cases "n < 10")
    case True
    then show ?thesis using digit_char [of n] by (subst show_nat.simps) simp
  next
    case False
    then show ?thesis using 1 digit_char [of "n mod 10"]
      by (subst show_nat.simps) (simp add: digits_value_append)
  qed
qed

lemma show_nat_head: "show_nat n \<noteq> [] \<and> is_ascii_digit (hd (show_nat n))"
proof (induction n rule: show_nat.induct)
  case (1 n)
  show ?case
  proof (cases "n < 10")
    case True
    then show ?thesis using digit_char [of n] by (subst (1 2) show_nat.simps) simp
  next
    case False
    then show ?thesis using 1 by (subst (1 2) show_nat.simps) simp
  qed
qed

lemma str_parse_show_u64: "str_parse_u64 (show_u64 w) = Some w"
proof -
  have "take 1 (show_nat n) \<noteq> ''+''" for n
    using show_nat_head [of n] by (cases "show_nat n") (auto simp: is_ascii_digit_def code_def)
  moreover have "unat w < 18446744073709551616" using unat_less_2p [of w] by simp
  ultimately show ?thesis using show_nat_head [of "unat w"]
    by (simp add: str_parse_u64_def show_u64_def digits_value_show_nat Let_def)
qed

lemma str_parse_u64_plus: "ds \<noteq> [] \<Longrightarrow> is_ascii_digit (hd ds)
    \<Longrightarrow> str_parse_u64 (CHR ''+'' # ds) = str_parse_u64 ds"
  by (cases ds) (auto simp: str_parse_u64_def is_ascii_digit_def code_def)

lemma require_nonzero_Inr [simp]: "require_nonzero v tn = Inr w \<longleftrightarrow> v \<noteq> 0 \<and> w = v"
  by (auto simp: require_nonzero_def)

lemma FenceToken_next_cases:
  "FenceToken_next t =
     (if t = - 1 then Inl (OutOfRange ''FenceToken'' t 1 (- 2)) else Inr (t + 1))"
proof (cases "t = - 1")
  case True
  then show ?thesis by (simp add: FenceToken_next_def checked_add_def)
next
  case False
  have lt: "unat t + 1 < 2 ^ 64"
  proof (rule ccontr)
    assume "\<not> ?thesis"
    then have "unat t = 2 ^ 64 - 1" using unat_less_2p [of t] by simp
    then have "unat t = unat (- 1 :: u64)" by simp
    with False show False by (simp only: word_unat_eq_iff)
  qed
  then have s: "checked_add t 1 = Some (t + 1)" by (simp add: checked_add_Some)
  have "unat (t + 1) = unat t + 1" using checked_add_unat [OF s] by simp
  then have "t + 1 \<noteq> 0" by (metis add_is_0 one_neq_zero unat_0)
  with False s show ?thesis by (simp add: FenceToken_next_def FenceToken_new_def require_nonzero_def)
qed

lemma FenceToken_next_less: "FenceToken_next t = Inr u \<Longrightarrow> t < u \<and> u \<noteq> 0"
proof -
  assume "FenceToken_next t = Inr u"
  then have "checked_add t 1 = Some u \<and> u \<noteq> 0"
    by (auto simp: FenceToken_next_def FenceToken_new_def)
  then show ?thesis using checked_add_unat [of t 1 u] by (auto simp: word_less_nat_alt)
qed

text \<open>
  Numbers survive the trip through text: printing a sequence number and
  parsing it back gives the number, whatever its value, and zero is the one
  64-bit number that is refused, with the zero-value error; a timestamp, for
  which zero is legal, always comes back.
\<close>

theorem numeric_ids_roundtrip:
  "SequenceNumber_parse (show_u64 n) =
     (if n = 0 then Inl (ZeroValue ''SequenceNumber'') else Inr n)
   \<and> FenceToken_parse (show_u64 n) =
     (if n = 0 then Inl (ZeroValue ''FenceToken'') else Inr n)
   \<and> TimestampMs_parse (show_u64 n) = Inr n"
  by (simp add: SequenceNumber_parse_def FenceToken_parse_def TimestampMs_parse_def
      parse_nonzero_u64_def parse_u64_str_def require_nonzero_def str_parse_show_u64)

lemma extract_invalid_chars_empty:
  "extract_invalid_chars input p = [] \<longleftrightarrow> (\<forall>c \<in> set input. p c)"
  by (simp add: extract_invalid_chars_def filter_empty_conv)

lemma identifier_char_ascii: "is_identifier_char c \<Longrightarrow> code c < 128"
  by (auto simp: is_identifier_char_def is_ascii_alphanumeric_def is_ascii_digit_def code_def)

lemma chars_count_ascii:
  assumes "\<And>c. c \<in> set s \<Longrightarrow> code c < 128"
  shows "chars_count s = length s"
proof -
  have "filter (\<lambda>c. \<not> (128 \<le> code c \<and> code c < 192)) s = s"
    using assms by (intro filter_True) force
  then show ?thesis by (simp add: chars_count_def)
qed

lemma check_identifier_boundaries_Inr [simp]:
  "check_identifier_boundaries input tn = Inr u \<longleftrightarrow>
     input = [] \<or> hd input \<noteq> CHR ''-'' \<and> last input \<noteq> CHR ''-'' \<and> last input \<noteq> CHR ''_''"
  by (auto simp: check_identifier_boundaries_def)

lemma contains_str_iff: "contains_str pat s \<longleftrightarrow> (\<exists>u v. s = u @ pat @ v)"
proof (induction s)
  case (Cons c cs)
  have "take (length pat) (c # cs) = pat \<longleftrightarrow> (\<exists>v. c # cs = pat @ v)"
    by (metis append_eq_conv_conj)
  then show ?case using Cons by (auto simp: Cons_eq_append_conv)
qed auto


lemma StepId_parse_Inr:
  "StepId_parse input = Inr sid \<longleftrightarrow>
     sid = input \<and> input \<noteq> [] \<and> list_all is_identifier_char input
     \<and> hd input \<notin> {CHR ''-'', CHR ''_''} \<and> last input \<notin> {CHR ''-'', CHR ''_''}"
  by (auto simp: StepId_parse_def Let_def extract_invalid_chars_empty list_all_iff)

text \<open>
  The documented behaviour of the ULID crate the storage layer relies on: the
  canonical text of a value is 26 ASCII letters and digits and parses back to it.
\<close>

definition ulid_law :: "id_crates \<Rightarrow> bool" where
  "ulid_law api \<longleftrightarrow>
     (\<forall>u. ulid_from_string api (ulid_to_string api u) = Inr u
         \<and> length (ulid_to_string api u) = 26
         \<and> list_all is_ascii_alphanumeric (ulid_to_string api u))"

lemma InstanceId_bytes_roundtrip:
  assumes "ulid_law api" and "InstanceId_parse api input = Inr iid"
  obtains bs where "InstanceId_to_bytes api iid = Inr bs" and "length bs = 16"
    and "InstanceId_from_bytes api bs = iid" and "length iid = 26"
proof -
  from assms(2) obtain u where "iid = ulid_to_string api u"
    by (auto simp: InstanceId_parse_def split: if_splits sum.splits)
  with assms(1) show ?thesis
    by (intro that [of "u128_to_be_bytes u"])
      (auto simp: ulid_law_def InstanceId_to_bytes_def InstanceId_from_bytes_def)
qed

section \<open>A concrete ULID crate\<close>

text \<open>
  Crockford base 32, 26 digits, most significant first: an instance that
  satisfies the law, for use where a concrete parameter is needed.
\<close>

definition crockford :: string where
  "crockford = ''0123456789ABCDEFGHJKMNPQRSTVWXYZ''"

fun enc32 :: "nat \<Rightarrow> nat \<Rightarrow> string" where
  "enc32 0 v = []"
| "enc32 (Suc n) v = enc32 n (v div 32) @ [crockford ! (v mod 32)]"

fun index_of :: "char \<Rightarrow> string \<Rightarrow> nat" where
  "index_of c [] = 0"
| "index_of c (d # ds) = (if c = d then 0 else Suc (index_of c ds))"

definition dec32 :: "string \<Rightarrow> nat" where
  "dec32 s = foldl (\<lambda>acc c. acc * 32 + index_of c crockford) 0 s"

definition demo_crates :: id_crates where
  "demo_crates =
     \<lparr>ulid_from_string = (\<lambda>s. if length s = 26 then Inr (word_of_nat (dec32 s)) else Inl ''invalid length''),
      ulid_to_string = (\<lambda>u. enc32 26 (unat u)),
      uuid_parse_str = (\<lambda>s. None),
      uuid_new_v5_dns = (\<lambda>bs. take 16 (bs @ replicate 16 0)),
      uuid_to_string = (\<lambda>bs. map (\<lambda>b. char_of (unat b)) bs)\<rparr>"

lemma index_of_nth: "distinct ds \<Longrightarrow> k < length ds \<Longrightarrow> index_of (ds ! k) ds = k"
proof (induction ds arbitrary: k)
  case (Cons d ds)
  then show ?case by (cases k) (auto simp: nth_mem)
qed simp

lemma crockford_facts: "distinct crockford" "length crockford = 32"
  "list_all is_ascii_alphanumeric crockford"
  by (simp_all add: crockford_def is_ascii_alphanumeric_def is_ascii_digit_def code_def)

lemma dec32_enc32: "dec32 (enc32 n v) = v mod 32 ^ n"
proof (induction n arbitrary: v)
  case (Suc n)
  have "index_of (crockford ! (v mod 32)) crockford = v mod 32"
    by (simp add: index_of_nth crockford_facts)
  moreover have "v mod (32 * 32 ^ n) = 32 * (v div 32 mod 32 ^ n) + v mod 32"
    by (rule mod_mult2_eq)
  ultimately show ?case using Suc by (simp add: dec32_def)
qed (simp add: dec32_def)

lemma enc32_alphanumeric: "length (enc32 n v) = n \<and> list_all is_ascii_alphanumeric (enc32 n v)"
proof (induction n arbitrary: v)
  case (Suc n)
  have "is_ascii_alphanumeric (crockford ! (v mod 32))"
    using crockford_facts(3) by (simp add: list_all_length crockford_facts(2))
  then show ?case using Suc by simp
qed simp

lemma demo_crates_law: "ulid_law demo_crates"
proof -
  have "unat u mod 32 ^ 26 = unat u" for u :: u128
    using unat_less_2p [of u] by simp
  then show ?thesis
    by (simp add: ulid_law_def demo_crates_def enc32_alphanumeric dec32_enc32)
qed

end
