(* ===== verification/Effects.thy ===== *)
theory Effects
  imports Ids Machines "HOL-Library.AList"
begin

text \<open>
  Managed effects: the intent state machine and the effect records
  (vo-types/src/effects) and the journal that stores them
  (vo-storage/src/effect_journal).
\<close>

section \<open>Effect types\<close>

datatype CompensationPolicy = Policy_None | Policy_Manual | Policy_Automatic

datatype EffectIntent = Prepared | Committed | RolledBack

datatype EffectTransitionEvent = Commit | Rollback

datatype EffectTransitionError = Effect_TerminalStateTransition | Effect_InvalidTransition

fun effect_is_terminal :: "EffectIntent \<Rightarrow> bool" where
  "effect_is_terminal Prepared = False"
| "effect_is_terminal Committed = True"
| "effect_is_terminal RolledBack = True"

fun apply_effect_transition ::
  "EffectIntent \<Rightarrow> EffectTransitionEvent \<Rightarrow> EffectTransitionError + EffectIntent" where
  "apply_effect_transition Prepared Commit = Inr Committed"
| "apply_effect_transition Prepared Rollback = Inr RolledBack"
| "apply_effect_transition Committed _ = Inl Effect_TerminalStateTransition"
| "apply_effect_transition RolledBack _ = Inl Effect_TerminalStateTransition"

datatype EffectKind = HttpCall | SqlQuery | BlobWrite

datatype JsonType =
    JsonType_String | JsonType_Number | JsonType_Bool
  | JsonType_Object | JsonType_Array | JsonType_Null

text \<open>\<open>param_types\<close> is listed in the iteration order of the hash map.\<close>

record StepSchema =
  ss_expected_intent :: EffectIntent
  ss_expected_kind :: EffectKind
  ss_required_params :: "string list"
  ss_param_types :: "(string \<times> JsonType) list"

datatype EffectValidationError =
    IntentMismatch EffectIntent EffectIntent
  | KindMismatch EffectKind EffectKind
  | MissingParam string
  | TypeMismatch string JsonType JsonType

record 'j EffectRecord =
  er_intent_id :: string
  er_kind :: EffectKind
  er_params_json :: 'j
  er_status :: EffectIntent
  er_committed_at :: "TimestampMs option"

fun json_type_of :: "json_variant \<Rightarrow> JsonType" where
  "json_type_of JString = JsonType_String"
| "json_type_of JNumber = JsonType_Number"
| "json_type_of JBool = JsonType_Bool"
| "json_type_of JObject = JsonType_Object"
| "json_type_of JArray = JsonType_Array"
| "json_type_of JNull = JsonType_Null"

fun check_required :: "(string \<rightharpoonup> 'j) \<Rightarrow> string list \<Rightarrow> EffectValidationError + unit" where
  "check_required params [] = Inr ()"
| "check_required params (name # names) =
     (if params name = None then Inl (MissingParam name) else check_required params names)"

fun check_param_types ::
  "'j json_api \<Rightarrow> (string \<rightharpoonup> 'j) \<Rightarrow> (string \<times> JsonType) list
     \<Rightarrow> EffectValidationError + unit" where
  "check_param_types api params [] = Inr ()"
| "check_param_types api params ((name, expected) # rest) =
     (case params name of
        None \<Rightarrow> check_param_types api params rest
      | Some value \<Rightarrow>
          (let actual = json_type_of (json_variant_of api value) in
           if actual \<noteq> expected then Inl (TypeMismatch name expected actual)
           else check_param_types api params rest))"

definition validate_effect_against_schema ::
  "'j json_api \<Rightarrow> 'j EffectRecord \<Rightarrow> StepSchema \<Rightarrow> EffectValidationError + unit" where
  "validate_effect_against_schema api effect schema =
     (if er_status effect \<noteq> ss_expected_intent schema
      then Inl (IntentMismatch (er_status effect) (ss_expected_intent schema))
      else if er_kind effect \<noteq> ss_expected_kind schema
      then Inl (KindMismatch (er_kind effect) (ss_expected_kind schema))
      else case as_object api (er_params_json effect) of
             Some params \<Rightarrow>
               and_then (check_required params (ss_required_params schema))
                 (\<lambda>_. check_param_types api params (ss_param_types schema))
           | None \<Rightarrow> Inr ())"

definition EffectRecord_new ::
  "string \<Rightarrow> EffectKind \<Rightarrow> 'j \<Rightarrow> EffectIntent \<Rightarrow> TimestampMs option
     \<Rightarrow> 'j EffectRecord option" where
  "EffectRecord_new intent_id kind params_json status committed_at =
     (if intent_id = [] then None
      else Some \<lparr>er_intent_id = intent_id, er_kind = kind, er_params_json = params_json,
                 er_status = status, er_committed_at = committed_at\<rparr>)"

definition EffectRecord_new_with_schema ::
  "'j json_api \<Rightarrow> string \<Rightarrow> EffectKind \<Rightarrow> 'j \<Rightarrow> EffectIntent \<Rightarrow> TimestampMs option \<Rightarrow> StepSchema
     \<Rightarrow> EffectValidationError + 'j EffectRecord" where
  "EffectRecord_new_with_schema api intent_id kind params_json status committed_at schema =
     (let record = \<lparr>er_intent_id = intent_id, er_kind = kind, er_params_json = params_json,
                    er_status = status, er_committed_at = committed_at\<rparr> in
      if intent_id = [] then Inl (IntentMismatch status (ss_expected_intent schema))
      else and_then (validate_effect_against_schema api record schema) (\<lambda>_. Inr record))"

record 'j Receipt =
  rc_effect_id :: string
  rc_connector_type :: string
  rc_connector_version :: string
  rc_external_receipt :: 'j
  rc_committed_at :: TimestampMs

definition Receipt_new ::
  "string \<Rightarrow> string \<Rightarrow> string \<Rightarrow> 'j \<Rightarrow> TimestampMs \<Rightarrow> 'j Receipt option" where
  "Receipt_new effect_id connector_type connector_version external_receipt committed_at =
     (if effect_id = [] \<or> connector_type = [] then None
      else Some \<lparr>rc_effect_id = effect_id, rc_connector_type = connector_type,
                 rc_connector_version = connector_version,
                 rc_external_receipt = external_receipt, rc_committed_at = committed_at\<rparr>)"

record 'j ExternalReceipt =
  xr_connector_id :: string
  xr_connector_version :: string
  xr_sink_kind :: EffectKind
  xr_receipt_payload :: 'j

definition ExternalReceipt_new ::
  "string \<Rightarrow> string \<Rightarrow> EffectKind \<Rightarrow> 'j \<Rightarrow> 'j ExternalReceipt option" where
  "ExternalReceipt_new connector_id connector_version sink_kind receipt_payload =
     (if connector_id = [] then None
      else Some \<lparr>xr_connector_id = connector_id, xr_connector_version = connector_version,
                 xr_sink_kind = sink_kind, xr_receipt_payload = receipt_payload\<rparr>)"

end
