(* ===== verification/Graphs.thy ===== *)
theory Graphs
  imports Prelude
begin

text \<open>
  Graph theory shared by the workflow validator and the compensation planner:
  adjacency maps and their edge relation, walks and simple cycles, and the facts
  about reachability and acyclicity the correctness proofs of the searches use.
  \<open>position\<close> is \<open>Iterator::position\<close> for an equality test, and \<open>iter_law\<close> says
  what the iteration over a hash table promises.
\<close>

section \<open>Standard library\<close>

fun position :: "'a \<Rightarrow> 'a list \<Rightarrow> nat option" where
  "position x [] = None"
| "position x (y # ys) = (if x = y then Some 0 else map_option Suc (position x ys))"

lemma position_Some: "position x xs = Some i \<Longrightarrow> i < length xs \<and> xs ! i = x"
  by (induction xs arbitrary: i) (auto split: if_splits)

lemma position_None: "position x xs = None \<longleftrightarrow> x \<notin> set xs"
  by (induction xs) auto

lemma position_append:
  "position x (xs @ ys) =
     (if x \<in> set xs then position x xs else map_option ((+) (length xs)) (position x ys))"
  by (induction xs) (auto simp: map_option_case split: option.splits)

lemma position_less: "x \<in> set xs \<Longrightarrow> the (position x xs) < length xs"
  using position_None [of x xs] by (cases "position x xs") (auto dest: position_Some)

text \<open>What a hash set promises of its iteration: every element, once.\<close>

definition iter_law :: "('a list \<Rightarrow> 'a list) \<Rightarrow> bool" where
  "iter_law it \<longleftrightarrow> (\<forall>xs. set (it xs) = set xs \<and> distinct (it xs))"

lemma iter_law_remdups: "iter_law remdups"
  by (simp add: iter_law_def)

section \<open>Precedence in a list\<close>

definition precedes :: "'a list \<Rightarrow> 'a \<Rightarrow> 'a \<Rightarrow> bool" where
  "precedes xs x y \<longleftrightarrow> (\<exists>us vs ws. xs = us @ x # vs @ y # ws)"

lemma precedes_rev: "precedes (rev xs) x y \<longleftrightarrow> precedes xs y x"
proof -
  have "precedes (rev xs) x y" if "precedes xs y x" for x y and xs :: "'a list"
  proof -
    from that obtain us vs ws where "xs = us @ y # vs @ x # ws" by (auto simp: precedes_def)
    then have "rev xs = rev ws @ x # rev vs @ y # rev us" by simp
    then show ?thesis by (auto simp: precedes_def)
  qed
  from this [of xs y x] this [of "rev xs" x y] show ?thesis by auto
qed

lemma precedes_append: "x \<in> set us \<Longrightarrow> precedes (us @ y # vs) x y"
proof -
  assume "x \<in> set us"
  then obtain as bs where "us = as @ x # bs" by (auto dest: split_list)
  then have "us @ y # vs = as @ x # bs @ y # vs" by simp
  then show ?thesis unfolding precedes_def by blast
qed

section \<open>Walks and cycles\<close>

definition edge_rel :: "('a \<rightharpoonup> 'a list) \<Rightarrow> ('a \<times> 'a) set" where
  "edge_rel adj = {(x, y). \<exists>ns. adj x = Some ns \<and> y \<in> set ns}"

lemma edge_rel_empty [simp]: "edge_rel Map.empty = {}"
  by (simp add: edge_rel_def)

fun walk :: "('a \<times> 'a) set \<Rightarrow> 'a list \<Rightarrow> bool" where
  "walk E [] = True"
| "walk E [x] = True"
| "walk E (x # y # zs) = ((x, y) \<in> E \<and> walk E (y # zs))"

text \<open>A simple cycle: a closed walk that repeats no vertex but the first.\<close>

definition is_cycle :: "('a \<times> 'a) set \<Rightarrow> 'a list \<Rightarrow> bool" where
  "is_cycle E c \<longleftrightarrow> 2 \<le> length c \<and> hd c = last c \<and> walk E c \<and> distinct (butlast c)"

lemma walk_snoc: "walk E (xs @ [y]) \<longleftrightarrow> walk E xs \<and> (xs = [] \<or> (last xs, y) \<in> E)"
  by (induction E xs rule: walk.induct) auto

lemma walk_suffix: "walk E (xs @ ys) \<Longrightarrow> walk E ys"
proof (induction xs)
  case (Cons x xs)
  then show ?case by (cases "xs @ ys") auto
qed simp

lemma walk_drop: "walk E xs \<Longrightarrow> walk E (drop i xs)"
  using walk_suffix [of E "take i xs" "drop i xs"] by simp

lemma walk_rtrancl: "walk E xs \<Longrightarrow> xs \<noteq> [] \<Longrightarrow> (hd xs, last xs) \<in> E\<^sup>*"
  by (induction E xs rule: walk.induct) (auto intro: converse_rtrancl_into_rtrancl)

lemma is_cycle_trancl: "is_cycle E c \<Longrightarrow> (hd c, hd c) \<in> E\<^sup>+"
proof -
  assume c: "is_cycle E c"
  then obtain x y zs where xy: "c = x # y # zs"
    by (cases c; cases "tl c") (auto simp: is_cycle_def)
  with c have "(x, y) \<in> E" and "walk E (y # zs)" and "last (y # zs) = x"
    by (auto simp: is_cycle_def)
  then have "(y, x) \<in> E\<^sup>*" using walk_rtrancl [of E "y # zs"] by auto
  with \<open>(x, y) \<in> E\<close> show ?thesis using xy by (auto intro: rtrancl_into_trancl2)
qed

lemma is_cycle_not_acyclic: "is_cycle E c \<Longrightarrow> \<not> acyclic E"
  by (auto simp: acyclic_def dest: is_cycle_trancl)

lemma trancl_into_closed:
  assumes "(x, y) \<in> E\<^sup>+" and "E `` {x} \<subseteq> D" and "E `` D \<subseteq> D"
  shows "y \<in> D"
  using assms(1)
proof (induction rule: trancl_induct)
  case (base y)
  then show ?case using assms(2) by blast
next
  case (step y z)
  then show ?case using assms(3) by blast
qed

lemma acyclic_by_rank:
  assumes "\<And>x y. (x, y) \<in> E \<Longrightarrow> f x < (f y :: nat)"
  shows "acyclic E"
proof (rule acyclicI, intro allI notI)
  fix x
  assume "(x, x) \<in> E\<^sup>+"
  moreover have "(x, y) \<in> E\<^sup>+ \<Longrightarrow> f x < f y" for y
    by (induction rule: trancl_induct) (auto dest: assms)
  ultimately show False by blast
qed

lemma walk_trancl: "walk E (x # xs) \<Longrightarrow> y \<in> set xs \<Longrightarrow> (x, y) \<in> E\<^sup>+"
proof (induction xs arbitrary: x)
  case (Cons z zs)
  then show ?case by (auto intro: trancl_into_trancl2)
qed simp

lemma acyclic_walk_distinct: "acyclic E \<Longrightarrow> walk E xs \<Longrightarrow> distinct xs"
proof (induction xs)
  case (Cons x xs)
  have "walk E xs" using Cons.prems(2) walk_suffix [of E "[x]" xs] by simp
  moreover have "x \<notin> set xs"
    using Cons.prems walk_trancl [of E x xs x] by (auto simp: acyclic_def)
  ultimately show ?case using Cons by simp
qed simp

lemma walk_mono: "walk E xs \<Longrightarrow> E \<subseteq> F \<Longrightarrow> walk F xs"
  by (induction E xs rule: walk.induct) auto

lemma walk_in_Range: "walk E (x # xs) \<Longrightarrow> set xs \<subseteq> Range E"
proof (induction xs arbitrary: x)
  case (Cons y ys)
  then show ?case by auto
qed simp

text \<open>
  In a finite set in which every vertex keeps a successor, every vertex leads to
  a cycle; and no vertex of a closed set ordered by a rank does.
\<close>

definition leads_to_cycle :: "('a \<times> 'a) set \<Rightarrow> 'a \<Rightarrow> bool" where
  "leads_to_cycle E x \<longleftrightarrow> (\<exists>y. (x, y) \<in> E\<^sup>* \<and> (y, y) \<in> E\<^sup>+)"

lemma stuck_leads_to_cycle:
  assumes fin: "finite R" and x: "x \<in> R" and succ: "\<And>a. a \<in> R \<Longrightarrow> \<exists>b \<in> R. (a, b) \<in> E"
  shows "leads_to_cycle E x"
proof (rule ccontr)
  assume none: "\<not> leads_to_cycle E x"
  let ?Q = "{a \<in> R. (x, a) \<in> E\<^sup>*}" and ?F = "{(a, b) \<in> E. a \<in> R \<and> b \<in> R \<and> (x, a) \<in> E\<^sup>*}"
  have "?F \<subseteq> R \<times> R" by auto
  then have "finite ?F" by (rule finite_subset) (simp add: fin)
  moreover have "acyclic ?F"
  proof (intro acyclicI allI notI)
    fix a
    assume a: "(a, a) \<in> ?F\<^sup>+"
    then have "(x, a) \<in> E\<^sup>*" by (auto elim: converse_tranclE)
    moreover have "(a, a) \<in> E\<^sup>+" using a by (rule trancl_mono) auto
    ultimately show False using none by (auto simp: leads_to_cycle_def)
  qed
  ultimately have "wf (?F\<inverse>)" by (rule finite_acyclic_wf_converse)
  moreover have "x \<in> ?Q" using x by simp
  ultimately obtain z where z: "z \<in> ?Q" "\<And>y. (y, z) \<in> ?F\<inverse> \<Longrightarrow> y \<notin> ?Q" by (rule wfE_min) blast
  then obtain b where "b \<in> R" "(z, b) \<in> E" using succ by blast
  then show False using z by (auto intro: rtrancl_into_rtrancl)
qed

lemma ranked_no_cycle:
  assumes closed: "E `` D \<subseteq> D" and x: "x \<in> D"
    and rank: "\<And>a b. a \<in> D \<Longrightarrow> (a, b) \<in> E \<Longrightarrow> f b < (f a :: nat)"
  shows "\<not> leads_to_cycle E x"
proof
  assume "leads_to_cycle E x"
  then obtain y where y: "(x, y) \<in> E\<^sup>*" "(y, y) \<in> E\<^sup>+" by (auto simp: leads_to_cycle_def)
  have "y \<in> D" using y(1) x closed by (induction rule: rtrancl_induct) auto
  have "(y, z) \<in> E\<^sup>+ \<Longrightarrow> z \<in> D \<and> f z < f y" for z
  proof (induction rule: trancl_induct)
    case (base z)
    then show ?case using \<open>y \<in> D\<close> rank closed by blast
  next
    case (step z w)
    then show ?case using rank [of z w] closed by auto
  qed
  then show False using y(2) by blast
qed

lemma cycle_members_lead:
  assumes "is_cycle E c" and "x \<in> set c"
  shows "leads_to_cycle E x"
proof -
  from assms(2) obtain us vs where c: "c = us @ x # vs" by (auto dest: split_list)
  then have "walk E (x # vs)" using assms(1) walk_suffix [of E us "x # vs"] by (simp add: is_cycle_def)
  then have "(x, last c) \<in> E\<^sup>*" using walk_rtrancl [of E "x # vs"] c by auto
  moreover have "last c = hd c" using assms(1) by (simp add: is_cycle_def)
  ultimately show ?thesis using is_cycle_trancl [OF assms(1)] by (auto simp: leads_to_cycle_def)
qed

lemma leads_to_cycle_Domain: "leads_to_cycle E x \<Longrightarrow> x \<in> Domain E"
  by (auto simp: leads_to_cycle_def elim: converse_rtranclE converse_tranclE)

lemma acyclic_iff_no_leads: "acyclic E \<longleftrightarrow> (\<forall>x. \<not> leads_to_cycle E x)"
  by (auto simp: acyclic_def leads_to_cycle_def)

end
