(* ===== verification/Workflow.thy ===== *)
theory Workflow
  imports Effects Graphs Complex_Main
begin

text \<open>
  Workflow definitions and their validation (vo-types/src/workflow): retry
  policies, edge conditions, cycle detection by depth-first search, the
  connectivity check and the successor function of the scheduler.  Node names
  are the graph's vertices; the two traversals carry fuel, and the lemmas show
  that the fuel the entry points supply is always enough.
\<close>

section \<open>Nodes, edges and retry policies\<close>

datatype StepOutcome = Success | Failure

datatype EdgeCondition = Edge_Always | OnSuccess | OnFailure

fun matches :: "EdgeCondition \<Rightarrow> StepOutcome \<Rightarrow> bool" where
  "matches Edge_Always outcome = True"
| "matches OnSuccess outcome = (outcome = Success)"
| "matches OnFailure outcome = (outcome = Failure)"

text \<open>The values of an \<open>f64\<close> that the validation distinguishes.\<close>

datatype f64 = F64_Finite rat | F64_Infinite | F64_NaN

fun valid_multiplier :: "f64 \<Rightarrow> bool" where
  "valid_multiplier (F64_Finite q) = (1 \<le> q)"
| "valid_multiplier F64_Infinite = False"
| "valid_multiplier F64_NaN = False"

datatype RetryPolicyError =
    ZeroAttempts | InvalidMultiplier f64 | MaxBackoffTooSmall u64 u64

record RetryPolicy =
  rp_max_attempts :: u8
  rp_backoff_ms :: u64
  rp_backoff_multiplier :: f64
  rp_max_backoff_ms :: u64

definition RetryPolicy_new :: "u8 \<Rightarrow> u64 \<Rightarrow> f64 \<Rightarrow> RetryPolicyError + RetryPolicy" where
  "RetryPolicy_new max_attempts backoff_ms backoff_multiplier =
     (if max_attempts = 0 then Inl ZeroAttempts
      else if \<not> valid_multiplier backoff_multiplier
      then Inl (InvalidMultiplier backoff_multiplier)
      else Inr \<lparr>rp_max_attempts = max_attempts, rp_backoff_ms = backoff_ms,
                rp_backoff_multiplier = backoff_multiplier, rp_max_backoff_ms = - 1\<rparr>)"

definition with_max_backoff ::
  "u8 \<Rightarrow> u64 \<Rightarrow> f64 \<Rightarrow> u64 \<Rightarrow> RetryPolicyError + RetryPolicy" where
  "with_max_backoff max_attempts backoff_ms backoff_multiplier max_backoff_ms =
     (if max_attempts = 0 then Inl ZeroAttempts
      else if \<not> valid_multiplier backoff_multiplier
      then Inl (InvalidMultiplier backoff_multiplier)
      else if max_backoff_ms < backoff_ms
      then Inl (MaxBackoffTooSmall max_backoff_ms backoff_ms)
      else Inr \<lparr>rp_max_attempts = max_attempts, rp_backoff_ms = backoff_ms,
                rp_backoff_multiplier = backoff_multiplier,
                rp_max_backoff_ms = max_backoff_ms\<rparr>)"

record DagNode =
  node_name :: NodeName
  retry_policy :: RetryPolicy
  compensation_policy :: "CompensationPolicy option"

definition valid_default :: "NodeName \<Rightarrow> RetryPolicyError + DagNode" where
  "valid_default name =
     and_then (RetryPolicy_new 1 0 (F64_Finite 1))
       (\<lambda>rp. Inr \<lparr>node_name = name, retry_policy = rp, compensation_policy = None\<rparr>)"

record Edge =
  source_node :: NodeName
  target_node :: NodeName
  condition :: EdgeCondition

datatype WorkflowDefinitionError =
    DeserializationFailed string
  | EmptyWorkflow
  | CycleDetected "NodeName list"
  | UnknownNode NodeName NodeName
  | DuplicateNode NodeName
  | InvalidRetryPolicy NodeName RetryPolicyError
  | NoStartNode
  | OrphanNodes "NodeName list"
  | UnreachableNodes "NodeName list"

section \<open>Cycle detection\<close>

type_synonym adjacency = "NodeName \<rightharpoonup> NodeName list"

definition push_target :: "Edge \<Rightarrow> adjacency \<Rightarrow> adjacency" where
  "push_target e adj =
     adj(source_node e \<mapsto> (case adj (source_node e) of None \<Rightarrow> [] | Some ts \<Rightarrow> ts) @ [target_node e])"

definition build_adj :: "DagNode list \<Rightarrow> Edge list \<Rightarrow> adjacency" where
  "build_adj nodes edges =
     fold push_target edges
       (fold (\<lambda>n adj. if adj (node_name n) = None then adj(node_name n \<mapsto> []) else adj)
          nodes Map.empty)"

text \<open>
  \<open>dfs_cycle\<close> returns the cycle it found, if any, with the updated colours and
  path; the outer \<open>None\<close> means the fuel ran out.  \<open>dfs_neighbors\<close> is the
  \<open>find_map\<close> over the neighbours.
\<close>

type_synonym dfs_result = "(NodeName list option \<times> (NodeName \<rightharpoonup> u8) \<times> NodeName list) option"

fun dfs_cycle ::
  "nat \<Rightarrow> adjacency \<Rightarrow> NodeName \<Rightarrow> (NodeName \<rightharpoonup> u8) \<Rightarrow> NodeName list \<Rightarrow> dfs_result"
and dfs_neighbors ::
  "nat \<Rightarrow> adjacency \<Rightarrow> NodeName list \<Rightarrow> (NodeName \<rightharpoonup> u8) \<Rightarrow> NodeName list \<Rightarrow> dfs_result" where
  "dfs_cycle 0 adj current st path = None"
| "dfs_cycle (Suc fuel) adj current st path =
     (if st current = Some 1 then
        (case position current path of
           None \<Rightarrow> Some (None, st, path)
         | Some start_idx \<Rightarrow> Some (Some (drop start_idx path @ [current]), st, path))
      else if st current = Some 2 then Some (None, st, path)
      else
        (let st1 = st(current \<mapsto> 1); path1 = path @ [current] in
         case adj current of
           Some neighbors \<Rightarrow>
             (case dfs_neighbors fuel adj neighbors st1 path1 of
                None \<Rightarrow> None
              | Some (Some cycle, st2, path2) \<Rightarrow> Some (Some cycle, st2, path2)
              | Some (None, st2, path2) \<Rightarrow> Some (None, st2(current \<mapsto> 2), butlast path2))
         | None \<Rightarrow> Some (None, st1(current \<mapsto> 2), butlast path1)))"
| "dfs_neighbors fuel adj [] st path = Some (None, st, path)"
| "dfs_neighbors fuel adj (n # ns) st path =
     (case dfs_cycle fuel adj n st path of
        None \<Rightarrow> None
      | Some (Some cycle, st1, path1) \<Rightarrow> Some (Some cycle, st1, path1)
      | Some (None, st1, path1) \<Rightarrow> dfs_neighbors fuel adj ns st1 path1)"

text \<open>The loop over the remaining nodes, skipping those already visited.\<close>

fun dfs_rest ::
  "nat \<Rightarrow> adjacency \<Rightarrow> NodeName list \<Rightarrow> (NodeName \<rightharpoonup> u8) \<Rightarrow> NodeName list \<Rightarrow> dfs_result" where
  "dfs_rest fuel adj [] st path = Some (None, st, path)"
| "dfs_rest fuel adj (n # ns) st path =
     (if st n = None then
        (case dfs_cycle fuel adj n st path of
           None \<Rightarrow> None
         | Some (Some cycle, st1, path1) \<Rightarrow> Some (Some cycle, st1, path1)
         | Some (None, st1, path1) \<Rightarrow> dfs_rest fuel adj ns st1 path1)
      else dfs_rest fuel adj ns st path)"

text \<open>
  \<open>detect_cycle\<close>: the outer option is \<open>None\<close> only where the source panics, on an
  empty node list.
\<close>

definition detect_cycle :: "DagNode list \<Rightarrow> Edge list \<Rightarrow> NodeName list option option" where
  "detect_cycle nodes edges =
     (let adj = build_adj nodes edges; fuel = Suc (length nodes + length edges) in
      case nodes of
        [] \<Rightarrow> None
      | first # rest \<Rightarrow>
          (case dfs_cycle fuel adj (node_name first) Map.empty [] of
             None \<Rightarrow> None
           | Some (Some cycle, st, path) \<Rightarrow> Some (Some cycle)
           | Some (None, st, path) \<Rightarrow>
               map_option fst (dfs_rest fuel adj (map node_name rest) st path)))"

section \<open>Connectivity\<close>

definition zero_degree :: "NodeName \<Rightarrow> (NodeName \<rightharpoonup> nat) \<Rightarrow> (NodeName \<rightharpoonup> nat)" where
  "zero_degree name m = (if m name = None then m(name \<mapsto> 0) else m)"

definition bump_degree :: "NodeName \<Rightarrow> (NodeName \<rightharpoonup> nat) \<Rightarrow> (NodeName \<rightharpoonup> nat)" where
  "bump_degree name m = m(name \<mapsto> (case m name of None \<Rightarrow> 0 | Some d \<Rightarrow> d) + 1)"

fun visit_neighbors ::
  "NodeName list \<Rightarrow> NodeName set \<Rightarrow> NodeName list \<Rightarrow> NodeName set \<times> NodeName list" where
  "visit_neighbors [] reachable queue = (reachable, queue)"
| "visit_neighbors (n # ns) reachable queue =
     (if n \<in> reachable then visit_neighbors ns reachable queue
      else visit_neighbors ns (insert n reachable) (queue @ [n]))"

fun bfs :: "nat \<Rightarrow> adjacency \<Rightarrow> NodeName list \<Rightarrow> NodeName set \<Rightarrow> NodeName set option" where
  "bfs fuel adj [] reachable = Some reachable"
| "bfs 0 adj (current # queue) reachable = None"
| "bfs (Suc fuel) adj (current # queue) reachable =
     (case adj current of
        None \<Rightarrow> bfs fuel adj queue reachable
      | Some neighbors \<Rightarrow>
          (case visit_neighbors neighbors reachable queue of
             (reachable', queue') \<Rightarrow> bfs fuel adj queue' reachable'))"

text \<open>
  \<open>hash_iter\<close> is the order in which the hash set of node names is iterated.  The
  outer option is \<open>None\<close> only if the search ran out of fuel.
\<close>

definition validate_connectivity ::
  "(NodeName list \<Rightarrow> NodeName list) \<Rightarrow> DagNode list \<Rightarrow> Edge list
     \<Rightarrow> (WorkflowDefinitionError + unit) option" where
  "validate_connectivity hash_iter nodes edges =
     (if length nodes \<le> 1 \<or> edges = [] then Some (Inr ())
      else
        let node_names = hash_iter (map node_name nodes);
            zeros = fold zero_degree node_names Map.empty;
            in_degree = fold (\<lambda>e. bump_degree (target_node e)) edges zeros;
            out_degree = fold (\<lambda>e. bump_degree (source_node e)) edges zeros;
            orphan_nodes = map node_name (filter (\<lambda>n.
              in_degree (node_name n) = Some 0 \<and> out_degree (node_name n) = Some 0) nodes)
        in
        if orphan_nodes \<noteq> [] then Some (Inl (OrphanNodes orphan_nodes))
        else
          let start_nodes = filter (\<lambda>name. in_degree name = Some 0) node_names in
          if start_nodes = [] then Some (Inl NoStartNode)
          else
            (case bfs (Suc (length nodes + length edges)) (fold push_target edges Map.empty)
                    start_nodes (set start_nodes) of
               None \<Rightarrow> None
             | Some reachable \<Rightarrow>
                 (let unreachable_nodes = filter (\<lambda>name. name \<notin> reachable) node_names in
                  if unreachable_nodes \<noteq> [] then Some (Inl (UnreachableNodes unreachable_nodes))
                  else Some (Inr ()))))"

section \<open>Workflow definitions\<close>

record 'v WorkflowDefinition =
  workflow_name :: WorkflowName
  nodes :: "DagNode list"
  edges :: "Edge list"
  version :: 'v

record 'v UnvalidatedWorkflow =
  uw_workflow_name :: WorkflowName
  uw_nodes :: "DagNode list"
  uw_edges :: "Edge list"
  uw_version :: "'v option"

fun check_duplicates ::
  "nat \<Rightarrow> (NodeName \<rightharpoonup> nat) \<Rightarrow> DagNode list \<Rightarrow> WorkflowDefinitionError + unit" where
  "check_duplicates i seen [] = Inr ()"
| "check_duplicates i seen (n # ns) =
     (if seen (node_name n) \<noteq> None then Inl (DuplicateNode (node_name n))
      else check_duplicates (Suc i) (seen(node_name n \<mapsto> i)) ns)"

fun check_retry_policies :: "DagNode list \<Rightarrow> WorkflowDefinitionError + unit" where
  "check_retry_policies [] = Inr ()"
| "check_retry_policies (n # ns) =
     and_then (map_err (InvalidRetryPolicy (node_name n))
        (RetryPolicy_new (rp_max_attempts (retry_policy n)) (rp_backoff_ms (retry_policy n))
           (rp_backoff_multiplier (retry_policy n))))
       (\<lambda>_. check_retry_policies ns)"

fun check_edge_references ::
  "NodeName set \<Rightarrow> Edge list \<Rightarrow> WorkflowDefinitionError + unit" where
  "check_edge_references node_names [] = Inr ()"
| "check_edge_references node_names (e # es) =
     (if source_node e \<notin> node_names then Inl (UnknownNode (source_node e) (source_node e))
      else if target_node e \<notin> node_names then Inl (UnknownNode (source_node e) (target_node e))
      else check_edge_references node_names es)"

text \<open>
  \<open>min_version\<close> is \<open>WorkflowVersion::min()\<close> of the \<open>semver\<close> crate.  The outer
  option is \<open>None\<close> only if a traversal ran out of fuel or panicked.
\<close>

definition validate_unvalidated ::
  "'v \<Rightarrow> (NodeName list \<Rightarrow> NodeName list) \<Rightarrow> 'v UnvalidatedWorkflow
     \<Rightarrow> (WorkflowDefinitionError + 'v WorkflowDefinition) option" where
  "validate_unvalidated min_version hash_iter u =
     (if uw_nodes u = [] then Some (Inl EmptyWorkflow)
      else
        (case and_then (check_duplicates 0 Map.empty (uw_nodes u))
                (\<lambda>_. and_then (check_retry_policies (uw_nodes u))
                  (\<lambda>_. check_edge_references (set (map node_name (uw_nodes u))) (uw_edges u))) of
           Inl e \<Rightarrow> Some (Inl e)
         | Inr _ \<Rightarrow>
             (case detect_cycle (uw_nodes u) (uw_edges u) of
                None \<Rightarrow> None
              | Some (Some cycle_nodes) \<Rightarrow> Some (Inl (CycleDetected cycle_nodes))
              | Some None \<Rightarrow>
                  (case validate_connectivity hash_iter (uw_nodes u) (uw_edges u) of
                     None \<Rightarrow> None
                   | Some (Inl e) \<Rightarrow> Some (Inl e)
                   | Some (Inr _) \<Rightarrow>
                       Some (Inr \<lparr>workflow_name = uw_workflow_name u, nodes = uw_nodes u,
                         edges = uw_edges u,
                         version = (case uw_version u of Some v \<Rightarrow> v | None \<Rightarrow> min_version)\<rparr>)))))"

definition get_node :: "'v WorkflowDefinition \<Rightarrow> NodeName \<Rightarrow> DagNode option" where
  "get_node def name = find (\<lambda>n. node_name n = name) (nodes def)"

definition next_nodes ::
  "NodeName \<Rightarrow> StepOutcome \<Rightarrow> 'v WorkflowDefinition \<Rightarrow> DagNode list" where
  "next_nodes current last_outcome def =
     List.map_filter (\<lambda>e. get_node def (target_node e))
       (filter (\<lambda>e. source_node e = current \<and> matches (condition e) last_outcome) (edges def))"

text \<open>
  Version compatibility; \<open>major\<close> and \<open>show_version\<close> are the \<open>semver\<close> crate's.
\<close>

datatype VersionCompatResult = Exact | Compatible string | Incompatible string

definition check_compat ::
  "('v \<Rightarrow> u64) \<Rightarrow> ('v \<Rightarrow> string) \<Rightarrow> 'v \<Rightarrow> 'v \<Rightarrow> VersionCompatResult" where
  "check_compat major show_version self other =
     (if self = other then Exact
      else if major self = major other
      then Compatible (''workflow version '' @ show_version self @ '' differs from ''
             @ show_version other @ '' (minor/patch mismatch but same major)'')
      else Incompatible (''workflow version '' @ show_version self @ '' is incompatible with ''
             @ show_version other @ '' (major version mismatch)''))"

section \<open>The graph of a definition\<close>

definition graph :: "Edge list \<Rightarrow> (NodeName \<times> NodeName) set" where
  "graph es = (\<lambda>e. (source_node e, target_node e)) ` set es"

lemma edge_rel_push_target:
  "edge_rel (push_target e adj) = insert (source_node e, target_node e) (edge_rel adj)"
  by (auto simp: edge_rel_def push_target_def split: option.splits if_splits)

lemma edge_rel_fold_push: "edge_rel (fold push_target es adj) = graph es \<union> edge_rel adj"
  by (induction es arbitrary: adj) (auto simp: edge_rel_push_target graph_def)

lemma dom_fold_push: "dom (fold push_target es adj) = dom adj \<union> source_node ` set es"
  by (induction es arbitrary: adj) (auto simp: push_target_def)

abbreviation node_entries :: "DagNode list \<Rightarrow> adjacency \<Rightarrow> adjacency" where
  "node_entries \<equiv> fold (\<lambda>n adj. if adj (node_name n) = None then adj(node_name n \<mapsto> []) else adj)"

lemma node_entries:
  "dom (node_entries ns adj) = dom adj \<union> node_name ` set ns"
  "edge_rel (node_entries ns adj) = edge_rel adj"
proof (induction ns arbitrary: adj)
  case (Cons n ns)
  {
    case 1
    show ?case by (auto simp: Cons(1))
  next
    case 2
    show ?case by (simp add: Cons(2)) (auto simp: edge_rel_def split: if_splits)
  }
qed simp_all

lemma build_adj:
  "dom (build_adj ns es) = node_name ` set ns \<union> source_node ` set es"
  "edge_rel (build_adj ns es) = graph es"
  by (simp_all add: build_adj_def dom_fold_push edge_rel_fold_push node_entries)

section \<open>Correctness of the depth-first search\<close>

definition finished :: "(NodeName \<rightharpoonup> u8) \<Rightarrow> NodeName set" where
  "finished st = {x. st x = Some 2}"

text \<open>
  The invariant: the nodes coloured 1 are the path, which is a walk without
  repetition; the nodes coloured 2 are closed under successors and lie on no
  cycle.
\<close>

definition dfs_inv :: "adjacency \<Rightarrow> (NodeName \<rightharpoonup> u8) \<Rightarrow> NodeName list \<Rightarrow> bool" where
  "dfs_inv adj st path \<longleftrightarrow>
     ran st \<subseteq> {1, 2} \<and> distinct path \<and> set path = {x. st x = Some 1}
     \<and> walk (edge_rel adj) path
     \<and> edge_rel adj `` finished st \<subseteq> finished st
     \<and> (\<forall>x \<in> finished st. (x, x) \<notin> (edge_rel adj)\<^sup>+)"

lemma dfs_inv_enter:
  assumes inv: "dfs_inv adj st path"
    and cur: "st current \<noteq> Some 1" "st current \<noteq> Some 2"
    and pred: "path = [] \<or> (last path, current) \<in> edge_rel adj"
  shows "dfs_inv adj (st(current \<mapsto> 1)) (path @ [current])"
    and "finished (st(current \<mapsto> 1)) = finished st"
proof -
  have d: "finished (st(current \<mapsto> 1)) = finished st" using cur by (auto simp: finished_def)
  have r: "ran (st(current \<mapsto> 1)) \<subseteq> {1, 2}"
    using inv by (auto simp: dfs_inv_def ran_def split: if_splits)
  have s: "set (path @ [current]) = {x. (st(current \<mapsto> 1)) x = Some 1}"
    using inv by (auto simp: dfs_inv_def)
  have "distinct (path @ [current])" "walk (edge_rel adj) (path @ [current])"
    using inv pred cur by (auto simp: dfs_inv_def walk_snoc)
  with d r s inv show "dfs_inv adj (st(current \<mapsto> 1)) (path @ [current])"
    unfolding dfs_inv_def d by blast
  show "finished (st(current \<mapsto> 1)) = finished st" by (rule d)
qed

lemma dfs_inv_leave:
  assumes inv: "dfs_inv adj st (path @ [current])"
    and succs: "edge_rel adj `` {current} \<subseteq> finished st"
  shows "dfs_inv adj (st(current \<mapsto> 2)) path"
    and "finished (st(current \<mapsto> 2)) = insert current (finished st)"
proof -
  let ?E = "edge_rel adj"
  have d: "finished (st(current \<mapsto> 2)) = insert current (finished st)" by (auto simp: finished_def)
  have S: "set (path @ [current]) = {x. st x = Some 1}" and nd: "current \<notin> set path"
    using inv by (simp_all only: dfs_inv_def distinct_append) auto
  have "current \<in> set (path @ [current])" by simp
  then have one: "st current = Some 1" unfolding S by simp
  then have "current \<notin> finished st" by (simp add: finished_def)
  then have nc: "(current, current) \<notin> ?E\<^sup>+"
    using trancl_into_closed [of current current ?E "finished st"] succs inv by (auto simp: dfs_inv_def)
  have r: "ran (st(current \<mapsto> 2)) \<subseteq> {1, 2}"
    using inv by (auto simp: dfs_inv_def ran_def split: if_splits)
  have "set path = {x. st x = Some 1} - {current}" using S nd by auto
  then have s: "set path = {x. (st(current \<mapsto> 2)) x = Some 1}" by auto
  have "distinct path" "walk ?E path" using inv by (auto simp: dfs_inv_def walk_snoc)
  moreover have "?E `` insert current (finished st) \<subseteq> insert current (finished st)"
    using succs inv by (auto simp: dfs_inv_def)
  moreover have "\<forall>x \<in> insert current (finished st). (x, x) \<notin> ?E\<^sup>+"
    using nc inv by (auto simp: dfs_inv_def)
  ultimately show "dfs_inv adj (st(current \<mapsto> 2)) path"
    using r s unfolding dfs_inv_def d by blast
  show "finished (st(current \<mapsto> 2)) = insert current (finished st)" by (rule d)
qed

lemma back_edge_cycle:
  assumes "dfs_inv adj st path" and "path = [] \<or> (last path, current) \<in> edge_rel adj"
    and "position current path = Some i"
  shows "is_cycle (edge_rel adj) (drop i path @ [current])"
proof -
  have i: "i < length path" "path ! i = current" using position_Some [OF assms(3)] by simp_all
  have ne: "drop i path \<noteq> []" using i by simp
  have "hd (drop i path) = current" using i by (simp add: hd_drop_conv_nth)
  moreover have "last (drop i path) = last path" using i by (simp add: last_drop)
  moreover have "walk (edge_rel adj) path" "distinct path" using assms(1) by (simp_all add: dfs_inv_def)
  moreover have "path \<noteq> []" using i by auto
  moreover have "Suc 0 \<le> length path - i" using i by simp
  ultimately show ?thesis using ne assms(2)
    by (simp add: is_cycle_def walk_snoc walk_drop)
qed

definition dfs_post ::
  "adjacency \<Rightarrow> (NodeName \<rightharpoonup> u8) \<Rightarrow> NodeName list \<Rightarrow> NodeName set
     \<Rightarrow> NodeName list option \<Rightarrow> (NodeName \<rightharpoonup> u8) \<Rightarrow> NodeName list \<Rightarrow> bool" where
  "dfs_post adj st path targets r st' path' \<longleftrightarrow>
     (case r of
        Some c \<Rightarrow> is_cycle (edge_rel adj) c
      | None \<Rightarrow> dfs_inv adj st' path' \<and> path' = path
                \<and> finished st \<subseteq> finished st' \<and> targets \<subseteq> finished st')"

lemma dfs_step_correct:
  assumes IH: "\<And>ns r' st2 path2. adj current = Some ns \<Longrightarrow> st current \<noteq> Some 1 \<Longrightarrow> st current \<noteq> Some 2
      \<Longrightarrow> dfs_inv adj (st(current \<mapsto> 1)) (path @ [current])
      \<Longrightarrow> \<forall>n \<in> set ns. (current, n) \<in> edge_rel adj
      \<Longrightarrow> dfs_neighbors fuel adj ns (st(current \<mapsto> 1)) (path @ [current]) = Some (r', st2, path2)
      \<Longrightarrow> dfs_post adj (st(current \<mapsto> 1)) (path @ [current]) (set ns) r' st2 path2"
    and inv: "dfs_inv adj st path"
    and pred: "path = [] \<or> (last path, current) \<in> edge_rel adj"
    and run: "dfs_cycle (Suc fuel) adj current st path = Some (r, st', path')"
  shows "dfs_post adj st path {current} r st' path'"
proof -
  consider (grey) "st current = Some 1" | (black) "st current = Some 2"
    | (white) "st current \<noteq> Some 1" "st current \<noteq> Some 2" by blast
  then show ?thesis
  proof cases
    case grey
    then have "current \<in> set path" using inv by (simp add: dfs_inv_def)
    then obtain i where "position current path = Some i"
      using position_None [of current path] by (cases "position current path") auto
    then show ?thesis using run grey back_edge_cycle [OF inv pred]
      by (auto simp: dfs_post_def)
  next
    case black
    then show ?thesis using run inv by (auto simp: dfs_post_def finished_def)
  next
    case white
    note enter = dfs_inv_enter [OF inv white pred]
    show ?thesis
    proof (cases "adj current")
      case None
      then have "edge_rel adj `` {current} = {}" by (auto simp: edge_rel_def)
      then show ?thesis using run white None enter dfs_inv_leave [OF enter(1)]
        by (auto simp: dfs_post_def Let_def)
    next
      case (Some ns)
      have succ: "edge_rel adj `` {current} = set ns" using Some by (auto simp: edge_rel_def)
      then have "\<forall>n \<in> set ns. (current, n) \<in> edge_rel adj" by auto
      note post = IH [OF Some white enter(1) this]
      from run white Some obtain r' st2 path2 where
        nb: "dfs_neighbors fuel adj ns (st(current \<mapsto> 1)) (path @ [current]) = Some (r', st2, path2)"
        by (auto simp: Let_def split: option.splits)
      show ?thesis
      proof (cases r')
        case r': None
        have p: "dfs_inv adj st2 (path @ [current])" "path2 = path @ [current]"
          "finished st \<subseteq> finished st2" "set ns \<subseteq> finished st2"
          using post [OF nb] r' enter(2) by (auto simp: dfs_post_def)
        have "r = None" "st' = st2(current \<mapsto> 2)" "path' = path"
          using run white Some nb r' p(2) by (simp_all add: Let_def)
        then show ?thesis using dfs_inv_leave [OF p(1)] p succ
          by (auto simp: dfs_post_def)
      next
        case (Some c)
        then show ?thesis using run white \<open>adj current = Some ns\<close> nb post [OF nb]
          by (auto simp: dfs_post_def Let_def)
      qed
    qed
  qed
qed

lemma dfs_correct:
  shows "dfs_inv adj st path \<Longrightarrow> path = [] \<or> (last path, current) \<in> edge_rel adj
      \<Longrightarrow> dfs_cycle fuel adj current st path = Some (r, st', path')
      \<Longrightarrow> dfs_post adj st path {current} r st' path'"
    and "dfs_inv adj st path \<Longrightarrow> path \<noteq> []
      \<Longrightarrow> \<forall>n \<in> set ns. (last path, n) \<in> edge_rel adj
      \<Longrightarrow> dfs_neighbors fuel adj ns st path = Some (r, st', path')
      \<Longrightarrow> dfs_post adj st path (set ns) r st' path'"
proof (induction fuel adj current st path and fuel adj ns st path
    arbitrary: r st' path' and r st' path' rule: dfs_cycle_dfs_neighbors.induct)
  case (1 adj current st path)
  then show ?case by simp
next
  case (2 fuel adj current st path)
  show ?case
  proof (rule dfs_step_correct [OF _ 2(2-4)])
    fix ns r' st2 path2
    assume a: "adj current = Some ns" "st current \<noteq> Some 1" "st current \<noteq> Some 2"
      "dfs_inv adj (st(current \<mapsto> 1)) (path @ [current])"
      "\<forall>n \<in> set ns. (current, n) \<in> edge_rel adj"
      "dfs_neighbors fuel adj ns (st(current \<mapsto> 1)) (path @ [current]) = Some (r', st2, path2)"
    show "dfs_post adj (st(current \<mapsto> 1)) (path @ [current]) (set ns) r' st2 path2"
      by (rule 2(1) [OF a(2,3) refl refl a(1) a(4) _ _ a(6)]) (use a(5) in simp_all)
  qed
next
  case (3 fuel adj st path)
  then show ?case by (simp add: dfs_post_def)
next
  case (4 fuel adj n ns st path)
  from 4(6) obtain r1 st1 path1 where
    first: "dfs_cycle fuel adj n st path = Some (r1, st1, path1)"
    by (auto split: option.splits)
  have post1: "dfs_post adj st path {n} r1 st1 path1"
    using 4(1) [OF 4(3) _ first] 4(4,5) by simp
  show ?case
  proof (cases r1)
    case None
    then have p: "dfs_inv adj st1 path" "path1 = path" "finished st \<subseteq> finished st1" "n \<in> finished st1"
      using post1 by (auto simp: dfs_post_def)
    have rest: "dfs_neighbors fuel adj ns st1 path = Some (r, st', path')"
      using 4(6) first None p(2) by simp
    have "dfs_post adj st1 path (set ns) r st' path'"
      using 4(2) [of _ r1 "(st1, path1)" st1 path1 r st' path'] first None p rest 4(4,5) by simp
    then show ?thesis using p by (auto simp: dfs_post_def split: option.splits)
  next
    case (Some c)
    then show ?thesis using 4(6) first post1 by (auto simp: dfs_post_def)
  qed
qed

text \<open>The search returns whenever the fuel exceeds the number of unvisited nodes.\<close>

lemma ran_upd_colour: "ran st \<subseteq> {1, 2} \<Longrightarrow> v \<in> {1, 2} \<Longrightarrow> ran (st(x \<mapsto> v)) \<subseteq> {1, 2}"
  for st :: "NodeName \<rightharpoonup> u8"
  by (auto simp: ran_def split: if_splits)

lemma dfs_returns:
  shows "finite (dom adj) \<Longrightarrow> ran st \<subseteq> {1, 2} \<Longrightarrow> card (dom adj - dom st) < fuel
      \<Longrightarrow> \<exists>r st' path'. dfs_cycle fuel adj current st path = Some (r, st', path')
            \<and> dom st \<subseteq> dom st' \<and> ran st' \<subseteq> {1, 2}"
    and "finite (dom adj) \<Longrightarrow> ran st \<subseteq> {1, 2} \<Longrightarrow> card (dom adj - dom st) < fuel
      \<Longrightarrow> \<exists>r st' path'. dfs_neighbors fuel adj ns st path = Some (r, st', path')
            \<and> dom st \<subseteq> dom st' \<and> ran st' \<subseteq> {1, 2}"
proof (induction fuel adj current st path and fuel adj ns st path
    rule: dfs_cycle_dfs_neighbors.induct)
  case (1 adj current st path)
  then show ?case by simp
next
  case (2 fuel adj current st path)
  have r1: "ran (st(current \<mapsto> 1)) \<subseteq> {1, 2}" using 2(3) by (simp add: ran_upd_colour)
  show ?case
  proof (cases "current \<in> dom st \<or> adj current = None")
    case True
    then consider "st current = Some 1" | "st current = Some 2" | "adj current = None" "st current = None"
      using 2(3) by (auto simp: ran_def)
    then show ?thesis
    proof cases
      case 1
      then show ?thesis using 2(3) by (auto split: option.splits)
    next
      case 2
      then show ?thesis using \<open>ran st \<subseteq> {1, 2}\<close> by simp
    next
      case 3
      then show ?thesis using 2(3) ran_upd_colour [OF r1, of 2 current] by (auto simp: Let_def)
    qed
  next
    case False
    then obtain ns where ns: "adj current = Some ns" and new: "st current = None" by auto
    have "dom adj - dom (st(current \<mapsto> 1)) \<subset> dom adj - dom st" using new ns by auto
    then have "card (dom adj - dom (st(current \<mapsto> 1))) < card (dom adj - dom st)"
      using 2(2) by (simp add: psubset_card_mono)
    then have less: "card (dom adj - dom (st(current \<mapsto> 1))) < fuel" using 2(4) by simp
    have col: "st current \<noteq> Some 1" "st current \<noteq> Some 2" using new by simp_all
    obtain r st2 path2 where nb: "dfs_neighbors fuel adj ns (st(current \<mapsto> 1)) (path @ [current])
        = Some (r, st2, path2)" "dom (st(current \<mapsto> 1)) \<subseteq> dom st2" "ran st2 \<subseteq> {1, 2}"
      using 2(1) [OF col refl refl ns 2(2) r1 less] by blast
    then show ?thesis using new ns ran_upd_colour [OF nb(3), of 2 current]
      by (cases r) (auto simp: Let_def)
  qed
next
  case (3 fuel adj st path)
  then show ?case by simp
next
  case (4 fuel adj n ns st path)
  obtain r1 st1 path1 where first: "dfs_cycle fuel adj n st path = Some (r1, st1, path1)"
    "dom st \<subseteq> dom st1" "ran st1 \<subseteq> {1, 2}"
    using 4(1) [OF 4(3-5)] by blast
  show ?case
  proof (cases r1)
    case None
    have "card (dom adj - dom st1) \<le> card (dom adj - dom st)"
      using first(2) 4(3) by (intro card_mono) auto
    then have "card (dom adj - dom st1) < fuel" using 4(5) by simp
    then obtain r st' path' where "dfs_neighbors fuel adj ns st1 path1 = Some (r, st', path')"
      "dom st1 \<subseteq> dom st'" "ran st' \<subseteq> {1, 2}"
      using 4(2) [of _ r1 "(st1, path1)" st1 path1] first None 4(3) by auto
    then show ?thesis using first None by auto
  next
    case (Some c)
    then show ?thesis using first by auto
  qed
qed

lemma dfs_rest_returns:
  "finite (dom adj) \<Longrightarrow> ran st \<subseteq> {1, 2} \<Longrightarrow> card (dom adj - dom st) < fuel
    \<Longrightarrow> \<exists>r. dfs_rest fuel adj ns st path = Some r"
proof (induction ns arbitrary: st path)
  case (Cons n ns)
  obtain r1 st1 path1 where first: "dfs_cycle fuel adj n st path = Some (r1, st1, path1)"
    "dom st \<subseteq> dom st1" "ran st1 \<subseteq> {1, 2}"
    using dfs_returns(1) [OF Cons.prems] by blast
  have "card (dom adj - dom st1) \<le> card (dom adj - dom st)"
    using first(2) Cons.prems(1) by (intro card_mono) auto
  then have "card (dom adj - dom st1) < fuel" using Cons.prems(3) by simp
  then have "\<exists>r. dfs_rest fuel adj ns st1 path1 = Some r"
    using Cons.IH [OF Cons.prems(1) first(3)] by blast
  then show ?case using first Cons.IH [OF Cons.prems] by (cases r1) auto
qed simp

lemma dfs_rest_correct:
  "dfs_inv adj st [] \<Longrightarrow> dfs_rest fuel adj ns st [] = Some (r, st', path')
    \<Longrightarrow> dfs_post adj st [] (set ns) r st' path'"
proof (induction ns arbitrary: st)
  case Nil
  then show ?case by (auto simp: dfs_post_def)
next
  case (Cons n ns)
  show ?case
  proof (cases "st n")
    case None
    then obtain r1 st1 path1 where first: "dfs_cycle fuel adj n st [] = Some (r1, st1, path1)"
      using Cons.prems(2) by (auto split: option.splits)
    have post: "dfs_post adj st [] {n} r1 st1 path1"
      by (rule dfs_correct(1) [OF Cons.prems(1) _ first]) simp
    show ?thesis
    proof (cases r1)
      case r1: None
      then have p: "dfs_inv adj st1 []" "path1 = []" "finished st \<subseteq> finished st1" "n \<in> finished st1"
        using post by (auto simp: dfs_post_def)
      have "dfs_post adj st1 [] (set ns) r st' path'"
        using Cons.IH [OF p(1)] Cons.prems(2) None first r1 p(2) by simp
      then show ?thesis using p by (auto simp: dfs_post_def split: option.splits)
    next
      case (Some c)
      then show ?thesis using Cons.prems(2) None first post by (auto simp: dfs_post_def)
    qed
  next
    case (Some v)
    have "v \<in> {1, 2}" using Cons.prems(1) Some by (auto simp: dfs_inv_def ran_def)
    moreover have "v \<noteq> 1" using Cons.prems(1) Some by (auto simp: dfs_inv_def)
    ultimately have "n \<in> finished st" using Some by (simp add: finished_def)
    moreover have "dfs_post adj st [] (set ns) r st' path'"
      using Cons.IH [OF Cons.prems(1)] Cons.prems(2) Some by simp
    ultimately show ?thesis by (auto simp: dfs_post_def split: option.splits)
  qed
qed

lemma dfs_inv_init: "dfs_inv adj Map.empty []"
  by (simp add: dfs_inv_def finished_def)

lemma detect_cycle_fuel: "card (dom (build_adj ns es)) < Suc (length ns + length es)"
proof -
  have "card (dom (build_adj ns es)) \<le> card (node_name ` set ns) + card (source_node ` set es)"
    by (simp add: build_adj card_Un_le)
  also have "\<dots> \<le> length ns + length es"
    by (intro add_mono order_trans [OF card_image_le card_length]) simp_all
  finally show ?thesis by simp
qed

lemma graph_trancl_source: "(x, y) \<in> (graph es)\<^sup>+ \<Longrightarrow> x \<in> source_node ` set es"
  by (induction rule: converse_trancl_induct) (auto simp: graph_def)

lemma detect_cycle_result:
  assumes ne: "ns \<noteq> []" and ref: "source_node ` set es \<subseteq> node_name ` set ns"
  obtains (acyclic) "detect_cycle ns es = Some None" "acyclic (graph es)"
    | (cyclic) c where "detect_cycle ns es = Some (Some c)" "is_cycle (graph es) c"
proof -
  let ?adj = "build_adj ns es" and ?fuel = "Suc (length ns + length es)"
  obtain f rest where ns: "ns = f # rest" using ne by (cases ns) auto
  have fin: "finite (dom ?adj)" by (simp add: build_adj)
  have fuel: "card (dom ?adj - dom Map.empty) < ?fuel" using detect_cycle_fuel [of ns es] by simp
  obtain r1 st1 path1 where first: "dfs_cycle ?fuel ?adj (node_name f) Map.empty [] = Some (r1, st1, path1)"
    "ran st1 \<subseteq> {1, 2}"
    using dfs_returns(1) [OF fin _ fuel, of "node_name f" "[]"] by auto
  have post1: "dfs_post ?adj Map.empty [] {node_name f} r1 st1 path1"
    by (rule dfs_correct(1) [OF dfs_inv_init _ first(1)]) simp
  show ?thesis
  proof (cases r1)
    case (Some c)
    then show ?thesis using first(1) post1 ns cyclic [of c]
      by (simp add: detect_cycle_def dfs_post_def build_adj(2))
  next
    case None
    then have p: "dfs_inv ?adj st1 []" "path1 = []" "node_name f \<in> finished st1"
      using post1 by (auto simp: dfs_post_def)
    have "card (dom ?adj - dom st1) \<le> card (dom ?adj)" by (intro card_mono fin) auto
    then have "card (dom ?adj - dom st1) < ?fuel" using detect_cycle_fuel [of ns es] by simp
    then obtain r st' path' where
      rest: "dfs_rest ?fuel ?adj (map node_name rest) st1 [] = Some (r, st', path')"
      using dfs_rest_returns [OF fin first(2)] by (metis prod_cases3)
    have res: "detect_cycle ns es = Some r"
      using first(1) None p(2) rest ns by (simp add: detect_cycle_def)
    have post: "dfs_post ?adj st1 [] (set (map node_name rest)) r st' path'"
      by (rule dfs_rest_correct [OF p(1) rest])
    show ?thesis
    proof (cases r)
      case (Some c)
      then show ?thesis using res post cyclic [of c] by (simp add: dfs_post_def build_adj(2))
    next
      case None
      then have q: "dfs_inv ?adj st' path'" "node_name ` set ns \<subseteq> finished st'"
        using post p(3) ns by (auto simp: dfs_post_def)
      then have nocyc: "(x, x) \<notin> (graph es)\<^sup>+" if "x \<in> node_name ` set ns" for x
        using that by (auto simp: dfs_inv_def build_adj(2))
      have "acyclic (graph es)"
      proof (intro acyclicI allI notI)
        fix x
        assume x: "(x, x) \<in> (graph es)\<^sup>+"
        then have "x \<in> node_name ` set ns" using graph_trancl_source [OF x] ref by blast
        then show False using nocyc x by blast
      qed
      then show ?thesis using res None acyclic by simp
    qed
  qed
qed

text \<open>
  (C1) Cycle detection is exact and always returns.  For a non-empty node list
  whose names include the source of every edge, \<open>detect_cycle\<close> terminates
  without panicking; it reports no cycle exactly when the edge relation is
  acyclic, and what it reports is a genuine simple cycle: a walk along edges
  that ends where it starts and repeats no other node.
\<close>

theorem detect_cycle_correct:
  assumes "ns \<noteq> []" and "\<forall>e \<in> set es. source_node e \<in> node_name ` set ns"
  shows "\<exists>r. detect_cycle ns es = Some r \<and> (r = None \<longleftrightarrow> acyclic (graph es))
           \<and> (\<forall>c. r = Some c \<longrightarrow> is_cycle (graph es) c)"
proof -
  have "source_node ` set es \<subseteq> node_name ` set ns" using assms(2) by blast
  then show ?thesis using assms(1)
    by (cases rule: detect_cycle_result [OF assms(1)]) (auto dest: is_cycle_not_acyclic)
qed

definition wf_node :: "NodeName \<Rightarrow> DagNode" where
  "wf_node name = \<lparr>node_name = name,
     retry_policy = \<lparr>rp_max_attempts = 1, rp_backoff_ms = 0, rp_backoff_multiplier = F64_Finite 1,
                     rp_max_backoff_ms = - 1\<rparr>,
     compensation_policy = None\<rparr>"

definition wf_edge :: "NodeName \<Rightarrow> NodeName \<Rightarrow> Edge" where
  "wf_edge a b = \<lparr>source_node = a, target_node = b, condition = Edge_Always\<rparr>"

theorem detect_cycle_correct_witness:
  "detect_cycle [wf_node ''a'', wf_node ''b''] [wf_edge ''a'' ''b'', wf_edge ''b'' ''a'']
     = Some (Some [''a'', ''b'', ''a''])
   \<and> \<not> acyclic (graph [wf_edge ''a'' ''b'', wf_edge ''b'' ''a''])"
proof -
  have "detect_cycle [wf_node ''a'', wf_node ''b''] [wf_edge ''a'' ''b'', wf_edge ''b'' ''a'']
     = Some (Some [''a'', ''b'', ''a''])"
    by (simp add: detect_cycle_def build_adj_def push_target_def wf_node_def wf_edge_def
        numeral_eq_Suc)
  moreover have "\<exists>r. detect_cycle [wf_node ''a'', wf_node ''b''] [wf_edge ''a'' ''b'', wf_edge ''b'' ''a'']
      = Some r \<and> (r = None \<longleftrightarrow> acyclic (graph [wf_edge ''a'' ''b'', wf_edge ''b'' ''a'']))
      \<and> (\<forall>c. r = Some c \<longrightarrow> is_cycle (graph [wf_edge ''a'' ''b'', wf_edge ''b'' ''a'']) c)"
    by (rule detect_cycle_correct) (simp_all add: wf_node_def wf_edge_def)
  ultimately show ?thesis by auto
qed

section \<open>Correctness of the connectivity check\<close>

lemma fold_zero_degree:
  "fold zero_degree names m x = (if m x = None \<and> x \<in> set names then Some 0 else m x)"
  by (induction names arbitrary: m) (auto simp: zero_degree_def)

lemma fold_bump_degree:
  "m x = Some d \<Longrightarrow>
     fold (\<lambda>e. bump_degree (f e)) es m x = Some (d + length (filter (\<lambda>e. f e = x) es))"
proof (induction es arbitrary: m d)
  case (Cons e es)
  have "bump_degree (f e) m x = Some (if f e = x then Suc d else d)"
    using Cons.prems by (auto simp: bump_degree_def)
  from Cons.IH [where m = "bump_degree (f e) m", OF this] show ?case by simp
qed simp

lemma degree_zero:
  assumes "x \<in> set names"
  shows "fold (\<lambda>e. bump_degree (f e)) es (fold zero_degree names Map.empty) x = Some 0
     \<longleftrightarrow> x \<notin> f ` set es"
proof -
  have "fold zero_degree names Map.empty x = Some 0" using assms by (simp add: fold_zero_degree)
  from fold_bump_degree [where m = "fold zero_degree names Map.empty" and x = x, OF this, of f es]
  show ?thesis by (auto simp: filter_empty_conv)
qed

lemma visit_neighbors_sets:
  "visit_neighbors ns reachable queue = (reachable', queue')
    \<Longrightarrow> reachable' = reachable \<union> set ns \<and> set queue' = set queue \<union> (set ns - reachable)"
  by (induction ns reachable queue rule: visit_neighbors.induct) (auto split: if_splits)

lemma visit_neighbors_measure:
  "visit_neighbors ns reachable queue = (reachable', queue') \<Longrightarrow> finite T \<Longrightarrow> set ns \<subseteq> T
    \<Longrightarrow> length queue' + card (T - reachable') = length queue + card (T - reachable)"
proof (induction ns reachable queue rule: visit_neighbors.induct)
  case (2 n ns reachable queue)
  show ?case
  proof (cases "n \<in> reachable")
    case False
    have "card (T - reachable) = Suc (card (T - insert n reachable))"
      using 2(4,5) False
      by (metis Diff_insert DiffI card_Suc_Diff1 finite_Diff list.set_intros(1) subsetD)
    then show ?thesis using 2 False by simp
  qed (use 2 in simp)
qed simp

lemma bfs_correct:
  assumes "finite (Range (edge_rel adj))"
    and "length queue + card (Range (edge_rel adj) - reachable) \<le> fuel"
    and "set queue \<subseteq> reachable" and "S \<subseteq> reachable"
    and "reachable \<subseteq> (edge_rel adj)\<^sup>* `` S"
    and "edge_rel adj `` (reachable - set queue) \<subseteq> reachable"
  shows "bfs fuel adj queue reachable = Some ((edge_rel adj)\<^sup>* `` S)"
  using assms
proof (induction fuel adj queue reachable rule: bfs.induct)
  case (1 fuel adj reachable)
  have "edge_rel adj `` reachable \<subseteq> reachable" using 1(6) by simp
  then have "(edge_rel adj)\<^sup>* `` reachable = reachable" by (rule Image_closed_trancl)
  moreover have "(edge_rel adj)\<^sup>* `` S \<subseteq> (edge_rel adj)\<^sup>* `` reachable"
    using 1(4) by (intro Image_mono) simp_all
  ultimately show ?case using 1(5) by simp
next
  case (2 adj current queue reachable)
  then show ?case by simp
next
  case (3 fuel adj current queue reachable)
  show ?case
  proof (cases "adj current")
    case None
    then have "edge_rel adj `` {current} = {}" by (auto simp: edge_rel_def)
    then have "edge_rel adj `` (reachable - set queue) \<subseteq> reachable" using 3(8) by auto
    then show ?thesis using 3(1) [OF None] 3 None by simp
  next
    case (Some ns)
    obtain reachable' queue' where v: "visit_neighbors ns reachable queue = (reachable', queue')"
      by (cases "visit_neighbors ns reachable queue")
    have succ: "edge_rel adj `` {current} = set ns" using Some by (auto simp: edge_rel_def)
    then have sub: "set ns \<subseteq> Range (edge_rel adj)" by auto
    note sets = visit_neighbors_sets [OF v]
    have "length queue' + card (Range (edge_rel adj) - reachable') \<le> fuel"
      using visit_neighbors_measure [OF v 3(3) sub] 3(4) by simp
    moreover have "set queue' \<subseteq> reachable'" "S \<subseteq> reachable'" using sets 3(5,6) by auto
    moreover have "set ns \<subseteq> (edge_rel adj)\<^sup>* `` S"
    proof
      fix y
      assume "y \<in> set ns"
      then have "(current, y) \<in> edge_rel adj" using succ by blast
      moreover obtain x where "x \<in> S" "(x, current) \<in> (edge_rel adj)\<^sup>*" using 3(5,7) by auto
      ultimately show "y \<in> (edge_rel adj)\<^sup>* `` S" by (blast intro: rtrancl_into_rtrancl)
    qed
    then have "reachable' \<subseteq> (edge_rel adj)\<^sup>* `` S" using sets 3(7) by auto
    moreover have "edge_rel adj `` (reachable' - set queue') \<subseteq> reachable'"
      using sets succ 3(8) by auto
    ultimately show ?thesis using 3(2) [OF Some v [symmetric] 3(3)] Some v by simp
  qed
qed

lemma finite_graph: "finite (graph es)"
  by (simp add: graph_def)

lemma acyclic_reachable_from_starts:
  assumes "acyclic (graph es)" and "x \<in> V" and "Domain (graph es) \<subseteq> V"
  shows "x \<in> (graph es)\<^sup>* `` {v \<in> V. v \<notin> Range (graph es)}"
proof -
  have "wf (graph es)" using assms(1) finite_graph by (simp add: finite_acyclic_wf)
  then show ?thesis using assms(2)
  proof (induction x rule: wf_induct_rule)
    case (less x)
    show ?case
    proof (cases "x \<in> Range (graph es)")
      case True
      then obtain y where y: "(y, x) \<in> graph es" by auto
      then have "y \<in> (graph es)\<^sup>* `` {v \<in> V. v \<notin> Range (graph es)}"
        using less.IH [OF y] assms(3) by blast
      then show ?thesis using y by (blast intro: rtrancl_into_rtrancl)
    qed (use less.prems in blast)
  qed
qed

definition orphan :: "Edge list \<Rightarrow> DagNode \<Rightarrow> bool" where
  "orphan es n \<longleftrightarrow> node_name n \<notin> source_node ` set es \<and> node_name n \<notin> target_node ` set es"

lemma Domain_Range_graph:
  "Domain (graph es) = source_node ` set es" "Range (graph es) = target_node ` set es"
  by (auto simp: graph_def Domain.simps Range.simps)

lemma validate_connectivity_result:
  assumes it: "iter_law it" and acyc: "acyclic (graph es)"
    and ref: "source_node ` set es \<union> target_node ` set es \<subseteq> node_name ` set ns"
  shows "validate_connectivity it ns es = Some
     (if length ns \<le> 1 \<or> es = [] \<or> filter (orphan es) ns = [] then Inr ()
      else Inl (OrphanNodes (map node_name (filter (orphan es) ns))))"
proof (cases "length ns \<le> 1 \<or> es = []")
  case True
  then show ?thesis by (auto simp: validate_connectivity_def)
next
  case False
  let ?names = "it (map node_name ns)"
  let ?in = "fold (\<lambda>e. bump_degree (target_node e)) es (fold zero_degree ?names Map.empty)"
  let ?out = "fold (\<lambda>e. bump_degree (source_node e)) es (fold zero_degree ?names Map.empty)"
  let ?starts = "filter (\<lambda>name. ?in name = Some 0) ?names"
  let ?adj = "fold push_target es Map.empty"
  have names: "set ?names = node_name ` set ns" "distinct ?names"
    using it by (simp_all add: iter_law_def)
  have rel: "edge_rel ?adj = graph es"
    by (simp add: edge_rel_fold_push)
  have deg: "?in x = Some 0 \<longleftrightarrow> x \<notin> target_node ` set es"
    "?out x = Some 0 \<longleftrightarrow> x \<notin> source_node ` set es" if "x \<in> node_name ` set ns" for x
    using that by (simp_all add: degree_zero names)
  have orphans: "filter (\<lambda>n. ?in (node_name n) = Some 0 \<and> ?out (node_name n) = Some 0) ns
      = filter (orphan es) ns"
    by (intro filter_cong refl) (auto simp: deg orphan_def)
  have starts: "set ?starts = {v \<in> node_name ` set ns. v \<notin> Range (graph es)}"
    unfolding set_filter names(1) Domain_Range_graph using deg(1) by blast
  have reach: "node_name ` set ns \<subseteq> (graph es)\<^sup>* `` set ?starts"
    unfolding starts using acyclic_reachable_from_starts [OF acyc] ref
    by (auto simp: Domain_Range_graph)
  have "ns \<noteq> []" using False by auto
  have ne: "?starts \<noteq> []"
  proof
    assume "?starts = []"
    then have "set ?starts = {}" by (simp only: list.set)
    with reach have "node_name ` set ns \<subseteq> {}" by (simp only: Image_empty2)
    then show False using \<open>ns \<noteq> []\<close> by simp
  qed
  have "length ?starts \<le> length ns"
  proof -
    have "length ?starts \<le> length ?names" by simp
    also have "\<dots> = card (node_name ` set ns)" using names by (metis distinct_card)
    also have "\<dots> \<le> length ns" by (rule order_trans [OF card_image_le card_length]) simp
    finally show ?thesis .
  qed
  moreover have "card (Range (graph es) - set ?starts) \<le> length es"
  proof -
    have "card (Range (graph es) - set ?starts) \<le> card (target_node ` set es)"
      by (intro card_mono) (auto simp: Domain_Range_graph)
    also have "\<dots> \<le> length es" by (rule order_trans [OF card_image_le card_length]) simp
    finally show ?thesis .
  qed
  ultimately have bfs: "bfs (Suc (length ns + length es)) ?adj ?starts (set ?starts)
      = Some ((graph es)\<^sup>* `` set ?starts)"
    using bfs_correct [of ?adj ?starts "set ?starts" "Suc (length ns + length es)" "set ?starts"]
    by (auto simp: rel Domain_Range_graph)
  have "filter (\<lambda>name. name \<notin> (graph es)\<^sup>* `` set ?starts) ?names = []"
    using reach names by (auto simp: filter_empty_conv)
  then show ?thesis using False ne
    by (simp only: validate_connectivity_def Let_def orphans bfs if_False simp_thms map_is_Nil_conv
        option.case) simp
qed

section \<open>Validated definitions\<close>

lemma check_duplicates_Inr:
  "check_duplicates i seen ns = Inr u \<longleftrightarrow>
     distinct (map node_name ns) \<and> node_name ` set ns \<inter> dom seen = {}"
proof (induction i seen ns rule: check_duplicates.induct)
  case (2 i seen n ns)
  show ?case
  proof (cases "seen (node_name n)")
    case None
    then have "check_duplicates (Suc i) (seen(node_name n \<mapsto> i)) ns = Inr u \<longleftrightarrow>
        distinct (map node_name ns) \<and> node_name ` set ns \<inter> insert (node_name n) (dom seen) = {}"
      using 2 by (simp del: fun_upd_apply)
    then show ?thesis using None by (auto simp del: fun_upd_apply)
  qed auto
qed simp

definition valid_policy :: "RetryPolicy \<Rightarrow> bool" where
  "valid_policy rp \<longleftrightarrow> rp_max_attempts rp \<noteq> 0 \<and> valid_multiplier (rp_backoff_multiplier rp)"

lemma check_retry_policies_Inr:
  "check_retry_policies ns = Inr u \<longleftrightarrow> (\<forall>n \<in> set ns. valid_policy (retry_policy n))"
  by (induction ns rule: check_retry_policies.induct)
    (auto simp: RetryPolicy_new_def valid_policy_def)

lemma check_edge_references_Inr:
  "check_edge_references S es = Inr u \<longleftrightarrow> (\<forall>e \<in> set es. source_node e \<in> S \<and> target_node e \<in> S)"
  by (induction S es rule: check_edge_references.induct) auto

text \<open>What a definition must satisfy to be accepted.\<close>

definition acceptable :: "'v UnvalidatedWorkflow \<Rightarrow> bool" where
  "acceptable u \<longleftrightarrow>
     uw_nodes u \<noteq> [] \<and> distinct (map node_name (uw_nodes u))
     \<and> (\<forall>n \<in> set (uw_nodes u). valid_policy (retry_policy n))
     \<and> source_node ` set (uw_edges u) \<union> target_node ` set (uw_edges u)
         \<subseteq> node_name ` set (uw_nodes u)
     \<and> acyclic (graph (uw_edges u))
     \<and> (length (uw_nodes u) \<le> 1 \<or> uw_edges u = [] \<or> filter (orphan (uw_edges u)) (uw_nodes u) = [])"

definition accepted_definition :: "'v \<Rightarrow> 'v UnvalidatedWorkflow \<Rightarrow> 'v WorkflowDefinition" where
  "accepted_definition min_version u =
     \<lparr>workflow_name = uw_workflow_name u, nodes = uw_nodes u, edges = uw_edges u,
      version = (case uw_version u of Some v \<Rightarrow> v | None \<Rightarrow> min_version)\<rparr>"

lemma validate_unvalidated_cases:
  assumes it: "iter_law it"
  obtains (ok) "validate_unvalidated mv it u = Some (Inr (accepted_definition mv u))" "acceptable u"
    | (early) err where "validate_unvalidated mv it u = Some (Inl err)" "\<not> acceptable u"
        "err \<notin> range CycleDetected \<union> {NoStartNode} \<union> range UnreachableNodes"
    | (cycle) c where "validate_unvalidated mv it u = Some (Inl (CycleDetected c))"
        "is_cycle (graph (uw_edges u)) c" "\<not> acceptable u"
proof (cases "uw_nodes u = []")
  case True
  then show ?thesis using early [of EmptyWorkflow]
    by (auto simp: validate_unvalidated_def acceptable_def)
next
  case False
  let ?ns = "uw_nodes u" and ?es = "uw_edges u"
  let ?checks = "and_then (check_duplicates 0 Map.empty ?ns)
      (\<lambda>_. and_then (check_retry_policies ?ns)
        (\<lambda>_. check_edge_references (set (map node_name ?ns)) ?es))"
  have checks_err: "err \<notin> range CycleDetected \<union> {NoStartNode} \<union> range UnreachableNodes"
    if "?checks = Inl err" for err
  proof -
    have "check_duplicates i seen ns = Inl err \<Longrightarrow> err \<in> range DuplicateNode" for i seen ns
      by (induction i seen ns rule: check_duplicates.induct) (auto split: if_splits)
    moreover have "check_retry_policies ns = Inl err
        \<Longrightarrow> err \<in> range (\<lambda>(x, y). InvalidRetryPolicy x y)" for ns
      by (induction ns rule: check_retry_policies.induct)
        (auto simp: and_then_Inl_iff map_err_Inl_iff)
    moreover have "check_edge_references S es = Inl err
        \<Longrightarrow> err \<in> range (\<lambda>(x, y). UnknownNode x y)" for S es
      by (induction S es rule: check_edge_references.induct) (auto split: if_splits)
    ultimately show ?thesis using that by (fastforce simp: and_then_Inl_iff)
  qed
  show ?thesis
  proof (cases ?checks)
    case (Inl err)
    moreover have "\<not> acceptable u"
    proof
      assume "acceptable u"
      then have "?checks = Inr ()"
        by (auto simp: acceptable_def check_duplicates_Inr check_retry_policies_Inr
            check_edge_references_Inr)
      with Inl show False by simp
    qed
    ultimately show ?thesis using early [of err] checks_err [of err] False
      by (simp add: validate_unvalidated_def)
  next
    case (Inr w)
    then have pre: "distinct (map node_name ?ns)" "\<forall>n \<in> set ?ns. valid_policy (retry_policy n)"
      "source_node ` set ?es \<union> target_node ` set ?es \<subseteq> node_name ` set ?ns"
      by (auto simp: check_duplicates_Inr check_retry_policies_Inr check_edge_references_Inr)
    from pre(3) have src: "source_node ` set ?es \<subseteq> node_name ` set ?ns" by blast
    show ?thesis
    proof (cases rule: detect_cycle_result [OF False src])
      case acyc: 1
      note vc = validate_connectivity_result [OF it acyc(2) pre(3)]
      show ?thesis
      proof (cases "length ?ns \<le> 1 \<or> ?es = [] \<or> filter (orphan ?es) ?ns = []")
        case True
        then show ?thesis using ok False Inr acyc vc pre
          by (simp add: validate_unvalidated_def accepted_definition_def acceptable_def)
      next
        case nok: False
        then show ?thesis
          using early [of "OrphanNodes (map node_name (filter (orphan ?es) ?ns))"]
            False Inr acyc vc
          by (auto simp: validate_unvalidated_def acceptable_def)
      qed
    next
      case (2 c)
      then show ?thesis using cycle [of c] False Inr is_cycle_not_acyclic [OF 2(2)]
        by (auto simp: validate_unvalidated_def acceptable_def)
    qed
  qed
qed

text \<open>
  (C11) Validation decides well-formedness.  Whatever order the hash sets are
  iterated in, validation returns; it succeeds exactly on the definitions with
  at least one node, distinct node names, valid retry policies, edges between
  known nodes, no cycle, and (when there are at least two nodes and an edge) no
  node without edges; the result carries the nodes and edges unchanged.
\<close>

theorem validation_exact:
  assumes "iter_law it"
  shows "(acceptable u \<longrightarrow>
            validate_unvalidated mv it u = Some (Inr (accepted_definition mv u)))
       \<and> (\<not> acceptable u \<longrightarrow> (\<exists>err. validate_unvalidated mv it u = Some (Inl err)))"
  by (cases rule: validate_unvalidated_cases [OF assms, of mv u]) auto

definition diamond :: "nat UnvalidatedWorkflow" where
  "diamond = \<lparr>uw_workflow_name = ''wf'',
     uw_nodes = map wf_node [''a'', ''b'', ''c''],
     uw_edges = [wf_edge ''a'' ''b'', wf_edge ''a'' ''c'', wf_edge ''b'' ''c''],
     uw_version = None\<rparr>"

lemma diamond_acceptable: "acceptable diamond"
proof -
  have "acyclic (graph (uw_edges diamond))"
    by (rule acyclic_by_rank [where f = "\<lambda>n. if n = ''a'' then 0 else if n = ''b'' then 1 else 2"])
      (auto simp: graph_def diamond_def wf_edge_def)
  then show ?thesis
    by (simp add: acceptable_def diamond_def wf_node_def wf_edge_def valid_policy_def orphan_def)
qed

theorem validation_exact_witness:
  "validate_unvalidated 1 remdups diamond = Some (Inr (accepted_definition 1 diamond))"
  using validation_exact [OF iter_law_remdups, of diamond 1] diamond_acceptable by simp

text \<open>
  After the cycle check the two remaining connectivity errors cannot occur:
  no input makes validation report a missing start node or unreachable nodes,
  and a reported cycle is a cycle of the definition's edges.
\<close>

theorem connectivity_errors_impossible:
  assumes "iter_law it"
  shows "validate_unvalidated mv it u \<noteq> Some (Inl NoStartNode)
       \<and> validate_unvalidated mv it u \<noteq> Some (Inl (UnreachableNodes names))
       \<and> (validate_unvalidated mv it u = Some (Inl (CycleDetected c))
            \<longrightarrow> is_cycle (graph (uw_edges u)) c)"
  by (cases rule: validate_unvalidated_cases [OF assms, of mv u]) auto

theorem connectivity_errors_impossible_witness:
  "validate_unvalidated 1 remdups diamond \<noteq> Some (Inl NoStartNode)
   \<and> validate_unvalidated (1 :: nat) remdups diamond \<noteq> Some (Inl (UnreachableNodes [''a'']))"
  using connectivity_errors_impossible [OF iter_law_remdups, of 1 diamond "[''a'']"] by blast

section \<open>Scheduling over a validated definition\<close>

lemma get_node_found:
  assumes "distinct (map node_name (nodes d))" and "n \<in> set (nodes d)"
  shows "get_node d (node_name n) = Some n"
proof -
  obtain m where m: "find (\<lambda>m. node_name m = node_name n) (nodes d) = Some m"
    using assms(2) by (cases "find (\<lambda>m. node_name m = node_name n) (nodes d)")
      (auto simp: find_None_iff)
  then have "m \<in> set (nodes d)" "node_name m = node_name n"
    by (auto simp: find_Some_iff)
  then have "m = n" using assms by (metis distinct_map inj_onD)
  with m show ?thesis by (simp add: get_node_def)
qed

lemma map_filter_total:
  assumes "\<And>x. x \<in> set xs \<Longrightarrow> \<exists>y. f x = Some y \<and> g y = h x"
  shows "map g (List.map_filter f xs) = map h xs"
  using assms
proof (induction xs)
  case Nil
  then show ?case by (simp add: map_filter_simps)
next
  case (Cons x xs)
  then obtain y where "f x = Some y" "g y = h x" by auto
  with Cons show ?case by (simp add: map_filter_simps)
qed

lemma accepted_next_nodes:
  assumes "acceptable u"
  shows "map node_name (next_nodes current outcome (accepted_definition mv u)) =
     map target_node (filter (\<lambda>e. source_node e = current \<and> matches (condition e) outcome) (uw_edges u))"
proof -
  let ?d = "accepted_definition mv u"
  have "\<exists>n. get_node ?d (target_node e) = Some n \<and> node_name n = target_node e"
    if "e \<in> set (uw_edges u)" for e
  proof -
    have "target_node e \<in> node_name ` set (uw_nodes u)"
      using assms that unfolding acceptable_def by blast
    then obtain n where "n \<in> set (nodes ?d)" "node_name n = target_node e"
      by (auto simp: accepted_definition_def)
    moreover have "distinct (map node_name (nodes ?d))"
      using assms by (simp add: acceptable_def accepted_definition_def)
    ultimately show ?thesis using get_node_found [of ?d n] by auto
  qed
  moreover have ed: "edges ?d = uw_edges u" by (simp add: accepted_definition_def)
  ultimately show ?thesis unfolding next_nodes_def ed by (intro map_filter_total) auto
qed

text \<open>
  The scheduler follows exactly the matching edges: on a definition that
  validation produced, \<open>next_nodes\<close> returns, in edge order, a node for every edge
  that leaves the current node and whose condition matches the outcome, dropping
  none.
\<close>

theorem next_nodes_exact:
  assumes "iter_law it" and "validate_unvalidated mv it u = Some (Inr d)"
  shows "map node_name (next_nodes current outcome d) =
     map target_node (filter (\<lambda>e. source_node e = current \<and> matches (condition e) outcome) (edges d))"
proof (cases rule: validate_unvalidated_cases [OF assms(1), of mv u])
  case 1
  then have "d = accepted_definition mv u" using assms(2) by simp
  then show ?thesis using accepted_next_nodes [OF 1(2)] by (simp add: accepted_definition_def)
qed (use assms in auto)

theorem next_nodes_exact_witness:
  "map node_name (next_nodes ''a'' Success (accepted_definition 1 diamond)) = [''b'', ''c'']"
proof -
  have v: "validate_unvalidated 1 remdups diamond = Some (Inr (accepted_definition 1 diamond))"
    by (rule validate_unvalidated_cases [OF iter_law_remdups, of 1 diamond])
      (simp_all add: diamond_acceptable)
  show ?thesis unfolding next_nodes_exact [OF iter_law_remdups v]
    by (simp add: accepted_definition_def diamond_def wf_edge_def)
qed

text \<open>
  (C12) Every execution of a validated workflow is finite and visits no node
  twice: a sequence of nodes in which each is a successor chosen by
  \<open>next_nodes\<close> for some outcome of the previous one has no repetition and is no
  longer than the definition has nodes.
\<close>

theorem workflow_runs_terminate:
  assumes "iter_law it" and "validate_unvalidated mv it u = Some (Inr d)"
    and "x \<in> node_name ` set (nodes d)"
    and "walk {(a, b). \<exists>outcome. b \<in> node_name ` set (next_nodes a outcome d)} (x # xs)"
  shows "distinct (x # xs) \<and> length (x # xs) \<le> length (nodes d)"
proof (cases rule: validate_unvalidated_cases [OF assms(1), of mv u])
  case 1
  then have d: "d = accepted_definition mv u" using assms(2) by simp
  then have nd: "nodes d = uw_nodes u" by (simp add: accepted_definition_def)
  have "{(a, b). \<exists>outcome. b \<in> node_name ` set (next_nodes a outcome d)} \<subseteq> graph (uw_edges u)"
  proof clarify
    fix a outcome n
    assume "n \<in> set (next_nodes a outcome d)"
    then have "node_name n \<in> set (map node_name (next_nodes a outcome d))" by simp
    then show "(a, node_name n) \<in> graph (uw_edges u)"
      unfolding d accepted_next_nodes [OF 1(2)] by (auto simp: graph_def)
  qed
  then have w: "walk (graph (uw_edges u)) (x # xs)" using assms(4) walk_mono by blast
  have "acyclic (graph (uw_edges u))" using 1(2) by (simp add: acceptable_def)
  then have dist: "distinct (x # xs)" using acyclic_walk_distinct [OF _ w] by simp
  have "set (x # xs) \<subseteq> node_name ` set (uw_nodes u)"
    using walk_in_Range [OF w] assms(3) nd 1(2)
    by (auto simp: Domain_Range_graph acceptable_def)
  then have "card (set (x # xs)) \<le> card (node_name ` set (uw_nodes u))" by (intro card_mono) simp_all
  also have "\<dots> \<le> length (nodes d)" unfolding nd by (rule order_trans [OF card_image_le card_length]) simp
  finally show ?thesis using dist distinct_card [OF dist] by simp
qed (use assms in auto)

theorem workflow_runs_terminate_witness:
  "length [''a'', ''b'', ''c''] \<le> length (nodes (accepted_definition (1 :: nat) diamond))"
proof -
  let ?d = "accepted_definition (1 :: nat) diamond"
  have v: "validate_unvalidated 1 remdups diamond = Some (Inr ?d)"
    by (rule validate_unvalidated_cases [OF iter_law_remdups, of 1 diamond])
      (simp_all add: diamond_acceptable)
  have n: "node_name ` set (next_nodes a Success ?d) = set (map target_node
      (filter (\<lambda>e. source_node e = a \<and> matches (condition e) Success) (uw_edges diamond)))" for a
    using arg_cong [OF accepted_next_nodes [OF diamond_acceptable, of a Success 1], of set]
    by (simp only: set_map)
  have "''b'' \<in> node_name ` set (next_nodes ''a'' Success ?d)"
    "''c'' \<in> node_name ` set (next_nodes ''b'' Success ?d)"
    unfolding n by (simp_all add: diamond_def wf_edge_def)
  then have "walk {(a, b). \<exists>outcome. b \<in> node_name ` set (next_nodes a outcome ?d)}
      (''a'' # [''b'', ''c''])"
    unfolding walk.simps by blast
  from workflow_runs_terminate [OF iter_law_remdups v _ this] show ?thesis
    by (simp add: accepted_definition_def diamond_def wf_node_def)
qed

end
