(* ===== verification/Key_Encoding.thy ===== *)
theory Key_Encoding
  imports Ids
begin

text \<open>
  The binary keys of the storage partitions (vo-storage/src/key_encoding/mod.rs)
  and the status byte of the instance index (vo-types/src/instance_status.rs).
  Keys are compared byte by byte, so the lemmas show not only that decoding
  inverts encoding but also that the order of keys is the intended order.
\<close>

section \<open>UTF-8\<close>

text \<open>
  \<open>std::str::from_utf8\<close>: the text on success, the text of \<open>Utf8Error\<close>
  otherwise.  \<open>cont b lo hi\<close> is the range test on a continuation byte.
\<close>

definition cont :: "u8 \<Rightarrow> u8 \<Rightarrow> u8 \<Rightarrow> bool" where
  "cont b lo hi = (lo \<le> b \<and> b \<le> hi)"

definition utf8_invalid :: "nat \<Rightarrow> nat \<Rightarrow> string" where
  "utf8_invalid len idx =
     ''invalid utf-8 sequence of '' @ show_nat len @ '' bytes from index '' @ show_nat idx"

definition utf8_incomplete :: "nat \<Rightarrow> string" where
  "utf8_incomplete idx = ''incomplete utf-8 byte sequence from index '' @ show_nat idx"

text \<open>The ranges the second byte may take, by first byte.\<close>

definition second_range :: "u8 \<Rightarrow> u8 \<times> u8" where
  "second_range b =
     (if b = 0xE0 then (0xA0, 0xBF) else if b = 0xED then (0x80, 0x9F)
      else if b = 0xF0 then (0x90, 0xBF) else if b = 0xF4 then (0x80, 0x8F)
      else (0x80, 0xBF))"

definition seq_width :: "u8 \<Rightarrow> nat" where
  "seq_width b =
     (if b < 0x80 then 1 else if cont b 0xC2 0xDF then 2 else if cont b 0xE0 0xEF then 3
      else if cont b 0xF0 0xF4 then 4 else 0)"

text \<open>Checks the tail of a sequence: \<open>k\<close> bytes read, \<open>w\<close> expected.\<close>

fun utf8_tail :: "nat \<Rightarrow> nat \<Rightarrow> u8 \<times> u8 \<Rightarrow> bytes \<Rightarrow> (nat option) + bytes" where
  "utf8_tail k 0 rng bs = Inr bs"
| "utf8_tail k (Suc w) rng [] = Inl None"
| "utf8_tail k (Suc w) rng (b # bs) =
     (if cont b (fst rng) (snd rng) then utf8_tail (Suc k) w (0x80, 0xBF) bs else Inl (Some k))"

lemma utf8_tail_length: "utf8_tail k w rng bs = Inr rest \<Longrightarrow> length rest \<le> length bs"
  by (induction k w rng bs rule: utf8_tail.induct) (auto split: if_splits)

function utf8_check :: "nat \<Rightarrow> bytes \<Rightarrow> string + unit" where
  "utf8_check idx [] = Inr ()"
| "utf8_check idx (b # bs) =
     (if seq_width b = 0 then Inl (utf8_invalid 1 idx)
      else (case utf8_tail 1 (seq_width b - 1) (second_range b) bs of
              Inl (Some n) \<Rightarrow> Inl (utf8_invalid n idx)
            | Inl None \<Rightarrow> Inl (utf8_incomplete idx)
            | Inr rest \<Rightarrow> utf8_check (idx + seq_width b) rest))"
  by pat_completeness auto

termination
  by (relation "measure (\<lambda>(idx, bs). length bs)") (auto dest: utf8_tail_length)

definition from_utf8 :: "bytes \<Rightarrow> string + string" where
  "from_utf8 bs = and_then (utf8_check 0 bs) (\<lambda>_. Inr (map (\<lambda>b. char_of (unat b)) bs))"

section \<open>Errors and integers\<close>

datatype KeyEncodingError =
    Key_InstanceId ParseError
  | Key_StepId ParseError
  | Key_InvalidLength nat nat
  | Key_EmptyField
  | Key_KeyComponentTooLong nat nat

definition encode_u64_be :: "u64 \<Rightarrow> bytes" where
  "encode_u64_be value = u64_to_be_bytes value"

definition encode_u16_be :: "u16 \<Rightarrow> bytes" where
  "encode_u16_be value = u16_to_be_bytes value"

definition decode_u64_be :: "bytes \<Rightarrow> KeyEncodingError + u64" where
  "decode_u64_be bs =
     (if length bs \<noteq> 8 then Inl (Key_InvalidLength 8 (length bs)) else Inr (u64_from_be_bytes bs))"

definition decode_u16_be :: "bytes \<Rightarrow> KeyEncodingError + u16" where
  "decode_u16_be bs =
     (if length bs \<noteq> 2 then Inl (Key_InvalidLength 2 (length bs)) else Inr (u16_from_be_bytes bs))"

definition encode_length_prefixed :: "bytes \<Rightarrow> KeyEncodingError + bytes" where
  "encode_length_prefixed value =
     (if 65535 < length value then Inl (Key_KeyComponentTooLong 65535 (length value))
      else Inr (u16_to_be_bytes (word_of_nat (length value)) @ value))"

definition decode_length_prefixed :: "bytes \<Rightarrow> KeyEncodingError + (bytes \<times> bytes)" where
  "decode_length_prefixed bs =
     (if length bs < 2 then Inl (Key_InvalidLength 2 (length bs))
      else and_then (decode_u16_be (take 2 bs))
        (\<lambda>l. let len = unat l in
             if length bs < 2 + len then Inl (Key_InvalidLength (2 + len) (length bs))
             else Inr (take len (drop 2 bs), drop (2 + len) bs)))"

section \<open>Identifiers\<close>

definition encode_instance_id :: "id_crates \<Rightarrow> InstanceId \<Rightarrow> KeyEncodingError + bytes" where
  "encode_instance_id api instance_id =
     map_err Key_InstanceId (InstanceId_to_bytes api instance_id)"

definition decode_instance_id :: "id_crates \<Rightarrow> bytes \<Rightarrow> KeyEncodingError + InstanceId" where
  "decode_instance_id api bs =
     (if length bs \<noteq> 16 then Inl (Key_InvalidLength 16 (length bs))
      else Inr (InstanceId_from_bytes api bs))"

definition encode_step_id :: "StepId \<Rightarrow> KeyEncodingError + bytes" where
  "encode_step_id step_id = encode_length_prefixed (as_bytes step_id)"

definition decode_step_id :: "bytes \<Rightarrow> KeyEncodingError + StepId" where
  "decode_step_id bs =
     and_then (decode_length_prefixed bs) (\<lambda>(id_bytes, _).
       and_then (map_err (\<lambda>e. Key_StepId (InvalidFormat ''StepId'' e)) (from_utf8 id_bytes))
         (\<lambda>s. map_err Key_InstanceId (StepId_parse s)))"

definition encode_sequence_number :: "SequenceNumber \<Rightarrow> bytes" where
  "encode_sequence_number seq = encode_u64_be seq"

definition decode_sequence_number :: "bytes \<Rightarrow> KeyEncodingError + SequenceNumber" where
  "decode_sequence_number bs =
     and_then (decode_u64_be bs) (\<lambda>val. map_err Key_InstanceId (SequenceNumber_try_from val))"

text \<open>\<open>instance_id.to_bytes().unwrap_or([0u8; 16])\<close>\<close>

definition iid_bytes_or_zero :: "id_crates \<Rightarrow> InstanceId \<Rightarrow> bytes" where
  "iid_bytes_or_zero api instance_id =
     (case InstanceId_to_bytes api instance_id of Inl _ \<Rightarrow> replicate 16 0 | Inr bs \<Rightarrow> bs)"

section \<open>Partition keys\<close>

definition encode_event_key :: "id_crates \<Rightarrow> InstanceId \<Rightarrow> SequenceNumber \<Rightarrow> bytes" where
  "encode_event_key api instance_id sequence =
     (let iid_bytes = iid_bytes_or_zero api instance_id in
      encode_u16_be (word_of_nat (length iid_bytes)) @ iid_bytes @ encode_sequence_number sequence)"

definition decode_event_key ::
  "id_crates \<Rightarrow> bytes \<Rightarrow> KeyEncodingError + (InstanceId \<times> SequenceNumber)" where
  "decode_event_key api bs =
     (if length bs \<noteq> 26 then Inl (Key_InvalidLength 26 (length bs))
      else and_then (decode_u16_be (take 2 bs)) (\<lambda>_.
        let instance_id = InstanceId_from_bytes api (take 16 (drop 2 bs)) in
        and_then (map_err Key_InstanceId
            (SequenceNumber_try_from (u64_from_be_bytes (take 8 (drop 18 bs)))))
          (\<lambda>sequence. Inr (instance_id, sequence))))"

definition encode_timer_key :: "id_crates \<Rightarrow> u64 \<Rightarrow> InstanceId \<Rightarrow> bytes" where
  "encode_timer_key api fire_at_ms instance_id =
     (let iid_bytes = iid_bytes_or_zero api instance_id in
      u64_to_be_bytes fire_at_ms @ encode_u16_be (word_of_nat (length iid_bytes)) @ iid_bytes)"

definition decode_timer_key :: "id_crates \<Rightarrow> bytes \<Rightarrow> KeyEncodingError + (u64 \<times> InstanceId)" where
  "decode_timer_key api bs =
     (if length bs < 10 then Inl (Key_InvalidLength 10 (length bs))
      else and_then (decode_u16_be (take 2 (drop 8 bs))) (\<lambda>l.
        let iid_len = unat l; required = 10 + iid_len in
        if length bs < required then Inl (Key_InvalidLength required (length bs))
        else let iid_bytes = take iid_len (drop 10 bs) in
          if length iid_bytes \<noteq> 16 then Inl (Key_InvalidLength 16 iid_len)
          else Inr (u64_from_be_bytes (take 8 bs), InstanceId_from_bytes api iid_bytes)))"

definition encode_lease_key :: "id_crates \<Rightarrow> InstanceId \<Rightarrow> StepId \<Rightarrow> bytes" where
  "encode_lease_key api instance_id step_id =
     (let step_bytes = as_bytes step_id in
      iid_bytes_or_zero api instance_id @ encode_u16_be (word_of_nat (length step_bytes)) @ step_bytes)"

definition decode_lease_key :: "id_crates \<Rightarrow> bytes \<Rightarrow> KeyEncodingError + (InstanceId \<times> StepId)" where
  "decode_lease_key api bs =
     (if length bs < 18 then Inl (Key_InvalidLength 18 (length bs))
      else let instance_id = InstanceId_from_bytes api (take 16 bs) in
        and_then (decode_step_id (drop 16 bs)) (\<lambda>step_id. Inr (instance_id, step_id)))"

definition encode_dedupe_key :: "string \<Rightarrow> KeyEncodingError + bytes" where
  "encode_dedupe_key idempotency_key = encode_length_prefixed (as_bytes idempotency_key)"

definition decode_dedupe_key :: "bytes \<Rightarrow> KeyEncodingError + string" where
  "decode_dedupe_key bs =
     and_then (decode_length_prefixed bs) (\<lambda>(key_bytes, _).
       map_err (\<lambda>e. Key_StepId (InvalidFormat ''IdempotencyKey'' e)) (from_utf8 key_bytes))"

definition encode_instance_index_key_for_status ::
  "id_crates \<Rightarrow> u8 \<Rightarrow> u64 \<Rightarrow> InstanceId \<Rightarrow> bytes" where
  "encode_instance_index_key_for_status api status_byte created_at instance_id =
     status_byte # u64_to_be_bytes created_at @ iid_bytes_or_zero api instance_id"

definition encode_effect_key :: "id_crates \<Rightarrow> InstanceId \<Rightarrow> SequenceNumber \<Rightarrow> bytes" where
  "encode_effect_key api instance_id sequence =
     (let iid_bytes = iid_bytes_or_zero api instance_id in
      encode_u16_be (word_of_nat (length iid_bytes)) @ iid_bytes
        @ encode_sequence_number sequence @ [0xFF])"

definition decode_effect_key ::
  "id_crates \<Rightarrow> bytes \<Rightarrow> KeyEncodingError + (InstanceId \<times> SequenceNumber)" where
  "decode_effect_key api bs =
     (if length bs \<noteq> 27 then Inl (Key_InvalidLength 27 (length bs))
      else if bs ! 26 \<noteq> 0xFF then Inl (Key_InvalidLength 27 (length bs))
      else and_then (decode_u16_be (take 2 bs)) (\<lambda>_.
        let instance_id = InstanceId_from_bytes api (take 16 (drop 2 bs)) in
        and_then (map_err Key_InstanceId
            (SequenceNumber_try_from (u64_from_be_bytes (take 8 (drop 18 bs)))))
          (\<lambda>sequence. Inr (instance_id, sequence))))"

definition get_event_key_prefix :: "id_crates \<Rightarrow> InstanceId \<Rightarrow> bytes" where
  "get_event_key_prefix api instance_id =
     (let iid_bytes = iid_bytes_or_zero api instance_id in
      encode_u16_be (word_of_nat (length iid_bytes)) @ iid_bytes)"

definition get_timer_key_prefix_for_time :: "u64 \<Rightarrow> bytes" where
  "get_timer_key_prefix_for_time fire_at_ms = u64_to_be_bytes fire_at_ms"

definition get_lease_key_prefix_for_instance :: "id_crates \<Rightarrow> InstanceId \<Rightarrow> bytes" where
  "get_lease_key_prefix_for_instance api instance_id = iid_bytes_or_zero api instance_id"

definition get_dedupe_key_prefix :: "string \<Rightarrow> KeyEncodingError + bytes" where
  "get_dedupe_key_prefix idempotency_key = encode_length_prefixed (as_bytes idempotency_key)"

section \<open>Legacy keys\<close>

definition LEGACY_DELIMITER :: bytes where
  "LEGACY_DELIMITER = as_bytes ''::''"

definition LEGACY_FENCE_DELIMITER :: bytes where
  "LEGACY_FENCE_DELIMITER = as_bytes ''::fence''"

definition delimiter_positions :: "bytes \<Rightarrow> nat list" where
  "delimiter_positions key =
     filter (\<lambda>i. key ! i = 0x3A \<and> key ! (i + 1) = 0x3A) [0..<length key - 1]"

definition is_legacy_delimiter_lease_key :: "id_crates \<Rightarrow> bytes \<Rightarrow> bool" where
  "is_legacy_delimiter_lease_key api key =
     (if length key < 14 then False
      else if 18 \<le> length key
              \<and> length key = 18 + unat (u16_from_be_bytes (take 2 (drop 16 key))) then False
      else
        (case delimiter_positions key of
           [delim_pos] \<Rightarrow>
             if delim_pos < 11 then False
             else if length key \<le> delim_pos + 2 then False
             else
               (case from_utf8 (take delim_pos key) of
                  Inl _ \<Rightarrow> False
                | Inr iid_str \<Rightarrow>
                    (case from_utf8 (drop (delim_pos + 2) key) of
                       Inl _ \<Rightarrow> False
                     | Inr sid_str \<Rightarrow>
                         is_ok (InstanceId_parse api iid_str) \<and> is_ok (StepId_parse sid_str)))
         | _ \<Rightarrow> False))"

definition ends_with :: "bytes \<Rightarrow> bytes \<Rightarrow> bool" where
  "ends_with key suf = (length suf \<le> length key \<and> drop (length key - length suf) key = suf)"

definition is_legacy_delimiter_fence_key :: "id_crates \<Rightarrow> bytes \<Rightarrow> bool" where
  "is_legacy_delimiter_fence_key api key =
     (if \<not> ends_with key LEGACY_FENCE_DELIMITER then False
      else is_legacy_delimiter_lease_key api
             (take (length key - length LEGACY_FENCE_DELIMITER) key))"

definition extract_legacy_lease_components :: "id_crates \<Rightarrow> bytes \<Rightarrow> (string \<times> string) option" where
  "extract_legacy_lease_components api key =
     (if \<not> is_legacy_delimiter_lease_key api key then None
      else
        (case delimiter_positions key of
           [delim_pos] \<Rightarrow>
             (case from_utf8 (take delim_pos key) of
                Inl _ \<Rightarrow> None
              | Inr iid_str \<Rightarrow>
                  (case from_utf8 (drop (delim_pos + 2) key) of
                     Inl _ \<Rightarrow> None
                   | Inr sid_str \<Rightarrow>
                       if \<not> is_ok (InstanceId_parse api iid_str) \<or> \<not> is_ok (StepId_parse sid_str)
                       then None else Some (iid_str, sid_str)))
         | _ \<Rightarrow> None))"

definition extract_legacy_fence_components :: "id_crates \<Rightarrow> bytes \<Rightarrow> (string \<times> string) option" where
  "extract_legacy_fence_components api key =
     (if \<not> is_legacy_delimiter_fence_key api key then None
      else extract_legacy_lease_components api
             (take (length key - length LEGACY_FENCE_DELIMITER) key))"

section \<open>Instance status bytes\<close>

datatype InstanceStatus =
    Status_Pending | Status_Running | Status_Paused | Status_Completed | Status_Failed
  | Status_Cancelled

fun to_byte :: "InstanceStatus \<Rightarrow> u8" where
  "to_byte Status_Pending = 0x01"
| "to_byte Status_Running = 0x02"
| "to_byte Status_Paused = 0x03"
| "to_byte Status_Completed = 0x04"
| "to_byte Status_Failed = 0x05"
| "to_byte Status_Cancelled = 0x06"

definition from_byte :: "u8 \<Rightarrow> InstanceStatus option" where
  "from_byte b =
     (if b = 0x01 then Some Status_Pending else if b = 0x02 then Some Status_Running
      else if b = 0x03 then Some Status_Paused else if b = 0x04 then Some Status_Completed
      else if b = 0x05 then Some Status_Failed else if b = 0x06 then Some Status_Cancelled
      else None)"

definition status_all_variants :: "InstanceStatus list" where
  "status_all_variants =
     [Status_Pending, Status_Running, Status_Paused, Status_Completed, Status_Failed,
      Status_Cancelled]"

section \<open>Facts about the components\<close>

lemma as_bytes_simps [simp]:
  "as_bytes [] = []" "as_bytes (s @ t) = as_bytes s @ as_bytes t" "length (as_bytes s) = length s"
  by (simp_all add: as_bytes_def)

lemma unat_of_char: "unat (of_char c :: u8) = code c"
proof -
  have "(of_char c :: u8) = word_of_nat (code c)" by (simp add: code_def of_nat_of_char)
  moreover have "code c < 256" by (simp add: code_def)
  ultimately show ?thesis by simp
qed

lemma chars_as_bytes: "map (\<lambda>b. char_of (unat b)) (as_bytes s) = s"
  by (induction s) (simp_all add: as_bytes_def unat_of_char code_def)

lemma utf8_check_ascii: "\<forall>b \<in> set bs. b < 0x80 \<Longrightarrow> utf8_check idx bs = Inr ()"
  by (induction bs arbitrary: idx) (simp_all add: seq_width_def)

lemma from_utf8_ascii:
  assumes "\<And>c. c \<in> set s \<Longrightarrow> code c < 128"
  shows "from_utf8 (as_bytes s) = Inr s"
proof -
  have "\<forall>b \<in> set (as_bytes s). b < 0x80"
    using assms by (auto simp: as_bytes_def word_less_nat_alt unat_of_char)
  then show ?thesis by (simp add: from_utf8_def utf8_check_ascii chars_as_bytes)
qed

lemma as_bytes_inj [simp]: "as_bytes s = as_bytes t \<longleftrightarrow> s = t"
  by (metis chars_as_bytes)

lemma unat_u16_of_nat: "n < 65536 \<Longrightarrow> unat (word_of_nat n :: u16) = n"
  by (simp add: unat_of_nat)

lemma decode_encode_u64 [simp]: "decode_u64_be (encode_u64_be w) = Inr w"
  by (simp add: decode_u64_be_def encode_u64_be_def)

lemma decode_encode_u16 [simp]: "decode_u16_be (encode_u16_be w) = Inr w"
  by (simp add: decode_u16_be_def encode_u16_be_def)

lemma length_encode [simp]:
  "length (encode_u64_be w) = 8" "length (encode_u16_be h) = 2"
  "length (encode_sequence_number w) = 8"
  by (simp_all add: encode_u64_be_def encode_u16_be_def encode_sequence_number_def)

lemma take_drop_encode_u16 [simp]:
  "take 2 (encode_u16_be h @ rest) = encode_u16_be h"
  "drop 2 (encode_u16_be h @ rest) = rest"
  by simp_all

lemma decode_length_prefixed_encode:
  assumes "encode_length_prefixed v = Inr bs"
  shows "decode_length_prefixed (bs @ rest) = Inr (v, rest)"
proof -
  have v: "length v \<le> 65535" "bs = encode_u16_be (word_of_nat (length v)) @ v"
    using assms by (auto simp: encode_length_prefixed_def encode_u16_be_def split: if_splits)
  then show ?thesis
    by (simp add: decode_length_prefixed_def unat_u16_of_nat)
qed

lemma length_prefixed_too_long:
  "65535 < length v \<Longrightarrow>
     encode_length_prefixed v = Inl (Key_KeyComponentTooLong 65535 (length v))"
  by (simp add: encode_length_prefixed_def)

section \<open>Instance identifiers in keys\<close>

definition canonical_id :: "id_crates \<Rightarrow> InstanceId \<Rightarrow> bool" where
  "canonical_id api iid \<longleftrightarrow> (\<exists>u. iid = ulid_to_string api u)"

lemma InstanceId_parse_canonical: "InstanceId_parse api input = Inr iid \<Longrightarrow> canonical_id api iid"
  by (auto simp: InstanceId_parse_def canonical_id_def split: if_splits sum.splits)

lemma length_iid_bytes [simp]: "length (iid_bytes_or_zero api iid) = 16"
  by (simp add: iid_bytes_or_zero_def InstanceId_to_bytes_def split: sum.splits)

lemma iid_bytes_roundtrip:
  assumes "ulid_law api" and "canonical_id api iid"
  shows "InstanceId_from_bytes api (iid_bytes_or_zero api iid) = iid"
  using assms
  by (auto simp: ulid_law_def canonical_id_def iid_bytes_or_zero_def InstanceId_to_bytes_def
      InstanceId_from_bytes_def)

lemma iid_bytes_inj:
  assumes "ulid_law api" and "canonical_id api i" and "canonical_id api j"
  shows "iid_bytes_or_zero api i = iid_bytes_or_zero api j \<longleftrightarrow> i = j"
  using iid_bytes_roundtrip [OF assms(1,2)] iid_bytes_roundtrip [OF assms(1,3)] by metis

lemma try_from_nonzero: "seq \<noteq> 0 \<Longrightarrow> SequenceNumber_try_from seq = Inr seq"
  by (simp add: SequenceNumber_try_from_def)

lemma event_key_prefix_split:
  "encode_event_key api iid seq = get_event_key_prefix api iid @ encode_sequence_number seq"
  by (simp add: encode_event_key_def get_event_key_prefix_def)

lemma length_event_key_prefix [simp]: "length (get_event_key_prefix api iid) = 18"
  by (simp add: get_event_key_prefix_def)

lemma event_key_prefix_inj:
  assumes "ulid_law api" and "canonical_id api i" and "canonical_id api j"
  shows "get_event_key_prefix api i = get_event_key_prefix api j \<longleftrightarrow> i = j"
  using iid_bytes_inj [OF assms] by (simp add: get_event_key_prefix_def)

lemma decode_encode_event_key:
  assumes "ulid_law api" and "canonical_id api iid" and "seq \<noteq> 0"
  shows "decode_event_key api (encode_event_key api iid seq) = Inr (iid, seq)"
proof -
  have "drop 18 (encode_event_key api iid seq) = encode_sequence_number seq"
    by (simp add: event_key_prefix_split)
  moreover have "take 2 (encode_event_key api iid seq) = encode_u16_be 16"
    "take 16 (drop 2 (encode_event_key api iid seq)) = iid_bytes_or_zero api iid"
    by (simp_all add: encode_event_key_def Let_def)
  ultimately show ?thesis
    using assms
    by (simp add: decode_event_key_def event_key_prefix_split try_from_nonzero iid_bytes_roundtrip
        encode_sequence_number_def encode_u64_be_def)
qed

lemma decode_encode_timer_key:
  assumes "ulid_law api" and "canonical_id api iid"
  shows "decode_timer_key api (encode_timer_key api t iid) = Inr (t, iid)"
  using assms
  by (simp add: decode_timer_key_def encode_timer_key_def Let_def iid_bytes_roundtrip)

lemma decode_encode_effect_key:
  assumes "ulid_law api" and "canonical_id api iid" and "seq \<noteq> 0"
  shows "decode_effect_key api (encode_effect_key api iid seq) = Inr (iid, seq)"
proof -
  have k: "encode_effect_key api iid seq = encode_event_key api iid seq @ [0xFF]"
    by (simp add: encode_effect_key_def encode_event_key_def Let_def)
  have len: "length (encode_event_key api iid seq) = 26" by (simp add: event_key_prefix_split)
  have "take 2 (encode_effect_key api iid seq) = take 2 (encode_event_key api iid seq)"
    "take 16 (drop 2 (encode_effect_key api iid seq)) = take 16 (drop 2 (encode_event_key api iid seq))"
    "take 8 (drop 18 (encode_effect_key api iid seq)) = take 8 (drop 18 (encode_event_key api iid seq))"
    "encode_effect_key api iid seq ! 26 = 0xFF"
    using len by (simp_all add: k nth_append)
  then show ?thesis
    using decode_encode_event_key [OF assms] len by (simp add: decode_effect_key_def decode_event_key_def k)
qed

section \<open>The key codecs\<close>

interpretation event_codec:
  codec "\<lambda>(iid, seq). encode_event_key api iid seq" "decode_event_key api"
    "\<lambda>(iid, seq). ulid_law api \<and> canonical_id api iid \<and> seq \<noteq> 0" for api
  by unfold_locales (auto simp: decode_encode_event_key)

interpretation timer_codec:
  codec "\<lambda>(t, iid). encode_timer_key api t iid" "decode_timer_key api"
    "\<lambda>(t, iid). ulid_law api \<and> canonical_id api iid" for api
  by unfold_locales (auto simp: decode_encode_timer_key)

interpretation effect_codec:
  codec "\<lambda>(iid, seq). encode_effect_key api iid seq" "decode_effect_key api"
    "\<lambda>(iid, seq). ulid_law api \<and> canonical_id api iid \<and> seq \<noteq> 0" for api
  by unfold_locales (auto simp: decode_encode_effect_key)

lemma event_key_less:
  "bytes_less (encode_event_key api i m) (encode_event_key api j n) \<longleftrightarrow>
     bytes_less (get_event_key_prefix api i) (get_event_key_prefix api j)
     \<or> get_event_key_prefix api i = get_event_key_prefix api j \<and> m < n"
  by (simp add: event_key_prefix_split bytes_less_append encode_sequence_number_def
      encode_u64_be_def u64_to_be_bytes_mono)

lemma demo_canonical: "canonical_id demo_crates (ulid_to_string demo_crates u)"
  by (auto simp: canonical_id_def)

text \<open>
  A range scan over event keys is exact.  Between the keys of events m and
  n of an instance (both included) the byte order puts precisely the keys of
  that instance's events numbered m to n, in order of their sequence numbers,
  and no key of another instance; every key is 26 bytes and decodes to its
  instance and number.
\<close>

theorem event_scan_exact:
  assumes "ulid_law api" and "canonical_id api iid" and "canonical_id api jid" and "k \<noteq> 0"
  shows "((\<not> bytes_less (encode_event_key api jid k) (encode_event_key api iid m)
           \<and> \<not> bytes_less (encode_event_key api iid n) (encode_event_key api jid k))
          \<longleftrightarrow> (jid = iid \<and> m \<le> k \<and> k \<le> n))
     \<and> length (encode_event_key api jid k) = 26
     \<and> decode_event_key api (encode_event_key api jid k) = Inr (jid, k)"
proof -
  let ?P = "get_event_key_prefix api"
  have "((\<not> bytes_less (encode_event_key api jid k) (encode_event_key api iid m)
           \<and> \<not> bytes_less (encode_event_key api iid n) (encode_event_key api jid k))
          \<longleftrightarrow> (jid = iid \<and> m \<le> k \<and> k \<le> n))"
    using bytes_less_total [of "?P iid" "?P jid"] bytes_less_trans [of "?P iid" "?P jid" "?P iid"]
      event_key_prefix_inj [OF assms(1-3)]
    by (auto simp: event_key_less)
  moreover have "length (encode_event_key api jid k) = 26" by (simp add: event_key_prefix_split)
  ultimately show ?thesis using decode_encode_event_key [OF assms(1,3,4)] by blast
qed

theorem event_scan_exact_witness:
  "decode_event_key demo_crates (encode_event_key demo_crates (ulid_to_string demo_crates 5) 2)
     = Inr (ulid_to_string demo_crates 5, 2)
   \<and> \<not> bytes_less (encode_event_key demo_crates (ulid_to_string demo_crates 5) 2)
        (encode_event_key demo_crates (ulid_to_string demo_crates 5) 1)"
  using event_scan_exact [OF demo_crates_law demo_canonical [of 5] demo_canonical [of 5], of 2 1 3]
  by simp

text \<open>
  Timer keys are ordered by due time first and decode to what was encoded,
  so a scan up to a bound on the time finds exactly the due timers of every
  instance.
\<close>

theorem timer_keys_ordered:
  assumes "ulid_law api" and "canonical_id api iid" and "canonical_id api jid"
  shows "decode_timer_key api (encode_timer_key api t iid) = Inr (t, iid)
     \<and> (t < u \<longrightarrow> bytes_less (encode_timer_key api t iid) (encode_timer_key api u jid))
     \<and> (bytes_less (encode_timer_key api t iid) (get_timer_key_prefix_for_time u) \<longleftrightarrow> t < u)
     \<and> (encode_timer_key api t iid = encode_timer_key api u jid \<longleftrightarrow> t = u \<and> iid = jid)"
proof -
  have "bytes_less (encode_timer_key api t iid) (get_timer_key_prefix_for_time u) \<longleftrightarrow> t < u"
    using bytes_less_append [of "u64_to_be_bytes t" "u64_to_be_bytes u" _ "[]"]
    by (simp add: encode_timer_key_def Let_def get_timer_key_prefix_for_time_def
        u64_to_be_bytes_mono)
  moreover have "bytes_less (encode_timer_key api t iid) (encode_timer_key api u jid)" if "t < u"
    using that by (simp add: encode_timer_key_def Let_def bytes_less_append u64_to_be_bytes_mono)
  moreover have "encode_timer_key api t iid = encode_timer_key api u jid \<longleftrightarrow> t = u \<and> iid = jid"
    using timer_codec.encode_inj [of api "(t, iid)" "(u, jid)"] assms by auto
  ultimately show ?thesis using decode_encode_timer_key [OF assms(1,2)] by simp
qed

theorem timer_keys_ordered_witness:
  "bytes_less (encode_timer_key demo_crates 255 (ulid_to_string demo_crates 7))
     (encode_timer_key demo_crates 256 (ulid_to_string demo_crates 1))"
  using timer_keys_ordered [OF demo_crates_law demo_canonical [of 7] demo_canonical [of 1], of 255 256]
  by simp

lemma StepId_ascii: "StepId_parse sid = Inr sid \<Longrightarrow> from_utf8 (as_bytes sid) = Inr sid"
  by (intro from_utf8_ascii identifier_char_ascii) (auto simp: StepId_parse_Inr list_all_iff)

lemma decode_step_id_prefix:
  assumes "StepId_parse sid = Inr sid" and "length sid < 65536"
  shows "decode_step_id (encode_u16_be (word_of_nat (length sid)) @ as_bytes sid) = Inr sid"
proof -
  have "encode_length_prefixed (as_bytes sid)
      = Inr (encode_u16_be (word_of_nat (length sid)) @ as_bytes sid)"
    using assms(2) by (simp add: encode_length_prefixed_def encode_u16_be_def)
  from decode_length_prefixed_encode [OF this, of "[]"] show ?thesis
    using assms StepId_ascii by (simp add: decode_step_id_def)
qed

lemma decode_step_id_length:
  assumes "decode_step_id bs = Inr sid"
  shows "length sid < 65536"
proof -
  have utf: "from_utf8 v = Inr t \<Longrightarrow> length t = length v" for v t
    by (auto simp: from_utf8_def)
  have "unat (l :: u16) < 65536" for l using unat_less_2p [of l] by simp
  with assms show ?thesis
    by (auto simp: decode_step_id_def decode_length_prefixed_def Let_def StepId_parse_Inr dest!: utf
        split: if_splits)
qed

text \<open>
  A lease key decodes to the instance and step it was made from exactly when
  the step identifier is shorter than 65536 bytes: the 16-bit length field is
  filled by truncation, and step identifiers have no upper bound.
\<close>

theorem lease_key_roundtrip_iff:
  assumes "ulid_law api" and "canonical_id api iid" and "StepId_parse sid = Inr sid"
  shows "decode_lease_key api (encode_lease_key api iid sid) = Inr (iid, sid)
         \<longleftrightarrow> length sid < 65536"
proof -
  have "take 16 (encode_lease_key api iid sid) = iid_bytes_or_zero api iid"
    "drop 16 (encode_lease_key api iid sid)
       = encode_u16_be (word_of_nat (length sid)) @ as_bytes sid"
    "18 \<le> length (encode_lease_key api iid sid)"
    by (simp_all add: encode_lease_key_def Let_def)
  then have "decode_lease_key api (encode_lease_key api iid sid) = Inr (iid, sid) \<longleftrightarrow>
      decode_step_id (encode_u16_be (word_of_nat (length sid)) @ as_bytes sid) = Inr sid"
    using iid_bytes_roundtrip [OF assms(1,2)] by (auto simp: decode_lease_key_def)
  then show ?thesis using decode_step_id_prefix [OF assms(3)] decode_step_id_length by blast
qed

theorem lease_key_roundtrip_iff_witness:
  "decode_lease_key demo_crates (encode_lease_key demo_crates (ulid_to_string demo_crates 5) ''step-1'')
     = Inr (ulid_to_string demo_crates 5, ''step-1'')"
proof -
  have "StepId_parse ''step-1'' = Inr ''step-1''"
    by (simp add: StepId_parse_Inr is_identifier_char_def is_ascii_alphanumeric_def
        is_ascii_digit_def code_def)
  from lease_key_roundtrip_iff [OF demo_crates_law demo_canonical [of 5] this] show ?thesis by simp
qed

lemma from_byte_to_byte [simp]: "from_byte (to_byte s) = Some s"
  by (cases s) (simp_all add: from_byte_def)

lemma from_byte_Some: "from_byte b = Some s \<longleftrightarrow> b = to_byte s"
  by (cases s) (auto simp: from_byte_def)

section \<open>Telling legacy keys from binary ones\<close>

definition legacy_lease_key :: "InstanceId \<Rightarrow> StepId \<Rightarrow> bytes" where
  "legacy_lease_key iid sid = as_bytes iid @ LEGACY_DELIMITER @ as_bytes sid"

lemma filter_upt_single: "n < m \<Longrightarrow> filter (\<lambda>i. i = n) [0..<m] = [n]"
  by (induction m) (auto simp: filter_empty_conv less_Suc_eq)

lemma delimiter_positions_single:
  assumes "0x3A \<notin> set A" and "0x3A \<notin> set B" and "B \<noteq> []"
  shows "delimiter_positions (A @ [0x3A, 0x3A] @ B) = [length A]"
proof -
  let ?k = "A @ [0x3A, 0x3A] @ B"
  have iff: "(?k ! i = 0x3A \<and> ?k ! (i + 1) = 0x3A) = (i = length A)" if "i < length ?k - 1" for i
  proof -
    consider "i < length A" | "i = length A" | "i = length A + 1" | "length A + 1 < i" by linarith
    then show ?thesis
    proof cases
      case 1
      then have "?k ! i \<in> set A" by (simp add: nth_append)
      then show ?thesis using assms(1) 1 by auto
    next
      case 2
      then show ?thesis by (simp add: nth_append)
    next
      case 3
      then have "?k ! (i + 1) = B ! 0" by (simp add: nth_append)
      then show ?thesis using assms(2,3) 3 by (auto simp: neq_Nil_conv)
    next
      case 4
      then have "?k ! i = B ! (i - length A - 2)" by (simp add: nth_append nth_Cons')
      moreover have "i - length A - 2 < length B" using that 4 by simp
      ultimately have "?k ! i \<in> set B" by (metis nth_mem)
      then show ?thesis using assms(2) 4 by auto
    qed
  qed
  have "delimiter_positions ?k = filter (\<lambda>i. i = length A) [0..<length ?k - 1]"
    unfolding delimiter_positions_def
  proof (rule filter_cong [OF refl])
    fix i
    assume "i \<in> set [0..<length ?k - 1]"
    then have "i < length ?k - 1" by (simp only: set_upt atLeastLessThan_iff)
    then show "(?k ! i = 0x3A \<and> ?k ! (i + 1) = 0x3A) = (i = length A)" by (rule iff)
  qed
  then show ?thesis using assms(3) by (simp add: filter_upt_single)
qed

lemma no_colon:
  assumes "list_all is_identifier_char s"
  shows "0x3A \<notin> set (as_bytes s)"
proof
  assume "0x3A \<in> set (as_bytes s)"
  then obtain c where c: "c \<in> set s" "(of_char c :: u8) = 0x3A" by (auto simp: as_bytes_def)
  then have "code c = 58" using unat_of_char [of c] by simp
  moreover have "is_identifier_char c" using assms c by (simp add: list_all_iff)
  ultimately show False
    by (auto simp: is_identifier_char_def is_ascii_alphanumeric_def is_ascii_digit_def code_def)
qed

lemma alphanumeric_identifier: "is_ascii_alphanumeric c \<Longrightarrow> is_identifier_char c"
  by (simp add: is_identifier_char_def)

lemma canonical_text:
  assumes "ulid_law api" and "canonical_id api iid"
  shows "length iid = 26" and "list_all is_identifier_char iid"
    and "from_utf8 (as_bytes iid) = Inr iid" and "\<forall>c \<in> set iid. 48 \<le> code c"
proof -
  have an: "length iid = 26" "list_all is_ascii_alphanumeric iid"
    using assms by (auto simp: ulid_law_def canonical_id_def)
  then show ident: "list_all is_identifier_char iid"
    by (auto simp: list_all_iff alphanumeric_identifier)
  show "length iid = 26" by (rule an(1))
  show "from_utf8 (as_bytes iid) = Inr iid"
    using ident by (intro from_utf8_ascii identifier_char_ascii) (simp add: list_all_iff)
  show "\<forall>c \<in> set iid. 48 \<le> code c"
    using an(2) by (auto simp: list_all_iff is_ascii_alphanumeric_def is_ascii_digit_def)
qed

lemma u16_from_two: "unat (u16_from_be_bytes [a, b]) = unat a * 256 + unat b"
proof -
  have "be_decode [a, b] = unat a * 256 + unat b" by (simp add: be_decode_Cons)
  moreover have "be_decode [a, b] < 65536" using be_decode_less [of "[a, b]"] by simp
  ultimately show ?thesis
    unfolding u16_from_be_bytes_def by (simp only: unat_u16_of_nat)
qed

lemma legacy_not_binary_length:
  assumes "ulid_law api" and "canonical_id api iid" and "length sid < 12326"
  shows "length (legacy_lease_key iid sid)
           \<noteq> 18 + unat (u16_from_be_bytes (take 2 (drop 16 (legacy_lease_key iid sid))))"
proof -
  note iid = canonical_text [OF assms(1,2)]
  have "take 2 (drop 16 (legacy_lease_key iid sid)) = as_bytes [iid ! 16, iid ! 17]"
    using iid(1) by (simp add: legacy_lease_key_def as_bytes_def take_map drop_map
        numeral_2_eq_2 take_Suc_conv_app_nth flip: Cons_nth_drop_Suc)
  moreover have "48 \<le> code (iid ! 16)" "48 \<le> code (iid ! 17)" using iid(1,4) by simp_all
  moreover have "code (iid ! 16) < 256" "code (iid ! 17) < 256" by (simp_all add: code_def)
  ultimately have "12336 \<le> unat (u16_from_be_bytes (take 2 (drop 16 (legacy_lease_key iid sid))))"
    by (simp add: as_bytes_def u16_from_two unat_of_char)
  moreover have "length (legacy_lease_key iid sid) = 28 + length sid"
    using iid(1) by (simp add: legacy_lease_key_def LEGACY_DELIMITER_def)
  ultimately show ?thesis using assms(3) by simp
qed

lemma InstanceId_parse_text:
  assumes "ulid_law api" and "u \<noteq> 0"
  shows "InstanceId_parse api (ulid_to_string api u) = Inr (ulid_to_string api u)"
proof -
  have law: "ulid_from_string api (ulid_to_string api u) = Inr u" "length (ulid_to_string api u) = 26"
    using assms(1) by (simp_all add: ulid_law_def)
  then have "ulid_to_string api u \<noteq> []" by auto
  then show ?thesis using law assms(2) by (simp add: InstanceId_parse_def)
qed

text \<open>
  The migration scan tells the two key formats apart.  A binary lease key of
  a step identifier below 65536 bytes is never taken for a legacy key, and a
  legacy text key of a valid instance and a step identifier below 12326 bytes is
  recognised and split into exactly that instance and step.
\<close>

theorem legacy_detection_correct:
  assumes "ulid_law api" and "InstanceId_parse api input = Inr iid"
    and "StepId_parse sid = Inr sid"
  shows "(length sid < 65536 \<longrightarrow>
            \<not> is_legacy_delimiter_lease_key api (encode_lease_key api iid sid))
       \<and> (length sid < 12326 \<longrightarrow>
            extract_legacy_lease_components api (legacy_lease_key iid sid) = Some (iid, sid))"
proof (intro conjI impI)
  assume "length sid < 65536"
  then show "\<not> is_legacy_delimiter_lease_key api (encode_lease_key api iid sid)"
    by (simp add: is_legacy_delimiter_lease_key_def encode_lease_key_def Let_def encode_u16_be_def
        unat_u16_of_nat)
next
  assume short: "length sid < 12326"
  have can: "canonical_id api iid" by (rule InstanceId_parse_canonical [OF assms(2)])
  note iid = canonical_text [OF assms(1) can]
  have sid: "sid \<noteq> []" "list_all is_identifier_char sid" using assms(3) by (auto simp: StepId_parse_Inr)
  obtain u where u: "u \<noteq> 0" "iid = ulid_to_string api u"
    using assms(2) by (auto simp: InstanceId_parse_def split: if_splits sum.splits)
  have okid: "InstanceId_parse api iid = Inr iid"
    using InstanceId_parse_text [OF assms(1) u(1)] u(2) by simp
  have key: "legacy_lease_key iid sid = as_bytes iid @ [0x3A, 0x3A] @ as_bytes sid"
    by (simp add: legacy_lease_key_def LEGACY_DELIMITER_def) (simp add: as_bytes_def)
  have pos: "delimiter_positions (legacy_lease_key iid sid) = [26]"
    unfolding key using delimiter_positions_single [OF no_colon [OF iid(2)] no_colon [OF sid(2)]]
      sid(1) iid(1) by (simp add: as_bytes_def)
  have parts: "take 26 (legacy_lease_key iid sid) = as_bytes iid"
    "drop 28 (legacy_lease_key iid sid) = as_bytes sid"
    "length (legacy_lease_key iid sid) = 28 + length sid"
    using iid(1) by (simp_all add: key)
  have utf: "from_utf8 (as_bytes sid) = Inr sid" by (rule StepId_ascii [OF assms(3)])
  have "is_legacy_delimiter_lease_key api (legacy_lease_key iid sid)"
    using legacy_not_binary_length [OF assms(1) can short] parts pos iid(3) utf okid assms(3) sid(1)
    by (simp add: is_legacy_delimiter_lease_key_def)
  then show "extract_legacy_lease_components api (legacy_lease_key iid sid) = Some (iid, sid)"
    using parts pos iid(3) utf okid assms(3) by (simp add: extract_legacy_lease_components_def)
qed

lemmas demo_parse = InstanceId_parse_text [OF demo_crates_law]

lemma demo_step: "StepId_parse ''step-1'' = Inr ''step-1''"
  by (simp add: StepId_parse_Inr is_identifier_char_def is_ascii_alphanumeric_def
      is_ascii_digit_def code_def)

theorem legacy_detection_correct_witness:
  "extract_legacy_lease_components demo_crates
     (legacy_lease_key (ulid_to_string demo_crates 5) ''step-1'')
     = Some (ulid_to_string demo_crates 5, ''step-1'')"
  using legacy_detection_correct [OF demo_crates_law demo_parse [of 5] demo_step] by simp

end
