(* ===== verification/Effect_Journal.thy ===== *)
theory Effect_Journal
  imports Effects Key_Encoding
begin

text \<open>
  The effect journal (vo-storage/src/effect_journal): effect identities and
  their binary keys, and the in-memory journal with prepare, commit, rollback,
  listing and compaction.  The record map is an association list in iteration
  order.  The \<open>decision_journal\<close> locale is the contract of the \<open>EffectJournal\<close>
  trait on which exactly-once decisions rest.
\<close>

section \<open>Effect identities and keys\<close>

type_synonym EffectId = string

datatype EffectJournalError =
    AlreadyTerminal string string
  | Effect_NotFound string
  | Journal_Storage string
  | Journal_Codec string
  | InvalidArgument

definition EffectId_new :: "InstanceId \<Rightarrow> string \<Rightarrow> EffectJournalError + EffectId" where
  "EffectId_new instance_id intent_id =
     (if intent_id = [] then Inl InvalidArgument else Inr (instance_id @ ''::'' @ intent_id))"

definition EffectId_try_from :: "string \<Rightarrow> EffectJournalError + EffectId" where
  "EffectId_try_from value = (if value = [] then Inl InvalidArgument else Inr value)"

text \<open>\<open>str::split_once("::")\<close>\<close>

fun split_once_colons :: "string \<Rightarrow> (string \<times> string) option" where
  "split_once_colons [] = None"
| "split_once_colons (c # cs) =
     (if take 2 (c # cs) = ''::'' then Some ([], drop 2 (c # cs))
      else map_option (\<lambda>(a, b). (c # a, b)) (split_once_colons cs))"

text \<open>\<open>None\<close> where the source panics (a fallback key over 65535 bytes).\<close>

definition encode_effect_id :: "id_crates \<Rightarrow> EffectId \<Rightarrow> bytes option" where
  "encode_effect_id api effect_id =
     (let fallback = (case encode_length_prefixed (as_bytes effect_id) of
                        Inl _ \<Rightarrow> None | Inr bs \<Rightarrow> Some bs) in
      case split_once_colons effect_id of
        None \<Rightarrow> fallback
      | Some (iid_str, intent_id) \<Rightarrow>
          (case InstanceId_parse api iid_str of
             Inl _ \<Rightarrow> fallback
           | Inr instance_id \<Rightarrow>
               (case encode_instance_id api instance_id of
                  Inl _ \<Rightarrow> fallback
                | Inr iid_bytes \<Rightarrow>
                    Some (iid_bytes @ u16_to_be_bytes (word_of_nat (length (as_bytes intent_id)))
                            @ as_bytes intent_id))))"

text \<open>\<open>key_error_text\<close> is the generated \<open>Display\<close> of \<open>KeyEncodingError\<close>.\<close>

definition decode_effect_id ::
  "id_crates \<Rightarrow> (KeyEncodingError \<Rightarrow> string) \<Rightarrow> bytes \<Rightarrow> EffectJournalError + EffectId" where
  "decode_effect_id api key_error_text bs =
     (if length bs < 18 then
        (let too_short = Inl (Journal_Codec
               (''effect key too short: '' @ show_nat (length bs) @ '' bytes'')) in
         case decode_length_prefixed bs of
           Inl _ \<Rightarrow> too_short
         | Inr (decoded, _) \<Rightarrow>
             and_then (map_err Journal_Codec (from_utf8 decoded))
               (\<lambda>s. if s \<noteq> [] then Inr s else too_short))
      else
        and_then (map_err (\<lambda>e. Journal_Codec (''invalid instance_id in effect key: '' @ key_error_text e))
            (decode_instance_id api (take 16 bs))) (\<lambda>instance_id.
          let intent_len = unat (u16_from_be_bytes (take 2 (drop 16 bs))) in
          if length bs < 18 + intent_len
          then Inl (Journal_Codec (''effect key truncated: expected '' @ show_nat (18 + intent_len)
                 @ '' bytes, got '' @ show_nat (length bs)))
          else and_then (map_err (\<lambda>e. Journal_Codec (''invalid intent_id UTF-8: '' @ e))
                  (from_utf8 (take intent_len (drop 18 bs))))
                (\<lambda>intent_str. map_err (\<lambda>_. Journal_Codec ''empty intent_id in decoded key'')
                  (EffectId_new instance_id intent_str))))"

definition get_effect_key_prefix :: "id_crates \<Rightarrow> InstanceId \<Rightarrow> bytes" where
  "get_effect_key_prefix api instance_id =
     (case encode_instance_id api instance_id of Inl _ \<Rightarrow> [] | Inr bs \<Rightarrow> bs)"

section \<open>The in-memory journal\<close>

type_synonym 'j journal = "(string \<times> 'j EffectRecord) list mutex"

definition journal_new :: "'j journal" where
  "journal_new = mutex_new []"

fun show_intent :: "EffectIntent \<Rightarrow> string" where
  "show_intent Prepared = ''Prepared''"
| "show_intent Committed = ''Committed''"
| "show_intent RolledBack = ''RolledBack''"

definition ensure_not_terminal :: "'j EffectRecord \<Rightarrow> string \<Rightarrow> EffectJournalError + unit" where
  "ensure_not_terminal record key =
     (case er_status record of
        Committed \<Rightarrow> Inl (AlreadyTerminal key (show_intent (er_status record)))
      | RolledBack \<Rightarrow> Inl (AlreadyTerminal key (show_intent (er_status record)))
      | Prepared \<Rightarrow> Inr ())"

text \<open>
  The only callers pass \<open>Committed\<close> or \<open>RolledBack\<close>; the source marks the third
  case unreachable, here an error.  \<open>parse_error_text\<close> is the generated
  \<open>Display\<close> of \<open>ParseError\<close>.
\<close>

definition construct_next_record ::
  "(ParseError \<Rightarrow> string) \<Rightarrow> 'j EffectRecord \<Rightarrow> EffectIntent
     \<Rightarrow> EffectJournalError + 'j EffectRecord" where
  "construct_next_record parse_error_text record target =
     and_then
       (case target of
          Committed \<Rightarrow>
            map_err (\<lambda>e. Journal_Storage (''failed to parse timestamp: '' @ parse_error_text e))
              (and_then (TimestampMs_parse ''100'') (\<lambda>t. Inr (Some t)))
        | RolledBack \<Rightarrow> Inr None
        | Prepared \<Rightarrow> Inl (Journal_Storage ''unreachable''))
       (\<lambda>ts. ok_or (Journal_Storage ''failed to create record'')
          (EffectRecord_new (er_intent_id record) (er_kind record) (er_params_json record) target ts))"

definition validate_and_transition ::
  "(ParseError \<Rightarrow> string) \<Rightarrow> 'j EffectRecord \<Rightarrow> string \<Rightarrow> EffectIntent
     \<Rightarrow> EffectJournalError + 'j EffectRecord" where
  "validate_and_transition pet record key target =
     and_then (ensure_not_terminal record key) (\<lambda>_. construct_next_record pet record target)"

definition journal_prepare ::
  "'j journal \<Rightarrow> InstanceId \<Rightarrow> 'j EffectRecord \<Rightarrow> (EffectJournalError + EffectId) \<times> 'j journal" where
  "journal_prepare j instance_id record =
     (case EffectId_new instance_id (er_intent_id record) of
        Inl e \<Rightarrow> (Inl e, j)
      | Inr effect_id \<Rightarrow>
          with_lock j (Journal_Storage poison_text) (\<lambda>records.
            if map_of records effect_id \<noteq> None then (Inr effect_id, records)
            else (Inr effect_id, AList.update effect_id record records)))"

definition journal_transition ::
  "(ParseError \<Rightarrow> string) \<Rightarrow> EffectIntent \<Rightarrow> 'j journal \<Rightarrow> EffectId
     \<Rightarrow> (EffectJournalError + unit) \<times> 'j journal" where
  "journal_transition pet target j effect_id =
     with_lock j (Journal_Storage poison_text) (\<lambda>records.
       case map_of records effect_id of
         None \<Rightarrow> (Inl (Effect_NotFound effect_id), records)
       | Some record \<Rightarrow>
           (case validate_and_transition pet record effect_id target of
              Inl e \<Rightarrow> (Inl e, records)
            | Inr next_record \<Rightarrow> (Inr (), AList.update effect_id next_record records)))"

definition journal_commit ::
  "(ParseError \<Rightarrow> string) \<Rightarrow> 'j journal \<Rightarrow> EffectId \<Rightarrow> (EffectJournalError + unit) \<times> 'j journal" where
  "journal_commit pet j effect_id = journal_transition pet Committed j effect_id"

definition journal_rollback ::
  "(ParseError \<Rightarrow> string) \<Rightarrow> 'j journal \<Rightarrow> EffectId \<Rightarrow> (EffectJournalError + unit) \<times> 'j journal" where
  "journal_rollback pet j effect_id = journal_transition pet RolledBack j effect_id"

definition starts_with :: "string \<Rightarrow> string \<Rightarrow> bool" where
  "starts_with prefix s = (take (length prefix) s = prefix)"

definition list_pending ::
  "'j journal \<Rightarrow> InstanceId \<Rightarrow> (EffectJournalError + 'j EffectRecord list) \<times> 'j journal" where
  "list_pending j instance_id =
     with_lock j (Journal_Storage poison_text) (\<lambda>records.
       (Inr (map snd (filter (\<lambda>(k, v). starts_with (instance_id @ ''::'') k
                                    \<and> er_status v = Prepared) records)), records))"

definition compactable :: "TimestampMs \<Rightarrow> 'j EffectRecord \<Rightarrow> bool" where
  "compactable older_than v =
     (effect_is_terminal (er_status v)
      \<and> (case er_committed_at v of None \<Rightarrow> False | Some committed_at \<Rightarrow> committed_at < older_than))"

definition compact ::
  "'j journal \<Rightarrow> TimestampMs \<Rightarrow> (EffectJournalError + nat) \<times> 'j journal" where
  "compact j older_than =
     with_lock j (Journal_Storage poison_text) (\<lambda>records.
       let keys_to_remove = map fst (filter (\<lambda>(k, v). compactable older_than v) records) in
       (Inr (length keys_to_remove), fold AList.delete keys_to_remove records))"

section \<open>The contract of a decision journal\<close>

text \<open>A sequence of commit (\<open>True\<close>) and rollback requests, with their answers.\<close>

fun run_decisions ::
  "('st \<Rightarrow> 'id \<Rightarrow> ('err + unit) \<times> 'st) \<Rightarrow> ('st \<Rightarrow> 'id \<Rightarrow> ('err + unit) \<times> 'st)
     \<Rightarrow> 'st \<Rightarrow> (bool \<times> 'id) list \<Rightarrow> (bool \<times> 'id \<times> ('err + unit)) list \<times> 'st" where
  "run_decisions commit rollback st [] = ([], st)"
| "run_decisions commit rollback st ((b, i) # ds) =
     (case (if b then commit st i else rollback st i) of
        (r, st1) \<Rightarrow>
          (case run_decisions commit rollback st1 ds of
             (answers, st2) \<Rightarrow> ((b, i, r) # answers, st2)))"

definition successes :: "'id \<Rightarrow> (bool \<times> 'id \<times> ('err + unit)) list \<Rightarrow> (bool \<times> 'id \<times> ('err + unit)) list"
  where
  "successes i answers = filter (\<lambda>(b, j, r). j = i \<and> is_ok r) answers"

locale decision_journal =
  fixes status :: "'st \<Rightarrow> 'id \<Rightarrow> EffectIntent option"
    and commit :: "'st \<Rightarrow> 'id \<Rightarrow> ('err + unit) \<times> 'st"
    and rollback :: "'st \<Rightarrow> 'id \<Rightarrow> ('err + unit) \<times> 'st"
  assumes commit_ok: "commit st i = (Inr u, st') \<Longrightarrow>
      status st i = Some Prepared \<and> status st' = (status st)(i \<mapsto> Committed)"
    and rollback_ok: "rollback st i = (Inr u, st') \<Longrightarrow>
      status st i = Some Prepared \<and> status st' = (status st)(i \<mapsto> RolledBack)"
    and commit_err: "commit st i = (Inl e, st') \<Longrightarrow> status st' = status st"
    and rollback_err: "rollback st i = (Inl e, st') \<Longrightarrow> status st' = status st"
begin

lemma decide_cases:
  assumes "(if b then commit st i else rollback st i) = (r, st')"
  obtains (refused) e where "r = Inl e" "status st' = status st"
    | (decided) "r = Inr ()" "status st i = Some Prepared"
        "status st' = (status st)(i \<mapsto> (if b then Committed else RolledBack))"
  using assms commit_ok rollback_ok commit_err rollback_err
  by (cases r; cases b) (auto simp del: fun_upd_apply)

lemma settled_stays:
  assumes "run_decisions commit rollback st ds = (answers, st')" and "status st i \<noteq> Some Prepared"
  shows "successes i answers = [] \<and> status st' i = status st i"
  using assms
proof (induction ds arbitrary: st answers)
  case (Cons d ds)
  obtain b k where d: "d = (b, k)" by (cases d)
  obtain r st1 where one: "(if b then commit st k else rollback st k) = (r, st1)"
    by (cases "if b then commit st k else rollback st k")
  obtain answers1 where rest: "run_decisions commit rollback st1 ds = (answers1, st')"
    "answers = (b, k, r) # answers1"
    using Cons.prems(1) one by (auto simp: d split: prod.splits)
  have same: "status st1 i = status st i" and no: "\<not> (k = i \<and> is_ok r)"
    using Cons.prems(2) by (cases rule: decide_cases [OF one]; auto)+
  then show ?case using Cons.IH [OF rest(1)] Cons.prems(2) rest(2) by (auto simp: successes_def)
qed (simp add: successes_def)

lemma decided_once:
  assumes "run_decisions commit rollback st ds = (answers, st')"
  shows "length (successes i answers) \<le> 1
    \<and> (\<forall>b r. successes i answers = [(b, i, r)] \<longrightarrow>
         status st' i = Some (if b then Committed else RolledBack))"
  using assms
proof (induction ds arbitrary: st answers)
  case (Cons d ds)
  obtain b k where d: "d = (b, k)" by (cases d)
  obtain r st1 where one: "(if b then commit st k else rollback st k) = (r, st1)"
    by (cases "if b then commit st k else rollback st k")
  obtain answers1 where rest: "run_decisions commit rollback st1 ds = (answers1, st')"
    "answers = (b, k, r) # answers1"
    using Cons.prems one by (auto simp: d split: prod.splits)
  show ?case
  proof (cases "k = i \<and> is_ok r")
    case True
    then have st1: "status st1 i = Some (if b then Committed else RolledBack)"
      by (cases rule: decide_cases [OF one]) auto
    then have "successes i answers1 = [] \<and> status st' i = status st1 i"
      by (intro settled_stays [OF rest(1)]) simp
    then show ?thesis using True rest(2) st1 by (auto simp: successes_def)
  next
    case False
    then have "successes i answers = successes i answers1" using rest(2) by (auto simp: successes_def)
    then show ?thesis using Cons.IH [OF rest(1)] by simp
  qed
qed (simp add: successes_def)

end

section \<open>The in-memory journal keeps the contract\<close>

definition effect_status :: "'j journal \<Rightarrow> EffectId \<Rightarrow> EffectIntent option" where
  "effect_status j i = map_option er_status (map_of (mx_value j) i)"

lemma TimestampMs_100: "TimestampMs_parse ''100'' = Inr 100"
  by (simp add: TimestampMs_parse_def parse_u64_str_def str_parse_u64_def is_ascii_digit_def
      code_def)

lemma validate_and_transition_Inr:
  assumes "validate_and_transition pet record key target = Inr r"
  shows "er_status record = Prepared \<and> er_status r = target \<and> target \<noteq> Prepared
     \<and> er_intent_id r = er_intent_id record \<and> er_params_json r = er_params_json record
     \<and> er_committed_at r = (if target = Committed then Some 100 else None)"
  using assms
  by (cases target; cases "er_status record")
    (auto simp: validate_and_transition_def ensure_not_terminal_def construct_next_record_def
      EffectRecord_new_def TimestampMs_100 split: if_splits)

lemma journal_transition_ok:
  assumes "journal_transition pet target j i = (Inr u, j')"
  shows "effect_status j i = Some Prepared \<and> effect_status j' = (effect_status j)(i \<mapsto> target)"
proof -
  have up: "\<not> mx_poisoned j" using assms by (auto simp: journal_transition_def with_lock_def)
  from assms up obtain old r where r: "map_of (mx_value j) i = Some old"
    "validate_and_transition pet old i target = Inr r"
    "j' = j\<lparr>mx_value := AList.update i r (mx_value j)\<rparr>"
    by (auto simp: journal_transition_def split: option.splits sum.splits)
  then show ?thesis using validate_and_transition_Inr [OF r(2)]
    by (auto simp: effect_status_def update_conv fun_eq_iff)
qed

lemma journal_transition_err:
  assumes "journal_transition pet target j i = (Inl e, j')"
  shows "j' = j"
  using assms
  by (cases "mx_poisoned j")
    (auto simp: journal_transition_def split: option.splits sum.splits)

interpretation mem_journal:
  decision_journal effect_status "journal_commit pet" "journal_rollback pet" for pet
  by unfold_locales
    (auto simp: journal_commit_def journal_rollback_def dest: journal_transition_ok
      journal_transition_err simp del: fun_upd_apply)

text \<open>
  (C3) An effect is decided at most once.  In any sequence of commit and rollback
  requests to the journal, at most one request on a given effect succeeds, and
  that request's verdict is the effect's status ever after.
\<close>

theorem effect_decided_once:
  assumes "run_decisions (journal_commit pet) (journal_rollback pet) j ds = (answers, j')"
  shows "length (successes i answers) \<le> 1
    \<and> (\<forall>b r. successes i answers = [(b, i, r)] \<longrightarrow>
         effect_status j' i = Some (if b then Committed else RolledBack))"
  by (rule mem_journal.decided_once [OF assms])

definition demo_record :: "nat EffectRecord" where
  "demo_record = \<lparr>er_intent_id = ''pay'', er_kind = HttpCall, er_params_json = 0,
     er_status = Prepared, er_committed_at = None\<rparr>"

theorem effect_decided_once_witness:
  "length (successes ''i::pay'' (fst (run_decisions (journal_commit (\<lambda>_. [])) (journal_rollback (\<lambda>_. []))
     (mutex_new [(''i::pay'', demo_record)]) [(True, ''i::pay''), (False, ''i::pay'')]))) \<le> 1"
proof -
  obtain answers j' where r: "run_decisions (journal_commit (\<lambda>_. [])) (journal_rollback (\<lambda>_. []))
     (mutex_new [(''i::pay'', demo_record)]) [(True, ''i::pay''), (False, ''i::pay'')] = (answers, j')"
    by (cases "run_decisions (journal_commit (\<lambda>_. [])) (journal_rollback (\<lambda>_. []))
     (mutex_new [(''i::pay'', demo_record)]) [(True, ''i::pay''), (False, ''i::pay'')]")
  show ?thesis unfolding r using effect_decided_once [OF r, of "''i::pay''"] by simp
qed

section \<open>Effects as a bounded protocol\<close>

interpretation effect_machine:
  bounded_machine apply_effect_transition effect_is_terminal
    "\<lambda>s. if s = Prepared then 1 else 0"
proof unfold_locales
  show "effect_is_terminal s \<Longrightarrow> \<exists>err. apply_effect_transition s e = Inl err" for s e
    by (cases s; cases e) auto
  show "apply_effect_transition s e = Inr t \<Longrightarrow>
      (if t = Prepared then 1 else 0 :: nat) < (if s = Prepared then 1 else 0)" for s e t
    by (cases s; cases e) auto
qed

definition decision_event :: "bool \<Rightarrow> EffectTransitionEvent" where
  "decision_event b = (if b then Commit else Rollback)"

text \<open>
  (C14) The journal implements the effect state machine: on an open journal whose
  record has a non-empty intent, commit and rollback succeed exactly when the
  abstract transition does, with the abstract successor as the new status, and
  otherwise leave the journal unchanged; an unknown effect is refused as not
  found.
\<close>

theorem journal_refines_effect_machine:
  assumes "\<not> mx_poisoned j" and "\<forall>r \<in> ran (map_of (mx_value j)). er_intent_id r \<noteq> []"
  shows "(case (if b then journal_commit pet j i else journal_rollback pet j i) of
            (Inr _, j') \<Rightarrow>
              (\<exists>s t. effect_status j i = Some s \<and> apply_effect_transition s (decision_event b) = Inr t
                   \<and> effect_status j' = (effect_status j)(i \<mapsto> t))
          | (Inl e, j') \<Rightarrow> j' = j \<and>
              (case effect_status j i of
                 None \<Rightarrow> e = Effect_NotFound i
               | Some s \<Rightarrow> \<not> is_ok (apply_effect_transition s (decision_event b))
                          \<and> e = AlreadyTerminal i (show_intent s)))"
proof -
  let ?target = "if b then Committed else RolledBack"
  have eq: "(if b then journal_commit pet j i else journal_rollback pet j i)
      = journal_transition pet ?target j i"
    by (simp add: journal_commit_def journal_rollback_def)
  show ?thesis
  proof (cases "map_of (mx_value j) i")
    case None
    then show ?thesis unfolding eq using assms(1)
      by (simp add: journal_transition_def effect_status_def)
  next
    case (Some r)
    then have ne: "er_intent_id r \<noteq> []" using assms(2) by (auto simp: ran_def)
    show ?thesis
    proof (cases "er_status r")
      case Prepared
      then have "\<exists>n. validate_and_transition pet r i ?target = Inr n"
        using ne by (simp add: validate_and_transition_def ensure_not_terminal_def
            construct_next_record_def EffectRecord_new_def TimestampMs_100)
      then obtain n where "validate_and_transition pet r i ?target = Inr n" by blast
      then have run: "journal_transition pet ?target j i
          = (Inr (), j\<lparr>mx_value := AList.update i n (mx_value j)\<rparr>)"
        using assms(1) Some by (simp add: journal_transition_def)
      show ?thesis unfolding eq run using journal_transition_ok [OF run] Prepared
        by (auto simp: decision_event_def simp del: fun_upd_apply)
    next
      case Committed
      then show ?thesis unfolding eq using assms(1) Some
        by (simp add: journal_transition_def effect_status_def validate_and_transition_def
            ensure_not_terminal_def)
    next
      case RolledBack
      then show ?thesis unfolding eq using assms(1) Some
        by (simp add: journal_transition_def effect_status_def validate_and_transition_def
            ensure_not_terminal_def)
    qed
  qed
qed

theorem journal_refines_effect_machine_witness:
  "\<not> is_ok (apply_effect_transition RolledBack Commit)
   \<and> (case journal_commit (\<lambda>_. []) (mutex_new [(''x'', demo_record\<lparr>er_status := RolledBack\<rparr>)]) ''x'' of
        (Inr _, j') \<Rightarrow> False | (Inl e, j') \<Rightarrow> e = AlreadyTerminal ''x'' ''RolledBack'')"
proof -
  let ?j = "mutex_new [(''x'', demo_record\<lparr>er_status := RolledBack\<rparr>)]"
  have "\<not> mx_poisoned ?j" "\<forall>r \<in> ran (map_of (mx_value ?j)). er_intent_id r \<noteq> []"
    by (auto simp: ran_def demo_record_def)
  from journal_refines_effect_machine [OF this, where b = True and pet = "\<lambda>_. []" and i = "''x''"]
  show ?thesis
    by (auto simp: effect_status_def demo_record_def decision_event_def split: prod.splits sum.splits)
qed

section \<open>Compaction\<close>

definition distinct_keys :: "'j journal \<Rightarrow> bool" where
  "distinct_keys j = distinct (map fst (mx_value j))"

lemma distinct_keys_new: "distinct_keys journal_new"
  by (simp add: distinct_keys_def journal_new_def)

lemma distinct_keys_prepare: "distinct_keys j \<Longrightarrow> distinct_keys (snd (journal_prepare j iid r))"
  by (auto simp: distinct_keys_def journal_prepare_def with_lock_snd_value distinct_update
      split: sum.splits)

lemma distinct_keys_transition:
  "distinct_keys j \<Longrightarrow> distinct_keys (snd (journal_transition pet t j i))"
  by (auto simp: distinct_keys_def journal_transition_def with_lock_snd_value distinct_update
      split: sum.splits option.splits)

lemma distinct_keys_compact: "distinct_keys j \<Longrightarrow> distinct_keys (snd (compact j t))"
  by (auto simp: distinct_keys_def compact_def with_lock_snd_value Let_def distinct_fold_delete)

lemma compact_lookup:
  assumes "\<not> mx_poisoned j" and "distinct_keys j"
  shows "map_of (mx_value (snd (compact j t))) k =
     (case map_of (mx_value j) k of
        None \<Rightarrow> None
      | Some v \<Rightarrow> if compactable t v then None else Some v)"
  using assms by (simp add: compact_def Let_def distinct_keys_def map_of_fold_delete_filter)

text \<open>
  Compaction is exact and loses no undecided effect: with distinct keys it
  drops precisely the decided records whose commit time is before the bound, so
  a prepared effect always survives, and so does every effect rolled back
  through the journal, whatever the bound (a rollback records no time).
\<close>

theorem compaction_exact:
  assumes "\<not> mx_poisoned j" and "distinct_keys j"
  shows "map_of (mx_value (snd (compact j t))) k =
       (case map_of (mx_value j) k of
          None \<Rightarrow> None | Some v \<Rightarrow> if compactable t v then None else Some v)
     \<and> (effect_status j k = Some Prepared \<longrightarrow> effect_status (snd (compact j t)) k = Some Prepared)
     \<and> (\<forall>j0 i. journal_rollback pet j0 i = (Inr (), j) \<longrightarrow>
          effect_status (snd (compact j t)) i = Some RolledBack)"
proof -
  have "effect_status (snd (compact j t)) i = Some RolledBack"
    if rb: "journal_rollback pet j0 i = (Inr (), j)" for j0 i
  proof -
    have "\<not> mx_poisoned j0" using rb by (auto simp: journal_rollback_def journal_transition_def with_lock_def)
    then obtain old r where r: "validate_and_transition pet old i RolledBack = Inr r"
      "j = j0\<lparr>mx_value := AList.update i r (mx_value j0)\<rparr>"
      using rb by (auto simp: journal_rollback_def journal_transition_def
          split: option.splits sum.splits)
    then have "map_of (mx_value j) i = Some r" by (simp add: update_conv)
    moreover have "\<not> compactable t r" "er_status r = RolledBack"
      using validate_and_transition_Inr [OF r(1)] by (simp_all add: compactable_def)
    ultimately show ?thesis using compact_lookup [OF assms, of t i] by (simp add: effect_status_def)
  qed
  moreover have "effect_status (snd (compact j t)) k = Some Prepared"
    if "effect_status j k = Some Prepared"
    using that compact_lookup [OF assms, of t k]
    by (auto simp: effect_status_def compactable_def)
  ultimately show ?thesis using compact_lookup [OF assms, of t k] by blast
qed

theorem compaction_exact_witness:
  "effect_status (snd (compact (mutex_new [(''x'', demo_record)]) 1000)) ''x'' = Some Prepared"
proof -
  have "\<not> mx_poisoned (mutex_new [(''x'', demo_record)])" "distinct_keys (mutex_new [(''x'', demo_record)])"
    by (simp_all add: distinct_keys_def)
  note ok = compaction_exact [OF this, where t = 1000 and k = "''x''" and pet = "\<lambda>_. []"]
  have "effect_status (mutex_new [(''x'', demo_record)]) ''x'' = Some Prepared"
    by (simp add: effect_status_def demo_record_def)
  with ok show ?thesis by blast
qed

end
