(* ===== verification/Lease_Store.thy ===== *)
theory Lease_Store
  imports Key_Encoding Machines
begin

text \<open>
  Execution leases with fencing (vo-storage/src/lease_partition, the in-memory
  store) and the pure lease calculator (vo-core/src/lease_calc).  The
  \<open>fenced_leases\<close> locale is the contract of the \<open>LeaseStore\<close> trait; mutual
  exclusion and the monotonicity of fence tokens are proved in it once.  The
  clock is an argument: the milliseconds since the epoch, \<open>None\<close> before it.
\<close>

section \<open>Entries and errors\<close>

datatype LeaseStoreError =
    LeaseAlreadyHeld string string
  | Lease_NotFound string string
  | StaleFence string string
  | Lease_FenceTokenExhausted string string
  | Lease_Storage string
  | Lease_Codec string
  | Lease_InvalidArgument

record LeaseEntry =
  le_instance_id :: string
  le_step_id :: string
  le_fence_token :: u64
  le_expires_at :: u64

record LeaseRecord =
  lr_instance_id :: InstanceId
  lr_step_id :: StepId
  lr_token :: FenceToken

definition LeaseEntry_new ::
  "string \<Rightarrow> string \<Rightarrow> u64 \<Rightarrow> u64 \<Rightarrow> LeaseStoreError + LeaseEntry" where
  "LeaseEntry_new instance_id step_id fence_token expires_at =
     (if instance_id = [] \<or> step_id = [] then Inl Lease_InvalidArgument
      else if fence_token = 0 then Inl Lease_InvalidArgument
      else Inr \<lparr>le_instance_id = instance_id, le_step_id = step_id,
                le_fence_token = fence_token, le_expires_at = expires_at\<rparr>)"

definition lease_is_expired :: "LeaseEntry \<Rightarrow> u64 \<Rightarrow> bool" where
  "lease_is_expired entry now_ms = (le_expires_at entry \<le> now_ms)"

text \<open>\<open>parse_error_text\<close> is the generated \<open>Display\<close> of \<open>ParseError\<close>.\<close>

definition to_lease_record ::
  "id_crates \<Rightarrow> (ParseError \<Rightarrow> string) \<Rightarrow> LeaseEntry \<Rightarrow> LeaseStoreError + LeaseRecord" where
  "to_lease_record api parse_error_text entry =
     and_then (map_err (\<lambda>_. Lease_Codec ''invalid fence token value'')
         (FenceToken_new (le_fence_token entry))) (\<lambda>token.
       and_then (map_err (\<lambda>e. Lease_Codec (''invalid instance_id: '' @ parse_error_text e))
           (InstanceId_parse api (le_instance_id entry))) (\<lambda>iid.
         and_then (map_err (\<lambda>e. Lease_Codec (''invalid step_id: '' @ parse_error_text e))
             (StepId_parse (le_step_id entry))) (\<lambda>sid.
           Inr \<lparr>lr_instance_id = iid, lr_step_id = sid, lr_token = token\<rparr>)))"

section \<open>The in-memory store\<close>

record lease_store =
  ls_leases :: "(string \<rightharpoonup> LeaseEntry) mutex"
  ls_fences :: "(string \<rightharpoonup> u64) mutex"

definition lease_store_new :: lease_store where
  "lease_store_new = \<lparr>ls_leases = mutex_new Map.empty, ls_fences = mutex_new Map.empty\<rparr>"

definition lease_key :: "InstanceId \<Rightarrow> StepId \<Rightarrow> string" where
  "lease_key instance_id step_id = instance_id @ ''::'' @ step_id"

definition fence_key :: "InstanceId \<Rightarrow> StepId \<Rightarrow> string" where
  "fence_key instance_id step_id = instance_id @ ''::'' @ step_id @ ''::fence''"

definition lease_now_ms :: "nat option \<Rightarrow> LeaseStoreError + u64" where
  "lease_now_ms clock =
     (case clock of
        None \<Rightarrow> Inl (Lease_Storage (''system time before UNIX epoch: '' @
                      ''second time provided was later than self''))
      | Some millis \<Rightarrow> Inr (word_of_nat millis))"

definition lease_acquire ::
  "id_crates \<Rightarrow> (ParseError \<Rightarrow> string) \<Rightarrow> nat option \<Rightarrow> lease_store \<Rightarrow> InstanceId \<Rightarrow> StepId \<Rightarrow> u64
     \<Rightarrow> (LeaseStoreError + LeaseRecord) \<times> lease_store" where
  "lease_acquire api pet clock st instance_id step_id ttl_ms =
     (if ttl_ms = 0 then (Inl Lease_InvalidArgument, st)
      else case lease_now_ms clock of
        Inl e \<Rightarrow> (Inl e, st)
      | Inr now_ms \<Rightarrow>
          let expires_at = saturating_add now_ms ttl_ms;
              key = lease_key instance_id step_id in
          if mx_poisoned (ls_leases st) then (Inl (Lease_Storage poison_text), st)
          else if mx_poisoned (ls_fences st) then (Inl (Lease_Storage poison_text), st)
          else
            let leases = mx_value (ls_leases st); fences = mx_value (ls_fences st) in
            if (case leases key of Some entry \<Rightarrow> \<not> lease_is_expired entry now_ms | None \<Rightarrow> False)
            then (Inl (LeaseAlreadyHeld instance_id step_id), st)
            else
              let fkey = fence_key instance_id step_id;
                  current_token = (case fences fkey of Some t \<Rightarrow> t | None \<Rightarrow> 0) in
              case checked_add current_token 1 of
                None \<Rightarrow> (Inl (Lease_FenceTokenExhausted instance_id step_id), st)
              | Some next_token \<Rightarrow>
                  let st1 = st\<lparr>ls_fences := (ls_fences st)\<lparr>mx_value := fences(fkey \<mapsto> next_token)\<rparr>\<rparr> in
                  case LeaseEntry_new instance_id step_id next_token expires_at of
                    Inl e \<Rightarrow> (Inl e, st1)
                  | Inr entry \<Rightarrow>
                      (to_lease_record api pet entry,
                       st1\<lparr>ls_leases := (ls_leases st)\<lparr>mx_value := leases(key \<mapsto> entry)\<rparr>\<rparr>))"

definition lease_release :: "lease_store \<Rightarrow> LeaseRecord \<Rightarrow> (LeaseStoreError + unit) \<times> lease_store" where
  "lease_release st lease =
     (if mx_poisoned (ls_leases st) then (Inl (Lease_Storage poison_text), st)
      else
        let leases = mx_value (ls_leases st);
            key = lease_key (lr_instance_id lease) (lr_step_id lease) in
        case leases key of
          None \<Rightarrow> (Inl (Lease_NotFound (lr_instance_id lease) (lr_step_id lease)), st)
        | Some entry \<Rightarrow>
            if le_fence_token entry \<noteq> lr_token lease
            then (Inl (StaleFence (show_u64 (le_fence_token entry)) (show_u64 (lr_token lease))), st)
            else (Inr (), st\<lparr>ls_leases := (ls_leases st)\<lparr>mx_value := leases(key := None)\<rparr>\<rparr>))"

definition check_stale_fence ::
  "nat option \<Rightarrow> lease_store \<Rightarrow> InstanceId \<Rightarrow> StepId \<Rightarrow> FenceToken \<Rightarrow> LeaseStoreError + bool" where
  "check_stale_fence clock st instance_id step_id token =
     and_then (lease_now_ms clock) (\<lambda>now_ms.
       if mx_poisoned (ls_leases st) then Inl (Lease_Storage poison_text)
       else case mx_value (ls_leases st) (lease_key instance_id step_id) of
              Some entry \<Rightarrow>
                if lease_is_expired entry now_ms then Inr True
                else Inr (le_fence_token entry \<noteq> token)
            | None \<Rightarrow> Inr False)"

section \<open>The lease calculator\<close>

datatype LeaseError =
    AlreadyHeld NodeName | RenewalWrongNode | Lease_InvalidTransition | ZeroTtl
  | Calc_FenceTokenExhausted

datatype LeaseState = Vacant | Held NodeName u64 | Expired NodeName

datatype LeaseTransition =
    Acquire NodeName u64 u64 | Renew NodeName u64 u64 | Tick u64 | Release NodeName

definition calc_is_expired :: "u64 \<Rightarrow> u64 \<Rightarrow> bool" where
  "calc_is_expired expires_at_ms now_ms = (expires_at_ms \<le> now_ms)"

definition calc_expires :: "u64 \<Rightarrow> u64 \<Rightarrow> LeaseError + u64" where
  "calc_expires now_ms ttl_ms =
     (if ttl_ms = 0 then Inl ZeroTtl
      else ok_or Calc_FenceTokenExhausted (checked_add now_ms ttl_ms))"

fun lease_apply :: "LeaseState \<Rightarrow> LeaseTransition \<Rightarrow> LeaseError + LeaseState" where
  "lease_apply Vacant (Acquire requester ttl_ms now_ms) =
     and_then (calc_expires now_ms ttl_ms) (\<lambda>expires_at. Inr (Held requester expires_at))"
| "lease_apply Vacant _ = Inl Lease_InvalidTransition"
| "lease_apply (Held holder expires_at_ms) (Acquire requester ttl_ms now_ms) =
     (if calc_is_expired expires_at_ms now_ms
      then and_then (calc_expires now_ms 0) (\<lambda>_. Inl Lease_InvalidTransition)
      else if holder = requester then Inl (AlreadyHeld requester)
      else Inl (AlreadyHeld holder))"
| "lease_apply (Held holder expires_at_ms) (Renew requester ttl_ms now_ms) =
     (if holder \<noteq> requester then Inl RenewalWrongNode
      else if calc_is_expired expires_at_ms now_ms then Inl Lease_InvalidTransition
      else and_then (calc_expires now_ms ttl_ms) (\<lambda>new_expires. Inr (Held requester new_expires)))"
| "lease_apply (Held holder expires_at_ms) (Tick now_ms) =
     (if calc_is_expired expires_at_ms now_ms then Inr (Expired holder)
      else Inr (Held holder expires_at_ms))"
| "lease_apply (Held holder expires_at_ms) (Release requester) =
     (if holder \<noteq> requester then Inl RenewalWrongNode else Inr Vacant)"
| "lease_apply (Expired last_holder) (Acquire requester ttl_ms now_ms) =
     and_then (calc_expires now_ms ttl_ms) (\<lambda>expires_at. Inr (Held requester expires_at))"
| "lease_apply (Expired last_holder) (Renew requester ttl_ms now_ms) = Inl Lease_InvalidTransition"
| "lease_apply (Expired last_holder) (Tick now_ms) = Inr (Expired last_holder)"
| "lease_apply (Expired last_holder) (Release requester) = Inl Lease_InvalidTransition"

section \<open>The contract of a fenced lease store\<close>

datatype ('c, 'a) lease_op = Do_Acquire 'c 'a u64 | Do_Release 'a u64

text \<open>What a request led to: a grant with its time, lifetime and token, a release, a refusal.\<close>

datatype 'a lease_event = Granted u64 'a u64 u64 | Freed 'a u64 | Refused

fun lease_step ::
  "('c \<Rightarrow> 'st \<Rightarrow> 'a \<Rightarrow> u64 \<Rightarrow> ('err + u64) \<times> 'st) \<Rightarrow> ('st \<Rightarrow> 'a \<Rightarrow> u64 \<Rightarrow> ('err + unit) \<times> 'st)
     \<Rightarrow> ('c \<Rightarrow> u64) \<Rightarrow> 'st \<Rightarrow> ('c, 'a) lease_op \<Rightarrow> 'a lease_event \<times> 'st" where
  "lease_step acq rel time st (Do_Acquire c a ttl) =
     (case acq c st a ttl of (Inr tok, st') \<Rightarrow> (Granted (time c) a ttl tok, st') | (Inl _, st') \<Rightarrow> (Refused, st'))"
| "lease_step acq rel time st (Do_Release a tok) =
     (case rel st a tok of (Inr _, st') \<Rightarrow> (Freed a tok, st') | (Inl _, st') \<Rightarrow> (Refused, st'))"

fun concerns :: "('a \<Rightarrow> 'k) \<Rightarrow> 'k \<Rightarrow> 'a lease_event \<Rightarrow> bool" where
  "concerns key k (Granted n a ttl tok) = (key a = k)"
| "concerns key k (Freed a tok) = (key a = k)"
| "concerns key k Refused = False"

fun granted_tokens :: "('a \<Rightarrow> 'k) \<Rightarrow> 'k \<Rightarrow> 'a lease_event list \<Rightarrow> u64 list" where
  "granted_tokens key k [] = []"
| "granted_tokens key k (Granted n a ttl tok # evs) =
     (if key a = k then tok # granted_tokens key k evs else granted_tokens key k evs)"
| "granted_tokens key k (Freed a tok # evs) = granted_tokens key k evs"
| "granted_tokens key k (Refused # evs) = granted_tokens key k evs"

fun op_arg :: "('c, 'a) lease_op \<Rightarrow> 'a" where
  "op_arg (Do_Acquire c a ttl) = a"
| "op_arg (Do_Release a tok) = a"

locale fenced_leases =
  fixes acq :: "'c \<Rightarrow> 'st \<Rightarrow> 'a \<Rightarrow> u64 \<Rightarrow> ('err + u64) \<times> 'st"
    and rel :: "'st \<Rightarrow> 'a \<Rightarrow> u64 \<Rightarrow> ('err + unit) \<times> 'st"
    and time :: "'c \<Rightarrow> u64"
    and key :: "'a \<Rightarrow> 'k"
    and view :: "'st \<Rightarrow> 'k \<Rightarrow> (u64 \<times> u64) option"
    and fence :: "'st \<Rightarrow> 'k \<Rightarrow> nat"
    and valid :: "'a \<Rightarrow> bool"
  assumes acquire_ok: "valid a \<Longrightarrow> acq c st a ttl = (Inr tok, st') \<Longrightarrow>
        (\<forall>t e. view st (key a) = Some (t, e) \<longrightarrow> e \<le> time c)
      \<and> unat tok = fence st (key a) + 1
      \<and> view st' = (view st)(key a \<mapsto> (tok, saturating_add (time c) ttl))
      \<and> fence st' = (fence st)(key a := unat tok)"
    and acquire_err: "valid a \<Longrightarrow> acq c st a ttl = (Inl e, st') \<Longrightarrow>
        view st' = view st \<and> fence st' = fence st"
    and release_ok: "rel st a tok = (Inr u, st') \<Longrightarrow>
        view st' = (view st)(key a := None) \<and> fence st' = fence st"
    and release_err: "rel st a tok = (Inl e, st') \<Longrightarrow> view st' = view st \<and> fence st' = fence st"
begin

abbreviation run where "run \<equiv> run_trace (lease_step acq rel time)"

lemma step_effect:
  assumes "lease_step acq rel time st op = (ev, st')" and "valid (op_arg op)"
  shows "(\<not> concerns key k ev \<longrightarrow> view st' k = view st k \<and> fence st' k = fence st k)
    \<and> fence st k \<le> fence st' k
    \<and> (\<forall>n a ttl tok. ev = Granted n a ttl tok \<longrightarrow> key a = k \<longrightarrow>
         (\<forall>t e. view st k = Some (t, e) \<longrightarrow> e \<le> n) \<and> fence st k < unat tok
         \<and> fence st' k = unat tok \<and> view st' k = Some (tok, saturating_add n ttl))"
proof (cases op)
  case (Do_Acquire c a ttl)
  obtain r st1 where "acq c st a ttl = (r, st1)" by (cases "acq c st a ttl")
  then show ?thesis
    using assms acquire_ok [of a c st ttl _ st1] acquire_err [of a c st ttl _ st1] Do_Acquire
    by (cases r) auto
next
  case (Do_Release a tok)
  obtain r st1 where "rel st a tok = (r, st1)" by (cases "rel st a tok")
  then show ?thesis
    using assms release_ok [of st a tok _ st1] release_err [of st a tok _ st1] Do_Release
    by (cases r) auto
qed

lemma granted_tokens_Cons:
  "granted_tokens key k (ev # evs) =
     (case ev of Granted n a ttl tok \<Rightarrow> if key a = k then tok # granted_tokens key k evs
        else granted_tokens key k evs | _ \<Rightarrow> granted_tokens key k evs)"
  by (cases ev) auto

lemma tokens_increase:
  assumes "run st ops = (evs, st')" and "\<forall>op \<in> set ops. valid (op_arg op)"
  shows "sorted_wrt (<) (granted_tokens key k evs)
    \<and> (\<forall>tok \<in> set (granted_tokens key k evs). fence st k < unat tok \<and> unat tok \<le> fence st' k)
    \<and> fence st k \<le> fence st' k"
  using assms
proof (induction ops arbitrary: st evs)
  case (Cons op ops)
  from Cons.prems(1) obtain ev st1 evs1 where s: "lease_step acq rel time st op = (ev, st1)"
    "run st1 ops = (evs1, st')" "evs = ev # evs1" by (rule run_trace_cons)
  note IH = Cons.IH [OF s(2)]
  have eff: "(\<not> concerns key k ev \<longrightarrow> view st1 k = view st k \<and> fence st1 k = fence st k)
    \<and> fence st k \<le> fence st1 k
    \<and> (\<forall>n a ttl tok. ev = Granted n a ttl tok \<longrightarrow> key a = k \<longrightarrow>
         (\<forall>t e. view st k = Some (t, e) \<longrightarrow> e \<le> n) \<and> fence st k < unat tok
         \<and> fence st1 k = unat tok \<and> view st1 k = Some (tok, saturating_add n ttl))"
    using Cons.prems(2) by (intro step_effect [OF s(1)]) simp
  show ?case
  proof (cases "\<exists>n a ttl tok. ev = Granted n a ttl tok \<and> key a = k")
    case True
    then obtain n a ttl tok where ev: "ev = Granted n a ttl tok" "key a = k" by blast
    then have "fence st k < unat tok" "fence st1 k = unat tok" using eff by blast+
    then show ?thesis using IH Cons.prems(2) ev s(3) by (auto simp: word_less_nat_alt)
  next
    case False
    then have "granted_tokens key k evs = granted_tokens key k evs1"
      using s(3) by (auto simp: granted_tokens_Cons split: lease_event.splits)
    then show ?thesis using IH Cons.prems(2) eff by (auto intro: le_less_trans)
  qed
qed simp

lemma view_stays:
  assumes "run st ops = (evs, st')" and "\<forall>op \<in> set ops. valid (op_arg op)"
    and "\<not> list_ex (concerns key k) evs"
  shows "view st' k = view st k"
  using assms
proof (induction ops arbitrary: st evs)
  case (Cons op ops)
  from Cons.prems(1) obtain ev st1 evs1 where s: "lease_step acq rel time st op = (ev, st1)"
    "run st1 ops = (evs1, st')" "evs = ev # evs1" by (rule run_trace_cons)
  have "view st1 k = view st k"
    using step_effect [OF s(1), of k] Cons.prems(2,3) s(3) by auto
  moreover have "view st' k = view st1 k" using Cons.IH [OF s(2)] Cons.prems(2,3) s(3) by auto
  ultimately show ?case by simp
qed simp

lemma mutual_exclusion:
  assumes "run st ops = (xs @ Granted n1 a ttl1 tok1 # ys @ Granted n2 b ttl2 tok2 # zs, st')"
    and "\<forall>op \<in> set ops. valid (op_arg op)"
    and "key a = k" and "key b = k" and "\<not> list_ex (concerns key k) ys"
  shows "saturating_add n1 ttl1 \<le> n2"
proof -
  obtain ops1 ops2 st1 where o: "ops = ops1 @ ops2"
    "run st1 ops2 = (Granted n1 a ttl1 tok1 # ys @ Granted n2 b ttl2 tok2 # zs, st')"
    using run_trace_split [OF assms(1)] by blast
  then obtain opa ops3 where o2: "ops2 = opa # ops3" by (cases ops2) auto
  from o(2) [unfolded o2] obtain sta where sa: "lease_step acq rel time st1 opa = (Granted n1 a ttl1 tok1, sta)"
    "run sta ops3 = (ys @ Granted n2 b ttl2 tok2 # zs, st')"
    by (auto split: prod.splits)
  have va: "view sta k = Some (tok1, saturating_add n1 ttl1)"
    using step_effect [OF sa(1), of k] assms(2,3) o(1) o2 by auto
  obtain ops4 ops5 stb where o3: "ops3 = ops4 @ ops5" "run sta ops4 = (ys, stb)"
    "run stb ops5 = (Granted n2 b ttl2 tok2 # zs, st')"
    using run_trace_split [OF sa(2)] by blast
  then obtain opb ops6 where o5: "ops5 = opb # ops6" by (cases ops5) auto
  from o3(3) [unfolded o5] obtain stc where sb: "lease_step acq rel time stb opb = (Granted n2 b ttl2 tok2, stc)"
    by (auto split: prod.splits)
  have "view stb k = view sta k"
    using assms(2,5) o(1) o2 o3(1) by (intro view_stays [OF o3(2)]) auto
  then show ?thesis
    using step_effect [OF sb, of k] va assms(2,4) o(1) o2 o3(1) o5 by auto
qed

end

section \<open>The in-memory store keeps the contract\<close>

definition acquire_token ::
  "id_crates \<Rightarrow> (ParseError \<Rightarrow> string) \<Rightarrow> nat option \<Rightarrow> lease_store \<Rightarrow> InstanceId \<times> StepId \<Rightarrow> u64
     \<Rightarrow> (LeaseStoreError + u64) \<times> lease_store" where
  "acquire_token api pet clock st who ttl =
     (case lease_acquire api pet clock st (fst who) (snd who) ttl of
        (Inr r, st') \<Rightarrow> (Inr (lr_token r), st')
      | (Inl e, st') \<Rightarrow> (Inl e, st'))"

definition release_token ::
  "lease_store \<Rightarrow> InstanceId \<times> StepId \<Rightarrow> u64 \<Rightarrow> (LeaseStoreError + unit) \<times> lease_store" where
  "release_token st who tok =
     lease_release st \<lparr>lr_instance_id = fst who, lr_step_id = snd who, lr_token = tok\<rparr>"

definition clock_ms :: "nat option \<Rightarrow> u64" where
  "clock_ms clock = (case clock of None \<Rightarrow> 0 | Some d \<Rightarrow> word_of_nat d)"

definition pair_key :: "InstanceId \<times> StepId \<Rightarrow> string" where
  "pair_key who = lease_key (fst who) (snd who)"

definition lease_view :: "lease_store \<Rightarrow> string \<Rightarrow> (u64 \<times> u64) option" where
  "lease_view st k =
     map_option (\<lambda>e. (le_fence_token e, le_expires_at e)) (mx_value (ls_leases st) k)"

definition last_fence :: "lease_store \<Rightarrow> string \<Rightarrow> nat" where
  "last_fence st k =
     unat (case mx_value (ls_fences st) (k @ ''::fence'') of Some t \<Rightarrow> t | None \<Rightarrow> 0)"

definition valid_pair :: "id_crates \<Rightarrow> InstanceId \<times> StepId \<Rightarrow> bool" where
  "valid_pair api who \<longleftrightarrow>
     InstanceId_parse api (fst who) = Inr (fst who) \<and> StepId_parse (snd who) = Inr (snd who)"

lemma fence_key_of_lease_key: "fence_key iid sid = lease_key iid sid @ ''::fence''"
  by (simp add: fence_key_def lease_key_def)

lemma valid_pair_nonempty: "valid_pair api (iid, sid) \<Longrightarrow> iid \<noteq> [] \<and> sid \<noteq> []"
  by (auto simp: valid_pair_def InstanceId_parse_def StepId_parse_Inr)

lemma checked_add_one_nonzero: "checked_add t 1 = Some u \<Longrightarrow> u \<noteq> 0"
  for t u :: u64
  using checked_add_unat [of t 1 u] by auto

lemma to_lease_record_valid:
  assumes "valid_pair api (iid, sid)" and "tok \<noteq> 0"
  shows "to_lease_record api pet \<lparr>le_instance_id = iid, le_step_id = sid,
       le_fence_token = tok, le_expires_at = ex\<rparr>
     = Inr \<lparr>lr_instance_id = iid, lr_step_id = sid, lr_token = tok\<rparr>"
  using assms by (simp add: to_lease_record_def valid_pair_def FenceToken_new_def require_nonzero_def)

lemma lease_acquire_valid:
  assumes "valid_pair api (iid, sid)"
  shows "lease_acquire api pet clock st iid sid ttl =
    (if ttl = 0 then (Inl Lease_InvalidArgument, st)
     else case lease_now_ms clock of
       Inl e \<Rightarrow> (Inl e, st)
     | Inr now \<Rightarrow>
       if mx_poisoned (ls_leases st) \<or> mx_poisoned (ls_fences st) then (Inl (Lease_Storage poison_text), st)
       else if \<exists>t e. lease_view st (lease_key iid sid) = Some (t, e) \<and> now < e
       then (Inl (LeaseAlreadyHeld iid sid), st)
       else case checked_add (word_of_nat (last_fence st (lease_key iid sid))) 1 of
         None \<Rightarrow> (Inl (Lease_FenceTokenExhausted iid sid), st)
       | Some tok \<Rightarrow>
         (Inr \<lparr>lr_instance_id = iid, lr_step_id = sid, lr_token = tok\<rparr>,
          st\<lparr>ls_fences := (ls_fences st)\<lparr>mx_value := (mx_value (ls_fences st))(fence_key iid sid \<mapsto> tok)\<rparr>,
             ls_leases := (ls_leases st)\<lparr>mx_value := (mx_value (ls_leases st))(lease_key iid sid \<mapsto>
               \<lparr>le_instance_id = iid, le_step_id = sid, le_fence_token = tok,
                le_expires_at = saturating_add now ttl\<rparr>)\<rparr>\<rparr>))"
proof -
  have cur: "(case mx_value (ls_fences st) (fence_key iid sid) of Some t \<Rightarrow> t | None \<Rightarrow> 0)
      = word_of_nat (last_fence st (lease_key iid sid))"
    by (simp add: last_fence_def fence_key_of_lease_key split: option.splits)
  have held: "(case mx_value (ls_leases st) (lease_key iid sid) of
      Some entry \<Rightarrow> \<not> lease_is_expired entry now | None \<Rightarrow> False)
      \<longleftrightarrow> (\<exists>t e. lease_view st (lease_key iid sid) = Some (t, e) \<and> now < e)" for now
    by (auto simp: lease_view_def lease_is_expired_def split: option.splits)
  show ?thesis
    unfolding lease_acquire_def cur held Let_def
    using valid_pair_nonempty [OF assms]
    by (auto simp: LeaseEntry_new_def checked_add_one_nonzero to_lease_record_valid [OF assms]
        split: sum.splits option.splits)
qed

lemma acquire_token_ok:
  assumes "valid_pair api who" and "acquire_token api pet clock st who ttl = (Inr tok, st')"
  shows "(\<forall>t e. lease_view st (pair_key who) = Some (t, e) \<longrightarrow> e \<le> clock_ms clock)
      \<and> unat tok = last_fence st (pair_key who) + 1
      \<and> lease_view st' = (lease_view st)(pair_key who \<mapsto> (tok, saturating_add (clock_ms clock) ttl))
      \<and> last_fence st' = (last_fence st)(pair_key who := unat tok)"
proof -
  obtain iid sid where who: "who = (iid, sid)" by (cases who)
  have small: "last_fence st k < 2 ^ 64" for k
    using unat_less_2p [where 'a = 64] by (simp add: last_fence_def)
  from assms who obtain now where now: "lease_now_ms clock = Inr now"
    and free: "\<not> (\<exists>t e. lease_view st (lease_key iid sid) = Some (t, e) \<and> now < e)"
    and nxt: "checked_add (word_of_nat (last_fence st (lease_key iid sid))) 1 = Some tok"
    and st': "st' = st\<lparr>ls_fences := (ls_fences st)\<lparr>mx_value := (mx_value (ls_fences st))(fence_key iid sid \<mapsto> tok)\<rparr>,
             ls_leases := (ls_leases st)\<lparr>mx_value := (mx_value (ls_leases st))(lease_key iid sid \<mapsto>
               \<lparr>le_instance_id = iid, le_step_id = sid, le_fence_token = tok,
                le_expires_at = saturating_add now ttl\<rparr>)\<rparr>\<rparr>"
    by (auto simp: acquire_token_def lease_acquire_valid split: if_splits option.splits sum.splits)
  have clk: "clock_ms clock = now"
    using now by (simp add: lease_now_ms_def clock_ms_def split: option.splits)
  have "unat tok = last_fence st (lease_key iid sid) + 1"
    using checked_add_unat [OF nxt] small by (simp add: unat_of_nat)
  moreover have "lease_view st' = (lease_view st)(lease_key iid sid \<mapsto> (tok, saturating_add now ttl))"
    by (auto simp: st' lease_view_def)
  moreover have "last_fence st' = (last_fence st)(lease_key iid sid := unat tok)"
    by (auto simp: st' last_fence_def fence_key_of_lease_key)
  ultimately show ?thesis using free by (auto simp: clk who pair_key_def not_less)
qed

lemma acquire_token_err:
  assumes "valid_pair api who" and "acquire_token api pet clock st who ttl = (Inl e, st')"
  shows "st' = st"
  using assms
  by (cases who)
    (auto simp: acquire_token_def lease_acquire_valid split: if_splits option.splits sum.splits)

lemma release_token_effect:
  assumes "release_token st who tok = (r, st')"
  shows "(is_ok r \<longrightarrow> lease_view st' = (lease_view st)(pair_key who := None) \<and> last_fence st' = last_fence st
           \<and> (\<exists>e. lease_view st (pair_key who) = Some (tok, e)))
       \<and> (\<not> is_ok r \<longrightarrow> st' = st)"
  using assms
  by (auto simp: release_token_def lease_release_def Let_def lease_view_def last_fence_def pair_key_def
      fun_eq_iff split: if_splits option.splits)

interpretation mem_leases:
  fenced_leases "acquire_token api pet" release_token clock_ms pair_key lease_view last_fence
    "valid_pair api" for api pet
proof unfold_locales
  show "lease_view st' = (lease_view st)(pair_key a := None) \<and> last_fence st' = last_fence st"
    if "release_token st a tok = (Inr u, st')" for st a tok u st'
    using release_token_effect [OF that] by simp
  show "lease_view st' = lease_view st \<and> last_fence st' = last_fence st"
    if "release_token st a tok = (Inl e, st')" for st a tok e st'
    using release_token_effect [OF that] by simp
qed (auto dest: acquire_token_ok acquire_token_err)

abbreviation mem_lease_run ::
  "id_crates \<Rightarrow> (ParseError \<Rightarrow> string) \<Rightarrow> lease_store \<Rightarrow> (nat option, InstanceId \<times> StepId) lease_op list
     \<Rightarrow> (InstanceId \<times> StepId) lease_event list \<times> lease_store" where
  "mem_lease_run api pet \<equiv> run_trace (lease_step (acquire_token api pet) release_token clock_ms)"

text \<open>
  (C2) Leases exclude each other.  In any sequence of acquire and release
  requests with valid identifiers, if a step's lease is granted twice with
  neither a release nor another grant of it in between, the second grant comes
  no earlier than the expiry of the first.
\<close>

theorem lease_mutual_exclusion:
  assumes "mem_lease_run api pet st ops =
      (xs @ Granted n1 a ttl1 tok1 # ys @ Granted n2 b ttl2 tok2 # zs, st')"
    and "\<forall>op \<in> set ops. valid_pair api (op_arg op)"
    and "pair_key a = k" and "pair_key b = k" and "\<not> list_ex (concerns pair_key k) ys"
  shows "saturating_add n1 ttl1 \<le> n2"
  by (rule mem_leases.mutual_exclusion [OF assms])

text \<open>
  (C13) Fence tokens only grow.  The tokens granted for one step, in the order of
  the grants and across releases and expiries, are strictly increasing, and each
  exceeds every token issued for it before.
\<close>

theorem fence_tokens_increase:
  assumes "mem_lease_run api pet st ops = (evs, st')"
    and "\<forall>op \<in> set ops. valid_pair api (op_arg op)"
  shows "sorted_wrt (<) (granted_tokens pair_key k evs)
    \<and> (\<forall>tok \<in> set (granted_tokens pair_key k evs).
         last_fence st k < unat tok \<and> unat tok \<le> last_fence st' k)
    \<and> last_fence st k \<le> last_fence st' k"
  by (rule mem_leases.tokens_increase [OF assms])

definition demo_who :: "InstanceId \<times> StepId" where
  "demo_who = (ulid_to_string demo_crates 5, ''step-1'')"

lemma demo_who_valid: "valid_pair demo_crates demo_who"
  by (simp add: valid_pair_def demo_who_def demo_parse demo_step)

definition demo_ops :: "(nat option, InstanceId \<times> StepId) lease_op list" where
  "demo_ops = [Do_Acquire (Some 10) demo_who 5, Do_Acquire (Some 15) demo_who 5]"

lemma demo_lease_run:
  "fst (mem_lease_run demo_crates (\<lambda>_. []) lease_store_new demo_ops) =
     [Granted 10 demo_who 5 1, Granted 15 demo_who 5 2]"
proof -
  have v: "valid_pair demo_crates (fst demo_who, snd demo_who)" using demo_who_valid by simp
  show ?thesis
    by (simp add: demo_ops_def acquire_token_def lease_acquire_valid [OF v] lease_now_ms_def
        lease_store_new_def lease_view_def last_fence_def checked_add_def saturating_add_def
        clock_ms_def fence_key_of_lease_key)
qed

theorem lease_mutual_exclusion_witness:
  "saturating_add (10 :: u64) 5 \<le> 15
   \<and> fst (mem_lease_run demo_crates (\<lambda>_. []) lease_store_new demo_ops) =
       [Granted 10 demo_who 5 1, Granted 15 demo_who 5 2]"
proof -
  have r: "mem_lease_run demo_crates (\<lambda>_. []) lease_store_new demo_ops =
      ([] @ Granted 10 demo_who 5 1 # [] @ Granted 15 demo_who 5 2 # [],
       snd (mem_lease_run demo_crates (\<lambda>_. []) lease_store_new demo_ops))"
    using demo_lease_run by (metis append_Nil prod.collapse)
  have v: "\<forall>op \<in> set demo_ops. valid_pair demo_crates (op_arg op)"
    by (simp add: demo_ops_def demo_who_valid)
  have "saturating_add (10 :: u64) 5 \<le> 15"
    by (rule lease_mutual_exclusion [OF r v refl refl]) simp
  with demo_lease_run show ?thesis by blast
qed

theorem fence_tokens_increase_witness:
  "sorted_wrt (<) (granted_tokens pair_key (pair_key demo_who)
     (fst (mem_lease_run demo_crates (\<lambda>_. []) lease_store_new demo_ops)))"
proof -
  have v: "\<forall>op \<in> set demo_ops. valid_pair demo_crates (op_arg op)"
    by (simp add: demo_ops_def demo_who_valid)
  from fence_tokens_increase [OF prod.collapse [symmetric] v] show ?thesis by blast
qed

text \<open>
  A superseded worker is fenced off while a lease exists: with a current
  lease for the step, the check accepts exactly the current token before expiry
  and rejects every token from expiry on; but once the lease is released or was
  never granted, it accepts every token, including superseded ones.
\<close>

theorem stale_fence_check:
  assumes "lease_now_ms clock = Inr now" and "\<not> mx_poisoned (ls_leases st)"
  shows "check_stale_fence clock st iid sid token = Inr
     (case lease_view st (lease_key iid sid) of
        Some (current, expires) \<Rightarrow> \<not> (now < expires \<and> token = current)
      | None \<Rightarrow> False)"
  using assms
  by (auto simp: check_stale_fence_def lease_view_def lease_is_expired_def not_le split: option.splits)

theorem stale_fence_check_witness:
  "check_stale_fence (Some 3) lease_store_new ''i'' ''s'' 7 = Inr False"
proof -
  have "lease_now_ms (Some 3) = Inr 3" "\<not> mx_poisoned (ls_leases lease_store_new)"
    by (simp_all add: lease_now_ms_def lease_store_new_def)
  from stale_fence_check [OF this] show ?thesis
    by (simp add: lease_view_def lease_store_new_def)
qed

lemma lease_key_inj:
  assumes "ulid_law api" and "canonical_id api i" and "canonical_id api j"
  shows "lease_key i s = lease_key j t \<longleftrightarrow> i = j \<and> s = t"
  using canonical_text(1) [OF assms(1,2)] canonical_text(1) [OF assms(1,3)]
  by (auto simp: lease_key_def)

section \<open>The calculator\<close>

text \<open>
  Acquiring a held lease is refused even after it expired, with the
  zero-lifetime error whatever lifetime was asked for: the source recomputes the
  expiry with a lifetime of zero.
\<close>

lemma lease_calc_expired_acquire:
  "e \<le> now \<Longrightarrow> lease_apply (Held h e) (Acquire r ttl now) = Inl ZeroTtl"
  by (simp add: calc_is_expired_def calc_expires_def)

lemma lease_calc_step_keeps_holder:
  assumes "lease_apply (Held h e) tr = Inr s" and "tr \<noteq> Release h" and "\<forall>now. tr \<noteq> Tick now"
  shows "\<exists>e'. s = Held h e'"
  using assms by (cases tr) (auto simp: calc_expires_def split: if_splits)

text \<open>
  In the pure lease calculator nobody takes over a lease behind its holder's
  back: starting from a lease held by a node, any accepted sequence of
  transitions that contains neither a release by that node nor a clock tick ends
  with the lease still held by it.
\<close>

theorem lease_calc_no_takeover:
  assumes "exec lease_apply (Held h e) trs = Inr s"
    and "Release h \<notin> set trs" and "\<forall>now. Tick now \<notin> set trs"
  shows "\<exists>e'. s = Held h e'"
  using assms
proof (induction trs arbitrary: e)
  case (Cons tr trs)
  from Cons.prems(1) obtain s1 where s1: "lease_apply (Held h e) tr = Inr s1"
    "exec lease_apply s1 trs = Inr s" by auto
  obtain e1 where "s1 = Held h e1"
    using lease_calc_step_keeps_holder [OF s1(1)] Cons.prems(2,3) by auto
  then show ?case using Cons.IH [of e1] s1(2) Cons.prems(2,3) by auto
qed auto

theorem lease_calc_no_takeover_witness:
  "\<exists>e'. Held ''n1'' 30 = Held ''n1'' e'"
proof -
  have "exec lease_apply (Held ''n1'' 20) [Renew ''n1'' 20 10] = Inr (Held ''n1'' 30)"
    by (simp add: calc_is_expired_def calc_expires_def checked_add_def)
  from lease_calc_no_takeover [OF this] show ?thesis by simp
qed

end
