(* ===== verification/Dedupe_Store.thy ===== *)
theory Dedupe_Store
  imports Key_Encoding
begin

text \<open>
  The deduplication store of the ingress (vo-storage/src/dedupe_partition): the
  entries and their binary format, the retention records, and the in-memory
  store.  The \<open>admission_store\<close> locale is the contract of the \<open>DedupeStore\<close>
  trait, on which the command deduplication of theory Commands rests.  The clock
  is an argument: the milliseconds since the epoch, \<open>None\<close> before it, where the
  source panics; an operation that may panic returns an option, \<open>None\<close> being
  the panic.
\<close>

section \<open>Entries\<close>

datatype AdmissionResult = Admitted | Duplicate string

datatype DedupeStoreError = Dedupe_Storage string | Dedupe_Codec string | Dedupe_InvalidArgument

record DedupeEntry =
  de_dedupe_key :: string
  de_instance_id :: string
  de_expires_at :: u64

definition DedupeEntry_new :: "string \<Rightarrow> string \<Rightarrow> u64 \<Rightarrow> DedupeStoreError + DedupeEntry" where
  "DedupeEntry_new dedupe_key instance_id expires_at =
     (if dedupe_key = [] \<or> instance_id = [] then Inl Dedupe_InvalidArgument
      else Inr \<lparr>de_dedupe_key = dedupe_key, de_instance_id = instance_id,
                de_expires_at = expires_at\<rparr>)"

definition dedupe_is_expired :: "DedupeEntry \<Rightarrow> u64 \<Rightarrow> bool" where
  "dedupe_is_expired entry now_ms = (de_expires_at entry \<le> now_ms)"

record DedupeRetentionRecord =
  rr_dedupe_key :: string
  rr_instance_id :: string
  rr_terminal_state_at :: u64
  rr_retention_expires_at :: u64

definition DedupeRetentionRecord_new ::
  "string \<Rightarrow> string \<Rightarrow> u64 \<Rightarrow> u64 \<Rightarrow> DedupeStoreError + DedupeRetentionRecord" where
  "DedupeRetentionRecord_new dedupe_key instance_id terminal_state_at retention_expires_at =
     (if dedupe_key = [] \<or> instance_id = [] then Inl Dedupe_InvalidArgument
      else if retention_expires_at < terminal_state_at then Inl Dedupe_InvalidArgument
      else Inr \<lparr>rr_dedupe_key = dedupe_key, rr_instance_id = instance_id,
                rr_terminal_state_at = terminal_state_at,
                rr_retention_expires_at = retention_expires_at\<rparr>)"

definition is_retention_expired :: "DedupeRetentionRecord \<Rightarrow> u64 \<Rightarrow> bool" where
  "is_retention_expired r now_ms = (rr_retention_expires_at r \<le> now_ms)"

definition compute_retention_expiry :: "u64 \<Rightarrow> u64 \<Rightarrow> u64" where
  "compute_retention_expiry terminal_state_at retention_period_ms =
     saturating_add terminal_state_at retention_period_ms"

section \<open>Keys and the binary entry format\<close>

text \<open>
  The encoder of store keys unwraps the canonical encoder's result; the decoder
  takes the generated \<open>Display\<close> texts of the two error types.
\<close>

definition encode_store_key :: "DedupeKey \<Rightarrow> bytes option" where
  "encode_store_key key = (case encode_dedupe_key key of Inl _ \<Rightarrow> None | Inr bs \<Rightarrow> Some bs)"

definition decode_store_key ::
  "(KeyEncodingError \<Rightarrow> string) \<Rightarrow> (ParseError \<Rightarrow> string) \<Rightarrow> bytes \<Rightarrow> DedupeStoreError + DedupeKey"
  where
  "decode_store_key key_error_text parse_error_text bs =
     and_then (map_err (\<lambda>e. Dedupe_Codec (key_error_text e)) (decode_dedupe_key bs)) (\<lambda>s.
       map_err (\<lambda>e. Dedupe_Codec (parse_error_text e)) (DedupeKey_parse s))"

definition encode_dedupe_entry :: "DedupeEntry \<Rightarrow> DedupeStoreError + bytes" where
  "encode_dedupe_entry entry =
     (let dk_bytes = as_bytes (de_dedupe_key entry);
          iid_bytes = as_bytes (de_instance_id entry) in
      if 65535 < length dk_bytes
      then Inl (Dedupe_Codec ''dedupe_key exceeds u16::MAX bytes'')
      else if 65535 < length iid_bytes
      then Inl (Dedupe_Codec ''instance_id exceeds u16::MAX bytes'')
      else Inr (u16_to_be_bytes (word_of_nat (length dk_bytes)) @ dk_bytes
                @ u16_to_be_bytes (word_of_nat (length iid_bytes)) @ iid_bytes
                @ u64_to_be_bytes (de_expires_at entry)))"

definition decode_dedupe_entry :: "bytes \<Rightarrow> DedupeStoreError + DedupeEntry" where
  "decode_dedupe_entry bs =
     (if length bs < 12
      then Inl (Dedupe_Codec (''entry too short: '' @ show_nat (length bs)
                  @ '' bytes (minimum 12 for two empty fields + u64)''))
      else
        let dk_len = unat (u16_from_be_bytes (take 2 bs)) in
        if length bs < 2 + dk_len + 2
        then Inl (Dedupe_Codec ''truncated: cannot read instance_id length after dedupe_key'')
        else and_then (map_err (\<lambda>e. Dedupe_Codec (''dedupe_key invalid UTF-8: '' @ e))
                         (from_utf8 (take dk_len (drop 2 bs)))) (\<lambda>dk_str.
          let offset = 2 + dk_len;
              iid_len = unat (u16_from_be_bytes (take 2 (drop offset bs))) in
          if length bs < offset + 2 + iid_len + 8
          then Inl (Dedupe_Codec ''truncated: cannot read expires_at after instance_id'')
          else and_then (map_err (\<lambda>e. Dedupe_Codec (''instance_id invalid UTF-8: '' @ e))
                           (from_utf8 (take iid_len (drop (offset + 2) bs)))) (\<lambda>iid_str.
            let ts_offset = offset + 2 + iid_len;
                expires_at = u64_from_be_bytes (take 8 (drop ts_offset bs)) in
            DedupeEntry_new dk_str iid_str expires_at)))"

section \<open>The in-memory store\<close>

type_synonym dedupe_store = "(string \<times> DedupeEntry) list mutex"

definition dedupe_store_new :: dedupe_store where
  "dedupe_store_new = mutex_new []"

definition check_and_insert ::
  "nat option \<Rightarrow> dedupe_store \<Rightarrow> DedupeKey \<Rightarrow> InstanceId \<Rightarrow> u64
     \<Rightarrow> (DedupeStoreError + AdmissionResult) option \<times> dedupe_store" where
  "check_and_insert clock st key instance_id ttl_ms =
     (if ttl_ms = 0 then (Some (Inl Dedupe_InvalidArgument), st)
      else case clock of
        None \<Rightarrow> (None, st)
      | Some millis \<Rightarrow>
          let now_ms = word_of_nat millis;
              expires_at = saturating_add now_ms ttl_ms in
          case with_lock st (Dedupe_Storage poison_text) (\<lambda>entries.
              if (case map_of entries key of
                    Some entry \<Rightarrow> \<not> dedupe_is_expired entry now_ms | None \<Rightarrow> False)
              then (Inr (Duplicate (de_instance_id (the (map_of entries key)))), entries)
              else (case DedupeEntry_new key instance_id expires_at of
                      Inl e \<Rightarrow> (Inl e, entries)
                    | Inr entry \<Rightarrow> (Inr Admitted, AList.update key entry entries)))
          of (r, st') \<Rightarrow> (Some r, st'))"

definition purge_expired :: "dedupe_store \<Rightarrow> u64 \<Rightarrow> (DedupeStoreError + u64) \<times> dedupe_store" where
  "purge_expired st now_ms =
     with_lock st (Dedupe_Storage poison_text) (\<lambda>entries.
       let keys_to_remove = map fst (filter (\<lambda>(k, entry). dedupe_is_expired entry now_ms) entries) in
       (Inr (word_of_nat (length keys_to_remove)), fold AList.delete keys_to_remove entries))"

definition contains_key ::
  "nat option \<Rightarrow> dedupe_store \<Rightarrow> DedupeKey \<Rightarrow> (DedupeStoreError + bool) option" where
  "contains_key clock st key =
     (case clock of
        None \<Rightarrow> None
      | Some millis \<Rightarrow>
          Some (if mx_poisoned st then Inl (Dedupe_Storage poison_text)
                else Inr (case map_of (mx_value st) key of
                            Some e \<Rightarrow> \<not> dedupe_is_expired e (word_of_nat millis)
                          | None \<Rightarrow> False)))"

section \<open>The contract of an admission store\<close>

text \<open>
  \<open>view\<close> reads a store as the admissions it remembers: for a key, the admitted
  instance and the time until which the admission counts.  \<open>wf\<close> is the
  well-formedness the operations keep.
\<close>

locale admission_store =
  fixes ins :: "'c \<Rightarrow> 'st \<Rightarrow> DedupeKey \<Rightarrow> InstanceId \<Rightarrow> u64
      \<Rightarrow> (DedupeStoreError + AdmissionResult) option \<times> 'st"
    and purge :: "'st \<Rightarrow> u64 \<Rightarrow> (DedupeStoreError + u64) \<times> 'st"
    and has :: "'c \<Rightarrow> 'st \<Rightarrow> DedupeKey \<Rightarrow> (DedupeStoreError + bool) option"
    and time :: "'c \<Rightarrow> u64"
    and view :: "'st \<Rightarrow> DedupeKey \<Rightarrow> (InstanceId \<times> u64) option"
    and wf :: "'st \<Rightarrow> bool"
  assumes insert_admitted: "wf st \<Longrightarrow> ins c st k i ttl = (Some (Inr Admitted), st') \<Longrightarrow>
        (\<forall>j e. view st k = Some (j, e) \<longrightarrow> e \<le> time c)
      \<and> view st' = (view st)(k \<mapsto> (i, saturating_add (time c) ttl)) \<and> wf st'"
    and insert_duplicate: "wf st \<Longrightarrow> ins c st k i ttl = (Some (Inr (Duplicate j)), st') \<Longrightarrow>
        (\<exists>e. view st k = Some (j, e) \<and> time c < e) \<and> st' = st"
    and insert_refused: "wf st \<Longrightarrow> ins c st k i ttl = (Some (Inl err), st') \<Longrightarrow> st' = st"
    and insert_panicked: "wf st \<Longrightarrow> ins c st k i ttl = (None, st') \<Longrightarrow> st' = st"
    and purge_effect: "wf st \<Longrightarrow> purge st now = (r, st') \<Longrightarrow> wf st' \<and>
        (\<forall>k. view st' k = view st k
             \<or> view st' k = None \<and> (\<exists>j e. view st k = Some (j, e) \<and> e \<le> now))"
    and has_exact: "has c st k = Some (Inr b) \<Longrightarrow>
        b \<longleftrightarrow> (\<exists>j e. view st k = Some (j, e) \<and> time c < e)"
begin

lemma insert_live:
  assumes "wf st" and "view st k = Some (j, e)" and "time c < e"
    and "ins c st k i ttl = (Some (Inr r), st')"
  shows "r = Duplicate j \<and> st' = st"
  using assms insert_admitted [OF assms(1)] insert_duplicate [OF assms(1)] by (cases r) fastforce+

lemma insert_effect:
  assumes "wf st" and "ins c st k i ttl = (r, st')"
  shows "wf st' \<and> (st' = st \<or> r = Some (Inr Admitted)
       \<and> view st' = (view st)(k \<mapsto> (i, saturating_add (time c) ttl)))"
proof (cases r)
  case None
  then show ?thesis using insert_panicked [OF assms(1)] assms by blast
next
  case (Some q)
  show ?thesis
  proof (cases q)
    case (Inl err)
    then show ?thesis using insert_refused [OF assms(1)] assms Some by blast
  next
    case (Inr a)
    then show ?thesis using insert_admitted [OF assms(1)] insert_duplicate [OF assms(1)] assms Some
      by (cases a) blast+
  qed
qed

end

section \<open>The in-memory store keeps the contract\<close>

definition dedupe_view :: "dedupe_store \<Rightarrow> DedupeKey \<Rightarrow> (InstanceId \<times> u64) option" where
  "dedupe_view st k = map_option (\<lambda>e. (de_instance_id e, de_expires_at e)) (map_of (mx_value st) k)"

definition dedupe_time :: "nat option \<Rightarrow> u64" where
  "dedupe_time clock = word_of_nat (case clock of None \<Rightarrow> 0 | Some ms \<Rightarrow> ms)"

definition dedupe_wf :: "dedupe_store \<Rightarrow> bool" where
  "dedupe_wf st = distinct (map fst (mx_value st))"

lemma dedupe_wf_new: "dedupe_wf dedupe_store_new"
  by (simp add: dedupe_wf_def dedupe_store_new_def)

lemma check_and_insert_cases:
  "check_and_insert clock st k i ttl =
     (if ttl = 0 then (Some (Inl Dedupe_InvalidArgument), st)
      else if clock = None then (None, st)
      else if mx_poisoned st then (Some (Inl (Dedupe_Storage poison_text)), st)
      else case dedupe_view st k of
        Some (j, e) \<Rightarrow> if dedupe_time clock < e then (Some (Inr (Duplicate j)), st)
          else if k = [] \<or> i = [] then (Some (Inl Dedupe_InvalidArgument), st)
          else (Some (Inr Admitted), st\<lparr>mx_value := AList.update k
             \<lparr>de_dedupe_key = k, de_instance_id = i,
              de_expires_at = saturating_add (dedupe_time clock) ttl\<rparr> (mx_value st)\<rparr>)
      | None \<Rightarrow> if k = [] \<or> i = [] then (Some (Inl Dedupe_InvalidArgument), st)
          else (Some (Inr Admitted), st\<lparr>mx_value := AList.update k
             \<lparr>de_dedupe_key = k, de_instance_id = i,
              de_expires_at = saturating_add (dedupe_time clock) ttl\<rparr> (mx_value st)\<rparr>))"
  by (cases clock; cases "map_of (mx_value st) k"; cases "mx_poisoned st")
    (auto simp: check_and_insert_def Let_def dedupe_view_def dedupe_time_def dedupe_is_expired_def
      DedupeEntry_new_def not_le)

lemma purge_view:
  assumes "dedupe_wf st"
  shows "dedupe_view (snd (purge_expired st now)) k =
     (case dedupe_view st k of
        None \<Rightarrow> None
      | Some (j, e) \<Rightarrow> if e \<le> now \<and> \<not> mx_poisoned st then None else Some (j, e))"
  using assms
  by (cases "mx_poisoned st"; cases "map_of (mx_value st) k")
    (simp_all add: purge_expired_def dedupe_view_def Let_def dedupe_wf_def
      map_of_fold_delete_filter [where P = "\<lambda>e. de_expires_at e \<le> now"] dedupe_is_expired_def)

lemma purge_wf: "dedupe_wf st \<Longrightarrow> dedupe_wf (snd (purge_expired st now))"
  by (auto simp: dedupe_wf_def purge_expired_def with_lock_snd_value Let_def distinct_fold_delete)

lemma dedupe_view_update:
  "dedupe_view (st\<lparr>mx_value := AList.update k e (mx_value st)\<rparr>) =
     (dedupe_view st)(k \<mapsto> (de_instance_id e, de_expires_at e))"
  by (auto simp: dedupe_view_def update_conv fun_eq_iff)

lemma dedupe_wf_update:
  "dedupe_wf st \<Longrightarrow> dedupe_wf (st\<lparr>mx_value := AList.update k e (mx_value st)\<rparr>)"
  by (simp add: dedupe_wf_def distinct_update)

lemma contains_key_view:
  "contains_key clock st k =
     (if clock = None then None
      else Some (if mx_poisoned st then Inl (Dedupe_Storage poison_text)
                 else Inr (\<exists>j e. dedupe_view st k = Some (j, e) \<and> dedupe_time clock < e)))"
  by (cases clock; cases "map_of (mx_value st) k")
    (auto simp: contains_key_def dedupe_view_def dedupe_time_def dedupe_is_expired_def not_le)

interpretation mem_dedupe: admission_store check_and_insert purge_expired contains_key
    dedupe_time dedupe_view dedupe_wf
proof (unfold_locales, goal_cases)
  case (1 st c k i ttl st')
  then show ?case
    by (auto simp: check_and_insert_cases dedupe_view_update dedupe_wf_update not_less
        split: if_splits option.splits)
next
  case (2 st c k i ttl j st')
  then show ?case by (auto simp: check_and_insert_cases split: if_splits option.splits)
next
  case (3 st c k i ttl err st')
  then show ?case by (auto simp: check_and_insert_cases split: if_splits option.splits)
next
  case (4 st c k i ttl st')
  then show ?case by (auto simp: check_and_insert_cases split: if_splits option.splits)
next
  case (5 st now r st')
  then have "st' = snd (purge_expired st now)" by simp
  then show ?case using purge_wf [OF 5(1)] purge_view [OF 5(1), of now]
    by (auto split: option.splits)
next
  case (6 c st k b)
  then show ?case by (auto simp: contains_key_view split: if_splits)
qed

section \<open>Purging\<close>

text \<open>
  Purging is exact: on an open store it forgets precisely the admissions
  that have expired by the given time, reports how many there were, and afterwards
  nothing it kept is expired.
\<close>

theorem purge_exact:
  assumes "dedupe_wf st" and "\<not> mx_poisoned st" and "length (mx_value st) < 2 ^ 64"
    and "purge_expired st now = (r, st')"
  shows "(\<forall>k. dedupe_view st' k =
            (case dedupe_view st k of
               None \<Rightarrow> None | Some (j, e) \<Rightarrow> if e \<le> now then None else Some (j, e)))
     \<and> (\<exists>n. r = Inr n \<and> unat n = card {k. \<exists>j e. dedupe_view st k = Some (j, e) \<and> e \<le> now})"
proof -
  let ?expired = "filter (\<lambda>(k, entry). dedupe_is_expired entry now) (mx_value st)"
  have keys: "{k. \<exists>j e. dedupe_view st k = Some (j, e) \<and> e \<le> now} = fst ` set ?expired"
    using assms(1)
    by (force simp: dedupe_view_def dedupe_wf_def map_of_eq_Some_iff dedupe_is_expired_def)
  have "distinct (map fst ?expired)"
    using assms(1) unfolding dedupe_wf_def by (rule distinct_map_filter)
  then have "card (fst ` set ?expired) = length ?expired"
    by (metis distinct_card length_map list.set_map)
  moreover have "length ?expired < 2 ^ 64"
    using assms(3) le_less_trans length_filter_le by blast
  moreover have "r = Inr (word_of_nat (length ?expired))" "st' = snd (purge_expired st now)"
    using assms(2,4) by (auto simp: purge_expired_def Let_def)
  ultimately show ?thesis
    using purge_view [OF assms(1), of now] assms(2) unfolding keys
    by (auto simp: unat_of_nat split: option.splits)
qed

definition demo_admitted :: dedupe_store where
  "demo_admitted = snd (check_and_insert (Some 5) dedupe_store_new ''k'' ''i'' 10)"

lemma demo_admitted_value:
  "demo_admitted = mutex_new [(''k'', \<lparr>de_dedupe_key = ''k'', de_instance_id = ''i'', de_expires_at = 15\<rparr>)]"
  by (simp add: demo_admitted_def check_and_insert_cases dedupe_store_new_def dedupe_view_def
      dedupe_time_def saturating_add_def mutex_new_def)

theorem purge_exact_witness:
  "dedupe_view (snd (purge_expired demo_admitted 15)) ''k'' = None"
proof -
  have wf: "dedupe_wf demo_admitted" "\<not> mx_poisoned demo_admitted" "length (mx_value demo_admitted) < 2 ^ 64"
    by (simp_all add: demo_admitted_value dedupe_wf_def)
  obtain r st' where p: "purge_expired demo_admitted 15 = (r, st')"
    by (cases "purge_expired demo_admitted 15")
  have "dedupe_view demo_admitted ''k'' = Some (''i'', 15)"
    by (simp add: demo_admitted_value dedupe_view_def)
  with purge_exact [OF wf p] p show ?thesis by simp
qed

section \<open>The binary formats\<close>

lemma utf8_tail_split:
  "utf8_tail k w rng bs = Inr rest \<Longrightarrow> \<exists>t. bs = t @ rest \<and> length t = w"
proof (induction k w rng bs rule: utf8_tail.induct)
  case (3 k w rng b bs)
  then obtain t where "bs = t @ rest" "length t = w" by (auto split: if_splits)
  then have "b # bs = (b # t) @ rest \<and> length (b # t) = Suc w" by simp
  then show ?case by blast
qed auto

definition continuation :: "u8 \<Rightarrow> bool" where
  "continuation b = (0x80 \<le> b \<and> b < 0xC0)"

lemma seq_width_leads:
  assumes "seq_width b \<noteq> 0"
  shows "seq_width b \<le> 4 \<and> \<not> continuation b"
  using assms
  by (auto simp: seq_width_def cont_def continuation_def word_le_nat_alt word_less_nat_alt
      split: if_splits)

lemma utf8_length:
  "utf8_check idx bs = Inr () \<Longrightarrow> length bs \<le> 4 * length (filter (\<lambda>b. \<not> continuation b) bs)"
proof (induction idx bs rule: utf8_check.induct)
  case (2 idx b bs)
  then have w: "seq_width b \<noteq> 0" by (auto split: if_splits)
  then obtain rest where rest: "utf8_tail 1 (seq_width b - 1) (second_range b) bs = Inr rest"
    "utf8_check (idx + seq_width b) rest = Inr ()"
    using 2(2) by (auto split: sum.splits option.splits)
  obtain t where t: "bs = t @ rest" "length t = seq_width b - 1"
    using utf8_tail_split [OF rest(1)] by blast
  have "length rest \<le> 4 * length (filter (\<lambda>b. \<not> continuation b) rest)"
    by (rule 2(1) [OF w rest(1) rest(2)])
  moreover have "seq_width b \<le> 4" "\<not> continuation b" using seq_width_leads [OF w] by simp_all
  ultimately show ?case using t by simp
qed simp

text \<open>A Rust string holds valid UTF-8, so it has at most four bytes a character.\<close>

lemma chars_count_bytes:
  assumes "from_utf8 (as_bytes s) = Inr s"
  shows "length s \<le> 4 * chars_count s"
proof -
  have "continuation (of_char c) \<longleftrightarrow> 128 \<le> code c \<and> code c < 192" for c
    by (simp add: continuation_def word_le_nat_alt word_less_nat_alt unat_of_char)
  then have "length (filter (\<lambda>b. \<not> continuation b) (as_bytes s)) = chars_count s"
    by (simp add: as_bytes_def chars_count_def filter_map comp_def)
  moreover have "utf8_check 0 (as_bytes s) = Inr ()" using assms by (auto simp: from_utf8_def)
  ultimately show ?thesis using utf8_length [of 0 "as_bytes s"] by simp
qed

text \<open>
  Encoding a deduplication key never panics: every key the parser accepts
  fits the 16-bit length field (at most 1024 bytes of UTF-8), and the encoded key
  decodes to the key.
\<close>

theorem dedupe_key_codec:
  assumes "DedupeKey_parse input = Inr key" and "from_utf8 (as_bytes key) = Inr key"
  shows "\<exists>bs. encode_store_key key = Some bs \<and> length bs \<le> 1026
           \<and> decode_store_key key_error_text parse_error_text bs = Inr key"
proof -
  have key: "key \<noteq> []" "chars_count key \<le> 256" "DedupeKey_parse key = Inr key"
    using assms(1) by (auto simp: DedupeKey_parse_def split: if_splits)
  then have len: "length (as_bytes key) \<le> 1024" using chars_count_bytes [OF assms(2)] by simp
  then have enc: "encode_dedupe_key key = Inr (u16_to_be_bytes (word_of_nat (length key)) @ as_bytes key)"
    by (simp add: encode_dedupe_key_def encode_length_prefixed_def)
  have "decode_dedupe_key (u16_to_be_bytes (word_of_nat (length key)) @ as_bytes key) = Inr key"
    using decode_length_prefixed_encode [of "as_bytes key" _ "[]"] len assms(2) enc
    by (simp add: decode_dedupe_key_def encode_dedupe_key_def)
  then show ?thesis using enc len key
    by (simp add: encode_store_key_def decode_store_key_def)
qed

theorem dedupe_key_codec_witness:
  "\<exists>bs. encode_store_key ''cmd:1'' = Some bs \<and> length bs \<le> 1026
      \<and> decode_store_key (\<lambda>_. []) (\<lambda>_. []) bs = Inr ''cmd:1''"
proof -
  have "DedupeKey_parse ''cmd:1'' = Inr ''cmd:1''"
    by (simp add: DedupeKey_parse_def chars_count_def code_def)
  moreover have "from_utf8 (as_bytes ''cmd:1'') = Inr ''cmd:1''"
    by (rule from_utf8_ascii) (auto simp: code_def)
  ultimately show ?thesis by (rule dedupe_key_codec)
qed

text \<open>
  The binary entry format round-trips: an entry with non-empty UTF-8 fields
  below 65536 bytes is encoded, and decodes to itself whatever follows it in the
  buffer; longer fields are refused.
\<close>

theorem dedupe_entry_roundtrip:
  assumes "from_utf8 (as_bytes (de_dedupe_key entry)) = Inr (de_dedupe_key entry)"
    and "from_utf8 (as_bytes (de_instance_id entry)) = Inr (de_instance_id entry)"
    and "de_dedupe_key entry \<noteq> []" and "de_instance_id entry \<noteq> []"
  shows "(case encode_dedupe_entry entry of
            Inr bs \<Rightarrow> length (de_dedupe_key entry) < 65536 \<and> length (de_instance_id entry) < 65536
                     \<and> decode_dedupe_entry (bs @ rest) = Inr entry
          | Inl _ \<Rightarrow> 65536 \<le> length (de_dedupe_key entry) \<or> 65536 \<le> length (de_instance_id entry))"
proof (cases "length (de_dedupe_key entry) < 65536 \<and> length (de_instance_id entry) < 65536")
  case True
  let ?dk = "as_bytes (de_dedupe_key entry)" and ?iid = "as_bytes (de_instance_id entry)"
  have len: "unat (word_of_nat (length (de_dedupe_key entry)) :: u16) = length (de_dedupe_key entry)"
    "unat (word_of_nat (length (de_instance_id entry)) :: u16) = length (de_instance_id entry)"
    using True by (simp_all add: unat_u16_of_nat)
  have enc: "encode_dedupe_entry entry = Inr (u16_to_be_bytes (word_of_nat (length ?dk)) @ ?dk
      @ u16_to_be_bytes (word_of_nat (length ?iid)) @ ?iid @ u64_to_be_bytes (de_expires_at entry))"
    using True by (simp add: encode_dedupe_entry_def)
  have "decode_dedupe_entry ((u16_to_be_bytes (word_of_nat (length ?dk)) @ ?dk
      @ u16_to_be_bytes (word_of_nat (length ?iid)) @ ?iid @ u64_to_be_bytes (de_expires_at entry)) @ rest)
      = Inr entry"
    using assms by (simp add: decode_dedupe_entry_def Let_def len DedupeEntry_new_def)
  then show ?thesis using True unfolding enc by simp
next
  case False
  then show ?thesis by (auto simp: encode_dedupe_entry_def Let_def)
qed

theorem dedupe_entry_roundtrip_witness:
  "(case encode_dedupe_entry \<lparr>de_dedupe_key = ''k'', de_instance_id = ''i'', de_expires_at = 15\<rparr> of
      Inr bs \<Rightarrow> decode_dedupe_entry (bs @ [7])
                 = Inr \<lparr>de_dedupe_key = ''k'', de_instance_id = ''i'', de_expires_at = 15\<rparr>
    | Inl _ \<Rightarrow> False)"
proof -
  let ?e = "\<lparr>de_dedupe_key = ''k'', de_instance_id = ''i'', de_expires_at = 15\<rparr>"
  have "from_utf8 (as_bytes (de_dedupe_key ?e)) = Inr (de_dedupe_key ?e)"
    "from_utf8 (as_bytes (de_instance_id ?e)) = Inr (de_instance_id ?e)"
    "de_dedupe_key ?e \<noteq> []" "de_instance_id ?e \<noteq> []"
    using from_utf8_ascii [of "''k''"] from_utf8_ascii [of "''i''"] by (simp_all add: code_def)
  from dedupe_entry_roundtrip [OF this, of "[7]"] show ?thesis by (auto split: sum.splits)
qed

end
