(* ===== verification/Commands.thy ===== *)
theory Commands
  imports Dedupe_Store Machines
begin

text \<open>
  Command envelopes (vo-types/src/command_envelope, command_metadata.rs) and the
  deduplication of commands by their identifier (vo-core/src/command_dedup.rs).
  The store behind the deduplication is a \<open>dyn DedupeStore\<close> in the source: here
  its operations are arguments, the results hold for every store that keeps the
  contract \<open>admission_store\<close>, and they are instantiated on the in-memory store.
\<close>

section \<open>Envelopes\<close>

datatype Issuer = System | ApiClient | Operator | AiAgent | TimerLoop | RecoveryLoop

record CommandMetadata =
  cm_command_id :: string
  cm_correlation_id :: string
  cm_causation_id :: string
  cm_issuer :: Issuer
  cm_issued_at :: TimestampMs

record CommandEnvelope =
  ce_schema_version :: u8
  ce_metadata :: CommandMetadata

datatype CommandEnvelopeError =
    InvalidInput
  | InvalidEnvelopeFormat
  | MissingEnvelopeField string
  | InvalidEnvelopeField string
  | UnsupportedEnvelopeVersion u8
  | EnvelopeDecodeFailed CommandEnvelopeError

definition MAX_SUPPORTED_COMMAND_VERSION :: u8 where
  "MAX_SUPPORTED_COMMAND_VERSION = 1"

definition envelope_string ::
  "'j json_api \<Rightarrow> (string \<rightharpoonup> 'j) \<Rightarrow> string \<Rightarrow> CommandEnvelopeError + string" where
  "envelope_string json obj field =
     and_then (ok_or (MissingEnvelopeField field) (obj field)) (\<lambda>v.
       ok_or (InvalidEnvelopeField (field @ '' must be a string'')) (as_str json v))"

definition envelope_u64 ::
  "'j json_api \<Rightarrow> (string \<rightharpoonup> 'j) \<Rightarrow> string \<Rightarrow> CommandEnvelopeError + u64" where
  "envelope_u64 json obj field =
     and_then (ok_or (MissingEnvelopeField field) (obj field)) (\<lambda>v.
       ok_or (InvalidEnvelopeField (field @ '' must be an integer'')) (as_u64 json v))"

definition envelope_u8 ::
  "'j json_api \<Rightarrow> (string \<rightharpoonup> 'j) \<Rightarrow> string \<Rightarrow> CommandEnvelopeError + u8" where
  "envelope_u8 json obj field =
     and_then (envelope_u64 json obj field) (\<lambda>value.
       if unat value < 256 then Inr (word_of_nat (unat value))
       else Inl (InvalidEnvelopeField (field @ '' exceeds maximum allowed value'')))"

definition parse_issuer :: "string \<Rightarrow> CommandEnvelopeError + Issuer" where
  "parse_issuer s =
     (if s = ''system'' then Inr System
      else if s = ''api_client'' then Inr ApiClient
      else if s = ''operator'' then Inr Operator
      else if s = ''ai_agent'' then Inr AiAgent
      else if s = ''timer_loop'' then Inr TimerLoop
      else if s = ''recovery_loop'' then Inr RecoveryLoop
      else Inl (InvalidEnvelopeField (''unknown issuer: '' @ s)))"

text \<open>
  \<open>json_from_str\<close> is \<open>serde_json::from_str\<close>, \<open>parse_error_text\<close> the generated
  \<open>Display\<close> of \<open>ParseError\<close>.  The conversion of \<open>issued_at\<close> to a timestamp
  accepts every u64.
\<close>

definition metadata_id ::
  "(ParseError \<Rightarrow> string) \<Rightarrow> string \<Rightarrow> string \<Rightarrow> CommandEnvelopeError + string" where
  "metadata_id parse_error_text field value =
     map_err (\<lambda>e. InvalidEnvelopeField (field @ '': '' @ parse_error_text e))
       (IdempotencyKey_parse value)"

definition parse_envelope ::
  "'j json_api \<Rightarrow> (string \<Rightarrow> 'j option) \<Rightarrow> (ParseError \<Rightarrow> string) \<Rightarrow> string
     \<Rightarrow> CommandEnvelopeError + CommandEnvelope" where
  "parse_envelope json json_from_str parse_error_text input =
     and_then (ok_or InvalidEnvelopeFormat (json_from_str input)) (\<lambda>value.
     and_then (ok_or InvalidEnvelopeFormat (as_object json value)) (\<lambda>obj.
     and_then (envelope_u8 json obj ''version'') (\<lambda>version.
     if MAX_SUPPORTED_COMMAND_VERSION < version then Inl (UnsupportedEnvelopeVersion version)
     else
     and_then (envelope_string json obj ''command_id'') (\<lambda>command_id.
     and_then (envelope_string json obj ''correlation_id'') (\<lambda>correlation_id.
     and_then (envelope_string json obj ''causation_id'') (\<lambda>causation_id.
     and_then (envelope_string json obj ''issuer'') (\<lambda>issuer_str.
     and_then (envelope_u64 json obj ''issued_at'') (\<lambda>issued_at.
     and_then (parse_issuer issuer_str) (\<lambda>issuer.
     and_then (metadata_id parse_error_text ''command_id'' command_id) (\<lambda>cmd.
     and_then (metadata_id parse_error_text ''correlation_id'' correlation_id) (\<lambda>corr.
     and_then (metadata_id parse_error_text ''causation_id'' causation_id) (\<lambda>caus.
       Inr \<lparr>ce_schema_version = version,
            ce_metadata = \<lparr>cm_command_id = cmd, cm_correlation_id = corr, cm_causation_id = caus,
                           cm_issuer = issuer, cm_issued_at = issued_at\<rparr>\<rparr>))))))))))))"

definition envelope_from_bytes ::
  "'j json_api \<Rightarrow> (string \<Rightarrow> 'j option) \<Rightarrow> (ParseError \<Rightarrow> string) \<Rightarrow> bytes
     \<Rightarrow> CommandEnvelopeError + CommandEnvelope" where
  "envelope_from_bytes json json_from_str parse_error_text input =
     and_then (map_err (\<lambda>_. InvalidInput) (from_utf8 input)) (parse_envelope json json_from_str parse_error_text)"

definition envelope_is_supported :: "CommandEnvelope \<Rightarrow> bool" where
  "envelope_is_supported e = (ce_schema_version e \<le> MAX_SUPPORTED_COMMAND_VERSION)"

section \<open>Deduplication of commands\<close>

datatype CommandDedupResult = Dedup_Admitted | Dedup_Duplicate string

datatype CommandDedupError = InvalidCommandId string | DedupeStore_failed string

definition dedupe_key_from_envelope ::
  "(ParseError \<Rightarrow> string) \<Rightarrow> CommandEnvelope \<Rightarrow> CommandDedupError + DedupeKey" where
  "dedupe_key_from_envelope parse_error_text envelope =
     (let cmd_id = cm_command_id (ce_metadata envelope) in
      if cmd_id = [] then Inl (InvalidCommandId ''command_id is empty'')
      else map_err (\<lambda>e. InvalidCommandId (parse_error_text e)) (DedupeKey_parse (''cmd:'' @ cmd_id)))"

text \<open>
  \<open>ins\<close> and \<open>has\<close> are \<open>check_and_insert\<close> and \<open>contains\<close> of the store,
  \<open>store_error_text\<close> the generated \<open>Display\<close> of its error type.
\<close>

definition check_command_duplicate ::
  "(ParseError \<Rightarrow> string) \<Rightarrow> (DedupeStoreError \<Rightarrow> string)
     \<Rightarrow> ('st \<Rightarrow> DedupeKey \<Rightarrow> InstanceId \<Rightarrow> u64 \<Rightarrow> (DedupeStoreError + AdmissionResult) option \<times> 'st)
     \<Rightarrow> CommandEnvelope \<Rightarrow> 'st \<Rightarrow> InstanceId \<Rightarrow> u64
     \<Rightarrow> (CommandDedupError + CommandDedupResult) option \<times> 'st" where
  "check_command_duplicate parse_error_text store_error_text ins envelope store instance_id ttl_ms =
     (case dedupe_key_from_envelope parse_error_text envelope of
        Inl e \<Rightarrow> (Some (Inl e), store)
      | Inr key \<Rightarrow>
          (case ins store key instance_id ttl_ms of
             (None, store') \<Rightarrow> (None, store')
           | (Some (Inr Admitted), store') \<Rightarrow> (Some (Inr Dedup_Admitted), store')
           | (Some (Inr (Duplicate i)), store') \<Rightarrow> (Some (Inr (Dedup_Duplicate i)), store')
           | (Some (Inl e), store') \<Rightarrow> (Some (Inl (DedupeStore_failed (store_error_text e))), store')))"

definition is_command_duplicate ::
  "(ParseError \<Rightarrow> string) \<Rightarrow> (DedupeStoreError \<Rightarrow> string)
     \<Rightarrow> ('st \<Rightarrow> DedupeKey \<Rightarrow> (DedupeStoreError + bool) option) \<Rightarrow> CommandEnvelope \<Rightarrow> 'st
     \<Rightarrow> (CommandDedupError + bool) option" where
  "is_command_duplicate parse_error_text store_error_text has envelope store =
     (case dedupe_key_from_envelope parse_error_text envelope of
        Inl e \<Rightarrow> Some (Inl e)
      | Inr key \<Rightarrow>
          map_option (map_err (\<lambda>e. DedupeStore_failed (store_error_text e))) (has store key))"

section \<open>Sequences of submissions\<close>

datatype 'c command_op = Submit 'c CommandEnvelope InstanceId u64 | Purge u64

text \<open>
  What a step showed: an admission or a duplicate, with its time, the command's
  identifier and the instance (and for an admission its lifetime).
\<close>

datatype command_event =
  Was_Admitted u64 string InstanceId u64 | Was_Duplicate u64 string InstanceId | Was_Other

fun command_op_time :: "('c \<Rightarrow> u64) \<Rightarrow> 'c command_op \<Rightarrow> u64" where
  "command_op_time time (Submit c envelope i ttl) = time c"
| "command_op_time time (Purge now) = now"

fun command_step ::
  "(ParseError \<Rightarrow> string) \<Rightarrow> (DedupeStoreError \<Rightarrow> string)
     \<Rightarrow> ('c \<Rightarrow> 'st \<Rightarrow> DedupeKey \<Rightarrow> InstanceId \<Rightarrow> u64 \<Rightarrow> (DedupeStoreError + AdmissionResult) option \<times> 'st)
     \<Rightarrow> ('st \<Rightarrow> u64 \<Rightarrow> (DedupeStoreError + u64) \<times> 'st) \<Rightarrow> ('c \<Rightarrow> u64)
     \<Rightarrow> 'st \<Rightarrow> 'c command_op \<Rightarrow> command_event \<times> 'st" where
  "command_step pet det ins purge time st (Submit c envelope i ttl) =
     (case check_command_duplicate pet det (ins c) envelope st i ttl of
        (Some (Inr Dedup_Admitted), st') \<Rightarrow>
          (Was_Admitted (time c) (cm_command_id (ce_metadata envelope)) i ttl, st')
      | (Some (Inr (Dedup_Duplicate j)), st') \<Rightarrow>
          (Was_Duplicate (time c) (cm_command_id (ce_metadata envelope)) j, st')
      | (_, st') \<Rightarrow> (Was_Other, st'))"
| "command_step pet det ins purge time st (Purge now) = (Was_Other, snd (purge st now))"

lemma dedupe_key_from_envelope_Inr:
  "dedupe_key_from_envelope pet envelope = Inr k \<Longrightarrow> k = ''cmd:'' @ cm_command_id (ce_metadata envelope)"
  by (auto simp: dedupe_key_from_envelope_def Let_def DedupeKey_parse_def split: if_splits)

abbreviation cmd_key :: "string \<Rightarrow> DedupeKey" where
  "cmd_key c \<equiv> ''cmd:'' @ c"

context admission_store
begin

lemma submit_cases:
  assumes "wf st" and "check_command_duplicate pet det (ins c) envelope st i ttl = (r, st')"
  defines "k \<equiv> cmd_key (cm_command_id (ce_metadata envelope))"
  obtains (admitted) "r = Some (Inr Dedup_Admitted)" "wf st'"
      "\<forall>j e. view st k = Some (j, e) \<longrightarrow> e \<le> time c"
      "view st' = (view st)(k \<mapsto> (i, saturating_add (time c) ttl))"
    | (duplicate) j e where "r = Some (Inr (Dedup_Duplicate j))" "st' = st"
      "view st k = Some (j, e)" "time c < e"
    | (refused) "st' = st" "r = None \<or> (\<exists>err. r = Some (Inl err))"
proof (cases "dedupe_key_from_envelope pet envelope")
  case (Inl e)
  then show ?thesis using assms(2) refused by (auto simp: check_command_duplicate_def)
next
  case (Inr key)
  then have key: "key = k" using dedupe_key_from_envelope_Inr k_def by simp
  obtain q st1 where q: "ins c st k i ttl = (q, st1)" by (cases "ins c st k i ttl")
  note res = assms(2) [unfolded check_command_duplicate_def Inr key sum.case q prod.case]
  consider "q = None" | err where "q = Some (Inl err)" | "q = Some (Inr Admitted)"
    | j where "q = Some (Inr (Duplicate j))"
    by (metis AdmissionResult.exhaust old.sum.exhaust option.exhaust)
  then show ?thesis
  proof cases
    case 1
    then show ?thesis using res q insert_panicked [OF assms(1)] refused by auto
  next
    case 2
    then show ?thesis using res q insert_refused [OF assms(1)] refused by auto
  next
    case 3
    then have "r = Some (Inr Dedup_Admitted)" "st' = st1" using res by auto
    then show ?thesis using admitted insert_admitted [OF assms(1)] q 3 by blast
  next
    case 4
    then have "r = Some (Inr (Dedup_Duplicate j))" "st' = st1" using res by auto
    then show ?thesis using duplicate insert_duplicate [OF assms(1)] q 4 by blast
  qed
qed

lemma command_step_cases:
  assumes "wf st" and "command_step pet det ins purge time st op = (ev, st')"
  obtains (admitted) t c i ttl where "ev = Was_Admitted t c i ttl" "t = command_op_time time op"
      "wf st'" "\<forall>j e. view st (cmd_key c) = Some (j, e) \<longrightarrow> e \<le> t"
      "view st' = (view st)(cmd_key c \<mapsto> (i, saturating_add t ttl))"
    | (duplicate) t c j e where "ev = Was_Duplicate t c j" "t = command_op_time time op" "st' = st"
      "view st (cmd_key c) = Some (j, e)" "t < e"
    | (other) "ev = Was_Other" "wf st'"
      "\<forall>k. view st' k = view st k \<or> view st' k = None
             \<and> (\<exists>j e. view st k = Some (j, e) \<and> e \<le> command_op_time time op)"
proof (cases op)
  case (Submit c envelope i ttl)
  obtain r st1 where s: "check_command_duplicate pet det (ins c) envelope st i ttl = (r, st1)"
    by (cases "check_command_duplicate pet det (ins c) envelope st i ttl")
  show ?thesis
  proof (cases rule: submit_cases [OF assms(1) s])
    case 1
    then show ?thesis using admitted assms(2) s by (auto simp: Submit)
  next
    case (2 j e)
    then show ?thesis using duplicate assms(2) s by (auto simp: Submit)
  next
    case 3
    then show ?thesis using other assms(1,2) s by (auto simp: Submit)
  qed
next
  case (Purge now)
  then have "purge st now = (fst (purge st now), st')" "ev = Was_Other"
    using assms(2) by (auto simp: prod_eq_iff)
  then show ?thesis using purge_effect [OF assms(1)] other Purge by auto
qed

abbreviation crun where "crun pet det \<equiv> run_trace (command_step pet det ins purge time)"

lemma step_wf:
  assumes "wf st" and "command_step pet det ins purge time st op = (ev, st')"
  shows "wf st'"
  by (cases rule: command_step_cases [OF assms]) (use assms(1) in auto)

lemma admission_time:
  assumes "crun pet det st ops = (evs, st')" and "wf st"
    and "Was_Admitted t c i ttl \<in> set evs"
  shows "t \<in> command_op_time time ` set ops"
  using assms
proof (induction ops arbitrary: st evs)
  case (Cons op ops)
  from Cons.prems(1) obtain ev st1 evs1 where s: "command_step pet det ins purge time st op = (ev, st1)"
    "crun pet det st1 ops = (evs1, st')" "evs = ev # evs1" by (rule run_trace_cons)
  have "ev = Was_Admitted t c i ttl \<Longrightarrow> t = command_op_time time op"
    by (rule command_step_cases [OF Cons.prems(2) s(1)]) auto
  then show ?case using Cons.IH [OF s(2) step_wf [OF Cons.prems(2) s(1)]] Cons.prems(3) s(3) by auto
qed simp

text \<open>A live admission keeps every other submission of its command out until it expires.\<close>

lemma live_blocks:
  assumes "crun pet det st ops = (evs, st')" and "wf st"
    and "sorted (map (command_op_time time) ops)"
    and "view st (cmd_key c) = Some (j, e)" and "Was_Admitted t c i ttl \<in> set evs"
  shows "e \<le> t"
  using assms
proof (induction ops arbitrary: st evs)
  case (Cons op ops)
  from Cons.prems(1) obtain ev st1 evs1 where s: "command_step pet det ins purge time st op = (ev, st1)"
    "crun pet det st1 ops = (evs1, st')" "evs = ev # evs1" by (rule run_trace_cons)
  note wf1 = step_wf [OF Cons.prems(2) s(1)]
  have later: "e \<le> t" if "e \<le> command_op_time time op" and "Was_Admitted t c i ttl \<in> set evs1"
    using admission_time [OF s(2) wf1 that(2)] that(1) Cons.prems(3) by auto
  note rest = Cons.IH [OF s(2) wf1]
  show ?case
  proof (cases rule: command_step_cases [OF Cons.prems(2) s(1)])
    case (1 t1 c1 i1 ttl1)
    then show ?thesis using later rest Cons.prems s(3)
      by (cases "c1 = c") (auto split: if_splits)
  next
    case (2 t1 c1 j1 e1)
    then show ?thesis using rest Cons.prems s(3) by auto
  next
    case 3
    then have "view st1 (cmd_key c) = Some (j, e) \<or> e \<le> command_op_time time op"
      using Cons.prems(4) by (metis option.inject prod.inject)
    moreover have "Was_Admitted t c i ttl \<in> set evs1" using Cons.prems(5) s(3) 3(1) by simp
    ultimately show ?thesis using later rest Cons.prems(3) by auto
  qed
qed simp

lemma run_wf: "crun pet det st ops = (evs, st') \<Longrightarrow> wf st \<Longrightarrow> wf st'"
proof (induction ops arbitrary: st evs)
  case (Cons op ops)
  then show ?case by (meson run_trace_cons step_wf)
qed simp

lemma admitted_once:
  assumes "crun pet det st ops = (xs @ Was_Admitted t1 c i1 ttl1 # ys @ Was_Admitted t2 c i2 ttl2 # zs, st')"
    and "wf st" and "sorted (map (command_op_time time) ops)"
  shows "saturating_add t1 ttl1 \<le> t2"
proof -
  from run_trace_split [OF assms(1)] obtain ops1 ops2 st1 where o: "ops = ops1 @ ops2"
    "crun pet det st ops1 = (xs, st1)"
    "crun pet det st1 ops2 = (Was_Admitted t1 c i1 ttl1 # ys @ Was_Admitted t2 c i2 ttl2 # zs, st')"
    by blast
  then obtain op ops3 where ops2: "ops2 = op # ops3" by (cases ops2) auto
  from o(3) [unfolded ops2] obtain st2 where
    s: "command_step pet det ins purge time st1 op = (Was_Admitted t1 c i1 ttl1, st2)"
    "crun pet det st2 ops3 = (ys @ Was_Admitted t2 c i2 ttl2 # zs, st')"
    by (auto split: prod.splits)
  have wf1: "wf st1" by (rule run_wf [OF o(2) assms(2)])
  have v: "view st2 (cmd_key c) = Some (i1, saturating_add t1 ttl1)"
    by (cases rule: command_step_cases [OF wf1 s(1)]) auto
  show ?thesis
    by (rule live_blocks [OF s(2) step_wf [OF wf1 s(1)] _ v])
      (use assms(3) o(1) ops2 in \<open>auto simp: sorted_append\<close>)
qed

lemma view_origin:
  assumes "crun pet det st ops = (evs, st')" and "wf st" and "view st' (cmd_key c) = Some (j, e)"
  shows "view st (cmd_key c) = Some (j, e)
    \<or> (\<exists>t ttl. Was_Admitted t c j ttl \<in> set evs \<and> e = saturating_add t ttl)"
  using assms
proof (induction ops arbitrary: st evs)
  case (Cons op ops)
  from Cons.prems(1) obtain ev st1 evs1 where s: "command_step pet det ins purge time st op = (ev, st1)"
    "crun pet det st1 ops = (evs1, st')" "evs = ev # evs1" by (rule run_trace_cons)
  note IH = Cons.IH [OF s(2) step_wf [OF Cons.prems(2) s(1)] Cons.prems(3)]
  show ?case
  proof (cases rule: command_step_cases [OF Cons.prems(2) s(1)])
    case (1 t1 c1 i1 ttl1)
    then show ?thesis using IH s(3) by (cases "c1 = c") auto
  next
    case (2 t1 c1 j1 e1)
    then show ?thesis using IH s(3) by auto
  next
    case 3
    then show ?thesis using IH s(3) by (metis list.set_intros(2) option.distinct(1))
  qed
qed simp

lemma duplicate_origin:
  assumes "crun pet det st ops = (xs @ Was_Duplicate t c j # zs, st')" and "wf st"
  shows "(\<exists>e. view st (cmd_key c) = Some (j, e) \<and> t < e)
    \<or> (\<exists>t1 ttl. Was_Admitted t1 c j ttl \<in> set xs \<and> t < saturating_add t1 ttl)"
proof -
  from run_trace_split [OF assms(1)] obtain ops1 ops2 st1 where o:
    "crun pet det st ops1 = (xs, st1)" "crun pet det st1 ops2 = (Was_Duplicate t c j # zs, st')"
    by blast
  then obtain op ops3 where ops2: "ops2 = op # ops3" by (cases ops2) auto
  from o(2) [unfolded ops2] obtain st2 where
    s: "command_step pet det ins purge time st1 op = (Was_Duplicate t c j, st2)"
    by (auto split: prod.splits)
  have "\<exists>e. view st1 (cmd_key c) = Some (j, e) \<and> t < e"
    by (cases rule: command_step_cases [OF run_wf [OF o(1) assms(2)] s]) auto
  then show ?thesis using view_origin [OF o(1) assms(2)] by blast
qed

lemma read_only_check:
  assumes "wf st" and "is_command_duplicate pet det (has c) envelope st = Some (Inr b)"
    and "check_command_duplicate pet det (ins c) envelope st i ttl = (Some (Inr r), st')"
  shows "b \<longleftrightarrow> r \<noteq> Dedup_Admitted"
proof -
  let ?k = "cmd_key (cm_command_id (ce_metadata envelope))"
  have "dedupe_key_from_envelope pet envelope = Inr ?k"
    using assms(2) dedupe_key_from_envelope_Inr [of pet envelope]
    by (cases "dedupe_key_from_envelope pet envelope") (auto simp: is_command_duplicate_def)
  then have "has c st ?k = Some (Inr b)"
    using assms(2) by (auto simp: is_command_duplicate_def)
  from has_exact [OF this] show ?thesis
    by (cases rule: submit_cases [OF assms(1,3)]) (auto simp: not_less)
qed

end

section \<open>Command deduplication on the in-memory store\<close>

abbreviation mem_command_run ::
  "(ParseError \<Rightarrow> string) \<Rightarrow> (DedupeStoreError \<Rightarrow> string) \<Rightarrow> dedupe_store
     \<Rightarrow> nat option command_op list \<Rightarrow> command_event list \<times> dedupe_store" where
  "mem_command_run pet det \<equiv>
     run_trace (command_step pet det check_and_insert purge_expired dedupe_time)"

text \<open>
  (C8) A command is admitted at most once during its lifetime.  In any sequence of
  submissions and purges at non-decreasing times, starting from an empty store, a
  second admission of a command comes no earlier than the expiry of the first, and
  a submission answered as a duplicate names the instance of an earlier admission
  of the same command that had not expired.
\<close>

theorem command_admitted_once:
  assumes "mem_command_run pet det dedupe_store_new ops = (evs, st')"
    and "sorted (map (command_op_time dedupe_time) ops)"
  shows "(\<forall>xs t1 c i1 ttl1 ys t2 i2 ttl2 zs.
            evs = xs @ Was_Admitted t1 c i1 ttl1 # ys @ Was_Admitted t2 c i2 ttl2 # zs
              \<longrightarrow> saturating_add t1 ttl1 \<le> t2)
     \<and> (\<forall>xs t c j zs. evs = xs @ Was_Duplicate t c j # zs
              \<longrightarrow> (\<exists>t1 ttl. Was_Admitted t1 c j ttl \<in> set xs \<and> t < saturating_add t1 ttl))"
proof -
  have "dedupe_view dedupe_store_new k = None" for k
    by (simp add: dedupe_view_def dedupe_store_new_def)
  then show ?thesis
    using mem_dedupe.admitted_once [OF _ dedupe_wf_new assms(2)]
      mem_dedupe.duplicate_origin [OF _ dedupe_wf_new] assms(1) by fastforce
qed

definition demo_envelope :: CommandEnvelope where
  "demo_envelope = \<lparr>ce_schema_version = 1, ce_metadata = \<lparr>cm_command_id = ''c'', cm_correlation_id = ''r'',
     cm_causation_id = ''a'', cm_issuer = System, cm_issued_at = 1\<rparr>\<rparr>"

definition demo_commands :: "nat option command_op list" where
  "demo_commands = [Submit (Some 5) demo_envelope ''i'' 10, Submit (Some 9) demo_envelope ''j'' 10]"

lemma demo_dedupe_key: "dedupe_key_from_envelope pet demo_envelope = Inr ''cmd:c''"
  by (simp add: dedupe_key_from_envelope_def demo_envelope_def DedupeKey_parse_def chars_count_def code_def)

lemma demo_command_run:
  "fst (mem_command_run pet det dedupe_store_new demo_commands) =
     [Was_Admitted 5 ''c'' ''i'' 10, Was_Duplicate 9 ''c'' ''i'']"
  by (simp add: demo_commands_def check_command_duplicate_def demo_dedupe_key check_and_insert_cases
      dedupe_store_new_def dedupe_view_def dedupe_time_def saturating_add_def)
    (simp add: demo_envelope_def)

theorem command_admitted_once_witness:
  "\<exists>t1 ttl. Was_Admitted t1 ''c'' ''i'' ttl \<in> set [Was_Admitted 5 ''c'' ''i'' 10] \<and> 9 < saturating_add t1 ttl"
proof -
  have r: "mem_command_run (\<lambda>_. []) (\<lambda>_. []) dedupe_store_new demo_commands =
     ([Was_Admitted 5 ''c'' ''i'' 10] @ Was_Duplicate 9 ''c'' ''i'' # [],
      snd (mem_command_run (\<lambda>_. []) (\<lambda>_. []) dedupe_store_new demo_commands))"
    using demo_command_run by (metis append_Cons append_Nil prod.collapse)
  have "sorted (map (command_op_time dedupe_time) demo_commands)"
    by (simp add: demo_commands_def dedupe_time_def)
  from conjunct2 [OF command_admitted_once [OF r this]] show ?thesis by blast
qed

text \<open>
  The read-only check predicts the mutating one: on the same store and clock,
  when both answer, \<open>is_command_duplicate\<close> says true exactly when
  \<open>check_command_duplicate\<close> does not admit the command.
\<close>

theorem duplicate_check_agrees:
  assumes "dedupe_wf st"
    and "is_command_duplicate pet det (contains_key clock) envelope st = Some (Inr b)"
    and "check_command_duplicate pet det (check_and_insert clock) envelope st i ttl = (Some (Inr r), st')"
  shows "b \<longleftrightarrow> r \<noteq> Dedup_Admitted"
  by (rule mem_dedupe.read_only_check [OF assms])

theorem duplicate_check_agrees_witness:
  "(case (is_command_duplicate (\<lambda>_. []) (\<lambda>_. []) (contains_key (Some 5)) demo_envelope dedupe_store_new,
          fst (check_command_duplicate (\<lambda>_. []) (\<lambda>_. []) (check_and_insert (Some 5)) demo_envelope
                 dedupe_store_new ''i'' 10)) of
      (Some (Inr b), Some (Inr r)) \<Rightarrow> b \<longleftrightarrow> r \<noteq> Dedup_Admitted
    | _ \<Rightarrow> False)"
proof -
  have c: "is_command_duplicate (\<lambda>_. []) (\<lambda>_. []) (contains_key (Some 5)) demo_envelope dedupe_store_new
      = Some (Inr False)"
    by (simp add: is_command_duplicate_def demo_dedupe_key contains_key_def dedupe_store_new_def)
  obtain st' where m: "check_command_duplicate (\<lambda>_. []) (\<lambda>_. []) (check_and_insert (Some 5))
      demo_envelope dedupe_store_new ''i'' 10 = (Some (Inr Dedup_Admitted), st')"
    by (simp add: check_command_duplicate_def demo_dedupe_key check_and_insert_cases
        dedupe_store_new_def dedupe_view_def)
  show ?thesis using duplicate_check_agrees [OF dedupe_wf_new c m] unfolding c m by simp
qed

text \<open>
  An accepted envelope carries a supported version and identifiers within the
  limits, but not every accepted command can be deduplicated: the key prefix
  counts towards the limit of the key, so a key is derived exactly for command
  identifiers of at most 252 characters, while the envelope accepts 1024.
\<close>

theorem envelope_dedupe_limit:
  assumes "parse_envelope json json_from_str pet input = Inr envelope"
  shows "envelope_is_supported envelope
     \<and> cm_command_id (ce_metadata envelope) \<noteq> []
     \<and> chars_count (cm_command_id (ce_metadata envelope)) \<le> 1024
     \<and> (is_ok (dedupe_key_from_envelope pet envelope)
          \<longleftrightarrow> chars_count (cm_command_id (ce_metadata envelope)) \<le> 252)"
proof -
  let ?c = "cm_command_id (ce_metadata envelope)"
  have v: "envelope_is_supported envelope" and c: "\<exists>x. IdempotencyKey_parse x = Inr ?c"
    using assms by (auto simp: parse_envelope_def metadata_id_def envelope_is_supported_def split: if_splits)
  from c have c: "?c \<noteq> []" "chars_count ?c \<le> 1024"
    by (auto simp: IdempotencyKey_parse_def bounded_id_parse_def Let_def split: if_splits)
  have "chars_count (''cmd:'' @ ?c) = 4 + chars_count ?c" by (simp add: chars_count_def code_def)
  then show ?thesis using v c by (simp add: dedupe_key_from_envelope_def DedupeKey_parse_def Let_def)
qed

text \<open>A toy JSON library: a document is a string, an object maps each field to its name.\<close>

definition demo_json :: "string json_api" where
  "demo_json = \<lparr>json_variant_of = (\<lambda>_. JString), as_object = (\<lambda>_. Some Some),
     as_str = (\<lambda>v. Some (if v = ''issuer'' then ''system'' else v)), as_u64 = (\<lambda>_. Some 1),
     null_value = []\<rparr>"

theorem envelope_dedupe_limit_witness:
  "\<exists>envelope. parse_envelope demo_json Some (\<lambda>_. []) ''x'' = Inr envelope
     \<and> is_ok (dedupe_key_from_envelope (\<lambda>_. []) envelope)"
proof -
  have "parse_envelope demo_json Some (\<lambda>_. []) ''x'' = Inr \<lparr>ce_schema_version = 1,
     ce_metadata = \<lparr>cm_command_id = ''command_id'', cm_correlation_id = ''correlation_id'',
       cm_causation_id = ''causation_id'', cm_issuer = System, cm_issued_at = 1\<rparr>\<rparr>"
    by (simp add: parse_envelope_def envelope_u8_def envelope_u64_def envelope_string_def demo_json_def
        MAX_SUPPORTED_COMMAND_VERSION_def parse_issuer_def metadata_id_def IdempotencyKey_parse_def
        bounded_id_parse_def chars_count_def code_def extract_invalid_chars_def is_identifier_char_def
        is_ascii_alphanumeric_def is_ascii_digit_def)
  note p = this
  show ?thesis using envelope_dedupe_limit [OF p] p by (simp add: chars_count_def code_def)
qed

end
