(* ===== verification/Events.thy ===== *)
theory Events
  imports Commands
begin

text \<open>
  Event envelopes and payloads (vo-types/src/events, payload_parser.rs) and their
  decoding.  The JSON crate is the record \<open>json_api\<close> of the prelude with two
  more arguments: \<open>json_from_str\<close> is \<open>serde_json::from_str\<close>, and
  \<open>metadata_from_value\<close> the derived deserialiser of the event metadata, which
  reports a failure by its text.
\<close>

section \<open>Errors\<close>

datatype Error =
    Ev_InvalidInput
  | Ev_InvalidEnvelopeFormat
  | Ev_MissingEnvelopeField string
  | Ev_InvalidEnvelopeField string
  | Ev_UnsupportedEnvelopeVersion u8
  | MissingSchemaVersion
  | InvalidSchemaVersionFormat
  | UnsupportedSchemaVersion u16
  | InvalidPayloadFormat
  | MissingPayloadField string
  | InvalidPayloadField string
  | UnsupportedPayloadVersion u8
  | UnknownPayloadType string
  | Ev_EnvelopeDecodeFailed Error
  | PayloadDecodeSkipped
  | PayloadDecodeFailed Error
  | SerializationError string
  | InvalidCommandMetadata
  | InvalidIssuer string
  | UpcasterNotFound u8 u8
  | UpcastFailed string

definition MAX_SUPPORTED_VERSION :: u8 where
  "MAX_SUPPORTED_VERSION = 1"

section \<open>Fields of a payload object\<close>

definition require_string_field ::
  "'j json_api \<Rightarrow> (string \<rightharpoonup> 'j) \<Rightarrow> string \<Rightarrow> Error + string" where
  "require_string_field json obj field =
     and_then (ok_or (InvalidPayloadField (field @ '' is required'')) (obj field)) (\<lambda>v.
       ok_or (InvalidPayloadField (field @ '' must be a string'')) (as_str json v))"

definition require_string :: "'j json_api \<Rightarrow> (string \<rightharpoonup> 'j) \<Rightarrow> string \<Rightarrow> Error + string" where
  "require_string json obj field =
     and_then (ok_or (MissingPayloadField field) (obj field)) (\<lambda>v.
       ok_or (InvalidPayloadField (field @ '' must be a string'')) (as_str json v))"

definition require_u64 :: "'j json_api \<Rightarrow> (string \<rightharpoonup> 'j) \<Rightarrow> string \<Rightarrow> Error + u64" where
  "require_u64 json obj field =
     and_then (ok_or (MissingPayloadField field) (obj field)) (\<lambda>v.
       ok_or (InvalidPayloadField (field @ '' must be an integer'')) (as_u64 json v))"

definition optional_u64 :: "'j json_api \<Rightarrow> (string \<rightharpoonup> 'j) \<Rightarrow> string \<Rightarrow> u64 \<Rightarrow> u64" where
  "optional_u64 json obj field default_value =
     (case Option.bind (obj field) (as_u64 json) of None \<Rightarrow> default_value | Some v \<Rightarrow> v)"

definition optional_string :: "'j json_api \<Rightarrow> (string \<rightharpoonup> 'j) \<Rightarrow> string \<Rightarrow> string option" where
  "optional_string json obj field = Option.bind (obj field) (as_str json)"

definition value_or_null :: "'j json_api \<Rightarrow> (string \<rightharpoonup> 'j) \<Rightarrow> string \<Rightarrow> 'j" where
  "value_or_null json obj field = (case obj field of None \<Rightarrow> null_value json | Some v \<Rightarrow> v)"

text \<open>\<open>as u32\<close> and \<open>as u8\<close> keep the low bits.\<close>

definition require_u32_cast :: "'j json_api \<Rightarrow> (string \<rightharpoonup> 'j) \<Rightarrow> string \<Rightarrow> Error + u32" where
  "require_u32_cast json obj field =
     and_then (require_u64 json obj field) (\<lambda>v. Inr (word_of_nat (unat v)))"

definition require_u8_cast :: "'j json_api \<Rightarrow> (string \<rightharpoonup> 'j) \<Rightarrow> string \<Rightarrow> Error + u8" where
  "require_u8_cast json obj field =
     and_then (require_u64 json obj field) (\<lambda>v. Inr (word_of_nat (unat v)))"

section \<open>Payloads\<close>

datatype SinkKind = BlobWrite | TimerWrite | SignalWrite

definition SinkKind_from_str :: "string \<Rightarrow> Error + SinkKind" where
  "SinkKind_from_str s =
     (if s = ''BlobWrite'' then Inr BlobWrite
      else if s = ''TimerWrite'' then Inr TimerWrite
      else if s = ''SignalWrite'' then Inr SignalWrite
      else Inl (InvalidPayloadField (''unknown sink kind: '' @ s)))"

datatype 'j StepOutput = Output_Null | Output_Inline 'j | Output_Ref string string

definition StepOutput_from :: "'j json_api \<Rightarrow> 'j \<Rightarrow> 'j StepOutput" where
  "StepOutput_from json value =
     (if json_variant_of json value = JNull then Output_Null else Output_Inline value)"

datatype 'j EventPayload =
    WorkflowStarted string 'j string string "string option"
  | WorkflowCompleted string u64
  | WorkflowFailed string string
  | WorkflowCancelled string string
  | StepScheduled string string u32 u64 string
  | StepStarted string string u64
  | StepCompleted string string u64 u32 u64 'j "string option" "string option" "'j StepOutput"
  | StepFailed string string string u32 u64
  | EffectPrepared string string string SinkKind string u64
  | EffectCommitted string string string 'j u64
  | TimerSet string string u64
  | TimerScheduled string string u64 string
  | TimerFired string string u64
  | CancelRequested string string
  | SignalAwaiting string string string u64
  | InstanceResumed string u64
  | ContinuedAsNew string string u64 u64
  | WorkflowQuarantined string u8 u64

text \<open>
  One parser per variant, reading the fields in the order of the source;
  \<open>try_from_json\<close> selects by the type name.  \<open>parse_error_text\<close> is the generated
  \<open>Display\<close> of \<open>ParseError\<close>.
\<close>

definition parse_workflow_started ::
  "'j json_api \<Rightarrow> (ParseError \<Rightarrow> string) \<Rightarrow> (string \<rightharpoonup> 'j) \<Rightarrow> Error + 'j EventPayload" where
  "parse_workflow_started json parse_error_text obj =
     and_then (require_string_field json obj ''workflow_id'') (\<lambda>workflow_id.
     and_then (require_string json obj ''binary_hash'') (\<lambda>binary_hash.
     and_then (require_string json obj ''workflow_version_hash'') (\<lambda>s.
     and_then (map_err (\<lambda>e. InvalidPayloadField (parse_error_text e)) (WorkflowVersionHash_parse s)) (\<lambda>h.
       Inr (WorkflowStarted workflow_id (value_or_null json obj ''dag_topology'') binary_hash h
              (optional_string json obj ''dedupe_key_hash''))))))"

definition parse_step_scheduled :: "'j json_api \<Rightarrow> (string \<rightharpoonup> 'j) \<Rightarrow> Error + 'j EventPayload" where
  "parse_step_scheduled json obj =
     and_then (require_string_field json obj ''workflow_id'') (\<lambda>workflow_id.
     and_then (require_string json obj ''step_id'') (\<lambda>step_id.
     and_then (require_u32_cast json obj ''attempt'') (\<lambda>attempt.
     and_then (require_u64 json obj ''fence'') (\<lambda>fence.
     and_then (require_string json obj ''execution_id'') (\<lambda>execution_id.
       Inr (StepScheduled workflow_id step_id attempt fence execution_id))))))"

definition parse_step_started :: "'j json_api \<Rightarrow> (string \<rightharpoonup> 'j) \<Rightarrow> Error + 'j EventPayload" where
  "parse_step_started json obj =
     and_then (require_string_field json obj ''workflow_id'') (\<lambda>workflow_id.
     and_then (require_string json obj ''step_id'') (\<lambda>step_id.
     and_then (require_u64 json obj ''started_at_ms'') (\<lambda>t.
       Inr (StepStarted workflow_id step_id t))))"

definition parse_step_completed :: "'j json_api \<Rightarrow> (string \<rightharpoonup> 'j) \<Rightarrow> Error + 'j EventPayload" where
  "parse_step_completed json obj =
     and_then (require_string_field json obj ''workflow_id'') (\<lambda>workflow_id.
     and_then (require_string json obj ''step_id'') (\<lambda>step_id.
     and_then (require_u64 json obj ''completed_at_ms'') (\<lambda>t.
     and_then (require_u32_cast json obj ''attempt'') (\<lambda>attempt.
     and_then (require_u64 json obj ''fence'') (\<lambda>fence.
       Inr (StepCompleted workflow_id step_id t attempt fence
              (value_or_null json obj ''routing_projection'')
              (optional_string json obj ''output_ref'') (optional_string json obj ''output_hash'')
              (StepOutput_from json (value_or_null json obj ''output'')))))))) "

definition parse_step_failed :: "'j json_api \<Rightarrow> (string \<rightharpoonup> 'j) \<Rightarrow> Error + 'j EventPayload" where
  "parse_step_failed json obj =
     and_then (require_string_field json obj ''workflow_id'') (\<lambda>workflow_id.
     and_then (require_string json obj ''step_id'') (\<lambda>step_id.
     and_then (require_string json obj ''failure_reason'') (\<lambda>reason.
     and_then (require_u32_cast json obj ''attempt'') (\<lambda>attempt.
     and_then (require_u64 json obj ''fence'') (\<lambda>fence.
       Inr (StepFailed workflow_id step_id reason attempt fence))))))"

definition parse_effect_prepared :: "'j json_api \<Rightarrow> (string \<rightharpoonup> 'j) \<Rightarrow> Error + 'j EventPayload" where
  "parse_effect_prepared json obj =
     and_then (require_string_field json obj ''workflow_id'') (\<lambda>workflow_id.
     and_then (require_string json obj ''step_id'') (\<lambda>step_id.
     and_then (require_string json obj ''effect_id'') (\<lambda>effect_id.
     and_then (and_then (require_string json obj ''sink_kind'') SinkKind_from_str) (\<lambda>sink_kind.
     and_then (require_string json obj ''payload_hash'') (\<lambda>payload_hash.
     and_then (require_u64 json obj ''fence'') (\<lambda>fence.
       Inr (EffectPrepared workflow_id step_id effect_id sink_kind payload_hash fence)))))))"

definition parse_effect_committed :: "'j json_api \<Rightarrow> (string \<rightharpoonup> 'j) \<Rightarrow> Error + 'j EventPayload" where
  "parse_effect_committed json obj =
     and_then (require_string_field json obj ''workflow_id'') (\<lambda>workflow_id.
     and_then (require_string json obj ''step_id'') (\<lambda>step_id.
     and_then (require_string json obj ''effect_id'') (\<lambda>effect_id.
     and_then (require_u64 json obj ''fence'') (\<lambda>fence.
       Inr (EffectCommitted workflow_id step_id effect_id
              (value_or_null json obj ''external_receipt'') fence)))))"

text \<open>The variants that hold a workflow id and one or two plain fields.\<close>

definition id_and_string ::
  "'j json_api \<Rightarrow> (string \<rightharpoonup> 'j) \<Rightarrow> string \<Rightarrow> (string \<Rightarrow> string \<Rightarrow> 'j EventPayload)
     \<Rightarrow> Error + 'j EventPayload" where
  "id_and_string json obj field con =
     and_then (require_string_field json obj ''workflow_id'') (\<lambda>workflow_id.
     and_then (require_string json obj field) (\<lambda>s. Inr (con workflow_id s)))"

definition id_and_u64 ::
  "'j json_api \<Rightarrow> (string \<rightharpoonup> 'j) \<Rightarrow> string \<Rightarrow> (string \<Rightarrow> u64 \<Rightarrow> 'j EventPayload)
     \<Rightarrow> Error + 'j EventPayload" where
  "id_and_u64 json obj field con =
     and_then (require_string_field json obj ''workflow_id'') (\<lambda>workflow_id.
     and_then (require_u64 json obj field) (\<lambda>n. Inr (con workflow_id n)))"

definition id_string_u64 ::
  "'j json_api \<Rightarrow> (string \<rightharpoonup> 'j) \<Rightarrow> string \<Rightarrow> string \<Rightarrow> (string \<Rightarrow> string \<Rightarrow> u64 \<Rightarrow> 'j EventPayload)
     \<Rightarrow> Error + 'j EventPayload" where
  "id_string_u64 json obj field field' con =
     and_then (require_string_field json obj ''workflow_id'') (\<lambda>workflow_id.
     and_then (require_string json obj field) (\<lambda>s.
     and_then (require_u64 json obj field') (\<lambda>n. Inr (con workflow_id s n))))"

definition parse_timer_scheduled :: "'j json_api \<Rightarrow> (string \<rightharpoonup> 'j) \<Rightarrow> Error + 'j EventPayload" where
  "parse_timer_scheduled json obj =
     and_then (require_string_field json obj ''workflow_id'') (\<lambda>workflow_id.
     and_then (require_string json obj ''timer_id'') (\<lambda>timer_id.
     and_then (require_u64 json obj ''fire_at_ms'') (\<lambda>fire_at_ms.
     and_then (require_string json obj ''instance_id'') (\<lambda>instance_id.
       Inr (TimerScheduled workflow_id timer_id fire_at_ms instance_id)))))"

definition parse_signal_awaiting :: "'j json_api \<Rightarrow> (string \<rightharpoonup> 'j) \<Rightarrow> Error + 'j EventPayload" where
  "parse_signal_awaiting json obj =
     and_then (require_string_field json obj ''workflow_id'') (\<lambda>workflow_id.
     and_then (require_string json obj ''signal_name'') (\<lambda>signal_name.
     and_then (require_string json obj ''instance_id'') (\<lambda>instance_id.
     and_then (require_u64 json obj ''awaited_at_ms'') (\<lambda>awaited_at_ms.
       Inr (SignalAwaiting workflow_id signal_name instance_id awaited_at_ms)))))"

definition parse_continued_as_new :: "'j json_api \<Rightarrow> (string \<rightharpoonup> 'j) \<Rightarrow> Error + 'j EventPayload" where
  "parse_continued_as_new json obj =
     and_then (require_string_field json obj ''workflow_id'') (\<lambda>workflow_id.
     and_then (require_string json obj ''lineage_id'') (\<lambda>lineage_id.
     and_then (require_u64 json obj ''old_epoch'') (\<lambda>old_epoch.
     and_then (require_u64 json obj ''new_epoch'') (\<lambda>new_epoch.
       Inr (ContinuedAsNew workflow_id lineage_id old_epoch new_epoch)))))"

definition parse_workflow_quarantined ::
  "'j json_api \<Rightarrow> (string \<rightharpoonup> 'j) \<Rightarrow> Error + 'j EventPayload" where
  "parse_workflow_quarantined json obj =
     and_then (require_string_field json obj ''workflow_id'') (\<lambda>workflow_id.
     and_then (require_u8_cast json obj ''failure_count'') (\<lambda>failure_count.
     and_then (require_u64 json obj ''failure_window_seconds'') (\<lambda>window.
       Inr (WorkflowQuarantined workflow_id failure_count window))))"

definition parse_payload ::
  "'j json_api \<Rightarrow> (ParseError \<Rightarrow> string) \<Rightarrow> (string \<rightharpoonup> 'j) \<Rightarrow> string \<Rightarrow> Error + 'j EventPayload" where
  "parse_payload json pet obj ty =
     (if ty = ''WorkflowStarted'' then parse_workflow_started json pet obj
      else if ty = ''WorkflowCompleted'' then id_and_u64 json obj ''completion_time_ms'' WorkflowCompleted
      else if ty = ''WorkflowFailed'' then id_and_string json obj ''failure_reason'' WorkflowFailed
      else if ty = ''WorkflowCancelled'' then id_and_string json obj ''cancelled_by'' WorkflowCancelled
      else if ty = ''StepScheduled'' then parse_step_scheduled json obj
      else if ty = ''StepStarted'' then parse_step_started json obj
      else if ty = ''StepCompleted'' then parse_step_completed json obj
      else if ty = ''StepFailed'' then parse_step_failed json obj
      else if ty = ''EffectPrepared'' then parse_effect_prepared json obj
      else if ty = ''EffectCommitted'' then parse_effect_committed json obj
      else if ty = ''TimerSet'' then id_string_u64 json obj ''timer_id'' ''fire_at_ms'' TimerSet
      else if ty = ''TimerScheduled'' then parse_timer_scheduled json obj
      else if ty = ''TimerFired'' then id_string_u64 json obj ''timer_id'' ''fired_at_ms'' TimerFired
      else if ty = ''CancelRequested'' then id_and_string json obj ''requested_by'' CancelRequested
      else if ty = ''SignalAwaiting'' then parse_signal_awaiting json obj
      else if ty = ''InstanceResumed'' then id_and_u64 json obj ''resumed_at_ms'' InstanceResumed
      else if ty = ''ContinuedAsNew'' then parse_continued_as_new json obj
      else if ty = ''WorkflowQuarantined'' then parse_workflow_quarantined json obj
      else Inl (UnknownPayloadType ty))"

definition try_from_json ::
  "'j json_api \<Rightarrow> (ParseError \<Rightarrow> string) \<Rightarrow> 'j \<Rightarrow> Error + 'j EventPayload" where
  "try_from_json json parse_error_text payload_json =
     and_then (ok_or InvalidPayloadFormat (as_object json payload_json)) (\<lambda>obj.
     and_then (require_string json obj ''type'') (\<lambda>payload_type.
       let payload_version_u64 = optional_u64 json obj ''version'' 0 in
       if 256 \<le> unat payload_version_u64
       then Inl (InvalidPayloadField ''version exceeds maximum supported value'')
       else
         let payload_version = word_of_nat (unat payload_version_u64) in
         if MAX_SUPPORTED_VERSION < payload_version
         then Inl (UnsupportedPayloadVersion payload_version)
         else parse_payload json parse_error_text obj payload_type))"

definition is_version_supported :: "u8 \<Rightarrow> bool" where
  "is_version_supported version = (version \<le> MAX_SUPPORTED_VERSION)"

section \<open>Envelopes\<close>

record 'j EventMetadata =
  em_command_metadata :: "CommandMetadata option"
  em_annotations :: "string \<rightharpoonup> 'j"

definition EventMetadata_default :: "'j EventMetadata" where
  "EventMetadata_default = \<lparr>em_command_metadata = None, em_annotations = Map.empty\<rparr>"

text \<open>\<open>str::find\<close> of a character, and the quoted name in the text of a serde error.\<close>

fun find_char :: "char \<Rightarrow> string \<Rightarrow> nat option" where
  "find_char c [] = None"
| "find_char c (d # ds) = (if d = c then Some 0 else map_option Suc (find_char c ds))"

definition metadata_error :: "string \<Rightarrow> Error" where
  "metadata_error err_str =
     (if contains_str ''unknown variant'' err_str
      then (case find_char (CHR 0x60) err_str of
              Some start \<Rightarrow>
                (case find_char (CHR 0x60) (drop (start + 1) err_str) of
                   Some len \<Rightarrow> InvalidIssuer (take len (drop (start + 1) err_str))
                 | None \<Rightarrow> InvalidCommandMetadata)
            | None \<Rightarrow> InvalidCommandMetadata)
      else InvalidCommandMetadata)"

definition EventMetadata_from_json ::
  "('j \<Rightarrow> string + 'j EventMetadata) \<Rightarrow> 'j \<Rightarrow> Error + 'j EventMetadata" where
  "EventMetadata_from_json metadata_from_value value = map_err metadata_error (metadata_from_value value)"

record 'j EventEnvelope =
  ee_schema_version :: u8
  ee_instance_id :: string
  ee_sequence :: u64
  ee_timestamp_ms :: u64
  ee_payload :: 'j
  ee_metadata :: "'j EventMetadata"

definition event_string :: "'j json_api \<Rightarrow> (string \<rightharpoonup> 'j) \<Rightarrow> string \<Rightarrow> Error + string" where
  "event_string json obj field =
     and_then (ok_or (Ev_MissingEnvelopeField field) (obj field)) (\<lambda>v.
       ok_or (Ev_InvalidEnvelopeField (field @ '' must be a string'')) (as_str json v))"

definition event_u64 :: "'j json_api \<Rightarrow> (string \<rightharpoonup> 'j) \<Rightarrow> string \<Rightarrow> Error + u64" where
  "event_u64 json obj field =
     and_then (ok_or (Ev_MissingEnvelopeField field) (obj field)) (\<lambda>v.
       ok_or (Ev_InvalidEnvelopeField (field @ '' must be an integer'')) (as_u64 json v))"

definition event_from_str ::
  "'j json_api \<Rightarrow> (string \<Rightarrow> 'j option) \<Rightarrow> ('j \<Rightarrow> string + 'j EventMetadata) \<Rightarrow> string
     \<Rightarrow> Error + 'j EventEnvelope" where
  "event_from_str json json_from_str metadata_from_value input =
     and_then (ok_or Ev_InvalidEnvelopeFormat (json_from_str input)) (\<lambda>value.
     and_then (ok_or Ev_InvalidEnvelopeFormat (as_object json value)) (\<lambda>obj.
     and_then (event_u64 json obj ''version'') (\<lambda>version_u64.
     and_then (if unat version_u64 < 256 then Inr (word_of_nat (unat version_u64) :: u8)
               else Inl (Ev_InvalidEnvelopeField ''version exceeds maximum supported value'')) (\<lambda>version.
     and_then (event_string json obj ''instance_id'') (\<lambda>instance_id.
     and_then (event_u64 json obj ''sequence'') (\<lambda>sequence.
     and_then (event_u64 json obj ''timestamp_ms'') (\<lambda>timestamp_ms.
     and_then (ok_or (Ev_MissingEnvelopeField ''payload'') (obj ''payload'')) (\<lambda>payload.
     and_then (ok_or (Ev_InvalidEnvelopeField ''payload'') (as_object json payload)) (\<lambda>_.
     and_then (case obj ''metadata'' of
                 Some v \<Rightarrow>
                   and_then (ok_or (Ev_InvalidEnvelopeField ''metadata must be an object'') (as_object json v))
                     (\<lambda>_. EventMetadata_from_json metadata_from_value v)
               | None \<Rightarrow> Inr EventMetadata_default) (\<lambda>metadata.
       if instance_id = [] then Inl (Ev_InvalidEnvelopeField ''instance_id cannot be empty'')
       else if sequence = 0 then Inl (Ev_InvalidEnvelopeField ''sequence must be >= 1'')
       else if MAX_SUPPORTED_VERSION < version then Inl (Ev_UnsupportedEnvelopeVersion version)
       else Inr \<lparr>ee_schema_version = version, ee_instance_id = instance_id, ee_sequence = sequence,
                 ee_timestamp_ms = timestamp_ms, ee_payload = payload, ee_metadata = metadata\<rparr>))))))))))"

definition event_from_bytes ::
  "'j json_api \<Rightarrow> (string \<Rightarrow> 'j option) \<Rightarrow> ('j \<Rightarrow> string + 'j EventMetadata) \<Rightarrow> bytes
     \<Rightarrow> Error + 'j EventEnvelope" where
  "event_from_bytes json json_from_str metadata_from_value input =
     and_then (map_err (\<lambda>_. Ev_InvalidInput) (from_utf8 input))
       (event_from_str json json_from_str metadata_from_value)"

definition event_is_supported :: "'j EventEnvelope \<Rightarrow> bool" where
  "event_is_supported envelope = (ee_schema_version envelope \<le> MAX_SUPPORTED_VERSION)"

definition decode_event ::
  "'j json_api \<Rightarrow> (string \<Rightarrow> 'j option) \<Rightarrow> ('j \<Rightarrow> string + 'j EventMetadata) \<Rightarrow> (ParseError \<Rightarrow> string)
     \<Rightarrow> bytes \<Rightarrow> Error + ('j EventEnvelope \<times> 'j EventPayload)" where
  "decode_event json json_from_str metadata_from_value parse_error_text input =
     (case event_from_bytes json json_from_str metadata_from_value input of
        Inl (Ev_UnsupportedEnvelopeVersion _) \<Rightarrow> Inl PayloadDecodeSkipped
      | Inl e \<Rightarrow> Inl (Ev_EnvelopeDecodeFailed e)
      | Inr envelope \<Rightarrow>
          if \<not> event_is_supported envelope then Inl PayloadDecodeSkipped
          else and_then (map_err PayloadDecodeFailed (try_from_json json parse_error_text (ee_payload envelope)))
                 (\<lambda>payload. Inr (envelope, payload)))"

section \<open>What decoding guarantees\<close>

definition valid_envelope :: "'j json_api \<Rightarrow> 'j EventEnvelope \<Rightarrow> bool" where
  "valid_envelope json e =
     (ee_schema_version e \<le> 1 \<and> ee_instance_id e \<noteq> [] \<and> ee_sequence e \<noteq> 0
      \<and> as_object json (ee_payload e) \<noteq> None)"

lemma event_from_str_valid:
  "event_from_str json jfs mfv input = Inr e \<Longrightarrow> valid_envelope json e"
  by (auto simp: event_from_str_def valid_envelope_def MAX_SUPPORTED_VERSION_def not_less split: if_splits)

text \<open>The workflow a payload belongs to, and the attempt it records.\<close>

fun payload_workflow_id :: "'j EventPayload \<Rightarrow> string" where
  "payload_workflow_id (WorkflowStarted w a b c d) = w"
| "payload_workflow_id (WorkflowCompleted w a) = w"
| "payload_workflow_id (WorkflowFailed w a) = w"
| "payload_workflow_id (WorkflowCancelled w a) = w"
| "payload_workflow_id (StepScheduled w a b c d) = w"
| "payload_workflow_id (StepStarted w a b) = w"
| "payload_workflow_id (StepCompleted w a b c d e f g h) = w"
| "payload_workflow_id (StepFailed w a b c d) = w"
| "payload_workflow_id (EffectPrepared w a b c d e) = w"
| "payload_workflow_id (EffectCommitted w a b c d) = w"
| "payload_workflow_id (TimerSet w a b) = w"
| "payload_workflow_id (TimerScheduled w a b c) = w"
| "payload_workflow_id (TimerFired w a b) = w"
| "payload_workflow_id (CancelRequested w a) = w"
| "payload_workflow_id (SignalAwaiting w a b c) = w"
| "payload_workflow_id (InstanceResumed w a) = w"
| "payload_workflow_id (ContinuedAsNew w a b c) = w"
| "payload_workflow_id (WorkflowQuarantined w a b) = w"

fun payload_attempt :: "'j EventPayload \<Rightarrow> u32 option" where
  "payload_attempt (StepScheduled w s attempt f x) = Some attempt"
| "payload_attempt (StepCompleted w s t attempt f a b c d) = Some attempt"
| "payload_attempt (StepFailed w s r attempt f) = Some attempt"
| "payload_attempt _ = None"

named_theorems payload_parsers

lemmas [payload_parsers] =
  parse_workflow_started_def parse_step_scheduled_def parse_step_started_def parse_step_completed_def
  parse_step_failed_def parse_effect_prepared_def parse_effect_committed_def id_and_string_def
  id_and_u64_def id_string_u64_def parse_timer_scheduled_def parse_signal_awaiting_def
  parse_continued_as_new_def parse_workflow_quarantined_def

lemma parse_payload_fields:
  assumes "parse_payload json pet obj ty = Inr p"
  shows "require_string_field json obj ''workflow_id'' = Inr (payload_workflow_id p)
     \<and> (\<forall>a. payload_attempt p = Some a \<longrightarrow> require_u32_cast json obj ''attempt'' = Inr a)"
  using assms unfolding parse_payload_def
  by (simp only: split: if_splits) (auto simp: payload_parsers)

lemma require_u32_cast_Inr:
  assumes "require_u32_cast json obj field = Inr a"
  shows "\<exists>n. require_u64 json obj field = Inr n \<and> unat a = unat n mod 2 ^ 32"
proof -
  obtain n where n: "require_u64 json obj field = Inr n" "a = word_of_nat (unat n)"
    using assms unfolding require_u32_cast_def by (simp only: and_then_Inr_iff sum.inject) blast
  have "unat (word_of_nat (unat n) :: u32) = unat n mod 2 ^ LENGTH(32)" by (rule unat_of_nat)
  then show ?thesis using n by simp
qed

text \<open>
  Decoding an event is sound and its failures are classified.  A decoded
  event has a supported envelope version, a non-empty instance, a sequence number
  from 1, and a payload read from the envelope's own payload object, whose
  workflow identifier is that object's field and whose attempt is that object's
  field modulo 2 to the 32.  A refused input is reported as skipped, as an
  envelope failure or as a payload failure; skipped means precisely that the
  envelope is intact but for its version.
\<close>

theorem decode_event_sound:
  "(case decode_event json jfs mfv pet input of
      Inr (e, p) \<Rightarrow>
        valid_envelope json e \<and> try_from_json json pet (ee_payload e) = Inr p
        \<and> (\<exists>obj. as_object json (ee_payload e) = Some obj
             \<and> require_string_field json obj ''workflow_id'' = Inr (payload_workflow_id p)
             \<and> (\<forall>a. payload_attempt p = Some a \<longrightarrow>
                  (\<exists>n. require_u64 json obj ''attempt'' = Inr n \<and> unat a = unat n mod 2 ^ 32)))
    | Inl PayloadDecodeSkipped \<Rightarrow>
        (\<exists>v. event_from_bytes json jfs mfv input = Inl (Ev_UnsupportedEnvelopeVersion v))
    | Inl (Ev_EnvelopeDecodeFailed x) \<Rightarrow> event_from_bytes json jfs mfv input = Inl x
    | Inl (PayloadDecodeFailed x) \<Rightarrow>
        (\<exists>e. event_from_bytes json jfs mfv input = Inr e \<and> try_from_json json pet (ee_payload e) = Inl x)
    | Inl _ \<Rightarrow> False)"
proof (cases "event_from_bytes json jfs mfv input")
  case (Inl x)
  then show ?thesis by (cases x) (simp_all add: decode_event_def)
next
  case (Inr e)
  then have v: "valid_envelope json e"
    by (auto simp: event_from_bytes_def dest: event_from_str_valid)
  then have s: "event_is_supported e"
    by (simp add: valid_envelope_def event_is_supported_def MAX_SUPPORTED_VERSION_def)
  show ?thesis
  proof (cases "try_from_json json pet (ee_payload e)")
    case (Inl x)
    then show ?thesis using Inr s by (simp add: decode_event_def)
  next
    case p: (Inr p)
    then obtain obj ty where "as_object json (ee_payload e) = Some obj" "parse_payload json pet obj ty = Inr p"
      by (auto simp: try_from_json_def Let_def split: if_splits)
    with parse_payload_fields [OF this(2)] show ?thesis using Inr s v p
      by (auto simp: decode_event_def dest!: require_u32_cast_Inr)
  qed
qed

text \<open>A toy JSON library in which every field holds its own name, the number 1 or a type name.\<close>

definition event_json :: "string json_api" where
  "event_json = \<lparr>json_variant_of = (\<lambda>_. JString), as_object = (\<lambda>_. Some Some),
     as_str = (\<lambda>v. Some (if v = ''type'' then ''StepScheduled'' else v)), as_u64 = (\<lambda>_. Some 1),
     null_value = []\<rparr>"

abbreviation demo_decode :: "Error + (string EventEnvelope \<times> string EventPayload)" where
  "demo_decode \<equiv> decode_event event_json Some (\<lambda>_. Inr EventMetadata_default) (\<lambda>_. []) (as_bytes ''x'')"

lemma demo_decode_value:
  "demo_decode = Inr (\<lparr>ee_schema_version = 1, ee_instance_id = ''instance_id'', ee_sequence = 1,
       ee_timestamp_ms = 1, ee_payload = ''payload'', ee_metadata = EventMetadata_default\<rparr>,
     StepScheduled ''workflow_id'' ''step_id'' 1 1 ''execution_id'')"
proof -
  have "from_utf8 (as_bytes ''x'') = Inr ''x''" by (rule from_utf8_ascii) (auto simp: code_def)
  then have e: "event_from_bytes event_json Some (\<lambda>_. Inr EventMetadata_default) (as_bytes ''x'') =
      Inr \<lparr>ee_schema_version = 1, ee_instance_id = ''instance_id'', ee_sequence = 1,
       ee_timestamp_ms = 1, ee_payload = ''payload'', ee_metadata = EventMetadata_default\<rparr>"
    by (simp add: event_from_bytes_def event_from_str_def event_u64_def event_string_def event_json_def
        EventMetadata_from_json_def MAX_SUPPORTED_VERSION_def)
  have p: "try_from_json event_json (\<lambda>_. []) ''payload'' =
      Inr (StepScheduled ''workflow_id'' ''step_id'' 1 1 ''execution_id'')"
    by (simp add: try_from_json_def require_string_def optional_u64_def event_json_def
        MAX_SUPPORTED_VERSION_def parse_payload_def parse_step_scheduled_def require_string_field_def
        require_u32_cast_def require_u64_def)
  show ?thesis unfolding decode_event_def e by (simp add: event_is_supported_def MAX_SUPPORTED_VERSION_def p)
qed

theorem decode_event_sound_witness:
  "\<exists>e p. demo_decode = Inr (e, p) \<and> valid_envelope event_json e \<and> payload_attempt p = Some 1"
  using decode_event_sound [where json = event_json and jfs = Some and pet = "\<lambda>_. []"
      and mfv = "\<lambda>_. Inr EventMetadata_default" and input = "as_bytes ''x''"]
  unfolding demo_decode_value by simp

end
