(* ===== verification/Upcasters.thy ===== *)
theory Upcasters
  imports Events
begin

text \<open>
  Schema evolution of events: the version registry of vo-types
  (src/events/upcaster.rs) and the upcaster registry of vo-core (src/upcaster).
  An upcaster is a \<open>dyn Upcaster\<close> in the source, here the record of its three
  methods.  \<open>upcast_error_text\<close> is the generated \<open>Display\<close> of the error an
  upcaster returns.
\<close>

section \<open>Upcasters\<close>

datatype TypesUpcasterError =
    T_NoUpcasterRegistered u8 u8
  | T_UpcastFailed string
  | T_InvalidVersion u8
  | T_ChainExhausted
  | T_InvalidTargetVersion u8
  | T_DuplicateRegistration u8

record 'j Upcaster =
  up_source_version :: u8
  up_target_version :: u8
  up_upcast :: "'j \<Rightarrow> TypesUpcasterError + 'j"

section \<open>The version registry\<close>

type_synonym 'j VersionRegistry = "u8 \<times> u8 \<rightharpoonup> 'j Upcaster"

definition VersionRegistry_new :: "'j VersionRegistry" where
  "VersionRegistry_new = Map.empty"

definition version_register :: "'j VersionRegistry \<Rightarrow> 'j Upcaster \<Rightarrow> 'j VersionRegistry" where
  "version_register registry upcaster =
     registry((up_source_version upcaster, up_target_version upcaster) \<mapsto> upcaster)"

definition version_get :: "'j VersionRegistry \<Rightarrow> u8 \<Rightarrow> u8 \<Rightarrow> 'j Upcaster option" where
  "version_get registry from_v to_v = registry (from_v, to_v)"

function upcast_loop ::
  "(TypesUpcasterError \<Rightarrow> string) \<Rightarrow> 'j VersionRegistry \<Rightarrow> 'j \<Rightarrow> u8 \<Rightarrow> u8 \<Rightarrow> Error + 'j" where
  "upcast_loop uet registry payload from_v to_v =
     (if from_v < to_v then
        (case version_get registry from_v (from_v + 1) of
           None \<Rightarrow> Inl (UpcasterNotFound from_v (from_v + 1))
         | Some upcaster \<Rightarrow>
             (case up_upcast upcaster payload of
                Inl e \<Rightarrow> Inl (UpcastFailed (uet e))
              | Inr payload' \<Rightarrow> upcast_loop uet registry payload' (from_v + 1) to_v))
      else Inr payload)"
  by pat_completeness auto

termination
proof (relation "measure (\<lambda>(uet, registry, payload, from_v, to_v). unat to_v - unat from_v)", goal_cases)
  case (2 uet registry payload from_v to_v upcaster payload')
  then show ?case by (simp add: unat_successor word_less_nat_alt)
qed simp

declare upcast_loop.simps [simp del]

definition upcast_payload ::
  "(TypesUpcasterError \<Rightarrow> string) \<Rightarrow> 'j VersionRegistry \<Rightarrow> 'j \<Rightarrow> u8 \<Rightarrow> u8 \<Rightarrow> Error + 'j" where
  "upcast_payload uet registry payload from_version to_version =
     (if from_version = to_version then Inr payload
      else if to_version < from_version then Inl InvalidSchemaVersionFormat
      else upcast_loop uet registry payload from_version to_version)"

definition envelope_upcast_payload ::
  "(TypesUpcasterError \<Rightarrow> string) \<Rightarrow> 'j EventEnvelope \<Rightarrow> 'j VersionRegistry \<Rightarrow> u8 \<Rightarrow> Error + 'j" where
  "envelope_upcast_payload uet envelope registry target_version =
     (if MAX_SUPPORTED_VERSION < ee_schema_version envelope
      then Inl (Ev_UnsupportedEnvelopeVersion (ee_schema_version envelope))
      else if MAX_SUPPORTED_VERSION < target_version
      then Inl (UnsupportedSchemaVersion (word_of_nat (unat target_version)))
      else if ee_schema_version envelope = target_version then Inr (ee_payload envelope)
      else upcast_payload uet registry (ee_payload envelope) (ee_schema_version envelope) target_version)"

section \<open>The upcaster registry\<close>

datatype UpcasterError =
    NoUpcasterRegistered u8
  | DuplicateRegistration u8
  | UpcastingFailed string
  | InvalidTargetVersion u8
  | CircularChain u8
  | InvalidUpcastedEnvelope Error

record 'j UpcasterRegistry =
  ur_upcasters :: "(u8 \<rightharpoonup> 'j Upcaster) mutex"
  ur_max_version :: u8

definition UpcasterRegistry_new :: "u8 \<Rightarrow> 'j UpcasterRegistry" where
  "UpcasterRegistry_new max_version =
     \<lparr>ur_upcasters = mutex_new Map.empty, ur_max_version = max_version\<rparr>"

definition register :: "'j UpcasterRegistry \<Rightarrow> 'j Upcaster \<Rightarrow> (UpcasterError + unit) \<times> 'j UpcasterRegistry" where
  "register reg upcaster =
     (if ur_max_version reg < up_target_version upcaster
      then (Inl (InvalidTargetVersion (up_target_version upcaster)), reg)
      else case with_lock (ur_upcasters reg) (UpcastingFailed ''lock poisoned'') (\<lambda>upcasters.
             if upcasters (up_source_version upcaster) \<noteq> None
             then (Inl (DuplicateRegistration (up_source_version upcaster)), upcasters)
             else (Inr (), upcasters(up_source_version upcaster \<mapsto> upcaster)))
           of (r, m) \<Rightarrow> (r, reg\<lparr>ur_upcasters := m\<rparr>))"

definition check_circular_chain :: "u8 \<Rightarrow> (u8 \<rightharpoonup> bool) \<Rightarrow> UpcasterError + unit" where
  "check_circular_chain version visited =
     (if visited version = Some True then Inl (CircularChain version) else Inr ())"

definition get_upcaster_for_version ::
  "(u8 \<rightharpoonup> 'j Upcaster) \<Rightarrow> u8 \<Rightarrow> UpcasterError + 'j Upcaster" where
  "get_upcaster_for_version upcasters version =
     ok_or (NoUpcasterRegistered version) (upcasters version)"

lemma and_then_cong [fundef_cong]:
  "r = r' \<Longrightarrow> (\<And>a. r' = Inr a \<Longrightarrow> f a = g a) \<Longrightarrow> and_then r f = and_then r' g"
  by (cases r') simp_all

text \<open>The loop of \<open>build_upcast_chain\<close>; it ends because every turn visits a new version.\<close>

function build_chain_loop ::
  "(u8 \<rightharpoonup> 'j Upcaster) \<Rightarrow> u8 \<Rightarrow> (u8 \<times> 'j Upcaster) list \<Rightarrow> (u8 \<rightharpoonup> bool) \<Rightarrow> u8
     \<Rightarrow> UpcasterError + (u8 \<times> 'j Upcaster) list" where
  "build_chain_loop upcasters max_version chain visited current_version =
     (if current_version < max_version then
        and_then (check_circular_chain current_version visited) (\<lambda>_.
        and_then (get_upcaster_for_version upcasters current_version) (\<lambda>upcaster.
          build_chain_loop upcasters max_version (chain @ [(current_version, upcaster)])
            (visited(current_version \<mapsto> True)) (up_target_version upcaster)))
      else Inr chain)"
  by pat_completeness auto

termination
proof (relation "measure (\<lambda>(ups, mx, chain, visited, cur). card {v. visited v \<noteq> Some True})", goal_cases)
  case (2 upcasters max_version chain visited cur x upcaster)
  then have "cur \<in> {v. visited v \<noteq> Some True}" by (simp add: check_circular_chain_def split: if_splits)
  moreover have "{v. (visited(cur \<mapsto> True)) v \<noteq> Some True} = {v. visited v \<noteq> Some True} - {cur}" by auto
  ultimately have "card {v. (visited(cur \<mapsto> True)) v \<noteq> Some True} < card {v. visited v \<noteq> Some True}"
    by (metis card_Diff1_less finite)
  then show ?case by simp
qed simp

declare build_chain_loop.simps [simp del]

definition build_upcast_chain ::
  "(u8 \<rightharpoonup> 'j Upcaster) \<Rightarrow> u8 \<Rightarrow> u8 \<Rightarrow> UpcasterError + (u8 \<times> 'j Upcaster) list" where
  "build_upcast_chain upcasters start_version max_version =
     build_chain_loop upcasters max_version [] Map.empty start_version"

definition apply_single_upcast ::
  "(TypesUpcasterError \<Rightarrow> string) \<Rightarrow> 'j Upcaster \<Rightarrow> 'j \<Rightarrow> UpcasterError + (u8 \<times> 'j)" where
  "apply_single_upcast uet upcaster current_payload =
     and_then (map_err (\<lambda>e. UpcastingFailed (uet e)) (up_upcast upcaster current_payload))
       (\<lambda>new_payload. Inr (up_target_version upcaster, new_payload))"

fun apply_chain_loop ::
  "(TypesUpcasterError \<Rightarrow> string) \<Rightarrow> u8 \<Rightarrow> 'j \<Rightarrow> (u8 \<times> 'j Upcaster) list \<Rightarrow> UpcasterError + (u8 \<times> 'j)" where
  "apply_chain_loop uet version payload [] = Inr (version, payload)"
| "apply_chain_loop uet version payload ((v, upcaster) # chain) =
     and_then (apply_single_upcast uet upcaster payload) (\<lambda>(version', payload').
       apply_chain_loop uet version' payload' chain)"

definition apply_upcast_chain ::
  "(TypesUpcasterError \<Rightarrow> string) \<Rightarrow> 'j EventEnvelope \<Rightarrow> (u8 \<times> 'j Upcaster) list
     \<Rightarrow> UpcasterError + 'j EventEnvelope" where
  "apply_upcast_chain uet envelope chain =
     and_then (apply_chain_loop uet (ee_schema_version envelope) (ee_payload envelope) chain)
       (\<lambda>(version, payload). Inr (envelope\<lparr>ee_schema_version := version, ee_payload := payload\<rparr>))"

definition upcast_envelope ::
  "(TypesUpcasterError \<Rightarrow> string) \<Rightarrow> 'j UpcasterRegistry \<Rightarrow> 'j EventEnvelope
     \<Rightarrow> UpcasterError + 'j EventEnvelope" where
  "upcast_envelope uet reg envelope =
     (if ur_max_version reg \<le> ee_schema_version envelope then Inr envelope
      else if mx_poisoned (ur_upcasters reg) then Inl (UpcastingFailed ''lock poisoned'')
      else and_then (build_upcast_chain (mx_value (ur_upcasters reg)) (ee_schema_version envelope)
                       (ur_max_version reg))
             (apply_upcast_chain uet envelope))"

section \<open>Chains\<close>

text \<open>
  A chain is sound when each link starts where the previous one ends, is the
  registered upcaster of its version, and the last one ends at the maximum.
\<close>

fun chain_ok :: "(u8 \<rightharpoonup> 'j Upcaster) \<Rightarrow> u8 \<Rightarrow> u8 \<Rightarrow> (u8 \<times> 'j Upcaster) list \<Rightarrow> bool" where
  "chain_ok ups mx cur [] = (mx \<le> cur)"
| "chain_ok ups mx cur ((v, u) # chain) =
     (cur < mx \<and> v = cur \<and> ups cur = Some u \<and> chain_ok ups mx (up_target_version u) chain)"

lemma build_chain_loop_ok:
  assumes "build_chain_loop ups mx chain visited cur = Inr ch"
  shows "\<exists>ext. ch = chain @ ext \<and> chain_ok ups mx cur ext"
  using assms
proof (induction ups mx chain visited cur rule: build_chain_loop.induct)
  case (1 ups mx chain visited cur)
  show ?case
  proof (cases "cur < mx")
    case True
    then obtain u where u: "check_circular_chain cur visited = Inr ()" "ups cur = Some u"
      "build_chain_loop ups mx (chain @ [(cur, u)]) (visited(cur \<mapsto> True)) (up_target_version u) = Inr ch"
      using 1(2) by (subst (asm) build_chain_loop.simps) (auto simp: get_upcaster_for_version_def)
    then have "\<exists>ext. ch = (chain @ [(cur, u)]) @ ext \<and> chain_ok ups mx (up_target_version u) ext"
      using 1(1) [OF True u(1) _ u(3)] by (simp add: get_upcaster_for_version_def)
    then obtain ext where "ch = chain @ ((cur, u) # ext)" "chain_ok ups mx (up_target_version u) ext" by auto
    then show ?thesis using True u(2) by (intro exI [of _ "(cur, u) # ext"]) simp
  next
    case False
    then have "ch = chain" using 1(2) by (simp add: build_chain_loop.simps)
    then show ?thesis using False by (intro exI [of _ "[]"]) (simp add: not_less)
  qed
qed

text \<open>The version after a sound chain is the maximum, when no target exceeds it.\<close>

lemma apply_chain_loop_version:
  assumes "chain_ok ups mx cur ch" and "\<forall>v u. ups v = Some u \<longrightarrow> up_target_version u \<le> mx"
    and "cur \<le> mx" and "apply_chain_loop uet cur payload ch = Inr (version, payload')"
  shows "version = mx"
  using assms
proof (induction ups mx cur ch arbitrary: payload rule: chain_ok.induct)
  case (2 ups mx cur v u chain)
  then show ?case by (auto simp: apply_single_upcast_def)
qed simp

definition registry_ok :: "'j UpcasterRegistry \<Rightarrow> bool" where
  "registry_ok reg =
     (\<forall>v u. mx_value (ur_upcasters reg) v = Some u \<longrightarrow>
        up_source_version u = v \<and> up_target_version u \<le> ur_max_version reg)"

lemma registry_ok_new: "registry_ok (UpcasterRegistry_new mx)"
  by (simp add: registry_ok_def UpcasterRegistry_new_def)

lemma registry_ok_register: "registry_ok reg \<Longrightarrow> registry_ok (snd (register reg u))"
  by (cases "mx_poisoned (ur_upcasters reg)") (auto simp: registry_ok_def register_def not_less)

definition register_all :: "'j UpcasterRegistry \<Rightarrow> 'j Upcaster list \<Rightarrow> 'j UpcasterRegistry" where
  "register_all reg us = fold (\<lambda>u r. snd (register r u)) us reg"

lemma register_all_simps [simp]:
  "register_all reg [] = reg" "register_all reg (u # us) = register_all (snd (register reg u)) us"
  by (simp_all add: register_all_def)

lemma register_max_version: "ur_max_version (snd (register reg u)) = ur_max_version reg"
  by (simp add: register_def split: prod.splits)

lemma register_all_ok:
  "registry_ok reg \<Longrightarrow> registry_ok (register_all reg us) \<and> ur_max_version (register_all reg us) = ur_max_version reg"
  by (induction us arbitrary: reg) (simp_all add: registry_ok_register register_max_version)

text \<open>
  (C16) Upcasting always ends at the current schema.  Whatever upcasters were
  registered, in whatever order and with whatever targets, upcasting an envelope
  returns; when it succeeds, an envelope older than the registry's maximum comes
  back with exactly that version and with its instance, sequence number, time and
  metadata unchanged, and any other envelope comes back as it was.
\<close>

theorem upcast_reaches_maximum:
  assumes "upcast_envelope uet (register_all (UpcasterRegistry_new mx) us) envelope = Inr envelope'"
  shows "envelope' = envelope\<lparr>ee_schema_version := max mx (ee_schema_version envelope),
           ee_payload := ee_payload envelope'\<rparr>
     \<and> (mx \<le> ee_schema_version envelope \<longrightarrow> envelope' = envelope)"
proof -
  let ?reg = "register_all (UpcasterRegistry_new mx) us"
  have ok: "registry_ok ?reg" and max_v: "ur_max_version ?reg = mx"
    using register_all_ok [OF registry_ok_new, of mx us] by (simp_all add: UpcasterRegistry_new_def)
  show ?thesis
  proof (cases "mx \<le> ee_schema_version envelope")
    case True
    then show ?thesis using assms max_v by (simp add: upcast_envelope_def max_def)
  next
    case False
    then obtain ch version payload where
      ch: "build_upcast_chain (mx_value (ur_upcasters ?reg)) (ee_schema_version envelope) mx = Inr ch"
        "apply_chain_loop uet (ee_schema_version envelope) (ee_payload envelope) ch = Inr (version, payload)"
        "envelope' = envelope\<lparr>ee_schema_version := version, ee_payload := payload\<rparr>"
      using assms max_v by (auto simp: upcast_envelope_def apply_upcast_chain_def split: if_splits)
    have "chain_ok (mx_value (ur_upcasters ?reg)) mx (ee_schema_version envelope) ch"
      using build_chain_loop_ok [OF ch(1) [unfolded build_upcast_chain_def]] by simp
    then have "version = mx"
      by (rule apply_chain_loop_version [OF _ _ _ ch(2)])
        (use ok max_v False in \<open>auto simp: registry_ok_def\<close>)
    then show ?thesis using ch(3) False by (simp add: max_def)
  qed
qed

definition demo_upcaster :: "string Upcaster" where
  "demo_upcaster = \<lparr>up_source_version = 0, up_target_version = 1, up_upcast = (\<lambda>p. Inr (CHR ''v'' # p))\<rparr>"

definition demo_event :: "string EventEnvelope" where
  "demo_event = \<lparr>ee_schema_version = 0, ee_instance_id = ''i'', ee_sequence = 1, ee_timestamp_ms = 1,
     ee_payload = ''p'', ee_metadata = EventMetadata_default\<rparr>"

lemma demo_upcast:
  "upcast_envelope (\<lambda>_. []) (register_all (UpcasterRegistry_new 1) [demo_upcaster]) demo_event
     = Inr (demo_event\<lparr>ee_schema_version := 1, ee_payload := ''vp''\<rparr>)"
  by (simp add: upcast_envelope_def register_def UpcasterRegistry_new_def demo_upcaster_def demo_event_def
      build_upcast_chain_def build_chain_loop.simps check_circular_chain_def get_upcaster_for_version_def
      apply_upcast_chain_def apply_single_upcast_def)

theorem upcast_reaches_maximum_witness:
  "ee_schema_version (demo_event\<lparr>ee_schema_version := 1, ee_payload := ''vp''\<rparr>)
     = max 1 (ee_schema_version demo_event)"
  using arg_cong [OF conjunct1 [OF upcast_reaches_maximum [OF demo_upcast]], of ee_schema_version]
  by simp

end
