(* ===== verification/Replay.thy ===== *)
theory Replay
  imports Lifecycle Upcasters
begin

text \<open>
  The replay engine (vo-core/src/replay/engine.rs, types.rs), which rebuilds the
  lifecycle state of an instance from its events, and the recovery functions of
  the event sourcing engine on top of it (event_sourcing_engine), with the
  snapshot compatibility check.  The texts of the errors of the payload decoder,
  of the transition function and of the upcaster registry are arguments.
\<close>

section \<open>Results and errors\<close>

datatype ReplayErrorKind = Deterministic | Transient

record ReplayResult =
  rp_final_state :: "LifecycleState option"
  rp_events_applied :: nat
  rp_latest_fence :: "u64 option"

datatype ReplayError =
    InstanceMismatch string string
  | SequenceGap u64 u64 nat
  | SequenceDuplicate u64 nat nat
  | Replay_PayloadDecodeFailed u64 string
  | TransitionFailed u64 LifecycleState string
  | UnexpectedEventType string u64
  | Replay_UpcastingFailed u64 string
  | BlobPublicationFailed u64 string string

fun replay_error_kind :: "ReplayError \<Rightarrow> ReplayErrorKind" where
  "replay_error_kind (InstanceMismatch e a) = Deterministic"
| "replay_error_kind (SequenceGap e a i) = Deterministic"
| "replay_error_kind (SequenceDuplicate s i j) = Deterministic"
| "replay_error_kind (Replay_PayloadDecodeFailed s r) = Deterministic"
| "replay_error_kind (TransitionFailed s st r) = Deterministic"
| "replay_error_kind (UnexpectedEventType t s) = Deterministic"
| "replay_error_kind (Replay_UpcastingFailed s r) = Deterministic"
| "replay_error_kind (BlobPublicationFailed s i b) = Transient"

section \<open>Replay\<close>

fun check_instance_ids :: "string \<Rightarrow> 'j EventEnvelope list \<Rightarrow> ReplayError + unit" where
  "check_instance_ids expected [] = Inr ()"
| "check_instance_ids expected (event # events) =
     (if ee_instance_id event \<noteq> expected then Inl (InstanceMismatch expected (ee_instance_id event))
      else check_instance_ids expected events)"

text \<open>The loop over the events after the first: \<open>i\<close> is the index of the head.\<close>

fun check_sequences :: "nat \<Rightarrow> u64 \<Rightarrow> 'j EventEnvelope list \<Rightarrow> ReplayError + unit" where
  "check_sequences i expected_seq [] = Inr ()"
| "check_sequences i expected_seq (event # events) =
     (if ee_sequence event = expected_seq then Inl (SequenceDuplicate (ee_sequence event) (i - 1) i)
      else if ee_sequence event \<noteq> expected_seq + 1
      then Inl (SequenceGap (expected_seq + 1) (ee_sequence event) i)
      else check_sequences (i + 1) (ee_sequence event) events)"

fun payload_to_transition :: "'j EventPayload \<Rightarrow> u64 \<Rightarrow> ReplayError + TransitionEvent" where
  "payload_to_transition (WorkflowStarted w a b c d) seq = Inr AssignToNode"
| "payload_to_transition (EventPayload.StepScheduled w a b c d) seq = Inr TransitionEvent.StepScheduled"
| "payload_to_transition (StepStarted w a b) seq = Inr ExecuteStep"
| "payload_to_transition (StepCompleted w a b c d e f g h) seq = Inr CompleteStep"
| "payload_to_transition (StepFailed w a b c d) seq = Inr Fail"
| "payload_to_transition (TimerSet w a b) seq = Inr WaitForTimer"
| "payload_to_transition (TimerScheduled w a b c) seq = Inr WaitForTimer"
| "payload_to_transition (EventPayload.TimerFired w a b) seq = Inr TransitionEvent.TimerFired"
| "payload_to_transition (WorkflowCompleted w a) seq = Inr CompleteStep"
| "payload_to_transition (WorkflowFailed w a) seq = Inr Fail"
| "payload_to_transition (WorkflowQuarantined w a b) seq = Inr Fail"
| "payload_to_transition (WorkflowCancelled w a) seq = Inr Cancel"
| "payload_to_transition (CancelRequested w a) seq = Inr Cancel"
| "payload_to_transition (SignalAwaiting w a b c) seq = Inr WaitForTimer"
| "payload_to_transition (EventPayload.InstanceResumed w a) seq = Inr TransitionEvent.InstanceResumed"
| "payload_to_transition (ContinuedAsNew w a b c) seq = Inl (UnexpectedEventType ''ContinuedAsNew'' seq)"
| "payload_to_transition (EffectPrepared w a b c d e) seq = Inl (UnexpectedEventType ''EffectPrepared'' seq)"
| "payload_to_transition (EffectCommitted w a b c d) seq = Inl (UnexpectedEventType ''EffectCommitted'' seq)"

text \<open>The payloads the loop counts without applying them.\<close>

fun is_marker :: "'j EventPayload \<Rightarrow> bool" where
  "is_marker (ContinuedAsNew w a b c) = True"
| "is_marker (EffectPrepared w a b c d e) = True"
| "is_marker (EffectCommitted w a b c d) = True"
| "is_marker (WorkflowQuarantined w a b) = True"
| "is_marker _ = False"

fun note_fence :: "'j EventPayload \<Rightarrow> u64 option \<Rightarrow> u64 option" where
  "note_fence (EventPayload.StepScheduled w s attempt fence x) latest =
     (if (case latest of None \<Rightarrow> True | Some current \<Rightarrow> current < fence) then Some fence else latest)"
| "note_fence _ latest = latest"

definition stops_replay :: "LifecycleState \<Rightarrow> bool" where
  "stops_replay s = (s = Completed \<or> s = Cancelled)"

text \<open>
  The texts of three error types, the library of JSON values and the decoder's
  own texts: what the environment of the engine provides.
\<close>

record 'j replay_env =
  re_json :: "'j json_api"
  re_parse_error_text :: "ParseError \<Rightarrow> string"
  re_event_error_text :: "Error \<Rightarrow> string"
  re_transition_error_text :: "TransitionError \<Rightarrow> string"
  re_upcaster_error_text :: "UpcasterError \<Rightarrow> string"
  re_types_upcaster_error_text :: "TypesUpcasterError \<Rightarrow> string"

definition decode_payload :: "'j replay_env \<Rightarrow> 'j EventEnvelope \<Rightarrow> Error + 'j EventPayload" where
  "decode_payload env event = try_from_json (re_json env) (re_parse_error_text env) (ee_payload event)"

fun replay_loop ::
  "'j replay_env \<Rightarrow> LifecycleState option \<Rightarrow> nat \<Rightarrow> u64 option \<Rightarrow> 'j EventEnvelope list
     \<Rightarrow> ReplayError + ReplayResult" where
  "replay_loop env current_state events_applied latest_fence [] =
     Inr \<lparr>rp_final_state = current_state, rp_events_applied = events_applied,
          rp_latest_fence = latest_fence\<rparr>"
| "replay_loop env current_state events_applied latest_fence (event # events) =
     (case decode_payload env event of
        Inl e \<Rightarrow> Inl (Replay_PayloadDecodeFailed (ee_sequence event) (re_event_error_text env e))
      | Inr payload \<Rightarrow>
          if is_marker payload
          then replay_loop env current_state (events_applied + 1) latest_fence events
          else
            (let fence = note_fence payload latest_fence in
             case payload_to_transition payload (ee_sequence event) of
               Inl e \<Rightarrow> Inl e
             | Inr transition \<Rightarrow>
                 (let state_for_apply = (case current_state of None \<Rightarrow> Pending | Some s \<Rightarrow> s) in
                  case apply_transition state_for_apply transition of
                    Inr new_state \<Rightarrow>
                      if stops_replay new_state
                      then Inr \<lparr>rp_final_state = Some new_state, rp_events_applied = events_applied + 1,
                                rp_latest_fence = fence\<rparr>
                      else replay_loop env (Some new_state) (events_applied + 1) fence events
                  | Inl e \<Rightarrow> Inl (TransitionFailed (ee_sequence event) state_for_apply
                                     (re_transition_error_text env e)))))"

definition replay :: "'j replay_env \<Rightarrow> 'j EventEnvelope list \<Rightarrow> ReplayError + ReplayResult" where
  "replay env events =
     (case events of
        [] \<Rightarrow> Inr \<lparr>rp_final_state = None, rp_events_applied = 0, rp_latest_fence = None\<rparr>
      | first # rest \<Rightarrow>
          and_then (check_instance_ids (ee_instance_id first) rest) (\<lambda>_.
          and_then (check_sequences 1 (ee_sequence first) rest) (\<lambda>_.
            replay_loop env None 0 None events)))"

fun upcast_all ::
  "'j replay_env \<Rightarrow> 'j UpcasterRegistry \<Rightarrow> 'j EventEnvelope list \<Rightarrow> ReplayError + 'j EventEnvelope list" where
  "upcast_all env registry [] = Inr []"
| "upcast_all env registry (envelope # events) =
     and_then (map_err (\<lambda>e. Replay_UpcastingFailed (ee_sequence envelope) (re_upcaster_error_text env e))
                 (upcast_envelope (re_types_upcaster_error_text env) registry envelope)) (\<lambda>envelope'.
       and_then (upcast_all env registry events) (\<lambda>events'. Inr (envelope' # events')))"

definition replay_with_upcaster ::
  "'j replay_env \<Rightarrow> 'j UpcasterRegistry \<Rightarrow> 'j EventEnvelope list \<Rightarrow> ReplayError + ReplayResult" where
  "replay_with_upcaster env registry events =
     (if events = [] then Inr \<lparr>rp_final_state = None, rp_events_applied = 0, rp_latest_fence = None\<rparr>
      else and_then (upcast_all env registry events) (replay env))"

section \<open>Replay runs the lifecycle machine\<close>

text \<open>The transitions a list of payloads stands for; markers stand for none.\<close>

fun payload_event :: "'j EventPayload \<Rightarrow> TransitionEvent option" where
  "payload_event p = (if is_marker p then None else
     (case payload_to_transition p 0 of Inl _ \<Rightarrow> None | Inr t \<Rightarrow> Some t))"

definition transitions :: "'j EventPayload list \<Rightarrow> TransitionEvent list" where
  "transitions ps = List.map_filter payload_event ps"

lemma payload_event_marker: "payload_event p = None \<longleftrightarrow> is_marker p"
  by (cases p) simp_all

lemma payload_to_transition_event:
  "\<not> is_marker p \<Longrightarrow> payload_to_transition p seq = Inr (the (payload_event p))"
  by (cases p) simp_all

lemma transitions_simps [simp]:
  "transitions [] = []"
  "is_marker p \<Longrightarrow> transitions (p # ps) = transitions ps"
  "\<not> is_marker p \<Longrightarrow> transitions (p # ps) = the (payload_event p) # transitions ps"
  using payload_event_marker [of p]
  by (auto simp: transitions_def List.map_filter_simps simp del: payload_event.simps split: option.splits)

definition stopped_from :: "LifecycleState \<Rightarrow> 'j EventPayload list \<Rightarrow> bool" where
  "stopped_from s ps =
     (case exec apply_transition s (transitions ps) of Inl _ \<Rightarrow> False | Inr t \<Rightarrow> stops_replay t)"

lemma stopped_from_simps [simp]:
  "stopped_from s [] = stops_replay s"
  "is_marker p \<Longrightarrow> stopped_from s (p # ps) = stopped_from s ps"
  "\<not> is_marker p \<Longrightarrow> apply_transition s (the (payload_event p)) = Inr t \<Longrightarrow>
     stopped_from s (p # ps) = stopped_from t ps"
  by (simp_all add: stopped_from_def del: payload_event.simps)

lemma marker_keeps_fence: "is_marker p \<Longrightarrow> note_fence p f = f"
  by (cases p) simp_all

abbreviation state_or_pending :: "LifecycleState option \<Rightarrow> LifecycleState" where
  "state_or_pending st \<equiv> (case st of None \<Rightarrow> Pending | Some s \<Rightarrow> s)"

text \<open>
  What a replay of \<open>events\<close> from a state amounts to: the payloads \<open>ps\<close> of a
  prefix are run by the lifecycle machine; the prefix is the whole history unless
  the run stopped, and it stopped nowhere earlier.
\<close>

definition replays ::
  "'j replay_env \<Rightarrow> LifecycleState \<Rightarrow> 'j EventEnvelope list \<Rightarrow> 'j EventPayload list \<Rightarrow> LifecycleState \<Rightarrow> bool"
  where
  "replays env s events ps t =
     (length ps \<le> length events
      \<and> list_all2 (\<lambda>e p. decode_payload env e = Inr p) (take (length ps) events) ps
      \<and> exec apply_transition s (transitions ps) = Inr t
      \<and> (\<forall>k < length ps. \<not> stopped_from s (take k ps))
      \<and> (length ps < length events \<longrightarrow> stops_replay t))"

lemma replays_Nil: "\<not> stops_replay s \<Longrightarrow> replays env s events [] t \<longleftrightarrow> events = [] \<and> t = s"
  by (auto simp: replays_def)

lemma replays_empty: "replays env s [] ps t \<longleftrightarrow> ps = [] \<and> t = s"
  by (auto simp: replays_def)

lemma all_less_Suc_iff: "(\<forall>k < Suc n. P k) \<longleftrightarrow> P 0 \<and> (\<forall>k < n. P (Suc k))"
  by (auto simp: less_Suc_eq_0_disj)

lemma replays_marker:
  assumes "\<not> stops_replay s" and "is_marker p"
  shows "replays env s (e # events) (p # ps) t \<longleftrightarrow> decode_payload env e = Inr p \<and> replays env s events ps t"
  using assms by (auto simp: replays_def all_less_Suc_iff)

lemma replays_step:
  assumes "\<not> stops_replay s" and "\<not> is_marker p"
    and "apply_transition s (the (payload_event p)) = Inr u" and "\<not> stops_replay u"
  shows "replays env s (e # events) (p # ps) t \<longleftrightarrow> decode_payload env e = Inr p \<and> replays env u events ps t"
  using assms by (auto simp: replays_def all_less_Suc_iff simp del: payload_event.simps)

lemma replays_stop:
  assumes "\<not> stops_replay s" and "\<not> is_marker p"
    and "apply_transition s (the (payload_event p)) = Inr u" and "stops_replay u"
  shows "replays env s (e # events) (p # ps) t \<longleftrightarrow> decode_payload env e = Inr p \<and> ps = [] \<and> t = u"
  using assms
  by (cases ps) (auto simp: replays_def all_less_Suc_iff simp del: payload_event.simps)

lemma replays_refused:
  assumes "\<not> is_marker p" and "apply_transition s (the (payload_event p)) = Inl err"
  shows "\<not> replays env s events (p # ps) t"
  using assms by (simp add: replays_def del: payload_event.simps)

lemma replays_decodes: "replays env s (e # events) (p # ps) t \<Longrightarrow> decode_payload env e = Inr p"
  by (simp add: replays_def)

lemma replays_unmoved: "replays env s events ps t \<Longrightarrow> transitions ps = [] \<Longrightarrow> t = s"
  by (simp add: replays_def)

abbreviation replay_outcome :: "LifecycleState option \<Rightarrow> nat \<Rightarrow> u64 option \<Rightarrow> 'j EventPayload list
    \<Rightarrow> LifecycleState \<Rightarrow> ReplayResult" where
  "replay_outcome st n f ps t \<equiv>
     \<lparr>rp_final_state = (if transitions ps = [] then st else Some t), rp_events_applied = n + length ps,
      rp_latest_fence = fold note_fence ps f\<rparr>"

lemma ex_Cons_iff: "(\<exists>ps. P ps) \<longleftrightarrow> P [] \<or> (\<exists>p ps. P (p # ps))"
  by (metis list.exhaust)

lemma replay_loop_exact:
  assumes "\<not> stops_replay (state_or_pending st)"
  shows "replay_loop env st n f events = Inr r \<longleftrightarrow>
     (\<exists>ps t. replays env (state_or_pending st) events ps t \<and> r = replay_outcome st n f ps t)"
  using assms
proof (induction events arbitrary: st n f)
  case Nil
  then show ?case by (auto simp: replays_empty)
next
  case (Cons e events)
  let ?s = "state_or_pending st"
  have split: "(\<exists>ps t. replays env ?s (e # events) ps t \<and> r = replay_outcome st n f ps t) \<longleftrightarrow>
      (\<exists>p ps t. replays env ?s (e # events) (p # ps) t \<and> r = replay_outcome st n f (p # ps) t)"
    by (subst ex_Cons_iff) (simp add: replays_Nil [OF Cons.prems])
  show ?case
  proof (cases "decode_payload env e")
    case (Inl x)
    then show ?thesis unfolding split by (auto dest: replays_decodes)
  next
    case p: (Inr p)
    have eq: "\<And>q ps t. replays env ?s (e # events) (q # ps) t \<Longrightarrow> q = p"
      using p by (auto dest: replays_decodes)
    have only: "(\<exists>p ps t. replays env ?s (e # events) (p # ps) t \<and> r = replay_outcome st n f (p # ps) t) \<longleftrightarrow>
        (\<exists>ps t. replays env ?s (e # events) (p # ps) t \<and> r = replay_outcome st n f (p # ps) t)"
      using eq by blast
    show ?thesis
    proof (cases "is_marker p")
      case True
      then show ?thesis unfolding split only
        using p Cons.IH [OF Cons.prems, of "Suc n" f]
        by (simp add: replays_marker [OF Cons.prems] marker_keeps_fence)
    next
      case False
      let ?a = "apply_transition ?s (the (payload_event p))"
      show ?thesis
      proof (cases ?a)
        case (Inl err)
        then show ?thesis unfolding split only
          using p False
          by (simp add: replays_refused payload_to_transition_event del: payload_event.simps)
      next
        case (Inr u)
        show ?thesis
        proof (cases "stops_replay u")
          case True
          then show ?thesis unfolding split only
            using p False Inr
            by (auto simp: replays_stop [OF Cons.prems False Inr True] payload_to_transition_event
                simp del: payload_event.simps)
        next
          case go: False
          have same: "replays env u events ps t \<and> r = replay_outcome (Some u) (Suc n) (note_fence p f) ps t
              \<longleftrightarrow> replays env ?s (e # events) (p # ps) t \<and> r = replay_outcome st n f (p # ps) t" for ps t
            using replays_unmoved [of env u events ps t] p False
            by (auto simp: replays_step [OF Cons.prems False Inr go] simp del: payload_event.simps)
          have "replay_loop env st n f (e # events) = replay_loop env (Some u) (Suc n) (note_fence p f) events"
            using p False Inr go by (simp add: payload_to_transition_event del: payload_event.simps)
          then show ?thesis unfolding split only
            using Cons.IH [of "Some u" "Suc n" "note_fence p f"] go by (simp only: same option.case not_False_eq_True)
        qed
      qed
    qed
  qed
qed

section \<open>The checks before the loop\<close>

definition consecutive :: "'j EventEnvelope list \<Rightarrow> bool" where
  "consecutive events = successively (\<lambda>a b. ee_sequence b = ee_sequence a + 1) events"

definition same_instance :: "'j EventEnvelope list \<Rightarrow> bool" where
  "same_instance events = (\<forall>a \<in> set events. ee_instance_id a = ee_instance_id (hd events))"

lemma check_instance_ids_ok:
  "check_instance_ids i events = Inr u \<longleftrightarrow> (\<forall>e \<in> set events. ee_instance_id e = i)"
  by (induction i events rule: check_instance_ids.induct) auto

lemma check_sequences_ok:
  "check_sequences i (ee_sequence first) events = Inr u \<longleftrightarrow> consecutive (first # events)"
proof (induction events arbitrary: i first)
  case (Cons a events)
  show ?case using Cons.IH [of "Suc i" a]
    by (cases "ee_sequence a = ee_sequence first + 1") (auto simp: consecutive_def)
qed (simp add: consecutive_def)

lemma replay_checks:
  "replay env events = Inr r \<longleftrightarrow>
     same_instance events \<and> consecutive events \<and> replay_loop env None 0 None events = Inr r"
  by (cases events)
    (auto simp: replay_def check_instance_ids_ok check_sequences_ok same_instance_def consecutive_def
      simp del: replay_loop.simps(2))

lemma replay_unchecked:
  assumes "same_instance events" and "consecutive events"
  shows "replay env events = replay_loop env None 0 None events"
proof (cases events)
  case (Cons e es)
  have "check_instance_ids (ee_instance_id e) es = Inr ()" "check_sequences 1 (ee_sequence e) es = Inr ()"
    using assms by (simp_all only: check_instance_ids_ok check_sequences_ok Cons)
      (auto simp: same_instance_def)
  then show ?thesis by (simp add: replay_def Cons del: replay_loop.simps)
qed (simp add: replay_def)

lemma replay_loop_errors:
  assumes "replay_loop env st n f events = Inl e"
  shows "(\<exists>seq t. e = Replay_PayloadDecodeFailed seq t) \<or> (\<exists>seq s t. e = TransitionFailed seq s t)"
  using assms
proof (induction events arbitrary: st n f)
  case (Cons x events)
  then show ?case
    by (auto simp: Let_def payload_to_transition_event simp del: payload_event.simps
        split: sum.splits if_splits)
qed simp

text \<open>The fences of the scheduled steps.\<close>

fun payload_fence :: "'j EventPayload \<Rightarrow> u64 option" where
  "payload_fence (EventPayload.StepScheduled w s attempt fence x) = Some fence"
| "payload_fence _ = None"

definition fences :: "'j EventPayload list \<Rightarrow> u64 set" where
  "fences ps = {f. \<exists>p \<in> set ps. payload_fence p = Some f}"

lemma fences_Nil [simp]: "fences [] = {}"
  by (simp add: fences_def)

lemma fences_Cons: "fences (p # ps) = set_option (payload_fence p) \<union> fences ps"
  by (auto simp: fences_def)

lemma finite_fences: "finite (fences ps)"
  by (induction ps) (simp_all add: fences_Cons)

definition max_fence :: "u64 set \<Rightarrow> u64 option" where
  "max_fence F = (if F = {} then None else Some (Max F))"

lemma note_fence_payload:
  "note_fence p latest =
     (case payload_fence p of None \<Rightarrow> latest
      | Some f \<Rightarrow> Some (case latest of None \<Rightarrow> f | Some g \<Rightarrow> max f g))"
  by (cases p) (auto simp: max_def not_less split: option.splits)

lemma note_fence_max:
  "finite F \<Longrightarrow> note_fence p (max_fence F) = max_fence (set_option (payload_fence p) \<union> F)"
  by (cases "payload_fence p") (simp_all add: note_fence_payload max_fence_def)

lemma fold_note_fence:
  "finite F \<Longrightarrow> fold note_fence ps (max_fence F) = max_fence (fences ps \<union> F)"
proof (induction ps arbitrary: F)
  case (Cons p ps)
  have "finite (set_option (payload_fence p) \<union> F)" using Cons.prems by simp
  then show ?case using Cons.IH [of "set_option (payload_fence p) \<union> F"]
    by (simp add: note_fence_max [OF Cons.prems] fences_Cons Un_left_commute Un_assoc)
qed simp

lemma fold_note_fence_None: "fold note_fence ps None = max_fence (fences ps)"
  using fold_note_fence [of "{}" ps] by (simp add: max_fence_def)

text \<open>
  (C4) Replay is exactly a run of the lifecycle machine.  It succeeds if and only
  if the history belongs to one instance, its sequence numbers are consecutive,
  and the payloads of a prefix decode and are accepted in turn by the transition
  function from the pending state; the prefix is the whole history unless the run
  reached a completed or cancelled state, where it stops at once.  The result is
  the state of that run (none if no event moves it), the length of the prefix and
  the largest fence scheduled in it.
\<close>

theorem replay_exact:
  "replay env events = Inr r \<longleftrightarrow>
     same_instance events \<and> consecutive events \<and>
     (\<exists>ps t. replays env Pending events ps t
        \<and> r = \<lparr>rp_final_state = (if transitions ps = [] then None else Some t),
               rp_events_applied = length ps, rp_latest_fence = max_fence (fences ps)\<rparr>)"
proof -
  have "\<not> stops_replay (state_or_pending None)" by (simp add: stops_replay_def)
  from replay_loop_exact [OF this, of env 0 None events r] show ?thesis
    unfolding replay_checks by (simp add: fold_note_fence_None)
qed

text \<open>Replay splits: the tail of a history continues from where the head ended.\<close>

definition result_stopped :: "ReplayResult \<Rightarrow> bool" where
  "result_stopped r = (case rp_final_state r of None \<Rightarrow> False | Some s \<Rightarrow> stops_replay s)"

lemma replay_loop_append:
  assumes "\<not> stops_replay (state_or_pending st)"
  shows "replay_loop env st n f (xs @ ys) =
     and_then (replay_loop env st n f xs) (\<lambda>r.
       if result_stopped r then Inr r
       else replay_loop env (rp_final_state r) (rp_events_applied r) (rp_latest_fence r) ys)"
  using assms
proof (induction xs arbitrary: st n f)
  case Nil
  then show ?case by (auto simp: result_stopped_def split: option.splits)
next
  case (Cons x xs)
  then show ?case
    by (auto simp: result_stopped_def Let_def split: sum.splits)
qed

text \<open>
  Replay is incremental.  For a history that continues another one, replaying
  the whole is the same as replaying the first part and, unless that already
  completed or cancelled the instance, going on from its state, count and fence
  with the rest.
\<close>

theorem replay_incremental:
  assumes "same_instance (xs @ ys)" and "consecutive (xs @ ys)" and "replay env xs = Inr r"
  shows "replay env (xs @ ys) =
     (if result_stopped r then Inr r
      else replay_loop env (rp_final_state r) (rp_events_applied r) (rp_latest_fence r) ys)"
proof -
  have "replay env (xs @ ys) = replay_loop env None 0 None (xs @ ys)"
    by (rule replay_unchecked [OF assms(1,2)])
  moreover have "\<not> stops_replay (state_or_pending None)" by (simp add: stops_replay_def)
  moreover have "replay_loop env None 0 None xs = Inr r" using assms(3) by (simp add: replay_checks)
  ultimately show ?thesis by (simp add: replay_loop_append)
qed

text \<open>
  A toy JSON library for concrete histories: a payload is the name of its type,
  and every field of it holds its own name and the number 1.
\<close>

definition replay_json :: "string json_api" where
  "replay_json = \<lparr>json_variant_of = (\<lambda>_. JString),
     as_object = (\<lambda>v. Some (\<lambda>field. Some (if field = ''type'' then v else field))),
     as_str = (\<lambda>v. Some (if v = ''workflow_version_hash'' then ''00ff00ff'' else v)), as_u64 = (\<lambda>_. Some 1),
     null_value = []\<rparr>"

definition demo_env :: "string replay_env" where
  "demo_env = \<lparr>re_json = replay_json, re_parse_error_text = (\<lambda>_. []), re_event_error_text = (\<lambda>_. []),
     re_transition_error_text = (\<lambda>_. []), re_upcaster_error_text = (\<lambda>_. []),
     re_types_upcaster_error_text = (\<lambda>_. [])\<rparr>"

definition history_event :: "u64 \<Rightarrow> string \<Rightarrow> string EventEnvelope" where
  "history_event n ty = \<lparr>ee_schema_version = 1, ee_instance_id = ''i'', ee_sequence = n, ee_timestamp_ms = 1,
     ee_payload = ty, ee_metadata = EventMetadata_default\<rparr>"

lemmas demo_payload_simps = decode_payload_def demo_env_def replay_json_def try_from_json_def
  require_string_def optional_u64_def MAX_SUPPORTED_VERSION_def parse_payload_def payload_parsers
  require_string_field_def require_u32_cast_def require_u64_def history_event_def value_or_null_def
  optional_string_def

lemma demo_payloads:
  "decode_payload demo_env (history_event n ''WorkflowStarted'') =
     Inr (WorkflowStarted ''workflow_id'' ''dag_topology'' ''binary_hash'' ''00ff00ff'' (Some ''dedupe_key_hash''))"
  "decode_payload demo_env (history_event n ''StepScheduled'') =
     Inr (EventPayload.StepScheduled ''workflow_id'' ''step_id'' 1 1 ''execution_id'')"
  "decode_payload demo_env (history_event n ''StepStarted'') = Inr (StepStarted ''workflow_id'' ''step_id'' 1)"
  "decode_payload demo_env (history_event n ''WorkflowCancelled'') =
     Inr (WorkflowCancelled ''workflow_id'' ''cancelled_by'')"
  "decode_payload demo_env (history_event n ''WorkflowCompleted'') = Inr (WorkflowCompleted ''workflow_id'' 1)"
  by (simp_all add: demo_payload_simps WorkflowVersionHash_parse_def hash_parse_def
      is_lowercase_hex_def extract_invalid_chars_def is_ascii_digit_def code_def)

definition demo_start :: "string EventEnvelope list" where
  "demo_start = [history_event 1 ''WorkflowStarted'', history_event 2 ''StepScheduled'']"

definition demo_rest :: "string EventEnvelope list" where
  "demo_rest = [history_event 3 ''StepStarted'', history_event 4 ''WorkflowCompleted'']"

lemma demo_history_ok: "same_instance (demo_start @ demo_rest)" "consecutive (demo_start @ demo_rest)"
  by (simp_all add: demo_start_def demo_rest_def same_instance_def consecutive_def history_event_def)

lemma demo_start_replay:
  "replay demo_env demo_start =
     Inr \<lparr>rp_final_state = Some LifecycleState.StepScheduled, rp_events_applied = 2, rp_latest_fence = Some 1\<rparr>"
  by (simp add: demo_start_def replay_def demo_payloads stops_replay_def apply_transition_def)
    (simp add: history_event_def)

theorem replay_incremental_witness:
  "replay demo_env (demo_start @ demo_rest) =
     Inr \<lparr>rp_final_state = Some Completed, rp_events_applied = 4, rp_latest_fence = Some 1\<rparr>"
  using replay_incremental [OF demo_history_ok demo_start_replay]
  by (simp add: result_stopped_def stops_replay_def demo_rest_def demo_payloads apply_transition_def)

end
