(* ===== verification/Event_Sourcing.thy ===== *)
theory Event_Sourcing
  imports Replay
begin

text \<open>
  The event sourcing engine (vo-core/src/replay/event_sourcing_engine): snapshots
  and their in-memory store, snapshot compatibility (vo-core/src/snapshot_compat.rs)
  and the two recovery functions.  The serialiser and the hash behind snapshots,
  the elapsed time and the texts of errors are arguments; the projection engine
  and its throttle play no part in recovery and are left out of the record.
\<close>

section \<open>Snapshot compatibility\<close>

datatype SnapshotCompat = Compatible | NeedsUpcast u16 u16 | Incompatible u16 u16

definition check_snapshot_compat :: "u16 \<Rightarrow> u16 \<Rightarrow> SnapshotCompat" where
  "check_snapshot_compat snapshot_version engine_version =
     (if snapshot_version = 0 \<or> engine_version = 0 then Incompatible snapshot_version engine_version
      else if snapshot_version = engine_version then Compatible
      else if snapshot_version < engine_version then NeedsUpcast snapshot_version engine_version
      else Incompatible snapshot_version engine_version)"

definition is_compatible :: "SnapshotCompat \<Rightarrow> bool" where
  "is_compatible c = (c = Compatible)"

definition is_snapshot_compatible :: "u16 \<Rightarrow> u16 \<Rightarrow> bool" where
  "is_snapshot_compatible snapshot_version engine_version = (snapshot_version = engine_version)"

section \<open>Snapshots\<close>

datatype ProjectionError =
    ProjectionNotFound string
  | ProjectionAlreadyExists string
  | InvalidState string
  | BuildFailed string
  | RebuildFailed string
  | Projection_UpcastingFailed string
  | Projection_Storage string
  | IncompatibleSchemaVersion u8 u8
  | Projection_SequenceGap u64
  | ChecksumMismatch u64 u64
  | ConcurrencyConflict string
  | ThrottleExceeded u64
  | FailedState string

fun is_retryable :: "ProjectionError \<Rightarrow> bool" where
  "is_retryable (ThrottleExceeded n) = True"
| "is_retryable (ConcurrencyConflict s) = True"
| "is_retryable (Projection_Storage s) = True"
| "is_retryable _ = False"

record Snapshot =
  sn_projection_id :: string
  sn_schema_version :: u8
  sn_state_bytes :: bytes
  sn_sequence :: u64
  sn_created_at :: u64
  sn_checksum :: u64

definition is_compatible_with :: "Snapshot \<Rightarrow> u8 \<Rightarrow> bool" where
  "is_compatible_with snap engine_version =
     is_compatible (check_snapshot_compat (word_of_nat (unat (sn_schema_version snap)))
       (word_of_nat (unat engine_version)))"

type_synonym snapshot_store = "(string \<rightharpoonup> Snapshot) mutex"

definition snapshot_store_new :: snapshot_store where
  "snapshot_store_new = mutex_new Map.empty"

definition save_snapshot :: "snapshot_store \<Rightarrow> Snapshot \<Rightarrow> (ProjectionError + unit) \<times> snapshot_store" where
  "save_snapshot store snapshot =
     with_lock store (Projection_Storage ''lock poisoned'')
       (\<lambda>snapshots. (Inr (), snapshots(sn_projection_id snapshot \<mapsto> snapshot)))"

definition load_latest_snapshot :: "snapshot_store \<Rightarrow> string \<Rightarrow> ProjectionError + Snapshot option" where
  "load_latest_snapshot store projection_id =
     (if mx_poisoned store then Inl (Projection_Storage ''lock poisoned'')
      else Inr (mx_value store projection_id))"

definition store_delete_snapshot ::
  "snapshot_store \<Rightarrow> string \<Rightarrow> u64 \<Rightarrow> (ProjectionError + unit) \<times> snapshot_store" where
  "store_delete_snapshot store projection_id sequence =
     with_lock store (Projection_Storage ''lock poisoned'')
       (\<lambda>snapshots. (Inr (), snapshots(projection_id := None)))"

section \<open>The engine\<close>

datatype RecoveryType = FullReplay | SnapshotAccelerated | Incremental

record RecoveryResult =
  rc_state :: "LifecycleState option"
  rc_events_applied :: u64
  rc_starting_sequence :: u64
  rc_ending_sequence :: u64
  rc_recovery_type :: RecoveryType
  rc_duration_ms :: u64
  rc_snapshot_used :: bool

record 'j EventSourcingEngine =
  es_max_schema_version :: u8
  es_snapshot_interval_events :: u64
  es_upcaster_registry :: "'j UpcasterRegistry option"
  es_snapshot_store :: "snapshot_store option"

definition engine_new :: "u8 \<Rightarrow> 'j EventSourcingEngine" where
  "engine_new max_schema_version =
     \<lparr>es_max_schema_version = max_schema_version, es_snapshot_interval_events = 1000,
      es_upcaster_registry = None, es_snapshot_store = None\<rparr>"

text \<open>The choice between the two replays, made three times in the source.\<close>

definition engine_replay ::
  "'j replay_env \<Rightarrow> 'j EventSourcingEngine \<Rightarrow> 'j EventEnvelope list \<Rightarrow> ReplayError + ReplayResult" where
  "engine_replay env engine events =
     (case es_upcaster_registry engine of
        Some registry \<Rightarrow> replay_with_upcaster env registry events
      | None \<Rightarrow> replay env events)"

definition first_sequence :: "'j EventEnvelope list \<Rightarrow> u64" where
  "first_sequence events = (case events of [] \<Rightarrow> 0 | e # es \<Rightarrow> ee_sequence e)"

definition last_sequence :: "u64 \<Rightarrow> 'j EventEnvelope list \<Rightarrow> u64" where
  "last_sequence default_value events = (if events = [] then default_value else ee_sequence (last events))"

definition reconstruct_state ::
  "'j replay_env \<Rightarrow> u64 \<Rightarrow> 'j EventSourcingEngine \<Rightarrow> 'j EventEnvelope list \<Rightarrow> ReplayError + RecoveryResult" where
  "reconstruct_state env elapsed engine events =
     and_then (engine_replay env engine events) (\<lambda>result.
       Inr \<lparr>rc_state = rp_final_state result, rc_events_applied = word_of_nat (rp_events_applied result),
            rc_starting_sequence = first_sequence events, rc_ending_sequence = last_sequence 0 events,
            rc_recovery_type = FullReplay, rc_duration_ms = elapsed, rc_snapshot_used = False\<rparr>)"

text \<open>
  \<open>state_from_slice\<close> is the deserialiser of the state (an error by its text),
  \<open>replay_error_text\<close> the generated \<open>Display\<close> of the replay errors.
\<close>

definition reconstruct_state_with_snapshot ::
  "'j replay_env \<Rightarrow> (bytes \<Rightarrow> string + LifecycleState option) \<Rightarrow> (ReplayError \<Rightarrow> string) \<Rightarrow> u64
     \<Rightarrow> 'j EventSourcingEngine \<Rightarrow> Snapshot option \<Rightarrow> 'j EventEnvelope list
     \<Rightarrow> ProjectionError + RecoveryResult" where
  "reconstruct_state_with_snapshot env state_from_slice replay_error_text elapsed engine snapshot recent_events =
     (case snapshot of
        Some snap \<Rightarrow>
          if \<not> is_compatible_with snap (es_max_schema_version engine)
          then Inl (IncompatibleSchemaVersion (es_max_schema_version engine) (sn_schema_version snap))
          else
            (let events_to_replay = filter (\<lambda>e. sn_sequence snap < ee_sequence e) recent_events;
                 starting_sequence = sn_sequence snap + 1;
                 ending_sequence = last_sequence (sn_sequence snap) recent_events in
             if events_to_replay = []
             then and_then (map_err (\<lambda>e. Projection_Storage (''snapshot deserialization failed: '' @ e))
                              (state_from_slice (sn_state_bytes snap))) (\<lambda>state.
                    Inr \<lparr>rc_state = state, rc_events_applied = 0, rc_starting_sequence = starting_sequence,
                         rc_ending_sequence = ending_sequence, rc_recovery_type = SnapshotAccelerated,
                         rc_duration_ms = elapsed, rc_snapshot_used = True\<rparr>)
             else and_then (map_err (\<lambda>e. BuildFailed (replay_error_text e))
                              (engine_replay env engine events_to_replay)) (\<lambda>result.
                    Inr \<lparr>rc_state = rp_final_state result,
                         rc_events_applied = word_of_nat (rp_events_applied result),
                         rc_starting_sequence = starting_sequence, rc_ending_sequence = ending_sequence,
                         rc_recovery_type = SnapshotAccelerated, rc_duration_ms = elapsed,
                         rc_snapshot_used = True\<rparr>))
      | None \<Rightarrow>
          and_then (map_err (\<lambda>e. BuildFailed (replay_error_text e))
                      (engine_replay env engine recent_events)) (\<lambda>result.
            Inr \<lparr>rc_state = rp_final_state result, rc_events_applied = word_of_nat (rp_events_applied result),
                 rc_starting_sequence = first_sequence recent_events,
                 rc_ending_sequence = last_sequence 0 recent_events, rc_recovery_type = FullReplay,
                 rc_duration_ms = elapsed, rc_snapshot_used = False\<rparr>))"

text \<open>\<open>n.is_multiple_of(0)\<close> holds for 0 only, like divisibility on the naturals.\<close>

definition should_create_snapshot :: "'j EventSourcingEngine \<Rightarrow> u64 \<Rightarrow> bool" where
  "should_create_snapshot engine events_processed =
     (0 < events_processed \<and> unat events_processed mod unat (es_snapshot_interval_events engine) = 0)"

text \<open>
  \<open>to_vec\<close> serialises the state, \<open>hash\<close> is \<open>DefaultHasher\<close>, \<open>clock\<close> the time.
\<close>

definition create_snapshot ::
  "('s \<Rightarrow> string + bytes) \<Rightarrow> (bytes \<Rightarrow> u64) \<Rightarrow> nat option \<Rightarrow> 'j EventSourcingEngine \<Rightarrow> string \<Rightarrow> 's \<Rightarrow> u64
     \<Rightarrow> (ProjectionError + Snapshot) \<times> 'j EventSourcingEngine" where
  "create_snapshot to_vec hash clock engine projection_id state sequence =
     (case to_vec state of
        Inl e \<Rightarrow> (Inl (Projection_Storage (''serialization failed: '' @ e)), engine)
      | Inr state_bytes \<Rightarrow>
          (let snapshot = \<lparr>sn_projection_id = projection_id,
                 sn_schema_version = es_max_schema_version engine, sn_state_bytes = state_bytes,
                 sn_sequence = sequence,
                 sn_created_at = word_of_nat (case clock of None \<Rightarrow> 0 | Some ms \<Rightarrow> ms),
                 sn_checksum = hash state_bytes\<rparr> in
           case es_snapshot_store engine of
             None \<Rightarrow> (Inr snapshot, engine)
           | Some store \<Rightarrow>
               (case save_snapshot store snapshot of
                  (Inl e, store') \<Rightarrow> (Inl e, engine\<lparr>es_snapshot_store := Some store'\<rparr>)
                | (Inr _, store') \<Rightarrow> (Inr snapshot, engine\<lparr>es_snapshot_store := Some store'\<rparr>))))"

definition load_snapshot :: "'j EventSourcingEngine \<Rightarrow> string \<Rightarrow> ProjectionError + Snapshot option" where
  "load_snapshot engine projection_id =
     (case es_snapshot_store engine of
        Some store \<Rightarrow> load_latest_snapshot store projection_id
      | None \<Rightarrow> Inr None)"

definition delete_snapshot ::
  "'j EventSourcingEngine \<Rightarrow> string \<Rightarrow> u64 \<Rightarrow> (ProjectionError + unit) \<times> 'j EventSourcingEngine" where
  "delete_snapshot engine projection_id sequence =
     (case es_snapshot_store engine of
        Some store \<Rightarrow>
          (case store_delete_snapshot store projection_id sequence of
             (r, store') \<Rightarrow> (r, engine\<lparr>es_snapshot_store := Some store'\<rparr>))
      | None \<Rightarrow> (Inr (), engine))"

section \<open>Properties of recovery\<close>

lemma u8_as_u16: "unat (word_of_nat (unat v) :: u16) = unat v" for v :: u8
proof (rule unat_u16_of_nat)
  show "unat v < 65536" using unat_byte_lt [of v] by linarith
qed

lemma u8_as_u16_inj: "(word_of_nat (unat v) :: u16) = word_of_nat (unat w) \<longleftrightarrow> v = w" for v w :: u8
  by (metis u8_as_u16 word_unat_eq_iff)

lemma is_compatible_with_iff: "is_compatible_with snap v \<longleftrightarrow> sn_schema_version snap = v \<and> v \<noteq> 0"
proof -
  have zero: "(word_of_nat (unat w) :: u16) = 0 \<longleftrightarrow> w = 0" for w :: u8
    by (metis u8_as_u16_inj unat_0 semiring_1_class.of_nat_0)
  show ?thesis
    unfolding is_compatible_with_def is_compatible_def check_snapshot_compat_def zero u8_as_u16_inj by auto
qed

text \<open>
  A snapshot restores what was saved.  With a serialiser whose output its
  deserialiser reads back, an engine of a non-zero version with an open store
  saves a snapshot, loads exactly that snapshot under its name afterwards, and,
  when no event is newer than the snapshot, recovers the saved state from it.
\<close>

theorem snapshot_roundtrip:
  assumes "to_vec state = Inr bs" and "state_from_slice bs = Inr state"
    and "es_snapshot_store engine = Some store" and "\<not> mx_poisoned store"
    and "es_max_schema_version engine \<noteq> 0"
    and "\<forall>e \<in> set events. ee_sequence e \<le> sequence"
  shows "\<exists>snap engine'.
     create_snapshot to_vec hash clock engine pid state sequence = (Inr snap, engine')
     \<and> load_snapshot engine' pid = Inr (Some snap)
     \<and> (\<exists>result. reconstruct_state_with_snapshot env state_from_slice replay_error_text elapsed engine'
           (Some snap) events = Inr result
         \<and> rc_state result = state \<and> rc_events_applied result = 0 \<and> rc_snapshot_used result)"
proof -
  define snap where "snap = \<lparr>sn_projection_id = pid, sn_schema_version = es_max_schema_version engine,
    sn_state_bytes = bs, sn_sequence = sequence,
    sn_created_at = word_of_nat (case clock of None \<Rightarrow> 0 | Some ms \<Rightarrow> ms), sn_checksum = hash bs\<rparr>"
  define store' where "store' = store\<lparr>mx_value := (mx_value store)(pid \<mapsto> snap)\<rparr>"
  have "save_snapshot store snap = (Inr (), store')"
    using assms(4) by (simp add: save_snapshot_def store'_def snap_def)
  then have c: "create_snapshot to_vec hash clock engine pid state sequence =
      (Inr snap, engine\<lparr>es_snapshot_store := Some store'\<rparr>)"
    using assms(1,3) by (simp add: create_snapshot_def Let_def snap_def)
  moreover have "load_snapshot (engine\<lparr>es_snapshot_store := Some store'\<rparr>) pid = Inr (Some snap)"
    using assms(4) by (simp add: load_snapshot_def load_latest_snapshot_def store'_def)
  moreover have "is_compatible_with snap (es_max_schema_version engine)"
    using assms(5) by (simp add: is_compatible_with_iff snap_def)
  moreover have "filter (\<lambda>e. sn_sequence snap < ee_sequence e) events = []"
    using assms(6) by (auto simp: snap_def filter_empty_conv not_less)
  moreover have "sn_state_bytes snap = bs" by (simp add: snap_def)
  ultimately show ?thesis
    using assms(2) by (simp add: reconstruct_state_with_snapshot_def Let_def)
qed

text \<open>
  Recovery from a snapshot ignores the state in it as soon as there is
  anything to replay: two snapshots of the same version and sequence number, with
  whatever states, give the same result, which is that of replaying the newer
  events alone from the pending state.
\<close>

theorem snapshot_state_ignored:
  assumes "sn_schema_version a = sn_schema_version b" and "sn_sequence a = sn_sequence b"
    and "\<exists>e \<in> set events. sn_sequence a < ee_sequence e"
  shows "reconstruct_state_with_snapshot env state_from_slice replay_error_text elapsed engine (Some a) events
       = reconstruct_state_with_snapshot env state_from_slice replay_error_text elapsed engine (Some b) events
     \<and> (\<forall>result. reconstruct_state_with_snapshot env state_from_slice replay_error_text elapsed engine
            (Some a) events = Inr result \<longrightarrow>
          (\<exists>r. engine_replay env engine (filter (\<lambda>e. sn_sequence a < ee_sequence e) events) = Inr r
               \<and> rc_state result = rp_final_state r))"
proof -
  have "filter (\<lambda>e. sn_sequence a < ee_sequence e) events \<noteq> []" using assms(3) by (auto simp: filter_empty_conv)
  then show ?thesis
    using assms(1,2) by (auto simp: reconstruct_state_with_snapshot_def Let_def is_compatible_with_iff)
qed

definition demo_snapshot :: "bytes \<Rightarrow> Snapshot" where
  "demo_snapshot bs = \<lparr>sn_projection_id = ''p'', sn_schema_version = 1, sn_state_bytes = bs,
     sn_sequence = 2, sn_created_at = 0, sn_checksum = 0\<rparr>"

abbreviation demo_recover :: "bytes \<Rightarrow> ProjectionError + RecoveryResult" where
  "demo_recover bs \<equiv> reconstruct_state_with_snapshot demo_env (\<lambda>_. Inr (Some LifecycleState.StepScheduled)) (\<lambda>_. [])
     0 (engine_new 1) (Some (demo_snapshot bs)) (demo_start @ demo_rest)"

text \<open>
  The history completes when replayed in full, but recovery from a snapshot of it
  after two events fails: the third event is refused in the pending state.
\<close>

theorem snapshot_state_ignored_witness:
  "demo_recover [0] = demo_recover [1] \<and> demo_recover [0] = Inl (BuildFailed [])
   \<and> (\<exists>r. replay demo_env (demo_start @ demo_rest) = Inr r \<and> rp_final_state r = Some Completed)"
proof -
  have "\<exists>e \<in> set (demo_start @ demo_rest). sn_sequence (demo_snapshot [0]) < ee_sequence e"
    by (simp add: demo_start_def demo_rest_def demo_snapshot_def history_event_def)
  then have "demo_recover [0] = demo_recover [1]"
    by (intro conjunct1 [OF snapshot_state_ignored]) (simp_all add: demo_snapshot_def)
  moreover have "filter (\<lambda>e. sn_sequence (demo_snapshot [0]) < ee_sequence e) (demo_start @ demo_rest) = demo_rest"
    by (simp add: demo_start_def demo_rest_def demo_snapshot_def history_event_def)
  moreover have "replay demo_env demo_rest = Inl (TransitionFailed 3 Pending [])"
    by (simp add: demo_rest_def replay_def demo_payloads apply_transition_def)
      (simp add: history_event_def demo_env_def)
  ultimately have "demo_recover [0] = demo_recover [1]" "demo_recover [0] = Inl (BuildFailed [])"
    by (simp_all add: reconstruct_state_with_snapshot_def Let_def is_compatible_with_iff engine_new_def
        demo_snapshot_def engine_replay_def demo_rest_def)
  moreover have "\<exists>r. replay demo_env (demo_start @ demo_rest) = Inr r \<and> rp_final_state r = Some Completed"
    by (simp add: demo_start_def demo_rest_def replay_def demo_payloads stops_replay_def apply_transition_def)
      (simp add: history_event_def)
  ultimately show ?thesis by simp
qed

definition demo_engine :: "string EventSourcingEngine" where
  "demo_engine = (engine_new 1)\<lparr>es_snapshot_store := Some snapshot_store_new\<rparr>"

theorem snapshot_roundtrip_witness:
  "\<exists>snap engine'.
     create_snapshot (\<lambda>_. Inr [7]) (\<lambda>_. 0) (Some 1) demo_engine ''p'' (Some Completed) 4 = (Inr snap, engine')
     \<and> load_snapshot engine' ''p'' = Inr (Some snap)
     \<and> (\<exists>result. reconstruct_state_with_snapshot demo_env (\<lambda>_. Inr (Some Completed)) (\<lambda>_. []) 0 engine'
           (Some snap) demo_rest = Inr result
         \<and> rc_state result = Some Completed \<and> rc_events_applied result = 0 \<and> rc_snapshot_used result)"
proof -
  have "\<forall>e \<in> set demo_rest. ee_sequence e \<le> 4" by (simp add: demo_rest_def history_event_def)
  then show ?thesis
    by (intro snapshot_roundtrip [where bs = "[7]" and store = snapshot_store_new])
      (simp_all add: demo_engine_def engine_new_def snapshot_store_new_def)
qed

end
