(* ===== verification/Event_Store.thy ===== *)
theory Event_Store
  imports Replay "HOL-Library.Sublist"
begin

text \<open>
  The append-only event store (vo-storage/src/event_store, the in-memory store):
  optimistic concurrency on sequence numbers.  \<open>append_check\<close> is the part of
  \<open>append\<close> that only reads, \<open>append_commit\<close> the part that writes; the source runs
  them on concurrent maps without holding a lock in between, so a concurrent run
  interleaves them.
\<close>

section \<open>The store\<close>

datatype EventStoreError =
    OccConflict string u64 u64
  | Store_Storage string
  | Store_InvalidArgument string

fun store_error_to_event_error :: "EventStoreError \<Rightarrow> Error" where
  "store_error_to_event_error (OccConflict i e a) = PayloadDecodeSkipped"
| "store_error_to_event_error (Store_Storage r) = PayloadDecodeFailed Ev_InvalidEnvelopeFormat"
| "store_error_to_event_error (Store_InvalidArgument r) = Ev_InvalidEnvelopeFormat"

definition encode_sequence_key :: "id_crates \<Rightarrow> InstanceId \<Rightarrow> bytes" where
  "encode_sequence_key api instance_id = 0x00 # iid_bytes_or_zero api instance_id"

record 'j event_store =
  st_sequences :: "InstanceId \<rightharpoonup> u64"
  st_events :: "InstanceId \<rightharpoonup> 'j EventEnvelope list"

definition event_store_new :: "'j event_store" where
  "event_store_new = \<lparr>st_sequences = Map.empty, st_events = Map.empty\<rparr>"

definition get_sequence :: "'j event_store \<Rightarrow> InstanceId \<Rightarrow> EventStoreError + u64" where
  "get_sequence st instance_id = Inr (case st_sequences st instance_id of None \<Rightarrow> 0 | Some r \<Rightarrow> r)"

fun check_windows :: "'j EventEnvelope list \<Rightarrow> EventStoreError + unit" where
  "check_windows (a # b # events) =
     (if ee_sequence b \<noteq> ee_sequence a + 1
      then Inl (Store_InvalidArgument (''events are not sequentially ordered: '' @ show_u64 (ee_sequence a)
                  @ '' followed by '' @ show_u64 (ee_sequence b)))
      else check_windows (b # events))"
| "check_windows _ = Inr ()"

definition append_check ::
  "'j event_store \<Rightarrow> InstanceId \<Rightarrow> 'j EventEnvelope list \<Rightarrow> EventStoreError + u64" where
  "append_check st instance_id events =
     (if events = [] then Inl (Store_InvalidArgument ''events batch cannot be empty'')
      else
        let expected_sequence = (case st_sequences st instance_id of None \<Rightarrow> 0 | Some g \<Rightarrow> g) in
        if ee_sequence (hd events) \<noteq> expected_sequence + 1
        then Inl (OccConflict instance_id (expected_sequence + 1)
               (case st_events st instance_id of
                  Some es \<Rightarrow> (if es = [] then 0 else ee_sequence (last es))
                | None \<Rightarrow> 0))
        else and_then (check_windows events) (\<lambda>_. Inr (ee_sequence (last events))))"

definition append_commit ::
  "'j event_store \<Rightarrow> InstanceId \<Rightarrow> 'j EventEnvelope list \<Rightarrow> u64 \<Rightarrow> 'j event_store" where
  "append_commit st instance_id events final_sequence =
     st\<lparr>st_sequences := (st_sequences st)(instance_id \<mapsto> final_sequence),
        st_events := (st_events st)(instance_id \<mapsto>
          (case st_events st instance_id of None \<Rightarrow> [] | Some existing \<Rightarrow> existing) @ events)\<rparr>"

definition append ::
  "'j event_store \<Rightarrow> InstanceId \<Rightarrow> 'j EventEnvelope list \<Rightarrow> (EventStoreError + u64) \<times> 'j event_store" where
  "append st instance_id events =
     (case append_check st instance_id events of
        Inl e \<Rightarrow> (Inl e, st)
      | Inr final_sequence \<Rightarrow> (Inr final_sequence, append_commit st instance_id events final_sequence))"

section \<open>The invariant of the store\<close>

definition log_of :: "'j event_store \<Rightarrow> InstanceId \<Rightarrow> 'j EventEnvelope list" where
  "log_of st iid = (case st_events st iid of None \<Rightarrow> [] | Some es \<Rightarrow> es)"

definition current_sequence :: "'j event_store \<Rightarrow> InstanceId \<Rightarrow> u64" where
  "current_sequence st iid = (case st_sequences st iid of None \<Rightarrow> 0 | Some g \<Rightarrow> g)"

text \<open>Events are numbered from 1 in the order of the log, and the counter is the last number.\<close>

definition numbered_from :: "u64 \<Rightarrow> 'j EventEnvelope list \<Rightarrow> bool" where
  "numbered_from n events = (\<forall>i < length events. ee_sequence (events ! i) = n + word_of_nat i)"

definition store_ok :: "'j event_store \<Rightarrow> bool" where
  "store_ok st = (\<forall>iid. numbered_from 1 (log_of st iid)
      \<and> current_sequence st iid = word_of_nat (length (log_of st iid)))"

lemma numbered_from_Nil [simp]: "numbered_from n []"
  by (simp add: numbered_from_def)

lemma numbered_from_Cons:
  "numbered_from n (e # events) \<longleftrightarrow> ee_sequence e = n \<and> numbered_from (n + 1) events"
  by (auto simp: numbered_from_def nth_Cons less_Suc_eq_0_disj algebra_simps split: nat.splits)

lemma numbered_from_append:
  "numbered_from n (xs @ ys) \<longleftrightarrow> numbered_from n xs \<and> numbered_from (n + word_of_nat (length xs)) ys"
  by (induction xs arbitrary: n) (simp_all add: numbered_from_Cons algebra_simps)

lemma numbered_iff_consecutive:
  "events \<noteq> [] \<Longrightarrow> numbered_from n events \<longleftrightarrow> ee_sequence (hd events) = n \<and> consecutive events"
proof (induction events arbitrary: n)
  case (Cons e events)
  show ?case
  proof (cases events)
    case list: (Cons a list)
    have "numbered_from (n + 1) events \<longleftrightarrow> ee_sequence a = n + 1 \<and> consecutive events"
      using Cons.IH [of "n + 1"] list by simp
    moreover have "consecutive (e # events) \<longleftrightarrow> ee_sequence a = ee_sequence e + 1 \<and> consecutive events"
      by (simp add: list consecutive_def)
    ultimately show ?thesis using numbered_from_Cons [of n e events] by auto
  qed (simp add: numbered_from_Cons consecutive_def)
qed simp

lemma check_windows_ok: "check_windows events = Inr u \<longleftrightarrow> consecutive events"
  by (induction events rule: check_windows.induct) (auto simp: consecutive_def)

lemma numbered_last:
  assumes "numbered_from n events" and "events \<noteq> []"
  shows "ee_sequence (last events) = n + word_of_nat (length events) - 1"
  using assms by (cases events rule: rev_cases) (auto simp: numbered_from_append numbered_from_Cons)

lemma append_check_ok:
  "append_check st iid events = Inr n \<longleftrightarrow>
     events \<noteq> [] \<and> numbered_from (current_sequence st iid + 1) events
     \<and> n = current_sequence st iid + word_of_nat (length events)"
proof (cases "events = []")
  case False
  then show ?thesis
    using numbered_iff_consecutive [OF False, of "current_sequence st iid + 1"]
      numbered_last [of "current_sequence st iid + 1" events]
    by (auto simp: append_check_def Let_def current_sequence_def check_windows_ok algebra_simps)
qed (simp add: append_check_def)

lemma append_commit_log:
  "log_of (append_commit st iid events n) jid = (if jid = iid then log_of st iid @ events else log_of st jid)"
  "current_sequence (append_commit st iid events n) jid = (if jid = iid then n else current_sequence st jid)"
  by (auto simp: append_commit_def log_of_def current_sequence_def split: option.splits)

lemma log_of_new: "log_of event_store_new iid = []"
  by (simp add: log_of_def event_store_new_def)

lemma store_ok_new: "store_ok event_store_new"
  by (simp add: store_ok_def event_store_new_def log_of_def current_sequence_def)

lemma store_ok_commit:
  assumes "store_ok st" and "append_check st iid events = Inr n"
  shows "store_ok (append_commit st iid events n)"
  using assms
  by (auto simp: store_ok_def append_commit_log numbered_from_append append_check_ok algebra_simps)

lemma store_ok_append: "store_ok st \<Longrightarrow> store_ok (snd (append st iid events))"
  using store_ok_commit [of st iid events] by (auto simp: append_def split: sum.splits)

lemma append_effect:
  assumes "store_ok st" and "append st iid events = (Inr n, st')"
  shows "store_ok st' \<and> log_of st' = (log_of st)(iid := log_of st iid @ events)
     \<and> current_sequence st' iid = n"
proof -
  have "append_check st iid events = Inr n" "st' = append_commit st iid events n"
    using assms(2) by (auto simp: append_def split: sum.splits)
  then show ?thesis using store_ok_commit [OF assms(1)] by (auto simp: append_commit_log)
qed

lemma numbered_consecutive: "numbered_from n events \<Longrightarrow> consecutive events"
  by (cases "events = []") (auto simp: numbered_iff_consecutive consecutive_def)

section \<open>The contract of an append-only log\<close>

locale append_only_log =
  fixes app :: "'st \<Rightarrow> 'i \<Rightarrow> 'e list \<Rightarrow> ('err + u64) \<times> 'st"
    and log :: "'st \<Rightarrow> 'i \<Rightarrow> 'e list"
    and num :: "'e \<Rightarrow> u64"
    and wf :: "'st \<Rightarrow> bool"
  assumes app_ok: "wf st \<Longrightarrow> app st i es = (Inr n, st') \<Longrightarrow>
        wf st' \<and> log st' = (log st)(i := log st i @ es)"
    and app_err: "wf st \<Longrightarrow> app st i es = (Inl err, st') \<Longrightarrow> st' = st"
    and numbered: "wf st \<Longrightarrow> k < length (log st i) \<Longrightarrow> num (log st i ! k) = 1 + word_of_nat k"
begin

abbreviation appends where "appends \<equiv> run_trace (\<lambda>st (i, es). app st i es)"

lemma app_effect:
  assumes "wf st" and "app st i es = (r, st')"
  shows "wf st' \<and> (log st' = log st \<or> log st' = (log st)(i := log st i @ es))"
proof (cases r)
  case (Inl e)
  then show ?thesis using app_err [OF assms(1)] assms by blast
next
  case (Inr n)
  then show ?thesis using app_ok [OF assms(1)] assms by blast
qed

lemma appends_wf: "appends st ops = (rs, st') \<Longrightarrow> wf st \<Longrightarrow> wf st'"
proof (induction ops arbitrary: st rs)
  case (Cons op ops)
  then show ?case by (cases op) (auto split: prod.splits dest: app_effect)
qed simp

text \<open>Logs only grow at the end.\<close>

lemma appends_prefix:
  assumes "appends st ops = (rs, st')" and "wf st"
  shows "prefix (log st i) (log st' i)"
  using assms
proof (induction ops arbitrary: st rs)
  case (Cons op ops)
  obtain j es where op: "op = (j, es)" by (cases op)
  from Cons.prems(1) obtain r st1 rs1 where s: "app st j es = (r, st1)" "appends st1 ops = (rs1, st')"
    by (auto simp: op split: prod.splits)
  have "prefix (log st i) (log st1 i)" "wf st1"
    using app_effect [OF Cons.prems(2) s(1)] by auto
  then show ?case using Cons.IH [OF s(2)] by (auto intro: prefix_order.trans)
qed simp

text \<open>Every logged event was submitted for that log.\<close>

lemma appends_origin:
  assumes "appends st ops = (rs, st')" and "wf st" and "e \<in> set (log st' i)"
  shows "e \<in> set (log st i) \<or> (\<exists>es. (i, es) \<in> set ops \<and> e \<in> set es)"
  using assms
proof (induction ops arbitrary: st rs)
  case (Cons op ops)
  obtain j es where op: "op = (j, es)" by (cases op)
  from Cons.prems(1) obtain r st1 rs1 where s: "app st j es = (r, st1)" "appends st1 ops = (rs1, st')"
    by (auto simp: op split: prod.splits)
  note eff = app_effect [OF Cons.prems(2) s(1)]
  have "e \<in> set (log st1 i) \<or> (\<exists>es. (i, es) \<in> set ops \<and> e \<in> set es)"
    using Cons.IH [OF s(2)] eff Cons.prems(3) by blast
  moreover have "e \<in> set (log st1 i) \<Longrightarrow> e \<in> set (log st i) \<or> (i = j \<and> e \<in> set es)"
    using eff by (auto split: if_splits)
  ultimately show ?case by (auto simp: op)
qed simp

end

text \<open>
  (C7) Appending is optimistic concurrency control.  On a well-formed store a
  batch is accepted exactly when it is not empty and numbered consecutively from
  the instance's current sequence number plus one; then the batch is added at the
  end of that instance's log and of no other, the answer and the new sequence
  number are the number of its last event.  A refused batch changes nothing.
\<close>

theorem append_exact:
  assumes "store_ok st"
  shows "(case append st iid events of
            (Inr n, st') \<Rightarrow>
              events \<noteq> [] \<and> numbered_from (current_sequence st iid + 1) events
              \<and> n = ee_sequence (last events) \<and> get_sequence st' iid = Inr n
              \<and> log_of st' = (log_of st)(iid := log_of st iid @ events) \<and> store_ok st'
          | (Inl e, st') \<Rightarrow>
              st' = st \<and> (events = [] \<or> \<not> numbered_from (current_sequence st iid + 1) events))"
proof (cases "append_check st iid events")
  case (Inl e)
  then show ?thesis
    using append_check_ok [of st iid events "current_sequence st iid + word_of_nat (length events)"]
    by (auto simp: append_def)
next
  case (Inr n)
  then have n: "events \<noteq> []" "numbered_from (current_sequence st iid + 1) events"
    "n = current_sequence st iid + word_of_nat (length events)"
    by (simp_all add: append_check_ok)
  have a: "append st iid events = (Inr n, append_commit st iid events n)" using Inr by (simp add: append_def)
  have "get_sequence (append_commit st iid events n) iid = Inr n"
    by (simp add: get_sequence_def append_commit_def)
  then show ?thesis using append_effect [OF assms a] n numbered_last [OF n(2,1)]
    unfolding a by (simp add: algebra_simps)
qed

interpretation mem_log: append_only_log append log_of ee_sequence store_ok
proof (unfold_locales, goal_cases)
  case (1 st i es n st')
  then show ?case using append_effect [OF 1(1)] by auto
next
  case (2 st i es err st')
  then show ?case by (auto simp: append_def split: sum.splits)
next
  case (3 st k i)
  then show ?case by (simp add: store_ok_def numbered_from_def)
qed

theorem append_exact_witness:
  "(case append event_store_new ''i'' [history_event 1 ''WorkflowStarted''] of
      (Inr n, st') \<Rightarrow> n = 1 \<and> log_of st' ''i'' = [history_event 1 ''WorkflowStarted''] | (Inl e, st') \<Rightarrow> False)"
proof -
  have n: "numbered_from (current_sequence event_store_new ''i'' + 1) [history_event 1 ''WorkflowStarted'']"
    by (simp add: numbered_from_Cons current_sequence_def event_store_new_def history_event_def)
  show ?thesis
    using append_exact [OF store_ok_new, where iid = "''i''" and events = "[history_event 1 ''WorkflowStarted'']"] n
      log_of_new [of "''i''"]
    by (auto simp: history_event_def split: prod.splits sum.splits)
qed

text \<open>
  (C15) What the store accepts, replay accepts as a history.  After any sequence of
  append requests to an empty store, each for events of the instance it names, the
  log of every instance is numbered 1, 2, 3 and so on, is a prefix of every later
  log, and replaying it never fails with an instance mismatch, a sequence gap or a
  duplicate sequence number.
\<close>

theorem store_log_replayable:
  assumes "run_trace (\<lambda>st (i, es). append st i es) event_store_new ops = (rs, st)"
    and "run_trace (\<lambda>st (i, es). append st i es) st later = (rs', st')"
    and "\<forall>(i, es) \<in> set ops. \<forall>e \<in> set es. ee_instance_id e = i"
  shows "numbered_from 1 (log_of st iid) \<and> prefix (log_of st iid) (log_of st' iid)
     \<and> (case replay env (log_of st iid) of
          Inl (InstanceMismatch _ _) \<Rightarrow> False | Inl (SequenceGap _ _ _) \<Rightarrow> False
        | Inl (SequenceDuplicate _ _ _) \<Rightarrow> False | _ \<Rightarrow> True)"
proof -
  let ?log = "log_of st iid"
  have ok: "store_ok st" by (rule mem_log.appends_wf [OF assms(1) store_ok_new])
  then have num: "numbered_from 1 ?log" by (simp add: store_ok_def)
  have tag: "ee_instance_id e = iid" if "e \<in> set ?log" for e
    using mem_log.appends_origin [OF assms(1) store_ok_new that] assms(3)
    by (auto simp: event_store_new_def log_of_def)
  have "same_instance ?log"
    unfolding same_instance_def
  proof
    fix e
    assume "e \<in> set ?log"
    moreover from this have "hd ?log \<in> set ?log" by (intro hd_in_set) auto
    ultimately show "ee_instance_id e = ee_instance_id (hd ?log)" using tag by simp
  qed
  then have "replay env ?log = replay_loop env None 0 None ?log"
    using num by (intro replay_unchecked numbered_consecutive)
  then show ?thesis
    using num mem_log.appends_prefix [OF assms(2) ok] replay_loop_errors [of env None 0 None ?log]
    by (auto split: sum.splits ReplayError.splits)
qed

definition demo_appends :: "(InstanceId \<times> string EventEnvelope list) list" where
  "demo_appends = [(''i'', demo_start), (''i'', demo_rest)]"

lemma demo_appends_run:
  "fst (run_trace (\<lambda>st (i, es). append st i es) event_store_new demo_appends) = [Inr 2, Inr 4]"
  by (simp add: demo_appends_def append_def append_check_def append_commit_def event_store_new_def
      demo_start_def demo_rest_def history_event_def)

theorem store_log_replayable_witness:
  "fst (run_trace (\<lambda>st (i, es). append st i es) event_store_new demo_appends) = [Inr 2, Inr 4]
   \<and> numbered_from 1 (log_of (snd (run_trace (\<lambda>st (i, es). append st i es) event_store_new demo_appends)) ''i'')"
proof -
  have r: "run_trace (\<lambda>st (i, es). append st i es) event_store_new demo_appends =
     ([Inr 2, Inr 4], snd (run_trace (\<lambda>st (i, es). append st i es) event_store_new demo_appends))"
    using demo_appends_run by (metis prod.collapse)
  have "\<forall>(i, es) \<in> set demo_appends. \<forall>e \<in> set es. ee_instance_id e = i"
    by (simp add: demo_appends_def demo_start_def demo_rest_def history_event_def)
  from store_log_replayable [OF r run_trace.simps(1) this] demo_appends_run show ?thesis by blast
qed

section \<open>Concurrent appends\<close>

datatype 'j append_thread =
    Not_Started InstanceId "'j EventEnvelope list"
  | Checked InstanceId "'j EventEnvelope list" u64
  | Finished "EventStoreError + u64"

text \<open>
  A step of one of the threads: the reads of \<open>append\<close>, which end it on a
  conflict, or the writes after a successful check.
\<close>

inductive conc_step ::
  "'j event_store \<times> 'j append_thread list \<Rightarrow> 'j event_store \<times> 'j append_thread list \<Rightarrow> bool" where
  check: "t < length ths \<Longrightarrow> ths ! t = Not_Started iid es \<Longrightarrow>
     conc_step (st, ths)
       (st, ths[t := (case append_check st iid es of Inl e \<Rightarrow> Finished (Inl e) | Inr n \<Rightarrow> Checked iid es n)])"
| commit: "t < length ths \<Longrightarrow> ths ! t = Checked iid es n \<Longrightarrow>
     conc_step (st, ths) (append_commit st iid es n, ths[t := Finished (Inr n)])"

inductive_cases conc_step_cases: "conc_step (st, ths) (st', ths')"

text \<open>A thread that runs alone does what \<open>append\<close> does.\<close>

lemma conc_solo:
  "conc_step\<^sup>*\<^sup>* (st, [Not_Started iid es]) (snd (append st iid es), [Finished (fst (append st iid es))])"
proof (cases "append_check st iid es")
  case (Inl e)
  then show ?thesis using conc_step.check [of 0 "[Not_Started iid es]" iid es st]
    by (auto simp: append_def)
next
  case (Inr n)
  have "conc_step (st, [Not_Started iid es]) (st, [Checked iid es n])"
    using conc_step.check [of 0 "[Not_Started iid es]" iid es st] Inr by simp
  moreover have "conc_step (st, [Checked iid es n]) (append_commit st iid es n, [Finished (Inr n)])"
    using conc_step.commit [of 0 "[Checked iid es n]" iid es n st] by simp
  ultimately show ?thesis using Inr by (auto simp: append_def)
qed

text \<open>
  Concurrent appends are not controlled.  Two batches that the store would
  each accept can be appended by two threads that interleave so that both are
  told of success: the log then holds both batches, its numbering is broken, and
  no replay of it succeeds.
\<close>

theorem append_race:
  assumes "append_check st iid a = Inr m" and "append_check st iid b = Inr n"
    and "length a < 2 ^ 64"
  shows "\<exists>st'. conc_step\<^sup>*\<^sup>* (st, [Not_Started iid a, Not_Started iid b]) (st', [Finished (Inr m), Finished (Inr n)])
     \<and> log_of st' iid = log_of st iid @ a @ b \<and> \<not> consecutive (log_of st' iid)
     \<and> \<not> is_ok (replay env (log_of st' iid))"
proof -
  let ?st1 = "append_commit st iid a m" and ?st2 = "append_commit (append_commit st iid a m) iid b n"
  have "conc_step (st, [Not_Started iid a, Not_Started iid b]) (st, [Checked iid a m, Not_Started iid b])"
    using conc_step.check [of 0 "[Not_Started iid a, Not_Started iid b]" iid a st] assms(1) by simp
  moreover have "conc_step (st, [Checked iid a m, Not_Started iid b]) (st, [Checked iid a m, Checked iid b n])"
    using conc_step.check [of 1 "[Checked iid a m, Not_Started iid b]" iid b st] assms(2) by simp
  moreover have "conc_step (st, [Checked iid a m, Checked iid b n]) (?st1, [Finished (Inr m), Checked iid b n])"
    using conc_step.commit [of 0 "[Checked iid a m, Checked iid b n]" iid a m st] by simp
  moreover have "conc_step (?st1, [Finished (Inr m), Checked iid b n]) (?st2, [Finished (Inr m), Finished (Inr n)])"
    using conc_step.commit [of 1 "[Finished (Inr m), Checked iid b n]" iid b n ?st1] by simp
  ultimately have steps: "conc_step\<^sup>*\<^sup>* (st, [Not_Started iid a, Not_Started iid b])
      (?st2, [Finished (Inr m), Finished (Inr n)])"
    by (meson r_into_rtranclp rtranclp_trans)
  have log: "log_of ?st2 iid = log_of st iid @ a @ b" by (simp add: append_commit_log)
  have ab: "a \<noteq> []" "b \<noteq> []" "ee_sequence (hd b) = current_sequence st iid + 1"
    "ee_sequence (last a) = current_sequence st iid + word_of_nat (length a)"
    using assms(1,2) numbered_last [of _ a] by (auto simp: append_check_ok numbered_iff_consecutive)
  have "(word_of_nat (length a) :: u64) \<noteq> 0"
    using assms(3) ab(1) by (simp add: word_unat_eq_iff unat_of_nat)
  then have "\<not> consecutive (a @ b)"
    using ab by (auto simp: consecutive_def successively_append_iff)
  then have "\<not> consecutive (log_of ?st2 iid)"
    unfolding log by (simp add: consecutive_def successively_append_iff)
  then show ?thesis using steps log by (auto simp: is_ok_iff replay_checks)
qed

theorem append_race_witness:
  "\<exists>st'. conc_step\<^sup>*\<^sup>*
       (event_store_new, [Not_Started ''i'' [history_event 1 ''WorkflowStarted''],
                          Not_Started ''i'' [history_event 1 ''WorkflowCancelled'']])
       (st', [Finished (Inr 1), Finished (Inr 1)])
     \<and> \<not> is_ok (replay demo_env (log_of st' ''i''))"
proof -
  have "append_check event_store_new ''i'' [history_event 1 ty] = Inr 1" for ty
    by (simp add: append_check_def event_store_new_def history_event_def)
  from append_race [OF this this, where env = demo_env] show ?thesis by auto
qed

end
