(* ===== verification/Compensation_Order.thy ===== *)
theory Compensation_Order
  imports Workflow
begin

text \<open>
  The planner of saga rollbacks (vo-core/src/compensation_order/topology.rs): it
  validates the dependency lists of the effects to compensate, sorts them
  topologically with a queue of nodes without open dependencies, and reverses
  the result; a depth-first search reports a cycle on its own.  The lemmas show
  that the sort is exact for every iteration order of the hash table it starts
  from, and that the depth-first search simulates the one of the workflow
  validator.
\<close>

section \<open>The planner\<close>

record CompensationNode =
  comp_effect_id :: string
  comp_dependencies :: "string list"

datatype CompensationOrderResult =
    Ordered "string list"
  | Result_CycleDetected "string list"
  | Order_Empty

datatype OrderingError =
    UnknownDependency string string
  | DuplicateEffectId string
  | Order_CycleDetected "string list"

text \<open>The inner loop of \<open>validate_dependencies\<close> over the dependencies of one node.\<close>

fun check_known :: "CompensationNode list \<Rightarrow> string set \<Rightarrow> string \<Rightarrow> string list \<Rightarrow> OrderingError + unit" where
  "check_known all_nodes seen eid [] = Inr ()"
| "check_known all_nodes seen eid (dep # deps) =
     (if dep \<notin> seen \<and> dep \<notin> comp_effect_id ` set all_nodes
      then Inl (UnknownDependency eid dep)
      else check_known all_nodes seen eid deps)"

fun validate_loop :: "CompensationNode list \<Rightarrow> string set \<Rightarrow> CompensationNode list \<Rightarrow> OrderingError + unit" where
  "validate_loop all_nodes seen [] = Inr ()"
| "validate_loop all_nodes seen (node # rest) =
     (if comp_effect_id node \<in> seen then Inl (DuplicateEffectId (comp_effect_id node))
      else
        let seen' = insert (comp_effect_id node) seen in
        and_then (check_known all_nodes seen' (comp_effect_id node) (comp_dependencies node))
          (\<lambda>_. validate_loop all_nodes seen' rest))"

definition validate_dependencies :: "CompensationNode list \<Rightarrow> OrderingError + unit" where
  "validate_dependencies ns = validate_loop ns {} ns"

type_synonym degrees = "string \<rightharpoonup> nat"
type_synonym dependents = "string \<rightharpoonup> string list"

definition init_tables :: "CompensationNode list \<Rightarrow> degrees \<times> dependents" where
  "init_tables ns =
     fold (\<lambda>node (deg, dts). (deg(comp_effect_id node \<mapsto> 0), dts(comp_effect_id node \<mapsto> [])))
       ns (Map.empty, Map.empty)"

definition note_dependency :: "string \<Rightarrow> string \<Rightarrow> degrees \<times> dependents \<Rightarrow> degrees \<times> dependents" where
  "note_dependency eid dep = (\<lambda>(deg, dts).
     ((case deg eid of None \<Rightarrow> deg | Some count \<Rightarrow> deg(eid \<mapsto> count + 1)),
      (case dts dep of None \<Rightarrow> dts | Some node_list \<Rightarrow> dts(dep \<mapsto> node_list @ [eid]))))"

definition fill_tables :: "CompensationNode list \<Rightarrow> degrees \<times> dependents \<Rightarrow> degrees \<times> dependents" where
  "fill_tables ns tables =
     fold (\<lambda>node. fold (note_dependency (comp_effect_id node)) (comp_dependencies node)) ns tables"

text \<open>
  The inner loop of the sort: one open dependency fewer for every dependent.
  \<open>None\<close> is the underflow of \<open>*degree -= 1\<close>.
\<close>

fun release :: "string list \<Rightarrow> degrees \<Rightarrow> string list \<Rightarrow> (degrees \<times> string list) option" where
  "release [] deg queue = Some (deg, queue)"
| "release (d # ds) deg queue =
     (case deg d of
        None \<Rightarrow> release ds deg queue
      | Some 0 \<Rightarrow> None
      | Some (Suc n) \<Rightarrow> release ds (deg(d \<mapsto> n)) (if n = 0 then queue @ [d] else queue))"

text \<open>The \<open>while let\<close> loop; \<open>None\<close> means the fuel ran out or a degree underflowed.\<close>

fun sort_loop ::
  "nat \<Rightarrow> dependents \<Rightarrow> degrees \<Rightarrow> string list \<Rightarrow> string list \<Rightarrow> string list option" where
  "sort_loop fuel dts deg [] order = Some order"
| "sort_loop 0 dts deg (x # queue) order = None"
| "sort_loop (Suc fuel) dts deg (x # queue) order =
     (case dts x of
        None \<Rightarrow> sort_loop fuel dts deg queue (order @ [x])
      | Some dep_list \<Rightarrow>
          (case release dep_list deg queue of
             None \<Rightarrow> None
           | Some (deg', queue') \<Rightarrow> sort_loop fuel dts deg' queue' (order @ [x])))"

text \<open>\<open>hash_iter\<close> is the order in which the keys of \<open>in_degree\<close> are iterated.\<close>

definition compute_compensation_order ::
  "(string list \<Rightarrow> string list) \<Rightarrow> CompensationNode list
     \<Rightarrow> (OrderingError + CompensationOrderResult) option" where
  "compute_compensation_order hash_iter ns =
     (if ns = [] then Some (Inr Order_Empty)
      else
        (case validate_dependencies ns of
           Inl e \<Rightarrow> Some (Inl e)
         | Inr _ \<Rightarrow>
             (let (in_degree, dts) = fill_tables ns (init_tables ns);
                  queue = filter (\<lambda>eid. in_degree eid = Some 0) (hash_iter (map comp_effect_id ns))
              in
              case sort_loop (Suc (length ns)) dts in_degree queue [] of
                None \<Rightarrow> None
              | Some order \<Rightarrow>
                  (if length order \<noteq> length ns
                   then Some (Inl (Order_CycleDetected
                          (map comp_effect_id (filter (\<lambda>n. comp_effect_id n \<notin> set order) ns))))
                   else Some (Inr (Ordered (rev order)))))))"

section \<open>The separate cycle search\<close>

text \<open>
  \<open>dfs\<close> visits an uncoloured node, \<open>dfs_deps\<close> is its loop over the dependencies.
  The outer \<open>None\<close> stands for the panic of \<open>unwrap\<close> and for running out of fuel.
\<close>

fun comp_dfs ::
  "nat \<Rightarrow> (string \<rightharpoonup> string list) \<Rightarrow> string \<Rightarrow> (string \<rightharpoonup> u8) \<Rightarrow> string list
     \<Rightarrow> (string list option \<times> (string \<rightharpoonup> u8) \<times> string list) option"
and comp_dfs_deps ::
  "nat \<Rightarrow> (string \<rightharpoonup> string list) \<Rightarrow> string list \<Rightarrow> (string \<rightharpoonup> u8) \<Rightarrow> string list
     \<Rightarrow> (string list option \<times> (string \<rightharpoonup> u8) \<times> string list) option" where
  "comp_dfs 0 adj node color path = None"
| "comp_dfs (Suc fuel) adj node color path =
     (let color1 = color(node \<mapsto> 1); path1 = path @ [node] in
      case adj node of
        Some deps \<Rightarrow>
          (case comp_dfs_deps fuel adj deps color1 path1 of
             None \<Rightarrow> None
           | Some (Some cycle, color2, path2) \<Rightarrow> Some (Some cycle, color2, path2)
           | Some (None, color2, path2) \<Rightarrow> Some (None, color2(node \<mapsto> 2), butlast path2))
      | None \<Rightarrow> Some (None, color1(node \<mapsto> 2), butlast path1))"
| "comp_dfs_deps fuel adj [] color path = Some (None, color, path)"
| "comp_dfs_deps fuel adj (dep # deps) color path =
     (let dep_color = (case color dep of None \<Rightarrow> 0 | Some c \<Rightarrow> c) in
      if dep_color = 1 then
        (case position dep path of
           None \<Rightarrow> None
         | Some cycle_start \<Rightarrow> Some (Some (drop cycle_start path), color, path))
      else if dep_color = 0 then
        (case comp_dfs fuel adj dep color path of
           None \<Rightarrow> None
         | Some (Some cycle, color1, path1) \<Rightarrow> Some (Some cycle, color1, path1)
         | Some (None, color1, path1) \<Rightarrow> comp_dfs_deps fuel adj deps color1 path1)
      else comp_dfs_deps fuel adj deps color path)"

text \<open>The loop over all nodes, each search starting with an empty path.\<close>

fun comp_dfs_all ::
  "nat \<Rightarrow> (string \<rightharpoonup> string list) \<Rightarrow> string list \<Rightarrow> (string \<rightharpoonup> u8) \<Rightarrow> string list option option" where
  "comp_dfs_all fuel adj [] color = Some None"
| "comp_dfs_all fuel adj (x # xs) color =
     (if (case color x of None \<Rightarrow> 0 | Some c \<Rightarrow> c) = 0 then
        (case comp_dfs fuel adj x color [] of
           None \<Rightarrow> None
         | Some (Some cycle, color1, path1) \<Rightarrow> Some (Some cycle)
         | Some (None, color1, path1) \<Rightarrow> comp_dfs_all fuel adj xs color1)
      else comp_dfs_all fuel adj xs color)"

definition comp_adjacency :: "CompensationNode list \<Rightarrow> (string \<rightharpoonup> string list)" where
  "comp_adjacency ns =
     fold (\<lambda>node adj. adj(comp_effect_id node \<mapsto> comp_dependencies node)) ns Map.empty"

definition comp_detect_cycle :: "CompensationNode list \<Rightarrow> string list option option" where
  "comp_detect_cycle ns =
     (if ns = [] then Some None
      else comp_dfs_all (Suc (length ns))
             (comp_adjacency ns) (map comp_effect_id ns)
             (fold (\<lambda>node color. color(comp_effect_id node \<mapsto> 0)) ns Map.empty))"

datatype OrderPolicy = Policy_Required | Policy_BestEffort | Policy_NotNeeded

definition filter_compensatable ::
  "CompensationNode list \<Rightarrow> (string \<rightharpoonup> OrderPolicy) \<Rightarrow> CompensationNode list" where
  "filter_compensatable ns policies =
     filter (\<lambda>node. case policies (comp_effect_id node) of
                      None \<Rightarrow> True | Some p \<Rightarrow> p \<noteq> Policy_NotNeeded) ns"

section \<open>The tables of the sort\<close>

text \<open>
  \<open>deps_of\<close> and \<open>users_of\<close> are the two directions of the dependency relation with
  its multiplicities.
\<close>

abbreviation comp_ids :: "CompensationNode list \<Rightarrow> string set" where
  "comp_ids ns \<equiv> comp_effect_id ` set ns"

definition deps_of :: "CompensationNode list \<Rightarrow> string \<Rightarrow> string list" where
  "deps_of ns x = concat (map comp_dependencies (filter (\<lambda>n. comp_effect_id n = x) ns))"

definition users_of :: "CompensationNode list \<Rightarrow> string \<Rightarrow> string list" where
  "users_of ns y =
     concat (map (\<lambda>n. replicate (count_list (comp_dependencies n) y) (comp_effect_id n)) ns)"

definition dep_rel :: "CompensationNode list \<Rightarrow> (string \<times> string) set" where
  "dep_rel ns = {(x, y). \<exists>n \<in> set ns. comp_effect_id n = x \<and> y \<in> set (comp_dependencies n)}"

lemma dep_rel_iff: "(x, y) \<in> dep_rel ns \<longleftrightarrow> y \<in> set (deps_of ns x)"
  by (auto simp: dep_rel_def deps_of_def)

lemma count_list_replicate: "count_list (replicate n x) y = (if x = y then n else 0)"
  by (induction n) auto

lemma count_users: "count_list (users_of ns y) x = count_list (deps_of ns x) y"
  by (induction ns) (auto simp: users_of_def deps_of_def count_list_replicate)

lemma set_users: "set (users_of ns y) \<subseteq> comp_ids ns"
  by (auto simp: users_of_def)

lemma note_dependency:
  "note_dependency e d (deg, dts) =
     ((\<lambda>x. map_option (\<lambda>c. if x = e then Suc c else c) (deg x)),
      (\<lambda>y. map_option (\<lambda>l. if y = d then l @ [e] else l) (dts y)))"
  by (auto simp: note_dependency_def fun_eq_iff map_option_case split: option.splits)

lemma fold_note_dependency:
  "fold (note_dependency e) ds (deg, dts) =
     ((\<lambda>x. map_option (\<lambda>c. if x = e then c + length ds else c) (deg x)),
      (\<lambda>y. map_option (\<lambda>l. l @ replicate (count_list ds y) e) (dts y)))"
proof (induction ds arbitrary: deg dts)
  case Nil
  show ?case by (auto simp: fun_eq_iff map_option_case split: option.splits)
next
  case (Cons d ds)
  have "fold (note_dependency e) (d # ds) (deg, dts)
      = fold (note_dependency e) ds (note_dependency e d (deg, dts))" by simp
  then show ?case
    by (auto simp: note_dependency Cons.IH fun_eq_iff map_option_case split: option.splits)
qed

lemma fill_tables:
  "fill_tables ns (deg, dts) =
     ((\<lambda>x. map_option (\<lambda>c. c + length (deps_of ns x)) (deg x)),
      (\<lambda>y. map_option (\<lambda>l. l @ users_of ns y) (dts y)))"
proof (induction ns arbitrary: deg dts)
  case Nil
  show ?case
    by (auto simp: fill_tables_def deps_of_def users_of_def fun_eq_iff map_option_case
        split: option.splits)
next
  case (Cons n ns)
  have "fill_tables (n # ns) (deg, dts) =
      fill_tables ns (fold (note_dependency (comp_effect_id n)) (comp_dependencies n) (deg, dts))"
    by (simp add: fill_tables_def)
  then show ?case
    by (auto simp: fold_note_dependency Cons.IH deps_of_def users_of_def fun_eq_iff map_option_case
        split: option.splits)
qed

lemma init_tables:
  "init_tables ns =
     ((\<lambda>x. if x \<in> comp_ids ns then Some 0 else None),
      (\<lambda>x. if x \<in> comp_ids ns then Some [] else None))"
proof -
  have "fold (\<lambda>node (deg, dts). (deg(comp_effect_id node \<mapsto> 0), dts(comp_effect_id node \<mapsto> [])))
      ns (deg, dts) =
      ((\<lambda>x. if x \<in> comp_ids ns then Some 0 else deg x),
       (\<lambda>x. if x \<in> comp_ids ns then Some [] else dts x))" for deg :: degrees and dts :: dependents
    by (induction ns arbitrary: deg dts) (auto simp: fun_eq_iff)
  then show ?thesis by (simp add: init_tables_def)
qed

lemma filled_tables:
  assumes "fill_tables ns (init_tables ns) = (deg, dts)"
  shows "x \<in> comp_ids ns \<Longrightarrow> deg x = Some (length (deps_of ns x))"
    and "x \<in> comp_ids ns \<Longrightarrow> dts x = Some (users_of ns x)"
  using assms by (auto simp: init_tables fill_tables)

section \<open>Correctness of the sort\<close>

lemma release_correct:
  assumes "\<And>y. y \<in> set ds \<Longrightarrow> \<exists>c. deg y = Some c \<and> count_list ds y \<le> c"
  shows "\<exists>ready. release ds deg queue =
      Some ((\<lambda>y. map_option (\<lambda>c. c - count_list ds y) (deg y)), queue @ ready)
    \<and> distinct ready \<and> set ready = {y \<in> set ds. deg y = Some (count_list ds y)}"
  using assms
proof (induction ds arbitrary: deg queue)
  case Nil
  show ?case by (auto simp: option.map_ident)
next
  case (Cons d ds)
  obtain c where c: "deg d = Some c" "Suc (count_list ds d) \<le> c" using Cons.prems [of d] by auto
  then obtain n where n: "c = Suc n" by (cases c) auto
  let ?deg = "deg(d \<mapsto> n)" and ?queue = "if n = 0 then queue @ [d] else queue"
  have "\<exists>c. ?deg y = Some c \<and> count_list ds y \<le> c" if "y \<in> set ds" for y
    using Cons.prems [of y] that c n by (cases "y = d") auto
  from Cons.IH [where deg = ?deg and queue = ?queue, OF this] obtain ready where
    run: "release ds ?deg ?queue =
        Some ((\<lambda>y. map_option (\<lambda>c. c - count_list ds y) (?deg y)), ?queue @ ready)"
    and ready: "distinct ready" "set ready = {y \<in> set ds. ?deg y = Some (count_list ds y)}"
    by blast
  have tab: "(\<lambda>y. map_option (\<lambda>c. c - count_list ds y) (?deg y))
      = (\<lambda>y. map_option (\<lambda>c. c - count_list (d # ds) y) (deg y))"
  proof
    fix y
    show "map_option (\<lambda>c. c - count_list ds y) (?deg y)
        = map_option (\<lambda>c. c - count_list (d # ds) y) (deg y)"
      by (cases "y = d") (use c n in simp_all)
  qed
  have step: "release (d # ds) deg queue = release ds ?deg ?queue" using c n by simp
  have set_ready: "y \<in> set (d # ds) \<and> deg y = Some (count_list (d # ds) y)
      \<longleftrightarrow> y \<in> set ready \<or> n = 0 \<and> y = d" for y
  proof (cases "y = d")
    case True
    have "y \<in> set ready \<longleftrightarrow> d \<in> set ds \<and> n = count_list ds d" using ready(2) True by simp
    moreover have "deg y = Some (count_list (d # ds) y) \<longleftrightarrow> n = count_list ds d"
      using True c(1) n by simp
    moreover have "d \<in> set ds \<longleftrightarrow> count_list ds d \<noteq> 0" by (simp add: count_list_0_iff)
    moreover have "count_list ds d \<le> n" using c(2) n by simp
    ultimately show ?thesis using True by (cases "d \<in> set ds") auto
  next
    case False
    then show ?thesis using ready(2) by simp
  qed
  then have sets: "{y \<in> set (d # ds). deg y = Some (count_list (d # ds) y)}
      = {y. y \<in> set ready \<or> n = 0 \<and> y = d}" by (rule Collect_cong)
  show ?case
  proof (intro exI conjI)
    show "release (d # ds) deg queue =
        Some ((\<lambda>y. map_option (\<lambda>c. c - count_list (d # ds) y) (deg y)),
          queue @ (if n = 0 then [d] else []) @ ready)"
      unfolding step run tab by simp
    show "distinct ((if n = 0 then [d] else []) @ ready)"
      using ready c n by (simp add: count_list_0_iff)
    show "set ((if n = 0 then [d] else []) @ ready)
        = {y \<in> set (d # ds). deg y = Some (count_list (d # ds) y)}"
      unfolding sets by auto
  qed
qed

text \<open>
  The invariant of the loop: the degree of a node counts its dependencies that
  are not emitted yet, the emitted and the queued nodes are those without an
  open dependency, and every emitted node comes after its dependencies.
\<close>

definition topological :: "CompensationNode list \<Rightarrow> string list \<Rightarrow> bool" where
  "topological ns order \<longleftrightarrow>
     (\<forall>us x vs. order = us @ x # vs \<longrightarrow> set (deps_of ns x) \<subseteq> set us)"

definition sort_inv :: "CompensationNode list \<Rightarrow> degrees \<Rightarrow> string list \<Rightarrow> string list \<Rightarrow> bool" where
  "sort_inv ns deg queue order \<longleftrightarrow>
     distinct (order @ queue)
     \<and> set (order @ queue) = {x \<in> comp_ids ns. set (deps_of ns x) \<subseteq> set order}
     \<and> (\<forall>x \<in> comp_ids ns. deg x = Some (length (filter (\<lambda>d. d \<notin> set order) (deps_of ns x))))
     \<and> topological ns order"

lemma topological_snoc:
  "topological ns order \<Longrightarrow> set (deps_of ns x) \<subseteq> set order \<Longrightarrow> topological ns (order @ [x])"
  by (auto simp: topological_def append_eq_append_conv2 Cons_eq_append_conv append_eq_Cons_conv)

lemma length_filter_notin_snoc:
  "x \<notin> A \<Longrightarrow> length (filter (\<lambda>d. d \<notin> insert x A) ds)
     = length (filter (\<lambda>d. d \<notin> A) ds) - count_list ds x"
  and count_le_filter: "x \<notin> A \<Longrightarrow> count_list ds x \<le> length (filter (\<lambda>d. d \<notin> A) ds)"
  by (induction ds) (auto simp: Suc_diff_le)

lemma filter_notin_empty: "filter (\<lambda>d. d \<notin> A) ds = [] \<longleftrightarrow> set ds \<subseteq> A"
  by (auto simp: filter_empty_conv)

lemma sort_inv_step:
  assumes inv: "sort_inv ns deg (x # queue) order"
  obtains ready where
    "release (users_of ns x) deg queue =
       Some ((\<lambda>y. map_option (\<lambda>c. c - count_list (users_of ns x) y) (deg y)), queue @ ready)"
    "sort_inv ns (\<lambda>y. map_option (\<lambda>c. c - count_list (users_of ns x) y) (deg y))
       (queue @ ready) (order @ [x])"
proof -
  let ?us = "users_of ns x" and ?D = "\<lambda>y. deps_of ns y"
  have dist: "distinct (order @ x # queue)"
    and ready_set: "set (order @ x # queue) = {y \<in> comp_ids ns. set (?D y) \<subseteq> set order}"
    and deg: "\<And>y. y \<in> comp_ids ns \<Longrightarrow> deg y = Some (length (filter (\<lambda>d. d \<notin> set order) (?D y)))"
    and topo: "topological ns order"
    using inv by (auto simp: sort_inv_def)
  have x: "x \<notin> set order" "x \<in> comp_ids ns" "set (?D x) \<subseteq> set order" using dist ready_set by auto
  have open_deps: "\<exists>c. deg y = Some c \<and> count_list ?us y \<le> c" if "y \<in> set ?us" for y
    using that set_users [of ns x] deg [of y] count_le_filter [OF x(1), of "?D y"]
    by (auto simp: count_users)
  from release_correct [OF this] obtain ready where
    run: "release ?us deg queue =
        Some ((\<lambda>y. map_option (\<lambda>c. c - count_list ?us y) (deg y)), queue @ ready)"
    and ready: "distinct ready" "set ready = {y \<in> set ?us. deg y = Some (count_list ?us y)}"
    by blast
  have left: "length (filter (\<lambda>d. d \<notin> set order) (?D y)) - count_list (?D y) x
      = length (filter (\<lambda>d. d \<notin> set (order @ [x])) (?D y))" for y
    using length_filter_notin_snoc [OF x(1), of "?D y"] by simp
  have in_ready: "y \<in> set ready \<longleftrightarrow>
      y \<in> comp_ids ns \<and> x \<in> set (?D y) \<and> set (?D y) \<subseteq> set (order @ [x])" for y
  proof -
    have "y \<in> set ?us \<longleftrightarrow> x \<in> set (?D y)"
      by (metis count_list_0_iff count_users)
    moreover have "y \<in> set ?us \<Longrightarrow> y \<in> comp_ids ns" using set_users by blast
    moreover have "deg y = Some (count_list ?us y) \<longleftrightarrow> set (?D y) \<subseteq> set (order @ [x])"
      if "y \<in> comp_ids ns"
    proof -
      have "deg y = Some (count_list ?us y) \<longleftrightarrow> length (filter (\<lambda>d. d \<notin> set (order @ [x])) (?D y)) = 0"
        using count_le_filter [OF x(1), of "?D y"] unfolding deg [OF that] count_users left [symmetric]
        by auto
      then show ?thesis unfolding length_0_conv filter_notin_empty .
    qed
    ultimately show ?thesis using ready(2) by blast
  qed
  have "set (queue @ ready) \<union> set (order @ [x]) = {y \<in> comp_ids ns. set (?D y) \<subseteq> set (order @ [x])}"
  proof (intro set_eqI iffI)
    fix y
    assume "y \<in> set (queue @ ready) \<union> set (order @ [x])"
    then have "y \<in> set (order @ x # queue) \<or> y \<in> set ready" by auto
    then show "y \<in> {y \<in> comp_ids ns. set (?D y) \<subseteq> set (order @ [x])}"
      unfolding ready_set in_ready by auto
  next
    fix y
    assume "y \<in> {y \<in> comp_ids ns. set (?D y) \<subseteq> set (order @ [x])}"
    then have "y \<in> set (order @ x # queue) \<or> y \<in> set ready" unfolding ready_set in_ready by auto
    then show "y \<in> set (queue @ ready) \<union> set (order @ [x])" by auto
  qed
  moreover have "distinct ((order @ [x]) @ queue @ ready)"
  proof -
    have "y \<notin> set ready" if "y \<in> set (order @ x # queue)" for y
      using that x(1) unfolding ready_set in_ready by auto
    then show ?thesis using dist ready(1) by auto
  qed
  moreover have "topological ns (order @ [x])" by (rule topological_snoc [OF topo x(3)])
  moreover have "map_option (\<lambda>c. c - count_list ?us y) (deg y)
      = Some (length (filter (\<lambda>d. d \<notin> set (order @ [x])) (?D y)))" if "y \<in> comp_ids ns" for y
    using deg [OF that] left [of y] by (simp add: count_users)
  ultimately have "sort_inv ns (\<lambda>y. map_option (\<lambda>c. c - count_list ?us y) (deg y))
      (queue @ ready) (order @ [x])"
    unfolding sort_inv_def set_append by (simp only: Un_commute) blast
  with run show thesis by (rule that)
qed

lemma sort_loop_correct:
  assumes "sort_inv ns deg queue order" and "\<And>y. y \<in> comp_ids ns \<Longrightarrow> dts y = Some (users_of ns y)"
    and "length ns < fuel + length order"
  shows "\<exists>deg' order'. sort_loop fuel dts deg queue order = Some order' \<and> sort_inv ns deg' [] order'"
  using assms
proof (induction fuel dts deg queue order rule: sort_loop.induct)
  case (1 fuel dts deg order)
  then show ?case by auto
next
  case (2 dts deg x queue order)
  have "length (order @ x # queue) = card (set (order @ x # queue))"
    using 2(1) by (intro distinct_card [symmetric]) (simp add: sort_inv_def)
  also have "\<dots> \<le> card (comp_ids ns)" using 2(1) by (intro card_mono) (auto simp: sort_inv_def)
  also have "\<dots> \<le> length ns" by (rule order_trans [OF card_image_le card_length]) simp
  finally show ?case using 2(3) by simp
next
  case (3 fuel dts deg x queue order)
  have "x \<in> comp_ids ns" using 3(3) by (auto simp: sort_inv_def)
  then have dts: "dts x = Some (users_of ns x)" using 3(4) by blast
  from sort_inv_step [OF 3(3)] obtain ready where
    "release (users_of ns x) deg queue =
       Some ((\<lambda>y. map_option (\<lambda>c. c - count_list (users_of ns x) y) (deg y)), queue @ ready)"
    "sort_inv ns (\<lambda>y. map_option (\<lambda>c. c - count_list (users_of ns x) y) (deg y))
       (queue @ ready) (order @ [x])" by blast
  then show ?case using 3(2) [OF dts] 3(4,5) dts by simp
qed

section \<open>Validation and the exact result\<close>

lemma check_known_cases:
  "check_known all_ns seen e deps = Inr () \<longleftrightarrow> set deps \<subseteq> seen \<union> comp_ids all_ns"
  "check_known all_ns seen e deps = Inl err \<Longrightarrow>
     \<exists>d \<in> set deps. err = UnknownDependency e d \<and> d \<notin> comp_ids all_ns"
  by (induction deps) (auto split: if_splits)

definition valid_nodes :: "CompensationNode list \<Rightarrow> bool" where
  "valid_nodes ns \<longleftrightarrow> distinct (map comp_effect_id ns) \<and> Range (dep_rel ns) \<subseteq> comp_ids ns"

lemma validate_loop_Inr:
  "seen \<subseteq> comp_ids all_ns \<Longrightarrow> set rest \<subseteq> set all_ns \<Longrightarrow>
   validate_loop all_ns seen rest = Inr () \<longleftrightarrow>
     distinct (map comp_effect_id rest) \<and> comp_ids rest \<inter> seen = {}
     \<and> (\<forall>n \<in> set rest. set (comp_dependencies n) \<subseteq> comp_ids all_ns)"
proof (induction rest arbitrary: seen)
  case (Cons n rest)
  let ?seen = "insert (comp_effect_id n) seen"
  have sub: "?seen \<subseteq> comp_ids all_ns" using Cons.prems by auto
  have "check_known all_ns ?seen (comp_effect_id n) (comp_dependencies n) = Inr ()
      \<longleftrightarrow> set (comp_dependencies n) \<subseteq> comp_ids all_ns"
    using sub by (auto simp: check_known_cases(1))
  moreover have "validate_loop all_ns ?seen rest = Inr () \<longleftrightarrow>
      distinct (map comp_effect_id rest) \<and> comp_ids rest \<inter> ?seen = {}
      \<and> (\<forall>n \<in> set rest. set (comp_dependencies n) \<subseteq> comp_ids all_ns)"
    by (rule Cons.IH [OF sub]) (use Cons.prems in auto)
  ultimately show ?case by (auto simp: Let_def)
qed simp

lemma validate_dependencies_Inr: "validate_dependencies ns = Inr () \<longleftrightarrow> valid_nodes ns"
proof -
  have "Range (dep_rel ns) = (\<Union>n \<in> set ns. set (comp_dependencies n))" by (auto simp: dep_rel_def)
  then show ?thesis
    using validate_loop_Inr [of "{}" ns ns] by (auto simp: validate_dependencies_def valid_nodes_def)
qed

lemma dep_rel_Cons: "(e, d) \<in> dep_rel ns \<Longrightarrow> (e, d) \<in> dep_rel (n # ns)"
  by (auto simp: dep_rel_def)

lemma validate_loop_Inl:
  assumes "validate_loop all_ns seen rest = Inl err"
  obtains (duplicate) e where "err = DuplicateEffectId e" "e \<in> comp_ids rest"
      "e \<in> seen \<or> \<not> distinct (map comp_effect_id rest)"
    | (unknown) e d where "err = UnknownDependency e d" "(e, d) \<in> dep_rel rest" "d \<notin> comp_ids all_ns"
  using assms
proof (induction rest arbitrary: seen thesis)
  case (Cons n rest)
  let ?e = "comp_effect_id n"
  from Cons.prems(3) consider (seen) "err = DuplicateEffectId ?e" "?e \<in> seen"
    | (known) "check_known all_ns (insert ?e seen) ?e (comp_dependencies n) = Inl err"
    | (later) "validate_loop all_ns (insert ?e seen) rest = Inl err"
    by (cases "?e \<in> seen"; cases "check_known all_ns (insert ?e seen) ?e (comp_dependencies n)")
      (simp_all add: Let_def)
  then show ?case
  proof cases
    case seen
    then show ?thesis by (intro Cons.prems(1) [of ?e]) simp_all
  next
    case known
    then obtain d where "d \<in> set (comp_dependencies n)" "err = UnknownDependency ?e d"
      "d \<notin> comp_ids all_ns" using check_known_cases(2) by blast
    then show ?thesis by (intro Cons.prems(2) [of ?e d]) (auto simp: dep_rel_def)
  next
    case later
    show ?thesis
    proof (rule Cons.IH [OF _ _ later])
      fix e
      assume "err = DuplicateEffectId e" "e \<in> comp_ids rest"
        "e \<in> insert ?e seen \<or> \<not> distinct (map comp_effect_id rest)"
      then show thesis by (intro Cons.prems(1) [of e]) (auto, metis image_eqI)
    next
      fix e d
      assume "err = UnknownDependency e d" "(e, d) \<in> dep_rel rest" "d \<notin> comp_ids all_ns"
      then show thesis by (intro Cons.prems(2) [of e d] dep_rel_Cons)
    qed
  qed
qed simp

lemma validate_dependencies_Inl:
  assumes "validate_dependencies ns = Inl err"
  obtains (duplicate) e where "err = DuplicateEffectId e" "e \<in> comp_ids ns"
      "\<not> distinct (map comp_effect_id ns)"
    | (unknown) e d where "err = UnknownDependency e d" "(e, d) \<in> dep_rel ns" "d \<notin> comp_ids ns"
proof (rule validate_loop_Inl [of ns "{}" ns err])
  show "validate_loop ns {} ns = Inl err" using assms by (simp add: validate_dependencies_def)
qed (use that in auto)

lemma sort_inv_init:
  assumes "fill_tables ns (init_tables ns) = (deg, dts)" and "iter_law it"
  shows "sort_inv ns deg (filter (\<lambda>e. deg e = Some 0) (it (map comp_effect_id ns))) []"
  using assms filled_tables(1) [OF assms(1)]
  by (auto simp: sort_inv_def topological_def iter_law_def)

lemma topological_position:
  assumes "topological ns order" and "a \<in> set order" and "(a, b) \<in> dep_rel ns" and "distinct order"
  shows "the (position b order) < the (position a order)" and "b \<in> set order"
    and "precedes order b a"
proof -
  from assms(2) obtain us vs where o: "order = us @ a # vs" by (auto dest: split_list)
  then have b: "b \<in> set us" using assms(1,3) by (auto simp: topological_def dep_rel_iff)
  have "a \<notin> set us" using assms(4) o by simp
  then show "the (position b order) < the (position a order)"
    using o b position_less [OF b] by (simp add: position_append)
  show "b \<in> set order" using o b by simp
  show "precedes order b a" unfolding o by (rule precedes_append [OF b])
qed

lemma sorted_out:
  assumes inv: "sort_inv ns deg [] order" and valid: "valid_nodes ns" and x: "x \<in> comp_ids ns"
  shows "x \<notin> set order \<longleftrightarrow> leads_to_cycle (dep_rel ns) x"
proof
  assume "x \<notin> set order"
  then show "leads_to_cycle (dep_rel ns) x"
  proof (intro stuck_leads_to_cycle [of "comp_ids ns - set order"])
    fix a
    assume a: "a \<in> comp_ids ns - set order"
    then have "\<not> set (deps_of ns a) \<subseteq> set order" using inv by (auto simp: sort_inv_def)
    then obtain b where "b \<notin> set order" "(a, b) \<in> dep_rel ns" by (auto simp: dep_rel_iff)
    then show "\<exists>b \<in> comp_ids ns - set order. (a, b) \<in> dep_rel ns"
      using valid unfolding valid_nodes_def by blast
  qed (use x in simp_all)
next
  assume cyc: "leads_to_cycle (dep_rel ns) x"
  have topo: "topological ns order" "distinct order" using inv by (simp_all add: sort_inv_def)
  show "x \<notin> set order"
  proof
    assume x: "x \<in> set order"
    have "\<not> leads_to_cycle (dep_rel ns) x"
      by (rule ranked_no_cycle [of _ "set order" x "\<lambda>a. the (position a order)"])
        (use x topo in \<open>auto intro: topological_position\<close>)
    then show False using cyc by blast
  qed
qed

lemma sorted_all:
  assumes inv: "sort_inv ns deg [] order" and valid: "valid_nodes ns"
  shows "length order = length ns \<longleftrightarrow> acyclic (dep_rel ns)"
    and "length order = length ns \<Longrightarrow> set order = comp_ids ns"
proof -
  have sub: "set order \<subseteq> comp_ids ns" "distinct order" using inv by (auto simp: sort_inv_def)
  have "length ns = card (comp_ids ns)"
    using valid distinct_card [of "map comp_effect_id ns"] by (simp add: valid_nodes_def)
  moreover have "length order = card (set order)" using sub(2) by (simp add: distinct_card)
  ultimately have all: "length order = length ns \<longleftrightarrow> set order = comp_ids ns"
    using card_subset_eq [OF _ sub(1)] by auto
  have "x \<in> comp_ids ns" if "leads_to_cycle (dep_rel ns) x" for x
    using leads_to_cycle_Domain [OF that] by (auto simp: dep_rel_def)
  then have "acyclic (dep_rel ns) \<longleftrightarrow> comp_ids ns \<subseteq> set order"
    using sorted_out [OF inv valid] unfolding acyclic_iff_no_leads by blast
  then show "length order = length ns \<longleftrightarrow> acyclic (dep_rel ns)" using all sub(1) by blast
  show "length order = length ns \<Longrightarrow> set order = comp_ids ns" using all by blast
qed

text \<open>A rollback plan: every effect once, each before the effects it depends on.\<close>

definition rollback_plan :: "CompensationNode list \<Rightarrow> string list \<Rightarrow> bool" where
  "rollback_plan ns plan \<longleftrightarrow> distinct plan \<and> set plan = comp_ids ns
     \<and> (\<forall>x y. (x, y) \<in> dep_rel ns \<longrightarrow> precedes plan x y)"

lemma sorted_plan:
  assumes "sort_inv ns deg [] order" and "set order = comp_ids ns"
  shows "rollback_plan ns (rev order)"
proof -
  have "topological ns order" "distinct order" using assms(1) by (simp_all add: sort_inv_def)
  moreover have "x \<in> comp_ids ns" if "(x, y) \<in> dep_rel ns" for x y using that by (auto simp: dep_rel_def)
  ultimately show ?thesis using topological_position(3) assms(2)
    by (auto simp: rollback_plan_def precedes_rev)
qed

lemma compute_valid:
  assumes it: "iter_law it" and ne: "ns \<noteq> []" and valid: "valid_nodes ns"
  obtains (plan) plan where "compute_compensation_order it ns = Some (Inr (Ordered plan))"
      "acyclic (dep_rel ns)" "rollback_plan ns plan"
    | (cycle) "compute_compensation_order it ns = Some (Inl (Order_CycleDetected
          (map comp_effect_id (filter (\<lambda>n. leads_to_cycle (dep_rel ns) (comp_effect_id n)) ns))))"
      "\<not> acyclic (dep_rel ns)"
proof -
  obtain deg dts where tab: "fill_tables ns (init_tables ns) = (deg, dts)" by fastforce
  let ?queue = "filter (\<lambda>e. deg e = Some 0) (it (map comp_effect_id ns))"
  obtain deg' order where run: "sort_loop (Suc (length ns)) dts deg ?queue [] = Some order"
    and inv: "sort_inv ns deg' [] order"
    using sort_loop_correct [OF sort_inv_init [OF tab it], of dts "Suc (length ns)"]
      filled_tables(2) [OF tab] by auto
  have ok: "validate_dependencies ns = Inr ()" using valid by (simp add: validate_dependencies_Inr)
  have res: "compute_compensation_order it ns =
      Some (if length order \<noteq> length ns
            then Inl (Order_CycleDetected
              (map comp_effect_id (filter (\<lambda>n. comp_effect_id n \<notin> set order) ns)))
            else Inr (Ordered (rev order)))"
    using ne ok tab run by (simp add: compute_compensation_order_def)
  show thesis
  proof (cases "length order = length ns")
    case True
    show thesis
      by (rule plan [of "rev order"])
        (use True res sorted_all [OF inv valid] sorted_plan [OF inv] in simp_all)
  next
    case False
    have "filter (\<lambda>n. comp_effect_id n \<notin> set order) ns
        = filter (\<lambda>n. leads_to_cycle (dep_rel ns) (comp_effect_id n)) ns"
      by (rule filter_cong) (simp_all add: sorted_out [OF inv valid])
    then show thesis using False res sorted_all(1) [OF inv valid] by (intro cycle) simp_all
  qed
qed

text \<open>
  (C6) The rollback planner is exact, whatever order the hash table is iterated
  in.  It always returns without an underflow.  It rejects a node list exactly
  for a repeated effect, a dependency on an effect that is not in the list or a
  dependency cycle; in the last case it names precisely the effects from which a
  cycle can be reached along dependencies.  Otherwise the plan holds every effect
  once and undoes each effect before the effects it depends on.
\<close>

theorem compensation_order_exact:
  assumes "iter_law it"
  shows "\<exists>r. compute_compensation_order it ns = Some r \<and>
    (case r of
       Inr Order_Empty \<Rightarrow> ns = []
     | Inr (Ordered plan) \<Rightarrow>
         ns \<noteq> [] \<and> valid_nodes ns \<and> acyclic (dep_rel ns) \<and> rollback_plan ns plan
     | Inr (Result_CycleDetected _) \<Rightarrow> False
     | Inl (DuplicateEffectId e) \<Rightarrow> e \<in> comp_ids ns \<and> \<not> distinct (map comp_effect_id ns)
     | Inl (UnknownDependency e d) \<Rightarrow> (e, d) \<in> dep_rel ns \<and> d \<notin> comp_ids ns
     | Inl (Order_CycleDetected members) \<Rightarrow>
         valid_nodes ns \<and> \<not> acyclic (dep_rel ns)
         \<and> members = map comp_effect_id
             (filter (\<lambda>n. leads_to_cycle (dep_rel ns) (comp_effect_id n)) ns))"
proof (cases "ns = []")
  case True
  then show ?thesis by (simp add: compute_compensation_order_def)
next
  case ne: False
  show ?thesis
  proof (cases "validate_dependencies ns")
    case (Inl err)
    then have "compute_compensation_order it ns = Some (Inl err)"
      using ne by (simp add: compute_compensation_order_def)
    then show ?thesis by (cases rule: validate_dependencies_Inl [OF Inl]) simp_all
  next
    case (Inr u)
    then have valid: "valid_nodes ns" using validate_dependencies_Inr [of ns] by (cases u) simp
    show ?thesis using ne valid
      by (cases rule: compute_valid [OF assms ne valid]) simp_all
  qed
qed

definition demo_rollback :: "CompensationNode list" where
  "demo_rollback =
     [\<lparr>comp_effect_id = ''charge'', comp_dependencies = [''reserve'']\<rparr>,
      \<lparr>comp_effect_id = ''reserve'', comp_dependencies = []\<rparr>,
      \<lparr>comp_effect_id = ''ship'', comp_dependencies = [''charge'', ''reserve'']\<rparr>]"

definition demo_loop :: "CompensationNode list" where
  "demo_loop =
     [\<lparr>comp_effect_id = ''a'', comp_dependencies = [''b'']\<rparr>,
      \<lparr>comp_effect_id = ''b'', comp_dependencies = [''a'']\<rparr>,
      \<lparr>comp_effect_id = ''c'', comp_dependencies = [''a'']\<rparr>,
      \<lparr>comp_effect_id = ''d'', comp_dependencies = []\<rparr>]"

lemma demo_rollback_order:
  "compute_compensation_order remdups demo_rollback
     = Some (Inr (Ordered [''ship'', ''charge'', ''reserve'']))"
  by code_simp

lemma demo_loop_order:
  "compute_compensation_order remdups demo_loop
     = Some (Inl (Order_CycleDetected [''a'', ''b'', ''c'']))"
  by code_simp

theorem compensation_order_exact_witness:
  "iter_law (remdups :: string list \<Rightarrow> string list)
   \<and> rollback_plan demo_rollback [''ship'', ''charge'', ''reserve'']
   \<and> map comp_effect_id (filter (\<lambda>n. leads_to_cycle (dep_rel demo_loop) (comp_effect_id n)) demo_loop)
       = [''a'', ''b'', ''c'']"
  using compensation_order_exact [OF iter_law_remdups, of demo_rollback]
    compensation_order_exact [OF iter_law_remdups, of demo_loop]
  by (simp add: demo_rollback_order demo_loop_order iter_law_remdups)

section \<open>The cycle search simulates that of the workflow validator\<close>

text \<open>
  Colour 0 and no colour mean the same; the search of the planner then goes
  through the same states as \<open>dfs_cycle\<close>, and returns its cycle without the
  repeated last node.
\<close>

definition visited :: "(string \<rightharpoonup> u8) \<Rightarrow> (string \<rightharpoonup> u8)" where
  "visited color = (\<lambda>x. if color x = Some 0 then None else color x)"

lemma visited_upd [simp]: "v \<noteq> 0 \<Longrightarrow> visited (color(x \<mapsto> v)) = (visited color)(x \<mapsto> v)"
  by (auto simp: visited_def)

lemma visited_colour:
  "visited color x = None \<longleftrightarrow> (case color x of None \<Rightarrow> 0 | Some c \<Rightarrow> c) = 0"
  "c \<noteq> 0 \<Longrightarrow> visited color x = Some c \<longleftrightarrow> (case color x of None \<Rightarrow> 0 | Some c \<Rightarrow> c) = c"
  by (auto simp: visited_def split: option.splits)

definition simulates ::
  "(string list option \<times> (string \<rightharpoonup> u8) \<times> string list) option
     \<Rightarrow> string list option \<Rightarrow> (string \<rightharpoonup> u8) \<Rightarrow> string list \<Rightarrow> bool" where
  "simulates run r st path \<longleftrightarrow>
     (\<exists>color. run = Some (map_option butlast r, color, path) \<and> visited color = st)"

lemma back_edge_found:
  assumes "dfs_inv adj (visited color) path" and "visited color x = Some 1"
  obtains i where "position x path = Some i"
proof -
  have "x \<in> set path" using assms by (auto simp: dfs_inv_def)
  then show thesis using that position_None [of x path] by (cases "position x path") auto
qed

lemma comp_dfs_simulates:
  shows "visited color node = None \<Longrightarrow> dfs_inv adj (visited color) path
      \<Longrightarrow> path = [] \<or> (last path, node) \<in> edge_rel adj
      \<Longrightarrow> dfs_cycle fuel adj node (visited color) path = Some (r, st', path')
      \<Longrightarrow> simulates (comp_dfs fuel adj node color path) r st' path'"
    and "dfs_inv adj (visited color) path \<Longrightarrow> path \<noteq> []
      \<Longrightarrow> \<forall>n \<in> set deps. (last path, n) \<in> edge_rel adj
      \<Longrightarrow> dfs_neighbors fuel adj deps (visited color) path = Some (r, st', path')
      \<Longrightarrow> simulates (comp_dfs_deps fuel adj deps color path) r st' path'"
proof (induction fuel adj node color path and fuel adj deps color path
    arbitrary: r st' path' and r st' path' rule: comp_dfs_comp_dfs_deps.induct)
  case (1 adj node color path)
  then show ?case by simp
next
  case (2 fuel adj node color path)
  note inv = dfs_inv_enter(1) [OF 2(3) _ _ 2(4)]
  show ?case
  proof (cases "adj node")
    case None
    then show ?thesis using 2(2,5) by (auto simp: simulates_def Let_def)
  next
    case (Some deps)
    from 2(2,5) Some obtain r1 st1 path1 where
      nb: "dfs_neighbors fuel adj deps ((visited color)(node \<mapsto> 1)) (path @ [node]) = Some (r1, st1, path1)"
      by (auto simp: Let_def split: option.splits)
    have succ: "\<forall>n \<in> set deps. (last (path @ [node]), n) \<in> edge_rel adj"
      using Some by (auto simp: edge_rel_def)
    have "simulates (comp_dfs_deps fuel adj deps (color(node \<mapsto> 1)) (path @ [node])) r1 st1 path1"
      by (rule 2(1) [OF refl refl Some]) (use inv 2(2) succ nb in \<open>simp_all del: fun_upd_apply\<close>)
    then show ?thesis using 2(2,5) Some nb
      by (cases r1) (auto simp: simulates_def Let_def simp del: fun_upd_apply)
  qed
next
  case (3 fuel adj color path)
  then show ?case by (simp add: simulates_def)
next
  case (4 fuel adj dep deps color path)
  have edge: "path = [] \<or> (last path, dep) \<in> edge_rel adj" using 4(6) by simp
  from 4(7) obtain r1 st1 path1 where
    first: "dfs_cycle fuel adj dep (visited color) path = Some (r1, st1, path1)"
    by (auto split: option.splits)
  have post: "dfs_post adj (visited color) path {dep} r1 st1 path1"
    by (rule dfs_correct(1) [OF 4(4) edge first])
  from first obtain fuel' where fuel: "fuel = Suc fuel'" by (cases fuel) auto
  consider (grey) "visited color dep = Some 1" | (black) "visited color dep = Some 2"
    | (white) "visited color dep = None"
    using 4(4) by (cases "visited color dep") (auto simp: dfs_inv_def ran_def)
  then show ?case
  proof cases
    case grey
    then obtain i where i: "position dep path = Some i" using back_edge_found [OF 4(4)] by blast
    have "r = Some (drop i path @ [dep])" "st' = visited color" "path' = path"
      using 4(7) grey i fuel by auto
    then show ?thesis using grey i by (simp add: simulates_def visited_colour Let_def butlast_append)
  next
    case black
    then have "dfs_neighbors fuel adj deps (visited color) path = Some (r, st', path')"
      using 4(7) fuel by simp
    then have "simulates (comp_dfs_deps fuel adj deps color path) r st' path'"
      using 4(3) [OF refl] black 4(4-6) by (auto simp: visited_colour)
    then show ?thesis using black by (simp add: visited_colour Let_def)
  next
    case white
    have s: "simulates (comp_dfs fuel adj dep color path) r1 st1 path1"
      by (rule 4(1) [OF refl _ _ white 4(4) edge first]) (use white in \<open>simp_all add: visited_colour\<close>)
    then obtain color1 where run: "comp_dfs fuel adj dep color path
        = Some (map_option butlast r1, color1, path1)" "visited color1 = st1"
      by (auto simp: simulates_def)
    show ?thesis
    proof (cases r1)
      case None
      then have p: "dfs_inv adj st1 path" "path1 = path" using post by (auto simp: dfs_post_def)
      have rest: "dfs_neighbors fuel adj deps st1 path = Some (r, st', path')"
        using 4(7) first None p(2) by simp
      have "simulates (comp_dfs_deps fuel adj deps color1 path) r st' path'"
        by (rule 4(2) [OF refl _ _ run(1)]) (use white None p rest run(2) 4(5,6) in \<open>simp_all add: visited_colour\<close>)
      then show ?thesis using white run None p(2) by (simp add: visited_colour Let_def)
    next
      case (Some c)
      then have "r = Some c" "st' = st1" "path' = path1" using 4(7) first by simp_all
      then show ?thesis using white run Some by (simp add: simulates_def visited_colour Let_def)
    qed
  qed
qed

lemma comp_dfs_all_simulates:
  "dfs_inv adj (visited color) [] \<Longrightarrow> dfs_rest fuel adj xs (visited color) [] = Some (r, st', path')
    \<Longrightarrow> comp_dfs_all fuel adj xs color = Some (map_option butlast r)"
proof (induction xs arbitrary: color)
  case Nil
  then show ?case by simp
next
  case (Cons x xs)
  show ?case
  proof (cases "visited color x")
    case None
    from Cons.prems(2) None obtain r1 st1 path1 where
      first: "dfs_cycle fuel adj x (visited color) [] = Some (r1, st1, path1)"
      by (auto split: option.splits)
    have post: "dfs_post adj (visited color) [] {x} r1 st1 path1"
      by (rule dfs_correct(1) [OF Cons.prems(1) _ first]) simp
    obtain color1 where run: "comp_dfs fuel adj x color [] = Some (map_option butlast r1, color1, path1)"
      "visited color1 = st1"
      using comp_dfs_simulates(1) [OF None Cons.prems(1) _ first] by (auto simp: simulates_def)
    show ?thesis
    proof (cases r1)
      case r1: None
      then have p: "dfs_inv adj st1 []" "path1 = []" using post by (auto simp: dfs_post_def)
      have "dfs_rest fuel adj xs (visited color1) [] = Some (r, st', path')"
        using Cons.prems(2) None first r1 p(2) run(2) by simp
      then have "comp_dfs_all fuel adj xs color1 = Some (map_option butlast r)"
        using Cons.IH p(1) run(2) by simp
      then show ?thesis using None run r1 by (simp add: visited_colour)
    next
      case (Some c)
      then have "r = Some c" using Cons.prems(2) None first by simp
      then show ?thesis using None run Some by (simp add: visited_colour)
    qed
  next
    case (Some v)
    then have "(case color x of None \<Rightarrow> 0 | Some c \<Rightarrow> c) \<noteq> 0" by (simp flip: visited_colour(1))
    then show ?thesis using Cons.IH [OF Cons.prems(1)] Cons.prems(2) Some by simp
  qed
qed

lemma comp_adjacency:
  "distinct (map comp_effect_id ns) \<Longrightarrow> edge_rel (comp_adjacency ns) = dep_rel ns"
  "dom (comp_adjacency ns) = comp_ids ns"
proof -
  have look: "fold (\<lambda>node adj. adj(comp_effect_id node \<mapsto> comp_dependencies node)) ns adj x =
      (case map_of (rev (map (\<lambda>n. (comp_effect_id n, comp_dependencies n)) ns)) x of
         None \<Rightarrow> adj x | Some ds \<Rightarrow> Some ds)" for adj x
    by (induction ns arbitrary: adj) (auto simp: map_add_def split: option.splits)
  then have adj: "comp_adjacency ns = map_of (rev (map (\<lambda>n. (comp_effect_id n, comp_dependencies n)) ns))"
    by (auto simp: comp_adjacency_def fun_eq_iff split: option.splits)
  show "dom (comp_adjacency ns) = comp_ids ns" unfolding adj dom_map_of_conv_image_fst by force
  show "edge_rel (comp_adjacency ns) = dep_rel ns" if d: "distinct (map comp_effect_id ns)"
  proof -
    have "distinct (map fst (rev (map (\<lambda>n. (comp_effect_id n, comp_dependencies n)) ns)))"
      using d by (simp add: rev_map [symmetric] comp_def)
    then show ?thesis unfolding adj edge_rel_def dep_rel_def by (auto simp: map_of_eq_Some_iff)
  qed
qed

lemma closing_cycle:
  assumes "is_cycle E c"
  shows "butlast c \<noteq> []" and "is_cycle E (butlast c @ [hd (butlast c)])"
proof -
  from assms obtain x y zs where c: "c = x # y # zs" "last (y # zs) = x"
    by (cases c; cases "tl c") (auto simp: is_cycle_def)
  then have "butlast c @ [hd (butlast c)] = butlast c @ [last c]" by simp
  also have "\<dots> = c" using c by (intro append_butlast_last_id) simp
  finally show "is_cycle E (butlast c @ [hd (butlast c)])" using assms by simp
  show "butlast c \<noteq> []" using c by simp
qed

lemma comp_detect_cycle_result:
  assumes d: "distinct (map comp_effect_id ns)"
  obtains (acyclic) "comp_detect_cycle ns = Some None" "acyclic (dep_rel ns)"
    | (cyclic) c where "comp_detect_cycle ns = Some (Some c)" "c \<noteq> []" "is_cycle (dep_rel ns) (c @ [hd c])"
proof (cases "ns = []")
  case True
  then show thesis using acyclic by (simp add: comp_detect_cycle_def dep_rel_def acyclic_def)
next
  case False
  let ?adj = "comp_adjacency ns" and ?fuel = "Suc (length ns)" and ?xs = "map comp_effect_id ns"
  let ?white = "fold (\<lambda>node color. color(comp_effect_id node \<mapsto> 0)) ns Map.empty"
  have "fold (\<lambda>node color. color(comp_effect_id node \<mapsto> 0)) ms m x \<in> {None, Some 0}"
    if "m x \<in> {None, Some 0}" for ms x and m :: "string \<rightharpoonup> u8"
    using that by (induction ms arbitrary: m) auto
  from this [of Map.empty] have white: "visited ?white = Map.empty"
    by (fastforce simp: visited_def fun_eq_iff)
  have fin: "finite (dom ?adj)" by (simp add: comp_adjacency(2))
  have "card (dom ?adj) \<le> length ns" unfolding comp_adjacency(2)
    by (rule order_trans [OF card_image_le card_length]) simp
  then obtain r st' path' where
    rest: "dfs_rest ?fuel ?adj ?xs Map.empty [] = Some (r, st', path')"
    using dfs_rest_returns [OF fin, of Map.empty ?fuel ?xs "[]"] by auto
  have res: "comp_detect_cycle ns = Some (map_option butlast r)"
    using comp_dfs_all_simulates [of ?adj ?white ?fuel ?xs] rest dfs_inv_init False
    by (simp add: comp_detect_cycle_def white)
  have post: "dfs_post ?adj Map.empty [] (set ?xs) r st' path'"
    by (rule dfs_rest_correct [OF dfs_inv_init rest])
  show thesis
  proof (cases r)
    case (Some c)
    then have "is_cycle (dep_rel ns) c" using post comp_adjacency(1) [OF d] by (simp add: dfs_post_def)
    then show thesis using closing_cycle [of "dep_rel ns" c] res Some by (intro cyclic [of "butlast c"]) simp_all
  next
    case None
    then have "\<forall>x \<in> comp_ids ns. (x, x) \<notin> (dep_rel ns)\<^sup>+"
      using post comp_adjacency(1) [OF d] by (auto simp: dfs_post_def dfs_inv_def)
    moreover have "x \<in> comp_ids ns" if "(x, x) \<in> (dep_rel ns)\<^sup>+" for x
      using that by (rule converse_tranclE) (auto simp: dep_rel_def)
    ultimately have "acyclic (dep_rel ns)" by (auto simp: acyclic_def)
    then show thesis using res None by (intro acyclic) simp_all
  qed
qed

text \<open>
  The two ways of finding dependency cycles agree.  On a valid node list the
  depth-first search returns; it finds nothing exactly when the planner produces
  a plan (or has nothing to plan), and what it finds is a genuine simple cycle of
  dependencies, every node of which the planner reports as well.
\<close>

theorem cycle_search_agrees:
  assumes "iter_law it" and "valid_nodes ns"
  shows "\<exists>r. comp_detect_cycle ns = Some r
    \<and> (r = None \<longleftrightarrow> (\<exists>plan. compute_compensation_order it ns = Some (Inr plan)))
    \<and> (\<forall>c. r = Some c \<longrightarrow> c \<noteq> [] \<and> is_cycle (dep_rel ns) (c @ [hd c])
          \<and> (\<exists>members. compute_compensation_order it ns = Some (Inl (Order_CycleDetected members))
               \<and> set c \<subseteq> set members))"
proof -
  have d: "distinct (map comp_effect_id ns)" using assms(2) by (simp add: valid_nodes_def)
  show ?thesis
  proof (cases "ns = []")
    case True
    then show ?thesis by (simp add: comp_detect_cycle_def compute_compensation_order_def)
  next
    case ne: False
    show ?thesis
    proof (cases rule: comp_detect_cycle_result [OF d])
      case 1
      then show ?thesis by (cases rule: compute_valid [OF assms(1) ne assms(2)]) simp_all
    next
      case (2 c)
      then have "\<not> acyclic (dep_rel ns)" using is_cycle_not_acyclic by blast
      moreover have "leads_to_cycle (dep_rel ns) x \<and> x \<in> comp_ids ns" if "x \<in> set c" for x
        using cycle_members_lead [OF 2(3), of x] leads_to_cycle_Domain [of "dep_rel ns" x] that
        by (auto simp: dep_rel_def)
      ultimately show ?thesis using 2
        by (cases rule: compute_valid [OF assms(1) ne assms(2)]) auto
    qed
  qed
qed

theorem cycle_search_agrees_witness:
  "iter_law (remdups :: string list \<Rightarrow> string list) \<and> valid_nodes demo_rollback \<and> valid_nodes demo_loop
   \<and> comp_detect_cycle demo_rollback = Some None
   \<and> comp_detect_cycle demo_loop = Some (Some [''a'', ''b''])
   \<and> is_cycle (dep_rel demo_loop) [''a'', ''b'', ''a'']"
proof -
  have v: "valid_nodes demo_rollback" "valid_nodes demo_loop"
    by (simp_all add: validate_dependencies_Inr [symmetric]) code_simp+
  have c: "comp_detect_cycle demo_loop = Some (Some [''a'', ''b''])" by code_simp
  show ?thesis
    using cycle_search_agrees [OF iter_law_remdups v(1)] cycle_search_agrees [OF iter_law_remdups v(2)]
    by (simp add: v c demo_rollback_order iter_law_remdups)
qed

end
