(* ===== verification/Sagas.thy ===== *)
theory Sagas
  imports Machines Effects
begin

text \<open>
  The protocol machines of distributed rollback and commit: compensation
  actions (vo-types/src/compensation.rs), saga coordinators
  (vo-types/src/saga_coordinator.rs) and the two-phase commit coordinator
  (vo-types/src/tx_coordinator/types.rs).  Each is a fallible step function; the
  contracts of \<open>Machines\<close> are interpreted on them.
\<close>

section \<open>Compensation actions\<close>

datatype CompensationStatus =
    Comp_NotNeeded | Comp_Pending | Comp_InProgress | Comp_Succeeded | Comp_Failed

datatype CompensationTransitionEvent = Comp_Start | Comp_Succeed | Comp_Fail

datatype CompensationTransitionError = Comp_TerminalStateTransition | Comp_InvalidTransition

record CompensationRecord =
  cr_effect_id :: string
  cr_policy :: CompensationPolicy
  cr_status :: CompensationStatus
  cr_compensation_effect_id :: "string option"
  cr_started_at :: "TimestampMs option"
  cr_completed_at :: "TimestampMs option"

definition comp_is_terminal :: "CompensationStatus \<Rightarrow> bool" where
  "comp_is_terminal s \<longleftrightarrow> s = Comp_NotNeeded \<or> s = Comp_Succeeded \<or> s = Comp_Failed"

definition CompensationRecord_new ::
  "string \<Rightarrow> CompensationPolicy \<Rightarrow> CompensationStatus \<Rightarrow> string option
     \<Rightarrow> TimestampMs option \<Rightarrow> TimestampMs option \<Rightarrow> CompensationRecord option" where
  "CompensationRecord_new eid policy status ceid started completed =
     (if eid = [] then None
      else Some \<lparr>cr_effect_id = eid, cr_policy = policy, cr_status = status,
             cr_compensation_effect_id = ceid, cr_started_at = started, cr_completed_at = completed\<rparr>)"

fun apply_compensation_transition ::
  "CompensationStatus \<Rightarrow> CompensationTransitionEvent
     \<Rightarrow> CompensationTransitionError + CompensationStatus" where
  "apply_compensation_transition Comp_Pending Comp_Start = Inr Comp_InProgress"
| "apply_compensation_transition Comp_Pending Comp_Fail = Inr Comp_Failed"
| "apply_compensation_transition Comp_InProgress Comp_Succeed = Inr Comp_Succeeded"
| "apply_compensation_transition Comp_InProgress Comp_Fail = Inr Comp_Failed"
| "apply_compensation_transition Comp_NotNeeded _ = Inl Comp_TerminalStateTransition"
| "apply_compensation_transition Comp_Succeeded _ = Inl Comp_TerminalStateTransition"
| "apply_compensation_transition Comp_Failed _ = Inl Comp_TerminalStateTransition"
| "apply_compensation_transition Comp_Pending Comp_Succeed = Inl Comp_InvalidTransition"
| "apply_compensation_transition Comp_InProgress Comp_Start = Inl Comp_InvalidTransition"

section \<open>Saga coordinators\<close>

datatype SagaState = Saga_Init | Saga_Executing | Saga_Compensating | Saga_Completed | Saga_Failed

datatype SagaStepStatus =
    Step_Pending | Step_Executing | Step_Completed | Step_CompensationPending
  | Step_Compensating | Step_Compensated | Step_CompensationFailed

datatype SagaTransition =
    Saga_Begin | Saga_StepCompleted | Saga_StepFailed | Saga_CompensationCompleted
  | Saga_CompensationFailed | Saga_AllCompensated | Saga_Recover

datatype SagaTransitionError = Saga_TerminalStateTransition | Saga_InvalidTransition

record SagaStep =
  ss_step_id :: string
  ss_effect_id :: string
  ss_compensation_effect_id :: "string option"
  ss_policy :: CompensationPolicy
  ss_status :: SagaStepStatus
  ss_dependencies :: "string list"

record SagaRecord =
  sr_saga_id :: string
  sr_state :: SagaState
  sr_steps :: "SagaStep list"
  sr_current_step_index :: nat
  sr_completed_step_indices :: "nat list"
  sr_compensation_stack :: "nat list"
  sr_created_at :: "TimestampMs option"
  sr_completed_at :: "TimestampMs option"
  sr_failed_at :: "TimestampMs option"

definition saga_is_terminal :: "SagaState \<Rightarrow> bool" where
  "saga_is_terminal s \<longleftrightarrow> s = Saga_Completed \<or> s = Saga_Failed"

definition SagaStep_new ::
  "string \<Rightarrow> string \<Rightarrow> string option \<Rightarrow> CompensationPolicy \<Rightarrow> string list \<Rightarrow> SagaStep option" where
  "SagaStep_new step_id eid ceid policy deps =
     (if step_id = [] \<or> eid = [] then None
      else Some \<lparr>ss_step_id = step_id, ss_effect_id = eid, ss_compensation_effect_id = ceid,
             ss_policy = policy, ss_status = Step_Pending, ss_dependencies = deps\<rparr>)"

definition SagaRecord_new :: "string \<Rightarrow> SagaStep list \<Rightarrow> TimestampMs option \<Rightarrow> SagaRecord option" where
  "SagaRecord_new saga_id steps created =
     (if saga_id = [] then None
      else Some \<lparr>sr_saga_id = saga_id, sr_state = Saga_Init, sr_steps = steps,
             sr_current_step_index = 0, sr_completed_step_indices = [], sr_compensation_stack = [],
             sr_created_at = created, sr_completed_at = None, sr_failed_at = None\<rparr>)"

definition next_step :: "SagaRecord \<Rightarrow> SagaStep option" where
  "next_step r =
     (if sr_current_step_index r < length (sr_steps r)
      then Some (sr_steps r ! sr_current_step_index r) else None)"

text \<open>\<open>next_compensation\<close> indexes the steps and panics (outer \<open>None\<close>) out of range.\<close>

definition next_compensation :: "SagaRecord \<Rightarrow> SagaStep option option" where
  "next_compensation r =
     (if sr_compensation_stack r = [] then Some None
      else
        let idx = last (sr_compensation_stack r) in
        if idx < length (sr_steps r) then Some (Some (sr_steps r ! idx)) else None)"

fun apply_saga_transition :: "SagaState \<Rightarrow> SagaTransition \<Rightarrow> SagaTransitionError + SagaState" where
  "apply_saga_transition Saga_Init Saga_Begin = Inr Saga_Executing"
| "apply_saga_transition Saga_Executing Saga_StepCompleted = Inr Saga_Executing"
| "apply_saga_transition Saga_Executing Saga_StepFailed = Inr Saga_Compensating"
| "apply_saga_transition Saga_Compensating Saga_CompensationCompleted = Inr Saga_Compensating"
| "apply_saga_transition Saga_Compensating Saga_CompensationFailed = Inr Saga_Failed"
| "apply_saga_transition Saga_Compensating Saga_AllCompensated = Inr Saga_Failed"
| "apply_saga_transition Saga_Executing Saga_Recover = Inr Saga_Executing"
| "apply_saga_transition Saga_Compensating Saga_Recover = Inr Saga_Compensating"
| "apply_saga_transition Saga_Init Saga_Recover = Inr Saga_Init"
| "apply_saga_transition Saga_Executing Saga_CompensationFailed = Inr Saga_Failed"
| "apply_saga_transition Saga_Completed _ = Inl Saga_TerminalStateTransition"
| "apply_saga_transition Saga_Failed _ = Inl Saga_TerminalStateTransition"
| "apply_saga_transition Saga_Init _ = Inl Saga_InvalidTransition"
| "apply_saga_transition Saga_Executing _ = Inl Saga_InvalidTransition"
| "apply_saga_transition Saga_Compensating _ = Inl Saga_InvalidTransition"

section \<open>Two-phase commit\<close>

datatype TransactionState =
    Tx_Init | Tx_Enrolling | Tx_Preparing | Tx_Prepared | Tx_Committing | Tx_Committed
  | Tx_RollingBack | Tx_RolledBack | Tx_Aborted | Tx_Ambiguous

datatype ParticipantStatus =
    Part_Enrolled | Part_Prepared | Part_VotedRollback | Part_Committed | Part_RolledBack | Part_Unknown

datatype CoordinatorDecision = Decision_Commit | Decision_Rollback

datatype CoordinatorTransition =
    BeginEnroll | BeginPrepare | ParticipantPrepared | ParticipantRollback | AllResponded
  | DecideCommit | DecideRollback | Tx_Timeout | Tx_Recover
  | ReconcileCommitted | ReconcileRolledBack | Tx_ReconcileRetry

datatype CoordinatorTransitionError =
    Tx_TerminalStateTransition | Tx_InvalidTransition | InsufficientVotes

datatype ParticipantVote = Vote_Prepared | Vote_Rollback

record ParticipantRecord =
  pr_participant_id :: string
  pr_status :: ParticipantStatus
  pr_vote :: "ParticipantVote option"

record TransactionRecord =
  tr_transaction_id :: string
  tr_state :: TransactionState
  tr_decision :: "CoordinatorDecision option"
  tr_participants :: "ParticipantRecord list"
  tr_created_at :: "TimestampMs option"
  tr_prepared_at :: "TimestampMs option"
  tr_committed_at :: "TimestampMs option"

definition tx_is_terminal :: "TransactionState \<Rightarrow> bool" where
  "tx_is_terminal s \<longleftrightarrow> s = Tx_Committed \<or> s = Tx_RolledBack \<or> s = Tx_Aborted"

definition ParticipantRecord_new ::
  "string \<Rightarrow> ParticipantStatus \<Rightarrow> ParticipantVote option \<Rightarrow> ParticipantRecord option" where
  "ParticipantRecord_new pid status vote =
     (if pid = [] then None
      else Some \<lparr>pr_participant_id = pid, pr_status = status, pr_vote = vote\<rparr>)"

definition TransactionRecord_new ::
  "string \<Rightarrow> TransactionState \<Rightarrow> CoordinatorDecision option \<Rightarrow> ParticipantRecord list
     \<Rightarrow> TimestampMs option \<Rightarrow> TimestampMs option \<Rightarrow> TimestampMs option
     \<Rightarrow> TransactionRecord option" where
  "TransactionRecord_new tid st decision parts created prepared committed =
     (if tid = [] then None
      else Some \<lparr>tr_transaction_id = tid, tr_state = st, tr_decision = decision,
             tr_participants = parts, tr_created_at = created, tr_prepared_at = prepared,
             tr_committed_at = committed\<rparr>)"

definition apply_coordinator_transition ::
  "TransactionState \<Rightarrow> CoordinatorTransition \<Rightarrow> CoordinatorTransitionError + TransactionState" where
  "apply_coordinator_transition current event =
     (case (current, event) of
        (Tx_Init, BeginEnroll) \<Rightarrow> Inr Tx_Enrolling
      | (Tx_Enrolling, BeginPrepare) \<Rightarrow> Inr Tx_Preparing
      | (Tx_Preparing, ParticipantPrepared) \<Rightarrow> Inr Tx_Preparing
      | (Tx_Preparing, ParticipantRollback) \<Rightarrow> Inr Tx_Preparing
      | (Tx_Preparing, AllResponded) \<Rightarrow> Inr Tx_Prepared
      | (Tx_Preparing, Tx_Timeout) \<Rightarrow> Inr Tx_Aborted
      | (Tx_Prepared, DecideCommit) \<Rightarrow> Inr Tx_Committing
      | (Tx_Prepared, DecideRollback) \<Rightarrow> Inr Tx_RollingBack
      | (Tx_Prepared, Tx_Timeout) \<Rightarrow> Inr Tx_Aborted
      | (Tx_Committing, AllResponded) \<Rightarrow> Inr Tx_Committed
      | (Tx_Committing, Tx_Timeout) \<Rightarrow> Inr Tx_Ambiguous
      | (Tx_RollingBack, AllResponded) \<Rightarrow> Inr Tx_RolledBack
      | (Tx_RollingBack, Tx_Timeout) \<Rightarrow> Inr Tx_Ambiguous
      | (Tx_Committed, _) \<Rightarrow> Inl Tx_TerminalStateTransition
      | (Tx_RolledBack, _) \<Rightarrow> Inl Tx_TerminalStateTransition
      | (Tx_Aborted, _) \<Rightarrow> Inl Tx_TerminalStateTransition
      | (Tx_Ambiguous, ReconcileCommitted) \<Rightarrow> Inr Tx_Committed
      | (Tx_Ambiguous, ReconcileRolledBack) \<Rightarrow> Inr Tx_RolledBack
      | (Tx_Ambiguous, Tx_ReconcileRetry) \<Rightarrow> Inr Tx_Ambiguous
      | (s, Tx_Recover) \<Rightarrow> if \<not> tx_is_terminal s then Inr Tx_Ambiguous else Inl Tx_InvalidTransition
      | _ \<Rightarrow> Inl Tx_InvalidTransition)"

section \<open>The machines as instances of the contracts\<close>

definition comp_rank :: "CompensationStatus \<Rightarrow> nat" where
  "comp_rank s = (if s = Comp_Pending then 2 else if s = Comp_InProgress then 1 else 0)"

interpretation compensation: bounded_machine apply_compensation_transition comp_is_terminal comp_rank
proof unfold_locales
  show "\<exists>err. apply_compensation_transition s e = Inl err" if "comp_is_terminal s" for s e
    using that by (cases s; cases e) (auto simp: comp_is_terminal_def)
  show "comp_rank t < comp_rank s" if "apply_compensation_transition s e = Inr t" for s e t
    using that by (cases s; cases e) (auto simp: comp_rank_def)
qed

interpretation saga: machine apply_saga_transition saga_is_terminal
proof unfold_locales
  show "t = s" if "saga_is_terminal s" "apply_saga_transition s e = Inr t" for s e t
    using that by (cases s) (auto simp: saga_is_terminal_def)
qed

interpretation tx: machine apply_coordinator_transition tx_is_terminal
proof unfold_locales
  show "t = s" if "tx_is_terminal s" "apply_coordinator_transition s e = Inr t" for s e t
    using that by (cases s) (auto simp: tx_is_terminal_def apply_coordinator_transition_def)
qed

section \<open>Outcomes\<close>

text \<open>A compensation action takes at most two steps and is then closed.\<close>

lemma compensation_two_steps:
  "exec apply_compensation_transition s es = Inr t \<Longrightarrow> length es \<le> 2"
  using compensation.exec_bounded [of s es t] by (simp add: comp_rank_def split: if_splits)

definition saga_history :: "SagaTransition list \<Rightarrow> SagaState \<Rightarrow> bool" where
  "saga_history es s \<longleftrightarrow>
     s \<noteq> Saga_Completed
     \<and> (s \<in> {Saga_Init, Saga_Executing} \<longrightarrow> Saga_StepFailed \<notin> set es)
     \<and> (s = Saga_Compensating \<longrightarrow> Saga_StepFailed \<in> set es)
     \<and> (s = Saga_Failed \<longrightarrow> es \<noteq> [] \<and>
          (last es = Saga_CompensationFailed \<or> last es = Saga_AllCompensated \<and> Saga_StepFailed \<in> set es))
     \<and> (\<forall>us vs. es = us @ Saga_StepFailed # vs \<longrightarrow>
          set vs \<subseteq> {Saga_CompensationCompleted, Saga_CompensationFailed, Saga_AllCompensated, Saga_Recover})"

lemma saga_history_init: "saga_history [] Saga_Init"
  by (simp add: saga_history_def)

lemma saga_history_step:
  assumes "saga_history es u" and "apply_saga_transition u e = Inr v"
  shows "saga_history (es @ [e]) v"
proof -
  have "set ws \<subseteq> {Saga_CompensationCompleted, Saga_CompensationFailed, Saga_AllCompensated, Saga_Recover}"
    if "es @ [e] = us @ Saga_StepFailed # ws" for us ws
  proof (cases ws rule: rev_cases)
    case (snoc vs x)
    then have "es = us @ Saga_StepFailed # vs" "x = e" using that by auto
    moreover have "u = Saga_Compensating"
      using assms \<open>es = _\<close> by (cases u) (auto simp: saga_history_def)
    ultimately show ?thesis using assms snoc by (cases e) (auto simp: saga_history_def)
  qed simp
  then show ?thesis using assms
    by (cases u; cases e) (auto simp: saga_history_def)
qed

text \<open>
  What a saga can end in.  Along every accepted sequence of events from
  \<open>Init\<close> the saga is never \<open>Completed\<close>; it compensates only after a step failed,
  and from then on accepts no forward step; it fails only by a failed
  compensation or, after a failed step, once everything is compensated; and a
  failed saga rejects every further event.
\<close>

theorem saga_outcomes:
  assumes "exec apply_saga_transition Saga_Init es = Inr s"
  shows "s \<noteq> Saga_Completed
    \<and> (s = Saga_Compensating \<longrightarrow> Saga_StepFailed \<in> set es)
    \<and> (\<forall>us vs. es = us @ Saga_StepFailed # vs \<longrightarrow>
         set vs \<subseteq> {Saga_CompensationCompleted, Saga_CompensationFailed, Saga_AllCompensated, Saga_Recover})
    \<and> (s = Saga_Failed \<longrightarrow>
         (last es = Saga_CompensationFailed \<or> last es = Saga_AllCompensated \<and> Saga_StepFailed \<in> set es)
         \<and> (\<forall>e. apply_saga_transition s e = Inl Saga_TerminalStateTransition))"
proof -
  have "saga_history es s"
    by (rule exec_history [where P = saga_history, OF assms saga_history_init]) (rule saga_history_step)
  then show ?thesis by (auto simp: saga_history_def)
qed

theorem saga_outcomes_witness:
  "exec apply_saga_transition Saga_Init
     [Saga_Begin, Saga_StepCompleted, Saga_StepFailed, Saga_CompensationCompleted, Saga_AllCompensated]
     = Inr Saga_Failed
   \<and> apply_saga_transition Saga_Failed Saga_Recover = Inl Saga_TerminalStateTransition"
  using saga_outcomes [of "[Saga_Begin, Saga_StepCompleted, Saga_StepFailed,
      Saga_CompensationCompleted, Saga_AllCompensated]" Saga_Failed]
  by simp

definition tx_history :: "CoordinatorTransition list \<Rightarrow> TransactionState \<Rightarrow> bool" where
  "tx_history es s \<longleftrightarrow>
     \<not> (DecideCommit \<in> set es \<and> DecideRollback \<in> set es)
     \<and> (s \<in> {Tx_Init, Tx_Enrolling, Tx_Preparing, Tx_Prepared, Tx_Aborted} \<longrightarrow>
          DecideCommit \<notin> set es \<and> DecideRollback \<notin> set es)
     \<and> (s \<in> {Tx_Prepared, Tx_Committing, Tx_RollingBack} \<longrightarrow> BeginPrepare \<in> set es \<and> AllResponded \<in> set es)
     \<and> (s = Tx_Committing \<longrightarrow> DecideCommit \<in> set es)
     \<and> (s = Tx_RollingBack \<longrightarrow> DecideRollback \<in> set es)
     \<and> (s = Tx_Preparing \<longrightarrow> BeginPrepare \<in> set es)
     \<and> (s = Tx_Ambiguous \<longrightarrow> Tx_Timeout \<in> set es \<or> Tx_Recover \<in> set es)
     \<and> (s = Tx_Aborted \<longrightarrow> es \<noteq> [] \<and> last es = Tx_Timeout)
     \<and> (s = Tx_Committed \<longrightarrow> es \<noteq> [] \<and>
          (last es = AllResponded \<and> DecideCommit \<in> set es
           \<or> last es = ReconcileCommitted \<and> (Tx_Timeout \<in> set es \<or> Tx_Recover \<in> set es)))
     \<and> (s = Tx_RolledBack \<longrightarrow> es \<noteq> [] \<and>
          (last es = AllResponded \<and> DecideRollback \<in> set es
           \<or> last es = ReconcileRolledBack \<and> (Tx_Timeout \<in> set es \<or> Tx_Recover \<in> set es)))"

lemma tx_history_init: "tx_history [] Tx_Init"
  by (simp add: tx_history_def)

lemma tx_history_step:
  assumes "tx_history es u" and "apply_coordinator_transition u e = Inr v"
  shows "tx_history (es @ [e]) v"
  using assms
  by (cases u; cases e)
    (auto simp: tx_history_def apply_coordinator_transition_def tx_is_terminal_def)

text \<open>
  (C17) The coordinator keeps to its decision.  No accepted sequence of events
  contains both decisions.  It commits only when every participant answered after
  a decision to commit, or when a reconciliation after a timeout or a crash says
  so; it rolls back under the mirrored conditions, and it aborts only by a timeout
  before any decision.  Neither a participant that votes for rollback nor a crash
  of the coordinator aborts the transaction, although the documentation of the
  type and section 8.1 of the contract say so: the recovery after a crash takes
  every unfinished transaction to the ambiguous state.  Every terminal outcome
  is final.
\<close>

theorem tx_outcome_consistent:
  assumes "exec apply_coordinator_transition Tx_Init es = Inr t"
  shows "\<not> (DecideCommit \<in> set es \<and> DecideRollback \<in> set es)
    \<and> (t = Tx_Committed \<longrightarrow>
         last es = AllResponded \<and> DecideCommit \<in> set es \<and> DecideRollback \<notin> set es
         \<or> last es = ReconcileCommitted \<and> (Tx_Timeout \<in> set es \<or> Tx_Recover \<in> set es))
    \<and> (t = Tx_RolledBack \<longrightarrow>
         last es = AllResponded \<and> DecideRollback \<in> set es \<and> DecideCommit \<notin> set es
         \<or> last es = ReconcileRolledBack \<and> (Tx_Timeout \<in> set es \<or> Tx_Recover \<in> set es))
    \<and> (t = Tx_Aborted \<longrightarrow>
         last es = Tx_Timeout \<and> DecideCommit \<notin> set es \<and> DecideRollback \<notin> set es)
    \<and> (\<not> tx_is_terminal t \<longrightarrow>
         exec apply_coordinator_transition Tx_Init (es @ [Tx_Recover]) = Inr Tx_Ambiguous)
    \<and> (tx_is_terminal t \<longrightarrow>
         (\<forall>fs u. exec apply_coordinator_transition Tx_Init (es @ fs) = Inr u \<longrightarrow> u = t))"
proof -
  have "tx_history es t"
    by (rule exec_history [where P = tx_history, OF assms tx_history_init]) (rule tx_history_step)
  moreover have "exec apply_coordinator_transition Tx_Init (es @ [Tx_Recover]) = Inr Tx_Ambiguous"
    if "\<not> tx_is_terminal t"
    using assms that
    by (cases t) (simp_all add: exec_snoc apply_coordinator_transition_def tx_is_terminal_def)
  ultimately show ?thesis using tx.outcome_stable [OF assms] by (auto simp: tx_history_def)
qed

theorem tx_outcome_consistent_witness:
  "exec apply_coordinator_transition Tx_Init
     [BeginEnroll, BeginPrepare, ParticipantPrepared, AllResponded, DecideCommit, Tx_Timeout,
      Tx_ReconcileRetry, ReconcileRolledBack] = Inr Tx_RolledBack
   \<and> exec apply_coordinator_transition Tx_Init
     ([BeginEnroll, BeginPrepare, ParticipantPrepared, AllResponded, DecideCommit, Tx_Timeout,
       Tx_ReconcileRetry, ReconcileRolledBack] @ [ReconcileCommitted]) \<noteq> Inr Tx_Committed"
proof -
  let ?es = "[BeginEnroll, BeginPrepare, ParticipantPrepared, AllResponded, DecideCommit, Tx_Timeout,
      Tx_ReconcileRetry, ReconcileRolledBack]"
  have run: "exec apply_coordinator_transition Tx_Init ?es = Inr Tx_RolledBack"
    by (simp add: apply_coordinator_transition_def)
  have "tx_is_terminal Tx_RolledBack" by (simp add: tx_is_terminal_def)
  then have "exec apply_coordinator_transition Tx_Init (?es @ [ReconcileCommitted]) \<noteq> Inr Tx_Committed"
    using tx_outcome_consistent [OF run] by blast
  then show ?thesis using run by blast
qed

end
