(* ===== verification/Connectors.thy ===== *)
theory Connectors
  imports Machines
begin

text \<open>
  Managed connectors (vo-types/src/connector): the state machine of a connector
  and the runtime that commits an effect through it.  The connector itself is a
  trait: its operations are the fields of a record over an arbitrary connector
  state, an argument of the runtime.
\<close>

section \<open>The connector state machine\<close>

datatype ConnectorState =
    Con_Idle | Con_Preparing | Con_Prepared | Con_Executing | Con_Succeeded | Con_Failed | Con_Ambiguous

datatype ConnectorResult = Result_Success | Result_Failure | Result_Ambiguous

datatype ReconcileAction = Action_Commit | Action_Rollback | Action_Retry

datatype ConnectorTransition =
    Ev_Prepare | Ev_Prepared | Ev_Commit | Ev_Succeed | Ev_Fail | Ev_Ambiguate
  | Ev_ReconcileSucceeded | Ev_ReconcileFailed | Ev_ReconcileRetry

datatype ConnectorTransitionError = Con_TerminalStateTransition | Con_InvalidTransition

definition con_is_terminal :: "ConnectorState \<Rightarrow> bool" where
  "con_is_terminal s \<longleftrightarrow> s = Con_Succeeded \<or> s = Con_Failed"

definition apply_connector_transition ::
  "ConnectorState \<Rightarrow> ConnectorTransition \<Rightarrow> ConnectorTransitionError + ConnectorState" where
  "apply_connector_transition current event =
     (case (current, event) of
        (Con_Idle, Ev_Prepare) \<Rightarrow> Inr Con_Preparing
      | (Con_Preparing, Ev_Prepared) \<Rightarrow> Inr Con_Prepared
      | (Con_Prepared, Ev_Commit) \<Rightarrow> Inr Con_Executing
      | (Con_Executing, Ev_Succeed) \<Rightarrow> Inr Con_Succeeded
      | (Con_Executing, Ev_Fail) \<Rightarrow> Inr Con_Failed
      | (Con_Executing, Ev_Ambiguate) \<Rightarrow> Inr Con_Ambiguous
      | (Con_Ambiguous, Ev_ReconcileSucceeded) \<Rightarrow> Inr Con_Succeeded
      | (Con_Ambiguous, Ev_ReconcileFailed) \<Rightarrow> Inr Con_Failed
      | (Con_Ambiguous, Ev_ReconcileRetry) \<Rightarrow> Inr Con_Prepared
      | (Con_Succeeded, _) \<Rightarrow> Inl Con_TerminalStateTransition
      | (Con_Failed, _) \<Rightarrow> Inl Con_TerminalStateTransition
      | _ \<Rightarrow> Inl Con_InvalidTransition)"

section \<open>The runtime\<close>

datatype ConnectorError =
    TerminalState ConnectorState
  | InvalidState ConnectorState "ConnectorState list"
  | ReconciliationUncertain
  | Transport string
  | MaxRetriesExceeded u32

datatype ReconciliationResult = Rec_Committed | Rec_NotCommitted | Rec_Unknown

record 'c Connector =
  con_prepare :: "'c \<Rightarrow> (ConnectorError + ConnectorResult) \<times> 'c"
  con_commit :: "'c \<Rightarrow> (ConnectorError + ConnectorResult) \<times> 'c"
  con_reconcile :: "'c \<Rightarrow> (ConnectorError + ReconciliationResult) \<times> 'c"
  con_rollback :: "'c \<Rightarrow> (ConnectorError + ConnectorResult) \<times> 'c"

fun reconcile_action :: "ReconciliationResult \<Rightarrow> ReconcileAction" where
  "reconcile_action Rec_Committed = Action_Commit"
| "reconcile_action Rec_NotCommitted = Action_Rollback"
| "reconcile_action Rec_Unknown = Action_Retry"

definition reconcile_ambiguous ::
  "'c Connector \<Rightarrow> 'c \<Rightarrow> ConnectorState \<Rightarrow> (ConnectorError + ReconcileAction) \<times> 'c" where
  "reconcile_ambiguous con c current_state =
     (if current_state \<noteq> Con_Ambiguous then (Inl (InvalidState current_state [Con_Ambiguous]), c)
      else
        (case con_reconcile con c of
           (Inl e, c') \<Rightarrow> (Inl e, c')
         | (Inr r, c') \<Rightarrow> (Inr (reconcile_action r), c')))"

fun apply_reconcile_action :: "ReconcileAction \<Rightarrow> ConnectorError + ConnectorResult" where
  "apply_reconcile_action Action_Commit = Inr Result_Success"
| "apply_reconcile_action Action_Rollback = Inr Result_Failure"
| "apply_reconcile_action Action_Retry = Inr Result_Ambiguous"

text \<open>The \<open>loop\<close> of \<open>execute_with_reconciliation\<close>; it ends because the retries do.\<close>

function commit_loop ::
  "'c Connector \<Rightarrow> 'c \<Rightarrow> u32 \<Rightarrow> u32 \<Rightarrow> (ConnectorError + ConnectorResult) \<times> 'c" where
  "commit_loop con c retry_count max_retries =
     (case con_commit con c of
        (Inl e, c1) \<Rightarrow> (Inl e, c1)
      | (Inr Result_Success, c1) \<Rightarrow> (Inr Result_Success, c1)
      | (Inr Result_Failure, c1) \<Rightarrow> (Inr Result_Failure, c1)
      | (Inr Result_Ambiguous, c1) \<Rightarrow>
          (case reconcile_ambiguous con c1 Con_Ambiguous of
             (Inl e, c2) \<Rightarrow> (Inl e, c2)
           | (Inr action, c2) \<Rightarrow>
               (if action = Action_Retry then
                  (if max_retries \<le> retry_count then (Inl (MaxRetriesExceeded max_retries), c2)
                   else commit_loop con c2 (retry_count + 1) max_retries)
                else (apply_reconcile_action action, c2))))"
  by pat_completeness auto

termination
  by (relation "measure (\<lambda>(con, c, retry_count, max_retries). unat max_retries - unat retry_count)")
    (auto simp: not_le word_less_nat_alt unat_successor [of _ "_ :: u32"] intro!: diff_less_mono2)

declare commit_loop.simps [simp del]

definition execute_with_reconciliation ::
  "'c Connector \<Rightarrow> 'c \<Rightarrow> bool \<Rightarrow> u32 \<Rightarrow> (ConnectorError + ConnectorResult) \<times> 'c" where
  "execute_with_reconciliation con c prepare_first max_retries =
     (if prepare_first then
        (case con_prepare con c of
           (Inl e, c1) \<Rightarrow> (Inl e, c1)
         | (Inr Result_Success, c1) \<Rightarrow> commit_loop con c1 0 max_retries
         | (Inr Result_Failure, c1) \<Rightarrow> (Inr Result_Failure, c1)
         | (Inr Result_Ambiguous, c1) \<Rightarrow>
             (case reconcile_ambiguous con c1 Con_Ambiguous of
                (Inl e, c2) \<Rightarrow> (Inl e, c2)
              | (Inr action, c2) \<Rightarrow>
                  (if action = Action_Retry then
                     (if max_retries \<le> 0 then (Inl (MaxRetriesExceeded max_retries), c2)
                      else commit_loop con c2 (0 + 1) max_retries)
                   else (apply_reconcile_action action, c2))))
      else commit_loop con c 0 max_retries)"

section \<open>Outcomes of the state machine\<close>

interpretation connector: machine apply_connector_transition con_is_terminal
proof unfold_locales
  show "t = s" if "con_is_terminal s" "apply_connector_transition s e = Inr t" for s e t
    using that by (cases s) (auto simp: con_is_terminal_def apply_connector_transition_def)
qed

lemma ambiguous_only_reconciles:
  "apply_connector_transition Con_Ambiguous e = Inr t \<Longrightarrow>
     e \<in> {Ev_ReconcileSucceeded, Ev_ReconcileFailed, Ev_ReconcileRetry}"
  by (cases e) (simp_all add: apply_connector_transition_def)

section \<open>The calls of the runtime\<close>

text \<open>
  A connector that records the calls it receives.  Recording changes no answer,
  so the calls of the runtime on any connector can be read off the log.
\<close>

datatype connector_call =
    Call_Prepare "ConnectorError + ConnectorResult"
  | Call_Commit "ConnectorError + ConnectorResult"
  | Call_Reconcile "ConnectorError + ReconciliationResult"
  | Call_Rollback "ConnectorError + ConnectorResult"

definition log_call ::
  "('r \<Rightarrow> connector_call) \<Rightarrow> ('c \<Rightarrow> 'r \<times> 'c) \<Rightarrow> 'c \<times> connector_call list \<Rightarrow> 'r \<times> 'c \<times> connector_call list" where
  "log_call k f = (\<lambda>(c, log). case f c of (r, c') \<Rightarrow> (r, c', log @ [k r]))"

definition logged :: "'c Connector \<Rightarrow> ('c \<times> connector_call list) Connector" where
  "logged con =
     \<lparr>con_prepare = log_call Call_Prepare (con_prepare con),
      con_commit = log_call Call_Commit (con_commit con),
      con_reconcile = log_call Call_Reconcile (con_reconcile con),
      con_rollback = log_call Call_Rollback (con_rollback con)\<rparr>"

fun is_prepare :: "connector_call \<Rightarrow> bool" where
  "is_prepare (Call_Prepare r) = True"
| "is_prepare _ = False"

fun is_commit :: "connector_call \<Rightarrow> bool" where
  "is_commit (Call_Commit r) = True"
| "is_commit _ = False"

definition commits :: "connector_call list \<Rightarrow> nat" where
  "commits calls = length (filter is_commit calls)"

definition unknowns :: "connector_call list \<Rightarrow> nat" where
  "unknowns calls = count_list calls (Call_Reconcile (Inr Rec_Unknown))"

text \<open>
  Which call may follow which: a commit only a successful preparation or a reconciliation
  that could not determine the outcome, a reconciliation only an ambiguous answer, and a
  preparation or a rollback no call at all.
\<close>

fun may_follow :: "connector_call \<Rightarrow> connector_call \<Rightarrow> bool" where
  "may_follow x (Call_Commit _) \<longleftrightarrow>
     x = Call_Prepare (Inr Result_Success) \<or> x = Call_Reconcile (Inr Rec_Unknown)"
| "may_follow x (Call_Reconcile _) \<longleftrightarrow>
     x = Call_Prepare (Inr Result_Ambiguous) \<or> x = Call_Commit (Inr Result_Ambiguous)"
| "may_follow x _ \<longleftrightarrow> False"

text \<open>The calls begin with a preparation if one is asked for and with a commit otherwise.\<close>

definition follows_protocol :: "bool \<Rightarrow> connector_call list \<Rightarrow> bool" where
  "follows_protocol prepare_first calls \<longleftrightarrow>
     calls \<noteq> [] \<and> (if prepare_first then is_prepare (hd calls) else is_commit (hd calls))
     \<and> successively may_follow calls"

text \<open>
  The answer of the runtime is the last answer of the connector; it gives up only when one
  reconciliation more than \<open>max_retries\<close> could not determine the outcome.
\<close>

definition concludes :: "ConnectorError + ConnectorResult \<Rightarrow> u32 \<Rightarrow> connector_call list \<Rightarrow> bool" where
  "concludes res max_retries calls \<longleftrightarrow>
     (case res of
        Inr Result_Success \<Rightarrow> last calls \<in> {Call_Commit (Inr Result_Success), Call_Reconcile (Inr Rec_Committed)}
      | Inr Result_Failure \<Rightarrow>
          last calls \<in> {Call_Prepare (Inr Result_Failure), Call_Commit (Inr Result_Failure),
                        Call_Reconcile (Inr Rec_NotCommitted)}
      | Inr Result_Ambiguous \<Rightarrow> False
      | Inl e \<Rightarrow>
          last calls \<in> {Call_Prepare (Inl e), Call_Commit (Inl e), Call_Reconcile (Inl e)}
          \<or> e = MaxRetriesExceeded max_retries \<and> last calls = Call_Reconcile (Inr Rec_Unknown)
            \<and> unknowns calls = unat max_retries + 1)"

lemma logged_simps:
  "con_commit (logged con) (c, log) = (case con_commit con c of (r, c') \<Rightarrow> (r, c', log @ [Call_Commit r]))"
  "con_prepare (logged con) (c, log) = (case con_prepare con c of (r, c') \<Rightarrow> (r, c', log @ [Call_Prepare r]))"
  "con_reconcile (logged con) (c, log)
     = (case con_reconcile con c of (r, c') \<Rightarrow> (r, c', log @ [Call_Reconcile r]))"
  by (simp_all add: logged_def log_call_def)

text \<open>What the loop adds to the calls made before it, which hold \<open>n\<close> unknown outcomes.\<close>

definition loop_calls ::
  "ConnectorError + ConnectorResult \<Rightarrow> u32 \<Rightarrow> u32 \<Rightarrow> connector_call list \<Rightarrow> connector_call list \<Rightarrow> bool" where
  "loop_calls res n m log calls \<longleftrightarrow>
     follows_protocol False calls \<and> commits calls \<le> Suc (unat m - unat n)
     \<and> (unknowns log = unat n \<longrightarrow> concludes res m (log @ calls))"

lemma commit_loop_calls:
  "n \<le> m \<Longrightarrow>
   \<exists>calls. commit_loop (logged con) (c, log) n m =
       (fst (commit_loop con c n m), snd (commit_loop con c n m), log @ calls)
     \<and> loop_calls (fst (commit_loop con c n m)) n m log calls"
proof (induction con c n m arbitrary: log rule: commit_loop.induct)
  case (1 con c n m)
  obtain r c1 where commit: "con_commit con c = (r, c1)" by (cases "con_commit con c")
  note unfold = commit_loop.simps [of "logged con" "(c, log)"] commit_loop.simps [of con c]
  note defs = loop_calls_def follows_protocol_def commits_def concludes_def unknowns_def
  show ?case
  proof (cases "r = Inr Result_Ambiguous")
    case False
    then have "commit_loop con c n m = (r, c1)"
      "commit_loop (logged con) (c, log) n m = (r, c1, log @ [Call_Commit r])"
      using commit by (auto simp: unfold logged_simps split: sum.splits ConnectorResult.splits)
    then show ?thesis using False
      by (intro exI [of _ "[Call_Commit r]"]) (auto simp: defs split: sum.splits ConnectorResult.splits)
  next
    case r: True
    obtain a c2 where rec: "con_reconcile con c1 = (a, c2)" by (cases "con_reconcile con c1")
    let ?two = "[Call_Commit r, Call_Reconcile a]"
    show ?thesis
    proof (cases "a = Inr Rec_Unknown \<and> n < m")
      case False
      then have last: "a = Inr Rec_Unknown \<Longrightarrow> n = m" using 1(2) by auto
      have "\<exists>res. commit_loop con c n m = (res, c2)
          \<and> commit_loop (logged con) (c, log) n m = (res, c2, log @ ?two)
          \<and> (unknowns log = unat n \<longrightarrow> concludes res m (log @ ?two))"
        using False last commit rec r
        by (cases a rule: sum.exhaust; cases "projr a")
          (auto simp: unfold logged_simps reconcile_ambiguous_def concludes_def unknowns_def)
      then show ?thesis by (auto simp: loop_calls_def follows_protocol_def commits_def r intro!: exI [of _ ?two])
    next
      case True
      then have "\<not> m \<le> n" by auto
      have recon: "(Inr Action_Retry, c2) = reconcile_ambiguous con c1 Con_Ambiguous"
        using True rec by (simp add: reconcile_ambiguous_def)
      from \<open>\<not> m \<le> n\<close> have loop: "commit_loop con c n m = commit_loop con c2 (n + 1) m"
        "commit_loop (logged con) (c, log) n m = commit_loop (logged con) (c2, log @ ?two) (n + 1) m"
        using True commit rec r by (simp_all add: unfold logged_simps reconcile_ambiguous_def)
      have next_n: "unat (n + 1) = unat n + 1" "n + 1 \<le> m"
        using True unat_successor [of n m] by (auto simp: word_less_nat_alt word_le_nat_alt)
      obtain calls where calls: "commit_loop (logged con) (c2, log @ ?two) (n + 1) m =
          (fst (commit_loop con c2 (n + 1) m), snd (commit_loop con c2 (n + 1) m), (log @ ?two) @ calls)"
        "loop_calls (fst (commit_loop con c2 (n + 1) m)) (n + 1) m (log @ ?two) calls"
        using 1(1) [OF commit [symmetric] r refl recon refl refl \<open>\<not> m \<le> n\<close> next_n(2), of "log @ ?two"] by blast
      have "follows_protocol False (?two @ calls)"
        using calls(2) True r by (cases calls rule: list.exhaust; cases "hd calls")
          (auto simp: loop_calls_def follows_protocol_def)
      moreover have "commits (?two @ calls) \<le> Suc (unat m - unat n)"
        using calls(2) True next_n by (auto simp: loop_calls_def commits_def word_less_nat_alt)
      moreover have "unknowns (log @ ?two) = unat n + 1" if "unknowns log = unat n"
        using that True by (simp add: unknowns_def)
      ultimately have "loop_calls (fst (commit_loop con c n m)) n m log (?two @ calls)"
        using calls(2) next_n(1) loop by (auto simp: loop_calls_def)
      then show ?thesis using calls(1) loop by (intro exI [of _ "?two @ calls"]) simp
    qed
  qed
qed

text \<open>Calls made before the loop whose last one allows a commit.\<close>

lemma follows_protocol_prefix:
  assumes "follows_protocol False calls" and "xs \<noteq> []" and "is_prepare (hd xs)" and "successively may_follow xs"
    and "last xs = Call_Prepare (Inr Result_Success) \<or> last xs = Call_Reconcile (Inr Rec_Unknown)"
  shows "follows_protocol True (xs @ calls)"
  using assms by (cases calls; cases "hd calls") (auto simp: follows_protocol_def successively_append_iff)

text \<open>
  (C10) The runtime keeps to the protocol of its connector, never retries blindly and never
  without bound.  For every connector, executing an effect returns after at most
  \<open>max_retries + 1\<close> commits.  If a preparation is asked for, the first call is the
  preparation, otherwise it is a commit; every later commit comes directly after the
  successful preparation or after a reconciliation that could not determine the outcome, a
  reconciliation only directly after an ambiguous answer, and no rollback is called.  The
  result is never ambiguous: it is success or failure exactly as the last answer of the
  connector says, an error the connector raised, or the report that the retries are used up
  after \<open>max_retries + 1\<close> unknown outcomes.
\<close>

theorem connector_commits_bounded:
  "\<exists>calls. execute_with_reconciliation (logged con) (c, []) prepare_first max_retries =
       (fst (execute_with_reconciliation con c prepare_first max_retries),
        snd (execute_with_reconciliation con c prepare_first max_retries), calls)
     \<and> follows_protocol prepare_first calls \<and> commits calls \<le> unat max_retries + 1
     \<and> concludes (fst (execute_with_reconciliation con c prepare_first max_retries)) max_retries calls"
proof (cases prepare_first)
  case False
  obtain calls where "commit_loop (logged con) (c, []) 0 max_retries =
      (fst (commit_loop con c 0 max_retries), snd (commit_loop con c 0 max_retries), [] @ calls)"
    "loop_calls (fst (commit_loop con c 0 max_retries)) 0 max_retries [] calls"
    using commit_loop_calls [of 0 max_retries con c "[]"] by auto
  then show ?thesis using False
    by (auto simp: execute_with_reconciliation_def loop_calls_def unknowns_def)
next
  case True
  obtain r c1 where prep: "con_prepare con c = (r, c1)" by (cases "con_prepare con c")
  note unfold = execute_with_reconciliation_def logged_simps reconcile_ambiguous_def
  note defs = follows_protocol_def concludes_def commits_def unknowns_def
  consider (other) "r \<noteq> Inr Result_Success" "r \<noteq> Inr Result_Ambiguous"
    | (success) "r = Inr Result_Success" | (ambiguous) "r = Inr Result_Ambiguous" by blast
  then show ?thesis
  proof cases
    case other
    then show ?thesis using True prep
      by (auto simp: unfold defs split: sum.splits ConnectorResult.splits)
  next
    case success
    let ?one = "[Call_Prepare r]"
    obtain calls where calls: "commit_loop (logged con) (c1, ?one) 0 max_retries =
        (fst (commit_loop con c1 0 max_retries), snd (commit_loop con c1 0 max_retries), ?one @ calls)"
      "loop_calls (fst (commit_loop con c1 0 max_retries)) 0 max_retries ?one calls"
      using commit_loop_calls [of 0 max_retries con c1 ?one] by auto
    have "follows_protocol True (?one @ calls)"
      by (rule follows_protocol_prefix) (use calls(2) success in \<open>simp_all add: loop_calls_def\<close>)
    then show ?thesis using True prep success calls
      by (auto simp: unfold loop_calls_def commits_def unknowns_def)
  next
    case ambiguous
    obtain a c2 where rec: "con_reconcile con c1 = (a, c2)" by (cases "con_reconcile con c1")
    let ?two = "[Call_Prepare r, Call_Reconcile a]"
    show ?thesis
    proof (cases "a = Inr Rec_Unknown \<and> max_retries \<noteq> 0")
      case False
      then show ?thesis using True prep rec ambiguous
        by (cases a rule: sum.exhaust; cases "projr a") (auto simp: unfold defs)
    next
      case unknown: True
      have run: "execute_with_reconciliation con c prepare_first max_retries = commit_loop con c2 1 max_retries"
        "execute_with_reconciliation (logged con) (c, []) prepare_first max_retries
          = commit_loop (logged con) (c2, ?two) 1 max_retries"
        using True prep rec ambiguous unknown by (simp_all add: unfold)
      have "1 \<le> max_retries" using unknown by (simp add: word_le_nat_alt unat_gt_0 Suc_le_eq)
      then obtain calls where calls: "commit_loop (logged con) (c2, ?two) 1 max_retries =
          (fst (commit_loop con c2 1 max_retries), snd (commit_loop con c2 1 max_retries), ?two @ calls)"
        "loop_calls (fst (commit_loop con c2 1 max_retries)) 1 max_retries ?two calls"
        using commit_loop_calls [of 1 max_retries con c2 ?two] by auto
      have "follows_protocol True (?two @ calls)"
        by (rule follows_protocol_prefix) (use calls(2) unknown ambiguous in \<open>simp_all add: loop_calls_def\<close>)
      then show ?thesis unfolding run using calls True unknown
        by (auto simp: loop_calls_def commits_def unknowns_def)
    qed
  qed
qed

end
