(* ===== verification/Scheduling.thy ===== *)
theory Scheduling
  imports Workflow "HOL-Library.Multiset"
begin

text \<open>
  Choosing what to run next: the dependency graph resolver
  (vo-types/src/dependency_graph_resolver.rs), next-step selection with attempt
  numbers and fences (vo-types/src/next_step_selection.rs) and the runtime log of
  traversed edges with conditional fan-in (vo-types/src/edge_tracking.rs).  The
  functions take a workflow definition; the lemmas about progress and layering
  are for the definitions that validation produces.
\<close>

section \<open>The dependency graph resolver\<close>

definition dependencies :: "'v WorkflowDefinition \<Rightarrow> NodeName \<Rightarrow> NodeName list" where
  "dependencies d node = map source_node (filter (\<lambda>e. target_node e = node) (edges d))"

definition dependents_of :: "'v WorkflowDefinition \<Rightarrow> NodeName \<Rightarrow> NodeName list" where
  "dependents_of d node = map target_node (filter (\<lambda>e. source_node e = node) (edges d))"

text \<open>
  The loops shared by \<open>transitive_dependencies\<close> and \<open>transitive_dependents\<close>.  The
  inner one returns \<open>None\<close> where the source leaves the function with an empty
  vector; the outer one takes the next node from the end of \<open>queue\<close> and returns
  \<open>None\<close> if the fuel runs out.
\<close>

fun visit_deps ::
  "NodeName list \<Rightarrow> NodeName set \<Rightarrow> NodeName list \<Rightarrow> NodeName list
     \<Rightarrow> (NodeName set \<times> NodeName list \<times> NodeName list) option" where
  "visit_deps [] visited result queue = Some (visited, result, queue)"
| "visit_deps (dep # deps) visited result queue =
     (if dep \<in> visited then None
      else visit_deps deps (insert dep visited) (result @ [dep]) (queue @ [dep]))"

fun closure_loop ::
  "nat \<Rightarrow> (NodeName \<Rightarrow> NodeName list) \<Rightarrow> NodeName set \<Rightarrow> NodeName list \<Rightarrow> NodeName list
     \<Rightarrow> NodeName list option" where
  "closure_loop fuel direct visited result [] = Some result"
| "closure_loop 0 direct visited result (q # qs) = None"
| "closure_loop (Suc fuel) direct visited result (q # qs) =
     (case visit_deps (direct (last (q # qs))) visited result (butlast (q # qs)) of
        None \<Rightarrow> Some []
      | Some (visited', result', queue') \<Rightarrow> closure_loop fuel direct visited' result' queue')"

definition transitive_dependencies :: "'v WorkflowDefinition \<Rightarrow> NodeName \<Rightarrow> NodeName list option" where
  "transitive_dependencies d node =
     closure_loop (Suc (length (edges d))) (dependencies d) {node} [] [node]"

definition transitive_dependents :: "'v WorkflowDefinition \<Rightarrow> NodeName \<Rightarrow> NodeName list option" where
  "transitive_dependents d node =
     closure_loop (Suc (length (edges d))) (dependents_of d) {node} [] [node]"

definition ready_nodes :: "'v WorkflowDefinition \<Rightarrow> NodeName list \<Rightarrow> NodeName list" where
  "ready_nodes d completed =
     filter (\<lambda>name. name \<notin> set completed \<and> (\<forall>dep \<in> set (dependencies d name). dep \<in> set completed))
       (map node_name (nodes d))"

definition incoming :: "'v WorkflowDefinition \<Rightarrow> NodeName \<Rightarrow> Edge list" where
  "incoming d name = filter (\<lambda>e. target_node e = name) (edges d)"

definition ready_nodes_for_outcome ::
  "'v WorkflowDefinition \<Rightarrow> NodeName list \<Rightarrow> StepOutcome \<Rightarrow> NodeName list" where
  "ready_nodes_for_outcome d completed last_outcome =
     filter (\<lambda>name. name \<notin> set completed \<and>
               (incoming d name = [] \<or>
                (\<forall>e \<in> set (incoming d name).
                   source_node e \<in> set completed \<and> matches (condition e) last_outcome)))
       (map node_name (nodes d))"

text \<open>\<open>execution_layers\<close> peels off the nodes whose dependencies are all assigned.\<close>

function layer_loop ::
  "'v WorkflowDefinition \<Rightarrow> NodeName set \<Rightarrow> NodeName list \<Rightarrow> NodeName list list \<Rightarrow> NodeName list list" where
  "layer_loop d assigned remaining layers =
     (if remaining = [] then layers
      else
        (let current_layer =
           filter (\<lambda>name. \<forall>dep \<in> set (dependencies d name). dep \<in> assigned) remaining in
         if current_layer = [] then layers
         else layer_loop d (assigned \<union> set current_layer)
                (fold (\<lambda>name. filter (\<lambda>n. n \<noteq> name)) current_layer remaining)
                (layers @ [current_layer])))"
  by pat_completeness auto

lemma fold_retain: "fold (\<lambda>name. filter (\<lambda>n. n \<noteq> name)) layer xs = filter (\<lambda>n. n \<notin> set layer) xs"
  by (induction layer arbitrary: xs) (auto intro: filter_cong)

termination layer_loop
proof (relation "measure (\<lambda>(d, assigned, remaining, layers). length remaining)", goal_cases)
  case (2 d assigned remaining layers current_layer)
  have "hd current_layer \<in> set current_layer" using 2(3) by simp
  moreover have "set current_layer \<subseteq> set remaining" using 2(2) by auto
  ultimately have "length (filter (\<lambda>n. n \<notin> set current_layer) remaining) < length remaining"
    by (intro length_filter_less [of "hd current_layer"]) auto
  then show ?case by (simp add: fold_retain)
qed simp

declare layer_loop.simps [simp del]

definition execution_layers :: "'v WorkflowDefinition \<Rightarrow> NodeName list list" where
  "execution_layers d =
     (if nodes d = [] then [] else layer_loop d {} (map node_name (nodes d)) [])"

section \<open>Attempts and fences\<close>

record StepSchedulingRecord =
  ssr_step_id :: NodeName
  ssr_attempt :: u32
  ssr_fence :: u64

type_synonym ExecutionHistory = "StepSchedulingRecord list"

definition add_record :: "ExecutionHistory \<Rightarrow> StepSchedulingRecord \<Rightarrow> ExecutionHistory" where
  "add_record history r = history @ [r]"

definition records_for_step :: "ExecutionHistory \<Rightarrow> NodeName \<Rightarrow> StepSchedulingRecord list" where
  "records_for_step history step_id = filter (\<lambda>r. ssr_step_id r = step_id) history"

definition compute_attempt_and_fence :: "NodeName \<Rightarrow> ExecutionHistory \<Rightarrow> u32 \<times> u64" where
  "compute_attempt_and_fence step_id history =
     (let step_records = records_for_step history step_id in
      if step_records = [] then (1, 1)
      else (Max (ssr_attempt ` set step_records) + 1, Max (ssr_fence ` set step_records) + 1))"

section \<open>Next-step selection\<close>

datatype SelectionError = NoReadyNodes | UnknownCompletedNode NodeName | UnnecessaryOutcome

record NextStep =
  ns_step_id :: NodeName
  ns_attempt :: u32
  ns_fence :: u64

record SchedulingIntention =
  si_workflow_id :: string
  si_step_id :: NodeName
  si_attempt :: u32
  si_fence :: u64
  si_execution_id :: string

fun check_completed :: "'v WorkflowDefinition \<Rightarrow> NodeName list \<Rightarrow> SelectionError + unit" where
  "check_completed d [] = Inr ()"
| "check_completed d (node # rest) =
     (if get_node d node = None then Inl (UnknownCompletedNode node) else check_completed d rest)"

definition is_ready ::
  "'v WorkflowDefinition \<Rightarrow> NodeName list \<Rightarrow> StepOutcome option \<Rightarrow> NodeName \<Rightarrow> bool" where
  "is_ready d completed last_outcome name \<longleftrightarrow>
     name \<notin> set completed
     \<and> (\<forall>dep \<in> set (dependencies d name). dep \<in> set completed)
     \<and> (case last_outcome of
          None \<Rightarrow> True
        | Some outcome \<Rightarrow>
            incoming d name = [] \<or>
            (\<forall>e \<in> set (incoming d name). source_node e \<in> set completed \<and> matches (condition e) outcome))"

definition find_ready_nodes ::
  "'v WorkflowDefinition \<Rightarrow> NodeName list \<Rightarrow> StepOutcome option \<Rightarrow> NodeName list" where
  "find_ready_nodes d completed last_outcome =
     filter (is_ready d completed last_outcome) (map node_name (nodes d))"

definition select_next_step ::
  "'v WorkflowDefinition \<Rightarrow> NodeName list \<Rightarrow> StepOutcome option \<Rightarrow> ExecutionHistory option
     \<Rightarrow> SelectionError + NextStep option" where
  "select_next_step d completed last_outcome history =
     and_then (check_completed d completed) (\<lambda>_.
       case find_ready_nodes d completed last_outcome of
         [] \<Rightarrow> Inl NoReadyNodes
       | selected # _ \<Rightarrow>
           (let (attempt, fence) =
              (case history of None \<Rightarrow> (1, 1) | Some h \<Rightarrow> compute_attempt_and_fence selected h) in
            Inr (Some \<lparr>ns_step_id = selected, ns_attempt = attempt, ns_fence = fence\<rparr>)))"

definition emit_scheduling_intention :: "NextStep \<Rightarrow> string \<Rightarrow> string \<Rightarrow> SchedulingIntention" where
  "emit_scheduling_intention s workflow_id execution_id =
     \<lparr>si_workflow_id = workflow_id, si_step_id = ns_step_id s, si_attempt = ns_attempt s,
      si_fence = ns_fence s, si_execution_id = execution_id\<rparr>"

section \<open>Traversed edges and fan-in\<close>

record TraversedEdge =
  te_source :: NodeName
  te_target :: NodeName
  te_outcome :: "StepOutcome option"

type_synonym EdgeTraversalLog = "TraversedEdge list"

definition traversal_record :: "EdgeTraversalLog \<Rightarrow> TraversedEdge \<Rightarrow> EdgeTraversalLog" where
  "traversal_record tlog e = tlog @ [e]"

definition record_with_outcome ::
  "EdgeTraversalLog \<Rightarrow> NodeName \<Rightarrow> NodeName \<Rightarrow> StepOutcome \<Rightarrow> EdgeTraversalLog" where
  "record_with_outcome tlog src tgt outcome =
     tlog @ [\<lparr>te_source = src, te_target = tgt, te_outcome = Some outcome\<rparr>]"

definition record_always :: "EdgeTraversalLog \<Rightarrow> NodeName \<Rightarrow> NodeName \<Rightarrow> EdgeTraversalLog" where
  "record_always tlog src tgt = tlog @ [\<lparr>te_source = src, te_target = tgt, te_outcome = None\<rparr>]"

definition traversed_to :: "EdgeTraversalLog \<Rightarrow> NodeName \<Rightarrow> TraversedEdge list" where
  "traversed_to tlog tgt = filter (\<lambda>e. te_target e = tgt) tlog"

definition latest_outcome :: "EdgeTraversalLog \<Rightarrow> NodeName \<Rightarrow> NodeName \<Rightarrow> StepOutcome option" where
  "latest_outcome tlog src tgt =
     (case find (\<lambda>e. te_source e = src \<and> te_target e = tgt) (rev tlog) of
        None \<Rightarrow> None | Some e \<Rightarrow> te_outcome e)"

definition traversed_sources :: "EdgeTraversalLog \<Rightarrow> NodeName \<Rightarrow> NodeName list" where
  "traversed_sources tlog tgt =
     fold (\<lambda>e sources. if te_target e = tgt \<and> te_source e \<notin> set sources
                        then sources @ [te_source e] else sources) tlog []"

definition has_traversed :: "EdgeTraversalLog \<Rightarrow> NodeName \<Rightarrow> bool" where
  "has_traversed tlog tgt \<longleftrightarrow> (\<exists>e \<in> set tlog. te_target e = tgt)"

fun position_by :: "('a \<Rightarrow> bool) \<Rightarrow> 'a list \<Rightarrow> nat option" where
  "position_by P [] = None"
| "position_by P (x # xs) = (if P x then Some 0 else map_option Suc (position_by P xs))"

text \<open>The search for the source with the latest traversal: the best source so far and its index.\<close>

definition better_source ::
  "EdgeTraversalLog \<Rightarrow> NodeName \<Rightarrow> NodeName \<Rightarrow> NodeName option \<times> nat \<Rightarrow> NodeName option \<times> nat" where
  "better_source tlog tgt src = (\<lambda>(best_source, best_index).
     case position_by (\<lambda>e. te_source e = src \<and> te_target e = tgt) (rev tlog) of
       None \<Rightarrow> (best_source, best_index)
     | Some back_idx \<Rightarrow>
         (let last_idx = length tlog - 1 - back_idx in
          case best_source of
            None \<Rightarrow> (Some src, last_idx)
          | Some best \<Rightarrow>
              if best_index < last_idx then (Some src, last_idx) else (best_source, best_index)))"

definition select_fan_in_source :: "NodeName \<Rightarrow> EdgeTraversalLog \<Rightarrow> NodeName option" where
  "select_fan_in_source tgt tlog =
     (let sources = traversed_sources tlog tgt in
      if sources = [] then None
      else if length sources = 1 then Some (sources ! 0)
      else fst (fold (better_source tlog tgt) sources (None, 0)))"

type_synonym ParentOutcomeMap = "NodeName \<rightharpoonup> StepOutcome"

definition from_traversal_log :: "EdgeTraversalLog \<Rightarrow> ParentOutcomeMap" where
  "from_traversal_log tlog =
     fold (\<lambda>e m. case te_outcome e of None \<Rightarrow> m | Some outcome \<Rightarrow> m(te_source e \<mapsto> outcome))
       tlog Map.empty"

definition find_ready_nodes_fan_in :: "'v WorkflowDefinition \<Rightarrow> ParentOutcomeMap \<Rightarrow> NodeName list" where
  "find_ready_nodes_fan_in d outcomes =
     filter (\<lambda>name. outcomes name = None \<and>
               (incoming d name = [] \<or>
                (\<forall>e \<in> set (incoming d name). outcomes (source_node e) \<noteq> None)
                \<and> (\<forall>e \<in> set (incoming d name).
                     case outcomes (source_node e) of
                       None \<Rightarrow> False | Some outcome \<Rightarrow> matches (condition e) outcome)))
       (map node_name (nodes d))"

text \<open>\<open>keys\<close> lists the parents in the iteration order of the outcome map.\<close>

definition select_next_step_with_fan_in ::
  "'v WorkflowDefinition \<Rightarrow> NodeName list \<Rightarrow> ParentOutcomeMap \<Rightarrow> SelectionError + NextStep option" where
  "select_next_step_with_fan_in d keys outcomes =
     and_then (check_completed d keys) (\<lambda>_.
       case find_ready_nodes_fan_in d outcomes of
         [] \<Rightarrow> Inl NoReadyNodes
       | selected # _ \<Rightarrow> Inr (Some \<lparr>ns_step_id = selected, ns_attempt = 1, ns_fence = 1\<rparr>))"

section \<open>Well-formed definitions\<close>

abbreviation names :: "'v WorkflowDefinition \<Rightarrow> NodeName list" where
  "names d \<equiv> map node_name (nodes d)"

definition sound_definition :: "'v WorkflowDefinition \<Rightarrow> bool" where
  "sound_definition d \<longleftrightarrow> nodes d \<noteq> [] \<and> distinct (names d)
     \<and> source_node ` set (edges d) \<union> target_node ` set (edges d) \<subseteq> set (names d)
     \<and> acyclic (graph (edges d))"

lemma accepted_sound: "acceptable u \<Longrightarrow> sound_definition (accepted_definition mv u)"
  by (simp add: sound_definition_def acceptable_def accepted_definition_def)

lemma validated_sound:
  assumes "iter_law it" and "validate_unvalidated mv it u = Some (Inr d)"
  shows "sound_definition d"
  using assms(2)
  by (cases rule: validate_unvalidated_cases [OF assms(1), of mv u]) (auto intro: accepted_sound)

lemma dependencies_graph: "x \<in> set (dependencies d y) \<longleftrightarrow> (x, y) \<in> graph (edges d)"
  by (auto simp: dependencies_def graph_def)

lemma get_node_None: "get_node d x = None \<longleftrightarrow> x \<notin> set (names d)"
  by (auto simp: get_node_def find_None_iff)

lemma check_completed_Inr: "check_completed d c = Inr () \<longleftrightarrow> set c \<subseteq> set (names d)"
  by (induction c) (auto simp: get_node_None)

section \<open>The readiness functions agree\<close>

lemma ready_without_outcome: "find_ready_nodes d completed None = ready_nodes d completed"
  unfolding find_ready_nodes_def ready_nodes_def by (rule filter_cong) (simp_all add: is_ready_def)

text \<open>
  The four computations of the ready nodes agree.  Without an outcome,
  selection sees the nodes of \<open>ready_nodes\<close>; with one, those of
  \<open>ready_nodes_for_outcome\<close>, which are among them; and the fan-in variant gives
  the same nodes when every completed node had that outcome.
\<close>

theorem ready_variants_agree:
  "find_ready_nodes d completed None = ready_nodes d completed
   \<and> find_ready_nodes d completed (Some outcome) = ready_nodes_for_outcome d completed outcome
   \<and> find_ready_nodes_fan_in d (\<lambda>n. if n \<in> set completed then Some outcome else None)
       = ready_nodes_for_outcome d completed outcome
   \<and> set (ready_nodes_for_outcome d completed outcome) \<subseteq> set (ready_nodes d completed)"
proof -
  have dep: "set (dependencies d name) = source_node ` set (incoming d name)" for name
    by (auto simp: dependencies_def incoming_def)
  have "find_ready_nodes d completed None = ready_nodes d completed" by (rule ready_without_outcome)
  moreover have "find_ready_nodes d completed (Some outcome) = ready_nodes_for_outcome d completed outcome"
    unfolding find_ready_nodes_def ready_nodes_for_outcome_def
    by (rule filter_cong) (auto simp: is_ready_def dep)
  moreover have "find_ready_nodes_fan_in d (\<lambda>n. if n \<in> set completed then Some outcome else None)
      = ready_nodes_for_outcome d completed outcome"
    unfolding find_ready_nodes_fan_in_def ready_nodes_for_outcome_def
    by (rule filter_cong) (auto split: if_splits)
  moreover have "set (ready_nodes_for_outcome d completed outcome) \<subseteq> set (ready_nodes d completed)"
    by (auto simp: ready_nodes_for_outcome_def ready_nodes_def dep)
  ultimately show ?thesis by blast
qed

section \<open>Progress\<close>

lemma some_node_ready:
  assumes "sound_definition d" and "set c \<subset> set (names d)"
  shows "ready_nodes d c \<noteq> []"
proof -
  have "wf (graph (edges d))"
    using assms(1) by (simp add: sound_definition_def finite_acyclic_wf finite_graph)
  moreover obtain x where x: "x \<in> set (names d) - set c" using assms(2) by blast
  ultimately obtain z where z: "z \<in> set (names d) - set c"
    "\<And>y. (y, z) \<in> graph (edges d) \<Longrightarrow> y \<notin> set (names d) - set c"
    by (rule wfE_min) blast
  have "y \<in> set (names d)" if "(y, z) \<in> graph (edges d)" for y
    using that assms(1) by (auto simp: sound_definition_def graph_def)
  then have "z \<in> set (ready_nodes d c)"
    using z by (auto simp: ready_nodes_def dependencies_graph)
  then show ?thesis by auto
qed

text \<open>
  An edge is enabled by the outcome that a selection is given if its condition matches it;
  without an outcome every edge is enabled.  Selection is blocked if every pending node
  whose dependencies are completed has an incoming edge that is not enabled.
\<close>

definition enabled :: "StepOutcome option \<Rightarrow> Edge \<Rightarrow> bool" where
  "enabled last_outcome e = (case last_outcome of None \<Rightarrow> True | Some outcome \<Rightarrow> matches (condition e) outcome)"

definition blocked :: "'v WorkflowDefinition \<Rightarrow> NodeName list \<Rightarrow> StepOutcome option \<Rightarrow> bool" where
  "blocked d c last_outcome \<longleftrightarrow>
     (\<forall>x \<in> set (names d) - set c.
        (\<forall>e \<in> set (edges d). target_node e = x \<longrightarrow> source_node e \<in> set c) \<longrightarrow>
        (\<exists>e \<in> set (edges d). target_node e = x \<and> \<not> enabled last_outcome e))"

lemma is_ready_iff:
  "is_ready d c last_outcome x \<longleftrightarrow>
     x \<notin> set c \<and> (\<forall>e \<in> set (edges d). target_node e = x \<longrightarrow> source_node e \<in> set c \<and> enabled last_outcome e)"
  by (cases last_outcome)
    (auto simp: is_ready_def dependencies_def incoming_def enabled_def filter_empty_conv)

lemma select_cases:
  assumes "set c \<subseteq> set (names d)"
  obtains (stuck) "blocked d c last_outcome" "select_next_step d c last_outcome h = Inl NoReadyNodes"
    | (selected) s where "\<not> blocked d c last_outcome" "select_next_step d c last_outcome h = Inr (Some s)"
      "ns_step_id s \<in> set (names d)" "ns_step_id s \<notin> set c"
      "\<And>e. e \<in> set (edges d) \<Longrightarrow> target_node e = ns_step_id s \<Longrightarrow> source_node e \<in> set c \<and> enabled last_outcome e"
proof -
  have check: "check_completed d c = Inr ()" using assms by (simp add: check_completed_Inr)
  have ready: "x \<in> set (find_ready_nodes d c last_outcome) \<longleftrightarrow> x \<in> set (names d) \<and> is_ready d c last_outcome x" for x
    by (auto simp: find_ready_nodes_def)
  have blk: "blocked d c last_outcome \<longleftrightarrow> set (find_ready_nodes d c last_outcome) = {}"
    by (auto simp: blocked_def ready is_ready_iff set_eq_iff)
  show thesis
  proof (cases "find_ready_nodes d c last_outcome")
    case Nil
    then show thesis using stuck check blk by (simp add: select_next_step_def)
  next
    case (Cons x xs)
    then have x: "x \<in> set (names d)" "is_ready d c last_outcome x" using ready [of x] by simp_all
    obtain a f where "(case h of None \<Rightarrow> (1, 1) | Some h \<Rightarrow> compute_attempt_and_fence x h) = (a, f)"
      by fastforce
    then have "select_next_step d c last_outcome h = Inr (Some \<lparr>ns_step_id = x, ns_attempt = a, ns_fence = f\<rparr>)"
      using check Cons by (simp add: select_next_step_def)
    then show thesis using x Cons blk by (intro selected) (auto simp: is_ready_iff)
  qed
qed

lemma blocked_enabled:
  assumes "sound_definition d" and "set c \<subseteq> set (names d)" and "\<forall>e \<in> set (edges d). enabled last_outcome e"
  shows "blocked d c last_outcome \<longleftrightarrow> set c = set (names d)"
proof
  assume b: "blocked d c last_outcome"
  show "set c = set (names d)"
  proof (rule ccontr)
    assume "set c \<noteq> set (names d)"
    then have "ready_nodes d c \<noteq> []" using some_node_ready [OF assms(1)] assms(2) by blast
    then obtain x where "x \<in> set (ready_nodes d c)" by (meson last_in_set)
    then have "x \<in> set (names d) - set c" "\<forall>e \<in> set (edges d). target_node e = x \<longrightarrow> source_node e \<in> set c"
      by (auto simp: ready_nodes_def dependencies_def)
    then show False using b assms(3) by (auto simp: blocked_def)
  qed
qed (auto simp: blocked_def)

text \<open>
  Scheduling step after step, each marked completed once selected, where every selection is
  given its own outcome; it ends with the first selection that fails.
\<close>

fun schedule :: "StepOutcome option list \<Rightarrow> 'v WorkflowDefinition \<Rightarrow> NodeName list \<Rightarrow> NodeName list" where
  "schedule [] d c = c"
| "schedule (last_outcome # outcomes) d c =
     (case select_next_step d c last_outcome None of
        Inr (Some s) \<Rightarrow> schedule outcomes d (c @ [ns_step_id s])
      | _ \<Rightarrow> c)"

definition in_order :: "'v WorkflowDefinition \<Rightarrow> NodeName list \<Rightarrow> bool" where
  "in_order d c \<longleftrightarrow> distinct c \<and> set c \<subseteq> set (names d)
     \<and> (\<forall>x y. (x, y) \<in> graph (edges d) \<longrightarrow> y \<in> set c \<longrightarrow> precedes c x y)"

lemma in_order_snoc:
  assumes "in_order d c" and "x \<in> set (names d)" and "x \<notin> set c"
    and "\<And>y. (y, x) \<in> graph (edges d) \<Longrightarrow> y \<in> set c"
  shows "in_order d (c @ [x])"
proof -
  have "precedes (c @ [x]) y z" if e: "(y, z) \<in> graph (edges d)" and z: "z \<in> set (c @ [x])" for y z
  proof (cases "z = x")
    case True
    then show ?thesis using assms(4) e precedes_append [of y c x "[]"] by simp
  next
    case False
    then have "precedes c y z" using assms(1) e z by (auto simp: in_order_def)
    then obtain us vs ws where "c = us @ y # vs @ z # ws" by (auto simp: precedes_def)
    then have "c @ [x] = us @ y # vs @ z # (ws @ [x])" by simp
    then show ?thesis unfolding precedes_def by blast
  qed
  then show ?thesis using assms(1-3) by (auto simp: in_order_def)
qed

lemma schedule_run:
  "in_order d c \<Longrightarrow>
   \<exists>run. schedule outcomes d c = c @ run \<and> in_order d (c @ run) \<and> length run \<le> length outcomes
     \<and> (\<forall>i < length run. \<forall>e \<in> set (edges d). target_node e = run ! i \<longrightarrow> enabled (outcomes ! i) e)
     \<and> (length run < length outcomes \<longrightarrow> blocked d (c @ run) (outcomes ! length run))"
proof (induction outcomes arbitrary: c)
  case Nil
  then show ?case by simp
next
  case (Cons o1 outcomes)
  have sub: "set c \<subseteq> set (names d)" using Cons.prems by (simp add: in_order_def)
  show ?case
  proof (cases rule: select_cases [OF sub, of o1 None])
    case 1
    then show ?thesis using Cons.prems by (intro exI [of _ "[]"]) simp
  next
    case (2 s)
    have o: "in_order d (c @ [ns_step_id s])"
      by (rule in_order_snoc [OF Cons.prems 2(3,4)]) (use 2(5) in \<open>auto simp: graph_def\<close>)
    obtain run where run: "schedule outcomes d (c @ [ns_step_id s]) = (c @ [ns_step_id s]) @ run"
      "in_order d ((c @ [ns_step_id s]) @ run)" "length run \<le> length outcomes"
      "\<forall>i < length run. \<forall>e \<in> set (edges d). target_node e = run ! i \<longrightarrow> enabled (outcomes ! i) e"
      "length run < length outcomes \<longrightarrow> blocked d ((c @ [ns_step_id s]) @ run) (outcomes ! length run)"
      using Cons.IH [OF o] by blast
    have "\<forall>e \<in> set (edges d). target_node e = (ns_step_id s # run) ! i \<longrightarrow> enabled ((o1 # outcomes) ! i) e"
      if "i < length (ns_step_id s # run)" for i
      using that run(4) 2(5) by (cases i) auto
    then show ?thesis using run 2(2) by (intro exI [of _ "ns_step_id s # run"]) simp
  qed
qed

lemma in_order_complete:
  assumes "sound_definition d" and "in_order d c" and "e \<in> set (edges d)" and "target_node e \<in> set c"
  shows "precedes c (source_node e) (target_node e)"
  using assms by (auto simp: in_order_def graph_def)

text \<open>
  (C5) Scheduling keeps the order, obeys the conditions of the edges and stops only when it
  is blocked.  On a definition that validation produced, let steps be selected and marked
  completed again and again, each selection with any outcome or none.  Every node runs at
  most once, after all nodes it depends on, and only when the outcome given to its
  selection matches the conditions of all its incoming edges.  The run ends early exactly
  because selection is blocked: each pending node whose dependencies are completed has an
  incoming edge that the outcome does not match, or no node is pending.  That is also when
  a single selection reports \<open>NoReadyNodes\<close>.  Where the conditions of all edges match, in
  particular without an outcome, this means that all nodes are completed, so as many
  selections as there are nodes run the whole workflow.
\<close>

theorem scheduling_completes:
  assumes "iter_law it" and "validate_unvalidated mv it u = Some (Inr d)"
  shows "distinct (schedule outcomes d []) \<and> set (schedule outcomes d []) \<subseteq> set (names d)
    \<and> (\<forall>e \<in> set (edges d). target_node e \<in> set (schedule outcomes d []) \<longrightarrow>
         precedes (schedule outcomes d []) (source_node e) (target_node e))
    \<and> (\<forall>i < length (schedule outcomes d []). \<forall>e \<in> set (edges d).
         target_node e = schedule outcomes d [] ! i \<longrightarrow> enabled (outcomes ! i) e)
    \<and> (length (schedule outcomes d []) < length outcomes \<longrightarrow>
         blocked d (schedule outcomes d []) (outcomes ! length (schedule outcomes d [])))
    \<and> (\<forall>c last_outcome h. set c \<subseteq> set (names d) \<longrightarrow>
         (select_next_step d c last_outcome h = Inl NoReadyNodes \<longleftrightarrow> blocked d c last_outcome))
    \<and> (\<forall>c last_outcome. set c \<subseteq> set (names d) \<longrightarrow> (\<forall>e \<in> set (edges d). enabled last_outcome e) \<longrightarrow>
         (blocked d c last_outcome \<longleftrightarrow> set c = set (names d)))
    \<and> ((\<forall>last_outcome \<in> set outcomes. \<forall>e \<in> set (edges d). enabled last_outcome e) \<longrightarrow>
         length (nodes d) \<le> length outcomes \<longrightarrow> set (schedule outcomes d []) = set (names d))"
proof -
  have sound: "sound_definition d" by (rule validated_sound [OF assms])
  let ?run = "schedule outcomes d []"
  have "in_order d []" by (simp add: in_order_def)
  from schedule_run [OF this, of outcomes] have run: "in_order d ?run" "length ?run \<le> length outcomes"
    "\<forall>i < length ?run. \<forall>e \<in> set (edges d). target_node e = ?run ! i \<longrightarrow> enabled (outcomes ! i) e"
    "length ?run < length outcomes \<longrightarrow> blocked d ?run (outcomes ! length ?run)"
    by auto
  have sub: "distinct ?run" "set ?run \<subseteq> set (names d)" using run(1) by (simp_all add: in_order_def)
  have iff: "select_next_step d c o1 h = Inl NoReadyNodes \<longleftrightarrow> blocked d c o1" if "set c \<subseteq> set (names d)" for c o1 h
    by (cases rule: select_cases [OF that, of o1 h]) simp_all
  have "set ?run = set (names d)"
    if en: "\<forall>o1 \<in> set outcomes. \<forall>e \<in> set (edges d). enabled o1 e" and len: "length (nodes d) \<le> length outcomes"
  proof (cases "length ?run < length outcomes")
    case True
    then have "\<forall>e \<in> set (edges d). enabled (outcomes ! length ?run) e" using en nth_mem by blast
    then show ?thesis using True run(4) blocked_enabled [OF sound sub(2)] by blast
  next
    case False
    then have "length (names d) \<le> card (set ?run)" using len run(2) distinct_card [OF sub(1)] by simp
    then have "card (set (names d)) \<le> card (set ?run)" using card_length [of "names d"] by linarith
    then show ?thesis using card_seteq [OF _ sub(2)] by simp
  qed
  then show ?thesis
    using sub run(3,4) iff blocked_enabled [OF sound] in_order_complete [OF sound run(1)] by blast
qed

definition demo_workflow :: "nat WorkflowDefinition" where
  "demo_workflow = accepted_definition 2 diamond"

lemma demo_validated: "validate_unvalidated 2 remdups diamond = Some (Inr demo_workflow)"
  by (cases rule: validate_unvalidated_cases [OF iter_law_remdups, of 2 diamond])
    (simp_all add: diamond_acceptable demo_workflow_def)

lemma demo_workflow_parts:
  "node_name ` set (nodes demo_workflow) = {''a'', ''b'', ''c''}" "length (nodes demo_workflow) = 3"
  "edges demo_workflow = [wf_edge ''a'' ''b'', wf_edge ''a'' ''c'', wf_edge ''b'' ''c'']"
  by (simp_all add: demo_workflow_def accepted_definition_def diamond_def wf_node_def)

definition conditional_workflow :: "nat WorkflowDefinition" where
  "conditional_workflow = demo_workflow\<lparr>edges := map (\<lambda>e. e\<lparr>condition := OnSuccess\<rparr>) (edges demo_workflow)\<rparr>"

text \<open>An outcome of failure blocks the edges that demand success.\<close>

lemma failure_blocks:
  "schedule [None, Some Failure, None] conditional_workflow [] = [''a'']"
  "schedule [None, Some Success, Some Success] conditional_workflow [] = [''a'', ''b'', ''c'']"
  by (simp_all add: conditional_workflow_def demo_workflow_def accepted_definition_def diamond_def wf_node_def
      wf_edge_def select_next_step_def find_ready_nodes_def is_ready_def dependencies_def incoming_def get_node_def)

theorem scheduling_completes_witness:
  "iter_law (remdups :: NodeName list \<Rightarrow> NodeName list)
   \<and> validate_unvalidated 2 remdups diamond = Some (Inr demo_workflow)
   \<and> set (schedule [None, Some Success, Some Failure] demo_workflow []) = {''a'', ''b'', ''c''}
   \<and> precedes (schedule [None, Some Success, Some Failure] demo_workflow []) ''b'' ''c''"
proof -
  have "\<forall>o1 \<in> set [None, Some Success, Some Failure]. \<forall>e \<in> set (edges demo_workflow). enabled o1 e"
    by (simp add: demo_workflow_parts wf_edge_def enabled_def)
  moreover have "length (nodes demo_workflow) \<le> length [None, Some Success, Some Failure]"
    by (simp add: demo_workflow_parts)
  ultimately have "set (schedule [None, Some Success, Some Failure] demo_workflow []) = {''a'', ''b'', ''c''}"
    "\<forall>e \<in> set (edges demo_workflow). target_node e \<in> set (schedule [None, Some Success, Some Failure] demo_workflow [])
       \<longrightarrow> precedes (schedule [None, Some Success, Some Failure] demo_workflow []) (source_node e) (target_node e)"
    using scheduling_completes [OF iter_law_remdups demo_validated, of "[None, Some Success, Some Failure]"]
      demo_workflow_parts(1) by (metis set_map, blast)
  then show ?thesis by (simp add: demo_validated demo_workflow_parts iter_law_remdups wf_edge_def)
qed

section \<open>Layers\<close>

definition layered :: "'v WorkflowDefinition \<Rightarrow> NodeName list list \<Rightarrow> bool" where
  "layered d layers \<longleftrightarrow>
     (\<forall>j < length layers. layers ! j \<noteq> []
        \<and> (\<forall>y \<in> set (layers ! j). \<forall>x. (x, y) \<in> graph (edges d) \<longrightarrow> (\<exists>i < j. x \<in> set (layers ! i))))"

lemma layered_snoc:
  assumes "layered d layers" and "layer \<noteq> []"
    and "\<And>y x. y \<in> set layer \<Longrightarrow> (x, y) \<in> graph (edges d) \<Longrightarrow> x \<in> set (concat layers)"
  shows "layered d (layers @ [layer])"
proof -
  have earlier: "\<exists>i < length layers. x \<in> set (layers ! i)" if "x \<in> set (concat layers)" for x
    using that by (auto dest!: in_set_conv_nth [THEN iffD1])
  have "(layers @ [layer]) ! j \<noteq> [] \<and> (\<forall>y \<in> set ((layers @ [layer]) ! j).
      \<forall>x. (x, y) \<in> graph (edges d) \<longrightarrow> (\<exists>i < j. x \<in> set ((layers @ [layer]) ! i)))"
    if j: "j < length (layers @ [layer])" for j
  proof (cases "j < length layers")
    case True
    then have same: "(layers @ [layer]) ! i = layers ! i" if "i \<le> j" for i
      using that by (simp add: nth_append)
    show ?thesis using assms(1) True same unfolding layered_def by (metis less_imp_le order_refl)
  next
    case False
    then have j: "j = length layers" using j by simp
    have "\<exists>i < j. x \<in> set ((layers @ [layer]) ! i)" if "y \<in> set layer" "(x, y) \<in> graph (edges d)" for x y
      using earlier [OF assms(3) [OF that]] j by (auto simp: nth_append)
    then show ?thesis using assms(2) j by auto
  qed
  then show ?thesis unfolding layered_def by blast
qed

lemma layer_loop_result:
  assumes "sound_definition d" and "layered d layers" and "distinct (concat layers @ remaining)"
    and "set (concat layers @ remaining) = set (names d)" and "assigned = set (concat layers)"
  shows "layered d (layer_loop d assigned remaining layers)
    \<and> distinct (concat (layer_loop d assigned remaining layers))
    \<and> set (concat (layer_loop d assigned remaining layers)) = set (names d)"
  using assms
proof (induction d assigned remaining layers rule: layer_loop.induct)
  case (1 d assigned remaining layers)
  let ?layer = "filter (\<lambda>name. \<forall>dep \<in> set (dependencies d name). dep \<in> assigned) remaining"
  let ?rest = "filter (\<lambda>n. n \<notin> set ?layer) remaining"
  show ?case
  proof (cases "remaining = []")
    case True
    then show ?thesis using 1(3-5) by (simp add: layer_loop.simps [of d])
  next
    case False
    have "set (concat layers) \<subset> set (names d)"
    proof -
      have "hd remaining \<in> set (names d)" "hd remaining \<notin> set (concat layers)"
        using 1(4,5) False hd_in_set [OF False] by auto
      then show ?thesis using 1(5) by auto
    qed
    from some_node_ready [OF 1(2) this] obtain z where z: "z \<in> set (ready_nodes d (concat layers))"
      by (cases "ready_nodes d (concat layers)") auto
    have "z \<in> set (names d)" "z \<notin> set (concat layers)" "\<forall>dep \<in> set (dependencies d z). dep \<in> assigned"
      using z 1(6) by (auto simp: ready_nodes_def)
    then have "z \<in> set ?layer" using 1(5) by auto
    then have ne: "?layer \<noteq> []" by force
    have step: "layer_loop d assigned remaining layers =
        layer_loop d (assigned \<union> set ?layer) ?rest (layers @ [?layer])"
      using False ne by (simp add: layer_loop.simps [of d assigned remaining] fold_retain Let_def)
    have "layered d (layers @ [?layer])"
      by (rule layered_snoc [OF 1(3) ne]) (use 1(6) in \<open>auto simp: dependencies_graph\<close>)
    moreover have "distinct (concat (layers @ [?layer]) @ ?rest)" using 1(4) by auto
    moreover have "set (concat (layers @ [?layer]) @ ?rest) = set (names d)" using 1(5) by auto
    moreover have "assigned \<union> set ?layer = set (concat (layers @ [?layer]))" using 1(6) by auto
    ultimately show ?thesis unfolding step
      using 1(1) [OF False refl ne 1(2)] by (simp only: fold_retain)
  qed
qed

text \<open>
  The execution layers of a validated definition hold every node exactly
  once; no layer is empty, and everything a node depends on lies in a strictly
  earlier layer, so the nodes of one layer can run in parallel.
\<close>

theorem execution_layers_exact:
  assumes "iter_law it" and "validate_unvalidated mv it u = Some (Inr d)"
  shows "distinct (concat (execution_layers d))
    \<and> set (concat (execution_layers d)) = set (names d)
    \<and> layered d (execution_layers d)"
proof -
  have sound: "sound_definition d" by (rule validated_sound [OF assms])
  have "layered d []" by (simp add: layered_def)
  from layer_loop_result [OF sound this, of "names d" "{}"] show ?thesis
    using sound by (simp add: execution_layers_def sound_definition_def)
qed

theorem execution_layers_exact_witness:
  "iter_law (remdups :: NodeName list \<Rightarrow> NodeName list)
   \<and> validate_unvalidated 2 remdups diamond = Some (Inr demo_workflow)
   \<and> set (concat (execution_layers demo_workflow)) = {''a'', ''b'', ''c''}
   \<and> layered demo_workflow (execution_layers demo_workflow)"
  using execution_layers_exact [OF iter_law_remdups demo_validated]
  by (simp add: demo_validated demo_workflow_parts iter_law_remdups)

section \<open>Transitive dependencies\<close>

text \<open>Both searches follow a list of arcs from their starting node.\<close>

type_synonym arcs = "(NodeName \<times> NodeName) list"

definition succs :: "arcs \<Rightarrow> NodeName \<Rightarrow> NodeName list" where
  "succs as x = map snd (filter (\<lambda>a. fst a = x) as)"

definition heads :: "arcs \<Rightarrow> NodeName set \<Rightarrow> NodeName list" where
  "heads as P = map snd (filter (\<lambda>a. fst a \<in> P) as)"

lemma dependencies_succs:
  "dependencies d = succs (map (\<lambda>e. (target_node e, source_node e)) (edges d))"
  "dependents_of d = succs (map (\<lambda>e. (source_node e, target_node e)) (edges d))"
  by (auto simp: fun_eq_iff dependencies_def dependents_of_def succs_def filter_map comp_def)

lemma set_heads: "set (heads as P) = set as `` P"
  by (force simp: heads_def)

lemma mset_heads_insert: "x \<notin> P \<Longrightarrow> mset (heads as (insert x P)) = mset (heads as P) + mset (succs as x)"
  by (induction as) (auto simp: heads_def succs_def)

lemma distinct_heads_mono: "P \<subseteq> Q \<Longrightarrow> distinct (heads as Q) \<Longrightarrow> distinct (heads as P)"
  by (induction as) (auto simp: heads_def split: if_splits)

lemma length_heads: "length (heads as P) \<le> length as"
  by (simp add: heads_def)

lemma visit_deps_result:
  "visit_deps ds visited result queue =
     (if distinct ds \<and> set ds \<inter> visited = {}
      then Some (visited \<union> set ds, result @ ds, queue @ ds) else None)"
  by (induction ds arbitrary: visited result queue) auto

definition closure_inv :: "arcs \<Rightarrow> NodeName \<Rightarrow> NodeName set \<Rightarrow> NodeName list \<Rightarrow> NodeName list \<Rightarrow> bool" where
  "closure_inv as node visited result queue \<longleftrightarrow>
     visited = insert node (set result) \<and> distinct (node # result) \<and> distinct queue
     \<and> set queue \<subseteq> visited \<and> mset result = mset (heads as (visited - set queue))
     \<and> visited \<subseteq> (set as)\<^sup>* `` {node}"

lemma closure_inv_step:
  assumes inv: "closure_inv as node visited result (rest @ [x])"
    and fresh: "distinct (succs as x)" "set (succs as x) \<inter> visited = {}"
  shows "closure_inv as node (visited \<union> set (succs as x)) (result @ succs as x) (rest @ succs as x)"
proof -
  let ?ds = "succs as x"
  have x: "x \<in> visited" "x \<notin> set rest" "distinct rest" "set rest \<subseteq> visited"
    using inv unfolding closure_inv_def by auto
  have processed: "(visited \<union> set ?ds) - set (rest @ ?ds) = insert x (visited - set (rest @ [x]))"
    using x fresh(2) by auto
  have "mset (result @ ?ds) = mset (heads as ((visited \<union> set ?ds) - set (rest @ ?ds)))"
    unfolding processed
    using inv mset_heads_insert [of x "visited - set (rest @ [x])" as] by (simp add: closure_inv_def)
  moreover have "set ?ds \<subseteq> (set as)\<^sup>* `` {node}"
  proof
    fix y
    assume "y \<in> set ?ds"
    then have "(x, y) \<in> set as" by (auto simp: succs_def)
    moreover have "(node, x) \<in> (set as)\<^sup>*" using inv x(1) by (auto simp: closure_inv_def)
    ultimately show "y \<in> (set as)\<^sup>* `` {node}" by (auto intro: rtrancl_into_rtrancl)
  qed
  moreover have "visited \<union> set ?ds = insert node (set (result @ ?ds))"
    "distinct (node # result @ ?ds)" "visited \<subseteq> (set as)\<^sup>* `` {node}"
    using inv fresh unfolding closure_inv_def by auto
  moreover have "distinct (rest @ ?ds)" "set (rest @ ?ds) \<subseteq> visited \<union> set ?ds" using x fresh by auto
  ultimately show ?thesis unfolding closure_inv_def by blast
qed

lemma closure_early_exit:
  assumes inv: "closure_inv as node visited result (rest @ [x])" and acyc: "acyclic (set as)"
    and clash: "\<not> (distinct (succs as x) \<and> set (succs as x) \<inter> visited = {})"
  shows "\<not> distinct (heads as ((set as)\<^sup>* `` {node}))"
proof
  assume d: "distinct (heads as ((set as)\<^sup>* `` {node}))"
  let ?P = "visited - set (rest @ [x])"
  have x: "(node, x) \<in> (set as)\<^sup>*" "x \<in> visited" using inv by (auto simp: closure_inv_def)
  have "insert x ?P \<subseteq> (set as)\<^sup>* `` {node}" using inv x by (auto simp: closure_inv_def)
  from distinct_heads_mono [OF this d] have "distinct (heads as (insert x ?P))" .
  moreover have "mset (heads as (insert x ?P)) = mset (result @ succs as x)"
    using inv mset_heads_insert [of x ?P as] by (simp add: closure_inv_def)
  ultimately have "distinct (result @ succs as x)" by (metis mset_eq_imp_distinct_iff)
  then have "node \<in> set (succs as x)" using clash inv by (auto simp: closure_inv_def)
  then have "(x, node) \<in> set as" by (auto simp: succs_def)
  then have "(x, x) \<in> (set as)\<^sup>+" using x(1) by (rule rtrancl_into_trancl2)
  then show False using acyc by (simp add: acyclic_def)
qed

lemma closure_finished:
  assumes inv: "closure_inv as node visited result []" and acyc: "acyclic (set as)"
  shows "distinct (heads as ((set as)\<^sup>* `` {node}))" and "distinct result"
    and "set result = (set as)\<^sup>+ `` {node}"
proof -
  have m: "mset result = mset (heads as visited)" and d: "distinct result"
    and v: "visited = insert node (set result)" and n: "node \<notin> set result"
    and sub: "visited \<subseteq> (set as)\<^sup>* `` {node}"
    using inv by (auto simp: closure_inv_def)
  have "set as `` visited \<subseteq> visited"
    using mset_eq_setD [OF m] v unfolding set_heads by blast
  then have "(set as)\<^sup>* `` visited = visited" by (rule Image_closed_trancl)
  then have reach: "visited = (set as)\<^sup>* `` {node}" using sub v by blast
  show "distinct (heads as ((set as)\<^sup>* `` {node}))"
    using d m unfolding reach [symmetric] by (metis mset_eq_imp_distinct_iff)
  show "distinct result" by (rule d)
  have "(set as)\<^sup>* `` {node} = insert node ((set as)\<^sup>+ `` {node})"
    by (auto simp: rtrancl_eq_or_trancl)
  moreover have "node \<notin> (set as)\<^sup>+ `` {node}" using acyc by (auto simp: acyclic_def)
  ultimately show "set result = (set as)\<^sup>+ `` {node}" using reach v n by auto
qed

lemma closure_loop_exact:
  assumes "closure_inv as node visited result queue" and "acyclic (set as)"
    and "length queue + (length as - length result) \<le> fuel"
  shows "\<exists>r. closure_loop fuel (succs as) visited result queue = Some r
    \<and> (if distinct (heads as ((set as)\<^sup>* `` {node}))
       then distinct r \<and> set r = (set as)\<^sup>+ `` {node} else r = [])"
  using assms
proof (induction fuel "succs as" visited result queue rule: closure_loop.induct)
  case (1 fuel visited result)
  then show ?case using closure_finished [OF 1(1,2)] by simp
next
  case (2 visited result q qs)
  then show ?case by simp
next
  case (3 fuel visited result q qs)
  obtain rest x where q: "q # qs = rest @ [x]" by (metis rev_exhaust list.distinct(1))
  have lb: "last (q # qs) = x" "butlast (q # qs) = rest" unfolding q by simp_all
  let ?ds = "succs as x"
  have inv: "closure_inv as node visited result (rest @ [x])" using 3(2) q by simp
  have loop: "closure_loop (Suc fuel) (succs as) visited result (q # qs) =
      (if distinct ?ds \<and> set ?ds \<inter> visited = {}
       then closure_loop fuel (succs as) (visited \<union> set ?ds) (result @ ?ds) (rest @ ?ds) else Some [])"
    unfolding closure_loop.simps(3) lb visit_deps_result by simp
  show ?case
  proof (cases "distinct ?ds \<and> set ?ds \<inter> visited = {}")
    case True
    have inv': "closure_inv as node (visited \<union> set ?ds) (result @ ?ds) (rest @ ?ds)"
      by (rule closure_inv_step [OF inv]) (use True in simp_all)
    have "length (result @ ?ds) \<le> length as"
      using inv' length_heads [of as] unfolding closure_inv_def by (metis size_mset)
    moreover have "length (q # qs) = Suc (length rest)" unfolding q by simp
    ultimately have "length (rest @ ?ds) + (length as - length (result @ ?ds)) \<le> fuel"
      using 3(4) by simp
    moreover have "visit_deps (succs as (last (q # qs))) visited result (butlast (q # qs))
        = Some (visited \<union> set ?ds, result @ ?ds, rest @ ?ds)"
      unfolding lb visit_deps_result using True by simp
    ultimately show ?thesis unfolding loop using 3(1) [OF _ refl refl inv' 3(3)] True by simp
  next
    case False
    then show ?thesis using closure_early_exit [OF inv 3(3) False] unfolding loop by auto
  qed
qed

lemma closure_inv_init: "closure_inv as node {node} [] [node]"
  by (simp add: closure_inv_def heads_def)

lemma heads_edges:
  "heads (map (\<lambda>e. (target_node e, source_node e)) es) P = map source_node (filter (\<lambda>e. target_node e \<in> P) es)"
  "heads (map (\<lambda>e. (source_node e, target_node e)) es) P = map target_node (filter (\<lambda>e. source_node e \<in> P) es)"
  by (simp_all add: heads_def filter_map comp_def)

lemma arcs_graph:
  "set (map (\<lambda>e. (target_node e, source_node e)) es) = (graph es)\<inverse>"
  "set (map (\<lambda>e. (source_node e, target_node e)) es) = graph es"
  by (auto simp: graph_def)

text \<open>
  When the transitive searches are right.  On a validated definition
  \<open>transitive_dependencies\<close> always returns.  If no two edges among the ancestors
  of the node leave from the same source, it lists every node the given one
  depends on, directly or indirectly, once; otherwise, although the graph has no
  cycle, it returns the empty list.  \<open>transitive_dependents\<close> behaves in the same
  way on the descendants.
\<close>

theorem transitive_search_exact:
  assumes "iter_law it" and "validate_unvalidated mv it u = Some (Inr d)"
  shows "(\<exists>r. transitive_dependencies d node = Some r \<and>
       (if distinct (map source_node (filter (\<lambda>e. (target_node e, node) \<in> (graph (edges d))\<^sup>*) (edges d)))
        then distinct r \<and> set r = {x. (x, node) \<in> (graph (edges d))\<^sup>+} else r = []))
    \<and> (\<exists>r. transitive_dependents d node = Some r \<and>
       (if distinct (map target_node (filter (\<lambda>e. (node, source_node e) \<in> (graph (edges d))\<^sup>*) (edges d)))
        then distinct r \<and> set r = {x. (node, x) \<in> (graph (edges d))\<^sup>+} else r = []))"
proof -
  let ?up = "map (\<lambda>e. (target_node e, source_node e)) (edges d)"
  let ?down = "map (\<lambda>e. (source_node e, target_node e)) (edges d)"
  have acyc: "acyclic (graph (edges d))"
    using validated_sound [OF assms] by (simp add: sound_definition_def)
  then have up: "acyclic (set ?up)" and down: "acyclic (set ?down)"
    unfolding arcs_graph by (simp_all add: acyclic_converse)
  have imgs: "((graph (edges d))\<inverse>)\<^sup>* `` {node} = {x. (x, node) \<in> (graph (edges d))\<^sup>*}"
    "((graph (edges d))\<inverse>)\<^sup>+ `` {node} = {x. (x, node) \<in> (graph (edges d))\<^sup>+}"
    "(graph (edges d))\<^sup>* `` {node} = {x. (node, x) \<in> (graph (edges d))\<^sup>*}"
    "(graph (edges d))\<^sup>+ `` {node} = {x. (node, x) \<in> (graph (edges d))\<^sup>+}"
    by (auto simp: rtrancl_converse trancl_converse)
  have fuel: "length [node] + (length as - length []) \<le> Suc (length (edges d))"
    if "length as = length (edges d)" for as :: arcs using that by simp
  from closure_loop_exact [OF closure_inv_init up, of node "Suc (length (edges d))", OF fuel]
    closure_loop_exact [OF closure_inv_init down, of node "Suc (length (edges d))", OF fuel]
  show ?thesis
    unfolding transitive_dependencies_def transitive_dependents_def dependencies_succs
      heads_edges arcs_graph imgs mem_Collect_eq length_map
    by blast
qed

theorem transitive_search_exact_witness:
  "iter_law (remdups :: NodeName list \<Rightarrow> NodeName list)
   \<and> validate_unvalidated 2 remdups diamond = Some (Inr demo_workflow)
   \<and> (\<exists>r. transitive_dependencies demo_workflow ''b'' = Some r \<and> set r \<subseteq> {''a''})
   \<and> transitive_dependencies demo_workflow ''c'' = Some []
   \<and> (''a'', ''c'') \<in> graph (edges demo_workflow)"
proof -
  have g: "graph (edges demo_workflow) = {(''a'', ''b''), (''a'', ''c''), (''b'', ''c'')}"
    by (auto simp: graph_def demo_workflow_parts wf_edge_def)
  have "transitive_dependencies demo_workflow ''b'' = Some [''a'']"
    by (simp add: transitive_dependencies_def demo_workflow_parts wf_edge_def dependencies_def)
  moreover have "transitive_dependencies demo_workflow ''c'' = Some []"
    using transitive_search_exact [OF iter_law_remdups demo_validated, of "''c''"]
    by (simp add: g) (simp add: demo_workflow_parts wf_edge_def r_into_rtrancl split: if_splits)
  ultimately show ?thesis using demo_validated iter_law_remdups g by simp
qed

section \<open>Fan-in picks the latest traversal\<close>

lemma traversed_sources_snoc:
  "traversed_sources (tlog @ [e]) tgt =
     (if te_target e = tgt \<and> te_source e \<notin> set (traversed_sources tlog tgt)
      then traversed_sources tlog tgt @ [te_source e] else traversed_sources tlog tgt)"
  by (simp add: traversed_sources_def)

lemma set_traversed_sources:
  "set (traversed_sources tlog tgt) = te_source ` {e \<in> set tlog. te_target e = tgt}"
  by (induction tlog rule: rev_induct) (auto simp: traversed_sources_snoc, simp add: traversed_sources_def)

lemma position_by_Some: "position_by P xs = Some k \<Longrightarrow> k < length xs"
  by (induction xs arbitrary: k) (auto split: if_splits)

lemma position_by_None: "position_by P xs = None \<longleftrightarrow> (\<forall>x \<in> set xs. \<not> P x)"
  by (induction xs) auto

lemma better_source_snoc_other:
  assumes "te_target e \<noteq> tgt"
  shows "better_source (tlog @ [e]) tgt = better_source tlog tgt"
  using assms by (auto simp: better_source_def fun_eq_iff Let_def split: option.splits)

lemma better_source_snoc_older:
  assumes "te_target e = tgt" and "src \<noteq> te_source e" and "i < length tlog \<or> b = None"
  shows "\<exists>b' i'. better_source (tlog @ [e]) tgt src (b, i) = (b', i') \<and> (i' < length tlog \<or> b' = None)"
  using assms
  by (auto simp: better_source_def Let_def dest: position_by_Some split: option.splits)

lemma fold_older:
  assumes "te_target e = tgt" and "te_source e \<notin> set srcs" and "i < length tlog \<or> b = None"
  shows "\<exists>b' i'. fold (better_source (tlog @ [e]) tgt) srcs (b, i) = (b', i') \<and> (i' < length tlog \<or> b' = None)"
  using assms(2,3)
proof (induction srcs arbitrary: b i)
  case (Cons src srcs)
  obtain b' i' where "better_source (tlog @ [e]) tgt src (b, i) = (b', i')" "i' < length tlog \<or> b' = None"
    using better_source_snoc_older [OF assms(1), of src i tlog b] Cons.prems by auto
  then show ?case using Cons.IH [of i' b'] Cons.prems by simp
qed auto

lemma fold_latest_stays:
  "te_target e = tgt \<Longrightarrow> fold (better_source (tlog @ [e]) tgt) srcs (Some (te_source e), length tlog)
     = (Some (te_source e), length tlog)"
  by (induction srcs)
    (auto simp: better_source_def Let_def dest: position_by_Some split: option.splits)

text \<open>
  Conditional fan-in picks the parent that was traversed last: whatever the
  log of traversed edges, \<open>select_fan_in_source\<close> returns the source of its latest
  record for the target, and nothing when there is none.
\<close>

theorem fan_in_source_latest:
  "select_fan_in_source tgt tlog = map_option te_source (find (\<lambda>e. te_target e = tgt) (rev tlog))"
proof (induction tlog rule: rev_induct)
  case Nil
  show ?case by (simp add: select_fan_in_source_def traversed_sources_def)
next
  case (snoc e tlog)
  show ?case
  proof (cases "te_target e = tgt")
    case False
    then have "select_fan_in_source tgt (tlog @ [e]) = select_fan_in_source tgt tlog"
      unfolding select_fan_in_source_def better_source_snoc_other [OF False] traversed_sources_snoc
      by simp
    then show ?thesis using snoc False by simp
  next
    case True
    let ?srcs = "traversed_sources (tlog @ [e]) tgt"
    have mem: "te_source e \<in> set ?srcs" using True by (simp add: set_traversed_sources)
    then obtain us vs where srcs: "?srcs = us @ te_source e # vs" "te_source e \<notin> set us"
      by (meson split_list_first)
    obtain b i where before: "fold (better_source (tlog @ [e]) tgt) us (None, 0) = (b, i)"
      "i < length tlog \<or> b = None"
      using fold_older [OF True srcs(2), of 0 tlog None] by auto
    have "better_source (tlog @ [e]) tgt (te_source e) (b, i) = (Some (te_source e), length tlog)"
      using before(2) True by (auto simp: better_source_def Let_def split: option.splits)
    then have "fst (fold (better_source (tlog @ [e]) tgt) ?srcs (None, 0)) = Some (te_source e)"
      using before(1) fold_latest_stays [OF True, of tlog vs] unfolding srcs(1) by simp
    moreover have "?srcs ! 0 = te_source e" if "length ?srcs = 1"
      using that mem by (cases ?srcs) auto
    ultimately have "select_fan_in_source tgt (tlog @ [e]) = Some (te_source e)"
      using mem by (auto simp: select_fan_in_source_def Let_def)
    then show ?thesis using True by simp
  qed
qed

section \<open>Attempt numbers\<close>

lemma Max_word_succ:
  fixes A :: "'a::len word set"
  assumes "finite A" and "x \<in> A" and "Max A \<noteq> - 1"
  shows "x < Max A + 1"
proof -
  have "x \<le> Max A" using assms by simp
  moreover have "Max A < - 1" using assms(3) by (simp add: word_order.not_eq_extremum)
  ultimately show ?thesis using unat_successor [of "Max A" "- 1"]
    by (simp add: word_less_nat_alt word_le_nat_alt)
qed

text \<open>
  Scheduling a step again always gets new numbers: as long as no earlier
  record of the step has reached the top of its counters, the next attempt and
  the next fence are above those of every such record.  A step without a record
  starts at one, whatever fences the other steps have used.
\<close>

theorem attempts_increase:
  assumes "r \<in> set history"
    and "\<forall>q \<in> set history. ssr_step_id q = ssr_step_id r \<longrightarrow> ssr_attempt q \<noteq> - 1 \<and> ssr_fence q \<noteq> - 1"
  shows "ssr_attempt r < fst (compute_attempt_and_fence (ssr_step_id r) history)
    \<and> ssr_fence r < snd (compute_attempt_and_fence (ssr_step_id r) history)
    \<and> (\<forall>step. step \<notin> ssr_step_id ` set history \<longrightarrow> compute_attempt_and_fence step history = (1, 1))"
proof -
  let ?R = "records_for_step history (ssr_step_id r)"
  have mem: "q \<in> set ?R \<longleftrightarrow> q \<in> set history \<and> ssr_step_id q = ssr_step_id r" for q
    by (auto simp: records_for_step_def)
  then have "r \<in> set ?R" using assms(1) by blast
  then have r: "r \<in> set ?R" "?R \<noteq> []" by auto
  have "Max (ssr_attempt ` set ?R) \<in> ssr_attempt ` set ?R" "Max (ssr_fence ` set ?R) \<in> ssr_fence ` set ?R"
    using r by (auto intro!: Max_in)
  then have "Max (ssr_attempt ` set ?R) \<noteq> - 1" "Max (ssr_fence ` set ?R) \<noteq> - 1"
    using assms(2) mem by auto
  then have "ssr_attempt r < Max (ssr_attempt ` set ?R) + 1" "ssr_fence r < Max (ssr_fence ` set ?R) + 1"
    using r(1) by (simp_all add: Max_word_succ)
  moreover have "records_for_step history step = []" if "step \<notin> ssr_step_id ` set history" for step
    using that by (auto simp: records_for_step_def filter_empty_conv)
  ultimately show ?thesis using r(2) by (auto simp: compute_attempt_and_fence_def Let_def)
qed

theorem attempts_increase_witness:
  "compute_attempt_and_fence ''a''
     [\<lparr>ssr_step_id = ''a'', ssr_attempt = 1, ssr_fence = 7\<rparr>, \<lparr>ssr_step_id = ''a'', ssr_attempt = 2, ssr_fence = 3\<rparr>]
     = (3, 8)
   \<and> compute_attempt_and_fence ''b''
     [\<lparr>ssr_step_id = ''a'', ssr_attempt = 1, ssr_fence = 7\<rparr>, \<lparr>ssr_step_id = ''a'', ssr_attempt = 2, ssr_fence = 3\<rparr>]
     = (1, 1)"
  using attempts_increase [of "\<lparr>ssr_step_id = ''a'', ssr_attempt = 1, ssr_fence = 7\<rparr>"
      "[\<lparr>ssr_step_id = ''a'', ssr_attempt = 1, ssr_fence = 7\<rparr>, \<lparr>ssr_step_id = ''a'', ssr_attempt = 2, ssr_fence = 3\<rparr>]"]
  by (simp add: compute_attempt_and_fence_def records_for_step_def Let_def)

end
