(* ===== verification/Timer_Index.thy ===== *)
theory Timer_Index
  imports Key_Encoding "HOL-Library.RBT" "HOL-Library.List_Lexorder"
begin

text \<open>
  Durable timers (vo-storage/src/timer_index): the 40-byte keys that sort timers
  by due time, the operations on a byte store, the store on top of a fjall
  keyspace, and the Bloom filter in front of it.  The fjall keyspace and the two
  hash functions of the filter are parameters.
\<close>

section \<open>Keys, values and records\<close>

datatype StorageError =
    CorruptKey | Other | BatchCommitFailed | ScanFailed | InstanceRunning
  | InvalidInstanceId ParseError | Storage_SequenceGap | CorruptEventPayload | UnsupportedVersion
  | Storage_Failure | Storage_InvalidArgument | SerializationFailed | Storage_DeserializationFailed
  | FjallError | InvalidKey | ChecksumMismatch | KeyNotFound | KeyDestroyed

text \<open>A \<open>TimerKey\<close> is its 40 bytes.\<close>

definition TimerKey_new :: "id_crates \<Rightarrow> u64 \<Rightarrow> InstanceId \<Rightarrow> TimerId \<Rightarrow> StorageError + bytes" where
  "TimerKey_new api fire_at_ms instance_id timer_id =
     and_then (map_err (\<lambda>_. Storage_InvalidArgument) (InstanceId_to_bytes api instance_id)) (\<lambda>ib.
     and_then (map_err (\<lambda>_. Storage_InvalidArgument) (TimerId_to_bytes api timer_id)) (\<lambda>tb.
       Inr (u64_to_be_bytes fire_at_ms @ ib @ tb)))"

definition key_fire_at_ms :: "bytes \<Rightarrow> u64" where
  "key_fire_at_ms key = u64_from_be_bytes (take 8 key)"

definition key_instance_id :: "id_crates \<Rightarrow> bytes \<Rightarrow> InstanceId" where
  "key_instance_id api key = InstanceId_from_bytes api (take 16 (drop 8 key))"

definition key_timer_id :: "id_crates \<Rightarrow> bytes \<Rightarrow> TimerId" where
  "key_timer_id api key = TimerId_from_bytes api (take 16 (drop 24 key))"

definition TimerValue_new :: "u64 \<Rightarrow> StorageError + u64" where
  "TimerValue_new duration_ms = (if duration_ms = 0 then Inl Storage_InvalidArgument else Inr duration_ms)"

record TimerRecord =
  tm_timer_id :: TimerId
  tm_instance_id :: InstanceId
  tm_fire_at_ms :: u64
  tm_trigger_time_ms :: u64
  tm_duration_ms :: u64

definition try_from_parts ::
  "TimerId \<Rightarrow> InstanceId \<Rightarrow> u64 \<Rightarrow> u64 \<Rightarrow> u64 \<Rightarrow> StorageError + TimerRecord" where
  "try_from_parts timer_id instance_id fire_at_ms trigger_time_ms duration_ms =
     (if duration_ms = 0 then Inl Storage_InvalidArgument
      else if fire_at_ms \<noteq> saturating_add trigger_time_ms duration_ms then Inl Storage_InvalidArgument
      else Inr \<lparr>tm_timer_id = timer_id, tm_instance_id = instance_id, tm_fire_at_ms = fire_at_ms,
                 tm_trigger_time_ms = trigger_time_ms, tm_duration_ms = duration_ms\<rparr>)"

section \<open>The storage interface\<close>

text \<open>The trait \<open>Storage\<close>: its operations on a store of type \<open>'s\<close>.\<close>

record 's Storage =
  sg_put :: "'s \<Rightarrow> bytes \<Rightarrow> bytes \<Rightarrow> (StorageError + unit) \<times> 's"
  sg_get :: "'s \<Rightarrow> bytes \<Rightarrow> StorageError + bytes option"
  sg_delete :: "'s \<Rightarrow> bytes \<Rightarrow> (StorageError + unit) \<times> 's"
  sg_scan :: "'s \<Rightarrow> bytes \<Rightarrow> bytes \<Rightarrow> StorageError + (bytes \<times> bytes) list"

definition timer_set ::
  "id_crates \<Rightarrow> 's Storage \<Rightarrow> 's \<Rightarrow> InstanceId \<Rightarrow> TimerId \<Rightarrow> u64 \<Rightarrow> u64 \<Rightarrow> u64 \<Rightarrow> u64
     \<Rightarrow> (StorageError + unit) \<times> 's" where
  "timer_set api S st instance_id timer_id fire_at_ms trigger_time_ms duration_ms now_ms =
     (if fire_at_ms \<le> now_ms then (Inl Storage_InvalidArgument, st)
      else if duration_ms = 0 then (Inl Storage_InvalidArgument, st)
      else if fire_at_ms \<noteq> saturating_add trigger_time_ms duration_ms
      then (Inl Storage_InvalidArgument, st)
      else
        (case TimerKey_new api fire_at_ms instance_id timer_id of
           Inl e \<Rightarrow> (Inl e, st)
         | Inr key \<Rightarrow> sg_put S st key (u64_to_be_bytes duration_ms)))"

definition timer_delete ::
  "id_crates \<Rightarrow> 's Storage \<Rightarrow> 's \<Rightarrow> InstanceId \<Rightarrow> TimerId \<Rightarrow> u64 \<Rightarrow> (StorageError + unit) \<times> 's" where
  "timer_delete api S st instance_id timer_id fire_at_ms =
     (case TimerKey_new api fire_at_ms instance_id timer_id of
        Inl e \<Rightarrow> (Inl e, st)
      | Inr key \<Rightarrow> sg_delete S st key)"

text \<open>The record decoded from an entry.\<close>

definition decode_entry :: "id_crates \<Rightarrow> bytes \<Rightarrow> bytes \<Rightarrow> TimerRecord" where
  "decode_entry api k v =
     (let fire_at_ms = key_fire_at_ms k; duration_ms = u64_from_be_bytes v in
      \<lparr>tm_timer_id = key_timer_id api k, tm_instance_id = key_instance_id api k,
       tm_fire_at_ms = fire_at_ms, tm_trigger_time_ms = saturating_sub fire_at_ms duration_ms,
       tm_duration_ms = duration_ms\<rparr>)"

definition scan_end :: "u64 \<Rightarrow> bytes" where
  "scan_end now_ms = u64_to_be_bytes (saturating_add now_ms 1) @ replicate 32 0"

fun poll_loop ::
  "id_crates \<Rightarrow> 's Storage \<Rightarrow> InstanceId \<Rightarrow> u64 \<Rightarrow> nat \<Rightarrow> (bytes \<times> bytes) list \<Rightarrow> 's
     \<Rightarrow> TimerRecord list \<Rightarrow> nat \<Rightarrow> (StorageError + TimerRecord list) \<times> 's" where
  "poll_loop api S instance_id now_ms max_timers [] st claimed deleted = (Inr claimed, st)"
| "poll_loop api S instance_id now_ms max_timers ((k, v) # pairs) st claimed deleted =
     (if max_timers \<le> deleted then (Inr claimed, st)
      else if length k \<noteq> 40 \<or> key_instance_id api k \<noteq> instance_id \<or> now_ms < key_fire_at_ms k
              \<or> length v \<noteq> 8
      then poll_loop api S instance_id now_ms max_timers pairs st claimed deleted
      else
        (case sg_delete S st k of
           (Inl e, st') \<Rightarrow> (Inl e, st')
         | (Inr _, st') \<Rightarrow>
             poll_loop api S instance_id now_ms max_timers pairs st' (claimed @ [decode_entry api k v])
               (deleted + 1)))"

definition poll_expired_timers ::
  "id_crates \<Rightarrow> 's Storage \<Rightarrow> 's \<Rightarrow> InstanceId \<Rightarrow> u64 \<Rightarrow> nat
     \<Rightarrow> (StorageError + TimerRecord list) \<times> 's" where
  "poll_expired_timers api S st instance_id now_ms max_timers =
     (case sg_scan S st (replicate 40 0) (scan_end now_ms) of
        Inl e \<Rightarrow> (Inl e, st)
      | Inr pairs \<Rightarrow> poll_loop api S instance_id now_ms max_timers pairs st [] 0)"

definition due_record :: "id_crates \<Rightarrow> InstanceId \<Rightarrow> u64 \<Rightarrow> bytes \<times> bytes \<Rightarrow> TimerRecord option" where
  "due_record api instance_id now_ms = (\<lambda>(k, v).
     if length k \<noteq> 40 then None
     else if key_instance_id api k \<noteq> instance_id then None
     else if now_ms < key_fire_at_ms k then None
     else if length v \<noteq> 8 then None
     else Some (decode_entry api k v))"

definition scan_due_timers ::
  "id_crates \<Rightarrow> 's Storage \<Rightarrow> 's \<Rightarrow> InstanceId \<Rightarrow> u64 \<Rightarrow> StorageError + TimerRecord list" where
  "scan_due_timers api S st instance_id now_ms =
     and_then (sg_scan S st (replicate 40 0) (scan_end now_ms))
       (\<lambda>pairs. Inr (List.map_filter (due_record api instance_id now_ms) pairs))"

definition instance_record :: "id_crates \<Rightarrow> InstanceId \<Rightarrow> bytes \<times> bytes \<Rightarrow> TimerRecord option" where
  "instance_record api instance_id = (\<lambda>(k, v).
     if length k \<noteq> 40 then None
     else if key_instance_id api k \<noteq> instance_id then None
     else if length v \<noteq> 8 then None
     else Some (decode_entry api k v))"

definition scan_all_timers_for_instance ::
  "id_crates \<Rightarrow> 's Storage \<Rightarrow> 's \<Rightarrow> InstanceId \<Rightarrow> StorageError + TimerRecord list" where
  "scan_all_timers_for_instance api S st instance_id =
     and_then (map_err (\<lambda>_. Storage_InvalidArgument) (InstanceId_to_bytes api instance_id)) (\<lambda>ib.
     and_then (sg_scan S st (replicate 8 0 @ ib @ replicate 16 0)
                 (u64_to_be_bytes (- 1) @ ib @ replicate 16 255))
       (\<lambda>pairs. Inr (List.map_filter (instance_record api instance_id) pairs)))"

section \<open>The fjall keyspace\<close>

text \<open>
  What the source uses of a \<open>fjall::Keyspace\<close>: \<open>None\<close> is a \<open>fjall::Error\<close>, and an
  iteration yields results item by item.  An absent bound is unbounded, a given
  one inclusive.
\<close>

record 'k keyspace =
  ks_insert :: "'k \<Rightarrow> bytes \<Rightarrow> bytes \<Rightarrow> 'k option"
  ks_get :: "'k \<Rightarrow> bytes \<Rightarrow> bytes option option"
  ks_remove :: "'k \<Rightarrow> bytes \<Rightarrow> 'k option"
  ks_range :: "'k \<Rightarrow> bytes option \<Rightarrow> bytes option \<Rightarrow> (bytes \<times> bytes) option list"

fun collect_items :: "(bytes \<times> bytes) option list \<Rightarrow> (bytes \<times> bytes) list \<Rightarrow> StorageError + (bytes \<times> bytes) list" where
  "collect_items [] results = Inr results"
| "collect_items (None # items) results = Inl FjallError"
| "collect_items (Some kv # items) results = collect_items items (results @ [kv])"

definition fjall_put :: "'k keyspace \<Rightarrow> 'k \<Rightarrow> bytes \<Rightarrow> bytes \<Rightarrow> (StorageError + unit) \<times> 'k" where
  "fjall_put ks st key val =
     (case ks_insert ks st key val of None \<Rightarrow> (Inl FjallError, st) | Some st' \<Rightarrow> (Inr (), st'))"

definition fjall_get :: "'k keyspace \<Rightarrow> 'k \<Rightarrow> bytes \<Rightarrow> StorageError + bytes option" where
  "fjall_get ks st key = ok_or FjallError (ks_get ks st key)"

definition fjall_delete :: "'k keyspace \<Rightarrow> 'k \<Rightarrow> bytes \<Rightarrow> (StorageError + unit) \<times> 'k" where
  "fjall_delete ks st key =
     (case ks_remove ks st key of None \<Rightarrow> (Inl FjallError, st) | Some st' \<Rightarrow> (Inr (), st'))"

definition fjall_scan :: "'k keyspace \<Rightarrow> 'k \<Rightarrow> bytes \<Rightarrow> bytes \<Rightarrow> StorageError + (bytes \<times> bytes) list" where
  "fjall_scan ks st lo hi =
     (if lo = [] \<and> hi = [] then collect_items (ks_range ks st None None) []
      else if lo = [] then collect_items (ks_range ks st None (Some hi)) []
      else if hi = [] then collect_items (ks_range ks st (Some lo) None) []
      else collect_items (ks_range ks st (Some lo) (Some hi)) [])"

definition FjallTimerIndex :: "'k keyspace \<Rightarrow> 'k Storage" where
  "FjallTimerIndex ks =
     \<lparr>sg_put = fjall_put ks, sg_get = fjall_get ks, sg_delete = fjall_delete ks, sg_scan = fjall_scan ks\<rparr>"

section \<open>The Bloom filter\<close>

definition REBUILD_THRESHOLD :: nat where
  "REBUILD_THRESHOLD = 10000"

record BloomStats =
  bs_insert_count :: u64
  bs_check_count :: u64
  bs_false_positive_estimated :: u64

record TimerBloomFilter =
  bf_bit_vector :: "bool list"
  bf_num_hash_functions :: nat
  bf_expected_items :: nat
  bf_stats :: BloomStats
  bf_inserts_since_rebuild :: nat

definition BloomStats_new :: BloomStats where
  "BloomStats_new = \<lparr>bs_insert_count = 0, bs_check_count = 0, bs_false_positive_estimated = 0\<rparr>"

text \<open>
  The constructor computes its two sizes in floating point; they are arguments
  here, the number of hash functions before it is raised to at least one.
\<close>

definition TimerBloomFilter_new :: "nat \<Rightarrow> nat \<Rightarrow> nat \<Rightarrow> TimerBloomFilter" where
  "TimerBloomFilter_new expected_items k num_bits =
     \<lparr>bf_bit_vector = replicate num_bits False, bf_num_hash_functions = max k 1,
      bf_expected_items = expected_items, bf_stats = BloomStats_new, bf_inserts_since_rebuild = 0\<rparr>"

text \<open>
  \<open>h1\<close> and \<open>h2\<close> are wyhash and xxh3.  The remainder by the length of an empty bit
  vector panics, which is \<open>None\<close>.
\<close>

definition compute_hash_positions ::
  "(bytes \<Rightarrow> u64) \<Rightarrow> (bytes \<Rightarrow> u64) \<Rightarrow> TimerBloomFilter \<Rightarrow> TimerId \<Rightarrow> u64 \<Rightarrow> nat list option" where
  "compute_hash_positions h1 h2 bf timer_id fire_at_ms =
     (let a = h1 (as_bytes timer_id); b = h2 (u64_to_be_bytes fire_at_ms);
          m = length (bf_bit_vector bf)
      in if m = 0 \<and> 0 < bf_num_hash_functions bf then None
         else Some (map (\<lambda>i. unat (a + word_of_nat i * b) mod m) [0..<bf_num_hash_functions bf]))"

definition might_be_expired ::
  "(bytes \<Rightarrow> u64) \<Rightarrow> (bytes \<Rightarrow> u64) \<Rightarrow> TimerBloomFilter \<Rightarrow> TimerId \<Rightarrow> u64
     \<Rightarrow> (bool \<times> TimerBloomFilter) option" where
  "might_be_expired h1 h2 bf timer_id fire_at_ms =
     (let bf1 = bf\<lparr>bf_stats := bf_stats bf\<lparr>bs_check_count := bs_check_count (bf_stats bf) + 1\<rparr>\<rparr> in
      map_option (\<lambda>positions.
        if list_all (\<lambda>pos. bf_bit_vector bf1 ! pos) positions
        then (True, bf1\<lparr>bf_stats := bf_stats bf1\<lparr>bs_false_positive_estimated :=
                            bs_false_positive_estimated (bf_stats bf1) + 1\<rparr>\<rparr>)
        else (False, bf1))
      (compute_hash_positions h1 h2 bf1 timer_id fire_at_ms))"

definition reset_for_rebuild :: "TimerBloomFilter \<Rightarrow> TimerBloomFilter" where
  "reset_for_rebuild bf =
     bf\<lparr>bf_bit_vector := map (\<lambda>_. False) (bf_bit_vector bf), bf_inserts_since_rebuild := 0\<rparr>"

definition bloom_insert ::
  "(bytes \<Rightarrow> u64) \<Rightarrow> (bytes \<Rightarrow> u64) \<Rightarrow> TimerBloomFilter \<Rightarrow> TimerId \<Rightarrow> u64 \<Rightarrow> TimerBloomFilter option" where
  "bloom_insert h1 h2 bf timer_id fire_at_ms =
     (let bf1 = bf\<lparr>bf_stats := bf_stats bf\<lparr>bs_insert_count := bs_insert_count (bf_stats bf) + 1\<rparr>,
                   bf_inserts_since_rebuild := bf_inserts_since_rebuild bf + 1\<rparr> in
      map_option (\<lambda>positions.
        let bf2 = bf1\<lparr>bf_bit_vector := fold (\<lambda>pos bits. bits[pos := True]) positions (bf_bit_vector bf1)\<rparr>
        in if REBUILD_THRESHOLD \<le> bf_inserts_since_rebuild bf2 then reset_for_rebuild bf2 else bf2)
      (compute_hash_positions h1 h2 bf1 timer_id fire_at_ms))"

definition bloom_rebuild :: "TimerBloomFilter \<Rightarrow> TimerBloomFilter" where
  "bloom_rebuild bf = reset_for_rebuild bf"

definition clear_stats :: "TimerBloomFilter \<Rightarrow> TimerBloomFilter" where
  "clear_stats bf = bf\<lparr>bf_stats := BloomStats_new, bf_inserts_since_rebuild := 0\<rparr>"

section \<open>What is assumed of a store\<close>

text \<open>\<open>ps\<close> lists, in key order, the entries of \<open>m\<close> that satisfy \<open>P\<close>.\<close>

definition lists_entries :: "(bytes \<rightharpoonup> bytes) \<Rightarrow> (bytes \<times> bytes \<Rightarrow> bool) \<Rightarrow> (bytes \<times> bytes) list \<Rightarrow> bool" where
  "lists_entries m P ps \<longleftrightarrow>
     sorted_wrt (\<lambda>p q. bytes_less (fst p) (fst q)) ps \<and> set ps = {(k, v). m k = Some v \<and> P (k, v)}"

definition within :: "bytes option \<Rightarrow> bytes option \<Rightarrow> bytes \<times> bytes \<Rightarrow> bool" where
  "within lo hi = (\<lambda>(k, _).
     (case lo of None \<Rightarrow> True | Some l \<Rightarrow> \<not> bytes_less k l) \<and>
     (case hi of None \<Rightarrow> True | Some h \<Rightarrow> \<not> bytes_less h k))"

text \<open>
  The documented contract of a fjall keyspace: an ordered map from byte strings
  to byte strings whose operations may fail.  A failed operation leaves it as it was.
\<close>

definition keyspace_law :: "'k keyspace \<Rightarrow> ('k \<Rightarrow> bytes \<rightharpoonup> bytes) \<Rightarrow> bool" where
  "keyspace_law ks c \<longleftrightarrow>
     (\<forall>st k v st'. ks_insert ks st k v = Some st' \<longrightarrow> c st' = (c st)(k \<mapsto> v)) \<and>
     (\<forall>st k st'. ks_remove ks st k = Some st' \<longrightarrow> c st' = (c st)(k := None)) \<and>
     (\<forall>st k r. ks_get ks st k = Some r \<longrightarrow> r = c st k) \<and>
     (\<forall>st lo hi ps. ks_range ks st lo hi = map Some ps \<longrightarrow> lists_entries (c st) (within lo hi) ps)"

definition reliable :: "'k keyspace \<Rightarrow> bool" where
  "reliable ks \<longleftrightarrow>
     (\<forall>st k v. ks_insert ks st k v \<noteq> None) \<and> (\<forall>st k. ks_remove ks st k \<noteq> None) \<and>
     (\<forall>st lo hi. None \<notin> set (ks_range ks st lo hi))"

text \<open>The entries of an instance, and those of them that are due.\<close>

definition of_instance :: "id_crates \<Rightarrow> InstanceId \<Rightarrow> bytes \<times> bytes \<Rightarrow> bool" where
  "of_instance api instance_id = (\<lambda>(k, v).
     length k = 40 \<and> length v = 8 \<and> key_instance_id api k = instance_id)"

definition is_due :: "id_crates \<Rightarrow> InstanceId \<Rightarrow> u64 \<Rightarrow> bytes \<times> bytes \<Rightarrow> bool" where
  "is_due api instance_id now_ms p \<longleftrightarrow>
     of_instance api instance_id p \<and> key_fire_at_ms (fst p) \<le> now_ms"

section \<open>Lemmas\<close>

lemma collect_items_Inr:
  "collect_items items acc = Inr ps \<longleftrightarrow> (\<exists>qs. items = map Some qs \<and> ps = acc @ qs)"
proof (induction items acc rule: collect_items.induct)
  case (3 kv items results)
  then show ?case by (auto simp: Cons_eq_map_conv)
qed auto

lemma collect_items_Inl: "collect_items items acc = Inl e \<Longrightarrow> e = FjallError \<and> None \<in> set items"
  by (induction items acc rule: collect_items.induct) auto

lemma fjall_scan_bounded [simp]:
  "lo \<noteq> [] \<Longrightarrow> hi \<noteq> [] \<Longrightarrow>
   fjall_scan ks st lo hi = collect_items (ks_range ks st (Some lo) (Some hi)) []"
  by (simp add: fjall_scan_def)

lemma lists_entries_filter:
  assumes "lists_entries m P ps" and "\<And>k v. m k = Some v \<Longrightarrow> Q (k, v) \<Longrightarrow> P (k, v)"
  shows "lists_entries m Q (filter Q ps)"
  using assms by (auto simp: lists_entries_def sorted_wrt_filter)

lemma lists_entries_lookup: "lists_entries m P ps \<Longrightarrow> (k, v) \<in> set ps \<Longrightarrow> m k = Some v"
  by (simp add: lists_entries_def)

lemma bytes_less_prefix:
  assumes "length k = 40"
  shows "bytes_less (u64_to_be_bytes w @ xs) k \<longleftrightarrow>
     w < key_fire_at_ms k \<or> w = key_fire_at_ms k \<and> bytes_less xs (drop 8 k)"
proof -
  have k: "k = u64_to_be_bytes (key_fire_at_ms k) @ drop 8 k"
    using assms by (simp add: key_fire_at_ms_def u64_be_inverse)
  have "bytes_less (u64_to_be_bytes w @ xs) (u64_to_be_bytes (key_fire_at_ms k) @ drop 8 k) \<longleftrightarrow>
     w < key_fire_at_ms k \<or> w = key_fire_at_ms k \<and> bytes_less xs (drop 8 k)"
    by (simp add: bytes_less_append u64_to_be_bytes_mono)
  then show ?thesis using k by simp
qed

lemma not_less_zeros: "length xs = n \<Longrightarrow> \<not> bytes_less xs (replicate n 0)"
  by (induction xs arbitrary: n) auto

lemma due_within:
  assumes "now_ms \<noteq> - 1" and "is_due api iid now_ms (k, v)"
  shows "within (Some (replicate 40 0)) (Some (scan_end now_ms)) (k, v)"
proof -
  have len: "length k = 40" and le: "key_fire_at_ms k \<le> now_ms"
    using assms by (auto simp: is_due_def of_instance_def)
  have "unat now_ms \<noteq> unat (- 1 :: u64)" using assms(1) by (metis unsigned_word_eqI)
  then have "now_ms < saturating_add now_ms 1"
    using unat_less_2p [of now_ms] by (simp add: word_less_nat_alt unat_saturating_add)
  then have "\<not> bytes_less (scan_end now_ms) k"
    using le len by (auto simp: scan_end_def bytes_less_prefix)
  then show ?thesis using len by (simp add: within_def not_less_zeros)
qed

lemma is_due_iff:
  "is_due api iid now_ms (k, v) \<longleftrightarrow>
     \<not> (length k \<noteq> 40 \<or> key_instance_id api k \<noteq> iid \<or> now_ms < key_fire_at_ms k \<or> length v \<noteq> 8)"
  by (auto simp: is_due_def of_instance_def)

text \<open>The map without the keys of some entries.\<close>

definition without :: "(bytes \<rightharpoonup> bytes) \<Rightarrow> (bytes \<times> bytes) list \<Rightarrow> bytes \<rightharpoonup> bytes" where
  "without m ps = m |` (- fst ` set ps)"

lemma without_Nil [simp]: "without m [] = m"
  by (rule ext) (simp add: without_def restrict_map_def)

lemma without_Cons [simp]: "without m ((k, v) # ps) = without (m(k := None)) ps"
  by (rule ext) (simp add: without_def restrict_map_def)

lemma fjall_delete_cases:
  assumes "keyspace_law ks c"
  obtains st' where "fjall_delete ks st k = (Inr (), st')" and "c st' = (c st)(k := None)"
    and "ks_remove ks st k = Some st'"
  | "fjall_delete ks st k = (Inl FjallError, st)" and "ks_remove ks st k = None"
  using assms by (cases "ks_remove ks st k") (auto simp: fjall_delete_def keyspace_law_def)

lemma poll_loop_exact:
  assumes "keyspace_law ks c"
    and "poll_loop api (FjallTimerIndex ks) iid now_ms mx ps st claimed deleted = (r, st')"
  shows "r = Inr (claimed @ map (\<lambda>(k, v). decode_entry api k v)
                      (take (mx - deleted) (filter (is_due api iid now_ms) ps)))
       \<and> c st' = without (c st) (take (mx - deleted) (filter (is_due api iid now_ms) ps))
     \<or> r = Inl FjallError \<and> \<not> reliable ks
       \<and> (\<exists>n < min (mx - deleted) (length (filter (is_due api iid now_ms) ps)).
            c st' = without (c st) (take n (filter (is_due api iid now_ms) ps)))"
  using assms(2)
proof (induction ps arbitrary: st claimed deleted)
  case Nil
  then show ?case by simp
next
  case (Cons p ps)
  obtain k v where p: "p = (k, v)" by fastforce
  let ?due = "filter (is_due api iid now_ms) ps"
  consider "mx \<le> deleted" | "deleted < mx" "\<not> is_due api iid now_ms (k, v)"
    | "deleted < mx" "is_due api iid now_ms (k, v)"
    by linarith
  then show ?case
  proof cases
    case 1
    then show ?thesis using Cons.prems by (simp add: p)
  next
    case 2
    then have "poll_loop api (FjallTimerIndex ks) iid now_ms mx ps st claimed deleted = (r, st')"
      using Cons.prems by (auto simp: p is_due_iff)
    from Cons.IH [OF this] show ?thesis using 2 by (simp add: p)
  next
    case 3
    then have step: "mx - deleted = Suc (mx - (deleted + 1))" by simp
    from assms(1) show ?thesis
    proof (cases rule: fjall_delete_cases [where st = st and k = k])
      case (1 st1)
      then have "poll_loop api (FjallTimerIndex ks) iid now_ms mx ps st1
                   (claimed @ [decode_entry api k v]) (deleted + 1) = (r, st')"
        using Cons.prems 3 by (auto simp: p is_due_iff FjallTimerIndex_def)
      from Cons.IH [OF this] show ?thesis
      proof (elim disjE conjE exE)
        fix n
        assume "r = Inl FjallError" "\<not> reliable ks" "n < min (mx - (deleted + 1)) (length ?due)"
          and "c st' = without (c st1) (take n ?due)"
        then show ?thesis using 1 3 step
          by (intro disjI2) (auto simp: p intro!: exI [of _ "Suc n"])
      qed (use 1 3 step in \<open>simp add: p fun_upd_def\<close>)
    next
      case 2
      then have "r = Inl FjallError" "st' = st" "\<not> reliable ks"
        using Cons.prems 3 by (auto simp: p is_due_iff FjallTimerIndex_def reliable_def)
      then show ?thesis using 3 by (auto simp: p intro!: exI [of _ 0])
    qed
  qed
qed

lemma poll_scan:
  assumes "keyspace_law ks c"
  shows "sg_scan (FjallTimerIndex ks) st (replicate 40 0) (scan_end now_ms) = Inr ps \<Longrightarrow>
         now_ms \<noteq> - 1 \<Longrightarrow> lists_entries (c st) (is_due api iid now_ms) (filter (is_due api iid now_ms) ps)"
    and "sg_scan (FjallTimerIndex ks) st (replicate 40 0) (scan_end now_ms) = Inl e \<Longrightarrow>
         e = FjallError \<and> \<not> reliable ks"
proof -
  have end_ne: "scan_end now_ms \<noteq> []" by (simp add: scan_end_def)
  let ?items = "ks_range ks st (Some (replicate 40 0)) (Some (scan_end now_ms))"
  have scan: "sg_scan (FjallTimerIndex ks) st (replicate 40 0) (scan_end now_ms) = collect_items ?items []"
    using end_ne by (simp add: FjallTimerIndex_def)
  show "lists_entries (c st) (is_due api iid now_ms) (filter (is_due api iid now_ms) ps)"
    if "sg_scan (FjallTimerIndex ks) st (replicate 40 0) (scan_end now_ms) = Inr ps" "now_ms \<noteq> - 1"
  proof (rule lists_entries_filter)
    show "lists_entries (c st) (within (Some (replicate 40 0)) (Some (scan_end now_ms))) ps"
      using assms that(1) by (simp add: scan collect_items_Inr keyspace_law_def)
  qed (rule due_within [OF that(2)])
  show "e = FjallError \<and> \<not> reliable ks"
    if "sg_scan (FjallTimerIndex ks) st (replicate 40 0) (scan_end now_ms) = Inl e"
    using collect_items_Inl [OF that [unfolded scan]] by (auto simp: reliable_def)
qed

text \<open>
  (C9) \<open>poll_expired_timers\<close> on a fjall keyspace, at any time before \<open>u64::MAX\<close>.
  When it succeeds it returns the first \<open>max_timers\<close> due timers of the instance in
  order of their keys, so by due time, and has removed exactly those.  It can fail
  only when the keyspace does, and has then removed the first \<open>n\<close> due timers,
  fewer than it was asked for, without returning them to anyone.
\<close>

theorem poll_expired_exact:
  assumes "keyspace_law ks c" and "now_ms \<noteq> - 1"
    and "poll_expired_timers api (FjallTimerIndex ks) st iid now_ms mx = (r, st')"
  shows "(\<exists>due. lists_entries (c st) (is_due api iid now_ms) due
            \<and> r = Inr (map (\<lambda>(k, v). decode_entry api k v) (take mx due))
            \<and> c st' = without (c st) (take mx due))
       \<or> r = Inl FjallError \<and> \<not> reliable ks
         \<and> (c st' = c st \<or> (\<exists>due n. lists_entries (c st) (is_due api iid now_ms) due
              \<and> n < mx \<and> n < length due \<and> c st' = without (c st) (take n due)))"
proof (cases "sg_scan (FjallTimerIndex ks) st (replicate 40 0) (scan_end now_ms)")
  case (Inl e)
  then show ?thesis using assms(3) poll_scan(2) [OF assms(1) Inl] by (simp add: poll_expired_timers_def)
next
  case (Inr ps)
  then have "poll_loop api (FjallTimerIndex ks) iid now_ms mx ps st [] 0 = (r, st')"
    using assms(3) by (simp add: poll_expired_timers_def)
  note loop = poll_loop_exact [OF assms(1) this]
  let ?due = "filter (is_due api iid now_ms) ps"
  have due: "lists_entries (c st) (is_due api iid now_ms) ?due"
    by (rule poll_scan(1) [OF assms(1) Inr assms(2)])
  from loop show ?thesis
  proof (elim disjE conjE exE)
    fix n
    assume "n < min (mx - 0) (length ?due)" "c st' = without (c st) (take n ?due)"
    with due have "\<exists>due n. lists_entries (c st) (is_due api iid now_ms) due
        \<and> n < mx \<and> n < length due \<and> c st' = without (c st) (take n due)"
      by (intro exI [of _ ?due] exI [of _ n]) simp
    moreover assume "r = Inl FjallError" "\<not> reliable ks"
    ultimately show ?thesis by blast
  qed (use due in \<open>intro disjI1 exI [of _ ?due], simp\<close>)
qed

text \<open>UUIDs are 16 bytes long, which the type \<open>[u8; 16]\<close> says in the source.\<close>

definition uuid_law :: "id_crates \<Rightarrow> bool" where
  "uuid_law api \<longleftrightarrow>
     (\<forall>s u. uuid_parse_str api s = Some u \<longrightarrow> length u = 16) \<and> (\<forall>bs. length (uuid_new_v5_dns api bs) = 16)"

lemma length_TimerId_bytes: "uuid_law api \<Longrightarrow> TimerId_to_bytes api tid = Inr tb \<Longrightarrow> length tb = 16"
  by (auto simp: uuid_law_def TimerId_to_bytes_def split: option.splits sum.splits)

lemma length_InstanceId_bytes: "InstanceId_to_bytes api iid = Inr ib \<Longrightarrow> length ib = 16"
  by (auto simp: InstanceId_to_bytes_def split: sum.splits)

lemma canonical_bytes:
  assumes "ulid_law api" and "canonical_id api iid"
  obtains ib where "InstanceId_to_bytes api iid = Inr ib" and "InstanceId_from_bytes api ib = iid"
  using assms
  by (auto simp: ulid_law_def canonical_id_def InstanceId_to_bytes_def InstanceId_from_bytes_def)

lemma key_fields:
  assumes "length ib = 16" and "length tb = 16"
  shows "length (u64_to_be_bytes f @ ib @ tb) = 40" "key_fire_at_ms (u64_to_be_bytes f @ ib @ tb) = f"
    "key_instance_id api (u64_to_be_bytes f @ ib @ tb) = InstanceId_from_bytes api ib"
    "key_timer_id api (u64_to_be_bytes f @ ib @ tb) = TimerId_from_bytes api tb"
  using assms by (simp_all add: key_fire_at_ms_def key_instance_id_def key_timer_id_def)

lemma saturating_sub_add:
  "saturating_sub (saturating_add t d) d = (if t \<le> t + d then t else - 1 - d)" for t d :: u64
proof (cases "t \<le> t + d")
  case True
  then have "d \<le> d + t" by (metis no_wrap_iff add.commute)
  then have "d \<le> t + d" by (simp only: add.commute)
  then show ?thesis using True by (simp add: saturating_sub_def saturating_add_def)
next
  case False
  then show ?thesis by (simp add: saturating_sub_def saturating_add_def)
qed

lemma scan_due_filter:
  "List.map_filter (due_record api iid now_ms) ps =
     map (\<lambda>(k, v). decode_entry api k v) (filter (is_due api iid now_ms) ps)"
  by (induction ps) (auto simp: List.map_filter_simps due_record_def is_due_iff)

lemma scan_due_exact:
  assumes "keyspace_law ks c" and "reliable ks" and "now_ms \<noteq> - 1"
  obtains due where "lists_entries (c st) (is_due api iid now_ms) due"
    and "scan_due_timers api (FjallTimerIndex ks) st iid now_ms = Inr (map (\<lambda>(k, v). decode_entry api k v) due)"
proof (cases "sg_scan (FjallTimerIndex ks) st (replicate 40 0) (scan_end now_ms)")
  case (Inl e)
  then show ?thesis using poll_scan(2) [OF assms(1) Inl] assms(2) by simp
next
  case (Inr ps)
  show ?thesis
    by (rule that [OF poll_scan(1) [OF assms(1) Inr assms(3)]])
      (simp add: scan_due_timers_def Inr scan_due_filter)
qed

text \<open>
  The documented round trip of the UUID crate: the text of 16 bytes parses back to them.
\<close>

definition uuid_text_law :: "id_crates \<Rightarrow> bool" where
  "uuid_text_law api \<longleftrightarrow> (\<forall>bs. length bs = 16 \<longrightarrow> uuid_parse_str api (uuid_to_string api bs) = Some bs)"

text \<open>
  The identifier read back from a key stands for the same bytes, and is the identifier
  itself exactly if that was the canonical text of a UUID.
\<close>

lemma TimerId_read_back:
  assumes "uuid_text_law api" and "length tb = 16" and "TimerId_to_bytes api tid = Inr tb"
  shows "TimerId_to_bytes api (TimerId_from_bytes api tb) = TimerId_to_bytes api tid"
    and "TimerId_from_bytes api tb = tid \<longleftrightarrow> (\<exists>bs. length bs = 16 \<and> tid = uuid_to_string api bs)"
  using assms by (auto simp: uuid_text_law_def TimerId_to_bytes_def TimerId_from_bytes_def)

text \<open>
  (C18) A timer that was set is found when it is due.  After a successful
  \<open>timer_set\<close> on a fjall keyspace that does not fail, \<open>scan_due_timers\<close> at any time
  before \<open>u64::MAX\<close> reports the timer if and only if its due time has come: with the
  instance, due time and duration it was set with, and with the trigger time unless the
  sum of trigger time and duration was cut off at \<open>u64::MAX\<close>.  The identifier it reports
  has the 16 bytes of the one that was set, so it names the same entry; it is the same
  text exactly if the timer was set under the canonical text of a UUID, and the text of
  that UUID otherwise (for a ULID or any other identifier).
\<close>

theorem timer_set_found_when_due:
  assumes "keyspace_law ks c" and "reliable ks" and "ulid_law api" and "uuid_law api" and "uuid_text_law api"
    and "canonical_id api iid"
    and "timer_set api (FjallTimerIndex ks) st iid tid fire trigger duration now0 = (Inr (), st')"
    and "now_ms \<noteq> - 1"
  shows "\<exists>tb ib rs r. TimerId_to_bytes api tid = Inr tb \<and> InstanceId_to_bytes api iid = Inr ib
     \<and> now0 < fire
     \<and> c st' = (c st)(u64_to_be_bytes fire @ ib @ tb \<mapsto> u64_to_be_bytes duration)
     \<and> scan_due_timers api (FjallTimerIndex ks) st' iid now_ms = Inr rs
     \<and> (if fire \<le> now_ms then r \<in> set rs else (\<forall>r\<in>set rs. tm_fire_at_ms r < fire))
     \<and> tm_instance_id r = iid \<and> tm_fire_at_ms r = fire \<and> tm_duration_ms r = duration
     \<and> tm_trigger_time_ms r = (if trigger \<le> trigger + duration then trigger else - 1 - duration)
     \<and> TimerId_to_bytes api (tm_timer_id r) = TimerId_to_bytes api tid
     \<and> (tm_timer_id r = tid \<longleftrightarrow> (\<exists>bs. length bs = 16 \<and> tid = uuid_to_string api bs))"
proof -
  obtain ib where ib: "InstanceId_to_bytes api iid = Inr ib" and from_ib: "InstanceId_from_bytes api ib = iid"
    by (rule canonical_bytes [OF assms(3,6)])
  obtain tb where tb: "TimerId_to_bytes api tid = Inr tb"
    by (cases "TimerId_to_bytes api tid") (auto simp: TimerId_to_bytes_def split: option.splits sum.splits)
  note len = length_InstanceId_bytes [OF ib] length_TimerId_bytes [OF assms(4) tb]
  let ?k = "u64_to_be_bytes fire @ ib @ tb" and ?v = "u64_to_be_bytes duration"
  let ?r = "decode_entry api ?k ?v"
  have guards: "now0 < fire" "duration \<noteq> 0" "fire = saturating_add trigger duration"
    and put: "fjall_put ks st ?k ?v = (Inr (), st')"
    using assms(7) by (auto simp: timer_set_def TimerKey_new_def ib tb FjallTimerIndex_def split: if_splits)
  have c: "c st' = (c st)(?k \<mapsto> ?v)"
    using put assms(1) by (auto simp: fjall_put_def keyspace_law_def split: option.splits)
  obtain due where due: "lists_entries (c st') (is_due api iid now_ms) due"
    and scan: "scan_due_timers api (FjallTimerIndex ks) st' iid now_ms =
                 Inr (map (\<lambda>(k, v). decode_entry api k v) due)"
    by (rule scan_due_exact [OF assms(1,2,8)])
  have dec: "?r =
      \<lparr>tm_timer_id = TimerId_from_bytes api tb, tm_instance_id = iid, tm_fire_at_ms = fire,
       tm_trigger_time_ms = (if trigger \<le> trigger + duration then trigger else - 1 - duration),
       tm_duration_ms = duration\<rparr>"
    using saturating_sub_add [of trigger duration]
    by (simp add: decode_entry_def key_fields [OF len] from_ib guards(3) Let_def)
  have "fire \<le> now_ms \<Longrightarrow> (?k, ?v) \<in> set due"
    using due c by (auto simp: lists_entries_def is_due_def of_instance_def key_fields [OF len] len from_ib)
  then have "fire \<le> now_ms \<Longrightarrow> ?r \<in> set (map (\<lambda>(k, v). decode_entry api k v) due)"
    by force
  moreover have "tm_fire_at_ms r \<le> now_ms" if "r \<in> set (map (\<lambda>(k, v). decode_entry api k v) due)" for r
    using that due by (auto simp: lists_entries_def is_due_def decode_entry_def Let_def)
  ultimately have "if fire \<le> now_ms then ?r \<in> set (map (\<lambda>(k, v). decode_entry api k v) due)
      else (\<forall>r\<in>set (map (\<lambda>(k, v). decode_entry api k v) due). tm_fire_at_ms r < fire)"
    by force
  then show ?thesis using ib tb guards(1) c scan dec TimerId_read_back [OF assms(5) len(2) tb]
    by (intro exI [of _ tb] exI [of _ ib] exI [of _ "map (\<lambda>(k, v). decode_entry api k v) due"] exI [of _ ?r]) simp
qed

lemma scan_all_filter:
  "List.map_filter (instance_record api iid) ps =
     map (\<lambda>(k, v). decode_entry api k v) (filter (of_instance api iid) ps)"
proof (induction ps)
  case (Cons p ps)
  obtain k v where p: "p = (k, v)" by fastforce
  have "instance_record api iid p = (if of_instance api iid p then Some (decode_entry api k v) else None)"
    by (simp add: p instance_record_def of_instance_def)
  then show ?case using Cons by (simp add: List.map_filter_simps p)
qed (simp add: List.map_filter_simps)

lemma not_max_less: "length xs = n \<Longrightarrow> \<not> bytes_less (replicate n 255) xs"
proof (induction xs arbitrary: n)
  case (Cons x xs)
  have "unat x \<le> 255" using unat_byte_lt [of x] by linarith
  then have "\<not> 255 < x" by (simp add: word_less_nat_alt)
  then show ?case using Cons by auto
qed simp

lemma instance_within:
  assumes "ulid_law api" and "InstanceId_to_bytes api iid = Inr ib" and "InstanceId_from_bytes api ib = iid"
    and "of_instance api iid (k, v)"
  shows "within (Some (replicate 8 0 @ ib @ replicate 16 0))
           (Some (u64_to_be_bytes (- 1) @ ib @ replicate 16 255)) (k, v)"
proof -
  have k: "length k = 40" "InstanceId_from_bytes api (take 16 (drop 8 k)) = iid"
    using assms(4) by (auto simp: of_instance_def key_instance_id_def)
  have "u128_from_be_bytes (take 16 (drop 8 k)) = u128_from_be_bytes ib"
    using assms(1,3) k(2) unfolding InstanceId_from_bytes_def ulid_law_def by (metis sum.inject(2))
  then have "u128_to_be_bytes (u128_from_be_bytes (take 16 (drop 8 k))) = u128_to_be_bytes (u128_from_be_bytes ib)"
    by simp
  then have ib: "take 16 (drop 8 k) = ib"
    using k(1) length_InstanceId_bytes [OF assms(2)] by (simp add: u128_be_inverse)
  define f t where "f = take 8 k" and "t = drop 24 k"
  have "drop 8 k = take 16 (drop 8 k) @ drop 16 (drop 8 k)" by (simp only: append_take_drop_id)
  then have "drop 8 k = ib @ t" by (simp add: ib t_def)
  then have split: "k = f @ ib @ t" using append_take_drop_id [of 8 k] by (simp add: f_def)
  have len: "length f = 8" "length t = 16" using k(1) by (simp_all add: f_def t_def)
  have "\<not> bytes_less k (replicate 8 0 @ ib @ replicate 16 0)"
    using len by (simp add: split bytes_less_append not_less_zeros)
  moreover have "\<not> bytes_less (u64_to_be_bytes (- 1)) f"
    using u64_to_be_bytes_mono [of "- 1" "u64_from_be_bytes f"] len(1) by (simp add: u64_be_inverse)
  then have "\<not> bytes_less (u64_to_be_bytes (- 1) @ ib @ replicate 16 255) k"
    using len by (simp add: split bytes_less_append not_max_less)
  ultimately show ?thesis by (simp add: within_def)
qed

text \<open>The timers of an instance, all of them and in key order.\<close>

lemma scan_all_exact:
  assumes "keyspace_law ks c" and "reliable ks" and "ulid_law api" and "canonical_id api iid"
  obtains ps where "lists_entries (c st) (of_instance api iid) ps"
    and "scan_all_timers_for_instance api (FjallTimerIndex ks) st iid =
           Inr (map (\<lambda>(k, v). decode_entry api k v) ps)"
proof -
  obtain ib where ib: "InstanceId_to_bytes api iid = Inr ib" "InstanceId_from_bytes api ib = iid"
    by (rule canonical_bytes [OF assms(3,4)])
  let ?lo = "replicate 8 0 @ ib @ replicate 16 0" and ?hi = "u64_to_be_bytes (- 1) @ ib @ replicate 16 255"
  obtain ps where ps: "collect_items (ks_range ks st (Some ?lo) (Some ?hi)) [] = Inr ps"
    using assms(2) by (cases "collect_items (ks_range ks st (Some ?lo) (Some ?hi)) []")
      (auto simp: reliable_def dest: collect_items_Inl)
  then have "lists_entries (c st) (within (Some ?lo) (Some ?hi)) ps"
    using assms(1) by (simp add: collect_items_Inr keyspace_law_def)
  then have "lists_entries (c st) (of_instance api iid) (filter (of_instance api iid) ps)"
    by (rule lists_entries_filter) (rule instance_within [OF assms(3) ib])
  moreover have "scan_all_timers_for_instance api (FjallTimerIndex ks) st iid =
      Inr (map (\<lambda>(k, v). decode_entry api k v) (filter (of_instance api iid) ps))"
    using ps ib(1) by (simp add: scan_all_timers_for_instance_def FjallTimerIndex_def scan_all_filter)
  ultimately show ?thesis by (rule that)
qed

section \<open>The Bloom filter forgets\<close>

lemma length_fold_bits [simp]: "length (fold (\<lambda>pos bits. bits[pos := True]) ps bits) = length bits"
  by (induction ps arbitrary: bits) simp_all

lemma nth_fold_bits:
  "i < length bits \<Longrightarrow> fold (\<lambda>pos bits. bits[pos := True]) ps bits ! i \<longleftrightarrow> i \<in> set ps \<or> bits ! i"
proof (induction ps arbitrary: bits)
  case (Cons p ps)
  then show ?case by (cases "p = i") auto
qed simp

lemma hash_positions_Some:
  assumes "bf_bit_vector bf \<noteq> []"
  obtains ps where "compute_hash_positions h1 h2 bf tid fire = Some ps"
    and "\<forall>p\<in>set ps. p < length (bf_bit_vector bf)" and "length ps = bf_num_hash_functions bf"
  using assms by (simp add: compute_hash_positions_def Let_def)

lemma hash_positions_cong:
  "length (bf_bit_vector bf') = length (bf_bit_vector bf) \<Longrightarrow>
   bf_num_hash_functions bf' = bf_num_hash_functions bf \<Longrightarrow>
   compute_hash_positions h1 h2 bf' tid fire = compute_hash_positions h1 h2 bf tid fire"
  by (simp add: compute_hash_positions_def)

lemma hash_positions_update [simp]:
  "compute_hash_positions h1 h2 (bf\<lparr>bf_stats := s\<rparr>) = compute_hash_positions h1 h2 bf"
  "compute_hash_positions h1 h2 (bf\<lparr>bf_inserts_since_rebuild := n\<rparr>) = compute_hash_positions h1 h2 bf"
  by (simp_all add: compute_hash_positions_def fun_eq_iff)

text \<open>What a check answers.\<close>

definition reports :: "(bytes \<Rightarrow> u64) \<Rightarrow> (bytes \<Rightarrow> u64) \<Rightarrow> TimerBloomFilter \<Rightarrow> TimerId \<times> u64 \<Rightarrow> bool" where
  "reports h1 h2 bf x = (map_option fst (might_be_expired h1 h2 bf (fst x) (snd x)) = Some True)"

lemma reports_iff:
  assumes "compute_hash_positions h1 h2 bf (fst x) (snd x) = Some ps"
  shows "reports h1 h2 bf x \<longleftrightarrow> (\<forall>p\<in>set ps. bf_bit_vector bf ! p)"
  using assms by (simp add: reports_def might_be_expired_def list_all_iff Let_def)

text \<open>
  What the Bloom filter remembers across an insertion, for a filter with at
  least one bit and one hash function.  Below the rebuild threshold an insertion
  makes its own timer reported and keeps every timer reported that was.  The
  insertion that reaches the threshold of 10,000 clears every bit: no timer at all
  is reported afterwards, the one just inserted included, so from then on a
  negative answer does not mean that the timer is absent.
\<close>

theorem bloom_insert_reports:
  assumes "bf_bit_vector bf \<noteq> []" and "0 < bf_num_hash_functions bf"
  shows "\<exists>bf'. bloom_insert h1 h2 bf tid fire = Some bf'
     \<and> length (bf_bit_vector bf') = length (bf_bit_vector bf)
     \<and> (if bf_inserts_since_rebuild bf + 1 < REBUILD_THRESHOLD
        then reports h1 h2 bf' (tid, fire) \<and> {x. reports h1 h2 bf x} \<subseteq> {x. reports h1 h2 bf' x}
             \<and> bf_inserts_since_rebuild bf' = bf_inserts_since_rebuild bf + 1
        else {x. reports h1 h2 bf' x} = {} \<and> bf_inserts_since_rebuild bf' = 0)"
proof -
  obtain ps where ps: "compute_hash_positions h1 h2 bf tid fire = Some ps"
    and bound: "\<forall>p\<in>set ps. p < length (bf_bit_vector bf)"
    by (rule hash_positions_Some [OF assms(1)])
  let ?bits = "fold (\<lambda>pos bits. bits[pos := True]) ps (bf_bit_vector bf)"
  obtain bf' where ins: "bloom_insert h1 h2 bf tid fire = Some bf'"
    and k: "bf_num_hash_functions bf' = bf_num_hash_functions bf"
    and bits: "bf_bit_vector bf' = (if bf_inserts_since_rebuild bf + 1 < REBUILD_THRESHOLD then ?bits
                 else map (\<lambda>_. False) ?bits)"
    and count: "bf_inserts_since_rebuild bf' =
                 (if bf_inserts_since_rebuild bf + 1 < REBUILD_THRESHOLD
                  then bf_inserts_since_rebuild bf + 1 else 0)"
    using ps by (simp add: bloom_insert_def Let_def reset_for_rebuild_def)
  have len: "length (bf_bit_vector bf') = length (bf_bit_vector bf)"
    by (simp add: bits)
  note same = hash_positions_cong [OF len k, of h1 h2]
  have reports': "reports h1 h2 bf' x \<longleftrightarrow>
      bf_inserts_since_rebuild bf + 1 < REBUILD_THRESHOLD \<and> (\<forall>p\<in>set qs. p \<in> set ps \<or> bf_bit_vector bf ! p)"
    if qs: "compute_hash_positions h1 h2 bf (fst x) (snd x) = Some qs"
      and b: "\<forall>p\<in>set qs. p < length (bf_bit_vector bf)" and ne: "qs \<noteq> []" for x qs
  proof -
    have "reports h1 h2 bf' x \<longleftrightarrow> (\<forall>p\<in>set qs. bf_bit_vector bf' ! p)"
      by (rule reports_iff) (simp add: same qs)
    then show ?thesis using b ne by (cases qs) (auto simp: bits nth_fold_bits)
  qed
  have every: "\<exists>qs. compute_hash_positions h1 h2 bf (fst x) (snd x) = Some qs
      \<and> (\<forall>p\<in>set qs. p < length (bf_bit_vector bf)) \<and> qs \<noteq> []" for x
    by (rule hash_positions_Some [OF assms(1), of h1 h2 "fst x" "snd x"]) (use assms(2) in auto)
  have own: "reports h1 h2 bf' (tid, fire) \<longleftrightarrow> bf_inserts_since_rebuild bf + 1 < REBUILD_THRESHOLD"
    using every [of "(tid, fire)"] reports' [of "(tid, fire)" ps] ps by auto
  have old: "reports h1 h2 bf x \<Longrightarrow> bf_inserts_since_rebuild bf + 1 < REBUILD_THRESHOLD \<Longrightarrow>
      reports h1 h2 bf' x" and none: "\<not> bf_inserts_since_rebuild bf + 1 < REBUILD_THRESHOLD \<Longrightarrow>
      \<not> reports h1 h2 bf' x" for x
    using every [of x] reports' [of x] reports_iff [of h1 h2 bf x] by auto
  show ?thesis
    using ins len own old none count by (intro exI [of _ bf']) auto
qed

section \<open>A concrete keyspace\<close>

text \<open>A keyspace that meets the contract and never fails: a red-black tree over byte strings.\<close>

definition demo_keyspace :: "(bytes, bytes) RBT.rbt keyspace" where
  "demo_keyspace =
     \<lparr>ks_insert = (\<lambda>t k v. Some (RBT.insert k v t)), ks_get = (\<lambda>t k. Some (RBT.lookup t k)),
      ks_remove = (\<lambda>t k. Some (RBT.delete k t)),
      ks_range = (\<lambda>t lo hi. map Some (filter (within lo hi) (RBT.entries t)))\<rparr>"

lemma bytes_less_iff: "bytes_less xs ys \<longleftrightarrow> xs < ys"
  by (induction xs ys rule: bytes_less.induct) (auto simp: neq_Nil_conv)

lemma entries_sorted: "sorted_wrt (\<lambda>p q. bytes_less (fst p) (fst q)) (RBT.entries t)"
proof -
  have "sorted_wrt (<) (map fst (RBT.entries t))"
    by (simp add: strict_sorted_iff RBT.sorted_entries RBT.distinct_entries)
  then show ?thesis by (simp add: sorted_wrt_map bytes_less_iff)
qed

lemma entries_set: "(k, v) \<in> set (RBT.entries t) \<longleftrightarrow> RBT.lookup t k = Some v"
  by (metis RBT.distinct_entries RBT.map_of_entries map_of_eq_Some_iff)

lemma demo_keyspace_law: "keyspace_law demo_keyspace RBT.lookup"
proof -
  have inj: "map Some xs = map Some ys \<longleftrightarrow> xs = ys" for xs ys :: "(bytes \<times> bytes) list"
    by (simp add: inj_map_eq_map)
  show ?thesis
    by (auto simp: keyspace_law_def demo_keyspace_def inj lists_entries_def entries_set
        sorted_wrt_filter entries_sorted restrict_map_def fun_eq_iff)
qed

lemma demo_keyspace_reliable: "reliable demo_keyspace"
  by (auto simp: reliable_def demo_keyspace_def)

lemma demo_uuid_law: "uuid_law demo_crates"
  by (simp add: uuid_law_def demo_crates_def min_def)

definition demo_instance :: InstanceId where
  "demo_instance = ulid_to_string demo_crates 5"

definition demo_timer_bytes :: bytes where
  "demo_timer_bytes = take 16 (as_bytes ''t'' @ replicate 16 0)"

text \<open>The entry of a timer of the instance due at 400 ms, 300 ms after it was set.\<close>

definition demo_key :: bytes where
  "demo_key = u64_to_be_bytes 400 @ u128_to_be_bytes 5 @ demo_timer_bytes"

definition demo_timers :: "(bytes, bytes) RBT.rbt" where
  "demo_timers = RBT.insert demo_key (u64_to_be_bytes 300) RBT.empty"

lemma demo_instance_bytes:
  "canonical_id demo_crates demo_instance"
  "InstanceId_to_bytes demo_crates demo_instance = Inr (u128_to_be_bytes 5)"
  "InstanceId_from_bytes demo_crates (u128_to_be_bytes 5) = demo_instance"
  using demo_crates_law
  by (simp_all add: demo_instance_def demo_canonical ulid_law_def InstanceId_to_bytes_def InstanceId_from_bytes_def)

lemma demo_timer_id:
  "TimerId_to_bytes demo_crates ''t'' = Inr demo_timer_bytes" "length demo_timer_bytes = 16"
  by (simp_all add: TimerId_to_bytes_def demo_timer_bytes_def demo_crates_def as_bytes_def)

lemma demo_due: "is_due demo_crates demo_instance 500 (demo_key, u64_to_be_bytes 300)"
  by (simp add: is_due_def of_instance_def demo_key_def key_fields demo_timer_id demo_instance_bytes)

lemma lists_entries_single:
  assumes "lists_entries [k \<mapsto> v] P ps" and "P (k, v)"
  shows "ps = [(k, v)]"
proof -
  have "set ps = {(k, v)}" using assms by (auto simp: lists_entries_def split: if_splits)
  moreover have "sorted_wrt (\<lambda>p q. bytes_less (fst p) (fst q)) ps"
    using assms(1) by (simp add: lists_entries_def)
  ultimately show ?thesis by (cases ps rule: remdups_adj.cases) auto
qed

theorem poll_expired_exact_witness:
  "\<exists>r. fst (poll_expired_timers demo_crates (FjallTimerIndex demo_keyspace) demo_timers demo_instance 500 4) = Inr [r]
     \<and> r = decode_entry demo_crates demo_key (u64_to_be_bytes 300)
     \<and> RBT.lookup (snd (poll_expired_timers demo_crates (FjallTimerIndex demo_keyspace) demo_timers
                     demo_instance 500 4)) = Map.empty"
proof -
  have m: "RBT.lookup demo_timers = [demo_key \<mapsto> u64_to_be_bytes 300]" by (simp add: demo_timers_def)
  have "(500::u64) \<noteq> - 1" by simp
  note poll = poll_expired_exact [OF demo_keyspace_law this surjective_pairing,
      where api = demo_crates and st = demo_timers and iid = demo_instance and mx = 4]
  then obtain due where due: "lists_entries (RBT.lookup demo_timers) (is_due demo_crates demo_instance 500) due"
    and r: "fst (poll_expired_timers demo_crates (FjallTimerIndex demo_keyspace) demo_timers demo_instance 500 4) =
              Inr (map (\<lambda>(k, v). decode_entry demo_crates k v) (take 4 due))"
    and st: "RBT.lookup (snd (poll_expired_timers demo_crates (FjallTimerIndex demo_keyspace) demo_timers
               demo_instance 500 4)) = without (RBT.lookup demo_timers) (take 4 due)"
    using demo_keyspace_reliable by blast
  have "due = [(demo_key, u64_to_be_bytes 300)]"
    by (rule lists_entries_single [OF due [unfolded m] demo_due])
  then show ?thesis using r st by (simp add: m)
qed

text \<open>A concrete UUID crate: 32 hexadecimal digits in five groups.\<close>

definition hex_digits :: string where
  "hex_digits = ''0123456789abcdef''"

definition hex_text :: "bytes \<Rightarrow> string" where
  "hex_text bs = concat (map (\<lambda>b. [hex_digits ! (unat b div 16), hex_digits ! (unat b mod 16)]) bs)"

fun hex_bytes :: "string \<Rightarrow> bytes" where
  "hex_bytes (a # b # cs) = word_of_nat (16 * index_of a hex_digits + index_of b hex_digits) # hex_bytes cs"
| "hex_bytes _ = []"

definition demo_uuid_crates :: id_crates where
  "demo_uuid_crates = demo_crates
     \<lparr>uuid_to_string := (\<lambda>bs. let h = hex_text bs in
        take 8 h @ ''-'' @ take 4 (drop 8 h) @ ''-'' @ take 4 (drop 12 h) @ ''-'' @ take 4 (drop 16 h)
          @ ''-'' @ drop 20 h),
      uuid_parse_str := (\<lambda>s. let h = filter (\<lambda>c. c \<noteq> CHR ''-'') s in
        if length s = 36 \<and> length h = 32 \<and> set h \<subseteq> set hex_digits then Some (hex_bytes h) else None)\<rparr>"

lemma hex_digits_facts: "distinct hex_digits" "length hex_digits = 16" "CHR ''-'' \<notin> set hex_digits"
  by (simp_all add: hex_digits_def)

lemma hex_bytes_text: "hex_bytes (hex_text bs) = bs"
proof (induction bs)
  case (Cons b bs)
  have "unat b < 256" by simp
  then have "index_of (hex_digits ! (unat b div 16)) hex_digits = unat b div 16"
    "index_of (hex_digits ! (unat b mod 16)) hex_digits = unat b mod 16"
    by (simp_all add: index_of_nth hex_digits_facts less_mult_imp_div_less)
  then show ?case using Cons by (simp add: hex_text_def)
qed (simp add: hex_text_def)

lemma hex_text_facts: "length (hex_text bs) = 2 * length bs" "set (hex_text bs) \<subseteq> set hex_digits"
proof -
  show "length (hex_text bs) = 2 * length bs" by (induction bs) (simp_all add: hex_text_def)
  have "hex_digits ! (unat b div 16) \<in> set hex_digits" "hex_digits ! (unat b mod 16) \<in> set hex_digits" for b :: u8
    using unat_byte_lt [of b] by (auto simp: hex_digits_facts less_mult_imp_div_less simp del: unat_byte_lt intro!: nth_mem)
  then show "set (hex_text bs) \<subseteq> set hex_digits" by (auto simp: hex_text_def)
qed

lemma demo_uuid_text_law: "uuid_text_law demo_uuid_crates"
proof -
  have "uuid_parse_str demo_uuid_crates (uuid_to_string demo_uuid_crates bs) = Some bs" if "length bs = 16" for bs
  proof -
    let ?h = "hex_text bs"
    have len: "length ?h = 32" using that by (simp add: hex_text_facts)
    have keep: "filter (\<lambda>c. c \<noteq> CHR ''-'') xs = xs" if "set xs \<subseteq> set ?h" for xs
      using that hex_text_facts(2) [of bs] hex_digits_facts(3) by (intro filter_True) blast
    have "take 4 (drop 16 ?h) @ drop 20 ?h = drop 16 ?h" "take 4 (drop 12 ?h) @ drop 16 ?h = drop 12 ?h"
      "take 4 (drop 8 ?h) @ drop 12 ?h = drop 8 ?h"
      using append_take_drop_id [of 4 "drop 16 ?h"] append_take_drop_id [of 4 "drop 12 ?h"]
        append_take_drop_id [of 4 "drop 8 ?h"] by simp_all
    moreover have "set (take n (drop k ?h)) \<subseteq> set ?h" "set (drop k ?h) \<subseteq> set ?h" "set (take n ?h) \<subseteq> set ?h" for n k
      using set_take_subset [of n "drop k ?h"] set_drop_subset [of k ?h] set_take_subset [of n ?h] by blast+
    ultimately have "filter (\<lambda>c. c \<noteq> CHR ''-'') (uuid_to_string demo_uuid_crates bs) = ?h"
      by (simp add: demo_uuid_crates_def Let_def keep)
    moreover have "length (uuid_to_string demo_uuid_crates bs) = 36"
      using len by (simp add: demo_uuid_crates_def Let_def)
    moreover have "uuid_parse_str demo_uuid_crates s = (let h = filter (\<lambda>c. c \<noteq> CHR ''-'') s in
        if length s = 36 \<and> length h = 32 \<and> set h \<subseteq> set hex_digits then Some (hex_bytes h) else None)" for s
      by (simp add: demo_uuid_crates_def)
    ultimately show ?thesis using len hex_text_facts(2) [of bs] by (simp only: Let_def hex_bytes_text) simp
  qed
  then show ?thesis by (simp add: uuid_text_law_def)
qed

lemma length_hex_bytes: "length (hex_bytes cs) = length cs div 2"
  by (induction cs rule: hex_bytes.induct) simp_all

lemma demo_uuid_crates_laws:
  "ulid_law demo_uuid_crates" "uuid_law demo_uuid_crates" "canonical_id demo_uuid_crates demo_instance"
  using demo_crates_law demo_uuid_law demo_instance_bytes(1)
  by (auto simp: demo_uuid_crates_def ulid_law_def uuid_law_def canonical_id_def Let_def length_hex_bytes)

definition demo_uuid :: TimerId where
  "demo_uuid = uuid_to_string demo_uuid_crates demo_timer_bytes"

lemma demo_uuid_set:
  "\<exists>st. timer_set demo_uuid_crates (FjallTimerIndex demo_keyspace) RBT.empty demo_instance demo_uuid 400 100 300 60
     = (Inr (), st)"
proof -
  have "InstanceId_to_bytes demo_uuid_crates demo_instance = Inr (u128_to_be_bytes 5)"
    using demo_instance_bytes(2) by (simp add: InstanceId_to_bytes_def demo_uuid_crates_def)
  moreover have "TimerId_to_bytes demo_uuid_crates demo_uuid = Inr demo_timer_bytes"
    using demo_uuid_text_law demo_timer_id(2) by (simp add: uuid_text_law_def TimerId_to_bytes_def demo_uuid_def)
  ultimately show ?thesis
    by (simp add: timer_set_def TimerKey_new_def FjallTimerIndex_def fjall_put_def demo_keyspace_def saturating_add_def)
qed

theorem timer_set_found_when_due_witness:
  "\<exists>st rs r. timer_set demo_uuid_crates (FjallTimerIndex demo_keyspace) RBT.empty demo_instance demo_uuid 400 100 300 60
      = (Inr (), st)
    \<and> scan_due_timers demo_uuid_crates (FjallTimerIndex demo_keyspace) st demo_instance 500 = Inr rs \<and> r \<in> set rs
    \<and> r = \<lparr>tm_timer_id = demo_uuid, tm_instance_id = demo_instance, tm_fire_at_ms = 400, tm_trigger_time_ms = 100,
           tm_duration_ms = 300\<rparr>"
proof -
  obtain st where st: "timer_set demo_uuid_crates (FjallTimerIndex demo_keyspace) RBT.empty demo_instance demo_uuid
      400 100 300 60 = (Inr (), st)"
    using demo_uuid_set by blast
  have canonical: "\<exists>bs. length bs = 16 \<and> demo_uuid = uuid_to_string demo_uuid_crates bs"
    using demo_timer_id(2) demo_uuid_def by blast
  obtain rs r where r: "scan_due_timers demo_uuid_crates (FjallTimerIndex demo_keyspace) st demo_instance 500 = Inr rs"
    "r \<in> set rs" "tm_instance_id r = demo_instance" "tm_fire_at_ms r = 400" "tm_duration_ms r = 300"
    "tm_trigger_time_ms r = 100" "tm_timer_id r = demo_uuid"
    using timer_set_found_when_due [OF demo_keyspace_law demo_keyspace_reliable demo_uuid_crates_laws(1,2)
        demo_uuid_text_law demo_uuid_crates_laws(3) st, of 500] canonical by auto
  show ?thesis using st r by (intro exI [of _ st] exI [of _ rs] exI [of _ r]) simp
qed

theorem bloom_insert_reports_witness:
  "\<exists>bf'. bloom_insert (\<lambda>_. 3) (\<lambda>_. 5) (TimerBloomFilter_new 10 2 8) ''t'' 100 = Some bf'
     \<and> reports (\<lambda>_. 3) (\<lambda>_. 5) bf' (''t'', 100)"
  using bloom_insert_reports [of "TimerBloomFilter_new 10 2 8" "\<lambda>_. 3" "\<lambda>_. 5" "''t''" 100]
  by (auto simp: TimerBloomFilter_new_def REBUILD_THRESHOLD_def)

end
