(* ===== verification/Spsc_Queue.thy ===== *)
theory Spsc_Queue
  imports Prelude "HOL-Library.Transitive_Closure_Table"
begin

unbundle bit_operations_syntax

text \<open>
  The lock-free queue between two threads (vo-ipc/src/spsc.rs): a ring of slots
  with wrapping 64-bit indices.  Every atomic access of \<open>send\<close> and \<open>recv\<close> is a step
  of its own and the steps of the threads interleave; the Acquire loads and Release
  fences of the source are what makes this interleaving a fair picture, and the
  model does not go below it.
\<close>

section \<open>State and sequential operations\<close>

datatype SpscError = Spsc_Full | Spsc_Empty

text \<open>A slot that was never written is \<open>None\<close>.\<close>

record 'a SpscQueue =
  sp_buffer :: "'a option list"
  sp_cap :: u64
  sp_head :: u64
  sp_tail :: u64

text \<open>\<open>usize::next_power_of_two\<close>; a result that does not fit wraps to zero.\<close>

function doubling :: "nat \<Rightarrow> nat \<Rightarrow> nat" where
  "doubling p n = (if n \<le> p \<or> p = 0 then p else doubling (2 * p) n)"
  by pat_completeness auto

termination
  by (relation "measure (\<lambda>(p, n). n - p)") auto

definition next_power_of_two :: "u64 \<Rightarrow> u64" where
  "next_power_of_two n = word_of_nat (doubling 1 (unat n))"

definition SpscQueue_new :: "u64 \<Rightarrow> 'a SpscQueue" where
  "SpscQueue_new capacity =
     (let cap = next_power_of_two capacity in
      \<lparr>sp_buffer = replicate (unat cap) None, sp_cap = cap, sp_head = 0, sp_tail = 0\<rparr>)"

definition spsc_mask :: "'a SpscQueue \<Rightarrow> u64 \<Rightarrow> nat" where
  "spsc_mask q idx = unat (idx AND (sp_cap q - 1))"

definition spsc_send :: "'a SpscQueue \<Rightarrow> 'a \<Rightarrow> (SpscError + unit) \<times> 'a SpscQueue" where
  "spsc_send q msg =
     (let head = sp_head q; tail = sp_tail q in
      if sp_cap q \<le> head - tail then (Inl Spsc_Full, q)
      else (Inr (), q\<lparr>sp_buffer := (sp_buffer q)[spsc_mask q head := Some msg], sp_head := head + 1\<rparr>))"

text \<open>Reading a slot that was never written is undefined behaviour, which is \<open>Inr None\<close>.\<close>

definition spsc_recv :: "'a SpscQueue \<Rightarrow> (SpscError + 'a option) \<times> 'a SpscQueue" where
  "spsc_recv q =
     (let tail = sp_tail q; head = sp_head q in
      if head = tail then (Inl Spsc_Empty, q)
      else (Inr (sp_buffer q ! spsc_mask q tail), q\<lparr>sp_tail := tail + 1\<rparr>))"

definition spsc_len :: "'a SpscQueue \<Rightarrow> u64" where
  "spsc_len q = sp_head q - sp_tail q"

definition spsc_is_empty :: "'a SpscQueue \<Rightarrow> bool" where
  "spsc_is_empty q \<longleftrightarrow> spsc_len q = 0"

definition spsc_is_full :: "'a SpscQueue \<Rightarrow> bool" where
  "spsc_is_full q \<longleftrightarrow> sp_cap q \<le> sp_head q - sp_tail q"

section \<open>Interleaved execution\<close>

text \<open>Where a sender stands in \<open>send\<close> and the receiver in \<open>recv\<close>, with their local variables.\<close>

datatype 'a sender = Send_Idle | Send_Loaded 'a u64 | Send_Room 'a u64 | Send_Written 'a u64

datatype 'a receiver = Recv_Idle | Recv_Loaded u64 | Recv_Some u64 | Recv_Read u64 "'a option"

text \<open>What a call returned.\<close>

datatype 'a outcome = Sent 'a | Was_Full | Received "'a option" | Was_Empty

record 'a spsc_system =
  sy_queue :: "'a SpscQueue"
  sy_senders :: "'a sender list"
  sy_receiver :: "'a receiver"
  sy_log :: "'a outcome list"

inductive spsc_step :: "'a spsc_system \<Rightarrow> 'a spsc_system \<Rightarrow> bool" where
  load_head: "i < length (sy_senders s) \<Longrightarrow> sy_senders s ! i = Send_Idle \<Longrightarrow>
     spsc_step s (s\<lparr>sy_senders := (sy_senders s)[i := Send_Loaded x (sp_head (sy_queue s))]\<rparr>)"
| send_full: "i < length (sy_senders s) \<Longrightarrow> sy_senders s ! i = Send_Loaded x h \<Longrightarrow>
     sp_cap (sy_queue s) \<le> h - sp_tail (sy_queue s) \<Longrightarrow>
     spsc_step s (s\<lparr>sy_senders := (sy_senders s)[i := Send_Idle], sy_log := sy_log s @ [Was_Full]\<rparr>)"
| send_room: "i < length (sy_senders s) \<Longrightarrow> sy_senders s ! i = Send_Loaded x h \<Longrightarrow>
     \<not> sp_cap (sy_queue s) \<le> h - sp_tail (sy_queue s) \<Longrightarrow>
     spsc_step s (s\<lparr>sy_senders := (sy_senders s)[i := Send_Room x h]\<rparr>)"
| send_write: "i < length (sy_senders s) \<Longrightarrow> sy_senders s ! i = Send_Room x h \<Longrightarrow>
     spsc_step s (s\<lparr>sy_senders := (sy_senders s)[i := Send_Written x h],
       sy_queue := (sy_queue s)\<lparr>sp_buffer := (sp_buffer (sy_queue s))[spsc_mask (sy_queue s) h := Some x]\<rparr>\<rparr>)"
| send_publish: "i < length (sy_senders s) \<Longrightarrow> sy_senders s ! i = Send_Written x h \<Longrightarrow>
     spsc_step s (s\<lparr>sy_senders := (sy_senders s)[i := Send_Idle],
       sy_queue := (sy_queue s)\<lparr>sp_head := h + 1\<rparr>, sy_log := sy_log s @ [Sent x]\<rparr>)"
| load_tail: "sy_receiver s = Recv_Idle \<Longrightarrow>
     spsc_step s (s\<lparr>sy_receiver := Recv_Loaded (sp_tail (sy_queue s))\<rparr>)"
| recv_empty: "sy_receiver s = Recv_Loaded t \<Longrightarrow> sp_head (sy_queue s) = t \<Longrightarrow>
     spsc_step s (s\<lparr>sy_receiver := Recv_Idle, sy_log := sy_log s @ [Was_Empty]\<rparr>)"
| recv_some: "sy_receiver s = Recv_Loaded t \<Longrightarrow> sp_head (sy_queue s) \<noteq> t \<Longrightarrow>
     spsc_step s (s\<lparr>sy_receiver := Recv_Some t\<rparr>)"
| recv_read: "sy_receiver s = Recv_Some t \<Longrightarrow>
     spsc_step s (s\<lparr>sy_receiver := Recv_Read t (sp_buffer (sy_queue s) ! spsc_mask (sy_queue s) t)\<rparr>)"
| recv_publish: "sy_receiver s = Recv_Read t m \<Longrightarrow>
     spsc_step s (s\<lparr>sy_receiver := Recv_Idle, sy_queue := (sy_queue s)\<lparr>sp_tail := t + 1\<rparr>,
       sy_log := sy_log s @ [Received m]\<rparr>)"

definition spsc_start :: "'a SpscQueue \<Rightarrow> nat \<Rightarrow> 'a spsc_system" where
  "spsc_start q n =
     \<lparr>sy_queue = q, sy_senders = replicate n Send_Idle, sy_receiver = Recv_Idle, sy_log = []\<rparr>"

section \<open>The specification: a bounded first-in first-out queue\<close>

fun fifo :: "nat \<Rightarrow> 'a list \<Rightarrow> 'a outcome list \<Rightarrow> 'a list option" where
  "fifo cap xs [] = Some xs"
| "fifo cap xs (Sent x # es) = (if length xs < cap then fifo cap (xs @ [x]) es else None)"
| "fifo cap xs (Was_Full # es) = (if length xs = cap then fifo cap xs es else None)"
| "fifo cap xs (Received m # es) =
     (case xs of [] \<Rightarrow> None | x # ys \<Rightarrow> if m = Some x then fifo cap ys es else None)"
| "fifo cap xs (Was_Empty # es) = (if xs = [] then fifo cap xs es else None)"

text \<open>The messages between tail and head.\<close>

definition slot :: "'a SpscQueue \<Rightarrow> nat \<Rightarrow> nat" where
  "slot q i = spsc_mask q (sp_tail q + word_of_nat i)"

definition contents :: "'a SpscQueue \<Rightarrow> 'a option list" where
  "contents q = map (\<lambda>i. sp_buffer q ! slot q i) [0..<unat (spsc_len q)]"

definition spsc_wf :: "'a SpscQueue \<Rightarrow> bool" where
  "spsc_wf q \<longleftrightarrow>
     (\<exists>k < 64. unat (sp_cap q) = 2 ^ k) \<and> length (sp_buffer q) = unat (sp_cap q)
     \<and> unat (spsc_len q) \<le> unat (sp_cap q)"

lemma fifo_append: "fifo cap xs (es @ fs) = Option.bind (fifo cap xs es) (\<lambda>ys. fifo cap ys fs)"
  by (induction cap xs es rule: fifo.induct) (auto split: list.splits)

section \<open>The ring\<close>

declare doubling.simps [simp del]

lemma doubling_simps:
  "n \<le> p \<or> p = 0 \<Longrightarrow> doubling p n = p"
  "\<not> n \<le> p \<Longrightarrow> 0 < p \<Longrightarrow> doubling p n = doubling (2 * p) n"
  by (simp_all add: doubling.simps [of p n])

lemma doubling_power: "\<exists>k. doubling p n = p * 2 ^ k"
proof (induction p n rule: doubling.induct)
  case (1 p n)
  show ?case
  proof (cases "n \<le> p \<or> p = 0")
    case True
    then have "doubling p n = p * 2 ^ 0" by (simp add: doubling_simps(1))
    then show ?thesis by blast
  next
    case False
    then obtain k where "doubling (2 * p) n = 2 * p * 2 ^ k" using 1 by blast
    then have "doubling p n = p * 2 ^ Suc k" using False by (simp add: doubling_simps(2))
    then show ?thesis by blast
  qed
qed

lemma doubling_bound: "0 < p \<Longrightarrow> n \<le> doubling p n \<and> (doubling p n = p \<or> doubling p n < 2 * n)"
proof (induction p n rule: doubling.induct)
  case (1 p n)
  then show ?case by (cases "n \<le> p") (auto simp: doubling_simps)
qed

lemma unat_two_power: "k < 64 \<Longrightarrow> unat (2 ^ k :: u64) = 2 ^ k"
proof -
  assume "k < 64"
  then have "(2::nat) ^ k < 2 ^ 64" by (rule power_strict_increasing) simp
  then have "unat (word_of_nat (2 ^ k) :: u64) = 2 ^ k" by (subst unat_of_nat) simp
  then show ?thesis by simp
qed

lemma next_power_of_two_power:
  assumes "n \<le> 2 ^ 63"
  obtains k where "k < 64" and "unat (next_power_of_two n) = 2 ^ k" and "n \<le> next_power_of_two n"
proof -
  obtain k where k: "doubling 1 (unat n) = 2 ^ k" using doubling_power [of 1 "unat n"] by auto
  have "unat n \<le> 2 ^ 63" using assms by (simp add: word_le_nat_alt)
  then have "(2::nat) ^ k < 2 ^ 64" using doubling_bound [of 1 "unat n"] k by auto
  then have "k < 64" by (rule power_less_imp_less_exp [rotated]) simp
  moreover from this have "unat (next_power_of_two n) = 2 ^ k"
    unfolding next_power_of_two_def k by (simp add: unat_two_power)
  moreover have "n \<le> next_power_of_two n"
    using doubling_bound [of 1 "unat n", unfolded k] calculation by (simp add: word_le_nat_alt)
  ultimately show thesis by (rule that)
qed

lemma mask_mod:
  assumes "unat (sp_cap q) = 2 ^ k" and "k < 64"
  shows "spsc_mask q idx = unat idx mod 2 ^ k"
proof -
  have "unat (sp_cap q) = unat (2 ^ k :: u64)" using assms by (simp add: unat_two_power)
  then have "sp_cap q = 2 ^ k" by (rule unsigned_word_eqI)
  then have "idx AND (sp_cap q - 1) = take_bit k idx"
    by (simp add: take_bit_eq_mask mask_eq_exp_minus_1)
  then have "spsc_mask q idx = take_bit k (unat idx)"
    by (simp only: spsc_mask_def unsigned_take_bit_eq)
  then show ?thesis by (simp only: take_bit_eq_mod)
qed

lemma slot_mod:
  assumes "unat (sp_cap q) = 2 ^ k" and "k < 64"
  shows "slot q i = (unat (sp_tail q) + i) mod 2 ^ k"
proof -
  have dvd: "(2::nat) ^ k dvd 2 ^ 64" using assms(2) by (intro le_imp_power_dvd) simp
  have "unat (sp_tail q + word_of_nat i) = (unat (sp_tail q) + i) mod 2 ^ 64"
    by (simp add: unat_word_ariths unat_of_nat mod_simps)
  then show ?thesis using mod_mod_cancel [OF dvd] by (simp only: slot_def mask_mod [OF assms])
qed

lemma add_mod_inj:
  fixes a i j n :: nat
  assumes "(a + i) mod n = (a + j) mod n" and "i < n" and "j < n"
  shows "i = j"
proof -
  have le: "x = y" if "x \<le> y" "(a + x) mod n = (a + y) mod n" "y < n" for x y
  proof -
    have "n dvd (a + y) - (a + x)" using that(1,2) by (intro mod_eq_dvd_iff_nat [THEN iffD1]) simp_all
    then show ?thesis using that(1,3) by (auto dest: dvd_imp_le)
  qed
  show ?thesis using le [of i j] le [of j i] assms by (cases "i \<le> j") simp_all
qed

lemma slot_inj:
  assumes "spsc_wf q" and "i < unat (sp_cap q)" and "j < unat (sp_cap q)" and "slot q i = slot q j"
  shows "i = j"
proof -
  obtain k where k: "unat (sp_cap q) = 2 ^ k" "k < 64" using assms(1) by (auto simp: spsc_wf_def)
  have eq: "(unat (sp_tail q) + i) mod 2 ^ k = (unat (sp_tail q) + j) mod 2 ^ k"
    using assms(4) by (simp add: slot_mod [OF k])
  then show ?thesis using assms(2,3) k(1) by (intro add_mod_inj [OF eq]) simp_all
qed

lemma slot_less: "spsc_wf q \<Longrightarrow> slot q i < length (sp_buffer q)"
  by (auto simp: spsc_wf_def slot_mod)

lemma head_slot: "spsc_mask q (sp_head q) = slot q (unat (spsc_len q))"
  by (simp add: slot_def spsc_len_def)

lemma tail_slot: "spsc_mask q (sp_tail q) = slot q 0"
  by (simp add: slot_def)


section \<open>One sender and one receiver\<close>

lemma len_le_cap: "spsc_wf q \<Longrightarrow> sp_cap q \<le> sp_head q - sp_tail q \<longleftrightarrow> unat (spsc_len q) = unat (sp_cap q)"
  by (auto simp: spsc_wf_def spsc_len_def word_le_nat_alt)

lemma cap_small: "spsc_wf q \<Longrightarrow> unat (sp_cap q) \<le> 2 ^ 63"
proof -
  assume "spsc_wf q"
  then obtain k where "k < 64" "unat (sp_cap q) = 2 ^ k" by (auto simp: spsc_wf_def)
  then show ?thesis using power_increasing [of k 63 "2::nat"] by simp
qed

lemma len_zero: "unat (spsc_len q) = 0 \<longleftrightarrow> sp_head q = sp_tail q"
  by (simp add: spsc_len_def unat_eq_0)

text \<open>Publishing a message and taking one.\<close>

lemma unat_plus_one: "unat w < 2 ^ 63 \<Longrightarrow> unat (w + 1) = unat w + 1" for w :: u64
  by (subst unat_word_ariths) simp

lemma contents_publish:
  assumes "spsc_wf q" and "unat (spsc_len q) < unat (sp_cap q)"
  shows "contents (q\<lparr>sp_head := sp_head q + 1\<rparr>) = contents q @ [sp_buffer q ! spsc_mask q (sp_head q)]"
    and "spsc_wf (q\<lparr>sp_head := sp_head q + 1\<rparr>)"
proof -
  have "spsc_len (q\<lparr>sp_head := sp_head q + 1\<rparr>) = spsc_len q + 1" by (simp add: spsc_len_def)
  then have len: "unat (spsc_len (q\<lparr>sp_head := sp_head q + 1\<rparr>)) = unat (spsc_len q) + 1"
    using assms(2) cap_small [OF assms(1)] by (simp add: unat_plus_one)
  have [simp]: "slot (q\<lparr>sp_head := sp_head q + 1\<rparr>) i = slot q i" for i
    by (simp add: slot_def spsc_mask_def)
  show "contents (q\<lparr>sp_head := sp_head q + 1\<rparr>) = contents q @ [sp_buffer q ! spsc_mask q (sp_head q)]"
    by (simp add: contents_def len head_slot)
  show "spsc_wf (q\<lparr>sp_head := sp_head q + 1\<rparr>)"
    using assms len by (simp add: spsc_wf_def)
qed

lemma contents_take:
  assumes "spsc_wf q" and "0 < unat (spsc_len q)"
  shows "contents q = sp_buffer q ! spsc_mask q (sp_tail q) # contents (q\<lparr>sp_tail := sp_tail q + 1\<rparr>)"
    and "spsc_wf (q\<lparr>sp_tail := sp_tail q + 1\<rparr>)"
proof -
  have "spsc_len (q\<lparr>sp_tail := sp_tail q + 1\<rparr>) = spsc_len q - 1" by (simp add: spsc_len_def)
  moreover have "1 \<le> spsc_len q" using assms(2) by (simp add: word_le_nat_alt)
  ultimately have len: "unat (spsc_len (q\<lparr>sp_tail := sp_tail q + 1\<rparr>)) = unat (spsc_len q) - 1"
    by (simp add: unat_sub)
  have slots: "slot (q\<lparr>sp_tail := sp_tail q + 1\<rparr>) i = slot q (Suc i)" for i
    by (simp add: slot_def spsc_mask_def algebra_simps)
  obtain n where n: "unat (spsc_len q) = Suc n" using assms(2) by (cases "unat (spsc_len q)") auto
  show "contents q = sp_buffer q ! spsc_mask q (sp_tail q) # contents (q\<lparr>sp_tail := sp_tail q + 1\<rparr>)"
    by (simp add: contents_def len n slots tail_slot upt_rec [of 0 "Suc n"] map_Suc_upt [symmetric]
        del: upt_Suc map_Suc_upt)
  show "spsc_wf (q\<lparr>sp_tail := sp_tail q + 1\<rparr>)"
    using assms len by (auto simp: spsc_wf_def)
qed

lemma buffer_update [simp]:
  "slot (q\<lparr>sp_buffer := b\<rparr>) i = slot q i" "spsc_len (q\<lparr>sp_buffer := b\<rparr>) = spsc_len q"
  "spsc_mask (q\<lparr>sp_buffer := b\<rparr>) w = spsc_mask q w"
  by (simp_all add: slot_def spsc_mask_def spsc_len_def)

lemma contents_write:
  assumes "spsc_wf q" and "unat (spsc_len q) < unat (sp_cap q)"
  shows "contents (q\<lparr>sp_buffer := (sp_buffer q)[spsc_mask q (sp_head q) := m]\<rparr>) = contents q"
    and "spsc_wf (q\<lparr>sp_buffer := (sp_buffer q)[spsc_mask q (sp_head q) := m]\<rparr>)"
proof -
  have "slot q i \<noteq> slot q (unat (spsc_len q))" if "i < unat (spsc_len q)" for i
    using slot_inj [OF assms(1), of i "unat (spsc_len q)"] that assms(2) by auto
  then show "contents (q\<lparr>sp_buffer := (sp_buffer q)[spsc_mask q (sp_head q) := m]\<rparr>) = contents q"
    by (auto simp: contents_def head_slot nth_list_update_neq [OF not_sym])
  show "spsc_wf (q\<lparr>sp_buffer := (sp_buffer q)[spsc_mask q (sp_head q) := m]\<rparr>)"
    using assms(1) by (simp add: spsc_wf_def)
qed

text \<open>
  The invariant of the system with one sender: the calls that returned so far are
  a run of the specification that ends with the messages in the ring, all of them
  written, and the local variables of both threads are up to date.
\<close>

definition sender_ok :: "'a SpscQueue \<Rightarrow> 'a sender \<Rightarrow> bool" where
  "sender_ok q p \<longleftrightarrow>
     (case p of
        Send_Idle \<Rightarrow> True
      | Send_Loaded x h \<Rightarrow> h = sp_head q
      | Send_Room x h \<Rightarrow> h = sp_head q \<and> unat (spsc_len q) < unat (sp_cap q)
      | Send_Written x h \<Rightarrow> h = sp_head q \<and> unat (spsc_len q) < unat (sp_cap q)
                            \<and> sp_buffer q ! spsc_mask q h = Some x)"

definition receiver_ok :: "'a SpscQueue \<Rightarrow> 'a receiver \<Rightarrow> bool" where
  "receiver_ok q c \<longleftrightarrow>
     (case c of
        Recv_Idle \<Rightarrow> True
      | Recv_Loaded t \<Rightarrow> t = sp_tail q
      | Recv_Some t \<Rightarrow> t = sp_tail q \<and> 0 < unat (spsc_len q)
      | Recv_Read t m \<Rightarrow> t = sp_tail q \<and> 0 < unat (spsc_len q) \<and> m = sp_buffer q ! spsc_mask q t)"

definition spsc_inv :: "u64 \<Rightarrow> 'a spsc_system \<Rightarrow> bool" where
  "spsc_inv cap s \<longleftrightarrow>
     (\<exists>p xs. sy_senders s = [p] \<and> spsc_wf (sy_queue s) \<and> sp_cap (sy_queue s) = cap
        \<and> contents (sy_queue s) = map Some xs \<and> fifo (unat cap) [] (sy_log s) = Some xs
        \<and> sender_ok (sy_queue s) p \<and> receiver_ok (sy_queue s) (sy_receiver s))"

lemma length_contents: "length (contents q) = unat (spsc_len q)"
  by (simp add: contents_def)

lemma spsc_inv_start:
  assumes "capacity \<le> 2 ^ 63"
  shows "spsc_inv (next_power_of_two capacity) (spsc_start (SpscQueue_new capacity) 1)"
proof -
  obtain k where "k < 64" "unat (next_power_of_two capacity) = 2 ^ k"
    by (rule next_power_of_two_power [OF assms])
  then show ?thesis
    by (auto simp: spsc_inv_def spsc_start_def SpscQueue_new_def spsc_wf_def spsc_len_def contents_def
        sender_ok_def receiver_ok_def Let_def)
qed

lemma spsc_inv_step:
  assumes "spsc_step s s'" and "spsc_inv cap s"
  shows "spsc_inv cap s'"
proof -
  obtain p xs where inv: "sy_senders s = [p]" "spsc_wf (sy_queue s)" "sp_cap (sy_queue s) = cap"
    "contents (sy_queue s) = map Some xs" "fifo (unat cap) [] (sy_log s) = Some xs"
    "sender_ok (sy_queue s) p" "receiver_ok (sy_queue s) (sy_receiver s)"
    using assms(2) by (auto simp: spsc_inv_def)
  have xs: "length xs = unat (spsc_len (sy_queue s))" using length_contents [of "sy_queue s"] inv(4) by simp
  from assms(1) show ?thesis
  proof cases
    case (load_head i x)
    then show ?thesis using inv by (auto simp: spsc_inv_def sender_ok_def)
  next
    case (send_full i x h)
    then have "h = sp_head (sy_queue s)" "i = 0" using inv by (auto simp: sender_ok_def)
    then have "length xs = unat cap" using send_full len_le_cap [OF inv(2)] xs inv(3) by simp
    then show ?thesis using send_full inv by (auto simp: spsc_inv_def sender_ok_def fifo_append)
  next
    case (send_room i x h)
    then have h: "h = sp_head (sy_queue s)" "i = 0" using inv by (auto simp: sender_ok_def)
    then have "unat (spsc_len (sy_queue s)) < unat cap"
      using send_room len_le_cap [OF inv(2)] inv(2,3) by (auto simp: spsc_wf_def)
    then show ?thesis using send_room inv h by (auto simp: spsc_inv_def sender_ok_def)
  next
    case (send_write i x h)
    then have h: "h = sp_head (sy_queue s)" "i = 0" and lt: "unat (spsc_len (sy_queue s)) < unat cap"
      using inv by (auto simp: sender_ok_def)
    have ne: "slot (sy_queue s) 0 \<noteq> slot (sy_queue s) (unat (spsc_len (sy_queue s)))"
      if "0 < unat (spsc_len (sy_queue s))"
      using slot_inj [OF inv(2), of 0 "unat (spsc_len (sy_queue s))"] that lt inv(3) by auto
    have "spsc_mask (sy_queue s) h < length (sp_buffer (sy_queue s))"
      using slot_less [OF inv(2)] h by (simp add: head_slot)
    moreover have "receiver_ok ((sy_queue s)\<lparr>sp_buffer := (sp_buffer (sy_queue s))
        [spsc_mask (sy_queue s) h := Some x]\<rparr>) (sy_receiver s)"
      using inv(7) ne h by (auto simp: receiver_ok_def tail_slot head_slot split: receiver.splits)
    ultimately show ?thesis
      using send_write inv h lt contents_write [OF inv(2), of "Some x"]
      by (auto simp: spsc_inv_def sender_ok_def)
  next
    case (send_publish i x h)
    then have h: "h = sp_head (sy_queue s)" "i = 0" and lt: "unat (spsc_len (sy_queue s)) < unat cap"
      and w: "sp_buffer (sy_queue s) ! spsc_mask (sy_queue s) h = Some x"
      using inv by (auto simp: sender_ok_def)
    have "contents ((sy_queue s)\<lparr>sp_head := h + 1\<rparr>) = map Some (xs @ [x])"
      "spsc_wf ((sy_queue s)\<lparr>sp_head := h + 1\<rparr>)"
      using contents_publish [OF inv(2)] lt inv(3,4) w h by simp_all
    moreover have "0 < unat (spsc_len ((sy_queue s)\<lparr>sp_head := h + 1\<rparr>))"
      using calculation(1) length_contents [of "(sy_queue s)\<lparr>sp_head := h + 1\<rparr>"] by simp
    then have "receiver_ok ((sy_queue s)\<lparr>sp_head := h + 1\<rparr>) (sy_receiver s)"
      using inv(7) by (auto simp: receiver_ok_def spsc_mask_def split: receiver.splits)
    ultimately show ?thesis
      using send_publish inv h lt xs by (auto simp: spsc_inv_def sender_ok_def fifo_append)
  next
    case load_tail
    then show ?thesis using inv by (auto simp: spsc_inv_def receiver_ok_def)
  next
    case (recv_empty t)
    then have "xs = []" using inv(7) xs len_zero [of "sy_queue s"] by (simp add: receiver_ok_def)
    then show ?thesis using recv_empty inv by (auto simp: spsc_inv_def receiver_ok_def fifo_append)
  next
    case (recv_some t)
    then have "t = sp_tail (sy_queue s)" "0 < unat (spsc_len (sy_queue s))"
      using inv(7) len_zero [of "sy_queue s"] by (auto simp: receiver_ok_def)
    then show ?thesis using recv_some inv by (auto simp: spsc_inv_def receiver_ok_def)
  next
    case (recv_read t)
    then show ?thesis using inv by (auto simp: spsc_inv_def receiver_ok_def)
  next
    case (recv_publish t m)
    then have t: "t = sp_tail (sy_queue s)" and pos: "0 < unat (spsc_len (sy_queue s))"
      and m: "m = sp_buffer (sy_queue s) ! spsc_mask (sy_queue s) t"
      using inv(7) by (auto simp: receiver_ok_def)
    obtain x ys where ys: "xs = x # ys" "m = Some x"
      "contents ((sy_queue s)\<lparr>sp_tail := t + 1\<rparr>) = map Some ys"
      using contents_take(1) [OF inv(2) pos] inv(4) m t by (auto simp: Cons_eq_map_conv)
    have "spsc_wf ((sy_queue s)\<lparr>sp_tail := t + 1\<rparr>)" using contents_take(2) [OF inv(2) pos] t by simp
    moreover have "unat (spsc_len ((sy_queue s)\<lparr>sp_tail := t + 1\<rparr>)) < unat (spsc_len (sy_queue s))"
      using ys xs length_contents [of "(sy_queue s)\<lparr>sp_tail := t + 1\<rparr>"] by simp
    then have "sender_ok ((sy_queue s)\<lparr>sp_tail := t + 1\<rparr>) p"
      using inv(6) by (auto simp: sender_ok_def spsc_mask_def split: sender.splits)
    ultimately show ?thesis
      using recv_publish inv ys by (auto simp: spsc_inv_def receiver_ok_def fifo_append)
  qed
qed

lemma spsc_inv_steps: "spsc_step\<^sup>*\<^sup>* s s' \<Longrightarrow> spsc_inv cap s \<Longrightarrow> spsc_inv cap s'"
  by (induction rule: rtranclp_induct) (auto intro: spsc_inv_step)

text \<open>The messages sent and received according to a log.\<close>

definition sent_by :: "'a outcome list \<Rightarrow> 'a list" where
  "sent_by es = concat (map (\<lambda>e. case e of Sent x \<Rightarrow> [x] | _ \<Rightarrow> []) es)"

definition received_by :: "'a outcome list \<Rightarrow> 'a option list" where
  "received_by es = concat (map (\<lambda>e. case e of Received m \<Rightarrow> [m] | _ \<Rightarrow> []) es)"

lemma fifo_order: "fifo cap xs es = Some ys \<Longrightarrow> map Some (xs @ sent_by es) = received_by es @ map Some ys"
  by (induction cap xs es rule: fifo.induct) (auto simp: sent_by_def received_by_def split: if_splits list.splits)

text \<open>
  (C19) With one sender and one receiver the ring is a bounded first-in first-out
  queue, however the two interleave and however often the 64-bit indices wrap.
  The calls that returned form a run of the specification: a send is refused only
  when the queue is full and a receive only when it is empty.  What was received is
  what was sent, in order, without the messages still in the ring; no slot is read
  before it was written.  The ring holds at least as many messages as asked for.
\<close>

theorem spsc_refines_fifo:
  assumes "capacity \<le> 2 ^ 63" and "spsc_step\<^sup>*\<^sup>* (spsc_start (SpscQueue_new capacity) 1) s"
  shows "\<exists>xs. fifo (unat (next_power_of_two capacity)) [] (sy_log s) = Some xs
     \<and> contents (sy_queue s) = map Some xs
     \<and> map Some (sent_by (sy_log s)) = received_by (sy_log s) @ map Some xs
     \<and> capacity \<le> next_power_of_two capacity"
proof -
  have "spsc_inv (next_power_of_two capacity) s"
    by (rule spsc_inv_steps [OF assms(2) spsc_inv_start [OF assms(1)]])
  then obtain xs where "fifo (unat (next_power_of_two capacity)) [] (sy_log s) = Some xs"
    "contents (sy_queue s) = map Some xs"
    by (auto simp: spsc_inv_def)
  moreover have "capacity \<le> next_power_of_two capacity"
    by (rule next_power_of_two_power [OF assms(1)])
  ultimately show ?thesis using fifo_order [of _ "[]"] by fastforce
qed

text \<open>A call that nobody interrupts does what the sequential operation does.\<close>

lemma steps2: "r a b \<Longrightarrow> r b c \<Longrightarrow> r\<^sup>*\<^sup>* a c"
  by (meson converse_rtranclp_into_rtranclp r_into_rtranclp)

lemma steps4: "r a b \<Longrightarrow> r b c \<Longrightarrow> r c d \<Longrightarrow> r d e \<Longrightarrow> r\<^sup>*\<^sup>* a e"
  by (meson converse_rtranclp_into_rtranclp r_into_rtranclp)

lemma solo_send:
  assumes "sy_senders s = [Send_Idle]"
  shows "spsc_step\<^sup>*\<^sup>* s (s\<lparr>sy_queue := snd (spsc_send (sy_queue s) x),
     sy_log := sy_log s @ [case fst (spsc_send (sy_queue s) x) of Inl _ \<Rightarrow> Was_Full | Inr _ \<Rightarrow> Sent x]\<rparr>)"
proof (cases "sp_cap (sy_queue s) \<le> sp_head (sy_queue s) - sp_tail (sy_queue s)")
  case True
  let ?s1 = "s\<lparr>sy_senders := [Send_Loaded x (sp_head (sy_queue s))]\<rparr>"
  have "spsc_step s ?s1" using load_head [of 0 s x] assms by simp
  moreover have "spsc_step ?s1 (s\<lparr>sy_log := sy_log s @ [Was_Full]\<rparr>)"
    using send_full [of 0 ?s1 x "sp_head (sy_queue s)"] assms True by (cases s) simp
  ultimately have "spsc_step\<^sup>*\<^sup>* s (s\<lparr>sy_log := sy_log s @ [Was_Full]\<rparr>)" by (rule steps2)
  then show ?thesis using True by (simp add: spsc_send_def Let_def)
next
  case False
  let ?h = "sp_head (sy_queue s)"
  let ?s1 = "s\<lparr>sy_senders := [Send_Loaded x ?h]\<rparr>" and ?s2 = "s\<lparr>sy_senders := [Send_Room x ?h]\<rparr>"
  let ?q = "(sy_queue s)\<lparr>sp_buffer := (sp_buffer (sy_queue s))[spsc_mask (sy_queue s) ?h := Some x]\<rparr>"
  let ?s3 = "s\<lparr>sy_senders := [Send_Written x ?h], sy_queue := ?q\<rparr>"
  have "spsc_step s ?s1" using load_head [of 0 s x] assms by simp
  moreover have "spsc_step ?s1 ?s2" using send_room [of 0 ?s1 x ?h] False by (cases s) simp
  moreover have "spsc_step ?s2 ?s3" using send_write [of 0 ?s2 x ?h] by (cases s) simp
  moreover have "spsc_step ?s3 (s\<lparr>sy_queue := ?q\<lparr>sp_head := ?h + 1\<rparr>, sy_log := sy_log s @ [Sent x]\<rparr>)"
    using send_publish [of 0 ?s3 x ?h] assms by (cases s) simp
  ultimately have "spsc_step\<^sup>*\<^sup>* s (s\<lparr>sy_queue := ?q\<lparr>sp_head := ?h + 1\<rparr>, sy_log := sy_log s @ [Sent x]\<rparr>)"
    by (rule steps4)
  then show ?thesis using False by (simp add: spsc_send_def Let_def)
qed

lemma solo_recv:
  assumes "sy_receiver s = Recv_Idle"
  shows "spsc_step\<^sup>*\<^sup>* s (s\<lparr>sy_queue := snd (spsc_recv (sy_queue s)),
     sy_log := sy_log s @ [case fst (spsc_recv (sy_queue s)) of Inl _ \<Rightarrow> Was_Empty | Inr m \<Rightarrow> Received m]\<rparr>)"
proof (cases "sp_head (sy_queue s) = sp_tail (sy_queue s)")
  case True
  let ?s1 = "s\<lparr>sy_receiver := Recv_Loaded (sp_tail (sy_queue s))\<rparr>"
  have "spsc_step s ?s1" using load_tail [of s] assms by simp
  moreover have "spsc_step ?s1 (s\<lparr>sy_log := sy_log s @ [Was_Empty]\<rparr>)"
    using recv_empty [of ?s1 "sp_tail (sy_queue s)"] assms True by (cases s) simp
  ultimately have "spsc_step\<^sup>*\<^sup>* s (s\<lparr>sy_log := sy_log s @ [Was_Empty]\<rparr>)" by (rule steps2)
  then show ?thesis using True by (simp add: spsc_recv_def Let_def)
next
  case False
  let ?t = "sp_tail (sy_queue s)"
  let ?m = "sp_buffer (sy_queue s) ! spsc_mask (sy_queue s) ?t"
  let ?s1 = "s\<lparr>sy_receiver := Recv_Loaded ?t\<rparr>" and ?s2 = "s\<lparr>sy_receiver := Recv_Some ?t\<rparr>"
    and ?s3 = "s\<lparr>sy_receiver := Recv_Read ?t ?m\<rparr>"
  have "spsc_step s ?s1" using load_tail [of s] assms by simp
  moreover have "spsc_step ?s1 ?s2" using recv_some [of ?s1 ?t] False by (cases s) simp
  moreover have "spsc_step ?s2 ?s3" using recv_read [of ?s2 ?t] by (cases s) simp
  moreover have "spsc_step ?s3 (s\<lparr>sy_queue := (sy_queue s)\<lparr>sp_tail := ?t + 1\<rparr>, sy_log := sy_log s @ [Received ?m]\<rparr>)"
    using recv_publish [of ?s3 ?t ?m] assms by (cases s) simp
  ultimately have "spsc_step\<^sup>*\<^sup>* s (s\<lparr>sy_queue := (sy_queue s)\<lparr>sp_tail := ?t + 1\<rparr>,
      sy_log := sy_log s @ [Received ?m]\<rparr>)"
    by (rule steps4)
  then show ?thesis using False by (simp add: spsc_recv_def Let_def)
qed


section \<open>More than one sender\<close>

text \<open>
  The queue cannot be shared by two senders, although \<open>sender\<close> can be called any
  number of times and its result sent to another thread: two sends that overlap can
  both be told of success while only the second message is in the ring and the
  first is lost.
\<close>

theorem spsc_two_senders_lose:
  assumes "capacity \<le> 2 ^ 63"
  shows "\<exists>s. spsc_step\<^sup>*\<^sup>* (spsc_start (SpscQueue_new capacity) 2) s
     \<and> sy_log s = [Sent x, Sent y] \<and> contents (sy_queue s) = [Some y]"
proof -
  let ?q = "SpscQueue_new capacity :: 'a SpscQueue"
  obtain k where k: "k < 64" "unat (next_power_of_two capacity) = 2 ^ k"
    by (rule next_power_of_two_power [OF assms])
  have q: "sp_head ?q = 0" "sp_tail ?q = 0" "sp_cap ?q = next_power_of_two capacity"
    "length (sp_buffer ?q) = 2 ^ k"
    using k by (simp_all add: SpscQueue_new_def Let_def)
  have room: "\<not> sp_cap ?q \<le> 0" using q(3) k by (auto simp: word_le_nat_alt)
  let ?ring = "\<lambda>b h. \<lparr>sp_buffer = b, sp_cap = next_power_of_two capacity, sp_head = h, sp_tail = 0\<rparr>"
  let ?st = "\<lambda>b h ps log. \<lparr>sy_queue = ?ring b h, sy_senders = ps, sy_receiver = Recv_Idle, sy_log = log\<rparr>"
  let ?b0 = "sp_buffer ?q" and ?b1 = "(sp_buffer ?q)[0 := Some x]" and ?b2 = "(sp_buffer ?q)[0 := Some y]"
  have start: "spsc_start ?q 2 = ?st ?b0 0 [Send_Idle, Send_Idle] []"
    by (simp add: spsc_start_def SpscQueue_new_def Let_def numeral_2_eq_2)
  have 1: "spsc_step (?st ?b0 0 [Send_Idle, Send_Idle] []) (?st ?b0 0 [Send_Loaded x 0, Send_Idle] [])"
    using load_head [of 0 "?st ?b0 0 [Send_Idle, Send_Idle] []" x] by simp
  have 2: "spsc_step (?st ?b0 0 [Send_Loaded x 0, Send_Idle] []) (?st ?b0 0 [Send_Loaded x 0, Send_Loaded y 0] [])"
    using load_head [of 1 "?st ?b0 0 [Send_Loaded x 0, Send_Idle] []" y] by simp
  have 3: "spsc_step (?st ?b0 0 [Send_Loaded x 0, Send_Loaded y 0] []) (?st ?b0 0 [Send_Room x 0, Send_Loaded y 0] [])"
    using send_room [of 0 "?st ?b0 0 [Send_Loaded x 0, Send_Loaded y 0] []" x 0] q room by simp
  have 4: "spsc_step (?st ?b0 0 [Send_Room x 0, Send_Loaded y 0] []) (?st ?b0 0 [Send_Room x 0, Send_Room y 0] [])"
    using send_room [of 1 "?st ?b0 0 [Send_Room x 0, Send_Loaded y 0] []" y 0] q room by simp
  have 5: "spsc_step (?st ?b0 0 [Send_Room x 0, Send_Room y 0] []) (?st ?b1 0 [Send_Written x 0, Send_Room y 0] [])"
    using send_write [of 0 "?st ?b0 0 [Send_Room x 0, Send_Room y 0] []" x 0] by (simp add: spsc_mask_def)
  have 6: "spsc_step (?st ?b1 0 [Send_Written x 0, Send_Room y 0] []) (?st ?b2 0 [Send_Written x 0, Send_Written y 0] [])"
    using send_write [of 1 "?st ?b1 0 [Send_Written x 0, Send_Room y 0] []" y 0] by (simp add: spsc_mask_def)
  have 7: "spsc_step (?st ?b2 0 [Send_Written x 0, Send_Written y 0] []) (?st ?b2 1 [Send_Idle, Send_Written y 0] [Sent x])"
    using send_publish [of 0 "?st ?b2 0 [Send_Written x 0, Send_Written y 0] []" x 0] by simp
  have 8: "spsc_step (?st ?b2 1 [Send_Idle, Send_Written y 0] [Sent x]) (?st ?b2 1 [Send_Idle, Send_Idle] [Sent x, Sent y])"
    using send_publish [of 1 "?st ?b2 1 [Send_Idle, Send_Written y 0] [Sent x]" y 0] by simp
  have "spsc_step\<^sup>*\<^sup>* (spsc_start ?q 2) (?st ?b2 1 [Send_Idle, Send_Idle] [Sent x, Sent y])"
    unfolding start by (rule rtranclp_trans [OF steps4 [where r = spsc_step, OF 1 2 3 4]
      steps4 [where r = spsc_step, OF 5 6 7 8]])
  moreover have "contents (?ring ?b2 1) = [Some y]"
    using q by (simp add: contents_def spsc_len_def slot_def spsc_mask_def)
  ultimately show ?thesis by (intro exI [of _ "?st ?b2 1 [Send_Idle, Send_Idle] [Sent x, Sent y]"]) simp
qed

theorem spsc_refines_fifo_witness:
  "\<exists>s :: nat spsc_system. spsc_step\<^sup>*\<^sup>* (spsc_start (SpscQueue_new 3) 1) s \<and> sy_log s = [Sent 7]
     \<and> contents (sy_queue s) = [Some 7]"
proof -
  let ?s = "spsc_start (SpscQueue_new 3) 1 :: nat spsc_system"
  have cap: "(3::u64) \<le> 2 ^ 63" by simp
  have "sp_cap (sy_queue ?s) = 4"
    by (simp add: spsc_start_def SpscQueue_new_def next_power_of_two_def doubling_simps Let_def)
  then have send: "fst (spsc_send (sy_queue ?s) 7) = Inr ()"
    by (simp add: spsc_send_def spsc_start_def SpscQueue_new_def Let_def)
  have "sy_senders ?s = [Send_Idle]" "sy_log ?s = []" by (simp_all add: spsc_start_def)
  then obtain s where s: "spsc_step\<^sup>*\<^sup>* ?s s" "sy_log s = [Sent 7]" using solo_send [of ?s 7] send by force
  obtain xs where "fifo (unat (next_power_of_two 3)) [] (sy_log s) = Some xs" "contents (sy_queue s) = map Some xs"
    "map Some (sent_by (sy_log s)) = received_by (sy_log s) @ map Some xs"
    using spsc_refines_fifo [OF cap s(1)] by blast
  then have "contents (sy_queue s) = [Some 7]" using s(2) by (simp add: sent_by_def received_by_def)
  with s show ?thesis by blast
qed

theorem spsc_two_senders_lose_witness:
  "\<exists>s :: nat spsc_system. spsc_step\<^sup>*\<^sup>* (spsc_start (SpscQueue_new 8) 2) s
     \<and> sy_log s = [Sent 3, Sent 4] \<and> contents (sy_queue s) = [Some 4]"
  using spsc_two_senders_lose [of 8 "3::nat" 4] by simp

end
