(* ===== verification/Ipc_Envelope.thy ===== *)
theory Ipc_Envelope
  imports Key_Encoding
begin

unbundle bit_operations_syntax

text \<open>
  The protocol between the engine and its worker processes (vo-ipc/src/envelope.rs,
  error.rs, stderr.rs): length-prefixed frames over a byte stream that delivers
  arbitrary pieces, the checks on a received envelope, and the bounded capture of a
  worker's output.  The stream, the JSON and postcard crates, and the Unicode table
  behind \<open>char::is_alphanumeric\<close> are parameters.
\<close>

section \<open>Errors and messages\<close>

datatype ConfigError =
    TimeoutMustBePositive u64
  | ProgramMissing string
  | ProgramNotExecutable string

datatype IpcError =
    Ipc_Config ConfigError
  | PipeSetupFailed string
  | SpawnFailed string
  | WaitFailed string
  | Fd4ReadFailed string
  | Fd3WriteFailed string
  | StderrReadFailed string
  | StdoutReadFailed string
  | SignalFailed string
  | Ipc_Timeout u64 bytes bool bytes bool
  | ProcessFailed int bytes bool bytes bool
  | BackpressureTimeout u64
  | PayloadTooLarge u32
  | InputExceedsCap u32 u32
  | IncompleteRead nat nat
  | Ipc_InvalidJson string
  | InvalidPostcard string
  | VersionMismatch u8
  | SchemaViolation string
  | IdentityMismatch string string string string
  | IoError string
  | AlreadyConsumed
  | HandshakeTimeout

definition MAX_PAYLOAD_SIZE :: u32 where
  "MAX_PAYLOAD_SIZE = 10485760"

definition CURRENT_VERSION :: u8 where
  "CURRENT_VERSION = 1"

type_synonym VersionNegotiation = "u8 list"

definition VersionNegotiation_new :: VersionNegotiation where
  "VersionNegotiation_new = [CURRENT_VERSION]"

definition negotiate :: "VersionNegotiation \<Rightarrow> u8 \<Rightarrow> IpcError + u8" where
  "negotiate supported_versions peer_version =
     (if peer_version \<in> set supported_versions then Inr peer_version
      else Inl (VersionMismatch peer_version))"

definition negotiate_version :: "u8 \<Rightarrow> IpcError + u8" where
  "negotiate_version peer_version = negotiate VersionNegotiation_new peer_version"

record 'j Fd3Envelope =
  f3_version :: u8
  f3_instance_id :: string
  f3_node_id :: string
  f3_input :: 'j
  f3_secrets :: "string \<rightharpoonup> string"
  f3_metadata :: "string \<rightharpoonup> string"

record 'j EffectIntentEnvelope =
  ie_effect_kind :: string
  ie_params :: 'j
  ie_connector_id :: string

record 'j TaskError =
  te_code :: string
  te_message :: string
  te_details :: "'j option"

datatype 'j TaskResult =
    Task_Success 'j
  | Task_Failure "'j TaskError"
  | Task_EffectIntent "'j EffectIntentEnvelope"

record 'j Fd4Envelope =
  f4_version :: u8
  f4_instance_id :: string
  f4_node_id :: string
  f4_result :: "'j TaskResult"

section \<open>Streams and serialisers\<close>

text \<open>
  \<open>impl Read\<close> and \<open>impl Write\<close>: a read is asked for a number of bytes and returns
  some, none at the end of the stream, or an I/O error.
\<close>

type_synonym 'r reader = "'r \<Rightarrow> nat \<Rightarrow> (string + bytes) \<times> 'r"
type_synonym 'w writer = "'w \<Rightarrow> bytes \<Rightarrow> (string + unit) \<times> 'w"

text \<open>
  The two serialisation crates at an envelope type \<open>'e\<close>.  A failed conversion from a
  JSON value says whether it is a data error.  \<open>sd_debug\<close> is \<open>cfg(debug_assertions)\<close>,
  and \<open>sd_alphanumeric\<close> says of a text that all its characters are alphanumeric.
\<close>

record ('e, 'j) serde =
  sd_debug :: bool
  sd_json_to_vec :: "'e \<Rightarrow> string + bytes"
  sd_json_from_slice :: "bytes \<Rightarrow> string + 'j"
  sd_json_from_value :: "'j \<Rightarrow> (bool \<times> string) + 'e"
  sd_postcard_to_vec :: "'e \<Rightarrow> string + bytes"
  sd_postcard_from_bytes :: "bytes \<Rightarrow> string + 'e"
  sd_json :: "'j json_api"
  sd_alphanumeric :: "string \<Rightarrow> bool"

section \<open>Writing\<close>

definition u32_to_be_bytes :: "u32 \<Rightarrow> bytes" where
  "u32_to_be_bytes w = be_encode 4 (unat w)"

definition u32_from_be_bytes :: "bytes \<Rightarrow> u32" where
  "u32_from_be_bytes bs = word_of_nat (be_decode bs)"

definition serialize_envelope :: "('e, 'j) serde \<Rightarrow> 'e \<Rightarrow> IpcError + bytes" where
  "serialize_envelope sd envelope =
     (if sd_debug sd then map_err Ipc_InvalidJson (sd_json_to_vec sd envelope)
      else map_err InvalidPostcard (sd_postcard_to_vec sd envelope))"

definition write_envelope :: "('e, 'j) serde \<Rightarrow> 'w writer \<Rightarrow> 'w \<Rightarrow> 'e \<Rightarrow> (IpcError + unit) \<times> 'w" where
  "write_envelope sd write_all w envelope =
     (case serialize_envelope sd envelope of
        Inl e \<Rightarrow> (Inl e, w)
      | Inr payload \<Rightarrow>
          if 2 ^ 32 \<le> length payload then (Inl (PayloadTooLarge (- 1)), w)
          else
            (let len_u32 = word_of_nat (length payload) in
             if MAX_PAYLOAD_SIZE < len_u32 then (Inl (PayloadTooLarge len_u32), w)
             else
               (case write_all w (u32_to_be_bytes len_u32) of
                  (Inl e, w1) \<Rightarrow> (Inl (IoError e), w1)
                | (Inr _, w1) \<Rightarrow>
                    (case write_all w1 payload of
                       (Inl e, w2) \<Rightarrow> (Inl (IoError e), w2)
                     | (Inr _, w2) \<Rightarrow> (Inr (), w2)))))"

text \<open>
  The write that waits while the reader is behind.  The watch channel is a parameter:
  its current value, and the outcome of the wait (whether it timed out, the value after
  it, and the seconds it took).
\<close>

definition CHUNK_SIZE :: nat where
  "CHUNK_SIZE = 65536"

record 's pressure =
  pr_borrow :: "'s \<Rightarrow> bool \<times> 's"
  pr_wait :: "'s \<Rightarrow> (bool \<times> bool \<times> u64) \<times> 's"

definition await_pressure :: "'s pressure \<Rightarrow> 's \<Rightarrow> (IpcError + unit) \<times> 's" where
  "await_pressure pr s =
     (case pr_borrow pr s of
        (False, s1) \<Rightarrow> (Inr (), s1)
      | (True, s1) \<Rightarrow>
          (case pr_wait pr s1 of
             ((timed_out, still, elapsed), s2) \<Rightarrow>
               if timed_out \<or> still then (Inl (BackpressureTimeout (max elapsed 1)), s2)
               else (Inr (), s2)))"

function backpressure_write ::
  "'s pressure \<Rightarrow> 'w writer \<Rightarrow> bytes \<Rightarrow> nat \<Rightarrow> 's \<Rightarrow> 'w \<Rightarrow> (IpcError + unit) \<times> 's \<times> 'w" where
  "backpressure_write pr write_all payload offset s w =
     (if length payload \<le> offset then (Inr (), s, w)
      else
        (case await_pressure pr s of
           (Inl e, s1) \<Rightarrow> (Inl e, s1, w)
         | (Inr _, s1) \<Rightarrow>
             (let chunk_end = min (offset + CHUNK_SIZE) (length payload) in
              case write_all w (take (chunk_end - offset) (drop offset payload)) of
                (Inl e, w1) \<Rightarrow> (Inl (IoError e), s1, w1)
              | (Inr _, w1) \<Rightarrow> backpressure_write pr write_all payload chunk_end s1 w1)))"
  by pat_completeness auto

termination
  by (relation "measure (\<lambda>(pr, write_all, payload, offset, s, w). length payload - offset)")
     (auto simp: CHUNK_SIZE_def)

declare backpressure_write.simps [simp del]

section \<open>Reading\<close>

text \<open>The two loops: each goes on until the wanted number of bytes is there.\<close>

lemma nonempty_diff_less:
  "\<not> k \<le> n \<Longrightarrow> bs \<noteq> [] \<Longrightarrow> k - (n + length bs) < k - n"
  by (cases bs) auto

function read_header :: "'r reader \<Rightarrow> 'r \<Rightarrow> bytes \<Rightarrow> (IpcError + bytes) \<times> 'r" where
  "read_header rd r header =
     (if 4 \<le> length header then (Inr header, r)
      else
        (case rd r (4 - length header) of
           (Inl e, r1) \<Rightarrow> (Inl (IoError e), r1)
         | (Inr bs, r1) \<Rightarrow>
             if bs = [] then (Inl (IncompleteRead 4 (length header)), r1)
             else read_header rd r1 (header @ bs)))"
  by pat_completeness auto

termination
  by (relation "measure (\<lambda>(rd, r, header). 4 - length header)") (auto simp: nonempty_diff_less)

declare read_header.simps [simp del]

function read_payload :: "'r reader \<Rightarrow> 'r \<Rightarrow> nat \<Rightarrow> bytes \<Rightarrow> (IpcError + bytes) \<times> 'r" where
  "read_payload rd r len payload =
     (if len \<le> length payload then (Inr payload, r)
      else
        (case rd r (min 4096 (len - length payload)) of
           (Inl e, r1) \<Rightarrow> (Inl (IoError e), r1)
         | (Inr bs, r1) \<Rightarrow>
             if bs = [] then (Inl (IncompleteRead len (length payload)), r1)
             else read_payload rd r1 len (payload @ bs)))"
  by pat_completeness auto

termination
  by (relation "measure (\<lambda>(rd, r, len, payload). len - length payload)")
     (auto simp: nonempty_diff_less)

declare read_payload.simps [simp del]

definition validate_id_field :: "('e, 'j) serde \<Rightarrow> (string \<Rightarrow> 'j option) \<Rightarrow> string \<Rightarrow> IpcError + unit" where
  "validate_id_field sd obj field =
     (case obj field of
        None \<Rightarrow> Inr ()
      | Some val \<Rightarrow>
          (case as_str (sd_json sd) val of
             None \<Rightarrow> Inl (SchemaViolation (field @ '' must be a string''))
           | Some i \<Rightarrow>
               if i = [] then Inl (SchemaViolation (field @ '' cannot be empty''))
               else if \<not> sd_alphanumeric sd i
               then Inl (SchemaViolation (field @ '' contains invalid characters''))
               else Inr ()))"

definition validate_version :: "('e, 'j) serde \<Rightarrow> (string \<Rightarrow> 'j option) \<Rightarrow> IpcError + unit" where
  "validate_version sd obj =
     (case obj ''version'' of
        None \<Rightarrow> Inr ()
      | Some v \<Rightarrow>
          (case as_u64 (sd_json sd) v of
             None \<Rightarrow> Inl (SchemaViolation ''version must be an integer'')
           | Some n \<Rightarrow>
               if 255 < n then Inl (VersionMismatch 255)
               else if n \<noteq> 1 then Inl (VersionMismatch (ucast n))
               else Inr ()))"

definition validate_json_schema :: "('e, 'j) serde \<Rightarrow> 'j \<Rightarrow> IpcError + unit" where
  "validate_json_schema sd val =
     (case as_object (sd_json sd) val of
        None \<Rightarrow> Inr ()
      | Some obj \<Rightarrow>
          and_then (validate_version sd obj) (\<lambda>_.
          and_then (validate_id_field sd obj ''instance_id'') (\<lambda>_.
            validate_id_field sd obj ''node_id'')))"

definition deserialize_and_validate :: "('e, 'j) serde \<Rightarrow> bytes \<Rightarrow> IpcError + 'e" where
  "deserialize_and_validate sd payload =
     (if sd_debug sd then
        and_then (map_err Ipc_InvalidJson (sd_json_from_slice sd payload)) (\<lambda>val.
        and_then (validate_json_schema sd val) (\<lambda>_.
          map_err (\<lambda>(is_data, e). if is_data then SchemaViolation e else Ipc_InvalidJson e)
            (sd_json_from_value sd val)))
      else map_err InvalidPostcard (sd_postcard_from_bytes sd payload))"

definition read_envelope :: "('e, 'j) serde \<Rightarrow> 'r reader \<Rightarrow> 'r \<Rightarrow> (IpcError + 'e) \<times> 'r" where
  "read_envelope sd rd r =
     (case read_header rd r [] of
        (Inl e, r1) \<Rightarrow> (Inl e, r1)
      | (Inr header, r1) \<Rightarrow>
          (let len = u32_from_be_bytes header in
           if MAX_PAYLOAD_SIZE < len then (Inl (PayloadTooLarge len), r1)
           else
             (case read_payload rd r1 (unat len) [] of
                (Inl e, r2) \<Rightarrow> (Inl e, r2)
              | (Inr payload, r2) \<Rightarrow> (deserialize_and_validate sd payload, r2))))"

definition validate_identity :: "'j Fd4Envelope \<Rightarrow> string \<Rightarrow> string \<Rightarrow> IpcError + unit" where
  "validate_identity envelope expected_instance_id expected_node_id =
     (if f4_instance_id envelope \<noteq> expected_instance_id \<or> f4_node_id envelope \<noteq> expected_node_id
      then Inl (IdentityMismatch expected_instance_id expected_node_id
                  (f4_instance_id envelope) (f4_node_id envelope))
      else Inr ())"

definition engine_receive_envelope ::
  "('j Fd4Envelope, 'j) serde \<Rightarrow> 'r reader \<Rightarrow> 'r \<Rightarrow> string \<Rightarrow> string
     \<Rightarrow> (IpcError + 'j Fd4Envelope) \<times> 'r" where
  "engine_receive_envelope sd rd r expected_instance_id expected_node_id =
     (case read_envelope sd rd r of
        (Inl e, r1) \<Rightarrow> (Inl e, r1)
      | (Inr envelope, r1) \<Rightarrow>
          (and_then (validate_identity envelope expected_instance_id expected_node_id)
             (\<lambda>_. Inr envelope), r1))"

section \<open>Captured output\<close>

definition MAX_STDERR_BYTES :: nat where
  "MAX_STDERR_BYTES = 1048576"

definition TRUNCATION_MARKER :: bytes where
  "TRUNCATION_MARKER = as_bytes (CHR 0x0A # ''[... TRUNCATED AT 1MB ...]'')"

record StderrCapture =
  sc_bytes :: bytes
  sc_truncated :: bool
  sc_observed_bytes :: nat

definition StderrCapture_empty :: StderrCapture where
  "StderrCapture_empty = \<lparr>sc_bytes = [], sc_truncated = False, sc_observed_bytes = 0\<rparr>"

definition update_capture :: "StderrCapture \<Rightarrow> bytes \<Rightarrow> StderrCapture" where
  "update_capture current chunk =
     (let available = MAX_STDERR_BYTES - length (sc_bytes current);
          to_copy = min (length chunk) available in
      \<lparr>sc_bytes = sc_bytes current @ take to_copy chunk,
       sc_truncated = (sc_truncated current \<or> to_copy < length chunk),
       sc_observed_bytes = sc_observed_bytes current + length chunk\<rparr>)"

definition finalize_capture :: "StderrCapture \<Rightarrow> StderrCapture" where
  "finalize_capture capture =
     (if sc_truncated capture \<and> \<not> ends_with (sc_bytes capture) TRUNCATION_MARKER
      then capture\<lparr>sc_bytes := sc_bytes capture @ TRUNCATION_MARKER\<rparr>
      else capture)"

text \<open>The reading loop; it need not end, and takes its number of reads as fuel.\<close>

fun read_bounded_loop :: "nat \<Rightarrow> 'r reader \<Rightarrow> 'r \<Rightarrow> StderrCapture \<Rightarrow> ((string + StderrCapture) \<times> 'r) option" where
  "read_bounded_loop 0 rd r capture = None"
| "read_bounded_loop (Suc fuel) rd r capture =
     (case rd r 4096 of
        (Inl e, r1) \<Rightarrow> Some (Inl e, r1)
      | (Inr bs, r1) \<Rightarrow>
          if bs = [] then Some (Inr (finalize_capture capture), r1)
          else read_bounded_loop fuel rd r1 (update_capture capture bs))"

definition read_bounded_stderr :: "nat \<Rightarrow> 'r reader \<Rightarrow> 'r \<Rightarrow> ((string + StderrCapture) \<times> 'r) option" where
  "read_bounded_stderr fuel rd r = read_bounded_loop fuel rd r StderrCapture_empty"

section \<open>Configuration of a worker\<close>

text \<open>The file system is a parameter; metadata is whether it is a file, and its mode
  (the three execute bits are 0o111, which is 73).\<close>

record file_system =
  fs_exists :: "string \<Rightarrow> bool"
  fs_metadata :: "string \<Rightarrow> (bool \<times> u32) option"
  fs_canonicalize :: "string \<Rightarrow> string option"

record SubprocessConfig =
  executable_path :: string
  sub_timeout_ms :: u64
  fd3_payload :: bytes

definition validate_timeout :: "u64 \<Rightarrow> ConfigError + unit" where
  "validate_timeout timeout_ms =
     (if timeout_ms = 0 then Inl (TimeoutMustBePositive timeout_ms) else Inr ())"

definition validate_program_path :: "file_system \<Rightarrow> string \<Rightarrow> ConfigError + unit" where
  "validate_program_path fs path =
     (if \<not> fs_exists fs path then Inl (ProgramMissing path)
      else
        (case fs_metadata fs path of
           None \<Rightarrow> Inl (ProgramMissing path)
         | Some (is_file, mode) \<Rightarrow>
             if \<not> is_file then Inl (ProgramMissing path)
             else if mode AND 73 = 0 then Inl (ProgramNotExecutable path)
             else Inr ()))"

definition SubprocessConfig_new ::
  "file_system \<Rightarrow> string \<Rightarrow> u64 \<Rightarrow> bytes \<Rightarrow> ConfigError + SubprocessConfig" where
  "SubprocessConfig_new fs path timeout_ms payload =
     and_then (validate_timeout timeout_ms) (\<lambda>_.
     and_then (validate_program_path fs path) (\<lambda>_.
     and_then (ok_or (ProgramMissing path) (fs_canonicalize fs path)) (\<lambda>canonical_path.
       Inr \<lparr>executable_path = canonical_path, sub_timeout_ms = timeout_ms, fd3_payload = payload\<rparr>)))"

definition open_and_validate_program :: "file_system \<Rightarrow> string \<Rightarrow> ConfigError + string" where
  "open_and_validate_program fs path =
     and_then (validate_program_path fs path) (\<lambda>_. ok_or (ProgramMissing path) (fs_canonicalize fs path))"

section \<open>Streams that deliver their content in pieces\<close>

text \<open>
  The contract of \<open>Read\<close>, for a stream without I/O errors: a read returns at most as
  many bytes as asked, and none only at the end.  How the content is cut into pieces is
  left open.
\<close>

definition stream_law :: "'r reader \<Rightarrow> ('r \<Rightarrow> bytes) \<Rightarrow> bool" where
  "stream_law rd content \<longleftrightarrow>
     (\<forall>r n. 0 < n \<longrightarrow>
        (\<exists>bs r1. rd r n = (Inr bs, r1) \<and> length bs \<le> n \<and> content r = bs @ content r1
               \<and> (bs = [] \<longrightarrow> content r = [])))"

text \<open>A stream given as the list of the pieces the writer produced.\<close>

fun chunk_read :: "bytes list reader" where
  "chunk_read [] n = (Inr [], [])"
| "chunk_read (c # cs) n =
     (if c = [] then chunk_read cs n
      else (Inr (take n c), (if length c \<le> n then cs else drop n c # cs)))"

definition vec_write :: "bytes writer" where
  "vec_write w bs = (Inr (), w @ bs)"

lemma chunk_read_law: "stream_law chunk_read concat"
proof -
  have "0 < n \<Longrightarrow> \<exists>bs r1. chunk_read cs n = (Inr bs, r1) \<and> length bs \<le> n
          \<and> concat cs = bs @ concat r1 \<and> (bs = [] \<longrightarrow> concat cs = [])" for cs n
    by (induction cs) auto
  then show ?thesis
    unfolding stream_law_def by blast
qed

lemma stream_lawE:
  assumes "stream_law rd content" "0 < n"
  obtains bs r1 where "rd r n = (Inr bs, r1)" "length bs \<le> n" "content r = bs @ content r1"
    "bs = [] \<longrightarrow> content r = []"
  using assms unfolding stream_law_def by blast

lemma read_piece:
  assumes "length bs \<le> k - length pre" "rest = bs @ rest1"
  shows "(k \<le> length pre + length rest) = (k \<le> length (pre @ bs) + length rest1)"
    and "pre @ take (k - length pre) rest = (pre @ bs) @ take (k - length (pre @ bs)) rest1"
    and "drop (k - length pre) rest = drop (k - length (pre @ bs)) rest1"
    and "length pre + length rest = length (pre @ bs) + length rest1"
  using assms by auto

lemma read_header_exact:
  assumes "stream_law rd content" "length header \<le> 4"
  shows "\<exists>r1. (if 4 \<le> length header + length (content r)
               then read_header rd r header = (Inr (header @ take (4 - length header) (content r)), r1)
                    \<and> content r1 = drop (4 - length header) (content r)
               else read_header rd r header
                      = (Inl (IncompleteRead 4 (length header + length (content r))), r1)
                    \<and> content r1 = [])"
  using assms
proof (induction rd r header rule: read_header.induct)
  case (1 rd r header)
  show ?case
  proof (cases "4 \<le> length header")
    case True
    then show ?thesis
      using 1(3) by (auto simp: read_header.simps [of rd r header])
  next
    case False
    then have "0 < 4 - length header"
      by simp
    then obtain bs r1 where r1: "rd r (4 - length header) = (Inr bs, r1)"
      "length bs \<le> 4 - length header" "content r = bs @ content r1" "bs = [] \<longrightarrow> content r = []"
      by (rule stream_lawE [OF 1(2)])
    show ?thesis
    proof (cases "bs = []")
      case True
      then show ?thesis
        using False r1 by (auto simp: read_header.simps [of rd r header])
    next
      case nonempty: False
      have step: "read_header rd r header = read_header rd r1 (header @ bs)"
        using False nonempty r1 by (simp add: read_header.simps [of rd r header])
      show ?thesis
        using 1(1) [OF False r1(1) [symmetric] refl nonempty 1(2)] r1(2) False
        unfolding step read_piece [OF r1(2,3)] by simp
    qed
  qed
qed

lemma read_payload_exact:
  assumes "stream_law rd content" "length payload \<le> len"
  shows "\<exists>r1. (if len \<le> length payload + length (content r)
               then read_payload rd r len payload
                      = (Inr (payload @ take (len - length payload) (content r)), r1)
                    \<and> content r1 = drop (len - length payload) (content r)
               else read_payload rd r len payload
                      = (Inl (IncompleteRead len (length payload + length (content r))), r1)
                    \<and> content r1 = [])"
  using assms
proof (induction rd r len payload rule: read_payload.induct)
  case (1 rd r len payload)
  show ?case
  proof (cases "len \<le> length payload")
    case True
    then show ?thesis
      using 1(3) by (simp add: read_payload.simps [of rd r "length payload" payload])
  next
    case False
    define k where "k = min 4096 (len - length payload)"
    have "0 < k"
      using False by (simp add: k_def)
    then obtain bs r1 where r1: "rd r k = (Inr bs, r1)" "length bs \<le> k"
      "content r = bs @ content r1" "bs = [] \<longrightarrow> content r = []"
      by (rule stream_lawE [OF 1(2)])
    have k: "k \<le> len - length payload"
      by (simp add: k_def)
    show ?thesis
    proof (cases "bs = []")
      case True
      then show ?thesis
        using False r1 by (auto simp: read_payload.simps [of rd r len payload] k_def)
    next
      case nonempty: False
      have step: "read_payload rd r len payload = read_payload rd r1 len (payload @ bs)"
        using False nonempty r1 by (simp add: read_payload.simps [of rd r len payload] k_def)
      show ?thesis
        using 1(1) [OF False r1(1) [unfolded k_def, symmetric] refl nonempty 1(2)] r1(2) False k
        unfolding step read_piece [OF le_trans [OF r1(2) k] r1(3)] by simp
    qed
  qed
qed

lemmas nil_prefix = list.size(3) append_Nil diff_zero add_0_left le0 simp_thms

section \<open>Frames\<close>

text \<open>What the reader makes of the bytes on the stream, whatever the pieces.\<close>

definition parse_frame :: "('e, 'j) serde \<Rightarrow> bytes \<Rightarrow> IpcError + 'e" where
  "parse_frame sd bs =
     (let len = u32_from_be_bytes (take 4 bs) in
      if length bs < 4 then Inl (IncompleteRead 4 (length bs))
      else if MAX_PAYLOAD_SIZE < len then Inl (PayloadTooLarge len)
      else if length bs - 4 < unat len then Inl (IncompleteRead (unat len) (length bs - 4))
      else deserialize_and_validate sd (take (unat len) (drop 4 bs)))"

definition after_frame :: "bytes \<Rightarrow> bytes" where
  "after_frame bs =
     (let len = u32_from_be_bytes (take 4 bs) in
      if MAX_PAYLOAD_SIZE < len then drop 4 bs else drop (4 + unat len) bs)"

lemma read_envelope_parses:
  assumes "stream_law rd content"
  shows "fst (read_envelope sd rd r) = parse_frame sd (content r)"
    and "4 \<le> length (content r) \<Longrightarrow> content (snd (read_envelope sd rd r)) = after_frame (content r)"
proof -
  obtain r1 where r1: "if 4 \<le> length (content r)
      then read_header rd r [] = (Inr (take 4 (content r)), r1) \<and> content r1 = drop 4 (content r)
      else read_header rd r [] = (Inl (IncompleteRead 4 (length (content r))), r1) \<and> content r1 = []"
    using read_header_exact [OF assms, of "[]" r] unfolding nil_prefix by blast
  define len where "len = u32_from_be_bytes (take 4 (content r))"
  obtain r2 where r2: "if unat len \<le> length (content r1)
      then read_payload rd r1 (unat len) [] = (Inr (take (unat len) (content r1)), r2)
           \<and> content r2 = drop (unat len) (content r1)
      else read_payload rd r1 (unat len) [] = (Inl (IncompleteRead (unat len) (length (content r1))), r2)
           \<and> content r2 = []"
    using read_payload_exact [OF assms, of "[]" "unat len" r1] unfolding nil_prefix by blast
  show "fst (read_envelope sd rd r) = parse_frame sd (content r)"
    using r1 r2 unfolding read_envelope_def parse_frame_def Let_def len_def
    by (auto simp: split: if_splits)
  show "content (snd (read_envelope sd rd r)) = after_frame (content r)" if "4 \<le> length (content r)"
    using that r1 r2 unfolding read_envelope_def after_frame_def Let_def len_def
    by (auto simp: add.commute split: if_splits)
qed

lemma u32_be_roundtrip [simp]: "u32_from_be_bytes (u32_to_be_bytes w) = w"
  using unat_less_2p [of w]
  by (simp add: u32_from_be_bytes_def u32_to_be_bytes_def be_decode_encode)

lemma length_u32_to_be_bytes [simp]: "length (u32_to_be_bytes w) = 4"
  by (simp add: u32_to_be_bytes_def)

lemma write_envelope_vec:
  assumes "write_envelope sd vec_write w e = (Inr (), w1)"
  shows "\<exists>payload. serialize_envelope sd e = Inr payload \<and> length payload \<le> unat MAX_PAYLOAD_SIZE
      \<and> w1 = w @ u32_to_be_bytes (word_of_nat (length payload)) @ payload"
proof -
  obtain payload where p: "serialize_envelope sd e = Inr payload"
    using assms by (auto simp: write_envelope_def split: sum.splits)
  have small: "length payload < 2 ^ 32" "\<not> MAX_PAYLOAD_SIZE < word_of_nat (length payload)"
    using assms p by (auto simp: write_envelope_def Let_def split: if_splits)
  have "length payload \<le> unat MAX_PAYLOAD_SIZE"
    using small by (simp add: not_less word_le_nat_alt unat_of_nat)
  moreover have "w1 = w @ u32_to_be_bytes (word_of_nat (length payload)) @ payload"
    using assms p small by (simp add: write_envelope_def Let_def vec_write_def)
  ultimately show ?thesis
    using p by blast
qed

lemma parse_written_frame:
  assumes "length payload \<le> unat MAX_PAYLOAD_SIZE"
    and "bs = u32_to_be_bytes (word_of_nat (length payload)) @ payload @ rest"
  shows "parse_frame sd bs = deserialize_and_validate sd payload" "after_frame bs = rest"
    "4 \<le> length bs"
proof -
  have small: "length payload < 2 ^ 32"
    using assms(1) by (simp add: MAX_PAYLOAD_SIZE_def)
  then have n: "unat (word_of_nat (length payload) :: u32) = length payload"
    by (simp add: unat_of_nat)
  have le: "\<not> MAX_PAYLOAD_SIZE < word_of_nat (length payload)"
    using assms(1) n by (simp add: not_less word_le_nat_alt)
  show "parse_frame sd bs = deserialize_and_validate sd payload" "after_frame bs = rest"
    "4 \<le> length bs"
    using le n by (simp_all add: assms(2) parse_frame_def after_frame_def)
qed

text \<open>What is written is handed to the decoder as it was encoded, whatever follows it.\<close>

lemma written_frame_read:
  assumes "stream_law rd content" and "write_envelope sd vec_write w e = (Inr (), w @ frame)"
    and "content r = frame @ rest"
  shows "fst (read_envelope sd rd r) = and_then (serialize_envelope sd e) (deserialize_and_validate sd)"
    and "content (snd (read_envelope sd rd r)) = rest"
proof -
  obtain payload where p: "serialize_envelope sd e = Inr payload"
    "length payload \<le> unat MAX_PAYLOAD_SIZE"
    "frame = u32_to_be_bytes (word_of_nat (length payload)) @ payload"
    using write_envelope_vec [OF assms(2)] by auto
  have bs: "content r = u32_to_be_bytes (word_of_nat (length payload)) @ payload @ rest"
    using assms(3) p(3) by simp
  note frame = parse_written_frame [OF p(2) bs]
  show "fst (read_envelope sd rd r) = and_then (serialize_envelope sd e) (deserialize_and_validate sd)"
    using read_envelope_parses(1) [OF assms(1), of sd r] frame(1) p(1) by simp
  show "content (snd (read_envelope sd rd r)) = rest"
    using read_envelope_parses(2) [OF assms(1) frame(3)] frame(2) by simp
qed

lemma u32_be_encode [simp]: "length bs = 4 \<Longrightarrow> u32_to_be_bytes (u32_from_be_bytes bs) = bs"
  using be_decode_less [of bs] be_encode_decode [of bs]
  by (simp add: u32_from_be_bytes_def u32_to_be_bytes_def unat_of_nat)

lemma parse_frame_ok:
  "parse_frame sd bs = Inr e \<longleftrightarrow>
     (\<exists>payload. bs = u32_to_be_bytes (word_of_nat (length payload)) @ payload @ after_frame bs
        \<and> length payload \<le> unat MAX_PAYLOAD_SIZE \<and> deserialize_and_validate sd payload = Inr e)"
proof
  assume ok: "parse_frame sd bs = Inr e"
  define len where "len = u32_from_be_bytes (take 4 bs)"
  have c: "4 \<le> length bs" "len \<le> MAX_PAYLOAD_SIZE" "unat len \<le> length bs - 4"
    "deserialize_and_validate sd (take (unat len) (drop 4 bs)) = Inr e"
    using ok by (auto simp: parse_frame_def Let_def len_def split: if_splits)
  let ?p = "take (unat len) (drop 4 bs)"
  have "u32_to_be_bytes (word_of_nat (length ?p)) = take 4 bs"
    using c(1,3) by (simp add: min_def) (simp add: len_def)
  moreover have "after_frame bs = drop (unat len) (drop 4 bs)"
    using c(2) by (auto simp: after_frame_def Let_def len_def add.commute)
  ultimately have "bs = u32_to_be_bytes (word_of_nat (length ?p)) @ ?p @ after_frame bs"
    by (simp only: append_take_drop_id)
  then show "\<exists>payload. bs = u32_to_be_bytes (word_of_nat (length payload)) @ payload @ after_frame bs
        \<and> length payload \<le> unat MAX_PAYLOAD_SIZE \<and> deserialize_and_validate sd payload = Inr e"
    using c by (intro exI [of _ ?p]) (auto simp: word_le_nat_alt)
next
  assume "\<exists>payload. bs = u32_to_be_bytes (word_of_nat (length payload)) @ payload @ after_frame bs
        \<and> length payload \<le> unat MAX_PAYLOAD_SIZE \<and> deserialize_and_validate sd payload = Inr e"
  then show "parse_frame sd bs = Inr e" using parse_written_frame(1) by metis
qed

section \<open>What the engine accepts\<close>

text \<open>
  The rules of the debug build, for the fields an object has: the version is the number 1
  and the identifiers are texts of one or more alphanumeric characters.
\<close>

definition schema_ok :: "('e, 'j) serde \<Rightarrow> 'j \<Rightarrow> bool" where
  "schema_ok sd v \<longleftrightarrow>
     (\<forall>obj. as_object (sd_json sd) v = Some obj \<longrightarrow>
        (\<forall>j. obj ''version'' = Some j \<longrightarrow> as_u64 (sd_json sd) j = Some 1)
        \<and> (\<forall>field \<in> {''instance_id'', ''node_id''}. \<forall>j. obj field = Some j \<longrightarrow>
             (\<exists>i. as_str (sd_json sd) j = Some i \<and> i \<noteq> [] \<and> sd_alphanumeric sd i)))"

lemma validate_id_field_ok:
  "validate_id_field sd obj field = Inr () \<longleftrightarrow>
     (\<forall>j. obj field = Some j \<longrightarrow> (\<exists>i. as_str (sd_json sd) j = Some i \<and> i \<noteq> [] \<and> sd_alphanumeric sd i))"
  by (auto simp: validate_id_field_def split: option.splits)

lemma validate_version_ok:
  "validate_version sd obj = Inr () \<longleftrightarrow> (\<forall>j. obj ''version'' = Some j \<longrightarrow> as_u64 (sd_json sd) j = Some 1)"
  by (auto simp: validate_version_def split: option.splits)

lemma validate_json_schema_ok: "validate_json_schema sd v = Inr () \<longleftrightarrow> schema_ok sd v"
proof (cases "as_object (sd_json sd) v")
  case (Some obj)
  have "and_then a (\<lambda>_. and_then b (\<lambda>_. c)) = Inr () \<longleftrightarrow> a = Inr () \<and> b = Inr () \<and> c = Inr ()"
    for a b c :: "IpcError + unit"
    by (cases a; cases b) auto
  then show ?thesis
    using Some by (simp add: validate_json_schema_def schema_ok_def validate_version_ok validate_id_field_ok)
qed (simp add: validate_json_schema_def schema_ok_def)

lemma deserialize_ok:
  "deserialize_and_validate sd payload = Inr e \<longleftrightarrow>
     (if sd_debug sd
      then \<exists>v. sd_json_from_slice sd payload = Inr v \<and> schema_ok sd v \<and> sd_json_from_value sd v = Inr e
      else sd_postcard_from_bytes sd payload = Inr e)"
proof (cases "sd_debug sd")
  case True
  have "and_then a (\<lambda>_. b) = Inr e \<longleftrightarrow> a = Inr () \<and> b = Inr e" for a :: "IpcError + unit" and b
    by (cases a) auto
  moreover have "map_err f x = Inr e \<longleftrightarrow> x = Inr e" for f :: "bool \<times> string \<Rightarrow> IpcError" and x
    by (cases x) auto
  ultimately show ?thesis
    using True
    by (cases "sd_json_from_slice sd payload") (simp_all add: deserialize_and_validate_def validate_json_schema_ok)
next
  case False
  then show ?thesis
    by (cases "sd_postcard_from_bytes sd payload") (simp_all add: deserialize_and_validate_def)
qed

lemma engine_receive_from_stream:
  assumes "stream_law rd content"
  shows "fst (engine_receive_envelope sd rd r i n)
      = and_then (parse_frame sd (content r)) (\<lambda>e.
          if f4_instance_id e = i \<and> f4_node_id e = n then Inr e
          else Inl (IdentityMismatch i n (f4_instance_id e) (f4_node_id e)))"
    and "snd (engine_receive_envelope sd rd r i n) = snd (read_envelope sd rd r)"
  unfolding engine_receive_envelope_def read_envelope_parses(1) [OF assms, symmetric]
  by (cases "read_envelope sd rd r"; cases "fst (read_envelope sd rd r)";
      simp add: validate_identity_def)+

text \<open>
  (C21) Reading a frame does not depend on how the stream is cut into pieces, and every
  failure is the one the code names: fewer than four bytes, a length above ten megabytes
  (refused before any of the payload is read), a payload that ends early, with the exact
  numbers of expected and received bytes; the bytes behind the frame stay on the stream.
\<close>

theorem read_envelope_exact:
  assumes "stream_law rd content"
  shows "fst (read_envelope sd rd r) =
      (let bs = content r; len = u32_from_be_bytes (take 4 bs) in
       if length bs < 4 then Inl (IncompleteRead 4 (length bs))
       else if 10485760 < unat len then Inl (PayloadTooLarge len)
       else if length bs - 4 < unat len then Inl (IncompleteRead (unat len) (length bs - 4))
       else deserialize_and_validate sd (take (unat len) (drop 4 bs)))
    \<and> (4 \<le> length (content r) \<longrightarrow>
        content (snd (read_envelope sd rd r)) =
          (let bs = content r; len = u32_from_be_bytes (take 4 bs) in
           if 10485760 < unat len then drop 4 bs else drop (4 + unat len) bs))"
proof -
  have limit: "MAX_PAYLOAD_SIZE < len \<longleftrightarrow> 10485760 < unat len" for len
    by (simp add: MAX_PAYLOAD_SIZE_def word_less_nat_alt)
  show ?thesis
    using read_envelope_parses(1) [OF assms, of sd r] read_envelope_parses(2) [OF assms, of r sd]
    by (simp add: parse_frame_def after_frame_def limit Let_def)
qed

definition demo_json :: "nat json_api" where
  "demo_json =
     \<lparr>json_variant_of = (\<lambda>v. if v = 0 then JObject else if v = 1 then JNumber else JString),
      as_object = (\<lambda>v. if v = 0
        then Some [''version'' \<mapsto> 1, ''instance_id'' \<mapsto> 2, ''node_id'' \<mapsto> 3] else None),
      as_str = (\<lambda>v. if v = 2 then Some ''i1'' else if v = 3 then Some ''n1'' else None),
      as_u64 = (\<lambda>v. if v = 1 then Some 1 else None),
      null_value = 4\<rparr>"

definition demo_envelope :: "nat Fd4Envelope" where
  "demo_envelope =
     \<lparr>f4_version = 1, f4_instance_id = ''i1'', f4_node_id = ''n1'', f4_result = Task_Success 4\<rparr>"

definition demo_serde :: "bool \<Rightarrow> (nat Fd4Envelope, nat) serde" where
  "demo_serde debug =
     \<lparr>sd_debug = debug,
      sd_json_to_vec = (\<lambda>e. Inr [7, 8]),
      sd_json_from_slice = (\<lambda>bs. if bs = [7, 8] then Inr 0 else Inl ''EOF while parsing a value''),
      sd_json_from_value = (\<lambda>v. if v = 0 then Inr demo_envelope else Inl (True, ''invalid type'')),
      sd_postcard_to_vec = (\<lambda>e. Inr [9]),
      sd_postcard_from_bytes = (\<lambda>bs. Inl ''This is a feature that postcard will never implement''),
      sd_json = demo_json,
      sd_alphanumeric = list_all (\<lambda>c. c \<in> set ''abcdefghijklmnopqrstuvwxyz0123456789'')\<rparr>"

theorem read_envelope_exact_witness:
  "fst (read_envelope (demo_serde True) chunk_read [[0, 0], [0], [], [3, 7], [8]])
     = Inl (IncompleteRead 3 2)
   \<and> fst (read_envelope (demo_serde True) chunk_read [[0, 160], [0, 1, 7]])
     = Inl (PayloadTooLarge 10485761)
   \<and> concat (snd (read_envelope (demo_serde True) chunk_read [[0, 0, 0], [2, 7], [8, 5]])) = [5]"
  using read_envelope_exact [OF chunk_read_law, of "demo_serde True" "[[0, 0], [0], [], [3, 7], [8]]"]
    read_envelope_exact [OF chunk_read_law, of "demo_serde True" "[[0, 160], [0, 1, 7]]"]
    read_envelope_exact [OF chunk_read_law, of "demo_serde True" "[[0, 0, 0], [2, 7], [8, 5]]"]
  by (simp add: u32_from_be_bytes_def be_decode_def)

text \<open>
  (C20) What the engine accepts from a worker.  Over any cut of the stream, the engine
  returns an envelope exactly if the stream starts with a frame of at most ten megabytes
  whose payload the build's decoder turns into this envelope, the envelope carries the
  instance and the node the engine expects, and, in a debug build, the JSON value of the
  payload obeys the rules: where it is an object with these fields, its version is the
  number 1 and its instance and node identifiers are not empty and alphanumeric.  So no
  result is accepted for another instance or node in any build; a debug build accepts no
  identifier such as \<open>n-1\<close>, which the rest of the system allows, and a release build
  looks at no field but the two it compares.  What follows the frame stays on the stream.
\<close>

theorem engine_accepts_exactly:
  assumes "stream_law rd content"
  shows "fst (engine_receive_envelope sd rd r i n) = Inr e \<longleftrightarrow>
     f4_instance_id e = i \<and> f4_node_id e = n
     \<and> (\<exists>payload.
          content r = u32_to_be_bytes (word_of_nat (length payload)) @ payload
                        @ content (snd (engine_receive_envelope sd rd r i n))
          \<and> length payload \<le> 10485760
          \<and> (if sd_debug sd
             then \<exists>v. sd_json_from_slice sd payload = Inr v \<and> schema_ok sd v \<and> sd_json_from_value sd v = Inr e
             else sd_postcard_from_bytes sd payload = Inr e))"
proof -
  let ?rest = "content (snd (engine_receive_envelope sd rd r i n))"
  have max: "unat MAX_PAYLOAD_SIZE = 10485760" by (simp add: MAX_PAYLOAD_SIZE_def)
  have rest: "?rest = after_frame (content r)" if "4 \<le> length (content r)"
    using read_envelope_parses(2) [OF assms that] engine_receive_from_stream(2) [OF assms] by metis
  have frame: "content r = u32_to_be_bytes (word_of_nat (length p)) @ p @ ?rest \<longleftrightarrow>
      content r = u32_to_be_bytes (word_of_nat (length p)) @ p @ after_frame (content r)" for p
    using rest by (cases "4 \<le> length (content r)") (simp, metis length_append length_u32_to_be_bytes le_add1)
  have "fst (engine_receive_envelope sd rd r i n) = Inr e \<longleftrightarrow>
      f4_instance_id e = i \<and> f4_node_id e = n \<and> parse_frame sd (content r) = Inr e"
    by (cases "parse_frame sd (content r)") (auto simp: engine_receive_from_stream(1) [OF assms] split: if_splits)
  also have "\<dots> \<longleftrightarrow> f4_instance_id e = i \<and> f4_node_id e = n
      \<and> (\<exists>p. content r = u32_to_be_bytes (word_of_nat (length p)) @ p @ ?rest
           \<and> length p \<le> 10485760 \<and> deserialize_and_validate sd p = Inr e)"
    unfolding parse_frame_ok frame max ..
  finally show ?thesis unfolding deserialize_ok .
qed

lemma demo_header: "u32_to_be_bytes 2 = [0, 0, 0, 2]"
proof -
  have four: "(4 :: nat) = Suc (Suc (Suc (Suc 0)))"
    by simp
  show ?thesis
    unfolding u32_to_be_bytes_def four by simp
qed

lemma demo_rest: "concat (snd (engine_receive_envelope (demo_serde True) chunk_read [[0, 0], [0, 2, 7], [8, 5]] i n)) = [5]"
proof -
  have bytes: "u32_from_be_bytes (take 4 (concat [[0, 0], [0, 2, 7], [8, 5]])) = 2"
    by (simp add: u32_from_be_bytes_def be_decode_def)
  have "4 \<le> length (concat [[0, 0], [0, 2, 7], [8, 5 :: u8]])"
    by simp
  from read_envelope_parses(2) [OF chunk_read_law this, of "demo_serde True"] show ?thesis
    unfolding engine_receive_from_stream(2) [OF chunk_read_law] after_frame_def bytes Let_def
    by (simp add: MAX_PAYLOAD_SIZE_def)
qed

theorem engine_accepts_exactly_witness:
  "fst (engine_receive_envelope (demo_serde True) chunk_read [[0, 0], [0, 2, 7], [8, 5]] ''i1'' ''n1'')
     = Inr demo_envelope
   \<and> fst (engine_receive_envelope (demo_serde True) chunk_read [[0, 0], [0, 2, 7], [8, 5]] ''i1'' ''n2'')
     \<noteq> Inr demo_envelope"
proof -
  have "schema_ok (demo_serde True) 0"
    by (auto simp: schema_ok_def demo_serde_def demo_json_def)
  moreover have "sd_json_from_slice (demo_serde True) [7, 8] = Inr 0"
    "sd_json_from_value (demo_serde True) 0 = Inr demo_envelope" "sd_debug (demo_serde True)"
    by (simp_all add: demo_serde_def)
  moreover have "concat [[0, 0], [0, 2, 7], [8, 5]] = u32_to_be_bytes (word_of_nat (length [7, 8 :: u8])) @ [7, 8] @ [5]"
    by (simp add: demo_header)
  moreover have "length [7, 8 :: u8] \<le> 10485760" "f4_instance_id demo_envelope = ''i1''" "f4_node_id demo_envelope = ''n1''"
    by (simp_all add: demo_envelope_def)
  ultimately have "fst (engine_receive_envelope (demo_serde True) chunk_read [[0, 0], [0, 2, 7], [8, 5]] ''i1'' ''n1'')
     = Inr demo_envelope"
    using engine_accepts_exactly [OF chunk_read_law, of "demo_serde True" "[[0, 0], [0, 2, 7], [8, 5]]" "''i1''" "''n1''"]
    unfolding demo_rest by fastforce
  moreover have "fst (engine_receive_envelope (demo_serde True) chunk_read [[0, 0], [0, 2, 7], [8, 5]] ''i1'' ''n2'')
     \<noteq> Inr demo_envelope"
    using engine_accepts_exactly [OF chunk_read_law, of "demo_serde True" "[[0, 0], [0, 2, 7], [8, 5]]" "''i1''" "''n2''"]
    by (simp add: demo_envelope_def)
  ultimately show ?thesis
    by blast
qed

section \<open>Properties of the capture\<close>

definition raw_capture :: "bytes \<Rightarrow> StderrCapture" where
  "raw_capture out =
     \<lparr>sc_bytes = take MAX_STDERR_BYTES out, sc_truncated = (MAX_STDERR_BYTES < length out),
      sc_observed_bytes = length out\<rparr>"

lemma update_raw_capture: "update_capture (raw_capture out) bs = raw_capture (out @ bs)"
  by (auto simp: update_capture_def raw_capture_def Let_def min_def)

lemma finalize_capture_idem: "finalize_capture (finalize_capture c) = finalize_capture c"
  by (auto simp: finalize_capture_def ends_with_def)

lemma read_bounded_loop_exact:
  assumes "stream_law rd content" "length (content r) < fuel"
  shows "\<exists>r1. read_bounded_loop fuel rd r (raw_capture out)
             = Some (Inr (finalize_capture (raw_capture (out @ content r))), r1) \<and> content r1 = []"
  using assms
proof (induction fuel arbitrary: r out)
  case (Suc fuel)
  obtain bs r1 where r1: "rd r 4096 = (Inr bs, r1)" "length bs \<le> 4096"
    "content r = bs @ content r1" "bs = [] \<longrightarrow> content r = []"
    by (rule stream_lawE [OF Suc.prems(1), of 4096 r]) simp
  show ?case
  proof (cases "bs = []")
    case True
    then show ?thesis
      using r1 by auto
  next
    case False
    then have "length (content r1) < fuel"
      using r1(3) Suc.prems(2) by (cases bs) auto
    from Suc.IH [OF Suc.prems(1) this, of "out @ bs"] show ?thesis
      using r1 False by (simp add: update_raw_capture)
  qed
qed simp

text \<open>
  Capturing a worker's output returns for every output that ends, whatever pieces it
  comes in: the first mebibyte is kept exactly, the rest is counted and marked, and the
  captured text never exceeds that limit by more than the marker.
\<close>

theorem capture_exact:
  assumes "stream_law rd content" "length (content r) < fuel"
  shows "\<exists>c r1. read_bounded_stderr fuel rd r = Some (Inr c, r1) \<and> content r1 = []
    \<and> take MAX_STDERR_BYTES (sc_bytes c) = take MAX_STDERR_BYTES (content r)
    \<and> sc_truncated c = (MAX_STDERR_BYTES < length (content r))
    \<and> sc_observed_bytes c = length (content r)
    \<and> length (sc_bytes c) \<le> MAX_STDERR_BYTES + length TRUNCATION_MARKER
    \<and> (if sc_truncated c then ends_with (sc_bytes c) TRUNCATION_MARKER else sc_bytes c = content r)"
proof -
  let ?c = "finalize_capture (raw_capture (content r))"
  have start: "StderrCapture_empty = raw_capture []"
    by (simp add: StderrCapture_empty_def raw_capture_def)
  obtain r1 where "read_bounded_stderr fuel rd r = Some (Inr ?c, r1)" "content r1 = []"
    using read_bounded_loop_exact [OF assms, of "[]"] by (auto simp: read_bounded_stderr_def start)
  moreover have "take MAX_STDERR_BYTES (sc_bytes ?c) = take MAX_STDERR_BYTES (content r)"
    "sc_truncated ?c = (MAX_STDERR_BYTES < length (content r))"
    "sc_observed_bytes ?c = length (content r)"
    "length (sc_bytes ?c) \<le> MAX_STDERR_BYTES + length TRUNCATION_MARKER"
    "if sc_truncated ?c then ends_with (sc_bytes ?c) TRUNCATION_MARKER else sc_bytes ?c = content r"
    by (auto simp: finalize_capture_def raw_capture_def ends_with_def min_def)
  ultimately show ?thesis
    by blast
qed

theorem capture_exact_witness:
  "\<exists>r1. read_bounded_stderr 4 chunk_read [[1, 2], [], [3]]
     = Some (Inr \<lparr>sc_bytes = [1, 2, 3], sc_truncated = False, sc_observed_bytes = 3\<rparr>, r1)"
proof -
  obtain c r1 where "read_bounded_stderr 4 chunk_read [[1, 2], [], [3]] = Some (Inr c, r1)"
    "sc_truncated c = (MAX_STDERR_BYTES < 3)" "sc_observed_bytes c = 3"
    "if sc_truncated c then ends_with (sc_bytes c) TRUNCATION_MARKER else sc_bytes c = [1, 2, 3]"
    using capture_exact [OF chunk_read_law, of "[[1, 2], [], [3]]" 4] by auto
  then show ?thesis
    by (cases c) (simp add: MAX_STDERR_BYTES_def)
qed

section \<open>Back pressure and configuration\<close>

lemma backpressure_write_prefix:
  "case backpressure_write pr vec_write payload offset s w of
     (res, s1, w1) \<Rightarrow>
       \<exists>k. w1 = w @ take k (drop offset payload) \<and> (res = Inr () \<longleftrightarrow> length payload \<le> offset + k)"
proof (induction pr "vec_write" payload offset s w rule: backpressure_write.induct)
  case (1 pr payload offset s w)
  show ?case
  proof (cases "length payload \<le> offset")
    case True
    then show ?thesis
      by (auto simp: backpressure_write.simps [of pr vec_write payload offset])
  next
    case more: False
    obtain res s1 where gate: "await_pressure pr s = (res, s1)"
      by fastforce
    show ?thesis
    proof (cases res)
      case (Inl e)
      then show ?thesis
        using gate more
        by (auto simp: backpressure_write.simps [of pr vec_write payload offset] intro!: exI [of _ 0])
    next
      case (Inr u)
      define chunk_end where "chunk_end = min (offset + CHUNK_SIZE) (length payload)"
      have bounds: "offset \<le> chunk_end" "chunk_end \<le> length payload"
        using more by (auto simp: chunk_end_def)
      let ?w = "w @ take (chunk_end - offset) (drop offset payload)"
      have step: "backpressure_write pr vec_write payload offset s w
          = backpressure_write pr vec_write payload chunk_end s1 ?w"
        using gate more Inr
        by (simp add: backpressure_write.simps [of pr vec_write payload offset] vec_write_def
            chunk_end_def Let_def)
      obtain res1 s2 w2 where out: "backpressure_write pr vec_write payload chunk_end s1 ?w = (res1, s2, w2)"
        by (metis prod_cases3)
      have "\<exists>k. w2 = ?w @ take k (drop chunk_end payload) \<and> (res1 = Inr () \<longleftrightarrow> length payload \<le> chunk_end + k)"
        using 1 [OF more gate [symmetric] Inr chunk_end_def vec_write_def [symmetric] refl] out
        by simp
      then obtain k where k: "w2 = ?w @ take k (drop chunk_end payload)"
        "res1 = Inr () \<longleftrightarrow> length payload \<le> chunk_end + k"
        by blast
      have "take (chunk_end - offset) (drop offset payload) @ take k (drop chunk_end payload)
          = take (chunk_end - offset + k) (drop offset payload)"
        unfolding take_add using bounds by simp
      then show ?thesis
        unfolding step out using k bounds by (auto intro!: exI [of _ "chunk_end - offset + k"])
    qed
  qed
qed

lemma SubprocessConfig_new_ok_iff:
  "is_ok (SubprocessConfig_new fs path t payload) \<longleftrightarrow>
     t \<noteq> 0 \<and> fs_exists fs path \<and> fs_canonicalize fs path \<noteq> None
     \<and> (\<exists>mode. fs_metadata fs path = Some (True, mode) \<and> mode AND 73 \<noteq> 0)"
  by (cases "fs_canonicalize fs path")
     (auto simp: SubprocessConfig_new_def validate_timeout_def validate_program_path_def
       split: option.splits prod.splits)

end
