(* ===== verification/Job_Queue.thy ===== *)
theory Job_Queue
  imports Ids Graphs Lifecycle "HOL-Library.AList" "HOL-Library.Multiset"
begin

text \<open>
  Background jobs (vo-scheduler/src/types, queue.rs, api.rs): schedules, retry policies,
  the state machine of a job, and the queue that holds the jobs of a scheduler in a
  binary heap beside a hash table.  Times are nanoseconds; every reading of the clock is
  an argument.
\<close>

section \<open>What the crates provide\<close>

text \<open>
  Points in time and durations are integers of nanoseconds.  \<open>se_backoff\<close> is
  \<open>RetryPolicy::compute_backoff\<close>, whose result comes from floating point numbers, and
  \<open>se_below_one\<close> is the comparison of a double, given by its bits, with one.
  \<open>se_from_std\<close> converts a duration of the standard library to one of chrono.
\<close>

type_synonym time = int
type_synonym duration = nat
type_synonym JobId = u128

record JobRetryPolicy =
  jr_max_attempts :: u32
  jr_backoff_multiplier :: u64
  jr_initial_delay :: duration
  jr_max_delay :: duration

record sched_env =
  se_ulid_text :: "JobId \<Rightarrow> string"
  se_backoff :: "JobRetryPolicy \<Rightarrow> u32 \<Rightarrow> duration"
  se_from_std :: "duration \<Rightarrow> string + int"
  se_below_one :: "u64 \<Rightarrow> bool"

section \<open>Jobs\<close>

datatype SchedulerError =
    JobNotFound string
  | QueueFull
  | SchedulerStopped
  | InvalidSchedule string
  | ConcurrencyLimitReached
  | StorageError string
  | Job_InvalidTransition string string
  | Job_SerializationError string
  | InvalidJobId string

datatype JobState =
    Job_Scheduled | Job_Pending | Job_Running | Job_Completed | Job_Failed | Job_Cancelled
  | Job_Retrying

fun job_is_terminal :: "JobState \<Rightarrow> bool" where
  "job_is_terminal s = (s \<in> {Job_Completed, Job_Failed, Job_Cancelled})"

fun job_state_text :: "JobState \<Rightarrow> string" where
  "job_state_text Job_Scheduled = ''scheduled''"
| "job_state_text Job_Pending = ''pending''"
| "job_state_text Job_Running = ''running''"
| "job_state_text Job_Completed = ''completed''"
| "job_state_text Job_Failed = ''failed''"
| "job_state_text Job_Cancelled = ''cancelled''"
| "job_state_text Job_Retrying = ''retrying''"

fun to_lifecycle :: "JobState \<Rightarrow> LifecycleState" where
  "to_lifecycle Job_Scheduled = LifecycleState.Pending"
| "to_lifecycle Job_Pending = LifecycleState.StepScheduled"
| "to_lifecycle Job_Running = StepExecuting"
| "to_lifecycle Job_Completed = Completed"
| "to_lifecycle Job_Failed = Failed"
| "to_lifecycle Job_Cancelled = Cancelled"
| "to_lifecycle Job_Retrying = WaitingForTimer"

datatype JobKind = OneShot | Recurring | Delayed

datatype JobPriority = Critical | High | Normal | Low | Background

fun priority_rank :: "JobPriority \<Rightarrow> nat" where
  "priority_rank Critical = 0"
| "priority_rank High = 1"
| "priority_rank Normal = 2"
| "priority_rank Low = 3"
| "priority_rank Background = 4"

datatype SchedulePolicy = At time | After duration | Cron string | Immediate

subsection \<open>Cron expressions\<close>

text \<open>\<open>char::is_whitespace\<close> on UTF-8: the length of the white space a text starts with.\<close>

fun white_len :: "nat list \<Rightarrow> nat" where
  "white_len (a # bs) =
     (if 9 \<le> a \<and> a \<le> 13 \<or> a = 32 then 1
      else if a = 194 \<and> bs \<noteq> [] \<and> hd bs \<in> {133, 160} then 2
      else if a = 225 \<and> take 2 bs = [154, 128] then 3
      else if a = 226 \<and> take 1 bs = [128] \<and> 2 \<le> length bs
              \<and> (128 \<le> bs ! 1 \<and> bs ! 1 \<le> 138 \<or> bs ! 1 \<in> {168, 169, 175}) then 3
      else if a = 226 \<and> take 2 bs = [129, 159] then 3
      else if a = 227 \<and> take 2 bs = [128, 128] then 3
      else 0)"
| "white_len [] = 0"

function split_white :: "string \<Rightarrow> string \<Rightarrow> string list" where
  "split_white word s =
     (if s = [] then (if word = [] then [] else [word])
      else
        (let n = white_len (map code s) in
         if n = 0 then split_white (word @ [hd s]) (tl s)
         else (if word = [] then [] else [word]) @ split_white [] (drop n s)))"
  by pat_completeness auto

termination
  by (relation "measure (\<lambda>(word, s). length s)") (auto simp: neq_Nil_conv)

declare split_white.simps [simp del]

definition split_whitespace :: "string \<Rightarrow> string list" where
  "split_whitespace s = split_white [] s"

definition str_parse_u32 :: "string \<Rightarrow> u32 option" where
  "str_parse_u32 s =
     (let ds = (if take 1 s = ''+'' then drop 1 s else s) in
      if ds = [] then None
      else (case digits_value 0 ds of
              None \<Rightarrow> None
            | Some n \<Rightarrow> if n < 2 ^ 32 then Some (word_of_nat n) else None))"

fun split_once_hyphen :: "string \<Rightarrow> (string \<times> string) option" where
  "split_once_hyphen [] = None"
| "split_once_hyphen (c # cs) =
     (if c = CHR ''-'' then Some ([], cs)
      else map_option (\<lambda>(a, b). (c # a, b)) (split_once_hyphen cs))"

definition invalid_schedule :: SchedulerError where
  "invalid_schedule = InvalidSchedule ''invalid schedule''"

definition validate_cron_field :: "string \<Rightarrow> u32 \<Rightarrow> u32 \<Rightarrow> SchedulerError + bool" where
  "validate_cron_field field lo hi =
     (if field = ''*'' then Inr True
      else if take 2 field = ''*/'' then
        and_then (ok_or invalid_schedule (str_parse_u32 (drop 2 field))) (\<lambda>step.
          if step = 0 \<or> hi < step then Inl invalid_schedule else Inr True)
      else
        (case split_once_hyphen field of
           Some (s, e) \<Rightarrow>
             and_then (ok_or invalid_schedule (str_parse_u32 s)) (\<lambda>start.
             and_then (ok_or invalid_schedule (str_parse_u32 e)) (\<lambda>stop.
               if start < lo \<or> hi < stop \<or> stop < start then Inl invalid_schedule else Inr True))
         | None \<Rightarrow>
             (case str_parse_u32 field of
                Some val \<Rightarrow> if lo \<le> val \<and> val \<le> hi then Inr True else Inl invalid_schedule
              | None \<Rightarrow> Inl invalid_schedule)))"

definition validate_cron :: "string \<Rightarrow> SchedulerError + unit" where
  "validate_cron expr =
     (case split_whitespace expr of
        [f0, f1, f2, f3, f4] \<Rightarrow>
          and_then (validate_cron_field f0 0 59) (\<lambda>minute_valid.
          and_then (validate_cron_field f1 0 23) (\<lambda>hour_valid.
          and_then (validate_cron_field f2 1 31) (\<lambda>day_of_month_valid.
          and_then (validate_cron_field f3 1 12) (\<lambda>month_valid.
          and_then (validate_cron_field f4 0 6) (\<lambda>day_of_week_valid.
            if minute_valid \<and> hour_valid \<and> day_of_month_valid \<and> month_valid \<and> day_of_week_valid
            then Inr () else Inl invalid_schedule)))))
      | _ \<Rightarrow> Inl invalid_schedule)"

subsection \<open>Retry policies\<close>

datatype JobRetryPolicyError =
    MaxAttemptsZero | BackoffMultiplierBelowOne u64 | InitialDelayZero | MaxDelayBelowInitial

definition JobRetryPolicy_try_new ::
  "sched_env \<Rightarrow> u32 \<Rightarrow> u64 \<Rightarrow> duration \<Rightarrow> duration \<Rightarrow> JobRetryPolicyError + JobRetryPolicy" where
  "JobRetryPolicy_try_new env max_attempts backoff_multiplier initial_delay max_delay =
     (if max_attempts = 0 then Inl MaxAttemptsZero
      else if se_below_one env backoff_multiplier then Inl (BackoffMultiplierBelowOne backoff_multiplier)
      else if initial_delay = 0 then Inl InitialDelayZero
      else if max_delay < initial_delay then Inl MaxDelayBelowInitial
      else Inr \<lparr>jr_max_attempts = max_attempts, jr_backoff_multiplier = backoff_multiplier,
                jr_initial_delay = initial_delay, jr_max_delay = max_delay\<rparr>)"

definition can_retry :: "JobRetryPolicy \<Rightarrow> u32 \<Rightarrow> bool" where
  "can_retry p attempt_count \<longleftrightarrow> attempt_count < jr_max_attempts p"

subsection \<open>The state machine of a job\<close>

record ScheduledJob =
  sj_id :: JobId
  sj_kind :: JobKind
  sj_state :: JobState
  sj_priority :: JobPriority
  sj_schedule_policy :: SchedulePolicy
  sj_retry_policy :: JobRetryPolicy
  sj_attempt_count :: u32
  sj_due_at :: time
  sj_payload :: bytes
  sj_last_error :: "string option"
  sj_created_at :: time
  sj_updated_at :: time

text \<open>\<open>gen\<close> is the generated identifier and \<open>now\<close> the single reading of the clock.\<close>

definition ScheduledJob_new ::
  "sched_env \<Rightarrow> JobId \<Rightarrow> time \<Rightarrow> JobKind \<Rightarrow> JobPriority \<Rightarrow> SchedulePolicy \<Rightarrow> JobRetryPolicy \<Rightarrow> bytes
     \<Rightarrow> SchedulerError + ScheduledJob" where
  "ScheduledJob_new env gen now kind priority schedule_policy retry_policy payload =
     and_then (case schedule_policy of Cron expression \<Rightarrow> validate_cron expression | _ \<Rightarrow> Inr ()) (\<lambda>_.
     and_then
       (case schedule_policy of
          At t \<Rightarrow> Inr t
        | After d \<Rightarrow> and_then (map_err InvalidSchedule (se_from_std env d)) (\<lambda>dd. Inr (now + dd))
        | Immediate \<Rightarrow> Inr now
        | Cron expression \<Rightarrow> Inr now) (\<lambda>due_at.
       Inr \<lparr>sj_id = gen, sj_kind = kind,
            sj_state = (if due_at \<le> now then Job_Pending else Job_Scheduled),
            sj_priority = priority, sj_schedule_policy = schedule_policy,
            sj_retry_policy = retry_policy, sj_attempt_count = 0, sj_due_at = due_at,
            sj_payload = payload, sj_last_error = None, sj_created_at = now, sj_updated_at = now\<rparr>))"

fun job_valid :: "JobKind \<Rightarrow> JobState \<Rightarrow> JobState \<Rightarrow> bool" where
  "job_valid k Job_Scheduled Job_Pending = True"
| "job_valid k Job_Scheduled Job_Cancelled = True"
| "job_valid k Job_Pending Job_Running = True"
| "job_valid k Job_Pending Job_Cancelled = True"
| "job_valid k Job_Running Job_Completed = True"
| "job_valid k Job_Running Job_Failed = True"
| "job_valid k Job_Running Job_Cancelled = True"
| "job_valid k Job_Failed Job_Retrying = True"
| "job_valid k Job_Retrying Job_Pending = True"
| "job_valid k Job_Retrying Job_Cancelled = True"
| "job_valid k Job_Completed Job_Scheduled = (k = Recurring)"
| "job_valid k _ _ = False"

definition job_transition :: "ScheduledJob \<Rightarrow> JobState \<Rightarrow> time \<Rightarrow> SchedulerError + ScheduledJob" where
  "job_transition job new_state now =
     (if \<not> job_valid (sj_kind job) (sj_state job) new_state
      then Inl (Job_InvalidTransition (job_state_text (sj_state job)) (job_state_text new_state))
      else Inr (job\<lparr>sj_state := new_state, sj_updated_at := now\<rparr>))"

text \<open>\<open>unwrap_or_default\<close> of the converted backoff; \<open>now1\<close> and \<open>now2\<close> are the two readings.\<close>

definition backoff_or :: "sched_env \<Rightarrow> int \<Rightarrow> JobRetryPolicy \<Rightarrow> u32 \<Rightarrow> int" where
  "backoff_or env default_delay p attempt =
     (case se_from_std env (se_backoff env p attempt) of Inl _ \<Rightarrow> default_delay | Inr d \<Rightarrow> d)"

definition transition_to_retrying ::
  "sched_env \<Rightarrow> ScheduledJob \<Rightarrow> string \<Rightarrow> time \<Rightarrow> time \<Rightarrow> SchedulerError + ScheduledJob" where
  "transition_to_retrying env job error now1 now2 =
     (if sj_state job \<noteq> Job_Running
      then Inl (Job_InvalidTransition (job_state_text (sj_state job)) ''transition_to_retrying'')
      else
        (let next_attempt = sj_attempt_count job + 1 in
         if \<not> can_retry (sj_retry_policy job) next_attempt
         then Inl (Job_InvalidTransition (job_state_text (sj_state job)) ''transition_to_retrying'')
         else Inr (job\<lparr>sj_attempt_count := next_attempt, sj_state := Job_Retrying,
                       sj_due_at := now1 + backoff_or env 0 (sj_retry_policy job) next_attempt,
                       sj_last_error := Some error, sj_updated_at := now2\<rparr>)))"

definition apply_retryable_failure ::
  "sched_env \<Rightarrow> ScheduledJob \<Rightarrow> string \<Rightarrow> time \<Rightarrow> time \<Rightarrow> SchedulerError + ScheduledJob" where
  "apply_retryable_failure env job error now1 now2 =
     (if sj_state job \<noteq> Job_Running \<and> sj_state job \<noteq> Job_Failed
      then Inl (Job_InvalidTransition (job_state_text (sj_state job)) ''apply_retryable_failure'')
      else if \<not> can_retry (sj_retry_policy job) (sj_attempt_count job)
      then Inl (Job_InvalidTransition (job_state_text (sj_state job)) ''apply_retryable_failure'')
      else
        (let attempt = sj_attempt_count job + 1 in
         Inr (job\<lparr>sj_attempt_count := attempt, sj_state := Job_Retrying,
                  sj_due_at := now1 + backoff_or env 0 (sj_retry_policy job) attempt,
                  sj_last_error := Some error, sj_updated_at := now2\<rparr>)))"

section \<open>The queue\<close>

record QueueEntry =
  qe_priority :: JobPriority
  qe_due_at :: time
  qe_job_id :: JobId

definition entry_less :: "QueueEntry \<Rightarrow> QueueEntry \<Rightarrow> bool" where
  "entry_less a b \<longleftrightarrow>
     priority_rank (qe_priority a) < priority_rank (qe_priority b)
     \<or> priority_rank (qe_priority a) = priority_rank (qe_priority b) \<and> qe_due_at b < qe_due_at a"

text \<open>
  \<open>BinaryHeap\<close>: the entries, of which \<open>peek\<close> and \<open>pop\<close> take a greatest one.  Which of
  several greatest entries that is, the standard library leaves open: \<open>tie\<close> decides.
\<close>

type_synonym tie = "QueueEntry list \<Rightarrow> nat"

definition greatest :: "QueueEntry list \<Rightarrow> QueueEntry list" where
  "greatest heap = filter (\<lambda>a. \<forall>b \<in> set heap. \<not> entry_less a b) heap"

definition heap_peek :: "tie \<Rightarrow> QueueEntry list \<Rightarrow> QueueEntry option" where
  "heap_peek tie heap =
     (if greatest heap = [] then None
      else Some (greatest heap ! (tie heap mod length (greatest heap))))"

text \<open>
  The hash table of jobs is an association list; \<open>it\<close> is the order in which iteration
  visits its keys.
\<close>

record SchedulerQueue =
  sq_heap :: "QueueEntry list"
  sq_jobs :: "(JobId \<times> ScheduledJob) list"
  sq_capacity :: nat

definition SchedulerQueue_new :: "nat \<Rightarrow> SchedulerQueue" where
  "SchedulerQueue_new capacity = \<lparr>sq_heap = [], sq_jobs = [], sq_capacity = capacity\<rparr>"

definition queue_len :: "SchedulerQueue \<Rightarrow> nat" where
  "queue_len q = length (sq_jobs q)"

definition entry_of :: "ScheduledJob \<Rightarrow> QueueEntry" where
  "entry_of job = \<lparr>qe_priority = sj_priority job, qe_due_at = sj_due_at job, qe_job_id = sj_id job\<rparr>"

definition queue_insert :: "SchedulerQueue \<Rightarrow> ScheduledJob \<Rightarrow> (SchedulerError + JobId) \<times> SchedulerQueue" where
  "queue_insert q job =
     (if sq_capacity q \<le> length (sq_jobs q) then (Inl QueueFull, q)
      else (Inr (sj_id job),
            q\<lparr>sq_heap := sq_heap q @ [entry_of job],
              sq_jobs := AList.update (sj_id job) job (sq_jobs q)\<rparr>))"

definition queue_get :: "SchedulerQueue \<Rightarrow> JobId \<Rightarrow> ScheduledJob option" where
  "queue_get q = map_of (sq_jobs q)"

definition queue_lookup :: "sched_env \<Rightarrow> SchedulerQueue \<Rightarrow> JobId \<Rightarrow> SchedulerError + ScheduledJob" where
  "queue_lookup env q job_id = ok_or (JobNotFound (se_ulid_text env job_id)) (queue_get q job_id)"

definition queue_remove ::
  "sched_env \<Rightarrow> SchedulerQueue \<Rightarrow> JobId \<Rightarrow> (SchedulerError + ScheduledJob) \<times> SchedulerQueue" where
  "queue_remove env q job_id =
     (case queue_get q job_id of
        None \<Rightarrow> (Inl (JobNotFound (se_ulid_text env job_id)), q)
      | Some job \<Rightarrow>
          (Inr job,
           q\<lparr>sq_jobs := AList.delete job_id (sq_jobs q),
             sq_heap := filter (\<lambda>entry. qe_job_id entry \<noteq> job_id) (sq_heap q)\<rparr>))"

definition queue_get_state :: "SchedulerQueue \<Rightarrow> JobId \<Rightarrow> JobState option" where
  "queue_get_state q job_id = map_option sj_state (queue_get q job_id)"

definition queue_peek :: "tie \<Rightarrow> SchedulerQueue \<Rightarrow> ScheduledJob option" where
  "queue_peek tie q = Option.bind (heap_peek tie (sq_heap q)) (\<lambda>entry. queue_get q (qe_job_id entry))"

definition list_by_state :: "(JobId list \<Rightarrow> JobId list) \<Rightarrow> SchedulerQueue \<Rightarrow> JobState \<Rightarrow> ScheduledJob list" where
  "list_by_state it q state =
     filter (\<lambda>job. sj_state job = state)
       (List.map_filter (queue_get q) (it (map fst (sq_jobs q))))"

definition queue_put :: "SchedulerQueue \<Rightarrow> JobId \<Rightarrow> ScheduledJob \<Rightarrow> SchedulerQueue" where
  "queue_put q job_id job = q\<lparr>sq_jobs := AList.update job_id job (sq_jobs q)\<rparr>"

definition queue_update_state ::
  "sched_env \<Rightarrow> SchedulerQueue \<Rightarrow> JobId \<Rightarrow> JobState \<Rightarrow> time \<Rightarrow> (SchedulerError + unit) \<times> SchedulerQueue" where
  "queue_update_state env q job_id new_state now =
     (case queue_get q job_id of
        None \<Rightarrow> (Inl (JobNotFound (se_ulid_text env job_id)), q)
      | Some job \<Rightarrow>
          (case job_transition job new_state now of
             Inl e \<Rightarrow> (Inl e, q)
           | Inr job1 \<Rightarrow> (Inr (), queue_put q job_id job1)))"

definition rebuild_heap_entry :: "SchedulerQueue \<Rightarrow> JobId \<Rightarrow> SchedulerQueue" where
  "rebuild_heap_entry q job_id =
     (let heap = filter (\<lambda>entry. qe_job_id entry \<noteq> job_id) (sq_heap q) in
      case queue_get q job_id of
        None \<Rightarrow> q\<lparr>sq_heap := heap\<rparr>
      | Some job \<Rightarrow>
          q\<lparr>sq_heap := heap @ [\<lparr>qe_priority = sj_priority job, qe_due_at = sj_due_at job,
                               qe_job_id = job_id\<rparr>]\<rparr>)"

definition queue_update_schedule ::
  "sched_env \<Rightarrow> SchedulerQueue \<Rightarrow> JobId \<Rightarrow> SchedulePolicy \<Rightarrow> time \<Rightarrow> (SchedulerError + unit) \<times> SchedulerQueue" where
  "queue_update_schedule env q job_id new_schedule now =
     (case queue_get q job_id of
        None \<Rightarrow> (Inl (JobNotFound (se_ulid_text env job_id)), q)
      | Some job \<Rightarrow>
          if sj_state job \<in> {Job_Running, Job_Completed}
          then (Inl (Job_InvalidTransition (job_state_text (sj_state job)) ''update_schedule''), q)
          else
            (let due = (case new_schedule of
                          At t \<Rightarrow> t
                        | After d \<Rightarrow> now + (case se_from_std env d of Inl _ \<Rightarrow> 0 | Inr dd \<Rightarrow> dd)
                        | Immediate \<Rightarrow> now
                        | Cron expression \<Rightarrow> now) in
             (Inr (), rebuild_heap_entry
                (queue_put q job_id (job\<lparr>sj_schedule_policy := new_schedule, sj_due_at := due\<rparr>)) job_id)))"

lemma heap_peek_in: "heap_peek tie heap = Some e \<Longrightarrow> e \<in> set heap \<and> (\<forall>b \<in> set heap. \<not> entry_less e b)"
proof -
  assume "heap_peek tie heap = Some e"
  then have "e \<in> set (greatest heap)"
    by (auto simp: heap_peek_def split: if_splits)
  then show ?thesis
    by (simp add: greatest_def)
qed

function pop_due :: "tie \<Rightarrow> SchedulerQueue \<Rightarrow> time \<Rightarrow> ScheduledJob option \<times> SchedulerQueue" where
  "pop_due tie q now =
     (case heap_peek tie (sq_heap q) of
        None \<Rightarrow> (None, q)
      | Some entry \<Rightarrow>
          if now < qe_due_at entry then (None, q)
          else
            (let q1 = q\<lparr>sq_heap := remove1 entry (sq_heap q)\<rparr> in
             case queue_get q1 (qe_job_id entry) of
               None \<Rightarrow> pop_due tie q1 now
             | Some job \<Rightarrow>
                 if sj_due_at job \<le> now
                 then (Some job, q1\<lparr>sq_jobs := AList.delete (qe_job_id entry) (sq_jobs q1)\<rparr>)
                 else pop_due tie q1 now))"
  by pat_completeness auto

termination
  by (relation "measure (\<lambda>(tie, q, now). length (sq_heap q))")
     (auto dest!: heap_peek_in simp: length_remove1 neq_Nil_conv intro!: diff_less)

declare pop_due.simps [simp del]

definition queue_cancel ::
  "sched_env \<Rightarrow> SchedulerQueue \<Rightarrow> JobId \<Rightarrow> time \<Rightarrow> (SchedulerError + unit) \<times> SchedulerQueue" where
  "queue_cancel env q job_id now =
     (case queue_get q job_id of
        None \<Rightarrow> (Inl (JobNotFound (se_ulid_text env job_id)), q)
      | Some job \<Rightarrow>
          if sj_state job \<in> {Job_Completed, Job_Failed}
          then (Inl (Job_InvalidTransition (job_state_text (sj_state job)) ''cancel''), q)
          else
            (case job_transition job Job_Cancelled now of
               Inl e \<Rightarrow> (Inl e, q)
             | Inr job1 \<Rightarrow> (Inr (), queue_put q job_id job1)))"

definition rebuild_heap_entry_with_due :: "SchedulerQueue \<Rightarrow> JobId \<Rightarrow> time \<Rightarrow> SchedulerQueue" where
  "rebuild_heap_entry_with_due q job_id due_at =
     (let heap = filter (\<lambda>entry. qe_job_id entry \<noteq> job_id) (sq_heap q) in
      case queue_get q job_id of
        None \<Rightarrow> q\<lparr>sq_heap := heap\<rparr>
      | Some job \<Rightarrow>
          q\<lparr>sq_heap := heap @ [\<lparr>qe_priority = sj_priority job, qe_due_at = due_at,
                               qe_job_id = job_id\<rparr>]\<rparr>)"

definition retry_transition ::
  "sched_env \<Rightarrow> SchedulerQueue \<Rightarrow> JobId \<Rightarrow> string \<Rightarrow> time \<Rightarrow> time \<Rightarrow> (SchedulerError + unit) \<times> SchedulerQueue" where
  "retry_transition env q job_id error now1 now2 =
     (case queue_get q job_id of
        None \<Rightarrow> (Inl (JobNotFound (se_ulid_text env job_id)), q)
      | Some job \<Rightarrow>
          (case apply_retryable_failure env job error now1 now2 of
             Inl e \<Rightarrow> (Inl e, q)
           | Inr job1 \<Rightarrow>
               (Inr (), rebuild_heap_entry_with_due (queue_put q job_id job1) job_id (sj_due_at job1))))"

section \<open>The interface of the queue\<close>

definition schedule_job ::
  "sched_env \<Rightarrow> SchedulerQueue \<Rightarrow> ScheduledJob \<Rightarrow> time \<Rightarrow> (SchedulerError + JobId) \<times> SchedulerQueue" where
  "schedule_job env q job now =
     (let job1 = (if sj_schedule_policy job = Immediate then job\<lparr>sj_state := Job_Pending\<rparr> else job) in
      case queue_insert q job1 of
        (Inl e, q1) \<Rightarrow> (Inl e, q1)
      | (Inr _, q1) \<Rightarrow>
          (case queue_get_state q1 (sj_id job) of
             None \<Rightarrow> (Inr (sj_id job), q1)
           | Some current \<Rightarrow>
               if current \<noteq> sj_state job1 then
                 (case queue_update_state env q1 (sj_id job) (sj_state job1) now of
                    (Inl e, q2) \<Rightarrow> (Inl e, q2)
                  | (Inr _, q2) \<Rightarrow> (Inr (sj_id job), q2))
               else (Inr (sj_id job), q1)))"

definition cancel_job ::
  "sched_env \<Rightarrow> SchedulerQueue \<Rightarrow> JobId \<Rightarrow> time \<Rightarrow> (SchedulerError + unit) \<times> SchedulerQueue" where
  "cancel_job env q job_id now =
     (case queue_get_state q job_id of
        None \<Rightarrow> (Inl (JobNotFound (se_ulid_text env job_id)), q)
      | Some state \<Rightarrow>
          if state \<in> {Job_Scheduled, Job_Pending, Job_Retrying, Job_Running}
          then queue_update_state env q job_id Job_Cancelled now
          else (Inl (Job_InvalidTransition (job_state_text state) ''cancel''), q))"

definition update_job_schedule ::
  "sched_env \<Rightarrow> SchedulerQueue \<Rightarrow> JobId \<Rightarrow> SchedulePolicy \<Rightarrow> time \<Rightarrow> time \<Rightarrow> (SchedulerError + unit) \<times> SchedulerQueue" where
  "update_job_schedule env q job_id new_schedule now1 now2 =
     (case queue_get_state q job_id of
        None \<Rightarrow> (Inl (JobNotFound (se_ulid_text env job_id)), q)
      | Some state \<Rightarrow>
          if state \<in> {Job_Scheduled, Job_Pending, Job_Retrying} then
            (case queue_update_schedule env q job_id new_schedule now1 of
               (Inl e, q1) \<Rightarrow> (Inl e, q1)
             | (Inr _, q1) \<Rightarrow>
                 if new_schedule = Immediate \<and> state = Job_Scheduled
                 then queue_update_state env q1 job_id Job_Pending now2
                 else (Inr (), q1))
          else (Inl (Job_InvalidTransition (job_state_text state) ''update_schedule''), q))"

section \<open>The invariant of the queue\<close>

text \<open>
  Every job is stored under its own identifier, once, and the heap holds exactly one
  entry per job, with the job's priority and due time.
\<close>

definition queue_wf :: "SchedulerQueue \<Rightarrow> bool" where
  "queue_wf q \<longleftrightarrow> distinct (map fst (sq_jobs q)) \<and> (\<forall>(k, job) \<in> set (sq_jobs q). sj_id job = k)"

definition queue_synced :: "SchedulerQueue \<Rightarrow> bool" where
  "queue_synced q \<longleftrightarrow> mset (sq_heap q) = mset (map (entry_of \<circ> snd) (sq_jobs q))"

lemma update_absent: "k \<notin> fst ` set al \<Longrightarrow> AList.update k v al = al @ [(k, v)]"
  by (induction al) auto

lemma map_update_same:
  "map_of al k = Some v0 \<Longrightarrow> g v = g v0 \<Longrightarrow> map (g \<circ> snd) (AList.update k v al) = map (g \<circ> snd) al"
  by (induction al) (auto split: if_splits)

lemma mset_map_update:
  "map_of al k = Some v0 \<Longrightarrow> distinct (map fst al)
    \<Longrightarrow> mset (map (g \<circ> snd) (AList.update k v al))
      = add_mset (g v) (mset (map (g \<circ> snd) (AList.delete k al)))"
proof (induction al)
  case (Cons a al)
  show ?case
  proof (cases "fst a = k")
    case True
    then have "k \<notin> fst ` set al"
      using Cons.prems by auto
    then have "AList.delete k al = al"
      by (simp add: AList.delete_idem)
    then show ?thesis
      using True by (cases a) (simp add: AList.delete_eq)
  next
    case False
    then show ?thesis
      using Cons by (cases a) (simp add: AList.delete_eq)
  qed
qed simp

lemma fst_set_update: "fst ` set (AList.update k v al) = insert k (fst ` set al)"
  by (induction al) auto

lemma set_update_subset: "set (AList.update k v al) \<subseteq> insert (k, v) (set al)"
  by (induction al) auto

lemma length_update: "length (AList.update k v al) = length al + (if map_of al k = None then 1 else 0)"
  by (induction al) auto

lemma queue_wf_get: "queue_wf q \<Longrightarrow> queue_get q i = Some job \<Longrightarrow> sj_id job = i"
  by (auto simp: queue_wf_def queue_get_def dest: map_of_SomeD)

lemma queue_get_iff: "queue_wf q \<Longrightarrow> queue_get q i = Some job \<longleftrightarrow> (i, job) \<in> set (sq_jobs q)"
  by (simp add: queue_wf_def queue_get_def map_of_eq_Some_iff)

lemma queue_wf_new [simp]: "queue_wf (SchedulerQueue_new c)" "queue_synced (SchedulerQueue_new c)"
  by (simp_all add: queue_wf_def queue_synced_def SchedulerQueue_new_def)

lemma queue_wf_update:
  "queue_wf q \<Longrightarrow> sj_id job = i \<Longrightarrow> queue_wf (q\<lparr>sq_jobs := AList.update i job (sq_jobs q), sq_heap := h\<rparr>)"
  using set_update_subset [of i job "sq_jobs q"]
  by (auto simp: queue_wf_def AList.distinct_update)

lemma queue_wf_delete:
  "queue_wf q \<Longrightarrow> queue_wf (q\<lparr>sq_jobs := AList.delete i (sq_jobs q), sq_heap := h\<rparr>)"
  by (auto simp: queue_wf_def AList.delete_eq distinct_map_filter)

lemma queue_wf_heap [simp]:
  "queue_wf (q\<lparr>sq_heap := h\<rparr>) = queue_wf q"
  "queue_wf (q\<lparr>sq_heap := h, sq_jobs := js\<rparr>) = queue_wf (q\<lparr>sq_jobs := js\<rparr>)"
  by (simp_all add: queue_wf_def)

lemma queue_get_heap [simp]: "queue_get (q\<lparr>sq_heap := h\<rparr>) = queue_get q"
  by (simp add: queue_get_def)

lemma queue_wf_put: "queue_wf q \<Longrightarrow> sj_id job = i \<Longrightarrow> queue_wf (queue_put q i job)"
  using queue_wf_update [of q job i "sq_heap q"] by (simp add: queue_put_def)

lemma queue_get_put [simp]: "queue_get (queue_put q i job) = (queue_get q)(i \<mapsto> job)"
  by (simp add: queue_put_def queue_get_def AList.update_conv')

lemma entry_id_heap:
  "queue_wf q \<Longrightarrow> queue_synced q \<Longrightarrow>
    mset (filter (\<lambda>entry. qe_job_id entry \<noteq> i) (sq_heap q))
      = mset (map (entry_of \<circ> snd) (AList.delete i (sq_jobs q)))"
proof -
  assume wf: "queue_wf q" and synced: "queue_synced q"
  have "filter (\<lambda>entry. qe_job_id entry \<noteq> i) (map (entry_of \<circ> snd) (sq_jobs q))
      = map (entry_of \<circ> snd) (AList.delete i (sq_jobs q))"
    unfolding filter_map AList.delete_eq using wf
    by (intro arg_cong [where f = "map _"] filter_cong) (auto simp: queue_wf_def entry_of_def)
  then show ?thesis
    using synced unfolding queue_synced_def mset_filter by (metis mset_filter)
qed

lemma queue_insert_inv:
  assumes "queue_wf q" "queue_synced q" "queue_get q (sj_id job) = None"
  shows "queue_wf (snd (queue_insert q job)) \<and> queue_synced (snd (queue_insert q job))"
proof -
  have "sj_id job \<notin> fst ` set (sq_jobs q)"
    using assms(3) by (simp add: queue_get_def map_of_eq_None_iff)
  then show ?thesis
    using assms queue_wf_update [OF assms(1), of job "sj_id job" "sq_heap q @ [entry_of job]"]
    by (simp add: queue_insert_def queue_synced_def update_absent)
qed

lemma queue_remove_inv:
  assumes "queue_wf q" "queue_synced q"
  shows "queue_wf (snd (queue_remove env q i)) \<and> queue_synced (snd (queue_remove env q i))"
  using assms entry_id_heap [OF assms] queue_wf_delete [OF assms(1)]
  by (auto simp: queue_remove_def queue_synced_def split: option.splits)

text \<open>Replacing a job by one with the same identifier, priority and due time.\<close>

lemma queue_put_inv:
  assumes "queue_wf q" "queue_synced q" "queue_get q i = Some job" "entry_of job1 = entry_of job"
  shows "queue_wf (queue_put q i job1) \<and> queue_synced (queue_put q i job1)"
proof -
  have "sj_id job1 = i"
    using assms(4) queue_wf_get [OF assms(1,3)] by (simp add: entry_of_def)
  then show ?thesis
    using assms map_update_same [of "sq_jobs q" i job entry_of job1]
    by (simp add: queue_wf_put) (simp add: queue_synced_def queue_put_def queue_get_def)
qed

lemma job_transition_entry: "job_transition job st now = Inr job1 \<Longrightarrow> entry_of job1 = entry_of job"
  by (auto simp: job_transition_def entry_of_def split: if_splits)

lemma queue_update_state_inv:
  assumes "queue_wf q" "queue_synced q"
  shows "queue_wf (snd (queue_update_state env q i st now)) \<and> queue_synced (snd (queue_update_state env q i st now))"
  using assms queue_put_inv [OF assms] job_transition_entry
  by (auto simp: queue_update_state_def split: option.splits sum.splits)

lemma queue_cancel_inv:
  assumes "queue_wf q" "queue_synced q"
  shows "queue_wf (snd (queue_cancel env q i now)) \<and> queue_synced (snd (queue_cancel env q i now))"
  using assms queue_put_inv [OF assms] job_transition_entry
  by (auto simp: queue_cancel_def split: option.splits sum.splits)

lemma rebuild_inv:
  assumes "queue_wf q" "queue_synced q" "queue_get q i = Some job" "sj_id job1 = i"
  shows "queue_wf (rebuild_heap_entry (queue_put q i job1) i)
    \<and> queue_synced (rebuild_heap_entry (queue_put q i job1) i)"
proof -
  have "mset (map (entry_of \<circ> snd) (AList.update i job1 (sq_jobs q)))
      = add_mset (entry_of job1) (mset (map (entry_of \<circ> snd) (AList.delete i (sq_jobs q))))"
    using assms(1,3) by (intro mset_map_update) (auto simp: queue_get_def queue_wf_def)
  then show ?thesis
    using assms entry_id_heap [OF assms(1,2), of i] queue_wf_put [OF assms(1,4)]
    by (simp add: rebuild_heap_entry_def Let_def)
       (simp add: queue_synced_def queue_put_def entry_of_def)
qed

lemma rebuild_with_due:
  "queue_get q i = Some job \<Longrightarrow> rebuild_heap_entry_with_due q i (sj_due_at job) = rebuild_heap_entry q i"
  by (simp add: rebuild_heap_entry_def rebuild_heap_entry_with_due_def)

lemma queue_update_schedule_inv:
  assumes "queue_wf q" "queue_synced q"
  shows "queue_wf (snd (queue_update_schedule env q i pol now))
    \<and> queue_synced (snd (queue_update_schedule env q i pol now))"
  using assms rebuild_inv [OF assms] queue_wf_get [OF assms(1)]
  by (auto simp: queue_update_schedule_def Let_def split: option.splits)

lemma retry_transition_inv:
  assumes "queue_wf q" "queue_synced q"
  shows "queue_wf (snd (retry_transition env q i e now1 now2))
    \<and> queue_synced (snd (retry_transition env q i e now1 now2))"
proof -
  have "sj_id job1 = sj_id job" if "apply_retryable_failure env job e now1 now2 = Inr job1" for job job1
    using that by (auto simp: apply_retryable_failure_def Let_def split: if_splits)
  then show ?thesis
    using assms rebuild_inv [OF assms] queue_wf_get [OF assms(1)]
    by (auto simp: retry_transition_def rebuild_with_due split: option.splits sum.splits)
qed

section \<open>The order of service\<close>

definition served_first :: "ScheduledJob \<Rightarrow> ScheduledJob \<Rightarrow> bool" where
  "served_first j k \<longleftrightarrow>
     priority_rank (sj_priority k) < priority_rank (sj_priority j)
     \<or> priority_rank (sj_priority k) = priority_rank (sj_priority j) \<and> sj_due_at j \<le> sj_due_at k"

lemma not_entry_less: "\<not> entry_less (entry_of j) (entry_of k) \<longleftrightarrow> served_first j k"
  by (auto simp: entry_less_def served_first_def entry_of_def)

definition queue_jobs :: "SchedulerQueue \<Rightarrow> ScheduledJob set" where
  "queue_jobs q = snd ` set (sq_jobs q)"

lemma heap_entries: "queue_synced q \<Longrightarrow> set (sq_heap q) = entry_of ` queue_jobs q"
proof -
  assume "queue_synced q"
  then have "set (sq_heap q) = set (map (entry_of \<circ> snd) (sq_jobs q))"
    unfolding queue_synced_def by (rule mset_eq_setD)
  then show ?thesis
    by (simp add: queue_jobs_def image_comp)
qed

lemma heap_peek_None: "heap_peek tie heap = None \<longleftrightarrow> heap = []"
proof
  assume none: "heap_peek tie heap = None"
  show "heap = []"
  proof (rule ccontr)
    assume "heap \<noteq> []"
    define key where "key e = (priority_rank (qe_priority e), - qe_due_at e)" for e :: QueueEntry
    have less: "entry_less a b \<longleftrightarrow> fst (key a) < fst (key b) \<or> fst (key a) = fst (key b) \<and> snd (key a) < snd (key b)" for a b
      by (auto simp: key_def entry_less_def)
    define m where "m = Max ((fst \<circ> key) ` set heap)"
    define top where "top = {e \<in> set heap. fst (key e) = m}"
    have "m \<in> (fst \<circ> key) ` set heap"
      unfolding m_def using \<open>heap \<noteq> []\<close> by (intro Max_in) auto
    then have top: "finite top" "top \<noteq> {}"
      by (auto simp: top_def)
    then have "Max ((snd \<circ> key) ` top) \<in> (snd \<circ> key) ` top"
      by (intro Max_in) auto
    then obtain e where e: "e \<in> top" "snd (key e) = Max ((snd \<circ> key) ` top)"
      by auto
    have "\<not> entry_less e b" if "b \<in> set heap" for b
    proof -
      have "fst (key b) \<le> m"
        using that by (auto simp: m_def intro!: Max_ge)
      moreover have "fst (key e) = m"
        using e(1) by (simp add: top_def)
      moreover have "snd (key b) \<le> snd (key e)" if "fst (key b) = m"
        using top(1) \<open>b \<in> set heap\<close> that unfolding e(2) by (intro Max_ge) (auto simp: top_def)
      ultimately show ?thesis
        unfolding less by force
    qed
    then have "e \<in> set (greatest heap)"
      using e(1) by (simp add: greatest_def top_def)
    then have "greatest heap \<noteq> []"
      by auto
    then show False
      using none by (simp add: heap_peek_def)
  qed
qed (simp add: heap_peek_def greatest_def)

text \<open>
  What \<open>pop_due\<close> serves: the job of the greatest priority number, and the earliest due
  among those, if it is due; otherwise nothing, although other jobs may be due.  Since
  critical jobs have the number 0 and background jobs the number 4, background work comes
  first, and one background job that is not due yet holds back every other job.
\<close>

theorem pop_due_exact:
  assumes "queue_wf q" "queue_synced q"
  shows "case pop_due tie q now of
      (None, q1) \<Rightarrow> q1 = q \<and> (queue_jobs q = {} \<or>
        (\<exists>top \<in> queue_jobs q. now < sj_due_at top \<and> Ball (queue_jobs q) (served_first top)))
    | (Some job, q1) \<Rightarrow> job \<in> queue_jobs q \<and> sj_due_at job \<le> now
        \<and> Ball (queue_jobs q) (served_first job)
        \<and> queue_get q1 = (queue_get q)(sj_id job := None) \<and> queue_wf q1 \<and> queue_synced q1"
proof (cases "heap_peek tie (sq_heap q)")
  case None
  then have "queue_jobs q = {}"
    using heap_entries [OF assms(2)] by (simp add: heap_peek_None)
  then show ?thesis
    using None by (simp add: pop_due.simps [of tie q])
next
  case (Some entry)
  have top: "entry \<in> set (sq_heap q)" "\<And>b. b \<in> set (sq_heap q) \<Longrightarrow> \<not> entry_less entry b"
    using heap_peek_in [OF Some] by auto
  then obtain job where job: "job \<in> queue_jobs q" "entry = entry_of job"
    using heap_entries [OF assms(2)] by auto
  have first: "Ball (queue_jobs q) (served_first job)"
    using top(2) heap_entries [OF assms(2)] job(2) by (auto simp: not_entry_less [symmetric])
  have get: "queue_get q (sj_id job) = Some job"
    using job(1) assms(1) by (auto simp: queue_get_iff queue_jobs_def) (auto simp: queue_wf_def)
  have entry: "qe_job_id entry = sj_id job" "qe_due_at entry = sj_due_at job"
    by (simp_all add: job(2) entry_of_def)
  show ?thesis
  proof (cases "now < sj_due_at job")
    case True
    then have "pop_due tie q now = (None, q)"
      using Some by (simp add: pop_due.simps [of tie q] entry)
    then show ?thesis
      using True job(1) first by auto
  next
    case False
    let ?q = "q\<lparr>sq_heap := remove1 entry (sq_heap q), sq_jobs := AList.delete (sj_id job) (sq_jobs q)\<rparr>"
    have pop: "pop_due tie q now = (Some job, ?q)"
      using Some False get by (simp add: pop_due.simps [of tie q] entry Let_def)
    have "add_mset (entry_of job) (mset (map (entry_of \<circ> snd) (AList.delete (sj_id job) (sq_jobs q))))
        = mset (map (entry_of \<circ> snd) (sq_jobs q))"
      using mset_map_update [of "sq_jobs q" "sj_id job" job entry_of job]
        map_update_same [of "sq_jobs q" "sj_id job" job entry_of job] get assms(1)
      by (simp add: queue_get_def queue_wf_def)
    then have "mset (remove1 entry (sq_heap q)) = mset (map (entry_of \<circ> snd) (AList.delete (sj_id job) (sq_jobs q)))"
      using assms(2) unfolding queue_synced_def mset_remove1 job(2)
      by (metis add_mset_remove_trivial)
    moreover have "queue_wf ?q"
      using queue_wf_delete [OF assms(1), of "sq_heap q" "sj_id job"] by simp
    moreover have "queue_get ?q = (queue_get q)(sj_id job := None)"
      by (simp add: queue_get_def AList.delete_conv')
    ultimately show ?thesis
      unfolding pop using False job(1) first by (simp add: queue_synced_def)
  qed
qed

definition demo_policy :: JobRetryPolicy where
  "demo_policy = \<lparr>jr_max_attempts = 2, jr_backoff_multiplier = 0, jr_initial_delay = 10, jr_max_delay = 100\<rparr>"

definition demo_job :: "JobId \<Rightarrow> JobPriority \<Rightarrow> time \<Rightarrow> ScheduledJob" where
  "demo_job i p due =
     \<lparr>sj_id = i, sj_kind = OneShot, sj_state = (if due \<le> 0 then Job_Pending else Job_Scheduled),
      sj_priority = p, sj_schedule_policy = At due, sj_retry_policy = demo_policy,
      sj_attempt_count = 0, sj_due_at = due, sj_payload = [], sj_last_error = None,
      sj_created_at = 0, sj_updated_at = 0\<rparr>"

definition demo_queue :: SchedulerQueue where
  "demo_queue = snd (queue_insert (snd (queue_insert (SchedulerQueue_new 8) (demo_job 1 Critical 0)))
     (demo_job 2 Background 50))"

lemma demo_queue_inv: "queue_wf demo_queue" "queue_synced demo_queue"
proof -
  let ?q = "snd (queue_insert (SchedulerQueue_new 8) (demo_job 1 Critical 0))"
  have 1: "queue_wf ?q \<and> queue_synced ?q"
    by (rule queue_insert_inv [OF queue_wf_new]) (simp add: SchedulerQueue_new_def queue_get_def)
  have 2: "queue_get ?q (sj_id (demo_job 2 Background 50)) = None"
    by (simp add: queue_insert_def SchedulerQueue_new_def queue_get_def demo_job_def)
  show "queue_wf demo_queue" "queue_synced demo_queue"
    unfolding demo_queue_def using queue_insert_inv [OF _ _ 2] 1 by simp_all
qed

theorem pop_due_exact_witness: "pop_due (\<lambda>_. 0) demo_queue 10 = (None, demo_queue)"
proof -
  have jobs: "queue_jobs demo_queue = {demo_job 1 Critical 0, demo_job 2 Background 50}"
    by (auto simp: queue_jobs_def demo_queue_def queue_insert_def SchedulerQueue_new_def demo_job_def)
  show ?thesis
    using pop_due_exact [OF demo_queue_inv, where tie = "\<lambda>_. 0" and now = 10] unfolding jobs
    by (auto simp: served_first_def demo_job_def split: prod.splits option.splits)
qed

end
