(* ===== verification/Job_Scheduler.thy ===== *)
theory Job_Scheduler
  imports Job_Queue
begin

text \<open>
  The background job scheduler (vo-scheduler/src/scheduler.rs): submission, cancellation
  and the tick that promotes due jobs, dispatches pending ones and applies the results of
  workers.  The job store and the worker dispatch are traits: their operations are fields
  of records over arbitrary states, with the two implementations of the source as
  instances.  The lemmas reduce every operation to steps of a small transition system of
  jobs, on which the properties are proved by rule induction.
\<close>

section \<open>Storage, dispatch and time\<close>

record 's JobStore =
  js_persist :: "'s \<Rightarrow> ScheduledJob \<Rightarrow> (SchedulerError + unit) \<times> 's"
  js_remove :: "'s \<Rightarrow> JobId \<Rightarrow> (SchedulerError + unit) \<times> 's"

record 'w WorkerDispatch =
  wd_dispatch :: "'w \<Rightarrow> ScheduledJob \<Rightarrow> (SchedulerError + unit) \<times> 'w"

record InMemoryJobStore =
  im_persisted :: "ScheduledJob list"
  im_removed :: "JobId list"

fun replace_job :: "ScheduledJob list \<Rightarrow> ScheduledJob \<Rightarrow> ScheduledJob list" where
  "replace_job [] job = [job]"
| "replace_job (j # js) job = (if sj_id j = sj_id job then job # js else j # replace_job js job)"

definition in_memory_store :: "InMemoryJobStore JobStore" where
  "in_memory_store =
     \<lparr>js_persist = (\<lambda>st job. (Inr (), st\<lparr>im_persisted := replace_job (im_persisted st) job\<rparr>)),
      js_remove = (\<lambda>st job_id. (Inr (),
        st\<lparr>im_persisted := filter (\<lambda>j. sj_id j \<noteq> job_id) (im_persisted st),
           im_removed := im_removed st @ [job_id]\<rparr>))\<rparr>"

record RecordingDispatcher =
  rd_dispatched :: "JobId list"
  rd_should_fail :: bool

definition recording_dispatch :: "RecordingDispatcher WorkerDispatch" where
  "recording_dispatch =
     \<lparr>wd_dispatch = (\<lambda>w job.
        if rd_should_fail w then (Inl QueueFull, w)
        else (Inr (), w\<lparr>rd_dispatched := rd_dispatched w @ [sj_id job]\<rparr>))\<rparr>"

text \<open>
  The surroundings of a scheduler: the crates, the store, the dispatcher, the iteration
  order of the job table, and the clock as the sequence of its readings.
\<close>

record ('s, 'w) surroundings =
  sp_env :: sched_env
  sp_store :: "'s JobStore"
  sp_dispatch :: "'w WorkerDispatch"
  sp_iter :: "JobId list \<Rightarrow> JobId list"
  sp_clock :: "nat \<Rightarrow> time"

section \<open>The scheduler\<close>

datatype CompletionResult = Result_Success | Result_Failed string | Result_Cancelled

record TickOutcome =
  to_promoted :: nat
  to_dispatched :: nat
  to_completed :: nat
  to_failed :: nat
  to_retried :: nat
  to_rescheduled :: nat
  to_cancelled :: nat

text \<open>\<open>sc_reads\<close> counts the readings of the clock so far.\<close>

record ('s, 'w) Scheduler =
  sc_queue :: SchedulerQueue
  sc_store :: 's
  sc_dispatcher :: 'w
  sc_capacity :: nat
  sc_reads :: nat

definition Scheduler_new :: "nat \<Rightarrow> 's \<Rightarrow> 'w \<Rightarrow> ('s, 'w) Scheduler" where
  "Scheduler_new capacity store dispatcher =
     \<lparr>sc_queue = SchedulerQueue_new capacity, sc_store = store, sc_dispatcher = dispatcher,
      sc_capacity = capacity, sc_reads = 0\<rparr>"

definition now :: "('s, 'w) surroundings \<Rightarrow> ('s, 'w) Scheduler \<Rightarrow> time" where
  "now P s = sp_clock P (sc_reads s)"

definition read_clock :: "('s, 'w) Scheduler \<Rightarrow> ('s, 'w) Scheduler" where
  "read_clock s = s\<lparr>sc_reads := sc_reads s + 1\<rparr>"

text \<open>The \<open>?\<close> operator on a result beside the changed scheduler.\<close>

definition try_then ::
  "(SchedulerError + 'a) \<times> 'st \<Rightarrow> ('a \<Rightarrow> 'st \<Rightarrow> (SchedulerError + 'b) \<times> 'st) \<Rightarrow> (SchedulerError + 'b) \<times> 'st" where
  "try_then m f = (case m of (Inl e, s) \<Rightarrow> (Inl e, s) | (Inr x, s) \<Rightarrow> f x s)"

definition set_state ::
  "('s, 'w) surroundings \<Rightarrow> JobId \<Rightarrow> JobState \<Rightarrow> ('s, 'w) Scheduler \<Rightarrow> (SchedulerError + unit) \<times> ('s, 'w) Scheduler" where
  "set_state P job_id new_state s =
     (case queue_update_state (sp_env P) (sc_queue s) job_id new_state (now P s) of
        (res, q) \<Rightarrow> (res, (read_clock s)\<lparr>sc_queue := q\<rparr>))"

definition persist ::
  "('s, 'w) surroundings \<Rightarrow> ScheduledJob \<Rightarrow> ('s, 'w) Scheduler \<Rightarrow> (SchedulerError + unit) \<times> ('s, 'w) Scheduler" where
  "persist P job s = (case js_persist (sp_store P) (sc_store s) job of (res, st) \<Rightarrow> (res, s\<lparr>sc_store := st\<rparr>))"

text \<open>\<open>if let Ok(job) = self.queue.lookup(id) { self.store.persist(job)?; }\<close>\<close>

definition persist_current ::
  "('s, 'w) surroundings \<Rightarrow> JobId \<Rightarrow> ('s, 'w) Scheduler \<Rightarrow> (SchedulerError + unit) \<times> ('s, 'w) Scheduler" where
  "persist_current P job_id s =
     (case queue_get (sc_queue s) job_id of None \<Rightarrow> (Inr (), s) | Some job \<Rightarrow> persist P job s)"

text \<open>\<open>if let Ok(job) = self.queue.lookup_mut(id) { ... }\<close>\<close>

definition modify_job :: "JobId \<Rightarrow> (ScheduledJob \<Rightarrow> ScheduledJob) \<Rightarrow> ('s, 'w) Scheduler \<Rightarrow> ('s, 'w) Scheduler" where
  "modify_job job_id f s =
     (case queue_get (sc_queue s) job_id of
        None \<Rightarrow> s
      | Some job \<Rightarrow> s\<lparr>sc_queue := queue_put (sc_queue s) job_id (f job)\<rparr>)"

definition insert_job ::
  "ScheduledJob \<Rightarrow> ('s, 'w) Scheduler \<Rightarrow> (SchedulerError + JobId) \<times> ('s, 'w) Scheduler" where
  "insert_job job s = (case queue_insert (sc_queue s) job of (res, q) \<Rightarrow> (res, s\<lparr>sc_queue := q\<rparr>))"

definition submit ::
  "('s, 'w) surroundings \<Rightarrow> ScheduledJob \<Rightarrow> ('s, 'w) Scheduler \<Rightarrow> (SchedulerError + JobId) \<times> ('s, 'w) Scheduler" where
  "submit P job s =
     (if sc_capacity s \<le> queue_len (sc_queue s) then (Inl QueueFull, s)
      else
        try_then (insert_job job s) (\<lambda>_ s1.
        try_then (queue_lookup (sp_env P) (sc_queue s1) (sj_id job), s1) (\<lambda>persisted_job s2.
        try_then (persist P persisted_job s2) (\<lambda>_ s3. (Inr (sj_id job), s3)))))"

fun job_state_debug :: "JobState \<Rightarrow> string" where
  "job_state_debug Job_Scheduled = ''Scheduled''"
| "job_state_debug Job_Pending = ''Pending''"
| "job_state_debug Job_Running = ''Running''"
| "job_state_debug Job_Completed = ''Completed''"
| "job_state_debug Job_Failed = ''Failed''"
| "job_state_debug Job_Cancelled = ''Cancelled''"
| "job_state_debug Job_Retrying = ''Retrying''"

definition cancel ::
  "('s, 'w) surroundings \<Rightarrow> JobId \<Rightarrow> ('s, 'w) Scheduler \<Rightarrow> (SchedulerError + unit) \<times> ('s, 'w) Scheduler" where
  "cancel P job_id s =
     (case queue_get_state (sc_queue s) job_id of
        None \<Rightarrow> (Inl (JobNotFound (se_ulid_text (sp_env P) job_id)), s)
      | Some state \<Rightarrow>
          if job_is_terminal state
          then (Inl (Job_InvalidTransition (job_state_debug state) ''Cancel''), s)
          else
            try_then (set_state P job_id Job_Cancelled s) (\<lambda>_ s1.
            try_then (queue_lookup (sp_env P) (sc_queue s1) job_id, s1) (\<lambda>job s2.
            try_then (persist P job s2) (\<lambda>_ s3. (Inr (), s3)))))"

subsection \<open>The three phases of a tick\<close>

fun promote_loop ::
  "('s, 'w) surroundings \<Rightarrow> JobId list \<Rightarrow> nat \<Rightarrow> ('s, 'w) Scheduler \<Rightarrow> nat \<times> ('s, 'w) Scheduler" where
  "promote_loop P [] promoted s = (promoted, s)"
| "promote_loop P (i # due_ids) promoted s =
     (case set_state P i Job_Pending s of
        (Inl _, s1) \<Rightarrow> promote_loop P due_ids promoted s1
      | (Inr _, s1) \<Rightarrow> promote_loop P due_ids (promoted + 1) (snd (persist_current P i s1)))"

definition promote_due_jobs ::
  "('s, 'w) surroundings \<Rightarrow> time \<Rightarrow> ('s, 'w) Scheduler \<Rightarrow> nat \<times> ('s, 'w) Scheduler" where
  "promote_due_jobs P t s =
     promote_loop P
       (map sj_id (filter (\<lambda>job. sj_due_at job \<le> t) (list_by_state (sp_iter P) (sc_queue s) Job_Scheduled)))
       0 s"

definition refuse_dispatch ::
  "('s, 'w) surroundings \<Rightarrow> ScheduledJob \<Rightarrow> SchedulerError \<Rightarrow> ('s, 'w) Scheduler
     \<Rightarrow> (SchedulerError + nat) \<times> ('s, 'w) Scheduler" where
  "refuse_dispatch P job e s =
     (let job1 = job\<lparr>sj_state := Job_Pending, sj_updated_at := now P s\<rparr> in
      try_then (persist P job1 (read_clock s)) (\<lambda>_ s1.
      try_then (insert_job job1 s1) (\<lambda>_ s2. (Inl e, s2))))"

fun dispatch_loop ::
  "('s, 'w) surroundings \<Rightarrow> JobId list \<Rightarrow> nat \<Rightarrow> ('s, 'w) Scheduler \<Rightarrow> (SchedulerError + nat) \<times> ('s, 'w) Scheduler" where
  "dispatch_loop P [] dispatched s = (Inr dispatched, s)"
| "dispatch_loop P (i # ids) dispatched s =
     (case queue_remove (sp_env P) (sc_queue s) i of
        (Inl _, q) \<Rightarrow> dispatch_loop P ids dispatched (s\<lparr>sc_queue := q\<rparr>)
      | (Inr job, q) \<Rightarrow>
          (let s1 = (read_clock s)\<lparr>sc_queue := q\<rparr> in
           case job_transition job Job_Running (now P s) of
             Inl _ \<Rightarrow> dispatch_loop P ids dispatched (snd (insert_job job s1))
           | Inr job1 \<Rightarrow>
               try_then (persist P job1 s1) (\<lambda>_ s2.
                 case wd_dispatch (sp_dispatch P) (sc_dispatcher s2) job1 of
                   (Inr _, w) \<Rightarrow>
                     try_then (insert_job job1 (s2\<lparr>sc_dispatcher := w\<rparr>)) (\<lambda>_ s3.
                       dispatch_loop P ids (dispatched + 1) s3)
                 | (Inl e, w) \<Rightarrow> refuse_dispatch P job1 e (s2\<lparr>sc_dispatcher := w\<rparr>))))"

definition dispatch_pending ::
  "('s, 'w) surroundings \<Rightarrow> ('s, 'w) Scheduler \<Rightarrow> (SchedulerError + nat) \<times> ('s, 'w) Scheduler" where
  "dispatch_pending P s =
     dispatch_loop P (map sj_id (list_by_state (sp_iter P) (sc_queue s) Job_Pending)) 0 s"

definition delay_or :: "sched_env \<Rightarrow> int \<Rightarrow> duration \<Rightarrow> int" where
  "delay_or env default_delay d = (case se_from_std env d of Inl _ \<Rightarrow> default_delay | Inr dd \<Rightarrow> dd)"

text \<open>
  Times are unbounded here.  In the source adding a delay to the current time panics when the
  sum leaves the range of \<open>DateTime\<close> (some 260000 years), and computing the backoff panics
  when it does not fit a \<open>Duration\<close>; the model describes the calls in which neither happens.
\<close>

definition reschedule_recurring ::
  "('s, 'w) surroundings \<Rightarrow> ScheduledJob \<Rightarrow> TickOutcome \<Rightarrow> ('s, 'w) Scheduler
     \<Rightarrow> (SchedulerError + TickOutcome) \<times> ('s, 'w) Scheduler" where
  "reschedule_recurring P job outcome s =
     (let next_due_at =
        (case sj_schedule_policy job of
           Cron expression \<Rightarrow> now P s
         | After d \<Rightarrow> now P s + delay_or (sp_env P) 1000000000 d
         | At t \<Rightarrow> t
         | Immediate \<Rightarrow> now P s) in
      try_then (set_state P (sj_id job) Job_Scheduled (read_clock s)) (\<lambda>_ s1.
      try_then
        (persist_current P (sj_id job)
           (modify_job (sj_id job)
              (\<lambda>j. j\<lparr>sj_due_at := next_due_at, sj_attempt_count := 0, sj_last_error := None\<rparr>) s1))
        (\<lambda>_ s2. (Inr (outcome\<lparr>to_rescheduled := to_rescheduled outcome + 1\<rparr>), s2))))"

definition handle_completion ::
  "('s, 'w) surroundings \<Rightarrow> JobId \<Rightarrow> TickOutcome \<Rightarrow> ('s, 'w) Scheduler
     \<Rightarrow> (SchedulerError + TickOutcome) \<times> ('s, 'w) Scheduler" where
  "handle_completion P job_id outcome s =
     try_then (set_state P job_id Job_Completed s) (\<lambda>_ s1.
     try_then (persist_current P job_id s1) (\<lambda>_ s2.
       let outcome1 = outcome\<lparr>to_completed := to_completed outcome + 1\<rparr> in
       case queue_get (sc_queue s2) job_id of
         None \<Rightarrow> (Inr outcome1, s2)
       | Some job \<Rightarrow>
           if sj_kind job = Recurring then reschedule_recurring P job outcome1 s2
           else (Inr outcome1, s2)))"

definition retry_job ::
  "('s, 'w) surroundings \<Rightarrow> ScheduledJob \<Rightarrow> JobId \<Rightarrow> TickOutcome \<Rightarrow> ('s, 'w) Scheduler
     \<Rightarrow> (SchedulerError + TickOutcome) \<times> ('s, 'w) Scheduler" where
  "retry_job P job job_id outcome s =
     (let attempt_count = sj_attempt_count job in
      try_then (set_state P job_id Job_Retrying s) (\<lambda>_ s1.
      try_then (set_state P job_id Job_Pending s1) (\<lambda>_ s2.
        let new_due_at = now P s2
          + delay_or (sp_env P) 1000000000 (se_backoff (sp_env P) (sj_retry_policy job) attempt_count) in
        try_then
          (persist_current P job_id
             (modify_job job_id (\<lambda>j. j\<lparr>sj_attempt_count := attempt_count + 1, sj_due_at := new_due_at\<rparr>)
                (read_clock s2)))
          (\<lambda>_ s3. (Inr (outcome\<lparr>to_retried := to_retried outcome + 1\<rparr>), s3)))))"

definition handle_failure ::
  "('s, 'w) surroundings \<Rightarrow> JobId \<Rightarrow> string \<Rightarrow> TickOutcome \<Rightarrow> ('s, 'w) Scheduler
     \<Rightarrow> (SchedulerError + TickOutcome) \<times> ('s, 'w) Scheduler" where
  "handle_failure P job_id error outcome s =
     (case queue_get (sc_queue s) job_id of
        None \<Rightarrow> (Inr outcome, s)
      | Some job \<Rightarrow>
          try_then (set_state P job_id Job_Failed s) (\<lambda>_ s1.
          try_then
            (persist_current P job_id (modify_job job_id (\<lambda>j. j\<lparr>sj_last_error := Some error\<rparr>) s1)) (\<lambda>_ s2.
            let outcome1 = outcome\<lparr>to_failed := to_failed outcome + 1\<rparr> in
            if can_retry (sj_retry_policy job) (sj_attempt_count job)
            then retry_job P job job_id outcome1 s2
            else (Inr outcome1, s2))))"

fun apply_completions ::
  "('s, 'w) surroundings \<Rightarrow> (JobId \<times> CompletionResult) list \<Rightarrow> TickOutcome \<Rightarrow> ('s, 'w) Scheduler
     \<Rightarrow> (SchedulerError + TickOutcome) \<times> ('s, 'w) Scheduler" where
  "apply_completions P [] outcome s = (Inr outcome, s)"
| "apply_completions P ((job_id, result) # completions) outcome s =
     (if queue_get_state (sc_queue s) job_id \<noteq> Some Job_Running
      then apply_completions P completions outcome s
      else
        try_then
          (case result of
             Result_Success \<Rightarrow> handle_completion P job_id outcome s
           | Result_Failed error \<Rightarrow> handle_failure P job_id error outcome s
           | Result_Cancelled \<Rightarrow>
               try_then (set_state P job_id Job_Cancelled s) (\<lambda>_ s1.
               try_then (persist_current P job_id s1) (\<lambda>_ s2.
                 (Inr (outcome\<lparr>to_cancelled := to_cancelled outcome + 1\<rparr>), s2))))
          (\<lambda>outcome1 s3. apply_completions P completions outcome1 s3))"

definition tick ::
  "('s, 'w) surroundings \<Rightarrow> (JobId \<times> CompletionResult) list \<Rightarrow> ('s, 'w) Scheduler
     \<Rightarrow> (SchedulerError + TickOutcome) \<times> ('s, 'w) Scheduler" where
  "tick P completions s =
     (case promote_due_jobs P (now P s) (read_clock s) of
        (promoted, s1) \<Rightarrow>
          try_then (dispatch_pending P s1) (\<lambda>dispatched s2.
            apply_completions P completions
              \<lparr>to_promoted = promoted, to_dispatched = dispatched, to_completed = 0, to_failed = 0,
               to_retried = 0, to_rescheduled = 0, to_cancelled = 0\<rparr> s2))"

section \<open>Well-formed schedulers\<close>

text \<open>
  The table is well formed and within its capacity, and no job rests in the state
  \<open>Retrying\<close>, which a failure only passes through.
\<close>

definition sched_wf :: "('s, 'w) Scheduler \<Rightarrow> bool" where
  "sched_wf s \<longleftrightarrow>
     queue_wf (sc_queue s) \<and> sq_capacity (sc_queue s) = sc_capacity s
     \<and> length (sq_jobs (sc_queue s)) \<le> sc_capacity s
     \<and> (\<forall>i job. queue_get (sc_queue s) i = Some job \<longrightarrow> sj_state job \<noteq> Job_Retrying)"

lemma read_clock_simps [simp]:
  "sc_queue (read_clock s) = sc_queue s" "sc_store (read_clock s) = sc_store s"
  "sc_dispatcher (read_clock s) = sc_dispatcher s" "sc_capacity (read_clock s) = sc_capacity s"
  by (simp_all add: read_clock_def)

lemma queue_put_capacity [simp]: "sq_capacity (queue_put q i j) = sq_capacity q"
  by (simp add: queue_put_def)

lemma queue_put_length: "queue_get q i = Some j0 \<Longrightarrow> length (sq_jobs (queue_put q i j)) = length (sq_jobs q)"
  by (simp add: queue_put_def queue_get_def length_update)

lemma try_then_simps [simp]:
  "try_then (Inl e, s) f = (Inl e, s)" "try_then (Inr x, s) f = f x s"
  by (simp_all add: try_then_def)

lemma set_state_ok:
  "queue_get (sc_queue s) i = Some job \<Longrightarrow> job_valid (sj_kind job) (sj_state job) st \<Longrightarrow>
    set_state P i st s = (Inr (), (read_clock s)\<lparr>sc_queue :=
      queue_put (sc_queue s) i (job\<lparr>sj_state := st, sj_updated_at := now P s\<rparr>)\<rparr>)"
  by (simp add: set_state_def queue_update_state_def job_transition_def)

lemma set_state_refused:
  "\<not> (\<exists>job. queue_get (sc_queue s) i = Some job \<and> job_valid (sj_kind job) (sj_state job) st) \<Longrightarrow>
    \<exists>e. set_state P i st s = (Inl e, read_clock s)"
  by (auto simp: set_state_def queue_update_state_def job_transition_def read_clock_def split: option.splits)

lemma set_state_cases:
  obtains (refused) e where "set_state P i st s = (Inl e, read_clock s)"
  | (changed) job where "queue_get (sc_queue s) i = Some job"
      "set_state P i st s = (Inr (), (read_clock s)\<lparr>sc_queue :=
        queue_put (sc_queue s) i (job\<lparr>sj_state := st, sj_updated_at := now P s\<rparr>)\<rparr>)"
  using set_state_ok [of s i _ st P] set_state_refused [of s i st P] by blast

lemma modify_job_ok:
  "queue_get (sc_queue s) i = Some job \<Longrightarrow>
    modify_job i f s = s\<lparr>sc_queue := queue_put (sc_queue s) i (f job)\<rparr>"
  by (simp add: modify_job_def)

lemma persist_frame:
  "persist P job s = (res, s1) \<Longrightarrow> \<exists>st. s1 = s\<lparr>sc_store := st\<rparr>"
  by (auto simp: persist_def split: prod.splits)

lemma persist_current_frame:
  "persist_current P i s = (res, s1) \<Longrightarrow> \<exists>st. s1 = s\<lparr>sc_store := st\<rparr>"
  by (auto simp: persist_current_def split: option.splits dest: persist_frame intro: exI [of _ "sc_store s"])

section \<open>The transition system of jobs\<close>

record job_view =
  jv_kind :: JobKind
  jv_state :: JobState
  jv_attempts :: u32
  jv_max :: u32

definition view :: "ScheduledJob \<Rightarrow> job_view" where
  "view job = \<lparr>jv_kind = sj_kind job, jv_state = sj_state job, jv_attempts = sj_attempt_count job,
     jv_max = jr_max_attempts (sj_retry_policy job)\<rparr>"

type_synonym jobs_sys = "(JobId \<Rightarrow> job_view option) \<times> JobId list"

text \<open>
  The jobs by identifier and the log of dispatched identifiers.  A job is lost only when
  the store fails between its removal from the table and its return.
\<close>

inductive jobs_step :: "bool \<Rightarrow> jobs_sys \<Rightarrow> jobs_sys \<Rightarrow> bool" for lossy where
  promote: "m i = Some v \<Longrightarrow> jv_state v = Job_Scheduled
    \<Longrightarrow> jobs_step lossy (m, l) (m(i \<mapsto> v\<lparr>jv_state := Job_Pending\<rparr>), l)"
| drop: "m i = Some v \<Longrightarrow> \<not> job_is_terminal (jv_state v)
    \<Longrightarrow> jobs_step lossy (m, l) (m(i \<mapsto> v\<lparr>jv_state := Job_Cancelled\<rparr>), l)"
| dispatch: "m i = Some v \<Longrightarrow> jv_state v = Job_Pending
    \<Longrightarrow> jobs_step lossy (m, l) (m(i \<mapsto> v\<lparr>jv_state := Job_Running\<rparr>), l @ [i])"
| finish: "m i = Some v \<Longrightarrow> jv_state v = Job_Running \<Longrightarrow> st \<in> {Job_Completed, Job_Failed}
    \<Longrightarrow> jobs_step lossy (m, l) (m(i \<mapsto> v\<lparr>jv_state := st\<rparr>), l)"
| retry: "m i = Some v \<Longrightarrow> jv_state v = Job_Failed \<Longrightarrow> jv_attempts v < jv_max v
    \<Longrightarrow> jobs_step lossy (m, l)
          (m(i \<mapsto> v\<lparr>jv_state := Job_Pending, jv_attempts := jv_attempts v + 1\<rparr>), l)"
| reschedule: "m i = Some v \<Longrightarrow> jv_state v = Job_Completed \<Longrightarrow> jv_kind v = Recurring
    \<Longrightarrow> jobs_step lossy (m, l) (m(i \<mapsto> v\<lparr>jv_state := Job_Scheduled, jv_attempts := 0\<rparr>), l)"
| lose: "lossy \<Longrightarrow> m i = Some v \<Longrightarrow> jv_state v = Job_Pending \<Longrightarrow> jobs_step lossy (m, l) (m(i := None), l)"

abbreviation jobs_steps :: "bool \<Rightarrow> jobs_sys \<Rightarrow> jobs_sys \<Rightarrow> bool" where
  "jobs_steps lossy \<equiv> (jobs_step lossy)\<^sup>*\<^sup>*"

definition abs_jobs :: "('s, RecordingDispatcher) Scheduler \<Rightarrow> jobs_sys" where
  "abs_jobs s = (\<lambda>i. map_option view (queue_get (sc_queue s) i), rd_dispatched (sc_dispatcher s))"

definition lossy :: "('s, 'w) surroundings \<Rightarrow> bool" where
  "lossy P \<longleftrightarrow> (\<exists>st job. \<not> is_ok (fst (js_persist (sp_store P) st job)))"

text \<open>An operation keeps well-formedness and is a sequence of steps.\<close>

definition refines ::
  "('s, RecordingDispatcher) surroundings \<Rightarrow> ('s, RecordingDispatcher) Scheduler
     \<Rightarrow> ('s, RecordingDispatcher) Scheduler \<Rightarrow> bool" where
  "refines P s s1 \<longleftrightarrow>
     (sched_wf s \<longrightarrow> sched_wf s1 \<and> sc_capacity s1 = sc_capacity s \<and> jobs_steps (lossy P) (abs_jobs s) (abs_jobs s1))"

lemma refines_refl [simp]: "refines P s s"
  by (simp add: refines_def)

lemma refines_trans: "refines P s s1 \<Longrightarrow> refines P s1 s2 \<Longrightarrow> refines P s s2"
  unfolding refines_def by (auto intro: rtranclp_trans)

lemma refines_frame:
  "sc_queue s1 = sc_queue s \<Longrightarrow> sc_dispatcher s1 = sc_dispatcher s \<Longrightarrow> sc_capacity s1 = sc_capacity s
    \<Longrightarrow> refines P s s1"
  by (simp add: refines_def sched_wf_def abs_jobs_def)

lemma refines_read_clock [simp]: "refines P s (read_clock s)"
  by (simp add: refines_frame)

lemma refines_persist: "refines P s (snd (persist P job s))"
  using persist_frame [of P job s "fst (persist P job s)" "snd (persist P job s)"]
  by (auto intro!: refines_frame)

lemma refines_persist_current: "refines P s (snd (persist_current P i s))"
  using persist_current_frame [of P i s "fst (persist_current P i s)" "snd (persist_current P i s)"]
  by (auto intro!: refines_frame)

lemma refines_try:
  assumes "refines P s (snd m)" "\<And>x. m = (Inr x, snd m) \<Longrightarrow> refines P s (snd (f x (snd m)))"
  shows "refines P s (snd (try_then m f))"
proof (cases m)
  case (Pair res s1)
  then show ?thesis
    using assms by (cases res) auto
qed

text \<open>Putting back a changed job is one step when the change of its view is.\<close>

lemma refines_put:
  assumes "queue_get (sc_queue s) i = Some job" "sj_id job1 = sj_id job"
    and "sj_state job1 \<noteq> Job_Retrying"
    and "sc_queue s1 = queue_put (sc_queue s) i job1" "sc_dispatcher s1 = sc_dispatcher s"
    and "sc_capacity s1 = sc_capacity s"
    and "\<And>m l. m i = Some (view job) \<Longrightarrow> jobs_steps (lossy P) (m, l) (m(i \<mapsto> view job1), l)"
  shows "refines P s s1"
  unfolding refines_def
proof (intro impI)
  assume wf: "sched_wf s"
  have i: "sj_id job1 = i"
    using wf assms(1,2) by (auto simp: sched_wf_def dest: queue_wf_get)
  have "sched_wf s1"
    using wf assms(1,3-6) queue_wf_put [OF _ i]
    by (auto simp: sched_wf_def queue_put_length [OF assms(1)])
  moreover have "jobs_steps (lossy P) (abs_jobs s) (abs_jobs s1)"
  proof -
    have "abs_jobs s1 = ((fst (abs_jobs s))(i \<mapsto> view job1), snd (abs_jobs s))"
      using assms(4,5) by (auto simp: abs_jobs_def)
    moreover have "fst (abs_jobs s) i = Some (view job)"
      using assms(1) by (simp add: abs_jobs_def)
    ultimately show ?thesis
      using assms(7) [of "fst (abs_jobs s)" "snd (abs_jobs s)"] by simp
  qed
  ultimately show "sched_wf s1 \<and> sc_capacity s1 = sc_capacity s
      \<and> jobs_steps (lossy P) (abs_jobs s) (abs_jobs s1)"
    using assms(6) by blast
qed

lemma queue_put_put [simp]: "queue_put (queue_put q i a) i b = queue_put q i b"
proof -
  have "AList.update i b (AList.update i a al) = AList.update i b al" for al :: "(JobId \<times> ScheduledJob) list"
    by (induction al) auto
  then show ?thesis
    by (simp add: queue_put_def)
qed

lemma refinesI: "(sched_wf s \<Longrightarrow> refines P s s1) \<Longrightarrow> refines P s s1"
  by (auto simp: refines_def)

lemma sched_wf_get:
  "sched_wf s \<Longrightarrow> queue_get (sc_queue s) i = Some job \<Longrightarrow> sj_id job = i \<and> sj_state job \<noteq> Job_Retrying"
  by (auto simp: sched_wf_def dest: queue_wf_get)

lemma view_simps [simp]:
  "jv_kind (view job) = sj_kind job" "jv_state (view job) = sj_state job"
  "jv_attempts (view job) = sj_attempt_count job"
  "jv_max (view job) = jr_max_attempts (sj_retry_policy job)"
  by (simp_all add: view_def)

lemma view_state: "view (job\<lparr>sj_state := st, sj_updated_at := t\<rparr>) = (view job)\<lparr>jv_state := st\<rparr>"
  by (simp add: view_def)

lemma refines_set_state:
  assumes "st \<noteq> Job_Retrying"
    and "\<And>job m l. queue_get (sc_queue s) i = Some job \<Longrightarrow> job_valid (sj_kind job) (sj_state job) st
      \<Longrightarrow> sj_state job \<noteq> Job_Retrying \<Longrightarrow> m i = Some (view job)
      \<Longrightarrow> jobs_step (lossy P) (m, l) (m(i \<mapsto> (view job)\<lparr>jv_state := st\<rparr>), l)"
  shows "refines P s (snd (set_state P i st s))"
proof (rule refinesI)
  assume wf: "sched_wf s"
  show ?thesis
  proof (cases "\<exists>job. queue_get (sc_queue s) i = Some job \<and> job_valid (sj_kind job) (sj_state job) st")
    case True
    then obtain job where job: "queue_get (sc_queue s) i = Some job" "job_valid (sj_kind job) (sj_state job) st"
      by blast
    have "jobs_steps (lossy P) (m, l) (m(i \<mapsto> view (job\<lparr>sj_state := st, sj_updated_at := now P s\<rparr>)), l)"
      if "m i = Some (view job)" for m l
      unfolding view_state using assms(2) [OF job, of m l] that sched_wf_get [OF wf job(1)] by blast
    then show ?thesis
      unfolding set_state_ok [OF job] using assms(1) by (intro refines_put [OF job(1)]) simp_all
  next
    case False
    then show ?thesis
      using set_state_refused [of s i st P] by force
  qed
qed

lemma refines_to_pending: "refines P s (snd (set_state P i Job_Pending s))"
  by (rule refines_set_state) (auto elim: job_valid.elims intro!: promote)

lemma refines_to_cancelled: "refines P s (snd (set_state P i Job_Cancelled s))"
  by (rule refines_set_state) (auto elim: job_valid.elims intro!: drop)

lemma refines_to_completed: "refines P s (snd (set_state P i Job_Completed s))"
  by (rule refines_set_state) (auto elim: job_valid.elims intro!: finish)

lemma refines_cancel: "refines P s (snd (cancel P i s))"
proof -
  have "refines P s (snd (try_then (set_state P i Job_Cancelled s) (\<lambda>_ s1.
            try_then (queue_lookup (sp_env P) (sc_queue s1) i, s1) (\<lambda>job s2.
            try_then (persist P job s2) (\<lambda>_ s3. (Inr (), s3))))))"
  proof (rule refines_try [OF refines_to_cancelled])
    let ?s1 = "snd (set_state P i Job_Cancelled s)"
    show "refines P s (snd (try_then (queue_lookup (sp_env P) (sc_queue ?s1) i, ?s1) (\<lambda>job s2.
            try_then (persist P job s2) (\<lambda>_ s3. (Inr (), s3)))))"
      by (intro refines_try)
         (simp_all add: refines_to_cancelled refines_trans [OF refines_to_cancelled refines_persist])
  qed
  then show ?thesis
    by (simp add: cancel_def split: option.splits)
qed

lemma refines_promote_loop: "refines P s (snd (promote_loop P ids n s))"
proof (induction ids arbitrary: n s)
  case (Cons i ids)
  have step: "refines P s (snd (set_state P i Job_Pending s))"
    by (rule refines_to_pending)
  show ?case
  proof (cases "set_state P i Job_Pending s")
    case (Pair res s1)
    then have 1: "refines P s s1"
      using step by simp
    show ?thesis
    proof (cases res)
      case (Inl e)
      then show ?thesis
        using Pair refines_trans [OF 1 Cons.IH] by simp
    next
      case (Inr u)
      then show ?thesis
        using Pair refines_trans [OF 1 refines_trans [OF refines_persist_current Cons.IH]] by simp
    qed
  qed
qed simp

definition next_due :: "('s, 'w) surroundings \<Rightarrow> ScheduledJob \<Rightarrow> ('s, 'w) Scheduler \<Rightarrow> time" where
  "next_due P job s =
     (case sj_schedule_policy job of
        Cron expression \<Rightarrow> now P s
      | After d \<Rightarrow> now P s + delay_or (sp_env P) 1000000000 d
      | At t \<Rightarrow> t
      | Immediate \<Rightarrow> now P s)"

text \<open>
  The state-changing parts of the handlers in one piece: the table with the changed job,
  which is then persisted.
\<close>

definition rescheduled :: "('s, 'w) surroundings \<Rightarrow> ScheduledJob \<Rightarrow> ('s, 'w) Scheduler \<Rightarrow> ('s, 'w) Scheduler" where
  "rescheduled P job s = (read_clock (read_clock s))\<lparr>sc_queue := queue_put (sc_queue s) (sj_id job)
     (job\<lparr>sj_state := Job_Scheduled, sj_updated_at := now P (read_clock s), sj_due_at := next_due P job s,
          sj_attempt_count := 0, sj_last_error := None\<rparr>)\<rparr>"

lemma reschedule_run:
  assumes "queue_get (sc_queue s) (sj_id job) = Some job" "sj_state job = Job_Completed"
    "sj_kind job = Recurring"
  shows "reschedule_recurring P job outcome s =
      try_then (persist_current P (sj_id job) (rescheduled P job s))
        (\<lambda>_ s2. (Inr (outcome\<lparr>to_rescheduled := to_rescheduled outcome + 1\<rparr>), s2))"
  using assms
  by (simp add: reschedule_recurring_def next_due_def [symmetric] set_state_ok [of "read_clock s" _ job]
      modify_job_ok [where job = "job\<lparr>sj_state := Job_Scheduled, sj_updated_at := now P (read_clock s)\<rparr>"]
      rescheduled_def)

lemma refines_reschedule:
  assumes "queue_get (sc_queue s) (sj_id job) = Some job" "sj_state job = Job_Completed"
    "sj_kind job = Recurring"
  shows "refines P s (snd (reschedule_recurring P job outcome s))"
proof -
  have "refines P s (rescheduled P job s)"
  proof (rule refines_put [OF assms(1)])
    show "sc_queue (rescheduled P job s) = queue_put (sc_queue s) (sj_id job)
     (job\<lparr>sj_state := Job_Scheduled, sj_updated_at := now P (read_clock s), sj_due_at := next_due P job s,
          sj_attempt_count := 0, sj_last_error := None\<rparr>)"
      by (simp add: rescheduled_def)
    fix m :: "JobId \<Rightarrow> job_view option" and l
    assume "m (sj_id job) = Some (view job)"
    then show "jobs_steps (lossy P) (m, l) (m(sj_id job \<mapsto> view (job\<lparr>sj_state := Job_Scheduled,
         sj_updated_at := now P (read_clock s), sj_due_at := next_due P job s, sj_attempt_count := 0,
         sj_last_error := None\<rparr>)), l)"
      using assms reschedule [of m "sj_id job" "view job" "lossy P" l] by (auto simp: view_def)
  qed (simp_all add: rescheduled_def)
  then show ?thesis
    unfolding reschedule_run [OF assms]
    by (intro refines_try) (auto intro: refines_trans refines_persist_current)
qed

lemma refines_handle_completion:
  "refines P s (snd (handle_completion P i outcome s))"
proof (rule refinesI)
  assume wf: "sched_wf s"
  show ?thesis
    unfolding handle_completion_def
  proof (intro refines_try refines_to_completed)
    let ?s1 = "snd (set_state P i Job_Completed s)"
    let ?s2 = "snd (persist_current P i ?s1)"
    have 2: "refines P s ?s2"
      using refines_to_completed refines_persist_current by (rule refines_trans)
    then show "refines P s ?s2" .
    fix x y
    assume ok: "set_state P i Job_Completed s = (Inr x, ?s1)"
    then obtain job where job: "queue_get (sc_queue s) i = Some job"
      "job_valid (sj_kind job) (sj_state job) Job_Completed"
      using set_state_refused [of s i Job_Completed P] by fastforce
    let ?job = "job\<lparr>sj_state := Job_Completed, sj_updated_at := now P s\<rparr>"
    have "queue_get (sc_queue ?s1) i = Some ?job"
      by (simp add: set_state_ok [OF job])
    then have get: "queue_get (sc_queue ?s2) i = Some ?job"
      using persist_current_frame [of P i ?s1 "fst (persist_current P i ?s1)" ?s2] by auto
    have i: "sj_id ?job = i"
      using sched_wf_get [OF wf job(1)] by simp
    have "refines P ?s2 (snd (reschedule_recurring P ?job o1 ?s2))" if "sj_kind job = Recurring" for o1
      by (rule refines_reschedule) (use get i that in simp_all)
    then show "refines P s (snd (let outcome1 = outcome\<lparr>to_completed := to_completed outcome + 1\<rparr> in
        case queue_get (sc_queue ?s2) i of
          None \<Rightarrow> (Inr outcome1, ?s2)
        | Some job \<Rightarrow> if sj_kind job = Recurring then reschedule_recurring P job outcome1 ?s2
                       else (Inr outcome1, ?s2)))"
      using 2 by (auto simp: get Let_def intro: refines_trans)
  qed
qed

definition retry_due :: "('s, 'w) surroundings \<Rightarrow> ScheduledJob \<Rightarrow> ('s, 'w) Scheduler \<Rightarrow> time" where
  "retry_due P job s = now P (read_clock (read_clock s)) + delay_or (sp_env P) 1000000000
     (se_backoff (sp_env P) (sj_retry_policy job) (sj_attempt_count job))"

definition retried :: "('s, 'w) surroundings \<Rightarrow> JobId \<Rightarrow> ScheduledJob \<Rightarrow> ('s, 'w) Scheduler \<Rightarrow> ('s, 'w) Scheduler" where
  "retried P i job s = (read_clock (read_clock (read_clock s)))\<lparr>sc_queue := queue_put (sc_queue s) i
     (job\<lparr>sj_state := Job_Pending, sj_updated_at := now P (read_clock s),
          sj_attempt_count := sj_attempt_count job + 1, sj_due_at := retry_due P job s\<rparr>)\<rparr>"

lemma retry_run:
  assumes "queue_get (sc_queue s) i = Some job1" "sj_state job1 = Job_Failed"
    and "sj_attempt_count job = sj_attempt_count job1" "sj_retry_policy job = sj_retry_policy job1"
  shows "retry_job P job i outcome s = try_then (persist_current P i (retried P i job1 s))
      (\<lambda>_ s3. (Inr (outcome\<lparr>to_retried := to_retried outcome + 1\<rparr>), s3))"
  using assms
  by (simp add: retry_job_def Let_def set_state_ok [where job = job1]
      set_state_ok [where job = "job1\<lparr>sj_state := Job_Retrying, sj_updated_at := now P s\<rparr>"]
      modify_job_ok [where job = "job1\<lparr>sj_state := Job_Pending, sj_updated_at := now P (read_clock s)\<rparr>"]
      retried_def retry_due_def now_def read_clock_def)

lemma refines_retry_job:
  assumes "queue_get (sc_queue s) i = Some job1" "sj_state job1 = Job_Failed"
    and "sj_attempt_count job = sj_attempt_count job1" "sj_retry_policy job = sj_retry_policy job1"
    and "can_retry (sj_retry_policy job) (sj_attempt_count job)"
  shows "refines P s (snd (retry_job P job i outcome s))"
proof -
  have "refines P s (retried P i job1 s)"
  proof (rule refines_put [OF assms(1)])
    show "sc_queue (retried P i job1 s) = queue_put (sc_queue s) i
     (job1\<lparr>sj_state := Job_Pending, sj_updated_at := now P (read_clock s),
          sj_attempt_count := sj_attempt_count job1 + 1, sj_due_at := retry_due P job1 s\<rparr>)"
      by (simp add: retried_def)
    fix m :: "JobId \<Rightarrow> job_view option" and l
    assume "m i = Some (view job1)"
    then show "jobs_steps (lossy P) (m, l) (m(i \<mapsto> view (job1\<lparr>sj_state := Job_Pending,
        sj_updated_at := now P (read_clock s), sj_attempt_count := sj_attempt_count job1 + 1,
        sj_due_at := retry_due P job1 s\<rparr>)), l)"
      using assms retry [of m i "view job1" "lossy P" l] by (auto simp: view_def can_retry_def)
  qed (simp_all add: retried_def)
  then show ?thesis
    unfolding retry_run [OF assms(1-4)]
    by (intro refines_try) (auto intro: refines_trans refines_persist_current)
qed

definition failed_state :: "('s, 'w) surroundings \<Rightarrow> JobId \<Rightarrow> string \<Rightarrow> ScheduledJob \<Rightarrow> ('s, 'w) Scheduler \<Rightarrow> ('s, 'w) Scheduler" where
  "failed_state P i error job s = (read_clock s)\<lparr>sc_queue := queue_put (sc_queue s) i
     (job\<lparr>sj_state := Job_Failed, sj_updated_at := now P s, sj_last_error := Some error\<rparr>)\<rparr>"

lemma failure_run:
  assumes "queue_get (sc_queue s) i = Some job" "sj_state job = Job_Running"
  shows "handle_failure P i error outcome s =
      try_then (persist_current P i (failed_state P i error job s)) (\<lambda>_ s2.
        let outcome1 = outcome\<lparr>to_failed := to_failed outcome + 1\<rparr> in
        if can_retry (sj_retry_policy job) (sj_attempt_count job) then retry_job P job i outcome1 s2
        else (Inr outcome1, s2))"
  using assms
  by (simp add: handle_failure_def set_state_ok [OF assms(1)] failed_state_def
      modify_job_ok [where job = "job\<lparr>sj_state := Job_Failed, sj_updated_at := now P s\<rparr>"])

lemma persist_current_queue [simp]:
  "sc_queue (snd (persist_current P i s)) = sc_queue s"
  "sc_dispatcher (snd (persist_current P i s)) = sc_dispatcher s"
  "sc_capacity (snd (persist_current P i s)) = sc_capacity s"
  using persist_current_frame [of P i s "fst (persist_current P i s)" "snd (persist_current P i s)"] by auto

lemma refines_handle_failure:
  assumes "queue_get (sc_queue s) i = Some job" "sj_state job = Job_Running"
  shows "refines P s (snd (handle_failure P i error outcome s))"
proof -
  let ?job = "job\<lparr>sj_state := Job_Failed, sj_updated_at := now P s, sj_last_error := Some error\<rparr>"
  let ?s1 = "failed_state P i error job s"
  let ?s2 = "snd (persist_current P i ?s1)"
  have "refines P s ?s1"
  proof (rule refines_put [OF assms(1)])
    show "sc_queue ?s1 = queue_put (sc_queue s) i ?job"
      by (simp add: failed_state_def)
    fix m :: "JobId \<Rightarrow> job_view option" and l
    assume "m i = Some (view job)"
    then show "jobs_steps (lossy P) (m, l) (m(i \<mapsto> view ?job), l)"
      using assms finish [of m i "view job" Job_Failed "lossy P" l] by (auto simp: view_def)
  qed (simp_all add: failed_state_def)
  then have 2: "refines P s ?s2"
    by (rule refines_trans [OF _ refines_persist_current])
  have "queue_get (sc_queue ?s2) i = Some ?job"
    by (simp add: failed_state_def)
  then have "refines P ?s2 (snd (retry_job P job i o1 ?s2))"
    if "can_retry (sj_retry_policy job) (sj_attempt_count job)" for o1
    by (rule refines_retry_job) (use that in simp_all)
  then show ?thesis
    unfolding failure_run [OF assms] using 2 by (intro refines_try) (auto simp: Let_def intro: refines_trans)
qed

lemma refines_apply_completions: "refines P s (snd (apply_completions P cs outcome s))"
proof (induction cs arbitrary: outcome s)
  case (Cons c cs)
  obtain i result where c: "c = (i, result)"
    by fastforce
  show ?case
  proof (cases "queue_get_state (sc_queue s) i = Some Job_Running")
    case False
    then show ?thesis
      using Cons.IH by (simp add: c)
  next
    case True
    then obtain job where running: "queue_get (sc_queue s) i = Some job" "sj_state job = Job_Running"
      by (auto simp: queue_get_state_def)
    have "refines P s (snd (try_then (set_state P i Job_Cancelled s) (\<lambda>_ s1.
        try_then (persist_current P i s1) (\<lambda>_ s2.
          (Inr (outcome\<lparr>to_cancelled := to_cancelled outcome + 1\<rparr>), s2)))))"
      by (intro refines_try refines_to_cancelled)
         (simp_all add: refines_trans [OF refines_to_cancelled refines_persist_current])
    then have r: "refines P s (snd (case result of
               Result_Success \<Rightarrow> handle_completion P i outcome s
             | Result_Failed error \<Rightarrow> handle_failure P i error outcome s
             | Result_Cancelled \<Rightarrow>
                 try_then (set_state P i Job_Cancelled s) (\<lambda>_ s1.
                 try_then (persist_current P i s1) (\<lambda>_ s2.
                   (Inr (outcome\<lparr>to_cancelled := to_cancelled outcome + 1\<rparr>), s2)))))"
      (is "refines P s (snd ?r)")
      using refines_handle_failure [OF running(1,2)]
      by (cases result) (simp_all add: refines_handle_completion)
    have "refines P s (snd (try_then ?r (\<lambda>outcome1 s3. apply_completions P cs outcome1 s3)))"
      by (rule refines_try [OF r]) (rule refines_trans [OF r Cons.IH])
    then show ?thesis
      using True by (simp add: c)
  qed
qed simp

text \<open>A job taken out of the table: the table without it, and with it back in.\<close>

lemma queue_remove_get:
  assumes "queue_remove env q i = (Inr job, q1)"
  shows "queue_get q i = Some job" "queue_get q1 = (queue_get q)(i := None)" "sq_capacity q1 = sq_capacity q"
    "queue_wf q \<Longrightarrow> queue_wf q1" "queue_wf q \<Longrightarrow> length (sq_jobs q1) < length (sq_jobs q)"
proof -
  show job: "queue_get q i = Some job"
    using assms by (auto simp: queue_remove_def split: option.splits)
  have q1: "q1 = q\<lparr>sq_jobs := AList.delete i (sq_jobs q),
             sq_heap := filter (\<lambda>entry. qe_job_id entry \<noteq> i) (sq_heap q)\<rparr>"
    using assms by (auto simp: queue_remove_def split: option.splits)
  show "queue_get q1 = (queue_get q)(i := None)" "sq_capacity q1 = sq_capacity q"
    by (simp_all add: q1 queue_get_def AList.delete_conv')
  show "queue_wf q1" if "queue_wf q"
    unfolding q1 by (rule queue_wf_delete [OF that])
  have "(i, job) \<in> set (sq_jobs q)"
    using job by (simp add: queue_get_def map_of_SomeD)
  then show "length (sq_jobs q1) < length (sq_jobs q)"
    by (auto simp: q1 AList.delete_eq intro!: length_filter_less)
qed

lemma removed_wf:
  assumes "sched_wf s" "queue_remove env (sc_queue s) i = (Inr job, q1)" "sc_queue s1 = q1"
    "sc_capacity s1 = sc_capacity s"
  shows "sched_wf s1"
  using assms(1,3,4) queue_remove_get [OF assms(2)]
  by (auto simp: sched_wf_def split: if_splits)

lemma insert_back:
  assumes "sched_wf s" "queue_remove env (sc_queue s) i = (Inr job, q1)" "sc_queue s1 = q1"
    "sc_capacity s1 = sc_capacity s" "sj_id job1 = i" "sj_state job1 \<noteq> Job_Retrying"
  shows "\<exists>s2. insert_job job1 s1 = (Inr i, s2) \<and> sched_wf s2
     \<and> queue_get (sc_queue s2) = (queue_get (sc_queue s))(i \<mapsto> job1)
     \<and> sc_store s2 = sc_store s1 \<and> sc_dispatcher s2 = sc_dispatcher s1 \<and> sc_capacity s2 = sc_capacity s1
     \<and> sc_reads s2 = sc_reads s1"
proof -
  note rem = queue_remove_get [OF assms(2)]
  have room: "length (sq_jobs q1) < sc_capacity s" "sq_capacity q1 = sc_capacity s" "queue_wf q1"
    using rem assms(1) by (auto simp: sched_wf_def)
  define s2 where "s2 = s1\<lparr>sc_queue := q1\<lparr>sq_heap := sq_heap q1 @ [entry_of job1],
     sq_jobs := AList.update i job1 (sq_jobs q1)\<rparr>\<rparr>"
  have "insert_job job1 s1 = (Inr i, s2)"
    using room assms(3,5) by (simp add: insert_job_def queue_insert_def s2_def)
  moreover have get: "queue_get (sc_queue s2) = (queue_get (sc_queue s))(i \<mapsto> job1)"
    using rem(2) by (simp add: s2_def queue_get_def AList.update_conv')
  moreover have "queue_wf (sc_queue s2)"
    using queue_wf_update [OF room(3) assms(5), of "sq_heap q1"] by (simp add: s2_def)
  moreover have "length (sq_jobs (sc_queue s2)) \<le> sc_capacity s"
    using room(1) by (simp add: s2_def length_update)
  ultimately have "sched_wf s2"
    using assms(1,4,6) room(2) by (auto simp: sched_wf_def s2_def get [unfolded s2_def] split: if_splits)
  then show ?thesis
    using \<open>insert_job job1 s1 = (Inr i, s2)\<close> get by (auto simp: s2_def)
qed

lemma persist_lossy: "persist P job s = (Inl e, s1) \<Longrightarrow> lossy P"
  unfolding lossy_def
  by (rule exI [of _ "sc_store s"], rule exI [of _ job]) (auto simp: persist_def split: prod.splits)

lemma persist_cases:
  obtains (failed) e st where "persist P job s = (Inl e, s\<lparr>sc_store := st\<rparr>)" "lossy P"
  | (kept) st where "persist P job s = (Inr (), s\<lparr>sc_store := st\<rparr>)"
proof (cases "persist P job s")
  case (Pair res s1)
  then obtain st where "s1 = s\<lparr>sc_store := st\<rparr>"
    using persist_frame by blast
  then show ?thesis
    using Pair that persist_lossy [of P job s] by (cases res) (blast, simp)
qed

text \<open>
  One round of the dispatch loop: the job is not in the table or not pending, the store
  fails before or after the dispatcher is asked, or the dispatcher accepts or refuses.
\<close>

lemma dispatch_round [consumes 1, case_names absent other unsaved accepted refused unreturned]:
  assumes wf: "sched_wf s"
  obtains
    (absent) "queue_get (sc_queue s) i = None" "\<And>ids n. dispatch_loop P (i # ids) n s = dispatch_loop P ids n s"
  | (other) job s2 where "queue_get (sc_queue s) i = Some job" "sj_state job \<noteq> Job_Pending" "sched_wf s2"
      "queue_get (sc_queue s2) = queue_get (sc_queue s)" "sc_dispatcher s2 = sc_dispatcher s"
      "\<And>ids n. dispatch_loop P (i # ids) n s = dispatch_loop P ids n s2"
  | (unsaved) e s2 where "lossy P" "queue_get (sc_queue s2) = (queue_get (sc_queue s))(i := None)"
      "sc_dispatcher s2 = sc_dispatcher s" "\<And>ids n. dispatch_loop P (i # ids) n s = (Inl e, s2)"
  | (accepted) job1 w s2 where "sj_id job1 = i" "wd_dispatch (sp_dispatch P) (sc_dispatcher s) job1 = (Inr (), w)"
      "sched_wf s2" "queue_get (sc_queue s2) = (queue_get (sc_queue s))(i \<mapsto> job1)" "sc_dispatcher s2 = w"
      "\<And>ids n. dispatch_loop P (i # ids) n s = dispatch_loop P ids (n + 1) s2"
  | (refused) job1 job2 e w s2 where "sj_id job1 = i" "wd_dispatch (sp_dispatch P) (sc_dispatcher s) job1 = (Inl e, w)"
      "sj_state job2 = Job_Pending" "queue_get (sc_queue s2) = (queue_get (sc_queue s))(i \<mapsto> job2)"
      "sc_dispatcher s2 = w" "\<And>ids n. dispatch_loop P (i # ids) n s = (Inl e, s2)"
  | (unreturned) job1 e e1 w s2 where "lossy P" "sj_id job1 = i"
      "wd_dispatch (sp_dispatch P) (sc_dispatcher s) job1 = (Inl e, w)"
      "queue_get (sc_queue s2) = (queue_get (sc_queue s))(i := None)" "sc_dispatcher s2 = w"
      "\<And>ids n. dispatch_loop P (i # ids) n s = (Inl e1, s2)"
proof (cases "queue_get (sc_queue s) i")
  case None
  then show ?thesis
    by (intro absent) (simp_all add: queue_remove_def)
next
  case (Some job)
  obtain q where rm: "queue_remove (sp_env P) (sc_queue s) i = (Inr job, q)"
    using Some by (simp add: queue_remove_def)
  note rem = queue_remove_get [OF rm]
  have id: "sj_id job = i" "sj_state job \<noteq> Job_Retrying"
    using sched_wf_get [OF wf Some] by auto
  let ?s1 = "(read_clock s)\<lparr>sc_queue := q\<rparr>"
  show ?thesis
  proof (cases "sj_state job = Job_Pending")
    case False
    then have "job_transition job Job_Running (now P s)
        = Inl (Job_InvalidTransition (job_state_text (sj_state job)) ''running'')"
      by (cases "sj_state job") (simp_all add: job_transition_def)
    moreover obtain s2 where s2: "insert_job job ?s1 = (Inr i, s2)" "sched_wf s2"
      "queue_get (sc_queue s2) = (queue_get (sc_queue s))(i \<mapsto> job)" "sc_dispatcher s2 = sc_dispatcher s"
      using insert_back [OF wf rm, of ?s1 job] id by auto
    ultimately show ?thesis
      using Some False rm by (intro other [of job s2]) (auto simp: Let_def)
  next
    case True
    let ?job = "job\<lparr>sj_state := Job_Running, sj_updated_at := now P s\<rparr>"
    have tr: "job_transition job Job_Running (now P s) = Inr ?job"
      using True by (simp add: job_transition_def)
    show ?thesis
    proof (cases rule: persist_cases [of P ?job ?s1])
      case (failed e st)
      then show ?thesis
        using rm tr rem(2) by (intro unsaved [of "?s1\<lparr>sc_store := st\<rparr>" e]) (simp_all add: Let_def)
    next
      case (kept st)
      obtain res w where d: "wd_dispatch (sp_dispatch P) (sc_dispatcher s) ?job = (res, w)"
        by fastforce
      let ?s2 = "?s1\<lparr>sc_store := st, sc_dispatcher := w\<rparr>"
      show ?thesis
      proof (cases res)
        case (Inr u)
        obtain s3 where "insert_job ?job ?s2 = (Inr i, s3)" "sched_wf s3"
          "queue_get (sc_queue s3) = (queue_get (sc_queue s))(i \<mapsto> ?job)" "sc_dispatcher s3 = w"
          using insert_back [OF wf rm, of ?s2 ?job] id by auto
        then show ?thesis
          using rm tr kept d Inr id by (intro accepted [of ?job w s3]) (simp_all add: Let_def)
      next
        case (Inl e)
        let ?job2 = "?job\<lparr>sj_state := Job_Pending, sj_updated_at := now P ?s2\<rparr>"
        have run: "dispatch_loop P (i # ids) n s = refuse_dispatch P ?job e ?s2" for ids n
          using rm tr kept d Inl by (simp add: Let_def)
        show ?thesis
        proof (cases rule: persist_cases [of P ?job2 "read_clock ?s2"])
          case (failed e1 st1)
          then show ?thesis
            using d Inl id rem(2)
            by (intro unreturned [of ?job e w "(read_clock ?s2)\<lparr>sc_store := st1\<rparr>" e1])
               (simp_all add: run refuse_dispatch_def Let_def del: dispatch_loop.simps)
        next
          case (kept st1)
          obtain s3 where "insert_job ?job2 ((read_clock ?s2)\<lparr>sc_store := st1\<rparr>) = (Inr i, s3)"
            "queue_get (sc_queue s3) = (queue_get (sc_queue s))(i \<mapsto> ?job2)" "sc_dispatcher s3 = w"
            using insert_back [OF wf rm, of "(read_clock ?s2)\<lparr>sc_store := st1\<rparr>" ?job2] id by auto
          then show ?thesis
            using d Inl id kept
            by (intro refused [of ?job e w ?job2 s3]) (simp_all add: run refuse_dispatch_def Let_def del: dispatch_loop.simps)
        qed
      qed
    qed
  qed
qed

lemma refines_lose:
  assumes "sched_wf s" "queue_remove env (sc_queue s) i = (Inr job, q1)" "sj_state job = Job_Pending"
    "lossy P" "sc_queue s1 = q1" "sc_capacity s1 = sc_capacity s" "sc_dispatcher s1 = sc_dispatcher s"
  shows "refines P s s1"
proof -
  note rem = queue_remove_get [OF assms(2)]
  have "jobs_step (lossy P) (abs_jobs s) ((fst (abs_jobs s))(i := None), snd (abs_jobs s))"
    using rem(1) assms(3,4) lose [of "lossy P" "fst (abs_jobs s)" i "view job" "snd (abs_jobs s)"]
    by (simp add: abs_jobs_def)
  moreover have "abs_jobs s1 = ((fst (abs_jobs s))(i := None), snd (abs_jobs s))"
    using assms(5,7) rem(2) by (auto simp: abs_jobs_def)
  ultimately show ?thesis
    using removed_wf [OF assms(1,2,5,6)] assms(6) by (simp add: refines_def r_into_rtranclp)
qed

lemma refines_back:
  assumes "sched_wf s2" "queue_get (sc_queue s2) = (queue_get (sc_queue s))(i \<mapsto> job1)"
    "queue_get (sc_queue s) i = Some job" "view job1 = view job" "sc_capacity s2 = sc_capacity s"
    "sc_dispatcher s2 = sc_dispatcher s"
  shows "refines P s s2"
proof -
  have "abs_jobs s2 = abs_jobs s"
    using assms(2,3,4,6) by (auto simp: abs_jobs_def)
  then show ?thesis
    using assms(1,5) by (simp add: refines_def)
qed

lemma refines_refuse:
  assumes "sched_wf s" "queue_remove env (sc_queue s) i = (Inr job, q1)" "sj_state job = Job_Pending"
    "sc_queue s1 = q1" "sc_capacity s1 = sc_capacity s" "sc_dispatcher s1 = sc_dispatcher s"
  shows "refines P s (snd (refuse_dispatch P (job\<lparr>sj_state := Job_Running, sj_updated_at := t\<rparr>) e s1))"
proof -
  note rem = queue_remove_get [OF assms(2)]
  define job1 where "job1 = job\<lparr>sj_state := Job_Pending, sj_updated_at := now P s1\<rparr>"
  have job1: "sj_id job1 = i" "sj_state job1 \<noteq> Job_Retrying" "view job1 = view job"
    using sched_wf_get [OF assms(1) rem(1)] assms(3) by (simp_all add: job1_def view_def)
  have run: "refuse_dispatch P (job\<lparr>sj_state := Job_Running, sj_updated_at := t\<rparr>) e s1
      = try_then (persist P job1 (read_clock s1)) (\<lambda>_ s2. try_then (insert_job job1 s2) (\<lambda>_ s3. (Inl e, s3)))"
    by (simp add: refuse_dispatch_def job1_def Let_def)
  show ?thesis
  proof (cases rule: persist_cases [of P job1 "read_clock s1"])
    case (failed e1 st)
    then show ?thesis
      unfolding run using assms by (simp add: refines_lose [OF assms(1-3)])
  next
    case (kept st)
    obtain s3 where s3: "insert_job job1 ((read_clock s1)\<lparr>sc_store := st\<rparr>) = (Inr i, s3)" "sched_wf s3"
      "queue_get (sc_queue s3) = (queue_get (sc_queue s))(i \<mapsto> job1)"
      "sc_dispatcher s3 = sc_dispatcher s" "sc_capacity s3 = sc_capacity s"
      using insert_back [OF assms(1,2) _ _ job1(1,2), of "(read_clock s1)\<lparr>sc_store := st\<rparr>"] assms(4-6)
      by auto
    then show ?thesis
      unfolding run kept using refines_back [OF s3(2,3) rem(1) job1(3) s3(5,4)] by simp
  qed
qed

text \<open>One round of the dispatch loop that succeeds.\<close>

lemma dispatch_one:
  assumes "sp_dispatch P = recording_dispatch" "sched_wf s" "\<not> rd_should_fail (sc_dispatcher s)"
    and "queue_get (sc_queue s) i = Some job" "sj_state job = Job_Pending"
    and "persist P (job\<lparr>sj_state := Job_Running, sj_updated_at := now P s\<rparr>)
           ((read_clock s)\<lparr>sc_queue := snd (queue_remove (sp_env P) (sc_queue s) i)\<rparr>)
         = (Inr (), (read_clock s)\<lparr>sc_queue := snd (queue_remove (sp_env P) (sc_queue s) i), sc_store := st\<rparr>)"
  obtains s3 where "\<And>ids n. dispatch_loop P (i # ids) n s = dispatch_loop P ids (n + 1) s3"
    "sched_wf s3" "sc_capacity s3 = sc_capacity s" "sc_store s3 = st"
    "queue_get (sc_queue s3) = (queue_get (sc_queue s))(i \<mapsto> job\<lparr>sj_state := Job_Running, sj_updated_at := now P s\<rparr>)"
    "sc_dispatcher s3 = (sc_dispatcher s)\<lparr>rd_dispatched := rd_dispatched (sc_dispatcher s) @ [i]\<rparr>"
proof -
  let ?job = "job\<lparr>sj_state := Job_Running, sj_updated_at := now P s\<rparr>"
  let ?w = "(sc_dispatcher s)\<lparr>rd_dispatched := rd_dispatched (sc_dispatcher s) @ [i]\<rparr>"
  obtain q where rm: "queue_remove (sp_env P) (sc_queue s) i = (Inr job, q)"
    using assms(4) by (simp add: queue_remove_def)
  let ?s2 = "(read_clock s)\<lparr>sc_queue := q, sc_store := st, sc_dispatcher := ?w\<rparr>"
  have id: "sj_id job = i"
    using sched_wf_get [OF assms(2,4)] by simp
  have tr: "job_transition job Job_Running (now P s) = Inr ?job"
    using assms(5) by (simp add: job_transition_def)
  obtain s3 where s3: "insert_job ?job ?s2 = (Inr i, s3)" "sched_wf s3"
    "queue_get (sc_queue s3) = (queue_get (sc_queue s))(i \<mapsto> ?job)" "sc_store s3 = st"
    "sc_dispatcher s3 = ?w" "sc_capacity s3 = sc_capacity s"
    using insert_back [OF assms(2) rm, of ?s2 ?job] id by auto
  have "dispatch_loop P (i # ids) n s = dispatch_loop P ids (n + 1) s3" for ids n
    using rm tr assms(1,3,6) s3(1) id by (simp add: Let_def recording_dispatch_def)
  then show thesis
    using s3 by (intro that)
qed

lemma refines_dispatch_loop:
  assumes "sp_dispatch P = recording_dispatch"
  shows "refines P s (snd (dispatch_loop P ids n s))"
proof (induction ids arbitrary: n s)
  case (Cons i ids)
  show ?case
  proof (rule refinesI)
    assume wf: "sched_wf s"
    obtain res q where q: "queue_remove (sp_env P) (sc_queue s) i = (res, q)"
      by fastforce
    show ?thesis
    proof (cases res)
      case (Inl e)
      then have "q = sc_queue s"
        using q by (auto simp: queue_remove_def split: option.splits)
      then show ?thesis
        using q Inl Cons.IH by simp
    next
      case (Inr job)
      note rm = q [unfolded Inr]
      note rem = queue_remove_get [OF rm]
      have id: "sj_id job = i" "sj_state job \<noteq> Job_Retrying"
        using sched_wf_get [OF wf rem(1)] by auto
      define s1 where "s1 = (read_clock s)\<lparr>sc_queue := q\<rparr>"
      have s1: "sc_queue s1 = q" "sc_capacity s1 = sc_capacity s" "sc_dispatcher s1 = sc_dispatcher s"
        by (simp_all add: s1_def)
      show ?thesis
      proof (cases "job_transition job Job_Running (now P s)")
        case (Inl e)
        obtain s2 where s2: "insert_job job s1 = (Inr i, s2)" "sched_wf s2"
          "queue_get (sc_queue s2) = (queue_get (sc_queue s))(i \<mapsto> job)"
          "sc_dispatcher s2 = sc_dispatcher s" "sc_capacity s2 = sc_capacity s"
          using insert_back [OF wf rm s1(1,2) id] s1 by auto
        have "refines P s s2"
          using refines_back [OF s2(2,3) rem(1) refl s2(5,4)] .
        then show ?thesis
          using rm Inl s2(1) refines_trans [OF _ Cons.IH] by (simp add: s1_def [symmetric] Let_def)
      next
        case (Inr job1)
        have pending: "sj_state job = Job_Pending"
          and job1: "job1 = job\<lparr>sj_state := Job_Running, sj_updated_at := now P s\<rparr>"
          using Inr by (auto simp: job_transition_def split: if_splits elim: job_valid.elims)
        show ?thesis
        proof (cases rule: persist_cases [of P job1 s1])
          case (failed e st)
          then show ?thesis
            using rm Inr by (simp add: s1_def [symmetric] Let_def refines_lose [OF wf rm pending] s1)
        next
          case (kept st)
          show ?thesis
          proof (cases "rd_should_fail (sc_dispatcher s)")
            case True
            then show ?thesis
              using rm Inr kept refines_refuse [OF wf rm pending,
                  of "s1\<lparr>sc_store := st, sc_dispatcher := sc_dispatcher s\<rparr>" P "now P s" QueueFull] s1
              by (simp add: s1_def [symmetric] Let_def assms recording_dispatch_def job1)
          next
            case False
            have pk: "persist P (job\<lparr>sj_state := Job_Running, sj_updated_at := now P s\<rparr>)
                ((read_clock s)\<lparr>sc_queue := snd (queue_remove (sp_env P) (sc_queue s) i)\<rparr>)
              = (Inr (), (read_clock s)\<lparr>sc_queue := snd (queue_remove (sp_env P) (sc_queue s) i), sc_store := st\<rparr>)"
              using kept by (simp add: rm job1 s1_def)
            obtain s3 where run: "\<And>ids n. dispatch_loop P (i # ids) n s = dispatch_loop P ids (n + 1) s3"
              and s3: "sched_wf s3" "sc_capacity s3 = sc_capacity s" "sc_store s3 = st"
              "queue_get (sc_queue s3) = (queue_get (sc_queue s))(i \<mapsto> job\<lparr>sj_state := Job_Running, sj_updated_at := now P s\<rparr>)"
              "sc_dispatcher s3 = (sc_dispatcher s)\<lparr>rd_dispatched := rd_dispatched (sc_dispatcher s) @ [i]\<rparr>"
              by (rule dispatch_one [OF assms wf False rem(1) pending pk]) (rule that)
            have "abs_jobs s3 = ((fst (abs_jobs s))(i \<mapsto> (view job)\<lparr>jv_state := Job_Running\<rparr>), snd (abs_jobs s) @ [i])"
              using s3(4,5) by (auto simp: abs_jobs_def view_def)
            moreover have "jobs_step (lossy P) (fst (abs_jobs s), snd (abs_jobs s))
                ((fst (abs_jobs s))(i \<mapsto> (view job)\<lparr>jv_state := Job_Running\<rparr>), snd (abs_jobs s) @ [i])"
              using rem(1) pending by (intro dispatch) (simp_all add: abs_jobs_def)
            ultimately have "refines P s s3"
              using s3(1,2) by (simp add: refines_def r_into_rtranclp)
            then show ?thesis
              unfolding run by (rule refines_trans [OF _ Cons.IH])
          qed
        qed
      qed
    qed
  qed
qed simp

text \<open>A tick is a sequence of steps of the transition system, also when it fails.\<close>

lemma refines_tick:
  assumes "sp_dispatch P = recording_dispatch"
  shows "refines P s (snd (tick P completions s))"
proof -
  obtain n s1 where s1: "promote_due_jobs P (now P s) (read_clock s) = (n, s1)"
    by fastforce
  have "refines P (read_clock s) s1"
    using s1 refines_promote_loop [of P "read_clock s"] unfolding promote_due_jobs_def by (metis snd_conv)
  then have 1: "refines P s s1"
    by (rule refines_trans [OF refines_read_clock])
  have 2: "refines P s (snd (dispatch_pending P s1))"
    unfolding dispatch_pending_def by (rule refines_trans [OF 1 refines_dispatch_loop [OF assms]])
  show ?thesis
    unfolding tick_def s1 prod.case
    by (rule refines_try [OF 2]) (rule refines_trans [OF 2 refines_apply_completions])
qed

section \<open>Runs\<close>

text \<open>
  One operation on the scheduler: a job that has not run yet is submitted (the label), a job
  is cancelled, a tick is executed, or the dispatcher starts or stops failing.  A job may be
  submitted under an identifier that is in the table already; it then replaces that job.
\<close>

inductive sched_op ::
  "('s, RecordingDispatcher) surroundings \<Rightarrow> ScheduledJob option
     \<Rightarrow> ('s, RecordingDispatcher) Scheduler \<Rightarrow> ('s, RecordingDispatcher) Scheduler \<Rightarrow> bool" for P where
  op_submit: "sj_attempt_count job = 0 \<Longrightarrow> sj_state job \<in> {Job_Scheduled, Job_Pending}
    \<Longrightarrow> sched_op P (Some job) s (snd (submit P job s))"
| op_cancel: "sched_op P None s (snd (cancel P i s))"
| op_tick: "sched_op P None s (snd (tick P completions s))"
| op_dispatcher: "sched_op P None s (s\<lparr>sc_dispatcher := (sc_dispatcher s)\<lparr>rd_should_fail := f\<rparr>\<rparr>)"

text \<open>The runs of a scheduler with the jobs submitted so far, each identifier once.\<close>

inductive sched_run ::
  "('s, RecordingDispatcher) surroundings \<Rightarrow> 's \<Rightarrow> ScheduledJob list \<Rightarrow> ('s, RecordingDispatcher) Scheduler \<Rightarrow> bool"
  for P st where
  run_start: "sched_run P st [] (Scheduler_new capacity st \<lparr>rd_dispatched = [], rd_should_fail = f\<rparr>)"
| run_submit: "sched_run P st js s \<Longrightarrow> sched_op P (Some job) s s1 \<Longrightarrow> sj_id job \<notin> sj_id ` set js
    \<Longrightarrow> sched_run P st (job # js) s1"
| run_other: "sched_run P st js s \<Longrightarrow> sched_op P None s s1 \<Longrightarrow> sched_run P st js s1"

inductive_cases sched_op_submitE: "sched_op P (Some job) s s1"
inductive_cases sched_op_otherE: "sched_op P None s s1"

lemma submit_effect [consumes 2, case_names full inserted]:
  assumes "sched_wf s" "sj_state job \<noteq> Job_Retrying"
  obtains (full) "submit P job s = (Inl QueueFull, s)" "sc_capacity s \<le> length (sq_jobs (sc_queue s))"
  | (inserted) "sched_wf (snd (submit P job s))"
      "queue_get (sc_queue (snd (submit P job s))) = (queue_get (sc_queue s))(sj_id job \<mapsto> job)"
      "sc_dispatcher (snd (submit P job s)) = sc_dispatcher s"
      "sc_capacity (snd (submit P job s)) = sc_capacity s"
      "sc_store (snd (submit P job s)) = snd (js_persist (sp_store P) (sc_store s) job)"
proof (cases "sc_capacity s \<le> length (sq_jobs (sc_queue s))")
  case True
  then show ?thesis
    by (intro full) (simp_all add: submit_def queue_len_def)
next
  case False
  let ?q = "(sc_queue s)\<lparr>sq_heap := sq_heap (sc_queue s) @ [entry_of job],
      sq_jobs := AList.update (sj_id job) job (sq_jobs (sc_queue s))\<rparr>"
  have get: "queue_get ?q = (queue_get (sc_queue s))(sj_id job \<mapsto> job)"
    by (simp add: queue_get_def AList.update_conv')
  have "insert_job job s = (Inr (sj_id job), s\<lparr>sc_queue := ?q\<rparr>)"
    using False assms(1) by (simp add: insert_job_def queue_insert_def sched_wf_def)
  then have run: "submit P job s = try_then (persist P job (s\<lparr>sc_queue := ?q\<rparr>)) (\<lambda>_ s3. (Inr (sj_id job), s3))"
    using False get by (simp add: submit_def queue_len_def queue_lookup_def)
  then have s1: "snd (submit P job s) = snd (persist P job (s\<lparr>sc_queue := ?q\<rparr>))"
    by (simp add: try_then_def split: prod.splits sum.splits)
  then have "snd (submit P job s) = s\<lparr>sc_queue := ?q, sc_store := snd (js_persist (sp_store P) (sc_store s) job)\<rparr>"
    by (simp add: persist_def split: prod.splits)
  moreover have "queue_wf ?q"
    using queue_wf_update [of "sc_queue s" job "sj_id job" "sq_heap (sc_queue s)"] assms(1)
    by (simp add: sched_wf_def)
  moreover have "length (sq_jobs ?q) \<le> sc_capacity s"
    using False by (simp add: length_update)
  ultimately show ?thesis
    using assms get by (intro inserted) (auto simp: sched_wf_def split: if_splits)
qed

lemma sched_wf_new: "sched_wf (Scheduler_new capacity st w)"
  by (simp add: sched_wf_def Scheduler_new_def) (simp add: SchedulerQueue_new_def queue_get_def)

lemma refines_other:
  assumes "sp_dispatch P = recording_dispatch" "sched_op P None s s1"
  shows "refines P s s1"
  using assms(2)
  by (rule sched_op_otherE)
     (simp_all add: refines_cancel refines_tick [OF assms(1)], simp add: refines_def sched_wf_def abs_jobs_def)

subsection \<open>How often a job runs\<close>

text \<open>
  The invariant relates the log to the attempts: while a job waits it has been dispatched
  at most as often as it has used attempts, otherwise at most once more.
\<close>

definition dispatch_bound :: "job_view \<Rightarrow> nat" where
  "dispatch_bound v = unat (jv_attempts v) + (if jv_state v \<in> {Job_Scheduled, Job_Pending} then 0 else 1)"

definition job_ok :: "job_view option \<Rightarrow> job_view option \<Rightarrow> nat \<Rightarrow> bool" where
  "job_ok submitted current n =
     (case submitted of
        None \<Rightarrow> current = None \<and> n = 0
      | Some u \<Rightarrow>
          (case current of
             None \<Rightarrow> jv_kind u = Recurring \<or> n \<le> unat (jv_max u) + 1
           | Some v \<Rightarrow> jv_kind v = jv_kind u \<and> jv_max v = jv_max u \<and> jv_attempts v \<le> jv_max v
               \<and> (jv_kind u = Recurring \<or> n \<le> dispatch_bound v)))"

lemma unat_next: "a < b \<Longrightarrow> unat (a + 1) = unat a + 1" for a b :: u32
  using unat_less_2p [of b] by (simp add: word_less_nat_alt unat_word_ariths)

lemma job_ok_step:
  assumes "jobs_step b (m, l) (m1, l1)" "job_ok (sub i) (m i) (count_list l i)"
  shows "job_ok (sub i) (m1 i) (count_list l1 i)"
  using assms
proof (cases rule: jobs_step.cases)
  case (retry j v)
  have "unat (jv_attempts v + 1) = unat (jv_attempts v) + 1" "jv_attempts v + 1 \<le> jv_max v"
    using retry(5) unat_next [OF retry(5)] by (simp_all add: word_le_nat_alt word_less_nat_alt)
  then show ?thesis
    using retry assms(2) by (auto simp: job_ok_def dispatch_bound_def split: option.splits if_splits)
next
  case (lose j v)
  then show ?thesis
    using assms(2)
    by (auto simp: job_ok_def dispatch_bound_def word_le_nat_alt split: option.splits if_splits)
qed (auto simp: job_ok_def dispatch_bound_def split: option.splits if_splits)

definition submitted :: "ScheduledJob list \<Rightarrow> JobId \<Rightarrow> job_view option" where
  "submitted js = map_of (map (\<lambda>job. (sj_id job, view job)) js)"

lemma submitted_fresh: "i \<notin> sj_id ` set js \<Longrightarrow> submitted js i = None"
  by (auto simp: submitted_def map_of_eq_None_iff image_image)

lemma job_ok_steps:
  assumes "jobs_steps b a c" "\<forall>i. job_ok (sub i) (fst a i) (count_list (snd a) i)"
  shows "\<forall>i. job_ok (sub i) (fst c i) (count_list (snd c) i)"
  using assms
proof (induction rule: rtranclp_induct)
  case (step c d)
  then show ?case
    using job_ok_step [of b "fst c" "snd c" "fst d" "snd d"] by simp
qed

lemma sched_run_inv:
  assumes "sched_run P st js s" "sp_dispatch P = recording_dispatch"
  shows "sched_wf s \<and> distinct (map sj_id js)
    \<and> (\<forall>i. job_ok (submitted js i) (fst (abs_jobs s) i) (count_list (snd (abs_jobs s)) i))"
  using assms(1)
proof induction
  case (run_start capacity f)
  show ?case
    by (simp add: sched_wf_new submitted_def abs_jobs_def job_ok_def)
       (simp add: Scheduler_new_def SchedulerQueue_new_def queue_get_def)
next
  case (run_submit js s job s1)
  then have wf: "sched_wf s" and ok: "\<And>i. job_ok (submitted js i) (fst (abs_jobs s) i) (count_list (snd (abs_jobs s)) i)"
    by auto
  have sub: "submitted (job # js) = (submitted js)(sj_id job \<mapsto> view job)"
    by (simp add: submitted_def)
  have none: "submitted js (sj_id job) = None"
    by (rule submitted_fresh [OF run_submit(3)])
  have "queue_get (sc_queue s) (sj_id job) = None"
    using ok [of "sj_id job"] none by (simp add: job_ok_def abs_jobs_def)
  then have new: "queue_get (sc_queue s) (sj_id job) = None" "sj_attempt_count job = 0"
    "sj_state job \<in> {Job_Scheduled, Job_Pending}" "s1 = snd (submit P job s)"
    using run_submit(2) by (auto elim: sched_op_submitE)
  have count: "count_list (snd (abs_jobs s)) (sj_id job) = 0"
    using ok [of "sj_id job"] none by (simp add: job_ok_def)
  have distinct: "distinct (map sj_id (job # js))"
    using run_submit by simp
  have state: "sj_state job \<noteq> Job_Retrying"
    using new(3) by auto
  from wf state show ?case
  proof (cases rule: submit_effect [of s job P])
    case full
    then show ?thesis
      using wf ok none count distinct new(1,4) unfolding sub by (auto simp: job_ok_def abs_jobs_def)
  next
    case inserted
    then show ?thesis
      using ok count distinct new unfolding sub
      by (auto simp: abs_jobs_def job_ok_def dispatch_bound_def)
  qed
next
  case (run_other js s s1)
  then show ?case
    using refines_other [OF assms(2) run_other(2)] job_ok_steps [of "lossy P" "abs_jobs s" "abs_jobs s1" "submitted js"]
    by (simp add: refines_def)
qed

text \<open>
  (C22) Whatever is submitted, cancelled, completed or failed, in whatever order, with a
  store that may fail and a dispatcher that may refuse: a job that is not recurring is
  handed to a worker at most \<open>max_attempts + 1\<close> times.
\<close>

theorem job_dispatches_bounded:
  assumes "sched_run P st js s" "sp_dispatch P = recording_dispatch" "job \<in> set js"
    "sj_kind job \<noteq> Recurring"
  shows "count_list (rd_dispatched (sc_dispatcher s)) (sj_id job)
     \<le> unat (jr_max_attempts (sj_retry_policy job)) + 1"
proof -
  have inv: "distinct (map sj_id js)"
    "job_ok (submitted js (sj_id job)) (fst (abs_jobs s) (sj_id job)) (count_list (snd (abs_jobs s)) (sj_id job))"
    using sched_run_inv [OF assms(1,2)] by auto
  have "submitted js (sj_id job) = Some (view job)"
    using inv(1) assms(3) by (auto simp: submitted_def intro!: map_of_is_SomeI) (simp add: comp_def)
  then show ?thesis
    using inv(2) assms(4)
    by (auto simp: job_ok_def abs_jobs_def dispatch_bound_def word_le_nat_alt split: option.splits if_splits)
qed

subsection \<open>Jobs that no operation touches\<close>

text \<open>
  The operations of a tick and a cancellation change only the jobs they are about, and these
  are waiting or running.
\<close>

definition waiting :: "ScheduledJob \<Rightarrow> bool" where
  "waiting job \<longleftrightarrow> sj_state job \<in> {Job_Scheduled, Job_Pending, Job_Running}"

lemma keeps_set_state: "j \<noteq> i \<Longrightarrow> queue_get (sc_queue (snd (set_state P j st s))) i = queue_get (sc_queue s) i"
  by (simp add: set_state_def queue_update_state_def split: option.splits sum.splits)

lemma keeps_modify: "j \<noteq> i \<Longrightarrow> queue_get (sc_queue (modify_job j f s)) i = queue_get (sc_queue s) i"
  by (simp add: modify_job_def split: option.splits)

lemma keeps_try:
  "queue_get (sc_queue (snd m)) i = g \<Longrightarrow> (\<And>x. queue_get (sc_queue (snd (f x (snd m)))) i = g)
    \<Longrightarrow> queue_get (sc_queue (snd (try_then m f))) i = g"
  by (auto simp: try_then_def split: prod.splits sum.splits)

lemmas keeps_simps = keeps_set_state keeps_modify

lemma keeps_reschedule:
  "sj_id job \<noteq> i \<Longrightarrow> queue_get (sc_queue (snd (reschedule_recurring P job outcome s))) i = queue_get (sc_queue s) i"
  unfolding reschedule_recurring_def Let_def
  by (intro keeps_try) (simp_all add: keeps_simps)

lemma keeps_retry:
  "j \<noteq> i \<Longrightarrow> queue_get (sc_queue (snd (retry_job P job j outcome s))) i = queue_get (sc_queue s) i"
  unfolding retry_job_def Let_def
  by (intro keeps_try) (simp_all add: keeps_simps)

lemma keeps_failure:
  "j \<noteq> i \<Longrightarrow> queue_get (sc_queue (snd (handle_failure P j error outcome s))) i = queue_get (sc_queue s) i"
  unfolding handle_failure_def Let_def
  by (auto intro!: keeps_try simp: keeps_simps keeps_retry split: option.splits)

lemma keeps_completion:
  assumes "sched_wf s" "j \<noteq> i"
  shows "queue_get (sc_queue (snd (handle_completion P j outcome s))) i = queue_get (sc_queue s) i"
proof (cases rule: set_state_cases [of P j Job_Completed s])
  case (refused e)
  then show ?thesis
    by (simp add: handle_completion_def)
next
  case (changed job)
  let ?job = "job\<lparr>sj_state := Job_Completed, sj_updated_at := now P s\<rparr>"
  let ?s1 = "(read_clock s)\<lparr>sc_queue := queue_put (sc_queue s) j ?job\<rparr>"
  have "sj_id ?job \<noteq> i"
    using sched_wf_get [OF assms(1) changed(1)] assms(2) by simp
  then have "queue_get (sc_queue (snd (reschedule_recurring P ?job o1 (snd (persist_current P j ?s1))))) i
      = queue_get (sc_queue s) i" for o1
    using assms(2) by (simp add: keeps_reschedule)
  then show ?thesis
    unfolding handle_completion_def changed(2) try_then_simps Let_def
    by (intro keeps_try) (use assms(2) in simp_all)
qed

lemma keeps_cancel:
  assumes "queue_get (sc_queue s) i = Some job" "job_is_terminal (sj_state job)"
  shows "queue_get (sc_queue (snd (cancel P j s))) i = Some job"
proof (cases "j = i")
  case True
  then show ?thesis
    using assms by (simp add: cancel_def queue_get_state_def)
next
  case False
  then show ?thesis
    unfolding cancel_def
    using keeps_set_state [OF False, of P Job_Cancelled s] assms(1)
    by (auto intro!: keeps_try simp: persist_def split: option.splits prod.splits)
qed

lemma keeps_promote:
  "i \<notin> set ids \<Longrightarrow> queue_get (sc_queue (snd (promote_loop P ids n s))) i = queue_get (sc_queue s) i"
proof (induction ids arbitrary: n s)
  case (Cons j ids)
  obtain res s1 where s1: "set_state P j Job_Pending s = (res, s1)"
    by fastforce
  have "queue_get (sc_queue s1) i = queue_get (sc_queue s) i"
    using keeps_set_state [of j i P Job_Pending s] Cons.prems by (auto simp: s1)
  then show ?case
    using Cons by (cases res) (simp_all add: s1)
qed simp

lemma keeps_dispatch:
  assumes "sched_wf s" "i \<notin> set ids"
  shows "queue_get (sc_queue (snd (dispatch_loop P ids n s))) i = queue_get (sc_queue s) i"
  using assms
proof (induction ids arbitrary: n s)
  case (Cons j ids)
  then have "j \<noteq> i" "i \<notin> set ids"
    by auto
  from Cons.prems(1) show ?case
    by (cases rule: dispatch_round [of s j P]) (use Cons.IH \<open>j \<noteq> i\<close> \<open>i \<notin> set ids\<close> Cons.prems(1) in auto)
qed simp

lemma list_by_state_sound:
  assumes "queue_wf q" "i \<in> sj_id ` set (list_by_state it q st)"
  shows "\<exists>job. queue_get q i = Some job \<and> sj_state job = st"
  using assms queue_wf_get [OF assms(1)] by (auto simp: list_by_state_def List.map_filter_def)

lemma keeps_completions:
  fixes P :: "('s, RecordingDispatcher) surroundings"
  assumes "sched_wf s" "queue_get (sc_queue s) i = Some job" "sj_state job \<noteq> Job_Running"
  shows "queue_get (sc_queue (snd (apply_completions P cs outcome s))) i = Some job"
  using assms(1,2)
proof (induction cs arbitrary: outcome s)
  case (Cons c cs)
  obtain j result where c: "c = (j, result)"
    by fastforce
  show ?case
  proof (cases "queue_get_state (sc_queue s) j = Some Job_Running")
    case False
    then show ?thesis
      using Cons by (simp add: c)
  next
    case True
    then obtain job1 where running: "queue_get (sc_queue s) j = Some job1" "sj_state job1 = Job_Running"
      by (auto simp: queue_get_state_def)
    then have j: "j \<noteq> i"
      using Cons.prems(2) assms(3) by auto
    let ?cancel = "try_then (set_state P j Job_Cancelled s) (\<lambda>_ s1.
        try_then (persist_current P j s1) (\<lambda>_ s2.
          (Inr (outcome\<lparr>to_cancelled := to_cancelled outcome + 1\<rparr>), s2)))"
    let ?r = "case result of
             Result_Success \<Rightarrow> handle_completion P j outcome s
           | Result_Failed error \<Rightarrow> handle_failure P j error outcome s
           | Result_Cancelled \<Rightarrow> ?cancel"
    have "queue_get (sc_queue (snd ?cancel)) i = queue_get (sc_queue s) i"
      by (intro keeps_try) (simp_all add: keeps_set_state [OF j])
    then have same: "queue_get (sc_queue (snd ?r)) i = Some job"
      using keeps_completion [OF Cons.prems(1) j, of P outcome] keeps_failure [OF j, of P _ outcome s] Cons.prems(2)
      by (simp split: CompletionResult.splits)
    have "refines P s (snd ?cancel)"
      by (intro refines_try refines_to_cancelled)
         (simp_all add: refines_trans [OF refines_to_cancelled refines_persist_current])
    then have "refines P s (snd ?r)"
      using refines_handle_failure [OF running] by (simp add: refines_handle_completion split: CompletionResult.splits)
    then have wf: "sched_wf (snd ?r)"
      using Cons.prems(1) by (simp add: refines_def)
    have run: "apply_completions P (c # cs) outcome s = try_then ?r (\<lambda>o1 s3. apply_completions P cs o1 s3)"
      using True by (simp add: c)
    show ?thesis
    proof (cases ?r)
      case (Pair res s3)
      then show ?thesis
        unfolding run using Cons.IH [of s3] wf same by (cases res) simp_all
    qed
  qed
qed simp

lemma keeps_tick:
  fixes P :: "('s, RecordingDispatcher) surroundings"
  assumes "sp_dispatch P = recording_dispatch" "sched_wf s" "queue_get (sc_queue s) i = Some job" "\<not> waiting job"
  shows "queue_get (sc_queue (snd (tick P cs s))) i = Some job"
proof -
  let ?s0 = "read_clock s"
  have wf0: "sched_wf ?s0"
    using assms(2) by (simp add: sched_wf_def)
  obtain k s1 where s1: "promote_due_jobs P (now P s) ?s0 = (k, s1)"
    by fastforce
  have "i \<notin> sj_id ` set (list_by_state (sp_iter P) (sc_queue s) Job_Scheduled)"
    using list_by_state_sound [of "sc_queue s" i] assms by (auto simp: sched_wf_def waiting_def)
  then have get1: "queue_get (sc_queue s1) i = Some job"
    using keeps_promote [of i _ P 0 ?s0] assms(3) s1 unfolding promote_due_jobs_def
    by (metis (no_types, lifting) filter_is_subset image_mono list.set_map read_clock_simps(1) snd_conv subsetD)
  have wf1: "sched_wf s1"
    using s1 wf0 refines_promote_loop [of P ?s0] unfolding promote_due_jobs_def refines_def by (metis snd_conv)
  obtain res s2 where s2: "dispatch_pending P s1 = (res, s2)"
    by fastforce
  have "i \<notin> sj_id ` set (list_by_state (sp_iter P) (sc_queue s1) Job_Pending)"
    using list_by_state_sound [of "sc_queue s1" i] wf1 get1 assms(4) by (auto simp: sched_wf_def waiting_def)
  then have get2: "queue_get (sc_queue s2) i = Some job"
    using keeps_dispatch [OF wf1, of i _ P 0] get1 s2 unfolding dispatch_pending_def
    by (metis list.set_map snd_conv)
  have wf2: "sched_wf s2"
    using s2 wf1 refines_dispatch_loop [OF assms(1), of s1] unfolding dispatch_pending_def refines_def by (metis snd_conv)
  have "sj_state job \<noteq> Job_Running"
    using assms(4) by (auto simp: waiting_def)
  then show ?thesis
    using keeps_completions [OF wf2 get2] get2 by (cases res) (simp_all add: tick_def s1 s2)
qed

subsection \<open>Decided jobs\<close>

definition decided :: "job_view \<Rightarrow> bool" where
  "decided v \<longleftrightarrow> jv_state v = Job_Cancelled \<or> jv_state v = Job_Completed \<and> jv_kind v \<noteq> Recurring
     \<or> jv_state v = Job_Failed \<and> jv_max v \<le> jv_attempts v"

lemma decided_step:
  assumes "jobs_step b (m, l) (m1, l1)" "m i = Some v" "decided v"
  shows "m1 i = Some v \<and> count_list l1 i = count_list l i"
  using assms by (cases rule: jobs_step.cases) (auto simp: decided_def)

lemma decided_steps:
  assumes "jobs_steps b a c" "fst a i = Some v" "decided v"
  shows "fst c i = Some v \<and> count_list (snd c) i = count_list (snd a) i"
  using assms
proof (induction rule: rtranclp_induct)
  case (step c d)
  then show ?case
    using decided_step [of b "fst c" "snd c" "fst d" "snd d" i v] by simp
qed simp

lemma sched_op_wf:
  assumes "sp_dispatch P = recording_dispatch" "sched_op P lab s s1" "sched_wf s"
  shows "sched_wf s1 \<and> sc_capacity s1 = sc_capacity s"
proof (cases lab)
  case None
  then show ?thesis
    using refines_other [OF assms(1)] assms(2,3) by (simp add: refines_def)
next
  case (Some job)
  then have new: "s1 = snd (submit P job s)" "sj_state job \<noteq> Job_Retrying"
    using assms(2) by (auto elim: sched_op_submitE)
  then show ?thesis
    using assms(3) by - (rule submit_effect [OF assms(3) new(2), of P], auto)
qed

lemma decided_op:
  assumes "sp_dispatch P = recording_dispatch" "sched_op P lab s s1" "sched_wf s"
    "queue_get (sc_queue s) i = Some job" "decided (view job)" "\<And>j. lab = Some j \<Longrightarrow> sj_id j \<noteq> i"
  shows "queue_get (sc_queue s1) i = Some job
    \<and> count_list (rd_dispatched (sc_dispatcher s1)) i = count_list (rd_dispatched (sc_dispatcher s)) i"
proof (cases lab)
  case None
  then have op: "sched_op P None s s1"
    using assms(2) by simp
  have "jobs_steps (lossy P) (abs_jobs s) (abs_jobs s1)"
    using refines_other [OF assms(1) op] assms(3) by (simp add: refines_def)
  then have "count_list (snd (abs_jobs s1)) i = count_list (snd (abs_jobs s)) i"
    using decided_steps [of "lossy P" "abs_jobs s" "abs_jobs s1" i "view job"] assms(4,5) by (simp add: abs_jobs_def)
  moreover have still: "\<not> waiting job" "job_is_terminal (sj_state job)"
    using assms(5) by (auto simp: decided_def waiting_def view_def)
  have "queue_get (sc_queue s1) i = Some job"
    using op by (rule sched_op_otherE)
      (simp_all add: keeps_cancel [OF assms(4) still(2)] keeps_tick [OF assms(1,3,4) still(1)] assms(4)
        del: job_is_terminal.simps)
  ultimately show ?thesis
    by (simp add: abs_jobs_def)
next
  case (Some j)
  then have new: "s1 = snd (submit P j s)" "sj_state j \<noteq> Job_Retrying" "sj_id j \<noteq> i"
    using assms(2,6) by (auto elim: sched_op_submitE)
  then show ?thesis
    using assms(4) by - (rule submit_effect [OF assms(3) new(2), of P], auto)
qed

abbreviation sched_ops ::
  "('s, RecordingDispatcher) surroundings \<Rightarrow> ('s, RecordingDispatcher) Scheduler
     \<Rightarrow> ('s, RecordingDispatcher) Scheduler \<Rightarrow> bool" where
  "sched_ops P \<equiv> (\<lambda>s s1. \<exists>lab. sched_op P lab s s1)\<^sup>*\<^sup>*"

text \<open>The sequences of operations in which no job is submitted under the identifier \<open>i\<close>.\<close>

abbreviation sched_ops_except ::
  "JobId \<Rightarrow> ('s, RecordingDispatcher) surroundings \<Rightarrow> ('s, RecordingDispatcher) Scheduler
     \<Rightarrow> ('s, RecordingDispatcher) Scheduler \<Rightarrow> bool" where
  "sched_ops_except i P \<equiv> (\<lambda>s s1. \<exists>lab. sched_op P lab s s1 \<and> (\<forall>job. lab = Some job \<longrightarrow> sj_id job \<noteq> i))\<^sup>*\<^sup>*"

text \<open>
  (C25) A decided job stays decided: once a job is cancelled, is completed and not
  recurring, or has failed with its attempts used up, no later sequence of cancellations,
  ticks and submissions of other jobs changes any of its fields, removes it, or hands it to
  a worker again.  (Submitting a job under the same identifier would replace it, since
  \<open>submit\<close> does not look for it.)
\<close>

theorem job_decision_final:
  assumes "sched_run P st js s" "sp_dispatch P = recording_dispatch"
    and "queue_get (sc_queue s) i = Some job"
    and "sj_state job = Job_Cancelled \<or> sj_state job = Job_Completed \<and> sj_kind job \<noteq> Recurring
      \<or> sj_state job = Job_Failed \<and> \<not> can_retry (sj_retry_policy job) (sj_attempt_count job)"
    and "sched_ops_except i P s s1"
  shows "queue_get (sc_queue s1) i = Some job
    \<and> count_list (rd_dispatched (sc_dispatcher s1)) i = count_list (rd_dispatched (sc_dispatcher s)) i"
proof -
  have start: "sched_wf s" "decided (view job)"
    using sched_run_inv [OF assms(1,2)] assms(3,4) by (auto simp: decided_def can_retry_def)
  have "sched_wf s1 \<and> queue_get (sc_queue s1) i = Some job
      \<and> count_list (rd_dispatched (sc_dispatcher s1)) i = count_list (rd_dispatched (sc_dispatcher s)) i"
    using assms(5)
  proof (induction rule: rtranclp_induct)
    case (step s1 s2)
    then obtain lab where lab: "sched_op P lab s1 s2" "\<forall>job. lab = Some job \<longrightarrow> sj_id job \<noteq> i"
      by blast
    then show ?case
      using step.IH decided_op [OF assms(2) lab(1), of i job] sched_op_wf [OF assms(2) lab(1)] start(2)
      by simp
  qed (use start assms(3) in simp)
  then show ?thesis
    by simp
qed

text \<open>A second submission replaces a job, whatever its state, unless the table is full.\<close>

lemma resubmission_replaces:
  assumes "sched_wf s" "sj_state job \<noteq> Job_Retrying" "queue_len (sc_queue s) < sc_capacity s"
  shows "queue_get (sc_queue (snd (submit P job s))) (sj_id job) = Some job"
  using assms(1,2) by (cases rule: submit_effect [of s job P]) (use assms(3) in \<open>simp_all add: queue_len_def\<close>)

subsection \<open>Capacity\<close>

lemma jobs_step_dom: "jobs_step False (m, l) (m1, l1) \<Longrightarrow> dom m \<subseteq> dom m1"
  by (erule jobs_step.cases) auto

lemma jobs_steps_dom: "jobs_steps False a c \<Longrightarrow> dom (fst a) \<subseteq> dom (fst c)"
proof (induction rule: rtranclp_induct)
  case (step c d)
  then show ?case
    using jobs_step_dom [of "fst c" "snd c" "fst d" "snd d"] by auto
qed simp

lemma queue_len_dom: "sched_wf s \<Longrightarrow> queue_len (sc_queue s) = card (dom (queue_get (sc_queue s)))"
  using distinct_card [of "map fst (sq_jobs (sc_queue s))"]
  by (simp add: queue_len_def queue_get_def sched_wf_def queue_wf_def dom_map_of_conv_image_fst)

lemma queue_len_op:
  assumes "sp_dispatch P = recording_dispatch" "\<not> lossy P" "sched_op P lab s s1" "sched_wf s"
  shows "queue_len (sc_queue s) \<le> queue_len (sc_queue s1)"
proof -
  have wf: "sched_wf s1"
    using sched_op_wf [OF assms(1,3,4)] by simp
  have "dom (queue_get (sc_queue s)) \<subseteq> dom (queue_get (sc_queue s1))"
  proof (cases lab)
    case None
    then have "jobs_steps False (abs_jobs s) (abs_jobs s1)"
      using refines_other [OF assms(1)] assms(2,3,4) by (simp add: refines_def)
    then have "dom (fst (abs_jobs s)) \<subseteq> dom (fst (abs_jobs s1))"
      by (rule jobs_steps_dom)
    then show ?thesis
      by (auto simp: abs_jobs_def dom_def)
  next
    case (Some job)
    then have new: "s1 = snd (submit P job s)" "sj_state job \<noteq> Job_Retrying"
      using assms(3) by (auto elim: sched_op_submitE)
    then show ?thesis
      by - (rule submit_effect [OF assms(4) new(2), of P], auto)
  qed
  moreover have "finite (dom (queue_get (sc_queue s1)))"
    by (simp add: queue_get_def finite_dom_map_of)
  ultimately show ?thesis
    using queue_len_dom [OF wf] queue_len_dom [OF assms(4)] by (simp add: card_mono)
qed

text \<open>
  (C26) Nothing ever leaves the scheduler: with a store that does not fail, once as many
  jobs as its capacity have been submitted, every later submission is refused, whatever
  happens in between and however many of the jobs are completed, failed or cancelled.
\<close>

theorem scheduler_stays_full:
  assumes "sched_run P st js s" "sp_dispatch P = recording_dispatch" "\<not> lossy P"
    and "sc_capacity s \<le> queue_len (sc_queue s)" "sched_ops P s s1"
  shows "fst (submit P job s1) = Inl QueueFull"
proof -
  have "sched_wf s1 \<and> sc_capacity s1 = sc_capacity s \<and> queue_len (sc_queue s) \<le> queue_len (sc_queue s1)"
    using assms(5)
  proof (induction rule: rtranclp_induct)
    case (step s1 s2)
    then obtain lab where "sched_op P lab s1 s2"
      by blast
    then show ?case
      using step.IH sched_op_wf [OF assms(2)] queue_len_op [OF assms(2,3)] by (metis order_trans)
  qed (use sched_run_inv [OF assms(1,2)] in simp)
  then show ?thesis
    using assms(4) by (simp add: submit_def)
qed

subsection \<open>What a tick dispatches\<close>

lemma map_filter_ids:
  "queue_wf q \<Longrightarrow> set ks \<subseteq> fst ` set (sq_jobs q) \<Longrightarrow> map sj_id (List.map_filter (queue_get q) ks) = ks"
proof (induction ks)
  case (Cons k ks)
  then obtain job where "queue_get q k = Some job"
    by (auto simp: queue_get_def) (metis map_of_eq_None_iff not_None_eq rev_image_eqI fst_conv)
  then show ?case
    using Cons queue_wf_get [OF Cons.prems(1)] by (simp add: List.map_filter_simps)
qed (simp add: List.map_filter_simps)

lemma list_by_state_ids:
  assumes "queue_wf q" "iter_law it"
  shows "set (map sj_id (filter Q (list_by_state it q st))) =
      {i. \<exists>job. queue_get q i = Some job \<and> sj_state job = st \<and> Q job}"
    and "distinct (map sj_id (filter Q (list_by_state it q st)))"
proof -
  let ?ks = "it (map fst (sq_jobs q))"
  have ks: "set ?ks = fst ` set (sq_jobs q)" "distinct ?ks"
    using assms(2) by (simp_all add: iter_law_def)
  have "distinct (map sj_id (List.map_filter (queue_get q) ?ks))"
    unfolding map_filter_ids [OF assms(1) equalityD1 [OF ks(1)]] by (rule ks(2))
  then show "distinct (map sj_id (filter Q (list_by_state it q st)))"
    by (simp add: list_by_state_def distinct_map_filter)
  have "set (List.map_filter (queue_get q) ?ks) = {job. \<exists>i. queue_get q i = Some job}"
  proof -
    have "i \<in> set ?ks" if "queue_get q i = Some job" for i job
      using that by (auto simp: ks(1) queue_get_def dest!: map_of_SomeD intro!: rev_image_eqI)
    then show ?thesis
      by (auto simp: List.map_filter_def) force
  qed
  then show "set (map sj_id (filter Q (list_by_state it q st))) =
      {i. \<exists>job. queue_get q i = Some job \<and> sj_state job = st \<and> Q job}"
    using queue_wf_get [OF assms(1)] by (auto simp: list_by_state_def)
qed

lemma set_state_dispatcher [simp]: "sc_dispatcher (snd (set_state P i st s)) = sc_dispatcher s"
  by (simp add: set_state_def split: prod.splits)

lemma modify_job_dispatcher [simp]: "sc_dispatcher (modify_job i f s) = sc_dispatcher s"
  by (simp add: modify_job_def split: option.splits)

lemma try_dispatcher:
  "sc_dispatcher (snd m) = d \<Longrightarrow> (\<And>x. sc_dispatcher (snd (f x (snd m))) = d)
    \<Longrightarrow> sc_dispatcher (snd (try_then m f)) = d"
  by (auto simp: try_then_def split: prod.splits sum.splits)

lemma handlers_dispatcher [simp]:
  "sc_dispatcher (snd (reschedule_recurring P job outcome s)) = sc_dispatcher s"
  "sc_dispatcher (snd (retry_job P job i outcome s)) = sc_dispatcher s"
  unfolding reschedule_recurring_def retry_job_def Let_def
  by (intro try_dispatcher; simp)+

lemma handle_dispatcher [simp]:
  "sc_dispatcher (snd (handle_completion P i outcome s)) = sc_dispatcher s"
  "sc_dispatcher (snd (handle_failure P i error outcome s)) = sc_dispatcher s"
  unfolding handle_completion_def handle_failure_def Let_def
  by (auto intro!: try_dispatcher split: option.splits)

lemma completions_dispatcher [simp]:
  "sc_dispatcher (snd (apply_completions P cs outcome s)) = sc_dispatcher s"
proof (induction cs arbitrary: outcome s)
  case (Cons c cs)
  then show ?case
    by (cases c) (auto intro!: try_dispatcher split: CompletionResult.splits)
qed simp

lemma queue_get_state_put [simp]:
  "queue_get_state (queue_put q i job) = (queue_get_state q)(i \<mapsto> sj_state job)"
  by (auto simp: queue_get_state_def)

lemma promote_loop_exact:
  assumes "sched_wf s" "distinct ids"
    and "\<And>i. i \<in> set ids \<Longrightarrow> queue_get_state (sc_queue s) i = Some Job_Scheduled"
  shows "queue_get_state (sc_queue (snd (promote_loop P ids n s))) =
      (\<lambda>i. if i \<in> set ids then Some Job_Pending else queue_get_state (sc_queue s) i)
    \<and> sc_dispatcher (snd (promote_loop P ids n s)) = sc_dispatcher s
    \<and> sched_wf (snd (promote_loop P ids n s))"
  using assms
proof (induction ids arbitrary: n s)
  case (Cons i ids)
  obtain job where job: "queue_get (sc_queue s) i = Some job" "sj_state job = Job_Scheduled"
    using Cons.prems(3) [of i] by (auto simp: queue_get_state_def)
  have ok: "job_valid (sj_kind job) (sj_state job) Job_Pending"
    using job(2) by simp
  let ?s1 = "(read_clock s)\<lparr>sc_queue :=
      queue_put (sc_queue s) i (job\<lparr>sj_state := Job_Pending, sj_updated_at := now P s\<rparr>)\<rparr>"
  let ?s2 = "snd (persist_current P i ?s1)"
  have run: "promote_loop P (i # ids) n s = promote_loop P ids (n + 1) ?s2"
    by (simp add: set_state_ok [OF job(1) ok])
  have i: "sj_id job = i"
    using sched_wf_get [OF Cons.prems(1) job(1)] by simp
  have "sched_wf ?s1"
    using Cons.prems(1) queue_wf_put [of "sc_queue s" "job\<lparr>sj_state := Job_Pending, sj_updated_at := now P s\<rparr>" i] i
    by (auto simp: sched_wf_def queue_put_length [OF job(1)])
  then have wf: "sched_wf ?s2"
    by (simp add: sched_wf_def)
  have "queue_get_state (sc_queue ?s2) j = Some Job_Scheduled" if "j \<in> set ids" for j
    using Cons.prems(2,3) that by auto
  then show ?case
    unfolding run using Cons.IH [OF wf, of "n + 1"] Cons.prems(2) by (auto simp: fun_eq_iff)
qed simp

text \<open>
  A dispatcher that records every request, with whether it was accepted.  Recording changes
  no answer, so what any dispatcher is asked can be read off the record.
\<close>

definition logging_dispatch :: "'w WorkerDispatch \<Rightarrow> ('w \<times> (JobId \<times> bool) list) WorkerDispatch" where
  "logging_dispatch wd =
     \<lparr>wd_dispatch = (\<lambda>(w, requests) job.
        case wd_dispatch wd w job of (res, w1) \<Rightarrow> (res, w1, requests @ [(sj_id job, is_ok res)]))\<rparr>"

abbreviation requests :: "('s, 'w \<times> (JobId \<times> bool) list) Scheduler \<Rightarrow> (JobId \<times> bool) list" where
  "requests s \<equiv> snd (sc_dispatcher s)"

abbreviation all_accepted :: "JobId list \<Rightarrow> (JobId \<times> bool) list" where
  "all_accepted ids \<equiv> map (\<lambda>i. (i, True)) ids"

text \<open>
  The jobs are handed out in turn up to the first that is refused or, if the store fails,
  cannot be recorded as running.
\<close>

definition stopped_at :: "bool \<Rightarrow> JobId list \<Rightarrow> (JobId \<times> bool) list \<Rightarrow> (JobId \<Rightarrow> JobState option) \<Rightarrow> bool" where
  "stopped_at store_fails ids calls states \<longleftrightarrow>
     (\<exists>k < length ids.
        calls = all_accepted (take k ids) @ [(ids ! k, False)]
          \<and> (store_fails \<or> (\<forall>i \<in> set (drop k ids). states i = Some Job_Pending))
        \<or> store_fails \<and> calls = all_accepted (take k ids))"

lemma stopped_at_Cons:
  assumes "stopped_at b ids calls states"
  shows "stopped_at b (i # ids) ((i, True) # calls) states"
proof -
  from assms obtain k where "k < length ids"
    "calls = all_accepted (take k ids) @ [(ids ! k, False)] \<and> (b \<or> (\<forall>i \<in> set (drop k ids). states i = Some Job_Pending))
      \<or> b \<and> calls = all_accepted (take k ids)"
    unfolding stopped_at_def by blast
  then show ?thesis
    unfolding stopped_at_def by (intro exI [of _ "Suc k"]) auto
qed

lemma dispatch_loop_calls:
  assumes "sp_dispatch P = logging_dispatch wd"
    and "sched_wf s" "distinct ids" "\<forall>i \<in> set ids. queue_get_state (sc_queue s) i = Some Job_Pending"
  shows "\<exists>res s1 calls. dispatch_loop P ids n s = (res, s1) \<and> requests s1 = requests s @ calls
    \<and> (if is_ok res then calls = all_accepted ids
       else stopped_at (lossy P) ids calls (queue_get_state (sc_queue s1)))"
  using assms(2-4)
proof (induction ids arbitrary: n s)
  case Nil
  then show ?case
    by simp
next
  case (Cons i ids)
  have log: "snd w = requests s @ [(i, is_ok res)]"
    if "wd_dispatch (sp_dispatch P) (sc_dispatcher s) job = (res, w)" "sj_id job = i" for res w job
    using that by (auto simp: assms(1) logging_dispatch_def split: prod.splits)
  obtain job where job: "queue_get (sc_queue s) i = Some job" "sj_state job = Job_Pending"
    using Cons.prems(3) by (auto simp: queue_get_state_def)
  from Cons.prems(1) show ?case
  proof (cases rule: dispatch_round [of s i P])
    case (unsaved e s2)
    then show ?thesis
      unfolding stopped_at_def by (intro exI [of _ "Inl e"] exI [of _ s2] exI [of _ "[]"]) (auto intro!: exI [of _ 0])
  next
    case (accepted job1 w s2)
    have "\<forall>j \<in> set ids. queue_get_state (sc_queue s2) j = Some Job_Pending"
      using Cons.prems(2,3) accepted(4) by (auto simp: queue_get_state_def)
    then obtain res s1 calls where "dispatch_loop P ids (n + 1) s2 = (res, s1)" "requests s1 = requests s2 @ calls"
      "if is_ok res then calls = all_accepted ids else stopped_at (lossy P) ids calls (queue_get_state (sc_queue s1))"
      using Cons.IH [OF accepted(3), of "n + 1"] Cons.prems(2) by auto
    then show ?thesis
      using accepted(5,6) log [OF accepted(2,1)] stopped_at_Cons [of "lossy P" ids]
      by (intro exI [of _ res] exI [of _ s1] exI [of _ "(i, True) # calls"]) auto
  next
    case (refused job1 job2 e w s2)
    have "\<forall>j \<in> set (i # ids). queue_get_state (sc_queue s2) j = Some Job_Pending"
      using Cons.prems(3) refused(3,4) by (auto simp: queue_get_state_def)
    then show ?thesis
      using refused(5,6) log [OF refused(2,1)] unfolding stopped_at_def
      by (intro exI [of _ "Inl e"] exI [of _ s2] exI [of _ "[(i, False)]"]) (auto intro!: exI [of _ 0])
  next
    case (unreturned job1 e e1 w s2)
    then show ?thesis
      using log [OF unreturned(3,2)] unfolding stopped_at_def
      by (intro exI [of _ "Inl e1"] exI [of _ s2] exI [of _ "[(i, False)]"]) (auto intro!: exI [of _ 0])
  qed (use job in auto)
qed

text \<open>
  (C24) What a tick hands to the workers, for every store and every dispatcher, which may
  fail or refuse at any call.  The jobs in question are those that are pending and those
  whose scheduled time has come.  Either the tick hands out each of them exactly once, and
  no other; or the tick fails, having handed out some of them, each once, up to the first
  that was refused, which ends it.  Unless the store failed, that one and all that were to
  follow are then pending.  The due time plays no part for pending jobs: a job that failed
  and is to wait for its backoff is handed out again by the very next tick.
\<close>

theorem tick_dispatches_exact:
  assumes "sched_wf s" "iter_law (sp_iter P)" "sp_dispatch P = logging_dispatch wd"
  shows "\<exists>ids calls. distinct ids
    \<and> set ids = {i. \<exists>job. queue_get (sc_queue s) i = Some job
        \<and> (sj_state job = Job_Pending \<or> sj_state job = Job_Scheduled \<and> sj_due_at job \<le> now P s)}
    \<and> requests (snd (tick P completions s)) = requests s @ calls
    \<and> (calls = all_accepted ids
       \<or> \<not> is_ok (fst (tick P completions s))
         \<and> stopped_at (lossy P) ids calls (queue_get_state (sc_queue (snd (tick P completions s)))))"
proof -
  let ?s0 = "read_clock s"
  have wf: "sched_wf ?s0"
    using assms(1) by (simp add: sched_wf_def)
  then have qwf: "queue_wf (sc_queue s)"
    by (simp add: sched_wf_def)
  let ?due = "map sj_id (filter (\<lambda>job. sj_due_at job \<le> now P s) (list_by_state (sp_iter P) (sc_queue s) Job_Scheduled))"
  have due: "set ?due = {i. \<exists>job. queue_get (sc_queue s) i = Some job \<and> sj_state job = Job_Scheduled \<and> sj_due_at job \<le> now P s}"
    "distinct ?due"
    by (rule list_by_state_ids [OF qwf assms(2)])+
  obtain k s1 where s1: "promote_due_jobs P (now P s) ?s0 = (k, s1)"
    by fastforce
  have "snd (promote_loop P ?due 0 ?s0) = s1"
    using s1 by (simp add: promote_due_jobs_def)
  moreover have "queue_get_state (sc_queue ?s0) i = Some Job_Scheduled" if "i \<in> set ?due" for i
    using that unfolding due(1) by (auto simp: queue_get_state_def)
  ultimately have state: "queue_get_state (sc_queue s1) =
      (\<lambda>i. if i \<in> set ?due then Some Job_Pending else queue_get_state (sc_queue s) i)"
    and disp: "sc_dispatcher s1 = sc_dispatcher s" and wf1: "sched_wf s1"
    using promote_loop_exact [OF wf due(2), of P 0] by auto
  then have qwf1: "queue_wf (sc_queue s1)"
    by (simp add: sched_wf_def)
  let ?ids = "map sj_id (list_by_state (sp_iter P) (sc_queue s1) Job_Pending)"
  have ids: "set ?ids = {i. queue_get_state (sc_queue s1) i = Some Job_Pending}" "distinct ?ids"
    using list_by_state_ids [OF qwf1 assms(2), of "\<lambda>_. True" Job_Pending] by (auto simp: queue_get_state_def)
  obtain res s2 calls where s2: "dispatch_pending P s1 = (res, s2)" "requests s2 = requests s1 @ calls"
    "if is_ok res then calls = all_accepted ?ids else stopped_at (lossy P) ?ids calls (queue_get_state (sc_queue s2))"
    using dispatch_loop_calls [OF assms(3) wf1 ids(2), of 0] ids(1) unfolding dispatch_pending_def by blast
  have "set ?ids = {i. \<exists>job. queue_get (sc_queue s) i = Some job
        \<and> (sj_state job = Job_Pending \<or> sj_state job = Job_Scheduled \<and> sj_due_at job \<le> now P s)}"
    unfolding ids(1) state due(1) by (auto simp: queue_get_state_def)
  then show ?thesis
    using ids(2) s2 disp by (intro exI [of _ ?ids] exI [of _ calls]) (cases res; auto simp: tick_def s1)
qed

section \<open>The scheduler and its store\<close>

definition stored :: "InMemoryJobStore \<Rightarrow> JobId \<Rightarrow> ScheduledJob option" where
  "stored st i = find (\<lambda>j. sj_id j = i) (im_persisted st)"

definition store_synced :: "(InMemoryJobStore, 'w) Scheduler \<Rightarrow> bool" where
  "store_synced s \<longleftrightarrow> stored (sc_store s) = queue_get (sc_queue s)"

lemma stored_replace:
  "find (\<lambda>j. sj_id j = i) (replace_job js job) = (if i = sj_id job then Some job else find (\<lambda>j. sj_id j = i) js)"
  by (induction js) auto

lemma stored_persist:
  "sp_store P = in_memory_store \<Longrightarrow>
    \<exists>st. persist P job s = (Inr (), s\<lparr>sc_store := st\<rparr>) \<and> stored st = (stored (sc_store s))(sj_id job \<mapsto> job)"
  by (auto simp: persist_def in_memory_store_def stored_def stored_replace fun_eq_iff)

lemma sync_put:
  assumes "sp_store P = in_memory_store" "store_synced s" "sc_queue s1 = queue_put (sc_queue s) i job"
    "sc_store s1 = sc_store s" "sj_id job = i"
  shows "store_synced (snd (persist_current P i s1)) \<and> is_ok (fst (persist_current P i s1))"
proof -
  obtain st where "persist P job s1 = (Inr (), s1\<lparr>sc_store := st\<rparr>)"
    "stored st = (stored (sc_store s1))(sj_id job \<mapsto> job)"
    using stored_persist [OF assms(1)] by blast
  then show ?thesis
    using assms(2-5) by (simp add: store_synced_def persist_current_def)
qed

lemma store_synced_read_clock [simp]: "store_synced (read_clock s) = store_synced s"
  by (simp add: store_synced_def)

text \<open>A change of state that is persisted keeps table and store together.\<close>

lemma sync_set_state:
  assumes "sp_store P = in_memory_store" "sched_wf s" "store_synced s"
  shows "case set_state P i st s of
      (Inl e, s1) \<Rightarrow> store_synced s1
    | (Inr _, s1) \<Rightarrow> store_synced (snd (persist_current P i s1)) \<and> is_ok (fst (persist_current P i s1))"
proof (cases rule: set_state_cases [of P i st s])
  case (refused e)
  then show ?thesis
    using assms(3) by simp
next
  case (changed job)
  then show ?thesis
    using sync_put [OF assms(1,3), of "(read_clock s)\<lparr>sc_queue :=
        queue_put (sc_queue s) i (job\<lparr>sj_state := st, sj_updated_at := now P s\<rparr>)\<rparr>" i]
      sched_wf_get [OF assms(2) changed(1)]
    by simp
qed

lemma sync_promote:
  fixes P :: "(InMemoryJobStore, RecordingDispatcher) surroundings"
  assumes "sp_store P = in_memory_store" "sched_wf s" "store_synced s"
  shows "store_synced (snd (promote_loop P ids n s))"
  using assms(2,3)
proof (induction ids arbitrary: n s)
  case (Cons i ids)
  obtain res s1 where s1: "set_state P i Job_Pending s = (res, s1)"
    by fastforce
  have wf: "sched_wf s1"
    using refines_to_pending [of P s i] Cons.prems(1) by (simp add: s1 refines_def)
  then have wf2: "sched_wf (snd (persist_current P i s1))"
    by (simp add: sched_wf_def)
  show ?case
    using sync_set_state [OF assms(1) Cons.prems, of i Job_Pending] Cons.IH wf wf2
    by (cases res) (simp_all add: s1)
qed simp

lemma sync_cancel:
  assumes "sp_store P = in_memory_store" "sched_wf s" "store_synced s"
  shows "store_synced (snd (cancel P i s))"
proof -
  have same: "snd (try_then (queue_lookup (sp_env P) (sc_queue s1) i, s1) (\<lambda>job s2.
            try_then (persist P job s2) (\<lambda>_ s3. (Inr (), s3)))) = snd (persist_current P i s1)" for s1
    by (auto simp: queue_lookup_def persist_current_def try_then_def split: option.splits prod.splits sum.splits)
  show ?thesis
  proof (cases "set_state P i Job_Cancelled s")
    case (Pair res s1)
    then show ?thesis
      using sync_set_state [OF assms, of i Job_Cancelled] assms(3)
      by (cases res) (auto simp: cancel_def same split: option.splits)
  qed
qed

lemma sync_reschedule:
  assumes "sp_store P = in_memory_store" "store_synced s"
    and "queue_get (sc_queue s) (sj_id job) = Some job" "sj_state job = Job_Completed" "sj_kind job = Recurring"
  shows "store_synced (snd (reschedule_recurring P job outcome s))"
proof -
  have "store_synced (snd (persist_current P (sj_id job) (rescheduled P job s)))"
    using sync_put [OF assms(1,2), of "rescheduled P job s" "sj_id job"] by (simp add: rescheduled_def)
  then show ?thesis
    unfolding reschedule_run [OF assms(3-5)] by (auto simp: try_then_def split: prod.splits sum.splits)
qed

lemma sync_completion:
  assumes "sp_store P = in_memory_store" "sched_wf s" "store_synced s"
  shows "store_synced (snd (handle_completion P i outcome s))"
proof (cases rule: set_state_cases [of P i Job_Completed s])
  case (refused e)
  then show ?thesis
    using assms(3) by (simp add: handle_completion_def)
next
  case (changed job)
  let ?job = "job\<lparr>sj_state := Job_Completed, sj_updated_at := now P s\<rparr>"
  let ?s1 = "(read_clock s)\<lparr>sc_queue := queue_put (sc_queue s) i ?job\<rparr>"
  let ?s2 = "snd (persist_current P i ?s1)"
  have sync: "store_synced ?s2" "is_ok (fst (persist_current P i ?s1))"
    using sync_set_state [OF assms, of i Job_Completed] by (simp_all add: changed(2))
  have i: "sj_id ?job = i"
    using sched_wf_get [OF assms(2) changed(1)] by simp
  have "store_synced (snd (reschedule_recurring P ?job o1 ?s2))" if "sj_kind job = Recurring" for o1
    by (rule sync_reschedule [OF assms(1) sync(1)]) (use i that in simp_all)
  moreover have "queue_get (sc_queue ?s2) i = Some ?job"
    by simp
  ultimately show ?thesis
    using sync by (cases "persist_current P i ?s1"; cases "fst (persist_current P i ?s1)")
      (auto simp: handle_completion_def changed(2) Let_def simp del: persist_current_queue)
qed

lemma sync_failure:
  assumes "sp_store P = in_memory_store" "sched_wf s" "store_synced s"
    and "queue_get (sc_queue s) i = Some job" "sj_state job = Job_Running"
  shows "store_synced (snd (handle_failure P i error outcome s))"
proof -
  let ?job = "job\<lparr>sj_state := Job_Failed, sj_updated_at := now P s, sj_last_error := Some error\<rparr>"
  let ?s1 = "failed_state P i error job s"
  let ?s2 = "snd (persist_current P i ?s1)"
  have i: "sj_id job = i"
    using sched_wf_get [OF assms(2,4)] by simp
  have sync: "store_synced ?s2" "is_ok (fst (persist_current P i ?s1))"
    using sync_put [OF assms(1,3), of ?s1 i] i by (simp_all add: failed_state_def)
  have get: "queue_get (sc_queue ?s2) i = Some ?job"
    by (simp add: failed_state_def)
  have "store_synced (snd (persist_current P i (retried P i ?job ?s2)))"
    using sync_put [OF assms(1) sync(1), of "retried P i ?job ?s2" i] i by (simp add: retried_def)
  then have "store_synced (snd (retry_job P job i o1 ?s2))" for o1
    by (subst retry_run [OF get]) (auto simp: try_then_def split: prod.splits sum.splits)
  then show ?thesis
    unfolding failure_run [OF assms(4,5)] using sync(1)
    by (cases "persist_current P i ?s1"; cases "fst (persist_current P i ?s1)") (auto simp: Let_def)
qed

lemma sync_completions:
  fixes P :: "(InMemoryJobStore, RecordingDispatcher) surroundings"
  assumes "sp_store P = in_memory_store" "sched_wf s" "store_synced s"
  shows "store_synced (snd (apply_completions P cs outcome s))"
  using assms(2,3)
proof (induction cs arbitrary: outcome s)
  case (Cons c cs)
  obtain i result where c: "c = (i, result)"
    by fastforce
  show ?case
  proof (cases "queue_get_state (sc_queue s) i = Some Job_Running")
    case False
    then show ?thesis
      using Cons by (simp add: c)
  next
    case True
    then obtain job where running: "queue_get (sc_queue s) i = Some job" "sj_state job = Job_Running"
      by (auto simp: queue_get_state_def)
    let ?cancel = "try_then (set_state P i Job_Cancelled s) (\<lambda>_ s1.
        try_then (persist_current P i s1) (\<lambda>_ s2.
          (Inr (outcome\<lparr>to_cancelled := to_cancelled outcome + 1\<rparr>), s2)))"
    let ?r = "case result of
             Result_Success \<Rightarrow> handle_completion P i outcome s
           | Result_Failed error \<Rightarrow> handle_failure P i error outcome s
           | Result_Cancelled \<Rightarrow> ?cancel"
    have "store_synced (snd ?cancel)"
      using sync_set_state [OF assms(1) Cons.prems, of i Job_Cancelled]
      by (auto simp: try_then_def split: prod.splits sum.splits)
    then have sync: "store_synced (snd ?r)"
      using sync_completion [OF assms(1) Cons.prems] sync_failure [OF assms(1) Cons.prems running]
      by (simp split: CompletionResult.splits)
    have "refines P s (snd ?cancel)"
      by (intro refines_try refines_to_cancelled)
         (simp_all add: refines_trans [OF refines_to_cancelled refines_persist_current])
    then have "refines P s (snd ?r)"
      using refines_handle_failure [OF running] by (simp add: refines_handle_completion split: CompletionResult.splits)
    then have wf: "sched_wf (snd ?r)"
      using Cons.prems(1) by (simp add: refines_def)
    have run: "apply_completions P (c # cs) outcome s = try_then ?r (\<lambda>o1 s3. apply_completions P cs o1 s3)"
      using True by (simp add: c)
    show ?thesis
    proof (cases ?r)
      case (Pair res s3)
      then show ?thesis
        unfolding run using Cons.IH [of s3] wf sync by (cases res) simp_all
    qed
  qed
qed simp

lemma sync_refuse:
  assumes "sp_store P = in_memory_store" "sched_wf s" "store_synced s"
    and "queue_remove env (sc_queue s) i = (Inr job, q1)"
    and "sc_queue s1 = q1" "sc_capacity s1 = sc_capacity s"
    and "stored (sc_store s1) = (stored (sc_store s))(i \<mapsto> job0)" "sj_id job1 = i"
  shows "store_synced (snd (refuse_dispatch P job1 e s1))"
proof -
  let ?job = "job1\<lparr>sj_state := Job_Pending, sj_updated_at := now P s1\<rparr>"
  obtain st where st: "persist P ?job (read_clock s1) = (Inr (), (read_clock s1)\<lparr>sc_store := st\<rparr>)"
    "stored st = (stored (sc_store s1))(i \<mapsto> ?job)"
    using stored_persist [OF assms(1), of ?job "read_clock s1"] assms(8) by auto
  obtain s3 where "insert_job ?job ((read_clock s1)\<lparr>sc_store := st\<rparr>) = (Inr i, s3)"
    "queue_get (sc_queue s3) = (queue_get (sc_queue s))(i \<mapsto> ?job)" "sc_store s3 = st"
    using insert_back [OF assms(2,4), of "(read_clock s1)\<lparr>sc_store := st\<rparr>" ?job] assms(5,6,8) by auto
  then show ?thesis
    using st assms(3,7) by (simp add: refuse_dispatch_def Let_def store_synced_def)
qed

lemma sync_dispatch_loop:
  fixes P :: "(InMemoryJobStore, RecordingDispatcher) surroundings"
  assumes "sp_store P = in_memory_store" "sp_dispatch P = recording_dispatch" "sched_wf s" "store_synced s"
  shows "store_synced (snd (dispatch_loop P ids n s))"
  using assms(3,4)
proof (induction ids arbitrary: n s)
  case (Cons i ids)
  note wf = Cons.prems(1)
  show ?case
  proof (cases "queue_get (sc_queue s) i")
    case None
    then show ?thesis
      using Cons by (simp add: queue_remove_def)
  next
    case (Some job)
    obtain q where rm: "queue_remove (sp_env P) (sc_queue s) i = (Inr job, q)"
      using Some by (simp add: queue_remove_def)
    have id: "sj_id job = i" "sj_state job \<noteq> Job_Retrying"
      using sched_wf_get [OF wf Some] by auto
    let ?s1 = "(read_clock s)\<lparr>sc_queue := q\<rparr>"
    show ?thesis
    proof (cases "sj_state job = Job_Pending")
      case False
      then have "job_transition job Job_Running (now P s)
          = Inl (Job_InvalidTransition (job_state_text (sj_state job)) ''running'')"
        by (cases "sj_state job") (simp_all add: job_transition_def)
      moreover obtain s2 where "insert_job job ?s1 = (Inr i, s2)" "sched_wf s2"
        "queue_get (sc_queue s2) = (queue_get (sc_queue s))(i \<mapsto> job)" "sc_store s2 = sc_store s"
        using insert_back [OF wf rm, of ?s1 job] id by auto
      moreover from this have "store_synced s2"
        using Cons.prems(2) Some by (auto simp: store_synced_def)
      ultimately show ?thesis
        using rm Cons.IH by (simp add: Let_def)
    next
      case True
      let ?job = "job\<lparr>sj_state := Job_Running, sj_updated_at := now P s\<rparr>"
      obtain st where st: "persist P ?job ?s1 = (Inr (), ?s1\<lparr>sc_store := st\<rparr>)"
        "stored st = (stored (sc_store s))(i \<mapsto> ?job)"
        using stored_persist [OF assms(1), of ?job ?s1] id by auto
      show ?thesis
      proof (cases "rd_should_fail (sc_dispatcher s)")
        case fail: True
        have "dispatch_loop P (i # ids) n s
            = refuse_dispatch P ?job QueueFull (?s1\<lparr>sc_store := st, sc_dispatcher := sc_dispatcher s\<rparr>)"
          using rm True st(1) fail
          by (simp add: Let_def job_transition_def assms(2) recording_dispatch_def)
        then show ?thesis
          using sync_refuse [OF assms(1) wf Cons.prems(2) rm,
              of "?s1\<lparr>sc_store := st, sc_dispatcher := sc_dispatcher s\<rparr>" ?job ?job QueueFull] st(2) id
          by simp
      next
        case False
        have pk: "persist P ?job ((read_clock s)\<lparr>sc_queue := snd (queue_remove (sp_env P) (sc_queue s) i)\<rparr>)
          = (Inr (), (read_clock s)\<lparr>sc_queue := snd (queue_remove (sp_env P) (sc_queue s) i), sc_store := st\<rparr>)"
          using st(1) by (simp add: rm)
        obtain s3 where run: "\<And>ids n. dispatch_loop P (i # ids) n s = dispatch_loop P ids (n + 1) s3"
          and s3: "sched_wf s3" "sc_capacity s3 = sc_capacity s" "sc_store s3 = st"
          "queue_get (sc_queue s3) = (queue_get (sc_queue s))(i \<mapsto> ?job)"
          "sc_dispatcher s3 = (sc_dispatcher s)\<lparr>rd_dispatched := rd_dispatched (sc_dispatcher s) @ [i]\<rparr>"
          by (rule dispatch_one [OF assms(2) wf False Some True pk]) (rule that)
        have "store_synced s3"
          using s3(3,4) st(2) Cons.prems(2) by (simp add: store_synced_def)
        then show ?thesis
          unfolding run by (rule Cons.IH [OF s3(1)])
      qed
    qed
  qed
qed simp

lemma sync_tick:
  fixes P :: "(InMemoryJobStore, RecordingDispatcher) surroundings"
  assumes "sp_store P = in_memory_store" "sp_dispatch P = recording_dispatch" "sched_wf s" "store_synced s"
  shows "store_synced (snd (tick P completions s))"
proof -
  obtain k s1 where s1: "promote_due_jobs P (now P s) (read_clock s) = (k, s1)"
    by fastforce
  have wf0: "sched_wf (read_clock s)"
    using assms(3) by (simp add: sched_wf_def)
  have 1: "sched_wf s1" "store_synced s1"
    using s1 wf0 sync_promote [OF assms(1) wf0] refines_promote_loop [of P "read_clock s"] assms(4)
    unfolding promote_due_jobs_def refines_def by (metis snd_conv store_synced_read_clock)+
  obtain res s2 where s2: "dispatch_pending P s1 = (res, s2)"
    by fastforce
  have 2: "sched_wf s2" "store_synced s2"
    using s2 1 sync_dispatch_loop [OF assms(1,2) 1] refines_dispatch_loop [OF assms(2), of s1]
    unfolding dispatch_pending_def refines_def by (metis snd_conv)+
  show ?thesis
    using sync_completions [OF assms(1) 2] 2(2) by (cases res) (simp_all add: tick_def s1 s2)
qed

text \<open>
  (C23) No state is lost between ticks: in every run of a scheduler with the in-memory
  store, after every operation, failed ones included, the store holds exactly the jobs of
  the table, each in its current form.
\<close>

theorem scheduler_store_synced:
  assumes "sched_run P \<lparr>im_persisted = [], im_removed = []\<rparr> js s"
    and "sp_store P = in_memory_store" "sp_dispatch P = recording_dispatch"
  shows "find (\<lambda>j. sj_id j = i) (im_persisted (sc_store s)) = queue_get (sc_queue s) i"
proof -
  have "store_synced s"
    using assms(1)
  proof induction
    case (run_start capacity f)
    show ?case
      by (simp add: store_synced_def Scheduler_new_def stored_def SchedulerQueue_new_def queue_get_def fun_eq_iff)
  next
    case (run_submit js s job s1)
    have wf: "sched_wf s"
      using sched_run_inv [OF run_submit(1) assms(3)] by simp
    have new: "s1 = snd (submit P job s)" "sj_state job \<noteq> Job_Retrying"
      using run_submit(2) by (auto elim: sched_op_submitE)
    have "stored (snd (js_persist (sp_store P) (sc_store s) job)) = (stored (sc_store s))(sj_id job \<mapsto> job)"
      by (auto simp: assms(2) in_memory_store_def stored_def stored_replace fun_eq_iff)
    from wf new(2) show ?case
      using run_submit(4) new(1) \<open>stored _ = _\<close>
      by (cases rule: submit_effect [of s job P]) (simp_all add: store_synced_def)
  next
    case (run_other js s s1)
    have wf: "sched_wf s"
      using sched_run_inv [OF run_other(1) assms(3)] by simp
    from run_other(2) show ?case
      by (rule sched_op_otherE)
         (use sync_cancel [OF assms(2) wf run_other(3)] sync_tick [OF assms(2,3) wf run_other(3)] run_other(3)
          in \<open>simp_all add: store_synced_def\<close>)
  qed
  then show ?thesis
    by (simp add: store_synced_def stored_def fun_eq_iff)
qed

section \<open>A small run\<close>

text \<open>A scheduler with room for one job, which fails once, and whose job is then cancelled.\<close>

definition demo_env :: sched_env where
  "demo_env = \<lparr>se_ulid_text = (\<lambda>_. ''00000000000000000000000001''), se_backoff = (\<lambda>p a. 1000),
     se_from_std = (\<lambda>d. Inr (int d)), se_below_one = (\<lambda>b. False)\<rparr>"

definition demo_world :: "(InMemoryJobStore, RecordingDispatcher) surroundings" where
  "demo_world = \<lparr>sp_env = demo_env, sp_store = in_memory_store, sp_dispatch = recording_dispatch,
     sp_iter = remdups, sp_clock = int\<rparr>"

definition demo_store :: InMemoryJobStore where
  "demo_store = \<lparr>im_persisted = [], im_removed = []\<rparr>"

definition demo_start :: "(InMemoryJobStore, RecordingDispatcher) Scheduler" where
  "demo_start = snd (submit demo_world (demo_job 1 Normal 0)
     (Scheduler_new 1 demo_store \<lparr>rd_dispatched = [], rd_should_fail = False\<rparr>))"

definition demo_failed :: "(InMemoryJobStore, RecordingDispatcher) Scheduler" where
  "demo_failed = snd (tick demo_world [(1, Result_Failed ''boom'')] demo_start)"

definition demo_cancelled :: "(InMemoryJobStore, RecordingDispatcher) Scheduler" where
  "demo_cancelled = snd (cancel demo_world 1 demo_failed)"

lemma demo_world_ok:
  "sp_dispatch demo_world = recording_dispatch" "sp_store demo_world = in_memory_store"
  "iter_law (sp_iter demo_world)" "\<not> lossy demo_world"
  by (simp_all add: demo_world_def iter_law_remdups lossy_def in_memory_store_def)

lemma demo_start_run: "sched_run demo_world demo_store [demo_job 1 Normal 0] demo_start"
  unfolding demo_start_def
  by (rule run_submit [OF run_start op_submit])
     (simp_all add: Scheduler_new_def SchedulerQueue_new_def queue_get_def demo_job_def)

lemma demo_failed_run: "sched_run demo_world demo_store [demo_job 1 Normal 0] demo_failed"
  unfolding demo_failed_def by (rule run_other [OF demo_start_run op_tick])

lemma demo_cancelled_run: "sched_run demo_world demo_store [demo_job 1 Normal 0] demo_cancelled"
  unfolding demo_cancelled_def by (rule run_other [OF demo_failed_run op_cancel])

lemma demo_start_eq:
  "demo_start = \<lparr>sc_queue = \<lparr>sq_heap = [entry_of (demo_job 1 Normal 0)], sq_jobs = [(1, demo_job 1 Normal 0)],
       sq_capacity = 1\<rparr>, sc_store = \<lparr>im_persisted = [demo_job 1 Normal 0], im_removed = []\<rparr>,
     sc_dispatcher = \<lparr>rd_dispatched = [], rd_should_fail = False\<rparr>, sc_capacity = 1, sc_reads = 0\<rparr>"
  by (simp add: demo_start_def submit_def Scheduler_new_def SchedulerQueue_new_def queue_len_def insert_job_def
      queue_insert_def queue_lookup_def queue_get_def persist_def demo_world_def in_memory_store_def demo_store_def
      demo_job_def)

definition demo_job_failed :: ScheduledJob where
  "demo_job_failed = (demo_job 1 Normal 0)\<lparr>sj_state := Job_Pending, sj_attempt_count := 1, sj_due_at := 1005,
     sj_last_error := Some ''boom'', sj_updated_at := 4\<rparr>"

lemma demo_failed_eq:
  "queue_get (sc_queue demo_failed) 1 = Some demo_job_failed" "rd_dispatched (sc_dispatcher demo_failed) = [1]"
  "sc_reads demo_failed = 6" "sc_dispatcher demo_failed = \<lparr>rd_dispatched = [1], rd_should_fail = False\<rparr>"
  "sc_capacity demo_failed = 1" "queue_len (sc_queue demo_failed) = 1"
  by (simp_all add: demo_failed_def demo_start_eq tick_def promote_due_jobs_def dispatch_pending_def list_by_state_def
      List.map_filter_simps queue_get_def queue_remove_def job_transition_def persist_def insert_job_def
      queue_insert_def demo_world_def recording_dispatch_def in_memory_store_def read_clock_def now_def
      AList.delete_eq queue_get_state_def handle_failure_def set_state_def queue_update_state_def modify_job_def
      persist_current_def queue_put_def can_retry_def retry_job_def delay_or_def demo_env_def demo_policy_def
      demo_job_def demo_job_failed_def entry_of_def queue_len_def Let_def)

theorem job_dispatches_bounded_witness:
  "count_list (rd_dispatched (sc_dispatcher demo_failed)) 1 \<le> 3"
  using job_dispatches_bounded [OF demo_failed_run demo_world_ok(1), of "demo_job 1 Normal 0"]
  by (simp add: demo_job_def demo_policy_def)

text \<open>A scheduler whose only job has failed once and is to wait for its backoff.\<close>

definition demo_logging_world :: "(InMemoryJobStore, RecordingDispatcher \<times> (JobId \<times> bool) list) surroundings" where
  "demo_logging_world = \<lparr>sp_env = demo_env, sp_store = in_memory_store, sp_dispatch = logging_dispatch recording_dispatch,
     sp_iter = remdups, sp_clock = int\<rparr>"

definition demo_backoff :: "bool \<Rightarrow> (InMemoryJobStore, RecordingDispatcher \<times> (JobId \<times> bool) list) Scheduler" where
  "demo_backoff refusing = \<lparr>sc_queue = \<lparr>sq_heap = [entry_of demo_job_failed], sq_jobs = [(1, demo_job_failed)],
       sq_capacity = 1\<rparr>, sc_store = demo_store,
     sc_dispatcher = (\<lparr>rd_dispatched = [], rd_should_fail = refusing\<rparr>, []), sc_capacity = 1, sc_reads = 6\<rparr>"

lemma demo_backoff_wf: "sched_wf (demo_backoff refusing)"
  by (simp add: sched_wf_def demo_backoff_def queue_wf_def queue_get_def demo_job_failed_def demo_job_def entry_of_def)

lemma demo_backoff_tick:
  "is_ok (fst (tick demo_logging_world [] (demo_backoff False)))"
  "fst (tick demo_logging_world [] (demo_backoff True)) = Inl QueueFull"
  by (simp_all add: demo_backoff_def demo_logging_world_def tick_def promote_due_jobs_def dispatch_pending_def
      list_by_state_def List.map_filter_simps queue_get_def queue_remove_def job_transition_def persist_def
      insert_job_def queue_insert_def logging_dispatch_def recording_dispatch_def in_memory_store_def
      read_clock_def now_def refuse_dispatch_def demo_job_failed_def demo_job_def AList.delete_eq Let_def)

theorem tick_dispatches_exact_witness:
  "now demo_logging_world (demo_backoff False) < sj_due_at demo_job_failed
   \<and> requests (snd (tick demo_logging_world [] (demo_backoff False))) = [(1, True)]"
proof -
  have "iter_law (sp_iter demo_logging_world)" "sp_dispatch demo_logging_world = logging_dispatch recording_dispatch"
    by (simp_all add: demo_logging_world_def iter_law_remdups)
  from tick_dispatches_exact [OF demo_backoff_wf this, of False "[]"]
  obtain ids calls where ids: "distinct ids"
    "set ids = {i. \<exists>job. queue_get (sc_queue (demo_backoff False)) i = Some job
        \<and> (sj_state job = Job_Pending \<or> sj_state job = Job_Scheduled
            \<and> sj_due_at job \<le> now demo_logging_world (demo_backoff False))}"
    "requests (snd (tick demo_logging_world [] (demo_backoff False))) = requests (demo_backoff False) @ calls"
    "calls = all_accepted ids"
    using demo_backoff_tick(1) by blast
  have "set ids = {1}"
    unfolding ids(2) by (auto simp: demo_backoff_def queue_get_def demo_job_failed_def split: if_splits)
  then have "ids = [1]"
    using ids(1) by (cases ids) (auto, metis empty_iff insert_iff set_empty2 subset_singletonD)
  then show ?thesis
    using ids(3,4) by (simp add: now_def demo_backoff_def demo_logging_world_def demo_job_failed_def)
qed

theorem job_decision_final_witness:
  "\<exists>job. queue_get (sc_queue demo_cancelled) 1 = Some job \<and> sj_state job = Job_Cancelled
     \<and> queue_get (sc_queue (snd (tick demo_world [] demo_cancelled))) 1 = Some job"
proof -
  obtain job where job: "queue_get (sc_queue demo_cancelled) 1 = Some job" "sj_state job = Job_Cancelled"
    using demo_failed_eq(1)
    by (auto simp: demo_cancelled_def cancel_def queue_get_state_def set_state_def queue_update_state_def
        job_transition_def demo_job_failed_def queue_lookup_def persist_def demo_world_def in_memory_store_def)
  have "sched_ops_except 1 demo_world demo_cancelled (snd (tick demo_world [] demo_cancelled))"
    by (rule r_into_rtranclp) (blast intro: op_tick)
  from job_decision_final [OF demo_cancelled_run demo_world_ok(1) job(1) _ this] job show ?thesis
    by auto
qed

theorem scheduler_stays_full_witness:
  "fst (submit demo_world (demo_job 2 High 0) demo_cancelled) = Inl QueueFull"
proof (rule scheduler_stays_full [OF demo_failed_run demo_world_ok(1,4)])
  show "sc_capacity demo_failed \<le> queue_len (sc_queue demo_failed)"
    by (simp add: demo_failed_eq)
  show "sched_ops demo_world demo_failed demo_cancelled"
    unfolding demo_cancelled_def by (rule r_into_rtranclp) (blast intro: op_cancel)
qed

theorem scheduler_store_synced_witness:
  "find (\<lambda>j. sj_id j = 1) (im_persisted (sc_store demo_failed)) = Some demo_job_failed"
  using scheduler_store_synced [OF demo_failed_run [unfolded demo_store_def] demo_world_ok(2,1), of 1]
  by (simp add: demo_failed_eq)

text \<open>
  A job that may be retried twice is handed out three times, since the first attempt is
  not counted; \<open>transition_to_retrying\<close> on the other hand allows one attempt less.
\<close>

lemma retry_limits_differ:
  assumes "sj_state job = Job_Running" "sj_attempt_count job + 1 = jr_max_attempts (sj_retry_policy job)"
    "sj_attempt_count job < jr_max_attempts (sj_retry_policy job)"
  shows "is_ok (apply_retryable_failure env job error t1 t2)"
    and "\<not> is_ok (transition_to_retrying env job error t1 t2)"
  using assms by (simp_all add: apply_retryable_failure_def transition_to_retrying_def can_retry_def Let_def)

end
