(* ===== verification/Compensation_Saga.thy ===== *)
theory Compensation_Saga
  imports Sagas Ids Graphs
begin

text \<open>
  The compensation saga of managed effects (vo-storage/src/compensation_saga.rs): the
  manifest of registered compensations, the order in which they are to be executed, and
  the saga that drives them through a mutex, with reconciliation of ambiguous outcomes
  and timeouts.  The hash table of entries is a map; the order in which its values are
  visited is an argument, as are the clock readings.
\<close>

section \<open>Entries\<close>

datatype SagaCompensationStatus =
    SC_Registered | SC_Pending | SC_InProgress | SC_Succeeded | SC_Failed | SC_Ambiguous | SC_TimedOut

fun status_from :: "CompensationStatus \<Rightarrow> SagaCompensationStatus" where
  "status_from Comp_Pending = SC_Pending"
| "status_from Comp_InProgress = SC_InProgress"
| "status_from Comp_NotNeeded = SC_Succeeded"
| "status_from Comp_Succeeded = SC_Succeeded"
| "status_from Comp_Failed = SC_Failed"

record CompensationEntry =
  cy_effect_id :: string
  cy_compensation_effect_id :: "string option"
  cy_policy :: CompensationPolicy
  cy_status :: SagaCompensationStatus
  cy_registered_at :: TimestampMs
  cy_started_at :: "TimestampMs option"
  cy_completed_at :: "TimestampMs option"
  cy_timeout_ms :: "u64 option"
  cy_dependencies :: "string list"

definition CompensationEntry_new ::
  "string \<Rightarrow> CompensationPolicy \<Rightarrow> string list \<Rightarrow> TimestampMs \<Rightarrow> CompensationEntry" where
  "CompensationEntry_new effect_id policy dependencies now =
     \<lparr>cy_effect_id = effect_id, cy_compensation_effect_id = None, cy_policy = policy,
      cy_status = SC_Registered, cy_registered_at = now, cy_started_at = None,
      cy_completed_at = None, cy_timeout_ms = None, cy_dependencies = dependencies\<rparr>"

definition with_timeout :: "CompensationEntry \<Rightarrow> u64 \<Rightarrow> CompensationEntry" where
  "with_timeout entry timeout_ms = entry\<lparr>cy_timeout_ms := Some timeout_ms\<rparr>"

definition with_compensation_effect_id :: "CompensationEntry \<Rightarrow> string \<Rightarrow> CompensationEntry" where
  "with_compensation_effect_id entry i = entry\<lparr>cy_compensation_effect_id := Some i\<rparr>"

definition status_terminal :: "SagaCompensationStatus \<Rightarrow> bool" where
  "status_terminal s = (s \<in> {SC_Succeeded, SC_Failed, SC_TimedOut})"

definition entry_is_terminal :: "CompensationEntry \<Rightarrow> bool" where
  "entry_is_terminal entry = status_terminal (cy_status entry)"

definition is_timed_out :: "CompensationEntry \<Rightarrow> TimestampMs \<Rightarrow> bool" where
  "is_timed_out entry now =
     (case (cy_started_at entry, cy_timeout_ms entry) of
        (Some started, Some timeout) \<Rightarrow> timeout < saturating_sub now started
      | _ \<Rightarrow> False)"

section \<open>The manifest\<close>

record CompensationManifest =
  mf_entries :: "string \<rightharpoonup> CompensationEntry"
  mf_registration_order :: "string list"
  mf_version :: u64

definition CompensationManifest_default :: CompensationManifest where
  "CompensationManifest_default = \<lparr>mf_entries = Map.empty, mf_registration_order = [], mf_version = 0\<rparr>"

datatype CompensationError =
    CE_AlreadyRegistered string
  | CE_NotFound string
  | CE_TerminalState string SagaCompensationStatus
  | CE_InvalidTransition string SagaCompensationStatus SagaCompensationStatus
  | CE_PolicyViolation string CompensationPolicy
  | CE_Timeout string
  | CE_ReconciliationRequired string
  | CE_CycleDetected "string list"
  | CE_Poisoned

definition manifest_register ::
  "CompensationManifest \<Rightarrow> string \<Rightarrow> CompensationPolicy \<Rightarrow> string list \<Rightarrow> TimestampMs
     \<Rightarrow> (CompensationError + unit) \<times> CompensationManifest" where
  "manifest_register m effect_id policy dependencies now =
     (if mf_entries m effect_id \<noteq> None then (Inl (CE_AlreadyRegistered effect_id), m)
      else (Inr (),
            m\<lparr>mf_entries := (mf_entries m)(effect_id \<mapsto> CompensationEntry_new effect_id policy dependencies now),
              mf_registration_order := mf_registration_order m @ [effect_id],
              mf_version := mf_version m + 1\<rparr>))"

definition transition_to ::
  "CompensationManifest \<Rightarrow> string \<Rightarrow> SagaCompensationStatus \<Rightarrow> TimestampMs
     \<Rightarrow> (CompensationError + unit) \<times> CompensationManifest" where
  "transition_to m effect_id new_status now =
     (case mf_entries m effect_id of
        None \<Rightarrow> (Inl (CE_NotFound effect_id), m)
      | Some entry \<Rightarrow>
          if entry_is_terminal entry then (Inl (CE_TerminalState effect_id (cy_status entry)), m)
          else
            let entry1 = entry\<lparr>cy_status := new_status\<rparr>;
                entry2 = (if new_status = SC_InProgress then entry1\<lparr>cy_started_at := Some now\<rparr> else entry1);
                entry3 = (if new_status \<in> {SC_Succeeded, SC_Failed}
                          then entry2\<lparr>cy_completed_at := Some now\<rparr> else entry2)
            in (Inr (), m\<lparr>mf_entries := (mf_entries m)(effect_id \<mapsto> entry3), mf_version := mf_version m + 1\<rparr>))"

definition set_ambiguous ::
  "CompensationManifest \<Rightarrow> string \<Rightarrow> TimestampMs \<Rightarrow> (CompensationError + unit) \<times> CompensationManifest" where
  "set_ambiguous m effect_id now = transition_to m effect_id SC_Ambiguous now"

definition set_timed_out ::
  "CompensationManifest \<Rightarrow> string \<Rightarrow> TimestampMs \<Rightarrow> (CompensationError + unit) \<times> CompensationManifest" where
  "set_timed_out m effect_id now = transition_to m effect_id SC_TimedOut now"

text \<open>\<open>values\<close> visits the entries in the order of the keys given.\<close>

definition entries_in :: "CompensationManifest \<Rightarrow> string list \<Rightarrow> SagaCompensationStatus \<Rightarrow> CompensationEntry list" where
  "entries_in m keys status =
     filter (\<lambda>entry. cy_status entry = status) (List.map_filter (mf_entries m) keys)"

definition is_pending :: "CompensationManifest \<Rightarrow> string \<Rightarrow> bool" where
  "is_pending m i = (case mf_entries m i of Some entry \<Rightarrow> cy_status entry = SC_Pending | None \<Rightarrow> False)"

definition compensations_awaiting_execution :: "CompensationManifest \<Rightarrow> CompensationEntry list" where
  "compensations_awaiting_execution m =
     List.map_filter (\<lambda>i. case mf_entries m i of
                            Some entry \<Rightarrow> if cy_status entry = SC_Pending then Some entry else None
                          | None \<Rightarrow> None)
       (rev (mf_registration_order m))"

definition can_execute :: "CompensationManifest \<Rightarrow> string \<Rightarrow> bool" where
  "can_execute m effect_id =
     (case mf_entries m effect_id of
        Some entry \<Rightarrow>
          if cy_status entry \<noteq> SC_Pending then False
          else list_all (\<lambda>dep. case mf_entries m dep of
                                 Some dep_entry \<Rightarrow> entry_is_terminal dep_entry
                               | None \<Rightarrow> True) (cy_dependencies entry)
      | None \<Rightarrow> False)"

text \<open>The dependents of each pending effect, collected in two passes as in the code.\<close>

definition add_dependents ::
  "string list \<Rightarrow> CompensationManifest \<Rightarrow> string \<Rightarrow> (string \<rightharpoonup> string list) \<Rightarrow> (string \<rightharpoonup> string list)" where
  "add_dependents pending m effect_id dependents =
     (case mf_entries m effect_id of
        Some entry \<Rightarrow>
          fold (\<lambda>dep ds. if dep \<in> set pending
                         then (case ds dep of Some l \<Rightarrow> ds(dep \<mapsto> l @ [effect_id]) | None \<Rightarrow> ds)
                         else ds) (cy_dependencies entry) dependents
      | None \<Rightarrow> dependents)"

definition pending_dependents :: "CompensationManifest \<Rightarrow> string list \<Rightarrow> (string \<rightharpoonup> string list)" where
  "pending_dependents m pending =
     fold (add_dependents pending m) pending (fold (\<lambda>i ds. ds(i \<mapsto> [])) pending Map.empty)"

text \<open>\<open>emitted\<close> is the set of the elements of \<open>result\<close>.\<close>

fun emit_ready :: "(string \<rightharpoonup> string list) \<Rightarrow> string list \<Rightarrow> string list \<Rightarrow> string list" where
  "emit_ready dependents [] result = result"
| "emit_ready dependents (i # is) result =
     (if case dependents i of None \<Rightarrow> True | Some ds \<Rightarrow> list_all (\<lambda>d. d \<in> set result) ds
      then emit_ready dependents is (result @ [i])
      else emit_ready dependents is result)"

definition get_reverse_dependency_order :: "CompensationManifest \<Rightarrow> CompensationError + string list" where
  "get_reverse_dependency_order m =
     (let pending = filter (is_pending m) (mf_registration_order m) in
      if pending = [] then Inr []
      else
        let result = emit_ready (pending_dependents m pending) (rev pending) [] in
        if length result \<noteq> length pending
        then Inl (CE_CycleDetected (filter (\<lambda>i. i \<notin> set result) pending))
        else Inr result)"

section \<open>The saga\<close>

datatype ReconciliationAction =
    CommitCompensation | RetryCompensation | EscalateToOperator | AbandonCompensation

record ReconciliationContext =
  rx_effect_id :: string
  rx_compensation_effect_id :: "string option"
  rx_last_known_outcome :: "string option"
  rx_attempts :: u32
  rx_last_attempt_at :: "TimestampMs option"

type_synonym reconciler = "ReconciliationContext \<Rightarrow> ReconciliationAction"

definition NoOpReconciler :: reconciler where
  "NoOpReconciler ctx = EscalateToOperator"

definition RetryReconciler :: "u32 \<Rightarrow> reconciler" where
  "RetryReconciler max_attempts ctx =
     (if rx_attempts ctx < max_attempts then RetryCompensation else EscalateToOperator)"

record CompensationSaga =
  sg_manifest :: "CompensationManifest mutex"
  sg_reconciler :: reconciler

definition with_reconciler :: "reconciler \<Rightarrow> CompensationSaga" where
  "with_reconciler r = \<lparr>sg_manifest = mutex_new CompensationManifest_default, sg_reconciler = r\<rparr>"

definition CompensationSaga_new :: CompensationSaga where
  "CompensationSaga_new = with_reconciler NoOpReconciler"

text \<open>A method of the saga: lock the manifest and run a critical section on it.\<close>

definition locked ::
  "CompensationSaga \<Rightarrow> (CompensationManifest \<Rightarrow> (CompensationError + 'r) \<times> CompensationManifest)
     \<Rightarrow> (CompensationError + 'r) \<times> CompensationSaga" where
  "locked sg body =
     (case with_lock (sg_manifest sg) CE_Poisoned body of (r, m) \<Rightarrow> (r, sg\<lparr>sg_manifest := m\<rparr>))"

definition saga_register ::
  "CompensationSaga \<Rightarrow> string \<Rightarrow> CompensationPolicy \<Rightarrow> string list \<Rightarrow> TimestampMs
     \<Rightarrow> (CompensationError + unit) \<times> CompensationSaga" where
  "saga_register sg effect_id policy dependencies now =
     locked sg (\<lambda>m. manifest_register m effect_id policy dependencies now)"

definition register_with_timeout ::
  "CompensationSaga \<Rightarrow> string \<Rightarrow> CompensationPolicy \<Rightarrow> string list \<Rightarrow> u64 \<Rightarrow> TimestampMs
     \<Rightarrow> (CompensationError + unit) \<times> CompensationSaga" where
  "register_with_timeout sg effect_id policy dependencies timeout_ms now =
     locked sg (\<lambda>m.
       case manifest_register m effect_id policy dependencies now of
         (Inl e, m1) \<Rightarrow> (Inl e, m1)
       | (Inr _, m1) \<Rightarrow>
           (case mf_entries m1 effect_id of
              None \<Rightarrow> (Inl (CE_NotFound effect_id), m1)
            | Some entry \<Rightarrow>
                (Inr (), m1\<lparr>mf_entries := (mf_entries m1)(effect_id \<mapsto> entry\<lparr>cy_timeout_ms := Some timeout_ms\<rparr>)\<rparr>)))"

definition queue_pending ::
  "CompensationSaga \<Rightarrow> string \<Rightarrow> TimestampMs \<Rightarrow> (CompensationError + unit) \<times> CompensationSaga" where
  "queue_pending sg effect_id now =
     locked sg (\<lambda>m.
       case mf_entries m effect_id of
         None \<Rightarrow> (Inl (CE_NotFound effect_id), m)
       | Some entry \<Rightarrow>
           if cy_policy entry = Policy_None then (Inl (CE_PolicyViolation effect_id (cy_policy entry)), m)
           else transition_to m effect_id SC_Pending now)"

definition start_compensation ::
  "CompensationSaga \<Rightarrow> string \<Rightarrow> TimestampMs \<Rightarrow> (CompensationError + unit) \<times> CompensationSaga" where
  "start_compensation sg effect_id now =
     locked sg (\<lambda>m.
       if \<not> can_execute m effect_id
       then (Inl (CE_PolicyViolation effect_id
                    (case mf_entries m effect_id of Some entry \<Rightarrow> cy_policy entry | None \<Rightarrow> Policy_None)), m)
       else transition_to m effect_id SC_InProgress now)"

definition comp_succeed ::
  "CompensationSaga \<Rightarrow> string \<Rightarrow> TimestampMs \<Rightarrow> (CompensationError + unit) \<times> CompensationSaga" where
  "comp_succeed sg effect_id now = locked sg (\<lambda>m. transition_to m effect_id SC_Succeeded now)"

definition comp_fail ::
  "CompensationSaga \<Rightarrow> string \<Rightarrow> TimestampMs \<Rightarrow> (CompensationError + unit) \<times> CompensationSaga" where
  "comp_fail sg effect_id now = locked sg (\<lambda>m. transition_to m effect_id SC_Failed now)"

definition mark_ambiguous ::
  "CompensationSaga \<Rightarrow> string \<Rightarrow> TimestampMs \<Rightarrow> (CompensationError + ReconciliationAction) \<times> CompensationSaga" where
  "mark_ambiguous sg effect_id now =
     (case locked sg (\<lambda>m.
         case set_ambiguous m effect_id now of
           (Inl e, m1) \<Rightarrow> (Inl e, m1)
         | (Inr _, m1) \<Rightarrow>
             (case mf_entries m1 effect_id of
                None \<Rightarrow> (Inl (CE_NotFound effect_id), m1)
              | Some entry \<Rightarrow>
                  (Inr \<lparr>rx_effect_id = effect_id,
                        rx_compensation_effect_id = cy_compensation_effect_id entry,
                        rx_last_known_outcome = None, rx_attempts = 0,
                        rx_last_attempt_at = cy_started_at entry\<rparr>, m1))) of
        (r, sg1) \<Rightarrow> (and_then r (\<lambda>ctx. Inr (sg_reconciler sg1 ctx)), sg1))"

fun reconciled_status :: "ReconciliationAction \<Rightarrow> SagaCompensationStatus" where
  "reconciled_status CommitCompensation = SC_Succeeded"
| "reconciled_status RetryCompensation = SC_Pending"
| "reconciled_status EscalateToOperator = SC_Failed"
| "reconciled_status AbandonCompensation = SC_Failed"

definition handle_reconciliation ::
  "CompensationSaga \<Rightarrow> string \<Rightarrow> ReconciliationAction \<Rightarrow> TimestampMs
     \<Rightarrow> (CompensationError + unit) \<times> CompensationSaga" where
  "handle_reconciliation sg effect_id action now =
     locked sg (\<lambda>m. transition_to m effect_id (reconciled_status action) now)"

text \<open>
  \<open>check_timeouts\<close> panics on a poisoned lock.  \<open>expire_timed_out\<close> takes the lock a second
  time after it has been released, so that other calls may come in between; the two halves
  are separate definitions, and their composition is the call without interruption.
\<close>

definition check_timeouts :: "CompensationSaga \<Rightarrow> string list \<Rightarrow> TimestampMs \<Rightarrow> string list option" where
  "check_timeouts sg keys now =
     (if mx_poisoned (sg_manifest sg) then None
      else Some (map cy_effect_id
                  (filter (\<lambda>entry. is_timed_out entry now)
                    (entries_in (mx_value (sg_manifest sg)) keys SC_InProgress))))"

fun expire_loop ::
  "CompensationManifest \<Rightarrow> string list \<Rightarrow> TimestampMs \<Rightarrow> (CompensationError + unit) \<times> CompensationManifest" where
  "expire_loop m [] now = (Inr (), m)"
| "expire_loop m (i # is) now =
     (case set_timed_out m i now of
        (Inl e, m1) \<Rightarrow> (Inl e, m1)
      | (Inr _, m1) \<Rightarrow> expire_loop m1 is now)"

definition expire_second_half ::
  "CompensationSaga \<Rightarrow> string list \<Rightarrow> TimestampMs \<Rightarrow> ((CompensationError + unit) \<times> CompensationSaga) option" where
  "expire_second_half sg timed_out now =
     (if mx_poisoned (sg_manifest sg) then None
      else Some (locked sg (\<lambda>m. expire_loop m timed_out now)))"

definition expire_timed_out ::
  "CompensationSaga \<Rightarrow> string list \<Rightarrow> TimestampMs \<Rightarrow> TimestampMs
     \<Rightarrow> ((CompensationError + unit) \<times> CompensationSaga) option" where
  "expire_timed_out sg keys now now' =
     (case check_timeouts sg keys now of
        None \<Rightarrow> None
      | Some timed_out \<Rightarrow> expire_second_half sg timed_out now')"

definition get_compensation_order :: "CompensationSaga \<Rightarrow> string list option" where
  "get_compensation_order sg =
     (if mx_poisoned (sg_manifest sg) then None
      else let m = mx_value (sg_manifest sg)
           in Some (filter (is_pending m) (rev (mf_registration_order m))))"

section \<open>Statuses along a run\<close>

definition comp_status :: "CompensationManifest \<Rightarrow> string \<Rightarrow> SagaCompensationStatus option" where
  "comp_status m i = map_option cy_status (mf_entries m i)"

datatype comp_op =
    CO_Register string CompensationPolicy "string list"
  | CO_RegisterTimeout string CompensationPolicy "string list" u64
  | CO_Queue string
  | CO_Start string
  | CO_Succeed string
  | CO_Fail string
  | CO_Ambiguous string
  | CO_Reconcile string ReconciliationAction
  | CO_Expire "string list"

text \<open>
  A call at a time given.  \<open>CO_Expire\<close> is the second half of \<open>expire_timed_out\<close> with what an
  earlier first half found; the first half changes nothing.
\<close>

fun comp_call ::
  "CompensationSaga \<Rightarrow> TimestampMs \<Rightarrow> comp_op \<Rightarrow> (CompensationError + unit) \<times> CompensationSaga" where
  "comp_call sg now (CO_Register i policy deps) = saga_register sg i policy deps now"
| "comp_call sg now (CO_RegisterTimeout i policy deps t) = register_with_timeout sg i policy deps t now"
| "comp_call sg now (CO_Queue i) = queue_pending sg i now"
| "comp_call sg now (CO_Start i) = start_compensation sg i now"
| "comp_call sg now (CO_Succeed i) = comp_succeed sg i now"
| "comp_call sg now (CO_Fail i) = comp_fail sg i now"
| "comp_call sg now (CO_Ambiguous i) =
     (case mark_ambiguous sg i now of (r, sg1) \<Rightarrow> (and_then r (\<lambda>_. Inr ()), sg1))"
| "comp_call sg now (CO_Reconcile i action) = handle_reconciliation sg i action now"
| "comp_call sg now (CO_Expire is) =
     (case expire_second_half sg is now of Some r \<Rightarrow> r | None \<Rightarrow> (Inl CE_Poisoned, sg))"

definition comp_step ::
  "CompensationSaga \<Rightarrow> TimestampMs \<times> comp_op \<Rightarrow> (comp_op \<times> (CompensationError + unit)) \<times> CompensationSaga" where
  "comp_step sg call =
     (case comp_call sg (fst call) (snd call) of (r, sg1) \<Rightarrow> ((snd call, r), sg1))"

text \<open>The effect a call is about and the status it asks for.\<close>

fun asks :: "comp_op \<Rightarrow> (string \<times> SagaCompensationStatus) option" where
  "asks (CO_Succeed i) = Some (i, SC_Succeeded)"
| "asks (CO_Fail i) = Some (i, SC_Failed)"
| "asks (CO_Ambiguous i) = Some (i, SC_Ambiguous)"
| "asks (CO_Reconcile i action) = Some (i, reconciled_status action)"
| "asks _ = None"

lemma locked_open [simp]:
  "\<not> mx_poisoned (sg_manifest sg) \<Longrightarrow>
     locked sg body = (fst (body (mx_value (sg_manifest sg))),
       sg\<lparr>sg_manifest := (sg_manifest sg)\<lparr>mx_value := snd (body (mx_value (sg_manifest sg)))\<rparr>\<rparr>)"
  by (simp add: locked_def with_lock_def split: prod.split)

lemma transition_to_status:
  "comp_status (snd (transition_to m i s now)) j =
     (if j = i \<and> (\<exists>t. comp_status m i = Some t \<and> \<not> status_terminal t) then Some s else comp_status m j)"
  by (simp add: transition_to_def comp_status_def entry_is_terminal_def Let_def split: option.split)

lemma transition_to_answer:
  "fst (transition_to m i s now) =
     (case comp_status m i of
        None \<Rightarrow> Inl (CE_NotFound i)
      | Some t \<Rightarrow> if status_terminal t then Inl (CE_TerminalState i t) else Inr ())"
  by (simp add: transition_to_def comp_status_def entry_is_terminal_def Let_def split: option.split)

lemma expire_loop_status:
  "comp_status (snd (expire_loop m is now)) j = comp_status m j
   \<or> (j \<in> set is \<and> (\<exists>t. comp_status m j = Some t \<and> \<not> status_terminal t)
       \<and> comp_status (snd (expire_loop m is now)) j = Some SC_TimedOut)"
proof (induction "is" arbitrary: m)
  case Nil
  then show ?case by simp
next
  case (Cons i rest)
  obtain r m1 where t: "transition_to m i SC_TimedOut now = (r, m1)" by fastforce
  have s1: "comp_status m1 j = (if j = i \<and> (\<exists>t. comp_status m i = Some t \<and> \<not> status_terminal t)
                              then Some SC_TimedOut else comp_status m j)"
    using transition_to_status [of m i SC_TimedOut now j] t by simp
  show ?case
  proof (cases r)
    case (Inl e)
    then show ?thesis using t s1 by (auto simp: set_timed_out_def)
  next
    case (Inr u)
    then show ?thesis using t s1 Cons.IH [of m1] by (auto simp: set_timed_out_def status_terminal_def split: if_splits)
  qed
qed

definition comp_deps :: "CompensationManifest \<Rightarrow> string \<Rightarrow> string list option" where
  "comp_deps m i = map_option cy_dependencies (mf_entries m i)"

lemma transition_to_deps [simp]: "comp_deps (snd (transition_to m i s now)) j = comp_deps m j"
  by (simp add: transition_to_def comp_deps_def Let_def split: option.split)

lemma expire_loop_deps [simp]: "comp_deps (snd (expire_loop m is now)) j = comp_deps m j"
proof (induction "is" arbitrary: m)
  case Nil
  then show ?case by simp
next
  case (Cons i rest)
  obtain r m1 where t: "transition_to m i SC_TimedOut now = (r, m1)" by fastforce
  then have "comp_deps m1 j = comp_deps m j" using transition_to_deps [of m i SC_TimedOut now j] by simp
  then show ?case using t Cons.IH [of m1] by (cases r) (simp_all add: set_timed_out_def)
qed

text \<open>
  What a call does to the manifest: a registration adds an entry, every other call moves
  statuses only.
\<close>

abbreviation manifest :: "CompensationSaga \<Rightarrow> CompensationManifest" where
  "manifest sg \<equiv> mx_value (sg_manifest sg)"

lemma comp_call_open:
  "\<not> mx_poisoned (sg_manifest sg) \<Longrightarrow> \<not> mx_poisoned (sg_manifest (snd (comp_call sg now op)))"
  by (cases op)
    (simp_all add: saga_register_def register_with_timeout_def queue_pending_def start_compensation_def
      comp_succeed_def comp_fail_def mark_ambiguous_def handle_reconciliation_def expire_second_half_def)

lemma mark_ambiguous_manifest:
  "\<not> mx_poisoned (sg_manifest sg) \<Longrightarrow>
     manifest (snd (mark_ambiguous sg i now)) = snd (transition_to (manifest sg) i SC_Ambiguous now)"
  by (simp add: mark_ambiguous_def set_ambiguous_def split: prod.split sum.split option.split)

lemma comp_call_deps:
  assumes "\<not> mx_poisoned (sg_manifest sg)" and "comp_deps (manifest sg) j = Some ds"
  shows "comp_deps (manifest (snd (comp_call sg now op))) j = Some ds"
proof (cases op)
  case (CO_Register i policy deps)
  then show ?thesis using assms by (auto simp: saga_register_def manifest_register_def comp_deps_def)
next
  case (CO_RegisterTimeout i policy deps t)
  then show ?thesis using assms by (auto simp: register_with_timeout_def manifest_register_def comp_deps_def)
next
  case (CO_Ambiguous i)
  then show ?thesis using assms mark_ambiguous_manifest [OF assms(1), of i now] by (simp add: case_prod_unfold)
qed (use assms in \<open>auto simp: queue_pending_def start_compensation_def comp_succeed_def comp_fail_def
      handle_reconciliation_def expire_second_half_def split: option.splits\<close>)

lemma comp_call_terminal:
  assumes "\<not> mx_poisoned (sg_manifest sg)" and "comp_status (manifest sg) j = Some s" and "status_terminal s"
  shows "comp_status (manifest (snd (comp_call sg now op))) j = Some s"
proof (cases op)
  case (CO_Register i policy deps)
  then show ?thesis using assms by (auto simp: saga_register_def manifest_register_def comp_status_def)
next
  case (CO_RegisterTimeout i policy deps t)
  then show ?thesis using assms by (auto simp: register_with_timeout_def manifest_register_def comp_status_def)
next
  case (CO_Ambiguous i)
  then show ?thesis using assms mark_ambiguous_manifest [OF assms(1), of i now]
    by (auto simp: case_prod_unfold transition_to_status)
next
  case (CO_Expire ids)
  then show ?thesis using assms expire_loop_status [of "manifest sg" ids now j] by (auto simp: expire_second_half_def)
qed (use assms in \<open>auto simp: queue_pending_def start_compensation_def comp_succeed_def comp_fail_def
      handle_reconciliation_def transition_to_status split: option.splits\<close>)

lemma comp_call_refused:
  assumes "\<not> mx_poisoned (sg_manifest sg)" and "comp_status (manifest sg) j = Some s" and "status_terminal s"
    and "asks op = Some (j, t)"
  shows "fst (comp_call sg now op) = Inl (CE_TerminalState j s)"
proof -
  have tr: "fst (transition_to (manifest sg) j u now) = Inl (CE_TerminalState j s)" for u
    using assms(2,3) by (simp add: transition_to_answer)
  obtain m1 where "transition_to (manifest sg) j SC_Ambiguous now = (Inl (CE_TerminalState j s), m1)"
    using tr [of SC_Ambiguous] by (cases "transition_to (manifest sg) j SC_Ambiguous now") simp
  then show ?thesis using assms(1,4) tr
    by (cases op) (auto simp: comp_succeed_def comp_fail_def handle_reconciliation_def mark_ambiguous_def
        set_ambiguous_def)
qed

lemma comp_start_answer:
  assumes "\<not> mx_poisoned (sg_manifest sg)" and "fst (comp_call sg now (CO_Start i)) = Inr ()"
  shows "comp_status (manifest sg) i = Some SC_Pending"
    and "comp_deps (manifest sg) i = Some ds \<Longrightarrow> d \<in> set ds \<Longrightarrow> comp_status (manifest sg) d = Some t \<Longrightarrow> status_terminal t"
  using assms by (auto simp: start_compensation_def can_execute_def comp_status_def comp_deps_def
      entry_is_terminal_def list_all_iff split: if_splits option.splits)

section \<open>Runs\<close>

lemma comp_run_cons:
  assumes "run_trace comp_step sg (call # calls) = (ev # evs, sg')"
  shows "ev = (snd call, fst (comp_call sg (fst call) (snd call)))"
    and "run_trace comp_step (snd (comp_call sg (fst call) (snd call))) calls = (evs, sg')"
  using assms by (auto simp: comp_step_def split: prod.splits)

lemma comp_run_length: "run_trace comp_step sg calls = (evs, sg') \<Longrightarrow> length evs = length calls"
  by (induction calls arbitrary: sg evs) (auto split: prod.splits)

lemma comp_run_inv:
  assumes step: "\<And>sg now op. P sg \<Longrightarrow> P (snd (comp_call sg now op))"
  shows "run_trace comp_step sg calls = (evs, sg') \<Longrightarrow> P sg \<Longrightarrow> P sg'"
proof (induction calls arbitrary: sg evs)
  case Nil
  then show ?case by simp
next
  case (Cons call calls)
  then obtain ev evs1 where "evs = ev # evs1" using comp_run_length by (cases evs) fastforce+
  then show ?case using Cons comp_run_cons(2) [of sg call calls ev evs1] step by blast
qed

lemma comp_run_open:
  "run_trace comp_step sg calls = (evs, sg') \<Longrightarrow> \<not> mx_poisoned (sg_manifest sg) \<Longrightarrow> \<not> mx_poisoned (sg_manifest sg')"
  by (rule comp_run_inv [where P = "\<lambda>sg. \<not> mx_poisoned (sg_manifest sg)"]) (rule comp_call_open)

lemma comp_run_deps:
  assumes "run_trace comp_step sg calls = (evs, sg')" "\<not> mx_poisoned (sg_manifest sg)"
    "comp_deps (manifest sg) j = Some ds"
  shows "comp_deps (manifest sg') j = Some ds"
  using comp_run_inv [where P = "\<lambda>sg. \<not> mx_poisoned (sg_manifest sg) \<and> comp_deps (manifest sg) j = Some ds", OF _ assms(1)]
    comp_call_open comp_call_deps assms(2,3) by blast

lemma comp_run_terminal:
  assumes "run_trace comp_step sg calls = (evs, sg')" "\<not> mx_poisoned (sg_manifest sg)"
    "comp_status (manifest sg) j = Some s" "status_terminal s"
  shows "comp_status (manifest sg') j = Some s"
  using comp_run_inv [where P = "\<lambda>sg. \<not> mx_poisoned (sg_manifest sg) \<and> comp_status (manifest sg) j = Some s", OF _ assms(1)]
    comp_call_open comp_call_terminal assms(2-4) by blast

lemma comp_run_events:
  assumes step: "\<And>sg now op. P sg \<Longrightarrow> P (snd (comp_call sg now op))"
  shows "run_trace comp_step sg calls = (evs, sg') \<Longrightarrow> P sg \<Longrightarrow> (op, r) \<in> set evs
           \<Longrightarrow> \<exists>sg1 now. P sg1 \<and> r = fst (comp_call sg1 now op)"
proof (induction calls arbitrary: sg evs)
  case Nil
  then show ?case by simp
next
  case (Cons call calls)
  then obtain ev evs1 where e: "evs = ev # evs1" by (cases evs) simp_all
  note c = comp_run_cons [OF Cons.prems(1) [unfolded e]]
  show ?case
  proof (cases "(op, r) = ev")
    case True
    then show ?thesis using c(1) Cons.prems(2) by auto
  next
    case False
    then show ?thesis using Cons.IH [OF c(2)] step Cons.prems(2,3) e by auto
  qed
qed

lemma comp_run_at:
  assumes "run_trace comp_step sg calls = (pre @ (op, r) # post, sg')" and "\<not> mx_poisoned (sg_manifest sg)"
  obtains calls1 calls2 now sg1 where "run_trace comp_step sg calls1 = (pre, sg1)" "\<not> mx_poisoned (sg_manifest sg1)"
    "r = fst (comp_call sg1 now op)" "run_trace comp_step (snd (comp_call sg1 now op)) calls2 = (post, sg')"
proof -
  obtain calls1 c sg1 where c: "run_trace comp_step sg calls1 = (pre, sg1)" "run_trace comp_step sg1 c = ((op, r) # post, sg')"
    using run_trace_split [OF assms(1)] by blast
  then obtain call calls2 where call: "c = call # calls2" by (cases c) auto
  note e = comp_run_cons [OF c(2) [unfolded call]]
  show thesis
    using that [OF c(1) comp_run_open [OF c(1) assms(2)], of "fst call" calls2] e by auto
qed

lemma comp_call_asked:
  assumes "\<not> mx_poisoned (sg_manifest sg)" and "asks op = Some (i, s)" and "fst (comp_call sg now op) = Inr ()"
  shows "comp_status (manifest (snd (comp_call sg now op))) i = Some s"
proof -
  have tr: "comp_status (snd (transition_to (manifest sg) i u now)) i = Some u"
    if "is_ok (fst (transition_to (manifest sg) i u now))" for u
    using that by (auto simp: transition_to_status transition_to_answer split: option.splits if_splits)
  show ?thesis
  proof (cases op)
    case (CO_Ambiguous j)
    then have j: "j = i" "s = SC_Ambiguous" using assms(2) by auto
    obtain r m1 where m1: "transition_to (manifest sg) i SC_Ambiguous now = (r, m1)" by fastforce
    have "is_ok r"
      using assms(1,3) m1 CO_Ambiguous j
      by (cases r) (simp_all add: mark_ambiguous_def set_ambiguous_def)
    then show ?thesis using tr [of SC_Ambiguous] m1 CO_Ambiguous j mark_ambiguous_manifest [OF assms(1), of i now]
      by (simp add: case_prod_unfold)
  qed (use assms tr in \<open>auto simp: comp_succeed_def comp_fail_def handle_reconciliation_def\<close>)
qed

lemma with_reconciler_open [simp]: "\<not> mx_poisoned (sg_manifest (with_reconciler rc))"
  by (simp add: with_reconciler_def)

text \<open>
  (C39) A compensation is decided once: in every run, whatever the reconciler advises and
  however timeouts interleave with other calls, after a call that brings a compensation to
  success or failure its status never changes again, every later attempt to decide,
  question or reconcile it is refused with its final status, and it is never started again.
\<close>

theorem compensation_decided_once:
  assumes "run_trace comp_step (with_reconciler rc) calls = (pre @ (op, Inr ()) # post, sg)"
    and "asks op = Some (i, s)" and "status_terminal s"
  shows "comp_status (manifest sg) i = Some s
         \<and> (\<forall>op' r t. (op', r) \<in> set post \<longrightarrow> asks op' = Some (i, t) \<longrightarrow> r = Inl (CE_TerminalState i s))
         \<and> (CO_Start i, Inr ()) \<notin> set post"
proof (rule comp_run_at [OF assms(1) with_reconciler_open])
  fix calls1 calls2 now sg1
  assume a: "\<not> mx_poisoned (sg_manifest sg1)" "Inr () = fst (comp_call sg1 now op)"
    "run_trace comp_step (snd (comp_call sg1 now op)) calls2 = (post, sg)"
  let ?sg = "snd (comp_call sg1 now op)"
  let ?P = "\<lambda>sg. \<not> mx_poisoned (sg_manifest sg) \<and> comp_status (manifest sg) i = Some s"
  have p: "?P ?sg" using comp_call_open [OF a(1)] comp_call_asked [OF a(1) assms(2)] a(2) by simp
  have step: "?P (snd (comp_call sg now op))" if "?P sg" for sg now op
    using that comp_call_open comp_call_terminal assms(3) by blast
  have "r = Inl (CE_TerminalState i s)" if e: "(op', r) \<in> set post" "asks op' = Some (i, t)" for op' r t
  proof -
    obtain sg2 now2 where "?P sg2" "r = fst (comp_call sg2 now2 op')"
      using comp_run_events [where P = ?P, OF step a(3) p e(1)] by blast
    then show ?thesis using comp_call_refused assms(3) e(2) by blast
  qed
  moreover have "(CO_Start i, Inr ()) \<notin> set post"
  proof
    assume "(CO_Start i, Inr ()) \<in> set post"
    then obtain sg2 now2 where s2: "?P sg2" "Inr () = fst (comp_call sg2 now2 (CO_Start i))"
      using comp_run_events [where P = ?P, OF step a(3) p] by blast
    then have "s = SC_Pending" using comp_start_answer(1) [of sg2 now2 i] by simp
    then show False using assms(3) by (simp add: status_terminal_def)
  qed
  moreover have "comp_status (manifest sg) i = Some s"
    using comp_run_terminal [OF a(3)] p assms(3) by blast
  ultimately show ?thesis by blast
qed

theorem compensation_decided_once_witness:
  "\<exists>sg. run_trace comp_step (with_reconciler NoOpReconciler)
          [(1, CO_Register ''e'' Policy_Automatic []), (2, CO_Succeed ''e''), (3, CO_Fail ''e'')]
        = ([(CO_Register ''e'' Policy_Automatic [], Inr ())] @ (CO_Succeed ''e'', Inr ())
             # [(CO_Fail ''e'', Inl (CE_TerminalState ''e'' SC_Succeeded))], sg)
     \<and> comp_status (manifest sg) ''e'' = Some SC_Succeeded"
proof -
  obtain sg where r: "run_trace comp_step (with_reconciler NoOpReconciler)
          [(1, CO_Register ''e'' Policy_Automatic []), (2, CO_Succeed ''e''), (3, CO_Fail ''e'')]
        = ([(CO_Register ''e'' Policy_Automatic [], Inr ())] @ (CO_Succeed ''e'', Inr ())
             # [(CO_Fail ''e'', Inl (CE_TerminalState ''e'' SC_Succeeded))], sg)"
    by (simp add: comp_step_def saga_register_def manifest_register_def comp_succeed_def comp_fail_def transition_to_def
        entry_is_terminal_def status_terminal_def CompensationEntry_new_def with_reconciler_def
        CompensationManifest_default_def Let_def)
  have "asks (CO_Succeed ''e'') = Some (''e'', SC_Succeeded)" "status_terminal SC_Succeeded"
    by (simp_all add: status_terminal_def)
  from compensation_decided_once [OF r this] show ?thesis using r by blast
qed

lemma comp_registered:
  assumes "run_trace comp_step sg calls = (evs, sg')" and "\<not> mx_poisoned (sg_manifest sg)"
    and "(CO_Register i policy ds, Inr ()) \<in> set evs"
  shows "comp_deps (manifest sg') i = Some ds"
proof -
  obtain pre post where "evs = pre @ (CO_Register i policy ds, Inr ()) # post" using assms(3) by (meson split_list)
  from comp_run_at [OF assms(1) [unfolded this] assms(2)] obtain calls2 now sg1 where
    a: "\<not> mx_poisoned (sg_manifest sg1)" "Inr () = fst (comp_call sg1 now (CO_Register i policy ds))"
       "run_trace comp_step (snd (comp_call sg1 now (CO_Register i policy ds))) calls2 = (post, sg')" .
  have "comp_deps (manifest (snd (comp_call sg1 now (CO_Register i policy ds)))) i = Some ds"
    using a(1,2) by (simp add: saga_register_def manifest_register_def comp_deps_def CompensationEntry_new_def
        split: if_splits)
  then show ?thesis using comp_run_deps [OF a(3) comp_call_open [OF a(1)]] by blast
qed

text \<open>
  Dependencies come first: in every run, when a compensation was started, each of its
  registered dependencies had been decided before, stays decided, and is never started
  afterwards.  A compensation thus never runs before the compensation of an effect that
  its own effect depends on.
\<close>

theorem compensation_dependencies_first:
  assumes "run_trace comp_step (with_reconciler rc) calls = (pre @ (CO_Start i, Inr ()) # post, sg)"
    and "(CO_Register i policy ds, Inr ()) \<in> set pre" and "d \<in> set ds"
    and "(CO_Register d policy' ds', Inr ()) \<in> set pre"
  shows "(\<exists>s. comp_status (manifest sg) d = Some s \<and> status_terminal s) \<and> (CO_Start d, Inr ()) \<notin> set post"
proof (rule comp_run_at [OF assms(1) with_reconciler_open])
  fix calls1 calls2 now sg1
  assume a: "run_trace comp_step (with_reconciler rc) calls1 = (pre, sg1)" "\<not> mx_poisoned (sg_manifest sg1)"
    "Inr () = fst (comp_call sg1 now (CO_Start i))"
    "run_trace comp_step (snd (comp_call sg1 now (CO_Start i))) calls2 = (post, sg)"
  have deps: "comp_deps (manifest sg1) i = Some ds" "comp_deps (manifest sg1) d = Some ds'"
    using comp_registered [OF a(1) with_reconciler_open] assms(2,4) by blast+
  obtain s where s: "comp_status (manifest sg1) d = Some s"
    using deps(2) by (auto simp: comp_deps_def comp_status_def)
  have fin: "status_terminal s"
    using comp_start_answer(2) [OF a(2) a(3) [symmetric] deps(1) assms(3) s] .
  let ?P = "\<lambda>sg. \<not> mx_poisoned (sg_manifest sg) \<and> comp_status (manifest sg) d = Some s"
  have p: "?P (snd (comp_call sg1 now (CO_Start i)))"
    using comp_call_open [OF a(2)] comp_call_terminal [OF a(2) s fin] by blast
  have step: "?P (snd (comp_call sg now op))" if "?P sg" for sg now op
    using that comp_call_open comp_call_terminal fin by blast
  have "(CO_Start d, Inr ()) \<notin> set post"
  proof
    assume "(CO_Start d, Inr ()) \<in> set post"
    then obtain sg2 now2 where s2: "?P sg2" "Inr () = fst (comp_call sg2 now2 (CO_Start d))"
      using comp_run_events [where P = ?P, OF step a(4) p] by blast
    then have "s = SC_Pending" using comp_start_answer(1) [of sg2 now2 d] by simp
    then show False using fin by (simp add: status_terminal_def)
  qed
  then show ?thesis using comp_run_terminal [OF a(4)] p fin by blast
qed

definition demo_comp_calls :: "(TimestampMs \<times> comp_op) list" where
  "demo_comp_calls = [(1, CO_Register ''a'' Policy_Automatic []), (2, CO_Register ''b'' Policy_Automatic [''a'']),
     (3, CO_Queue ''a''), (4, CO_Queue ''b'')]"

definition demo_comp_saga :: CompensationSaga where
  "demo_comp_saga = snd (run_trace comp_step (with_reconciler NoOpReconciler) demo_comp_calls)"

lemmas comp_eval = comp_step_def saga_register_def manifest_register_def queue_pending_def start_compensation_def
  comp_succeed_def transition_to_def entry_is_terminal_def status_terminal_def can_execute_def
  CompensationEntry_new_def with_reconciler_def CompensationManifest_default_def Let_def

lemma demo_comp_run:
  "run_trace comp_step (with_reconciler NoOpReconciler) demo_comp_calls =
     (map (\<lambda>(_, op). (op, Inr ())) demo_comp_calls, demo_comp_saga)"
  by (simp add: demo_comp_calls_def demo_comp_saga_def comp_eval)

theorem compensation_dependencies_first_witness:
  "\<exists>sg. run_trace comp_step (with_reconciler NoOpReconciler)
          (demo_comp_calls @ [(5, CO_Start ''a''), (6, CO_Succeed ''a''), (7, CO_Start ''b'')])
        = (map (\<lambda>(_, op). (op, Inr ())) (demo_comp_calls @ [(5, CO_Start ''a''), (6, CO_Succeed ''a'')])
             @ (CO_Start ''b'', Inr ()) # [], sg)
     \<and> (\<exists>s. comp_status (manifest sg) ''a'' = Some s \<and> status_terminal s)"
proof -
  obtain sg where r: "run_trace comp_step (with_reconciler NoOpReconciler)
          (demo_comp_calls @ [(5, CO_Start ''a''), (6, CO_Succeed ''a''), (7, CO_Start ''b'')])
        = (map (\<lambda>(_, op). (op, Inr ())) (demo_comp_calls @ [(5, CO_Start ''a''), (6, CO_Succeed ''a'')])
             @ (CO_Start ''b'', Inr ()) # [], sg)"
    by (simp add: demo_comp_calls_def comp_eval)
  have "\<exists>s. comp_status (manifest sg) ''a'' = Some s \<and> status_terminal s"
    using compensation_dependencies_first [OF r, of Policy_Automatic "[''a'']" "''a''" Policy_Automatic "[]"]
    by (auto simp: demo_comp_calls_def)
  then show ?thesis using r by blast
qed

section \<open>The order of execution\<close>

definition order_ok :: "CompensationManifest \<Rightarrow> bool" where
  "order_ok m \<longleftrightarrow> distinct (mf_registration_order m) \<and> set (mf_registration_order m) = dom (mf_entries m)"

lemma order_ok_transition: "order_ok m \<Longrightarrow> order_ok (snd (transition_to m i s now))"
  by (auto simp: order_ok_def transition_to_def Let_def split: option.split)

lemma order_ok_expire: "order_ok m \<Longrightarrow> order_ok (snd (expire_loop m is now))"
proof (induction "is" arbitrary: m)
  case Nil
  then show ?case by simp
next
  case (Cons i rest)
  obtain r m1 where t: "transition_to m i SC_TimedOut now = (r, m1)" by fastforce
  then have "order_ok m1" using order_ok_transition [OF Cons.prems, of i SC_TimedOut now] by simp
  then show ?case using t Cons.IH [of m1] by (cases r) (simp_all add: set_timed_out_def)
qed

lemma order_ok_call:
  assumes "\<not> mx_poisoned (sg_manifest sg)" and "order_ok (manifest sg)"
  shows "order_ok (manifest (snd (comp_call sg now op)))"
proof (cases op)
  case (CO_Register i policy deps)
  then show ?thesis using assms by (auto simp: saga_register_def manifest_register_def order_ok_def)
next
  case (CO_RegisterTimeout i policy deps t)
  then show ?thesis using assms by (auto simp: register_with_timeout_def manifest_register_def order_ok_def)
next
  case (CO_Ambiguous i)
  then show ?thesis using assms mark_ambiguous_manifest [OF assms(1), of i now] order_ok_transition
    by (simp add: case_prod_unfold)
next
  case (CO_Expire ids)
  then show ?thesis using assms order_ok_expire by (simp add: expire_second_half_def)
qed (use assms order_ok_transition in \<open>auto simp: queue_pending_def start_compensation_def comp_succeed_def
      comp_fail_def handle_reconciliation_def split: option.splits\<close>)

lemma order_ok_run:
  assumes "run_trace comp_step (with_reconciler rc) calls = (evs, sg)"
  shows "order_ok (manifest sg)"
proof -
  have "order_ok (manifest (with_reconciler rc))"
    by (simp add: order_ok_def with_reconciler_def CompensationManifest_default_def)
  then show ?thesis
    using comp_run_inv [where P = "\<lambda>sg. \<not> mx_poisoned (sg_manifest sg) \<and> order_ok (manifest sg)", OF _ assms]
      comp_call_open order_ok_call with_reconciler_open by blast
qed

text \<open>The dependents collected are exactly the pending effects that name the effect.\<close>

lemma add_deps_fold:
  "ds d = Some l \<Longrightarrow>
     \<exists>l'. fold (\<lambda>dep ds. if dep \<in> set pending
                 then (case ds dep of Some l \<Rightarrow> ds(dep \<mapsto> l @ [e]) | None \<Rightarrow> ds) else ds) deps ds d = Some l'
          \<and> set l' = set l \<union> (if d \<in> set deps \<and> d \<in> set pending then {e} else {})"
proof (induction deps arbitrary: ds l)
  case Nil
  then show ?case by simp
next
  case (Cons dep deps)
  show ?case
  proof (cases "dep \<in> set pending")
    case False
    then show ?thesis using Cons.IH [of ds, OF Cons.prems] by auto
  next
    case True
    show ?thesis
    proof (cases "ds dep")
      case None
      then have "dep \<noteq> d" using Cons.prems by auto
      then show ?thesis using True None Cons.IH [of ds, OF Cons.prems] by auto
    next
      case (Some k)
      let ?ds = "ds(dep \<mapsto> k @ [e])"
      obtain l1 where l1: "?ds d = Some l1" "set l1 = set l \<union> (if dep = d then {e} else {})"
        using Some Cons.prems by (cases "dep = d") auto
      obtain l' where "fold (\<lambda>dep ds. if dep \<in> set pending
                 then (case ds dep of Some l \<Rightarrow> ds(dep \<mapsto> l @ [e]) | None \<Rightarrow> ds) else ds) deps ?ds d = Some l'"
          "set l' = set l1 \<union> (if d \<in> set deps \<and> d \<in> set pending then {e} else {})"
        using Cons.IH [of ?ds, OF l1(1)] by blast
      then show ?thesis using True Some l1(2) by (auto split: if_splits)
    qed
  qed
qed

definition depends_on :: "CompensationManifest \<Rightarrow> string \<Rightarrow> string \<Rightarrow> bool" where
  "depends_on m e d \<longleftrightarrow> (\<exists>ds. comp_deps m e = Some ds \<and> d \<in> set ds)"

lemma add_dependents_fold:
  "ds d = Some l \<Longrightarrow> d \<in> set pending \<Longrightarrow>
     \<exists>l'. fold (add_dependents pending m) es ds d = Some l'
          \<and> set l' = set l \<union> {e \<in> set es. depends_on m e d}"
proof (induction es arbitrary: ds l)
  case Nil
  then show ?case by simp
next
  case (Cons e es)
  obtain l1 where l1: "add_dependents pending m e ds d = Some l1"
    "set l1 = set l \<union> (if depends_on m e d then {e} else {})"
  proof (cases "mf_entries m e")
    case None
    then show thesis using that [of l] Cons.prems by (simp add: add_dependents_def depends_on_def comp_deps_def)
  next
    case (Some entry)
    then show thesis
      using that add_deps_fold [of ds d l pending e "cy_dependencies entry"] Cons.prems
      by (auto simp: add_dependents_def depends_on_def comp_deps_def)
  qed
  then show ?case using Cons.IH [of "add_dependents pending m e ds", OF l1(1) Cons.prems(2)] by auto
qed

lemma pending_dependents_exact:
  assumes "d \<in> set pending"
  shows "\<exists>l. pending_dependents m pending d = Some l \<and> set l = {e \<in> set pending. depends_on m e d}"
proof -
  have "fold (\<lambda>i ds. ds(i \<mapsto> [])) xs ds d = (if d \<in> set xs then Some [] else ds d)"
    for xs and ds :: "string \<rightharpoonup> string list"
    by (induction xs arbitrary: ds) auto
  then have "fold (\<lambda>i ds. ds(i \<mapsto> [])) pending Map.empty d = Some ([] :: string list)" using assms by simp
  from add_dependents_fold [of "fold (\<lambda>i ds. ds(i \<mapsto> [])) pending Map.empty", OF this assms] show ?thesis by (simp add: pending_dependents_def)
qed

fun all_ready :: "(string \<rightharpoonup> string list) \<Rightarrow> string list \<Rightarrow> string list \<Rightarrow> bool" where
  "all_ready dependents [] result = True"
| "all_ready dependents (i # is) result =
     (set (the (dependents i)) \<subseteq> set result \<and> all_ready dependents is (result @ [i]))"

lemma emit_ready_length: "length (emit_ready D es acc) \<le> length acc + length es"
proof (induction es arbitrary: acc)
  case Nil
  then show ?case by simp
next
  case (Cons i es)
  show ?case using Cons.IH [of acc] Cons.IH [of "acc @ [i]"] by simp
qed

lemma emit_ready_exact:
  assumes "\<forall>i \<in> set es. D i \<noteq> None"
  shows "if all_ready D es acc then emit_ready D es acc = acc @ es
         else length (emit_ready D es acc) < length acc + length es"
  using assms
proof (induction es arbitrary: acc)
  case Nil
  then show ?case by simp
next
  case (Cons i es)
  then obtain l where l: "D i = Some l" by auto
  show ?case
  proof (cases "set l \<subseteq> set acc")
    case True
    then have t: "emit_ready D (i # es) acc = emit_ready D es (acc @ [i])" "all_ready D (i # es) acc = all_ready D es (acc @ [i])"
      using l by (auto simp: list_all_iff subset_iff)
    have "if all_ready D es (acc @ [i]) then emit_ready D es (acc @ [i]) = (acc @ [i]) @ es
          else length (emit_ready D es (acc @ [i])) < length (acc @ [i]) + length es"
      using Cons.IH [of "acc @ [i]"] Cons.prems by simp
    then show ?thesis unfolding t by (simp split: if_splits)
  next
    case False
    then have t: "emit_ready D (i # es) acc = emit_ready D es acc" "\<not> all_ready D (i # es) acc"
      using l by (auto simp: list_all_iff)
    have "length (emit_ready D es acc) < length acc + length (i # es)" using emit_ready_length [of D es acc] by simp
    then show ?thesis unfolding t(1) if_not_P [OF t(2)] .
  qed
qed

lemma emit_ready_set: "set (emit_ready D es acc) \<subseteq> set acc \<union> set es"
proof (induction es arbitrary: acc)
  case Nil
  then show ?case by simp
next
  case (Cons i es)
  show ?case using Cons.IH [of acc] Cons.IH [of "acc @ [i]"] by auto
qed

lemma emit_ready_distinct: "distinct (acc @ es) \<Longrightarrow> distinct (emit_ready D es acc)"
  by (induction es arbitrary: acc) auto

lemma all_splits_Cons:
  "(\<forall>us i vs. j # es = us @ i # vs \<longrightarrow> Q us i) \<longleftrightarrow> Q [] j \<and> (\<forall>us i vs. es = us @ i # vs \<longrightarrow> Q (j # us) i)"
  (is "?L \<longleftrightarrow> ?R")
proof
  assume l: ?L
  have "Q (j # us) i" if "es = us @ i # vs" for us i vs
    using l [rule_format, of "j # us" i vs] that by simp
  then show ?R using l by blast
next
  assume r: ?R
  show ?L
  proof (intro allI impI)
    fix us i vs assume "j # es = us @ i # vs"
    then show "Q us i" using r by (cases us) auto
  qed
qed

lemma all_ready_iff:
  "all_ready D es acc \<longleftrightarrow> (\<forall>us i vs. es = us @ i # vs \<longrightarrow> set (the (D i)) \<subseteq> set acc \<union> set us)"
proof (induction es arbitrary: acc)
  case Nil
  then show ?case by simp
next
  case (Cons j es)
  have "set (acc @ [j]) \<union> set us = set acc \<union> set (j # us)" for us by auto
  then have "all_ready D (j # es) acc \<longleftrightarrow> set (the (D j)) \<subseteq> set acc \<union> set []
          \<and> (\<forall>us i vs. es = us @ i # vs \<longrightarrow> set (the (D i)) \<subseteq> set acc \<union> set (j # us))"
    using Cons.IH [of "acc @ [j]"] by simp
  also have "\<dots> \<longleftrightarrow> (\<forall>us i vs. j # es = us @ i # vs \<longrightarrow> set (the (D i)) \<subseteq> set acc \<union> set us)"
    by (rule all_splits_Cons [symmetric])
  finally show ?case .
qed

lemma precedes_distinct:
  assumes "distinct (us @ d # vs)"
  shows "precedes (us @ d # vs) d e \<longleftrightarrow> e \<in> set vs"
proof
  assume "precedes (us @ d # vs) d e"
  then obtain as bs cs where eq: "us @ d # vs = as @ d # (bs @ e # cs)" by (auto simp: precedes_def)
  have "d \<notin> set us" "d \<notin> set vs" using assms by simp_all
  then have "vs = bs @ e # cs" using eq append_Cons_eq_iff [of d us vs as "bs @ e # cs"] by blast
  then show "e \<in> set vs" by simp
next
  assume "e \<in> set vs"
  then obtain bs cs where "vs = bs @ e # cs" by (meson split_list)
  then show "precedes (us @ d # vs) d e" by (auto simp: precedes_def)
qed

lemma all_ready_pending:
  assumes "distinct pending"
  shows "all_ready (pending_dependents m pending) (rev pending) [] \<longleftrightarrow>
           (\<forall>e d. e \<in> set pending \<longrightarrow> d \<in> set pending \<longrightarrow> depends_on m e d \<longrightarrow> precedes pending d e)"
proof -
  have need: "set (the (pending_dependents m pending d)) = {e \<in> set pending. depends_on m e d}" if d: "d \<in> set pending" for d
  proof -
    obtain l where "pending_dependents m pending d = Some l" "set l = {e \<in> set pending. depends_on m e d}"
      using pending_dependents_exact [OF d, of m] by blast
    then show ?thesis by simp
  qed
  have iff: "all_ready (pending_dependents m pending) (rev pending) [] \<longleftrightarrow>
          (\<forall>us d vs. rev pending = us @ d # vs \<longrightarrow> set (the (pending_dependents m pending d)) \<subseteq> set us)" (is "_ \<longleftrightarrow> ?L")
    unfolding all_ready_iff by simp
  have "?L \<longleftrightarrow> (\<forall>e d. e \<in> set pending \<longrightarrow> d \<in> set pending \<longrightarrow> depends_on m e d \<longrightarrow> precedes pending d e)"
    (is "_ \<longleftrightarrow> ?R")
  proof
    assume l: ?L
    show ?R
    proof (intro allI impI)
      fix e d assume ed: "e \<in> set pending" "d \<in> set pending" "depends_on m e d"
      then obtain vs us where p: "pending = vs @ d # us" by (meson split_list)
      then have "set (the (pending_dependents m pending d)) \<subseteq> set us" using l [rule_format, of "rev us" d "rev vs"] by simp
      then have "e \<in> set us" using need [OF ed(2)] ed by blast
      then show "precedes pending d e" using precedes_distinct [of vs d us e] assms p by simp
    qed
  next
    assume r: ?R
    show ?L
    proof (intro allI impI subsetI)
      fix us d vs e
      assume "rev pending = us @ d # vs" and e: "e \<in> set (the (pending_dependents m pending d))"
      then have p: "pending = rev vs @ d # rev us" using rev_swap [of pending "us @ d # vs"] by simp
      then have "d \<in> set pending" by simp
      then have "precedes pending d e" using r need e by blast
      then show "e \<in> set us" using precedes_distinct [of "rev vs" d "rev us" e] assms p by simp
    qed
  qed
  then show ?thesis unfolding iff .
qed

lemma reverse_order:
  assumes "run_trace comp_step (with_reconciler rc) calls = (evs, sg)"
    and "pending = filter (is_pending (manifest sg)) (mf_registration_order (manifest sg))"
  shows "(if \<forall>e d. e \<in> set pending \<longrightarrow> d \<in> set pending \<longrightarrow> depends_on (manifest sg) e d \<longrightarrow> precedes pending d e
          then get_reverse_dependency_order (manifest sg) = Inr (rev pending)
          else \<exists>ids. get_reverse_dependency_order (manifest sg) = Inl (CE_CycleDetected ids)
                     \<and> ids \<noteq> [] \<and> set ids \<subseteq> set pending)
         \<and> get_compensation_order sg = Some (rev pending)"
proof -
  let ?m = "manifest sg" and ?D = "pending_dependents (manifest sg) pending"
  have open': "\<not> mx_poisoned (sg_manifest sg)" using comp_run_open [OF assms(1) with_reconciler_open] .
  have dist: "distinct pending" using order_ok_run [OF assms(1)] assms(2) by (simp add: order_ok_def)
  define res where "res = emit_ready ?D (rev pending) []"
  have "\<forall>i \<in> set (rev pending). ?D i \<noteq> None" using pending_dependents_exact by fastforce
  note ex = emit_ready_exact [OF this, of "[]"]
  define ok where "ok \<longleftrightarrow> (\<forall>e d. e \<in> set pending \<longrightarrow> d \<in> set pending \<longrightarrow> depends_on ?m e d \<longrightarrow> precedes pending d e)"
  have "all_ready ?D (rev pending) [] = ok" unfolding ok_def by (rule all_ready_pending [OF dist])
  with ex have res: "if ok then res = rev pending else length res < length pending"
    by (cases ok) (simp_all add: res_def)
  have ids: "filter (\<lambda>i. i \<notin> set res) pending \<noteq> []" if "length res < length pending"
  proof
    assume "filter (\<lambda>i. i \<notin> set res) pending = []"
    then have "set pending \<subseteq> set res" by (auto simp: filter_empty_conv)
    then have "card (set pending) \<le> card (set res)" by (simp add: card_mono)
    then show False using that dist card_length [of res] by (simp add: distinct_card)
  qed
  have "get_reverse_dependency_order ?m = (if pending = [] then Inr []
          else if length res \<noteq> length pending then Inl (CE_CycleDetected (filter (\<lambda>i. i \<notin> set res) pending)) else Inr res)"
    by (simp add: get_reverse_dependency_order_def res_def assms(2) Let_def)
  then have "if ok then get_reverse_dependency_order ?m = Inr (rev pending)
          else \<exists>ids. get_reverse_dependency_order ?m = Inl (CE_CycleDetected ids) \<and> ids \<noteq> [] \<and> set ids \<subseteq> set pending"
    using res ids by (cases ok) auto
  moreover have "get_compensation_order sg = Some (rev pending)"
    using open' assms(2) by (simp add: get_compensation_order_def Let_def rev_filter)
  ultimately show ?thesis unfolding ok_def by blast
qed

text \<open>
  (C40) The order in which pending compensations are to be executed: in every reachable state
  the order is the reverse of the order of registration, provided that every pending
  effect was registered after the pending effects it depends on; otherwise a cycle is
  reported, also when the dependencies have none.  The order without the check is always
  the reverse of the order of registration.
\<close>

theorem reverse_order_exact:
  assumes "run_trace comp_step (with_reconciler rc) calls = (evs, sg)"
    and "pending = filter (is_pending (manifest sg)) (mf_registration_order (manifest sg))"
  shows "(if \<forall>e d. e \<in> set pending \<longrightarrow> d \<in> set pending \<longrightarrow> depends_on (manifest sg) e d \<longrightarrow> precedes pending d e
          then get_reverse_dependency_order (manifest sg) = Inr (rev pending)
          else \<exists>ids. get_reverse_dependency_order (manifest sg) = Inl (CE_CycleDetected ids)
                     \<and> ids \<noteq> [] \<and> set ids \<subseteq> set pending)
         \<and> get_compensation_order sg = Some (rev pending)"
  by (rule reverse_order [OF assms])

lemma demo_comp_pending:
  "filter (is_pending (manifest demo_comp_saga)) (mf_registration_order (manifest demo_comp_saga)) = [''a'', ''b'']"
  by (simp add: demo_comp_saga_def demo_comp_calls_def comp_eval is_pending_def)

lemma demo_comp_depends:
  "depends_on (manifest demo_comp_saga) e d \<longleftrightarrow> e = ''b'' \<and> d = ''a''"
  by (auto simp: demo_comp_saga_def demo_comp_calls_def comp_eval depends_on_def comp_deps_def)

theorem reverse_order_exact_witness:
  "get_reverse_dependency_order (manifest demo_comp_saga) = Inr [''b'', ''a'']"
proof -
  have "precedes [''a'', ''b''] ''a'' ''b''" using precedes_append [of "''a''" "[''a'']" "''b''" "[]"] by simp
  then show ?thesis
    using reverse_order_exact [OF demo_comp_run demo_comp_pending [symmetric]] by (simp add: demo_comp_depends)
qed

text \<open>
  The order reported cannot be followed: when a pending compensation depends on a
  pending one, the reported order lists it first, while its start is refused until the
  other one is decided.
\<close>

theorem reported_order_refused:
  assumes "run_trace comp_step (with_reconciler rc) calls = (evs, sg)"
    and "get_reverse_dependency_order (manifest sg) = Inr order"
    and "is_pending (manifest sg) e" and "is_pending (manifest sg) d" and "depends_on (manifest sg) e d"
  shows "precedes order e d \<and> (\<exists>policy. fst (start_compensation sg e now) = Inl (CE_PolicyViolation e policy))"
proof -
  let ?m = "manifest sg"
  define pending where "pending = filter (is_pending ?m) (mf_registration_order ?m)"
  have mem: "i \<in> set pending" if "is_pending ?m i" for i
    using that order_ok_run [OF assms(1)] by (auto simp: pending_def order_ok_def is_pending_def split: option.splits)
  note r = reverse_order [OF assms(1) pending_def]
  then have all: "\<forall>e d. e \<in> set pending \<longrightarrow> d \<in> set pending \<longrightarrow> depends_on ?m e d \<longrightarrow> precedes pending d e"
    and "order = rev pending" using assms(2) by (auto split: if_splits)
  then have "precedes order e d" using mem assms(3-5) by (simp add: precedes_rev)
  moreover have "\<not> can_execute ?m e"
    using assms(3-5) by (auto simp: can_execute_def is_pending_def depends_on_def comp_deps_def list_all_iff
        entry_is_terminal_def status_terminal_def split: option.splits)
  ultimately show ?thesis using comp_run_open [OF assms(1) with_reconciler_open] by (simp add: start_compensation_def)
qed

theorem reported_order_refused_witness:
  "\<exists>order policy. get_reverse_dependency_order (manifest demo_comp_saga) = Inr order
     \<and> precedes order ''b'' ''a''
     \<and> fst (start_compensation demo_comp_saga ''b'' 9) = Inl (CE_PolicyViolation ''b'' policy)"
proof -
  have "precedes [''a'', ''b''] ''a'' ''b''" using precedes_append [of "''a''" "[''a'']" "''b''" "[]"] by simp
  then have o: "get_reverse_dependency_order (manifest demo_comp_saga) = Inr [''b'', ''a'']"
    using reverse_order [OF demo_comp_run demo_comp_pending [symmetric]] by (simp add: demo_comp_depends)
  have "is_pending (manifest demo_comp_saga) ''b''" "is_pending (manifest demo_comp_saga) ''a''"
    by (simp_all add: demo_comp_saga_def demo_comp_calls_def comp_eval is_pending_def)
  from reported_order_refused [OF demo_comp_run o this] show ?thesis using o by (auto simp: demo_comp_depends)
qed

end
