(* ===== verification/Circuit_Breaker.thy ===== *)
theory Circuit_Breaker
  imports Ids Machines
begin

text \<open>
  The circuit breaker of workflow registrations (vo-core/src/circuit_breaker): the
  cooldown between registrations, the sliding window of failed builds and the quarantine,
  and the token bucket limiter (rate_limiter/token_bucket.rs).  Points in time and
  durations are nanoseconds.  The world behind the notification callback and the
  arithmetic of 64-bit floating point numbers are parameters.
\<close>

section \<open>Time, configuration and types\<close>

type_synonym instant = nat
type_synonym nanos = nat

text \<open>\<open>Instant::duration_since\<close> saturates at zero.\<close>

definition duration_since :: "instant \<Rightarrow> instant \<Rightarrow> nanos" where
  "duration_since later earlier = later - earlier"

definition as_secs :: "nanos \<Rightarrow> u64" where
  "as_secs d = of_nat (d div 1000000000)"

definition subsec_nanos :: "nanos \<Rightarrow> u32" where
  "subsec_nanos d = of_nat (d mod 1000000000)"

datatype RegistrationStatus = Active | Deactivated | Quarantined | Deleted

record CircuitBreakerConfig =
  rate_limit_window :: nanos
  failure_window :: nanos
  failure_threshold :: u8

datatype ConfigValidationError =
    ZeroRateLimitWindow
  | ZeroFailureWindow
  | ZeroFailureThreshold

definition CircuitBreakerConfig_new ::
  "nanos \<Rightarrow> nanos \<Rightarrow> u8 \<Rightarrow> ConfigValidationError + CircuitBreakerConfig" where
  "CircuitBreakerConfig_new rate_window fail_window threshold =
     (if rate_window = 0 then Inl ZeroRateLimitWindow
      else if fail_window = 0 then Inl ZeroFailureWindow
      else if threshold = 0 then Inl ZeroFailureThreshold
      else Inr \<lparr>rate_limit_window = rate_window, failure_window = fail_window,
                 failure_threshold = threshold\<rparr>)"

definition default_config :: "ConfigValidationError + CircuitBreakerConfig" where
  "default_config = CircuitBreakerConfig_new 60000000000 600000000000 5"

record FailureRecord =
  fr_hash :: string
  fr_failed_at :: instant

record RegistrationRequest =
  rr_workflow_name :: WorkflowName
  rr_binary_hash :: string
  rr_force :: "string option"

datatype RegistrationOutcome =
    Allowed
  | RateLimited u64
  | OutcomeQuarantined WorkflowName
  | OutcomeDeactivated WorkflowName
  | ForceUnauthorized

record QuarantineEvent =
  qe_workflow_name :: WorkflowName

record UnquarantineResult =
  ur_workflow_name :: WorkflowName
  ur_previous_status :: RegistrationStatus
  ur_new_status :: RegistrationStatus
  ur_failures_cleared :: nat

datatype CircuitBreakerError =
    CB_RateLimited u64
  | CB_WorkflowQuarantined string
  | CB_WorkflowDeactivated string
  | CB_StorageError string
  | CB_WorkflowNotFound string
  | CB_NotQuarantined string RegistrationStatus

section \<open>The cooldown\<close>

definition check_rate_limit :: "instant option \<Rightarrow> nanos \<Rightarrow> instant \<Rightarrow> u64 option" where
  "check_rate_limit last_registration window now =
     (case last_registration of
        None \<Rightarrow> None
      | Some prev \<Rightarrow>
          (let elapsed = duration_since now prev in
           if window \<le> elapsed then None
           else let remaining = window - elapsed in
                Some (as_secs remaining + (if 0 < subsec_nanos remaining then 1 else 0))))"

definition update_rate_limit :: "instant \<Rightarrow> instant" where
  "update_rate_limit now = now"

section \<open>The failure window\<close>

type_synonym FailureWindow = "FailureRecord list"

text \<open>
  \<open>partition_point\<close> is specified for lists on which the predicate is partitioned; the
  window is sorted by time (\<open>record_window_ok\<close>), where it is the length of the prefix.
\<close>

definition partition_point :: "('a \<Rightarrow> bool) \<Rightarrow> 'a list \<Rightarrow> nat" where
  "partition_point p xs = length (takeWhile p xs)"

definition retain_recent :: "instant \<Rightarrow> nanos \<Rightarrow> FailureWindow \<Rightarrow> FailureWindow" where
  "retain_recent now window_duration =
     filter (\<lambda>r. duration_since now (fr_failed_at r) \<le> window_duration)"

fun update_existing :: "string \<Rightarrow> instant \<Rightarrow> FailureWindow \<Rightarrow> FailureWindow option" where
  "update_existing hash failed_at [] = None"
| "update_existing hash failed_at (r # rs) =
     (if fr_hash r = hash then Some (r\<lparr>fr_failed_at := failed_at\<rparr> # rs)
      else map_option (\<lambda>rs'. r # rs') (update_existing hash failed_at rs))"

definition record_failure_in_window ::
  "FailureWindow \<Rightarrow> string \<Rightarrow> instant \<Rightarrow> nanos \<Rightarrow> nat \<times> FailureWindow" where
  "record_failure_in_window window hash failed_at window_duration =
     (let kept = retain_recent failed_at window_duration window;
          records =
            (case update_existing hash failed_at kept of
               Some updated \<Rightarrow> sort_key fr_failed_at updated
             | None \<Rightarrow>
                 (let pos = partition_point (\<lambda>r. fr_failed_at r \<le> failed_at) kept in
                  take pos kept @ [\<lparr>fr_hash = hash, fr_failed_at = failed_at\<rparr>] @ drop pos kept))
      in (length records, records))"

definition unique_failures_in_window ::
  "FailureWindow \<Rightarrow> instant \<Rightarrow> nanos \<Rightarrow> nat \<times> FailureWindow" where
  "unique_failures_in_window window now window_duration =
     (let kept = retain_recent now window_duration window in (length kept, kept))"

section \<open>The shared state\<close>

text \<open>
  \<open>'w\<close> is the world the callback acts on.  Each map of the source is a concurrent map
  whose operations are atomic on a key.
\<close>

record 'w CircuitBreakerState =
  statuses :: "WorkflowName \<Rightarrow> RegistrationStatus option"
  rate_limiter :: "WorkflowName \<Rightarrow> instant option"
  failure_tracker :: "WorkflowName \<Rightarrow> FailureWindow option"
  quarantine_callback :: "(QuarantineEvent \<Rightarrow> 'w \<Rightarrow> 'w) option"
  operator_tokens :: "string \<Rightarrow> unit option"

definition CircuitBreakerState_new :: "'w CircuitBreakerState" where
  "CircuitBreakerState_new =
     \<lparr>statuses = Map.empty, rate_limiter = Map.empty, failure_tracker = Map.empty,
      quarantine_callback = None, operator_tokens = Map.empty\<rparr>"

definition set_quarantine_callback ::
  "'w CircuitBreakerState \<Rightarrow> (QuarantineEvent \<Rightarrow> 'w \<Rightarrow> 'w) \<Rightarrow> 'w CircuitBreakerState" where
  "set_quarantine_callback st callback = st\<lparr>quarantine_callback := Some callback\<rparr>"

definition notify_quarantine :: "'w CircuitBreakerState \<Rightarrow> QuarantineEvent \<Rightarrow> 'w \<Rightarrow> 'w" where
  "notify_quarantine st event w =
     (case quarantine_callback st of Some callback \<Rightarrow> callback event w | None \<Rightarrow> w)"

definition register_operator_token :: "'w CircuitBreakerState \<Rightarrow> string \<Rightarrow> 'w CircuitBreakerState" where
  "register_operator_token st token = st\<lparr>operator_tokens := (operator_tokens st)(token \<mapsto> ())\<rparr>"

definition get_status :: "'w CircuitBreakerState \<Rightarrow> WorkflowName \<Rightarrow> RegistrationStatus" where
  "get_status st wn = (case statuses st wn of Some s \<Rightarrow> s | None \<Rightarrow> Active)"

definition set_status ::
  "'w CircuitBreakerState \<Rightarrow> WorkflowName \<Rightarrow> RegistrationStatus \<Rightarrow> 'w CircuitBreakerState" where
  "set_status st wn status = st\<lparr>statuses := (statuses st)(wn \<mapsto> status)\<rparr>"

definition set_rate_limit ::
  "'w CircuitBreakerState \<Rightarrow> WorkflowName \<Rightarrow> instant \<Rightarrow> 'w CircuitBreakerState" where
  "set_rate_limit st wn timestamp = st\<lparr>rate_limiter := (rate_limiter st)(wn \<mapsto> timestamp)\<rparr>"

definition remove_rate_limit :: "'w CircuitBreakerState \<Rightarrow> WorkflowName \<Rightarrow> 'w CircuitBreakerState" where
  "remove_rate_limit st wn = st\<lparr>rate_limiter := (rate_limiter st)(wn := None)\<rparr>"

definition get_failure_count :: "'w CircuitBreakerState \<Rightarrow> WorkflowName \<Rightarrow> nat" where
  "get_failure_count st wn = (case failure_tracker st wn of Some w \<Rightarrow> length w | None \<Rightarrow> 0)"

section \<open>The operations\<close>

definition evaluate_registration ::
  "RegistrationRequest \<Rightarrow> CircuitBreakerConfig \<Rightarrow> 'w CircuitBreakerState \<Rightarrow> instant
   \<Rightarrow> (CircuitBreakerError + RegistrationOutcome) \<times> 'w CircuitBreakerState" where
  "evaluate_registration request config st now =
     (let wn = rr_workflow_name request in
      case rr_force request of
        Some token \<Rightarrow>
          (if operator_tokens st token = None then (Inr ForceUnauthorized, st)
           else (Inr Allowed, set_rate_limit st wn (update_rate_limit now)))
      | None \<Rightarrow>
          (case get_status st wn of
             Quarantined \<Rightarrow> (Inr (OutcomeQuarantined wn), st)
           | Deactivated \<Rightarrow> (Inr (OutcomeDeactivated wn), st)
           | Deleted \<Rightarrow> (Inr (OutcomeDeactivated wn), st)
           | Active \<Rightarrow>
               (case rate_limiter st wn of
                  Some prev \<Rightarrow>
                    (case check_rate_limit (Some prev) (rate_limit_window config) now of
                       Some retry_after_secs \<Rightarrow> (Inr (RateLimited retry_after_secs), st)
                     | None \<Rightarrow> (Inr Allowed, set_rate_limit st wn (update_rate_limit now)))
                | None \<Rightarrow> (Inr Allowed, set_rate_limit st wn (update_rate_limit now)))))"

definition record_failure ::
  "WorkflowName \<Rightarrow> string \<Rightarrow> CircuitBreakerConfig \<Rightarrow> 'w CircuitBreakerState \<times> 'w \<Rightarrow> instant
   \<Rightarrow> (CircuitBreakerError + QuarantineEvent option) \<times> 'w CircuitBreakerState \<times> 'w" where
  "record_failure wn hash config sw now =
     (case sw of (st, w) \<Rightarrow>
      if get_status st wn = Quarantined then (Inr None, st, w)
      else
        (let entry = (case failure_tracker st wn of Some e \<Rightarrow> e | None \<Rightarrow> []);
             (unique_count, entry1) = record_failure_in_window entry hash now (failure_window config);
             st1 = st\<lparr>failure_tracker := (failure_tracker st)(wn \<mapsto> entry1)\<rparr>
         in if unat (failure_threshold config) \<le> unique_count
            then (let st2 = set_status st1 wn Quarantined;
                      event = \<lparr>qe_workflow_name = wn\<rparr>
                  in (Inr (Some event), st2, notify_quarantine st2 event w))
            else (Inr None, st1, w)))"

definition unquarantine ::
  "WorkflowName \<Rightarrow> string \<Rightarrow> 'w CircuitBreakerState
   \<Rightarrow> (CircuitBreakerError + UnquarantineResult) \<times> 'w CircuitBreakerState" where
  "unquarantine wn operator st =
     (case statuses st wn of
        None \<Rightarrow> (Inl (CB_WorkflowNotFound wn), st)
      | Some current_status \<Rightarrow>
          (if current_status \<noteq> Quarantined then (Inl (CB_NotQuarantined wn current_status), st)
           else
             (let failures_cleared = get_failure_count st wn;
                  st1 = set_status st wn Active;
                  st2 = st1\<lparr>failure_tracker := (failure_tracker st1)(wn := None)\<rparr>;
                  st3 = remove_rate_limit st2 wn
              in (Inr \<lparr>ur_workflow_name = wn, ur_previous_status = Quarantined,
                        ur_new_status = Active, ur_failures_cleared = failures_cleared\<rparr>, st3))))"

section \<open>The token bucket limiter\<close>

text \<open>
  The operations on \<open>f64\<close> that the limiter uses; \<open>f_ceil_u64\<close> is \<open>ceil\<close> with the saturating
  cast, \<open>f_secs\<close> is \<open>Duration::as_secs_f64\<close>.
\<close>

record 'f f64_ops =
  f_of_u64 :: "u64 \<Rightarrow> 'f"
  f_add :: "'f \<Rightarrow> 'f \<Rightarrow> 'f"
  f_sub :: "'f \<Rightarrow> 'f \<Rightarrow> 'f"
  f_mul :: "'f \<Rightarrow> 'f \<Rightarrow> 'f"
  f_div :: "'f \<Rightarrow> 'f \<Rightarrow> 'f"
  f_min :: "'f \<Rightarrow> 'f \<Rightarrow> 'f"
  f_le :: "'f \<Rightarrow> 'f \<Rightarrow> bool"
  f_ceil_u64 :: "'f \<Rightarrow> u64"
  f_secs :: "nanos \<Rightarrow> 'f"

record 'f TokenBucketConfig =
  burst :: u64
  sustained_rate :: 'f
  cost_per_request :: u64

record 'f BucketState =
  tokens :: 'f
  last_update :: instant

definition BucketState_new :: "'f f64_ops \<Rightarrow> u64 \<Rightarrow> instant \<Rightarrow> 'f BucketState" where
  "BucketState_new F burst_size now = \<lparr>tokens = f_of_u64 F burst_size, last_update = now\<rparr>"

type_synonym 'f limiter_state = "string \<Rightarrow> 'f BucketState option"

definition replenish_tokens ::
  "'f f64_ops \<Rightarrow> 'f TokenBucketConfig \<Rightarrow> 'f BucketState \<Rightarrow> instant \<Rightarrow> 'f BucketState" where
  "replenish_tokens F config bucket now =
     (let elapsed = f_secs F (duration_since now (last_update bucket));
          tokens_to_add = f_mul F elapsed (sustained_rate config)
      in \<lparr>tokens = f_min F (f_add F (tokens bucket) tokens_to_add) (f_of_u64 F (burst config)),
          last_update = now\<rparr>)"

definition time_until_tokens :: "'f f64_ops \<Rightarrow> 'f TokenBucketConfig \<Rightarrow> 'f \<Rightarrow> u64" where
  "time_until_tokens F config needed =
     (if f_le F (sustained_rate config) (f_of_u64 F 0) then - 1
      else f_ceil_u64 F (f_div F needed (sustained_rate config)))"

definition check_and_consume ::
  "'f f64_ops \<Rightarrow> 'f TokenBucketConfig \<Rightarrow> 'f limiter_state \<Rightarrow> string \<Rightarrow> instant
   \<Rightarrow> (bool \<times> u64) \<times> 'f limiter_state" where
  "check_and_consume F config st key now =
     (let cost = f_of_u64 F (cost_per_request config) in
      case st key of
        Some bucket \<Rightarrow>
          (let b = replenish_tokens F config bucket now in
           if f_le F cost (tokens b)
           then ((True, 0), st(key \<mapsto> b\<lparr>tokens := f_sub F (tokens b) cost\<rparr>))
           else ((False, time_until_tokens F config (f_sub F cost (tokens b))), st(key \<mapsto> b)))
      | None \<Rightarrow>
          (let b = BucketState_new F (burst config) now in
           ((True, 0), st(key \<mapsto> b\<lparr>tokens := f_sub F (tokens b) cost\<rparr>))))"

definition peek_tokens ::
  "'f f64_ops \<Rightarrow> 'f TokenBucketConfig \<Rightarrow> 'f limiter_state \<Rightarrow> string \<Rightarrow> instant \<Rightarrow> 'f" where
  "peek_tokens F config st key now =
     (case st key of
        Some bucket \<Rightarrow> tokens (replenish_tokens F config bucket now)
      | None \<Rightarrow> f_of_u64 F (burst config))"

definition wait_time ::
  "'f f64_ops \<Rightarrow> 'f TokenBucketConfig \<Rightarrow> 'f limiter_state \<Rightarrow> string \<Rightarrow> instant \<Rightarrow> u64" where
  "wait_time F config st key now =
     (let available = peek_tokens F config st key now;
          cost = f_of_u64 F (cost_per_request config)
      in if f_le F cost available then 0
         else time_until_tokens F config (f_sub F cost available))"

definition bucket_reset :: "'f limiter_state \<Rightarrow> string \<Rightarrow> 'f limiter_state" where
  "bucket_reset st key = st(key := None)"

section \<open>Runs\<close>

text \<open>
  A run is a sequence of calls with their clock readings; the record of a call keeps its
  answer.
\<close>

datatype breaker_op =
    Op_Register RegistrationRequest
  | Op_Failure WorkflowName string
  | Op_Unquarantine WorkflowName string
  | Op_Status WorkflowName RegistrationStatus
  | Op_Token string

datatype breaker_event =
    Ev_Register instant RegistrationRequest "CircuitBreakerError + RegistrationOutcome"
  | Ev_Failure instant WorkflowName string "CircuitBreakerError + QuarantineEvent option"
  | Ev_Unquarantine WorkflowName "CircuitBreakerError + UnquarantineResult"
  | Ev_Status WorkflowName RegistrationStatus
  | Ev_Token string

fun breaker_step ::
  "CircuitBreakerConfig \<Rightarrow> 'w CircuitBreakerState \<times> 'w \<Rightarrow> instant \<times> breaker_op
   \<Rightarrow> breaker_event \<times> 'w CircuitBreakerState \<times> 'w" where
  "breaker_step config (st, w) (now, Op_Register request) =
     (case evaluate_registration request config st now of
        (r, st1) \<Rightarrow> (Ev_Register now request r, st1, w))"
| "breaker_step config (st, w) (now, Op_Failure wn hash) =
     (case record_failure wn hash config (st, w) now of
        (r, sw1) \<Rightarrow> (Ev_Failure now wn hash r, sw1))"
| "breaker_step config (st, w) (now, Op_Unquarantine wn operator) =
     (case unquarantine wn operator st of (r, st1) \<Rightarrow> (Ev_Unquarantine wn r, st1, w))"
| "breaker_step config (st, w) (now, Op_Status wn status) =
     (Ev_Status wn status, set_status st wn status, w)"
| "breaker_step config (st, w) (now, Op_Token token) =
     (Ev_Token token, register_operator_token st token, w)"

definition breaker_run ::
  "CircuitBreakerConfig \<Rightarrow> 'w CircuitBreakerState \<times> 'w \<Rightarrow> (instant \<times> breaker_op) list
   \<Rightarrow> breaker_event list \<times> 'w CircuitBreakerState \<times> 'w" where
  "breaker_run config = run_trace (breaker_step config)"

text \<open>
  What the answers of a run say about a workflow: its status, and its failures outside
  quarantine since it was last released, newest first.
\<close>

fun track ::
  "WorkflowName \<Rightarrow> RegistrationStatus \<times> (string \<times> instant) list \<Rightarrow> breaker_event
   \<Rightarrow> RegistrationStatus \<times> (string \<times> instant) list" where
  "track wn (s, fl) (Ev_Failure now wn' hash r) =
     (if wn' = wn \<and> s \<noteq> Quarantined
      then (if r = Inr None then s else Quarantined, (hash, now) # fl) else (s, fl))"
| "track wn (s, fl) (Ev_Unquarantine wn' r) =
     (if wn' = wn \<and> is_ok r then (Active, []) else (s, fl))"
| "track wn (s, fl) (Ev_Status wn' s') = (if wn' = wn then (s', fl) else (s, fl))"
| "track wn (s, fl) (Ev_Register now request r) = (s, fl)"
| "track wn (s, fl) (Ev_Token token) = (s, fl)"

definition status_after :: "WorkflowName \<Rightarrow> breaker_event list \<Rightarrow> RegistrationStatus" where
  "status_after wn evs = fst (foldl (track wn) (Active, []) evs)"

definition failure_log :: "WorkflowName \<Rightarrow> breaker_event list \<Rightarrow> (string \<times> instant) list" where
  "failure_log wn evs = snd (foldl (track wn) (Active, []) evs)"

definition recent_hashes :: "nanos \<Rightarrow> instant \<Rightarrow> (string \<times> instant) list \<Rightarrow> string set" where
  "recent_hashes window now fl = fst ` {x \<in> set fl. now - snd x \<le> window}"

section \<open>The window under recorded failures\<close>

definition window_pairs :: "FailureWindow \<Rightarrow> (string \<times> instant) set" where
  "window_pairs w = (\<lambda>r. (fr_hash r, fr_failed_at r)) ` set w"

definition window_ok :: "FailureWindow \<Rightarrow> bool" where
  "window_ok w \<longleftrightarrow> sorted (map fr_failed_at w) \<and> distinct (map fr_hash w)"

lemma window_pairs_simps [simp]:
  "window_pairs [] = {}"
  "window_pairs (r # w) = insert (fr_hash r, fr_failed_at r) (window_pairs w)"
  "window_pairs (v @ w) = window_pairs v \<union> window_pairs w"
  by (auto simp: window_pairs_def)

lemma window_pairs_sort_key [simp]: "window_pairs (sort_key f w) = window_pairs w"
  by (simp add: window_pairs_def)

lemma window_pairs_hashes: "fst ` window_pairs w = fr_hash ` set w"
  by (simp add: window_pairs_def image_image)

lemma window_card: "window_ok w \<Longrightarrow> card (fst ` window_pairs w) = length w"
  by (simp add: window_pairs_hashes window_ok_def distinct_card flip: set_map)

lemma window_pairs_retain:
  "window_pairs (retain_recent now d w) = {x \<in> window_pairs w. now - snd x \<le> d}"
  by (auto simp: window_pairs_def retain_recent_def duration_since_def)

lemma window_ok_retain: "window_ok w \<Longrightarrow> window_ok (retain_recent now d w)"
  by (simp add: window_ok_def retain_recent_def sorted_filter distinct_map_filter)

lemma update_existing_None: "update_existing h t rs = None \<longleftrightarrow> h \<notin> fr_hash ` set rs"
  by (induction rs) auto

lemma update_existing_hashes:
  "update_existing h t rs = Some rs' \<Longrightarrow> map fr_hash rs' = map fr_hash rs"
  by (induction rs arbitrary: rs') (auto split: if_splits)

lemma update_existing_pairs:
  "update_existing h t rs = Some rs' \<Longrightarrow> distinct (map fr_hash rs)
   \<Longrightarrow> window_pairs rs' = insert (h, t) {x \<in> window_pairs rs. fst x \<noteq> h}"
proof (induction rs arbitrary: rs')
  case (Cons r rs)
  show ?case
  proof (cases "fr_hash r = h")
    case True
    then have "h \<notin> fst ` window_pairs rs" using Cons.prems(2) by (auto simp: window_pairs_hashes)
    then have "{x \<in> window_pairs rs. fst x \<noteq> h} = window_pairs rs" by force
    moreover have "{x \<in> window_pairs (r # rs). fst x \<noteq> h} = {x \<in> window_pairs rs. fst x \<noteq> h}"
      using True by auto
    moreover have "rs' = r\<lparr>fr_failed_at := t\<rparr> # rs" using Cons.prems(1) True by simp
    ultimately show ?thesis using True by simp
  next
    case False
    then obtain rs2 where u: "update_existing h t rs = Some rs2" "rs' = r # rs2"
      using Cons.prems(1) by auto
    have "window_pairs rs2 = insert (h, t) {x \<in> window_pairs rs. fst x \<noteq> h}"
      by (rule Cons.IH [OF u(1)]) (use Cons.prems(2) in simp)
    moreover have "{x \<in> window_pairs (r # rs). fst x \<noteq> h}
                   = insert (fr_hash r, fr_failed_at r) {x \<in> window_pairs rs. fst x \<noteq> h}"
      using False by auto
    ultimately show ?thesis using u(2) by (simp add: insert_commute)
  qed
qed simp

lemma sorted_insert_between:
  "sorted (map f (xs @ ys)) \<Longrightarrow> \<forall>r \<in> set xs. f r \<le> f x \<Longrightarrow> \<forall>r \<in> set ys. f x \<le> f r
   \<Longrightarrow> sorted (map f (xs @ [x] @ ys))"
  by (auto simp: sorted_append)

lemma sorted_insert_at:
  assumes "sorted (map f xs)"
  shows "sorted (map f (takeWhile (\<lambda>r. f r \<le> f x) xs @ [x] @ dropWhile (\<lambda>r. f r \<le> f x) xs))"
proof -
  let ?p = "\<lambda>r. f r \<le> f x"
  have s: "sorted (map f (takeWhile ?p xs @ dropWhile ?p xs))" using assms by simp
  have le: "f r \<le> f x" if "r \<in> set (takeWhile ?p xs)" for r using that by (auto dest: set_takeWhileD)
  have ge: "f x \<le> f r" if "r \<in> set (dropWhile ?p xs)" for r
  proof (cases "dropWhile ?p xs")
    case (Cons y ys)
    then have "\<not> f y \<le> f x" using hd_dropWhile [of ?p xs] by auto
    moreover have "f y \<le> f r" using s that Cons by (auto simp: sorted_append)
    ultimately show ?thesis by simp
  next
    case Nil
    then have "set (dropWhile ?p xs) = {}" by simp
    then show ?thesis using that by (simp only: empty_iff)
  qed
  show ?thesis by (rule sorted_insert_between [OF s]) (use le ge in blast)+
qed

text \<open>Recording a failure keeps exactly one record per build within the window.\<close>

lemma record_window_ok:
  assumes "window_ok w" and "record_failure_in_window w h now d = (n, w')"
  shows "window_ok w'" and "n = length w'"
    and "window_pairs w' = insert (h, now) {x \<in> window_pairs w. fst x \<noteq> h \<and> now - snd x \<le> d}"
proof -
  let ?k = "retain_recent now d w"
  have k: "window_ok ?k" by (rule window_ok_retain [OF assms(1)])
  have kp: "window_pairs ?k = {x \<in> window_pairs w. now - snd x \<le> d}" by (rule window_pairs_retain)
  have "window_ok w' \<and> n = length w'
        \<and> window_pairs w' = insert (h, now) {x \<in> window_pairs ?k. fst x \<noteq> h}"
  proof (cases "update_existing h now ?k")
    case None
    then have hn: "h \<notin> fst ` window_pairs ?k" by (simp add: update_existing_None window_pairs_hashes)
    let ?x = "\<lparr>fr_hash = h, fr_failed_at = now\<rparr>"
    let ?p = "\<lambda>r. fr_failed_at r \<le> fr_failed_at ?x"
    obtain as bs where ab: "?k = as @ bs" "takeWhile ?p ?k = as" "dropWhile ?p ?k = bs"
      using takeWhile_dropWhile_id [of ?p ?k] by metis
    have w': "w' = as @ [?x] @ bs" and n: "n = length w'"
      using assms(2) None unfolding ab(2) [symmetric] ab(3) [symmetric]
      by (auto simp: record_failure_in_window_def Let_def partition_point_def
          simp flip: takeWhile_eq_take dropWhile_eq_drop)
    have "sorted (map fr_failed_at w')"
      using k sorted_insert_at [of fr_failed_at ?k ?x] unfolding ab(2,3) w' by (simp add: window_ok_def)
    moreover have "window_pairs w' = insert (h, now) (window_pairs ?k)"
      unfolding w' ab(1) by simp
    moreover have "distinct (map fr_hash w')"
      using k hn unfolding w' ab(1) by (auto simp: window_ok_def window_pairs_hashes image_Un)
    moreover have "{x \<in> window_pairs ?k. fst x \<noteq> h} = window_pairs ?k" using hn by force
    ultimately show ?thesis using n by (simp add: window_ok_def)
  next
    case (Some u)
    then have w': "w' = sort_key fr_failed_at u" and n: "n = length w'"
      using assms(2) by (auto simp: record_failure_in_window_def Let_def)
    have hu: "map fr_hash u = map fr_hash ?k" by (rule update_existing_hashes [OF Some])
    have "distinct (map fr_hash u)" using k by (simp add: hu window_ok_def)
    then have "distinct (map fr_hash w')" by (simp add: w' distinct_map)
    then show ?thesis
      using n update_existing_pairs [OF Some] k by (simp add: window_ok_def w')
  qed
  then show "window_ok w'" "n = length w'"
    "window_pairs w' = insert (h, now) {x \<in> window_pairs w. fst x \<noteq> h \<and> now - snd x \<le> d}"
    by (auto simp: kp)
qed

section \<open>The window and the history of failures\<close>

definition newest_first :: "(string \<times> instant) list \<Rightarrow> bool" where
  "newest_first fl \<longleftrightarrow> sorted_wrt (\<lambda>x y. snd y \<le> snd x) fl"

text \<open>The window holds the latest failure of each build as of the last one recorded.\<close>

definition window_matches :: "nanos \<Rightarrow> FailureWindow \<Rightarrow> (string \<times> instant) list \<Rightarrow> bool" where
  "window_matches d w fl \<longleftrightarrow>
     window_ok w \<and> newest_first fl
     \<and> window_pairs w = {(h, t). map_of fl h = Some t \<and> snd (hd fl) - t \<le> d}"

lemma window_matches_Nil [simp]: "window_matches d [] []"
  by (simp add: window_matches_def window_ok_def newest_first_def)

lemma map_of_newest:
  "newest_first fl \<Longrightarrow> (h, t) \<in> set fl \<Longrightarrow> \<exists>t'. map_of fl h = Some t' \<and> t \<le> t'"
  by (induction fl) (auto simp: newest_first_def)

lemma recent_hashes_newest:
  assumes "newest_first fl"
  shows "recent_hashes d now fl = {h. \<exists>t. map_of fl h = Some t \<and> now - t \<le> d}"
proof (intro set_eqI iffI)
  fix h assume "h \<in> recent_hashes d now fl"
  then obtain t where t: "(h, t) \<in> set fl" "now - t \<le> d" by (auto simp: recent_hashes_def)
  obtain t' where "map_of fl h = Some t'" "t \<le> t'" using map_of_newest [OF assms t(1)] by blast
  then show "h \<in> {h. \<exists>t. map_of fl h = Some t \<and> now - t \<le> d}" using t(2) by auto
next
  fix h assume "h \<in> {h. \<exists>t. map_of fl h = Some t \<and> now - t \<le> d}"
  then obtain t where t: "map_of fl h = Some t" "now - t \<le> d" by blast
  show "h \<in> recent_hashes d now fl"
    unfolding recent_hashes_def by (rule image_eqI [of _ _ "(h, t)"]) (use t map_of_SomeD in auto)
qed

lemma fst_image_Collect: "fst ` {(x, y). P x y} = {x. \<exists>y. P x y}"
  by force

lemma record_window_matches:
  assumes m: "window_matches d w fl" and now: "\<forall>x \<in> set fl. snd x \<le> now"
    and r: "record_failure_in_window w h now d = (n, w')"
  shows "window_matches d w' ((h, now) # fl)"
    and "n = card (recent_hashes d now ((h, now) # fl))"
proof -
  let ?fl = "(h, now) # fl"
  have w: "window_ok w" "newest_first fl"
    and p: "window_pairs w = {(h, t). map_of fl h = Some t \<and> snd (hd fl) - t \<le> d}"
    using m by (simp_all add: window_matches_def)
  have nf: "newest_first ?fl" using w(2) now by (simp add: newest_first_def)
  have closer: "snd (hd fl) - t \<le> d" if "map_of fl h' = Some t" "now - t \<le> d" for h' t
  proof -
    have "fl \<noteq> []" using that(1) by auto
    then have "snd (hd fl) \<le> now" using now by simp
    then show ?thesis using that(2) by linarith
  qed
  have "window_pairs w' = insert (h, now) {x \<in> window_pairs w. fst x \<noteq> h \<and> now - snd x \<le> d}"
    by (rule record_window_ok(3) [OF w(1) r])
  also have "\<dots> = {(h', t). map_of ?fl h' = Some t \<and> snd (hd ?fl) - t \<le> d}"
    using closer by (auto simp: p split: if_splits)
  finally have p': "window_pairs w' = {(h', t). map_of ?fl h' = Some t \<and> snd (hd ?fl) - t \<le> d}" .
  have ok: "window_ok w'" by (rule record_window_ok(1) [OF w(1) r])
  show "window_matches d w' ?fl" using ok nf p' by (simp add: window_matches_def)
  have "n = card (fst ` window_pairs w')"
    using record_window_ok(2) [OF w(1) r] window_card [OF ok] by simp
  also have "fst ` window_pairs w' = recent_hashes d now ?fl"
    unfolding p' recent_hashes_newest [OF nf] fst_image_Collect by simp
  finally show "n = card (recent_hashes d now ?fl)" .
qed

section \<open>The state and the history of failures\<close>

definition window_of :: "'w CircuitBreakerState \<Rightarrow> WorkflowName \<Rightarrow> FailureWindow" where
  "window_of st wn = (case failure_tracker st wn of Some w \<Rightarrow> w | None \<Rightarrow> [])"

type_synonym breaker_view = "WorkflowName \<Rightarrow> RegistrationStatus \<times> (string \<times> instant) list"

definition breaker_inv ::
  "CircuitBreakerConfig \<Rightarrow> instant \<Rightarrow> breaker_view \<Rightarrow> 'w CircuitBreakerState \<Rightarrow> bool" where
  "breaker_inv config now view st \<longleftrightarrow>
     (\<forall>wn. window_matches (failure_window config) (window_of st wn) (snd (view wn))
        \<and> (\<forall>x \<in> set (snd (view wn)). snd x \<le> now) \<and> get_status st wn = fst (view wn))"

definition failure_answer ::
  "CircuitBreakerConfig \<Rightarrow> instant \<Rightarrow> WorkflowName \<Rightarrow> string
   \<Rightarrow> RegistrationStatus \<times> (string \<times> instant) list \<Rightarrow> QuarantineEvent option" where
  "failure_answer config now wn hash v =
     (if fst v \<noteq> Quarantined
         \<and> unat (failure_threshold config)
             \<le> card (recent_hashes (failure_window config) now ((hash, now) # snd v))
      then Some \<lparr>qe_workflow_name = wn\<rparr> else None)"

fun answer_ok :: "CircuitBreakerConfig \<Rightarrow> breaker_view \<Rightarrow> breaker_event \<Rightarrow> bool" where
  "answer_ok config view (Ev_Failure now wn hash r) \<longleftrightarrow>
     r = Inr (failure_answer config now wn hash (view wn))"
| "answer_ok config view (Ev_Register now request r) \<longleftrightarrow>
     (rr_force request = None \<and> fst (view (rr_workflow_name request)) = Quarantined
      \<longrightarrow> r = Inr (OutcomeQuarantined (rr_workflow_name request)))"
| "answer_ok config view _ \<longleftrightarrow> True"

lemmas breaker_state_defs = get_status_def set_status_def set_rate_limit_def remove_rate_limit_def
  register_operator_token_def window_of_def

lemma evaluate_registration_frame:
  assumes "evaluate_registration request config st now = (r, st')"
  shows "statuses st' = statuses st" and "failure_tracker st' = failure_tracker st"
    and "\<And>wn. wn \<noteq> rr_workflow_name request \<Longrightarrow> rate_limiter st' wn = rate_limiter st wn"
    and "quarantine_callback st' = quarantine_callback st"
  using assms
  by (auto simp: evaluate_registration_def Let_def set_rate_limit_def
      split: option.splits if_splits RegistrationStatus.splits)

lemma breaker_inv_mono: "breaker_inv config now0 view st \<Longrightarrow> now0 \<le> now \<Longrightarrow> breaker_inv config now view st"
  by (force simp: breaker_inv_def)

lemma breaker_inv_cong:
  "breaker_inv config now view st \<Longrightarrow> statuses st' = statuses st
   \<Longrightarrow> failure_tracker st' = failure_tracker st \<Longrightarrow> breaker_inv config now view st'"
  by (simp add: breaker_inv_def window_of_def get_status_def)

lemma breaker_inv_upd:
  assumes "breaker_inv config now view st"
    and "\<And>v. v \<noteq> wn \<Longrightarrow> window_of st' v = window_of st v \<and> get_status st' v = get_status st v
              \<and> view' v = view v"
    and "window_matches (failure_window config) (window_of st' wn) (snd (view' wn))"
    and "\<forall>x \<in> set (snd (view' wn)). snd x \<le> now" and "get_status st' wn = fst (view' wn)"
  shows "breaker_inv config now view' st'"
  unfolding breaker_inv_def
proof
  fix v show "window_matches (failure_window config) (window_of st' v) (snd (view' v))
        \<and> (\<forall>x \<in> set (snd (view' v)). snd x \<le> now) \<and> get_status st' v = fst (view' v)"
    using assms by (cases "v = wn") (auto simp: breaker_inv_def)
qed

lemma breaker_invD:
  assumes "breaker_inv config now view st" and "view wn = (s, fl)"
  shows "get_status st wn = s" and "window_matches (failure_window config) (window_of st wn) fl"
    and "\<forall>x \<in> set fl. snd x \<le> now"
  using spec [OF assms(1) [unfolded breaker_inv_def], of wn] assms(2) by simp_all

lemma record_failure_inv:
  assumes inv: "breaker_inv config now view st"
    and r: "record_failure wn hash config (st, w) now = (r, st', w')"
  shows "breaker_inv config now (\<lambda>v. track v (view v) (Ev_Failure now wn hash r)) st'"
    and "r = Inr (failure_answer config now wn hash (view wn))"
proof -
  obtain s fl where v: "view wn = (s, fl)" by force
  have gs: "get_status st wn = s" and m: "window_matches (failure_window config) (window_of st wn) fl"
    and le: "\<forall>x \<in> set fl. snd x \<le> now" using breaker_invD [OF inv v] by blast+
  have tr: "track v (view v) (Ev_Failure now wn hash r) = view v" if "v \<noteq> wn" for v
    using that by (cases "view v") simp
  have "breaker_inv config now (\<lambda>v. track v (view v) (Ev_Failure now wn hash r)) st'
        \<and> r = Inr (failure_answer config now wn hash (view wn))"
  proof (cases "s = Quarantined")
    case True
    then have "st' = st" "r = Inr None" using r gs by (simp_all add: record_failure_def)
    moreover have "track v (view v) (Ev_Failure now wn hash r) = view v" for v
      using tr [of v] v True by (cases "v = wn") auto
    ultimately show ?thesis using inv v True by (simp add: failure_answer_def)
  next
    case False
    obtain n e where ne: "record_failure_in_window (window_of st wn) hash now (failure_window config) = (n, e)"
      by force
    note w = record_window_matches [OF m le ne]
    let ?q = "unat (failure_threshold config) \<le> n"
    have rr: "r = Inr (if ?q then Some \<lparr>qe_workflow_name = wn\<rparr> else None)"
      and st': "failure_tracker st' = (failure_tracker st)(wn \<mapsto> e)"
        "statuses st' = (if ?q then (statuses st)(wn \<mapsto> Quarantined) else statuses st)"
      using r ne False gs
      by (auto simp: record_failure_def Let_def window_of_def set_status_def split: if_splits)
    have "breaker_inv config now (\<lambda>v. track v (view v) (Ev_Failure now wn hash r)) st'"
    proof (rule breaker_inv_upd [OF inv, of wn])
      show "window_of st' u = window_of st u \<and> get_status st' u = get_status st u
            \<and> track u (view u) (Ev_Failure now wn hash r) = view u" if "u \<noteq> wn" for u
        using that tr [OF that] by (simp add: st' window_of_def get_status_def)
    qed (use w(1) le False gs in \<open>simp_all add: v rr st' window_of_def get_status_def split: if_splits\<close>)
    moreover have "r = Inr (failure_answer config now wn hash (view wn))"
      using False w(2) by (simp add: rr v failure_answer_def)
    ultimately show ?thesis by blast
  qed
  then show "breaker_inv config now (\<lambda>v. track v (view v) (Ev_Failure now wn hash r)) st'"
    "r = Inr (failure_answer config now wn hash (view wn))" by blast+
qed

lemma unquarantine_success:
  "(\<exists>u. fst (unquarantine wn operator st) = Inr u) \<longleftrightarrow> statuses st wn = Some Quarantined"
  by (auto simp: unquarantine_def Let_def split: option.splits)

lemma unquarantine_failure:
  "unquarantine wn operator st = (Inl e, st') \<Longrightarrow> st' = st"
  by (auto simp: unquarantine_def Let_def split: option.splits if_splits)

lemma unquarantine_state:
  assumes "unquarantine wn operator st = (Inr u, st')"
  shows "statuses st' = (statuses st)(wn \<mapsto> Active)" and "failure_tracker st' = (failure_tracker st)(wn := None)"
    and "rate_limiter st' = (rate_limiter st)(wn := None)" and "statuses st wn = Some Quarantined"
    and "ur_failures_cleared u = length (window_of st wn)"
  using assms
  by (auto simp: unquarantine_def Let_def breaker_state_defs get_failure_count_def
      split: option.splits if_splits)

lemma unquarantine_inv:
  assumes inv: "breaker_inv config now view st" and u: "unquarantine wn operator st = (r, st')"
  shows "breaker_inv config now (\<lambda>v. track v (view v) (Ev_Unquarantine wn r)) st'"
proof (cases r)
  case (Inl e)
  have "track v (view v) (Ev_Unquarantine wn r) = view v" for v by (cases "view v") (simp add: Inl)
  then show ?thesis using inv unquarantine_failure [OF u [unfolded Inl]] by simp
next
  case (Inr x)
  note st' = unquarantine_state [OF u [unfolded Inr]]
  show ?thesis
  proof (rule breaker_inv_upd [OF inv, of wn])
    show "window_of st' v = window_of st v \<and> get_status st' v = get_status st v
          \<and> track v (view v) (Ev_Unquarantine wn r) = view v" if "v \<noteq> wn" for v
      using that by (cases "view v") (simp add: st' window_of_def get_status_def)
  qed (cases "view wn"; simp add: st' Inr window_of_def get_status_def)+
qed

lemma breaker_step_inv:
  assumes inv: "breaker_inv config now view st"
    and step: "breaker_step config (st, w) (now, call) = (ev, st', w')"
  shows "breaker_inv config now (\<lambda>v. track v (view v) ev) st'" and "answer_ok config view ev"
proof -
  have "breaker_inv config now (\<lambda>v. track v (view v) ev) st' \<and> answer_ok config view ev"
  proof (cases call)
    case (Op_Register request)
    then obtain r where r: "evaluate_registration request config st now = (r, st')"
      and ev: "ev = Ev_Register now request r" using step by (auto split: prod.splits)
    have "track v (view v) ev = view v" for v by (cases "view v") (simp add: ev)
    then have "breaker_inv config now (\<lambda>v. track v (view v) ev) st'"
      using breaker_inv_cong [OF inv evaluate_registration_frame(1,2) [OF r]] by simp
    moreover have "answer_ok config view ev"
    proof -
      obtain s fl where v: "view (rr_workflow_name request) = (s, fl)" by force
      show ?thesis using r breaker_invD(1) [OF inv v]
        by (auto simp: ev v evaluate_registration_def Let_def)
    qed
    ultimately show ?thesis by blast
  next
    case (Op_Failure wn hash)
    then obtain r where r: "record_failure wn hash config (st, w) now = (r, st', w')"
      and ev: "ev = Ev_Failure now wn hash r" using step by (auto split: prod.splits)
    show ?thesis unfolding ev using record_failure_inv [OF inv r] by simp
  next
    case (Op_Unquarantine wn operator)
    then obtain r where r: "unquarantine wn operator st = (r, st')"
      and ev: "ev = Ev_Unquarantine wn r" using step by (auto split: prod.splits)
    show ?thesis unfolding ev using unquarantine_inv [OF inv r] by simp
  next
    case (Op_Status wn status)
    then have st': "st' = set_status st wn status" and ev: "ev = Ev_Status wn status" using step by auto
    have "breaker_inv config now (\<lambda>v. track v (view v) ev) st'"
    proof (rule breaker_inv_upd [OF inv, of wn])
      show "window_of st' v = window_of st v \<and> get_status st' v = get_status st v
            \<and> track v (view v) ev = view v" if "v \<noteq> wn" for v
        using that by (cases "view v") (simp add: st' ev breaker_state_defs)
      obtain s fl where v: "view wn = (s, fl)" by force
      note d = breaker_invD [OF inv v]
      show "window_matches (failure_window config) (window_of st' wn) (snd (track wn (view wn) ev))"
        using d(2) by (simp add: st' ev v breaker_state_defs)
      show "\<forall>x \<in> set (snd (track wn (view wn) ev)). snd x \<le> now" using d(3) by (simp add: ev v)
      show "get_status st' wn = fst (track wn (view wn) ev)" by (simp add: st' ev v breaker_state_defs)
    qed
    then show ?thesis by (simp add: ev)
  next
    case (Op_Token token)
    then have st': "st' = register_operator_token st token" and ev: "ev = Ev_Token token"
      using step by auto
    have "track v (view v) ev = view v" for v by (cases "view v") (simp add: ev)
    then show ?thesis using breaker_inv_cong [OF inv, of st'] by (simp add: st' ev breaker_state_defs)
  qed
  then show "breaker_inv config now (\<lambda>v. track v (view v) ev) st'" "answer_ok config view ev" by blast+
qed

lemma breaker_run_answers:
  assumes "breaker_run config (st, w) calls = (pre @ ev # post, sw)" and "breaker_inv config now view st"
    and "sorted (now # map fst calls)"
  shows "answer_ok config (\<lambda>v. foldl (track v) (view v) pre) ev"
  using assms
proof (induction pre arbitrary: st w calls now view)
  case Nil
  obtain t call calls1 where c: "calls = (t, call) # calls1"
    using Nil.prems(1) by (cases calls) (auto simp: breaker_run_def)
  obtain st1 w1 where s: "breaker_step config (st, w) (t, call) = (ev, st1, w1)"
    using Nil.prems(1) by (auto simp: c breaker_run_def split: prod.splits)
  have "breaker_inv config t view st"
    using breaker_inv_mono [OF Nil.prems(2), of t] Nil.prems(3) by (simp add: c)
  then have "answer_ok config view ev" by (rule breaker_step_inv(2)) (rule s)
  then show ?case by simp
next
  case (Cons e pre)
  obtain t call calls1 where c: "calls = (t, call) # calls1"
    using Cons.prems(1) by (cases calls) (auto simp: breaker_run_def)
  obtain st1 w1 where s: "breaker_step config (st, w) (t, call) = (e, st1, w1)"
    and r: "breaker_run config (st1, w1) calls1 = (pre @ ev # post, sw)"
    using Cons.prems(1) by (auto simp: c breaker_run_def split: prod.splits)
  have "breaker_inv config t view st"
    using breaker_inv_mono [OF Cons.prems(2), of t] Cons.prems(3) by (simp add: c)
  then have "breaker_inv config t (\<lambda>v. track v (view v) e) st1" by (rule breaker_step_inv(1)) (rule s)
  then have "answer_ok config (\<lambda>v. foldl (track v) (track v (view v) e) pre) ev"
    using Cons.IH [OF r] Cons.prems(3) by (simp add: c)
  then show ?case by simp
qed

lemma breaker_inv_new:
  "breaker_inv config 0 (\<lambda>v. (Active, [])) (CircuitBreakerState_new\<lparr>quarantine_callback := cb\<rparr>)"
  by (simp add: breaker_inv_def CircuitBreakerState_new_def window_of_def get_status_def)

section \<open>The stamp of the last registration\<close>

definition stamped :: "instant \<Rightarrow> WorkflowName \<Rightarrow> 'w CircuitBreakerState \<Rightarrow> bool" where
  "stamped t wn st \<longleftrightarrow> (\<exists>t'. rate_limiter st wn = Some t' \<and> t \<le> t')"

lemma evaluate_registration_stamp:
  assumes "evaluate_registration request config st now = (r, st')"
  shows "rate_limiter st' =
           (if r = Inr Allowed then (rate_limiter st)(rr_workflow_name request \<mapsto> now)
            else rate_limiter st)"
  using assms
  by (auto simp: evaluate_registration_def Let_def set_rate_limit_def update_rate_limit_def
      split: option.splits if_splits RegistrationStatus.splits)

lemma allowed_stamped_wait:
  assumes "evaluate_registration request config st now = (Inr Allowed, st')"
    and "rr_force request = None" and "stamped t (rr_workflow_name request) st"
  shows "rate_limit_window config \<le> now - t"
  using assms
  by (auto simp: evaluate_registration_def Let_def stamped_def check_rate_limit_def duration_since_def
      split: option.splits if_splits RegistrationStatus.splits)

lemma breaker_step_stamped:
  assumes "breaker_step config (st, w) (now, call) = (ev, st', w')" and "stamped t wn st"
    and "t \<le> now" and "\<And>u. ev \<noteq> Ev_Unquarantine wn (Inr u)"
  shows "stamped t wn st'"
proof (cases call)
  case (Op_Register request)
  then obtain r where "evaluate_registration request config st now = (r, st')"
    using assms(1) by (auto split: prod.splits)
  from evaluate_registration_stamp [OF this] show ?thesis
    using assms(2,3) by (auto simp: stamped_def)
next
  case (Op_Failure v hash)
  then have "rate_limiter st' = rate_limiter st"
    using assms(1)
    by (auto simp: record_failure_def Let_def set_status_def split: prod.splits if_splits)
  then show ?thesis using assms(2) by (simp add: stamped_def)
next
  case (Op_Unquarantine v operator)
  then obtain r where r: "unquarantine v operator st = (r, st')" and ev: "ev = Ev_Unquarantine v r"
    using assms(1) by (auto split: prod.splits)
  show ?thesis
  proof (cases r)
    case (Inl e)
    then show ?thesis using unquarantine_failure [OF r [unfolded Inl]] assms(2) by simp
  next
    case (Inr u)
    then have "v \<noteq> wn" using assms(4) ev by auto
    then show ?thesis using unquarantine_state(3) [OF r [unfolded Inr]] assms(2) by (simp add: stamped_def)
  qed
qed (use assms(1,2) in \<open>auto simp: stamped_def breaker_state_defs\<close>)

lemma breaker_run_stamped:
  assumes "run_trace (breaker_step config) (st, w) calls = (evs, st', w')" and "stamped t wn st"
    and "\<forall>c \<in> set calls. t \<le> fst c" and "\<forall>u. Ev_Unquarantine wn (Inr u) \<notin> set evs"
  shows "stamped t wn st'"
  using assms
proof (induction calls arbitrary: st w evs)
  case (Cons c calls)
  obtain now call where c: "c = (now, call)" by force
  obtain ev st1 w1 evs1 where s: "breaker_step config (st, w) (now, call) = (ev, st1, w1)"
    "run_trace (breaker_step config) (st1, w1) calls = (evs1, st', w')" "evs = ev # evs1"
    using Cons.prems(1) by (auto simp: c split: prod.splits)
  have "stamped t wn st1"
    by (rule breaker_step_stamped [OF s(1) Cons.prems(2)]) (use Cons.prems(3,4) c s(3) in auto)
  then show ?case using Cons.IH [OF s(2)] Cons.prems(3,4) s(3) by simp
qed simp

section \<open>Properties\<close>

text \<open>
  (C29) In every run at non-decreasing times a reported failure quarantines its workflow
  exactly when the workflow is not in quarantine and at least \<open>failure_threshold\<close> distinct
  builds failed within the last \<open>failure_window\<close> since the last release, this failure
  included; the bounded, sorted window with its evictions decides as the full history
  would.  While a workflow is in quarantine every registration without a token is refused.
\<close>

theorem quarantine_exact:
  assumes "breaker_run config (CircuitBreakerState_new\<lparr>quarantine_callback := cb\<rparr>, w) calls
             = (pre @ ev # post, sw)"
    and "sorted (map fst calls)"
  shows "(\<forall>now wn hash r. ev = Ev_Failure now wn hash r \<longrightarrow>
            r = Inr (if status_after wn pre \<noteq> Quarantined
                        \<and> unat (failure_threshold config)
                            \<le> card (recent_hashes (failure_window config) now
                                      ((hash, now) # failure_log wn pre))
                     then Some \<lparr>qe_workflow_name = wn\<rparr> else None))
         \<and> (\<forall>now request r. ev = Ev_Register now request r \<and> rr_force request = None
              \<and> status_after (rr_workflow_name request) pre = Quarantined \<longrightarrow>
            r = Inr (OutcomeQuarantined (rr_workflow_name request)))"
proof -
  have "answer_ok config (\<lambda>v. foldl (track v) (Active, []) pre) ev"
    using breaker_run_answers [OF assms(1) breaker_inv_new] assms(2) by simp
  then show ?thesis by (auto simp: failure_answer_def status_after_def failure_log_def)
qed

theorem quarantine_exact_witness:
  "fst (breaker_run \<lparr>rate_limit_window = 60, failure_window = 10, failure_threshold = 2\<rparr>
      (CircuitBreakerState_new\<lparr>quarantine_callback := Some (\<lambda>q n. Suc n)\<rparr>, 0)
      [(0, Op_Failure ''w'' ''a''), (5, Op_Failure ''w'' ''a''), (12, Op_Failure ''w'' ''b'')])
    = [Ev_Failure 0 ''w'' ''a'' (Inr None), Ev_Failure 5 ''w'' ''a'' (Inr None)]
      @ Ev_Failure 12 ''w'' ''b'' (Inr (Some \<lparr>qe_workflow_name = ''w''\<rparr>)) # []
   \<and> (2 \<le> card (recent_hashes 10 12 [(''b'', 12), (''a'', 5), (''a'', 0)]))"
proof -
  let ?c = "\<lparr>rate_limit_window = 60, failure_window = 10, failure_threshold = 2\<rparr>"
  let ?st = "(CircuitBreakerState_new\<lparr>quarantine_callback := Some (\<lambda>q n. Suc n)\<rparr>, 0)"
  let ?ops = "[(0, Op_Failure ''w'' ''a''), (5, Op_Failure ''w'' ''a''), (12, Op_Failure ''w'' ''b'')] :: (instant \<times> breaker_op) list"
  let ?pre = "[Ev_Failure 0 ''w'' ''a'' (Inr None), Ev_Failure 5 ''w'' ''a'' (Inr None)]"
  let ?ev = "Ev_Failure 12 ''w'' ''b'' (Inr (Some \<lparr>qe_workflow_name = ''w''\<rparr>))"
  obtain sw where run: "breaker_run ?c ?st ?ops = (?pre @ ?ev # [], sw)"
    by (simp add: breaker_run_def record_failure_def record_failure_in_window_def retain_recent_def
        duration_since_def partition_point_def Let_def CircuitBreakerState_new_def get_status_def
        set_status_def)
  have "sorted (map fst ?ops)" by simp
  note t = quarantine_exact [OF run this]
  have f: "failure_log ''w'' ?pre = [(''a'', 5), (''a'', 0)]" "status_after ''w'' ?pre = Active"
    by (simp_all add: failure_log_def status_after_def)
  have "Some \<lparr>qe_workflow_name = ''w''\<rparr> = (if (2::nat) \<le> card (recent_hashes 10 12 [(''b'', 12), (''a'', 5), (''a'', 0)])
          then Some \<lparr>qe_workflow_name = ''w''\<rparr> else None)"
    using conjunct1 [OF t, rule_format, OF refl] unfolding f by simp
  then have "2 \<le> card (recent_hashes 10 12 [(''b'', 12), (''a'', 5), (''a'', 0)])"
    by (simp split: if_splits)
  then show ?thesis using run by simp
qed

text \<open>
  (C30) In every run at non-decreasing times, between an allowed registration of a workflow,
  forced or not, and a later allowed one without a token at least
  \<open>rate_limit_window\<close> passes, unless the workflow was released from quarantine in between.
\<close>

theorem registrations_spaced:
  assumes "breaker_run config (st, w) calls
             = (pre @ Ev_Register t1 r1 (Inr Allowed) # mid @ Ev_Register t2 r2 (Inr Allowed) # post, sw)"
    and "sorted (map fst calls)" and "rr_workflow_name r1 = wn" and "rr_workflow_name r2 = wn"
    and "rr_force r2 = None" and "\<forall>u. Ev_Unquarantine wn (Inr u) \<notin> set mid"
  shows "rate_limit_window config \<le> t2 - t1"
proof -
  let ?run = "run_trace (breaker_step config)"
  obtain c1 c2 st1 w1 where a: "calls = c1 @ c2"
    "?run (st1, w1) c2 = (Ev_Register t1 r1 (Inr Allowed) # mid @ Ev_Register t2 r2 (Inr Allowed) # post, sw)"
    using run_trace_split [OF assms(1) [unfolded breaker_run_def]] by (metis prod.exhaust)
  obtain c c3 where c2: "c2 = c # c3" using a(2) by (cases c2) auto
  obtain n1 op1 where c: "c = (n1, op1)" by force
  obtain st2 w2 where s1: "breaker_step config (st1, w1) (n1, op1) = (Ev_Register t1 r1 (Inr Allowed), st2, w2)"
    and b: "?run (st2, w2) c3 = (mid @ Ev_Register t2 r2 (Inr Allowed) # post, sw)"
    using a(2) by (auto simp: c2 c split: prod.splits)
  obtain c4 c5 st3 w3 where d: "c3 = c4 @ c5" "?run (st2, w2) c4 = (mid, st3, w3)"
    "?run (st3, w3) c5 = (Ev_Register t2 r2 (Inr Allowed) # post, sw)"
    using run_trace_split [OF b] by (metis prod.exhaust)
  obtain n2 op2 st4 w4 where s2:
    "breaker_step config (st3, w3) (n2, op2) = (Ev_Register t2 r2 (Inr Allowed), st4, w4)"
    using d(3) by (cases c5) (auto split: prod.splits)
  have e1: "n1 = t1" "evaluate_registration r1 config st1 t1 = (Inr Allowed, st2)"
    using s1 by (cases op1; auto split: prod.splits)+
  have e2: "evaluate_registration r2 config st3 t2 = (Inr Allowed, st4)"
    using s2 by (cases op2; auto split: prod.splits)
  have "stamped t1 wn st2"
    using evaluate_registration_stamp [OF e1(2)] assms(3) by (auto simp: stamped_def)
  moreover have "\<forall>x \<in> set c4. t1 \<le> fst x"
    using assms(2) by (auto simp: a(1) c2 c d(1) e1(1) sorted_append)
  ultimately have "stamped t1 wn st3" using breaker_run_stamped [OF d(2)] assms(6) by blast
  then show ?thesis using allowed_stamped_wait [OF e2 assms(5)] assms(4) by simp
qed

theorem registrations_spaced_witness:
  "fst (breaker_run \<lparr>rate_limit_window = 60, failure_window = 10, failure_threshold = 2\<rparr>
      (CircuitBreakerState_new, ())
      [(3, Op_Register \<lparr>rr_workflow_name = ''w'', rr_binary_hash = ''a'', rr_force = None\<rparr>),
       (40, Op_Register \<lparr>rr_workflow_name = ''w'', rr_binary_hash = ''b'', rr_force = None\<rparr>),
       (63, Op_Register \<lparr>rr_workflow_name = ''w'', rr_binary_hash = ''b'', rr_force = None\<rparr>)])
    = [] @ Ev_Register 3 \<lparr>rr_workflow_name = ''w'', rr_binary_hash = ''a'', rr_force = None\<rparr> (Inr Allowed)
      # [Ev_Register 40 \<lparr>rr_workflow_name = ''w'', rr_binary_hash = ''b'', rr_force = None\<rparr> (Inr (RateLimited 1))]
      @ Ev_Register 63 \<lparr>rr_workflow_name = ''w'', rr_binary_hash = ''b'', rr_force = None\<rparr> (Inr Allowed) # []
   \<and> (60::nat) \<le> 63 - 3"
proof -
  let ?c = "\<lparr>rate_limit_window = 60, failure_window = 10, failure_threshold = 2\<rparr>"
  let ?a = "\<lparr>rr_workflow_name = ''w'', rr_binary_hash = ''a'', rr_force = None\<rparr>"
  let ?b = "\<lparr>rr_workflow_name = ''w'', rr_binary_hash = ''b'', rr_force = None\<rparr>"
  let ?ops = "[(3, Op_Register ?a), (40, Op_Register ?b), (63, Op_Register ?b)] :: (instant \<times> breaker_op) list"
  obtain sw where run: "breaker_run ?c (CircuitBreakerState_new, ()) ?ops
      = ([] @ Ev_Register 3 ?a (Inr Allowed) # [Ev_Register 40 ?b (Inr (RateLimited 1))]
         @ Ev_Register 63 ?b (Inr Allowed) # [], sw)"
    by (simp add: breaker_run_def evaluate_registration_def check_rate_limit_def duration_since_def
        update_rate_limit_def set_rate_limit_def CircuitBreakerState_new_def get_status_def
        as_secs_def subsec_nanos_def Let_def)
  have "rate_limit_window ?c \<le> 63 - 3"
    by (rule registrations_spaced [OF run, where wn = "''w''"]) simp_all
  then show ?thesis using run by simp
qed

text \<open>
  A deactivated or deleted workflow comes back: a failure report that fills the window
  overwrites its status with quarantine, and the release of the quarantine makes it active
  and admits the next registration, although deletion is documented as final.
\<close>

theorem deleted_workflow_revived:
  assumes "get_status st wn = Deactivated \<or> get_status st wn = Deleted"
    and "unat (failure_threshold config)
           \<le> fst (record_failure_in_window (window_of st wn) hash now (failure_window config))"
    and "record_failure wn hash config (st, w) now = (r, st1, w1)"
    and "unquarantine wn operator st1 = (u, st2)"
    and "rr_workflow_name request = wn" and "rr_force request = None"
  shows "r = Inr (Some \<lparr>qe_workflow_name = wn\<rparr>) \<and> is_ok u \<and> get_status st2 wn = Active
         \<and> fst (evaluate_registration request config st2 later) = Inr Allowed"
proof -
  obtain n e where ne: "record_failure_in_window (window_of st wn) hash now (failure_window config) = (n, e)"
    by force
  have r: "r = Inr (Some \<lparr>qe_workflow_name = wn\<rparr>)" and q: "statuses st1 wn = Some Quarantined"
    using assms(1,2,3) ne
    by (auto simp: record_failure_def Let_def window_of_def set_status_def)
  obtain x where u: "u = Inr x" using unquarantine_success [of wn operator st1] q assms(4) by auto
  note st2 = unquarantine_state [OF assms(4) [unfolded u]]
  have "get_status st2 wn = Active" "rate_limiter st2 wn = None" by (simp_all add: get_status_def st2)
  then show ?thesis using r u assms(5,6) by (simp add: evaluate_registration_def Let_def)
qed

theorem deleted_workflow_revived_witness:
  "\<exists>st1 u st2. record_failure ''w'' ''a'' \<lparr>rate_limit_window = 60, failure_window = 10, failure_threshold = 1\<rparr>
       (set_status CircuitBreakerState_new ''w'' Deleted, ()) 7 = (Inr (Some \<lparr>qe_workflow_name = ''w''\<rparr>), st1, ())
     \<and> unquarantine ''w'' ''op'' st1 = (u, st2) \<and> get_status st2 ''w'' = Active"
proof -
  let ?c = "\<lparr>rate_limit_window = 60, failure_window = 10, failure_threshold = 1\<rparr>"
  let ?st = "set_status CircuitBreakerState_new ''w'' Deleted :: unit CircuitBreakerState"
  let ?req = "\<lparr>rr_workflow_name = ''w'', rr_binary_hash = ''a'', rr_force = None\<rparr>"
  obtain r st1 w1 where f: "record_failure ''w'' ''a'' ?c (?st, ()) 7 = (r, st1, w1)"
    by (metis prod.exhaust)
  obtain u st2 where q: "unquarantine ''w'' ''op'' st1 = (u, st2)" by force
  have "unat (failure_threshold ?c)
      \<le> fst (record_failure_in_window (window_of ?st ''w'') ''a'' 7 (failure_window ?c))"
    by (simp add: record_failure_in_window_def window_of_def set_status_def CircuitBreakerState_new_def
        retain_recent_def partition_point_def Let_def)
  then have "r = Inr (Some \<lparr>qe_workflow_name = ''w''\<rparr>) \<and> is_ok u \<and> get_status st2 ''w'' = Active
      \<and> fst (evaluate_registration ?req ?c st2 8) = Inr Allowed"
    using deleted_workflow_revived [of ?st "''w''" ?c "''a''" 7 "()" r st1 w1 "''op''" u st2 ?req 8] f q
    by (simp add: get_status_def set_status_def)
  then show ?thesis using f q by (cases w1) auto
qed

section \<open>The token bucket\<close>

text \<open>For a known key the check answers as the two observers say, and no other key changes.\<close>

lemma bucket_check_agrees:
  assumes "st key = Some b"
  shows "fst (check_and_consume F config st key now)
           = (f_le F (f_of_u64 F (cost_per_request config)) (peek_tokens F config st key now),
              wait_time F config st key now)"
    and "k \<noteq> key \<Longrightarrow> snd (check_and_consume F config st key now) k = st k"
  using assms by (simp_all add: check_and_consume_def peek_tokens_def wait_time_def Let_def)

text \<open>The first request for a key passes whatever it costs, even when \<open>wait_time\<close> says otherwise.\<close>

lemma bucket_first_request:
  assumes "st key = None" and "\<not> f_le F (f_of_u64 F (cost_per_request config)) (f_of_u64 F (burst config))"
    and "f_le F (sustained_rate config) (f_of_u64 F 0)"
  shows "fst (check_and_consume F config st key now) = (True, 0)"
    and "wait_time F config st key now = - 1"
  using assms by (simp_all add: check_and_consume_def wait_time_def peek_tokens_def time_until_tokens_def Let_def)

text \<open>After a reset a key starts again with a full bucket.\<close>

lemma bucket_reset_full:
  "peek_tokens F config (bucket_reset st key) key now = f_of_u64 F (burst config)"
  by (simp add: bucket_reset_def peek_tokens_def)

end
