(* ===== verification/Write_Budget.thy ===== *)
theory Write_Budget
  imports Timer_Index Machines
begin

text \<open>
  The write path of the storage layer (vo-storage/src/append): write classes, the byte
  budget of each class, the bounded queues with their back pressure signal; and the
  budget saga on top of it (vo-storage/src/budget_saga), which stages, commits and rolls
  back writes in a manifest or in a fjall partition.  The budget is not \<open>Sync\<close>, so the
  operations run one after the other.  The fjall keyspace, the JSON crate, the texts of
  errors and the clock are parameters; metrics are left out.
\<close>

section \<open>Classes and budgets\<close>

datatype WriteClass = CriticalControlPlane | OperatorProjection | BulkBlob

record BudgetError =
  be_class :: WriteClass
  be_requested :: u64
  be_available :: u64

record WriteBudget =
  critical_limit :: u64
  projection_limit :: u64
  blob_limit :: u64
  critical_used :: u64
  projection_used :: u64
  blob_used :: u64

definition WriteBudget_new :: "u64 \<Rightarrow> u64 \<Rightarrow> u64 \<Rightarrow> WriteBudget" where
  "WriteBudget_new critical projection blob =
     \<lparr>critical_limit = critical, projection_limit = projection, blob_limit = blob,
      critical_used = 0, projection_used = 0, blob_used = 0\<rparr>"

fun remaining :: "WriteBudget \<Rightarrow> WriteClass \<Rightarrow> u64" where
  "remaining b CriticalControlPlane = saturating_sub (critical_limit b) (critical_used b)"
| "remaining b OperatorProjection = saturating_sub (projection_limit b) (projection_used b)"
| "remaining b BulkBlob = saturating_sub (blob_limit b) (blob_used b)"

definition can_write :: "WriteBudget \<Rightarrow> WriteClass \<Rightarrow> u64 \<Rightarrow> bool" where
  "can_write b class size_bytes \<longleftrightarrow> size_bytes \<le> remaining b class"

fun add_used :: "WriteBudget \<Rightarrow> WriteClass \<Rightarrow> u64 \<Rightarrow> WriteBudget" where
  "add_used b CriticalControlPlane n = b\<lparr>critical_used := critical_used b + n\<rparr>"
| "add_used b OperatorProjection n = b\<lparr>projection_used := projection_used b + n\<rparr>"
| "add_used b BulkBlob n = b\<lparr>blob_used := blob_used b + n\<rparr>"

definition reserve :: "WriteBudget \<Rightarrow> WriteClass \<Rightarrow> u64 \<Rightarrow> (BudgetError + unit) \<times> WriteBudget" where
  "reserve b class size_bytes =
     (let available = remaining b class in
      if available < size_bytes
      then (Inl \<lparr>be_class = class, be_requested = size_bytes, be_available = available\<rparr>, b)
      else (Inr (), add_used b class size_bytes))"

fun release_budget :: "WriteBudget \<Rightarrow> WriteClass \<Rightarrow> u64 \<Rightarrow> WriteBudget" where
  "release_budget b CriticalControlPlane n = b\<lparr>critical_used := saturating_sub (critical_used b) n\<rparr>"
| "release_budget b OperatorProjection n = b\<lparr>projection_used := saturating_sub (projection_used b) n\<rparr>"
| "release_budget b BulkBlob n = b\<lparr>blob_used := saturating_sub (blob_used b) n\<rparr>"

section \<open>Queue statistics and back pressure\<close>

record QueueConfig =
  critical_capacity :: nat
  projection_capacity :: nat
  blob_capacity :: nat

fun capacity_for :: "QueueConfig \<Rightarrow> WriteClass \<Rightarrow> nat" where
  "capacity_for c CriticalControlPlane = critical_capacity c"
| "capacity_for c OperatorProjection = projection_capacity c"
| "capacity_for c BulkBlob = blob_capacity c"

record QueueStats =
  critical_depth :: nat
  projection_depth :: nat
  blob_depth :: nat
  qs_config :: QueueConfig

fun depth :: "QueueStats \<Rightarrow> WriteClass \<Rightarrow> nat" where
  "depth s CriticalControlPlane = critical_depth s"
| "depth s OperatorProjection = projection_depth s"
| "depth s BulkBlob = blob_depth s"

definition stats_capacity :: "QueueStats \<Rightarrow> WriteClass \<Rightarrow> nat" where
  "stats_capacity s class = capacity_for (qs_config s) class"

definition stats_remaining :: "QueueStats \<Rightarrow> WriteClass \<Rightarrow> nat" where
  "stats_remaining s class = stats_capacity s class - depth s class"

definition stats_is_full :: "QueueStats \<Rightarrow> WriteClass \<Rightarrow> bool" where
  "stats_is_full s class \<longleftrightarrow> stats_capacity s class \<le> depth s class"

fun increment :: "QueueStats \<Rightarrow> WriteClass \<Rightarrow> QueueStats" where
  "increment s CriticalControlPlane = s\<lparr>critical_depth := critical_depth s + 1\<rparr>"
| "increment s OperatorProjection = s\<lparr>projection_depth := projection_depth s + 1\<rparr>"
| "increment s BulkBlob = s\<lparr>blob_depth := blob_depth s + 1\<rparr>"

fun decrement :: "QueueStats \<Rightarrow> WriteClass \<Rightarrow> QueueStats" where
  "decrement s CriticalControlPlane = s\<lparr>critical_depth := critical_depth s - 1\<rparr>"
| "decrement s OperatorProjection = s\<lparr>projection_depth := projection_depth s - 1\<rparr>"
| "decrement s BulkBlob = s\<lparr>blob_depth := blob_depth s - 1\<rparr>"

datatype BackpressureEvent =
    BP_QueueFull WriteClass nat nat
  | BP_QueueWritable WriteClass nat

record BackpressureSignal =
  critical_full :: bool
  projection_full :: bool
  blob_full :: bool
  last_event :: "BackpressureEvent option"

definition BackpressureSignal_new :: BackpressureSignal where
  "BackpressureSignal_new =
     \<lparr>critical_full = False, projection_full = False, blob_full = False, last_event = None\<rparr>"

fun is_backpressured :: "BackpressureSignal \<Rightarrow> WriteClass \<Rightarrow> bool" where
  "is_backpressured s CriticalControlPlane = critical_full s"
| "is_backpressured s OperatorProjection = projection_full s"
| "is_backpressured s BulkBlob = blob_full s"

fun set_flag :: "BackpressureSignal \<Rightarrow> WriteClass \<Rightarrow> bool \<Rightarrow> BackpressureSignal" where
  "set_flag s CriticalControlPlane v = s\<lparr>critical_full := v\<rparr>"
| "set_flag s OperatorProjection v = s\<lparr>projection_full := v\<rparr>"
| "set_flag s BulkBlob v = s\<lparr>blob_full := v\<rparr>"

definition any_backpressured :: "BackpressureSignal \<Rightarrow> bool" where
  "any_backpressured s \<longleftrightarrow> critical_full s \<or> projection_full s \<or> blob_full s"

definition set_full :: "BackpressureSignal \<Rightarrow> WriteClass \<Rightarrow> nat \<Rightarrow> nat \<Rightarrow> BackpressureSignal" where
  "set_full s class d c =
     (let s1 = set_flag s class True in
      if is_backpressured s class then s1 else s1\<lparr>last_event := Some (BP_QueueFull class d c)\<rparr>)"

definition set_writable :: "BackpressureSignal \<Rightarrow> WriteClass \<Rightarrow> nat \<Rightarrow> BackpressureSignal" where
  "set_writable s class remaining_capacity =
     (let s1 = set_flag s class False in
      if is_backpressured s class
      then s1\<lparr>last_event := Some (BP_QueueWritable class remaining_capacity)\<rparr> else s1)"

fun should_reject :: "BackpressureSignal \<Rightarrow> WriteClass \<Rightarrow> bool" where
  "should_reject s CriticalControlPlane = False"
| "should_reject s class = is_backpressured s class"

section \<open>The queues\<close>

datatype BudgetQueuesError =
    BQ_QueueFull WriteClass nat nat
  | BQ_BudgetExceeded WriteClass u64 u64

text \<open>The trait \<open>ClassifiedWrite\<close>: class and size of a write.\<close>

record 't classified =
  write_class :: "'t \<Rightarrow> WriteClass"
  write_size :: "'t \<Rightarrow> u64"

record 't InnerQueue =
  iq_items :: "'t list"
  iq_capacity :: nat

definition InnerQueue_push :: "'t InnerQueue \<Rightarrow> 't \<Rightarrow> 't option \<times> 't InnerQueue" where
  "InnerQueue_push q item =
     (if iq_capacity q \<le> length (iq_items q) then (Some item, q)
      else (None, q\<lparr>iq_items := iq_items q @ [item]\<rparr>))"

definition InnerQueue_pop :: "'t InnerQueue \<Rightarrow> 't option \<times> 't InnerQueue" where
  "InnerQueue_pop q =
     (case iq_items q of [] \<Rightarrow> (None, q) | x # xs \<Rightarrow> (Some x, q\<lparr>iq_items := xs\<rparr>))"

definition InnerQueue_is_full :: "'t InnerQueue \<Rightarrow> bool" where
  "InnerQueue_is_full q \<longleftrightarrow> iq_capacity q \<le> length (iq_items q)"

record 't BudgetQueues =
  bq_config :: QueueConfig
  bq_stats :: QueueStats
  bq_budget :: WriteBudget
  bq_backpressure :: BackpressureSignal
  critical_queue :: "'t InnerQueue"
  projection_queue :: "'t InnerQueue"
  blob_queue :: "'t InnerQueue"

definition BudgetQueues_new :: "QueueConfig \<Rightarrow> WriteBudget \<Rightarrow> 't BudgetQueues" where
  "BudgetQueues_new config budget =
     \<lparr>bq_config = config,
      bq_stats = \<lparr>critical_depth = 0, projection_depth = 0, blob_depth = 0, qs_config = config\<rparr>,
      bq_budget = budget, bq_backpressure = BackpressureSignal_new,
      critical_queue = \<lparr>iq_items = [], iq_capacity = critical_capacity config\<rparr>,
      projection_queue = \<lparr>iq_items = [], iq_capacity = projection_capacity config\<rparr>,
      blob_queue = \<lparr>iq_items = [], iq_capacity = blob_capacity config\<rparr>\<rparr>"

fun queue_of :: "'t BudgetQueues \<Rightarrow> WriteClass \<Rightarrow> 't InnerQueue" where
  "queue_of bq CriticalControlPlane = critical_queue bq"
| "queue_of bq OperatorProjection = projection_queue bq"
| "queue_of bq BulkBlob = blob_queue bq"

fun set_queue :: "'t BudgetQueues \<Rightarrow> WriteClass \<Rightarrow> 't InnerQueue \<Rightarrow> 't BudgetQueues" where
  "set_queue bq CriticalControlPlane q = bq\<lparr>critical_queue := q\<rparr>"
| "set_queue bq OperatorProjection q = bq\<lparr>projection_queue := q\<rparr>"
| "set_queue bq BulkBlob q = bq\<lparr>blob_queue := q\<rparr>"

definition try_enqueue ::
  "'t classified \<Rightarrow> 't BudgetQueues \<Rightarrow> 't \<Rightarrow> (BudgetQueuesError + unit) \<times> 't BudgetQueues" where
  "try_enqueue C bq item =
     (let class = write_class C item; size_bytes = write_size C item in
      if \<not> can_write (bq_budget bq) class size_bytes
      then (Inl (BQ_BudgetExceeded class size_bytes (remaining (bq_budget bq) class)), bq)
      else
        let q = queue_of bq class in
        if InnerQueue_is_full q
        then (Inl (BQ_QueueFull class (length (iq_items q)) (iq_capacity q)),
              bq\<lparr>bq_backpressure :=
                   set_full (bq_backpressure bq) class (length (iq_items q)) (iq_capacity q)\<rparr>)
        else
          let (overflow, q1) = InnerQueue_push q item; bq1 = set_queue bq class q1 in
          if overflow \<noteq> None
          then (let d = depth (bq_stats bq1) class; c = stats_capacity (bq_stats bq1) class in
                (Inl (BQ_QueueFull class d c),
                 bq1\<lparr>bq_backpressure := set_full (bq_backpressure bq1) class d c\<rparr>))
          else
            let (r, budget1) = reserve (bq_budget bq1) class size_bytes in
            case r of
              Inl e \<Rightarrow>
                (Inl (BQ_BudgetExceeded class size_bytes (be_available e)),
                 set_queue bq1 class (snd (InnerQueue_pop q1)))
            | Inr _ \<Rightarrow>
                (Inr (), bq1\<lparr>bq_budget := budget1, bq_stats := increment (bq_stats bq1) class\<rparr>))"

definition dequeue :: "'t BudgetQueues \<Rightarrow> WriteClass \<Rightarrow> 't option \<times> 't BudgetQueues" where
  "dequeue bq class =
     (let (item, q1) = InnerQueue_pop (queue_of bq class); bq1 = set_queue bq class q1 in
      if item \<noteq> None
      then (let was_full = stats_is_full (bq_stats bq1) class;
                bq2 = bq1\<lparr>bq_stats := decrement (bq_stats bq1) class\<rparr>
            in (item,
                if was_full
                then bq2\<lparr>bq_backpressure :=
                       set_writable (bq_backpressure bq2) class (stats_remaining (bq_stats bq2) class)\<rparr>
                else bq2))
      else (item, bq1))"

definition dequeue_prioritized :: "'t BudgetQueues \<Rightarrow> (WriteClass \<times> 't) option \<times> 't BudgetQueues" where
  "dequeue_prioritized bq =
     (case dequeue bq CriticalControlPlane of
        (Some item, bq1) \<Rightarrow> (Some (CriticalControlPlane, item), bq1)
      | (None, bq1) \<Rightarrow>
          (case dequeue bq1 OperatorProjection of
             (Some item, bq2) \<Rightarrow> (Some (OperatorProjection, item), bq2)
           | (None, bq2) \<Rightarrow>
               (case dequeue bq2 BulkBlob of
                  (Some item, bq3) \<Rightarrow> (Some (BulkBlob, item), bq3)
                | (None, bq3) \<Rightarrow> (None, bq3))))"

section \<open>The manifest of the saga\<close>

datatype SagaStatus = Saga_Staged | Saga_Committed | Saga_RolledBack

record SagaEntry =
  se_write_key :: string
  se_class :: WriteClass
  se_size_bytes :: u64
  se_status :: SagaStatus

datatype SagaError =
    Saga_AlreadyExists string
  | Saga_NotFound string
  | Saga_AlreadyRolledBack string
  | Saga_InvalidState string SagaStatus SagaStatus
  | Saga_BudgetReserveFailed string
  | Saga_Storage string
  | Saga_CorruptEntry string string

record BudgetManifest =
  bm_entries :: "string \<Rightarrow> SagaEntry option"
  bm_version :: u64

definition BudgetManifest_default :: BudgetManifest where
  "BudgetManifest_default = \<lparr>bm_entries = Map.empty, bm_version = 0\<rparr>"

definition manifest_stage ::
  "BudgetManifest \<Rightarrow> string \<Rightarrow> WriteClass \<Rightarrow> u64 \<Rightarrow> (SagaError + unit) \<times> BudgetManifest" where
  "manifest_stage m write_key class size_bytes =
     (if bm_entries m write_key \<noteq> None then (Inl (Saga_AlreadyExists write_key), m)
      else (Inr (), m\<lparr>bm_entries := (bm_entries m)(write_key \<mapsto>
              \<lparr>se_write_key = write_key, se_class = class, se_size_bytes = size_bytes,
               se_status = Saga_Staged\<rparr>)\<rparr>))"

definition manifest_commit :: "BudgetManifest \<Rightarrow> string \<Rightarrow> (SagaError + unit) \<times> BudgetManifest" where
  "manifest_commit m write_key =
     (case bm_entries m write_key of
        None \<Rightarrow> (Inl (Saga_NotFound write_key), m)
      | Some entry \<Rightarrow>
          (if se_status entry \<noteq> Saga_Staged
           then (Inl (Saga_InvalidState write_key Saga_Staged (se_status entry)), m)
           else (Inr (), m\<lparr>bm_entries := (bm_entries m)(write_key \<mapsto> entry\<lparr>se_status := Saga_Committed\<rparr>),
                           bm_version := bm_version m + 1\<rparr>)))"

definition manifest_rollback :: "BudgetManifest \<Rightarrow> string \<Rightarrow> (SagaError + unit) \<times> BudgetManifest" where
  "manifest_rollback m write_key =
     (case bm_entries m write_key of
        None \<Rightarrow> (Inl (Saga_NotFound write_key), m)
      | Some entry \<Rightarrow>
          (if se_status entry = Saga_RolledBack then (Inl (Saga_AlreadyRolledBack write_key), m)
           else (Inr (), m\<lparr>bm_entries := (bm_entries m)(write_key \<mapsto> entry\<lparr>se_status := Saga_RolledBack\<rparr>),
                           bm_version := bm_version m + 1\<rparr>)))"

definition recover_staged_as_rolled_back :: "BudgetManifest \<Rightarrow> BudgetManifest" where
  "recover_staged_as_rolled_back m =
     m\<lparr>bm_entries := (\<lambda>k. map_option (\<lambda>e. if se_status e = Saga_Staged
                                       then e\<lparr>se_status := Saga_RolledBack\<rparr> else e) (bm_entries m k)),
       bm_version := bm_version m + 1\<rparr>"

section \<open>The durable store of the saga\<close>

text \<open>
  The crates behind the store: the keyspace, the text of its errors, the serialiser of
  entries, and the text of a refusal of the queues.
\<close>

record 'k saga_env =
  sv_keyspace :: "'k keyspace"
  sv_fjall_text :: string
  sv_to_vec :: "SagaEntry \<Rightarrow> string + bytes"
  sv_from_slice :: "bytes \<Rightarrow> string + SagaEntry"
  sv_queue_text :: "BudgetQueuesError \<Rightarrow> string"

definition entry_key :: "string \<Rightarrow> bytes" where
  "entry_key write_key = as_bytes (''entry:'' @ write_key)"

definition put_entry :: "'k saga_env \<Rightarrow> 'k \<Rightarrow> string \<Rightarrow> SagaEntry \<Rightarrow> (SagaError + unit) \<times> 'k" where
  "put_entry E st write_key entry =
     (case sv_to_vec E entry of
        Inl e \<Rightarrow> (Inl (Saga_Storage (''failed to serialize saga entry: '' @ e)), st)
      | Inr val \<Rightarrow>
          (case ks_insert (sv_keyspace E) st (entry_key write_key) val of
             None \<Rightarrow> (Inl (Saga_Storage (sv_fjall_text E)), st)
           | Some st1 \<Rightarrow> (Inr (), st1)))"

definition read_entry :: "'k saga_env \<Rightarrow> 'k \<Rightarrow> string \<Rightarrow> SagaError + SagaEntry option" where
  "read_entry E st write_key =
     (case ks_get (sv_keyspace E) st (entry_key write_key) of
        None \<Rightarrow> Inl (Saga_Storage (sv_fjall_text E))
      | Some None \<Rightarrow> Inr None
      | Some (Some bs) \<Rightarrow>
          (case sv_from_slice E bs of
             Inl e \<Rightarrow> Inl (Saga_CorruptEntry write_key e)
           | Inr entry \<Rightarrow> Inr (Some entry)))"

definition stage_entry ::
  "'k saga_env \<Rightarrow> 'k \<Rightarrow> string \<Rightarrow> WriteClass \<Rightarrow> u64 \<Rightarrow> (SagaError + unit) \<times> 'k" where
  "stage_entry E st write_key class size_bytes =
     (case read_entry E st write_key of
        Inl e \<Rightarrow> (Inl e, st)
      | Inr (Some _) \<Rightarrow> (Inl (Saga_AlreadyExists write_key), st)
      | Inr None \<Rightarrow>
          put_entry E st write_key
            \<lparr>se_write_key = write_key, se_class = class, se_size_bytes = size_bytes,
             se_status = Saga_Staged\<rparr>)"

definition commit_entry :: "'k saga_env \<Rightarrow> 'k \<Rightarrow> string \<Rightarrow> (SagaError + unit) \<times> 'k" where
  "commit_entry E st write_key =
     (case read_entry E st write_key of
        Inl e \<Rightarrow> (Inl e, st)
      | Inr None \<Rightarrow> (Inl (Saga_NotFound write_key), st)
      | Inr (Some entry) \<Rightarrow>
          (if se_status entry \<noteq> Saga_Staged
           then (Inl (Saga_InvalidState write_key Saga_Staged (se_status entry)), st)
           else put_entry E st write_key (entry\<lparr>se_status := Saga_Committed\<rparr>)))"

definition rollback_entry :: "'k saga_env \<Rightarrow> 'k \<Rightarrow> string \<Rightarrow> (SagaError + unit) \<times> 'k" where
  "rollback_entry E st write_key =
     (case read_entry E st write_key of
        Inl e \<Rightarrow> (Inl e, st)
      | Inr None \<Rightarrow> (Inl (Saga_NotFound write_key), st)
      | Inr (Some entry) \<Rightarrow>
          (if se_status entry = Saga_RolledBack then (Inl (Saga_AlreadyRolledBack write_key), st)
           else put_entry E st write_key (entry\<lparr>se_status := Saga_RolledBack\<rparr>)))"

datatype RecoveryOutcome = NothingToRecover | Recovered_RolledBack nat

definition strip_entry_prefix :: "bytes \<Rightarrow> string option" where
  "strip_entry_prefix key_bytes =
     (let key_str = (case from_utf8 key_bytes of Inr s \<Rightarrow> s | Inl _ \<Rightarrow> '''') in
      if take 6 key_str = ''entry:'' then Some (drop 6 key_str) else None)"

fun recover_loop ::
  "'k saga_env \<Rightarrow> 'k \<Rightarrow> nat \<Rightarrow> (bytes \<times> bytes) option list \<Rightarrow> (SagaError + nat) \<times> 'k" where
  "recover_loop E st count [] = (Inr count, st)"
| "recover_loop E st count (None # items) = (Inl (Saga_Storage (sv_fjall_text E)), st)"
| "recover_loop E st count (Some (key_bytes, value_bytes) # items) =
     (case strip_entry_prefix key_bytes of
        None \<Rightarrow> recover_loop E st count items
      | Some write_key \<Rightarrow>
          (case sv_from_slice E value_bytes of
             Inl e \<Rightarrow> (Inl (Saga_CorruptEntry write_key e), st)
           | Inr entry \<Rightarrow>
               (if se_status entry = Saga_Staged
                then (case put_entry E st write_key (entry\<lparr>se_status := Saga_RolledBack\<rparr>) of
                        (Inl e, st1) \<Rightarrow> (Inl e, st1)
                      | (Inr _, st1) \<Rightarrow> recover_loop E st1 (count + 1) items)
                else recover_loop E st count items)))"

definition store_recover :: "'k saga_env \<Rightarrow> 'k \<Rightarrow> (SagaError + RecoveryOutcome) \<times> 'k" where
  "store_recover E st =
     (case recover_loop E st 0 (ks_range (sv_keyspace E) st None None) of
        (Inl e, st1) \<Rightarrow> (Inl e, st1)
      | (Inr count, st1) \<Rightarrow>
          (Inr (if 0 < count then Recovered_RolledBack count else NothingToRecover), st1))"

section \<open>The saga\<close>

record StagedWrite =
  sw_write_key :: string
  sw_class :: WriteClass
  sw_size_bytes :: u64
  sw_staged_at :: nat

definition staged_classified :: "StagedWrite classified" where
  "staged_classified = \<lparr>write_class = sw_class, write_size = sw_size_bytes\<rparr>"

record 'k DurableBudgetSaga =
  ds_store :: "'k option"
  ds_manifest :: BudgetManifest
  ds_queues :: "StagedWrite BudgetQueues"

definition DurableBudgetSaga_new :: "StagedWrite BudgetQueues \<Rightarrow> 'k DurableBudgetSaga" where
  "DurableBudgetSaga_new queues =
     \<lparr>ds_store = None, ds_manifest = BudgetManifest_default, ds_queues = queues\<rparr>"

definition DurableBudgetSaga_open :: "'k \<Rightarrow> StagedWrite BudgetQueues \<Rightarrow> 'k DurableBudgetSaga" where
  "DurableBudgetSaga_open part queues =
     \<lparr>ds_store = Some part, ds_manifest = BudgetManifest_default, ds_queues = queues\<rparr>"

definition stage_write ::
  "'k saga_env \<Rightarrow> 'k DurableBudgetSaga \<Rightarrow> nat \<Rightarrow> string \<Rightarrow> WriteClass \<Rightarrow> u64
   \<Rightarrow> (SagaError + StagedWrite) \<times> 'k DurableBudgetSaga" where
  "stage_write E ds now write_key class size_bytes =
     (let staged = \<lparr>sw_write_key = write_key, sw_class = class, sw_size_bytes = size_bytes,
                    sw_staged_at = now\<rparr>;
          (r, ds1) =
            (case ds_store ds of
               Some st \<Rightarrow> (case stage_entry E st write_key class size_bytes of
                             (r, st1) \<Rightarrow> (r, ds\<lparr>ds_store := Some st1\<rparr>))
             | None \<Rightarrow> (case manifest_stage (ds_manifest ds) write_key class size_bytes of
                          (r, m1) \<Rightarrow> (r, ds\<lparr>ds_manifest := m1\<rparr>)))
      in case r of
           Inl e \<Rightarrow> (Inl e, ds1)
         | Inr _ \<Rightarrow>
             (case try_enqueue staged_classified (ds_queues ds1) staged of
                (Inr _, queues1) \<Rightarrow> (Inr staged, ds1\<lparr>ds_queues := queues1\<rparr>)
              | (Inl e, queues1) \<Rightarrow>
                  (Inl (Saga_BudgetReserveFailed (sv_queue_text E e)),
                   (case ds_store ds1 of
                      Some st \<Rightarrow> ds1\<lparr>ds_queues := queues1,
                                      ds_store := Some (snd (rollback_entry E st write_key))\<rparr>
                    | None \<Rightarrow> ds1\<lparr>ds_queues := queues1,
                                   ds_manifest := snd (manifest_rollback (ds_manifest ds1) write_key)\<rparr>))))"

definition saga_commit ::
  "'k saga_env \<Rightarrow> 'k DurableBudgetSaga \<Rightarrow> string \<Rightarrow> (SagaError + unit) \<times> 'k DurableBudgetSaga" where
  "saga_commit E ds write_key =
     (case ds_store ds of
        None \<Rightarrow> (case manifest_commit (ds_manifest ds) write_key of
                   (r, m1) \<Rightarrow> (r, ds\<lparr>ds_manifest := m1\<rparr>))
      | Some st \<Rightarrow> (case commit_entry E st write_key of (r, st1) \<Rightarrow> (r, ds\<lparr>ds_store := Some st1\<rparr>)))"

definition get_class_for_key :: "'k DurableBudgetSaga \<Rightarrow> string \<Rightarrow> SagaError + WriteClass" where
  "get_class_for_key ds write_key =
     ok_or (Saga_NotFound write_key) (map_option se_class (bm_entries (ds_manifest ds) write_key))"

definition saga_rollback ::
  "'k saga_env \<Rightarrow> 'k DurableBudgetSaga \<Rightarrow> string \<Rightarrow> (SagaError + unit) \<times> 'k DurableBudgetSaga" where
  "saga_rollback E ds write_key =
     (case get_class_for_key ds write_key of
        Inl e \<Rightarrow> (Inl e, ds)
      | Inr class \<Rightarrow>
          (let ds1 = ds\<lparr>ds_queues := snd (dequeue (ds_queues ds) class)\<rparr> in
           case ds_store ds1 of
             None \<Rightarrow> (case manifest_rollback (ds_manifest ds1) write_key of
                        (r, m1) \<Rightarrow> (r, ds1\<lparr>ds_manifest := m1\<rparr>))
           | Some st \<Rightarrow> (case rollback_entry E st write_key of
                           (r, st1) \<Rightarrow> (r, ds1\<lparr>ds_store := Some st1\<rparr>))))"

definition recover_from_crash :: "'k DurableBudgetSaga \<Rightarrow> 'k DurableBudgetSaga" where
  "recover_from_crash ds = ds\<lparr>ds_manifest := recover_staged_as_rolled_back (ds_manifest ds)\<rparr>"

section \<open>Runs of the queues\<close>

datatype 't queue_op =
    Q_Enqueue 't
  | Q_Dequeue WriteClass
  | Q_Prioritized

datatype 't queue_event =
    QE_Enqueue 't "BudgetQueuesError + unit"
  | QE_Dequeue WriteClass "'t option"
  | QE_Prioritized "(WriteClass \<times> 't) option"

fun queue_step :: "'t classified \<Rightarrow> 't BudgetQueues \<Rightarrow> 't queue_op \<Rightarrow> 't queue_event \<times> 't BudgetQueues" where
  "queue_step C bq (Q_Enqueue x) = (case try_enqueue C bq x of (r, bq1) \<Rightarrow> (QE_Enqueue x r, bq1))"
| "queue_step C bq (Q_Dequeue c) = (case dequeue bq c of (r, bq1) \<Rightarrow> (QE_Dequeue c r, bq1))"
| "queue_step C bq Q_Prioritized = (case dequeue_prioritized bq of (r, bq1) \<Rightarrow> (QE_Prioritized r, bq1))"

text \<open>The writes of a class that a run accepted and the ones it served, in order.\<close>

fun accepted_by :: "'t classified \<Rightarrow> WriteClass \<Rightarrow> 't queue_event \<Rightarrow> 't list" where
  "accepted_by C c (QE_Enqueue x (Inr _)) = (if write_class C x = c then [x] else [])"
| "accepted_by C c _ = []"

fun served_by :: "WriteClass \<Rightarrow> 't queue_event \<Rightarrow> 't list" where
  "served_by c (QE_Dequeue d (Some x)) = (if d = c then [x] else [])"
| "served_by c (QE_Prioritized (Some (d, x))) = (if d = c then [x] else [])"
| "served_by c _ = []"

definition accepted :: "'t classified \<Rightarrow> WriteClass \<Rightarrow> 't queue_event list \<Rightarrow> 't list" where
  "accepted C c evs = concat (map (accepted_by C c) evs)"

definition served :: "WriteClass \<Rightarrow> 't queue_event list \<Rightarrow> 't list" where
  "served c evs = concat (map (served_by c) evs)"

definition total_size :: "'t classified \<Rightarrow> 't list \<Rightarrow> nat" where
  "total_size C xs = sum_list (map (\<lambda>x. unat (write_size C x)) xs)"

section \<open>Selectors by class\<close>

fun limit_of :: "WriteBudget \<Rightarrow> WriteClass \<Rightarrow> u64" where
  "limit_of b CriticalControlPlane = critical_limit b"
| "limit_of b OperatorProjection = projection_limit b"
| "limit_of b BulkBlob = blob_limit b"

fun used_of :: "WriteBudget \<Rightarrow> WriteClass \<Rightarrow> u64" where
  "used_of b CriticalControlPlane = critical_used b"
| "used_of b OperatorProjection = projection_used b"
| "used_of b BulkBlob = blob_used b"

lemma remaining_eq: "remaining b c = saturating_sub (limit_of b c) (used_of b c)"
  by (cases c) simp_all

lemma add_used_simps [simp]:
  "used_of (add_used b c n) d = (if d = c then used_of b d + n else used_of b d)"
  "limit_of (add_used b c n) d = limit_of b d"
  by (cases c; cases d; simp)+

lemma set_queue_simps [simp]:
  "queue_of (set_queue bq c q) d = (if d = c then q else queue_of bq d)"
  "bq_stats (set_queue bq c q) = bq_stats bq" "bq_budget (set_queue bq c q) = bq_budget bq"
  "bq_backpressure (set_queue bq c q) = bq_backpressure bq" "bq_config (set_queue bq c q) = bq_config bq"
  by (cases c; cases d; simp)+

lemma queue_of_update [simp]:
  "queue_of (bq\<lparr>bq_stats := s\<rparr>) d = queue_of bq d" "queue_of (bq\<lparr>bq_budget := b\<rparr>) d = queue_of bq d"
  "queue_of (bq\<lparr>bq_backpressure := p\<rparr>) d = queue_of bq d"
  by (cases d; simp)+

lemma set_queue_same [simp]: "set_queue bq c (queue_of bq c) = bq"
  by (cases c) simp_all

lemma stats_simps [simp]:
  "depth (increment s c) d = (if d = c then depth s d + 1 else depth s d)"
  "depth (decrement s c) d = (if d = c then depth s d - 1 else depth s d)"
  "qs_config (increment s c) = qs_config s" "qs_config (decrement s c) = qs_config s"
  by (cases c; cases d; simp)+

lemma signal_simps [simp]:
  "is_backpressured (set_full s c n m) d = (d = c \<or> is_backpressured s d)"
  "is_backpressured (set_writable s c n) d = (d \<noteq> c \<and> is_backpressured s d)"
  by (cases c; cases d; simp add: set_full_def set_writable_def Let_def)+

section \<open>The operations on the queues\<close>

text \<open>The re-checks behind the first two guards never fail.\<close>

lemma try_enqueue_eq:
  "try_enqueue C bq x =
     (let c = write_class C x; n = write_size C x; q = queue_of bq c in
      if remaining (bq_budget bq) c < n
      then (Inl (BQ_BudgetExceeded c n (remaining (bq_budget bq) c)), bq)
      else if iq_capacity q \<le> length (iq_items q)
      then (Inl (BQ_QueueFull c (length (iq_items q)) (iq_capacity q)),
            bq\<lparr>bq_backpressure := set_full (bq_backpressure bq) c (length (iq_items q)) (iq_capacity q)\<rparr>)
      else (Inr (),
            (set_queue bq c (q\<lparr>iq_items := iq_items q @ [x]\<rparr>))
              \<lparr>bq_budget := add_used (bq_budget bq) c n, bq_stats := increment (bq_stats bq) c\<rparr>))"
  by (cases "remaining (bq_budget bq) (write_class C x) < write_size C x")
    (auto simp: try_enqueue_def Let_def can_write_def InnerQueue_is_full_def InnerQueue_push_def
      reserve_def)

lemma dequeue_eq:
  "dequeue bq c =
     (case iq_items (queue_of bq c) of
        [] \<Rightarrow> (None, bq)
      | x # xs \<Rightarrow>
          (Some x,
           let bq1 = (set_queue bq c ((queue_of bq c)\<lparr>iq_items := xs\<rparr>))\<lparr>bq_stats := decrement (bq_stats bq) c\<rparr>
           in if stats_is_full (bq_stats bq) c
              then bq1\<lparr>bq_backpressure := set_writable (bq_backpressure bq) c (stats_remaining (bq_stats bq1) c)\<rparr>
              else bq1))"
  by (simp add: dequeue_def InnerQueue_pop_def Let_def split: list.split)

lemma dequeue_prioritized_cases:
  obtains (none) "dequeue_prioritized bq = (None, bq)" and "\<And>c. iq_items (queue_of bq c) = []"
  | (some) c x bq1 where "dequeue bq c = (Some x, bq1)" and "dequeue_prioritized bq = (Some (c, x), bq1)"
      and "c \<noteq> CriticalControlPlane \<Longrightarrow> iq_items (queue_of bq CriticalControlPlane) = []"
      and "c = BulkBlob \<Longrightarrow> iq_items (queue_of bq OperatorProjection) = []"
proof (cases "iq_items (queue_of bq CriticalControlPlane)")
  case Nil
  then have d1: "dequeue bq CriticalControlPlane = (None, bq)" by (simp add: dequeue_eq)
  show ?thesis
  proof (cases "iq_items (queue_of bq OperatorProjection)")
    case Nil2: Nil
    then have d2: "dequeue bq OperatorProjection = (None, bq)" by (simp add: dequeue_eq)
    show ?thesis
    proof (cases "iq_items (queue_of bq BulkBlob)")
      case Nil3: Nil
      then have "dequeue bq BulkBlob = (None, bq)" by (simp add: dequeue_eq)
      moreover have "iq_items (queue_of bq c) = []" for c using Nil Nil2 Nil3 by (cases c) simp_all
      ultimately show ?thesis using none d1 d2 by (simp add: dequeue_prioritized_def)
    next
      case (Cons x xs)
      then obtain bq1 where "dequeue bq BulkBlob = (Some x, bq1)" by (simp add: dequeue_eq)
      then show ?thesis using some [of BulkBlob x bq1] Nil Nil2 d1 d2 by (simp add: dequeue_prioritized_def)
    qed
  next
    case (Cons x xs)
    then obtain bq1 where "dequeue bq OperatorProjection = (Some x, bq1)" by (simp add: dequeue_eq)
    then show ?thesis using some [of OperatorProjection x bq1] Nil d1 by (simp add: dequeue_prioritized_def)
  qed
next
  case (Cons x xs)
  then obtain bq1 where "dequeue bq CriticalControlPlane = (Some x, bq1)" by (simp add: dequeue_eq)
  then show ?thesis using some [of CriticalControlPlane x bq1] by (simp add: dequeue_prioritized_def)
qed

section \<open>The invariant of a run\<close>

definition class_inv ::
  "'t classified \<Rightarrow> QueueConfig \<Rightarrow> WriteBudget \<Rightarrow> WriteClass \<Rightarrow> 't list \<Rightarrow> 't list \<Rightarrow> 't BudgetQueues \<Rightarrow> bool" where
  "class_inv C config budget c acc srv bq \<longleftrightarrow>
     acc = srv @ iq_items (queue_of bq c)
     \<and> depth (bq_stats bq) c = length (iq_items (queue_of bq c))
     \<and> length (iq_items (queue_of bq c)) \<le> capacity_for config c
     \<and> iq_capacity (queue_of bq c) = capacity_for config c
     \<and> qs_config (bq_stats bq) = config
     \<and> (is_backpressured (bq_backpressure bq) c \<longrightarrow> length (iq_items (queue_of bq c)) = capacity_for config c)
     \<and> limit_of (bq_budget bq) c = limit_of budget c
     \<and> unat (used_of (bq_budget bq) c) = total_size C acc
     \<and> total_size C acc \<le> unat (limit_of budget c)"

lemma total_size_simps [simp]:
  "total_size C [] = 0" "total_size C (xs @ ys) = total_size C xs + total_size C ys"
  "total_size C [x] = unat (write_size C x)"
  by (simp_all add: total_size_def)

lemma class_inv_budget:
  assumes "class_inv C config budget c acc srv bq"
  shows "remaining (bq_budget bq) c < n \<longleftrightarrow> unat (limit_of budget c) < total_size C acc + unat n"
  using assms
  by (auto simp: class_inv_def remaining_eq word_less_nat_alt unat_saturating_sub)

lemma enqueue_inv:
  assumes inv: "\<And>c. class_inv C config budget c (acc c) (srv c) bq"
    and e: "try_enqueue C bq x = (r, bq1)"
  shows "class_inv C config budget c (acc c @ accepted_by C c (QE_Enqueue x r)) (srv c) bq1"
    and "(\<exists>n. r = Inl (BQ_BudgetExceeded (write_class C x) (write_size C x) n))
         \<longleftrightarrow> unat (limit_of budget (write_class C x))
               < total_size C (acc (write_class C x)) + unat (write_size C x)"
proof -
  let ?d = "write_class C x" and ?n = "write_size C x"
  let ?q = "queue_of bq ?d"
  note invd = inv [of ?d] and invc = inv [of c]
  note b = class_inv_budget [OF invd, of ?n]
  have "class_inv C config budget c (acc c @ accepted_by C c (QE_Enqueue x r)) (srv c) bq1
        \<and> ((\<exists>n. r = Inl (BQ_BudgetExceeded ?d ?n n)) \<longleftrightarrow> unat (limit_of budget ?d) < total_size C (acc ?d) + unat ?n)"
  proof (cases "remaining (bq_budget bq) ?d < ?n")
    case True
    then have "r = Inl (BQ_BudgetExceeded ?d ?n (remaining (bq_budget bq) ?d))" "bq1 = bq"
      using e by (auto simp: try_enqueue_eq Let_def)
    then show ?thesis using True b invc by simp
  next
    case False
    show ?thesis
    proof (cases "iq_capacity ?q \<le> length (iq_items ?q)")
      case True
      then have r: "r = Inl (BQ_QueueFull ?d (length (iq_items ?q)) (iq_capacity ?q))"
        and bq1: "bq1 = bq\<lparr>bq_backpressure := set_full (bq_backpressure bq) ?d (length (iq_items ?q)) (iq_capacity ?q)\<rparr>"
        using e False by (auto simp: try_enqueue_eq Let_def)
      have "class_inv C config budget c (acc c) (srv c) bq1"
        using invc True by (cases "c = ?d") (auto simp: class_inv_def bq1)
      then show ?thesis using False b r by simp
    next
      case nf: False
      then have r: "r = Inr ()"
        and bq1: "bq1 = (set_queue bq ?d (?q\<lparr>iq_items := iq_items ?q @ [x]\<rparr>))
              \<lparr>bq_budget := add_used (bq_budget bq) ?d ?n, bq_stats := increment (bq_stats bq) ?d\<rparr>"
        using e False by (auto simp: try_enqueue_eq Let_def)
      have fits: "total_size C (acc ?d) + unat ?n \<le> unat (limit_of budget ?d)" using False b by simp
      have "unat (used_of (bq_budget bq) ?d) = total_size C (acc ?d)" using invd by (simp add: class_inv_def)
      then have used: "unat (used_of (bq_budget bq) ?d + ?n) = total_size C (acc ?d) + unat ?n"
        using fits unat_less_2p [of "limit_of budget ?d"] by (simp add: unat_word_ariths)
      have "class_inv C config budget c (acc c @ accepted_by C c (QE_Enqueue x r)) (srv c) bq1"
      proof (cases "c = ?d")
        case True
        then show ?thesis using invd nf fits used by (simp add: class_inv_def bq1 r)
      next
        case False
        then show ?thesis using invc by (auto simp: class_inv_def bq1 r)
      qed
      then show ?thesis using False b r by simp
    qed
  qed
  then show "class_inv C config budget c (acc c @ accepted_by C c (QE_Enqueue x r)) (srv c) bq1"
    "(\<exists>n. r = Inl (BQ_BudgetExceeded ?d ?n n)) \<longleftrightarrow> unat (limit_of budget ?d) < total_size C (acc ?d) + unat ?n"
    by blast+
qed

lemma dequeue_inv:
  assumes inv: "class_inv C config budget c acc srv bq" and d: "dequeue bq d = (r, bq1)"
  shows "class_inv C config budget c acc (srv @ served_by c (QE_Dequeue d r)) bq1"
proof (cases "iq_items (queue_of bq d)")
  case Nil
  then show ?thesis using d inv by (auto simp: dequeue_eq)
next
  case (Cons x xs)
  let ?b = "(set_queue bq d ((queue_of bq d)\<lparr>iq_items := xs\<rparr>))\<lparr>bq_stats := decrement (bq_stats bq) d\<rparr>"
  have r: "r = Some x"
    and bq1: "bq1 = (if stats_is_full (bq_stats bq) d
                     then ?b\<lparr>bq_backpressure := set_writable (bq_backpressure bq) d (stats_remaining (bq_stats ?b) d)\<rparr>
                     else ?b)"
    using d Cons by (auto simp: dequeue_eq Let_def)
  show ?thesis
  proof (cases "c = d")
    case True
    have "\<not> is_backpressured (bq_backpressure bq1) d"
      using inv True Cons by (auto simp: class_inv_def bq1 stats_is_full_def stats_capacity_def)
    then show ?thesis using inv True Cons by (auto simp: class_inv_def bq1 r)
  next
    case False
    then show ?thesis using inv by (auto simp: class_inv_def bq1 r)
  qed
qed

lemma queue_step_inv:
  assumes inv: "\<And>c. class_inv C config budget c (acc c) (srv c) bq"
    and s: "queue_step C bq call = (ev, bq1)"
  shows "class_inv C config budget c (acc c @ accepted_by C c ev) (srv c @ served_by c ev) bq1"
proof (cases call)
  case (Q_Enqueue x)
  then obtain r where "try_enqueue C bq x = (r, bq1)" "ev = QE_Enqueue x r"
    using s by (auto split: prod.splits)
  then show ?thesis using enqueue_inv(1) [OF inv, of x r bq1] by simp
next
  case (Q_Dequeue d)
  then obtain r where "dequeue bq d = (r, bq1)" "ev = QE_Dequeue d r"
    using s by (auto split: prod.splits)
  then show ?thesis using dequeue_inv [OF inv [of c]] by simp
next
  case Q_Prioritized
  show ?thesis
  proof (cases bq rule: dequeue_prioritized_cases)
    case none
    then show ?thesis using s Q_Prioritized inv [of c] by auto
  next
    case (some d x b)
    then have "ev = QE_Prioritized (Some (d, x))" "bq1 = b" using s Q_Prioritized by auto
    then show ?thesis using dequeue_inv [OF inv [of c] some(1)] by simp
  qed
qed

lemma queue_run_inv:
  assumes "run_trace (queue_step C) bq calls = (evs, bq1)"
    and "\<And>c. class_inv C config budget c (acc c) (srv c) bq"
  shows "class_inv C config budget c (acc c @ accepted C c evs) (srv c @ served c evs) bq1"
  using assms
proof (induction calls arbitrary: bq evs acc srv c)
  case Nil
  then show ?case by (simp add: accepted_def served_def)
next
  case (Cons call calls)
  from run_trace_cons [OF Cons.prems(1)] obtain ev bq2 evs2 where
    s: "queue_step C bq call = (ev, bq2)" "run_trace (queue_step C) bq2 calls = (evs2, bq1)" "evs = ev # evs2" .
  have "class_inv C config budget c ((acc c @ accepted_by C c ev) @ accepted C c evs2)
          ((srv c @ served_by c ev) @ served c evs2) bq1"
    by (rule Cons.IH [OF s(2)]) (rule queue_step_inv [OF Cons.prems(2) s(1)])
  then show ?case by (simp add: s(3) accepted_def served_def)
qed

lemma class_inv_new:
  "class_inv C config (WriteBudget_new a b d) c [] [] (BudgetQueues_new config (WriteBudget_new a b d))"
  by (cases c) (simp_all add: class_inv_def BudgetQueues_new_def WriteBudget_new_def BackpressureSignal_new_def)

section \<open>Properties of the queues\<close>

text \<open>
  (C31) After any sequence of calls the queue of a class holds exactly the accepted writes
  of that class that were not yet served, in order: each write is served once, first come
  first served within its class.  The depth of the statistics is the length of the queue
  and never exceeds the capacity, and a class under back pressure is full.
\<close>

theorem write_queues_fifo:
  assumes "run_trace (queue_step C) (BudgetQueues_new config (WriteBudget_new a b d)) calls = (evs, bq)"
  shows "accepted C c evs = served c evs @ iq_items (queue_of bq c)
         \<and> depth (bq_stats bq) c = length (iq_items (queue_of bq c))
         \<and> depth (bq_stats bq) c \<le> capacity_for config c
         \<and> (is_backpressured (bq_backpressure bq) c \<longrightarrow> depth (bq_stats bq) c = capacity_for config c)"
  using queue_run_inv [OF assms class_inv_new, of c] by (simp add: class_inv_def)

definition pair_classified :: "(WriteClass \<times> u64) classified" where
  "pair_classified = \<lparr>write_class = fst, write_size = snd\<rparr>"

definition demo_config :: QueueConfig where
  "demo_config = \<lparr>critical_capacity = 2, projection_capacity = 1, blob_capacity = 1\<rparr>"

lemmas queue_eval = pair_classified_def demo_config_def BudgetQueues_new_def WriteBudget_new_def
  BackpressureSignal_new_def try_enqueue_eq dequeue_eq dequeue_prioritized_def Let_def set_full_def
  set_writable_def stats_is_full_def stats_capacity_def stats_remaining_def saturating_sub_def

theorem write_queues_fifo_witness:
  "\<exists>bq. run_trace (queue_step pair_classified) (BudgetQueues_new demo_config (WriteBudget_new 9 9 9))
          [Q_Enqueue (BulkBlob, 3), Q_Enqueue (BulkBlob, 4), Q_Enqueue (CriticalControlPlane, 5), Q_Prioritized]
        = ([QE_Enqueue (BulkBlob, 3) (Inr ()), QE_Enqueue (BulkBlob, 4) (Inl (BQ_QueueFull BulkBlob 1 1)),
            QE_Enqueue (CriticalControlPlane, 5) (Inr ()),
            QE_Prioritized (Some (CriticalControlPlane, CriticalControlPlane, 5))], bq)
     \<and> iq_items (queue_of bq BulkBlob) = [(BulkBlob, 3)]
     \<and> depth (bq_stats bq) BulkBlob = length (iq_items (queue_of bq BulkBlob))"
proof -
  obtain bq where run: "run_trace (queue_step pair_classified) (BudgetQueues_new demo_config (WriteBudget_new 9 9 9))
          [Q_Enqueue (BulkBlob, 3), Q_Enqueue (BulkBlob, 4), Q_Enqueue (CriticalControlPlane, 5), Q_Prioritized]
        = ([QE_Enqueue (BulkBlob, 3) (Inr ()), QE_Enqueue (BulkBlob, 4) (Inl (BQ_QueueFull BulkBlob 1 1)),
            QE_Enqueue (CriticalControlPlane, 5) (Inr ()),
            QE_Prioritized (Some (CriticalControlPlane, CriticalControlPlane, 5))], bq)"
    by (simp add: queue_eval)
  show ?thesis
    using run write_queues_fifo [OF run, of BulkBlob]
    by (auto simp: accepted_def served_def pair_classified_def)
qed

text \<open>
  The budget of a class is never returned: over the whole life of the queues the
  sizes of all accepted writes of a class stay within its limit, served or not, and a
  write is refused for the budget exactly when it does not fit into what the earlier
  accepted writes left.  Once the limit is reached every further write is refused.
\<close>

theorem budget_never_returned:
  assumes "run_trace (queue_step C) (BudgetQueues_new config (WriteBudget_new a b d)) calls
             = (pre @ QE_Enqueue x r # post, bq)"
  shows "((\<exists>n. r = Inl (BQ_BudgetExceeded (write_class C x) (write_size C x) n)) \<longleftrightarrow>
            unat (limit_of (WriteBudget_new a b d) (write_class C x))
              < total_size C (accepted C (write_class C x) pre) + unat (write_size C x))
         \<and> total_size C (accepted C c (pre @ QE_Enqueue x r # post)) \<le> unat (limit_of (WriteBudget_new a b d) c)"
proof -
  let ?b = "WriteBudget_new a b d" and ?st = "queue_step C"
  obtain c1 c2 bq1 where s: "run_trace ?st (BudgetQueues_new config ?b) c1 = (pre, bq1)"
    "run_trace ?st bq1 c2 = (QE_Enqueue x r # post, bq)"
    using run_trace_split [OF assms] by blast
  obtain call c3 where "c2 = call # c3" using s(2) by (cases c2) auto
  then obtain bq2 where "?st bq1 call = (QE_Enqueue x r, bq2)" using s(2) by (auto split: prod.splits)
  then have e: "try_enqueue C bq1 x = (r, bq2)" by (cases call) (auto split: prod.splits)
  have inv: "class_inv C config ?b c (accepted C c pre) (served c pre) bq1" for c
    using queue_run_inv [OF s(1) class_inv_new, of c] by simp
  have "class_inv C config ?b c (accepted C c (pre @ QE_Enqueue x r # post))
          (served c (pre @ QE_Enqueue x r # post)) bq"
    using queue_run_inv [OF assms class_inv_new, of c] by simp
  then have "total_size C (accepted C c (pre @ QE_Enqueue x r # post)) \<le> unat (limit_of ?b c)"
    unfolding class_inv_def by blast
  then show ?thesis using enqueue_inv(2) [OF inv e] by blast
qed

theorem budget_never_returned_witness:
  "\<exists>bq. run_trace (queue_step pair_classified) (BudgetQueues_new demo_config (WriteBudget_new 9 9 9))
          [Q_Enqueue (CriticalControlPlane, 5), Q_Dequeue CriticalControlPlane, Q_Enqueue (CriticalControlPlane, 5)]
        = ([QE_Enqueue (CriticalControlPlane, 5) (Inr ()), QE_Dequeue CriticalControlPlane (Some (CriticalControlPlane, 5))]
            @ QE_Enqueue (CriticalControlPlane, 5) (Inl (BQ_BudgetExceeded CriticalControlPlane 5 4)) # [], bq)
     \<and> (9::nat) < 5 + 5"
proof -
  let ?pre = "[QE_Enqueue (CriticalControlPlane, 5) (Inr ()), QE_Dequeue CriticalControlPlane (Some (CriticalControlPlane, 5))]"
  obtain bq where run: "run_trace (queue_step pair_classified) (BudgetQueues_new demo_config (WriteBudget_new 9 9 9))
          [Q_Enqueue (CriticalControlPlane, 5), Q_Dequeue CriticalControlPlane, Q_Enqueue (CriticalControlPlane, 5)]
        = (?pre @ QE_Enqueue (CriticalControlPlane, 5) (Inl (BQ_BudgetExceeded CriticalControlPlane 5 4)) # [], bq)"
    by (simp add: queue_eval)
  show ?thesis
    using run budget_never_returned [OF run, where c = CriticalControlPlane]
    by (auto simp: accepted_def pair_classified_def WriteBudget_new_def)
qed

section \<open>Runs of the saga\<close>

datatype saga_op =
    SO_Stage nat string WriteClass u64
  | SO_Commit string
  | SO_Rollback string
  | SO_Crash

datatype saga_event =
    SV_Stage string "SagaError + StagedWrite"
  | SV_Commit string "SagaError + unit"
  | SV_Rollback string "SagaError + unit"
  | SV_Crash

fun saga_step :: "'k saga_env \<Rightarrow> 'k DurableBudgetSaga \<Rightarrow> saga_op \<Rightarrow> saga_event \<times> 'k DurableBudgetSaga" where
  "saga_step E ds (SO_Stage now k class n) =
     (case stage_write E ds now k class n of (r, ds1) \<Rightarrow> (SV_Stage k r, ds1))"
| "saga_step E ds (SO_Commit k) = (case saga_commit E ds k of (r, ds1) \<Rightarrow> (SV_Commit k r, ds1))"
| "saga_step E ds (SO_Rollback k) = (case saga_rollback E ds k of (r, ds1) \<Rightarrow> (SV_Rollback k r, ds1))"
| "saga_step E ds SO_Crash = (SV_Crash, recover_from_crash ds)"

text \<open>The protocol of one write, as its answers tell it.\<close>

fun protocol_step :: "string \<Rightarrow> SagaStatus option \<Rightarrow> saga_event \<Rightarrow> SagaStatus option" where
  "protocol_step k s (SV_Stage k' (Inr _)) = (if k' = k then Some Saga_Staged else s)"
| "protocol_step k s (SV_Stage k' (Inl (Saga_BudgetReserveFailed _))) =
     (if k' = k then Some Saga_RolledBack else s)"
| "protocol_step k s (SV_Stage k' (Inl _)) = s"
| "protocol_step k s (SV_Commit k' r) = (if k' = k \<and> is_ok r then Some Saga_Committed else s)"
| "protocol_step k s (SV_Rollback k' r) = (if k' = k \<and> is_ok r then Some Saga_RolledBack else s)"
| "protocol_step k s SV_Crash = (if s = Some Saga_Staged then Some Saga_RolledBack else s)"

definition protocol :: "string \<Rightarrow> saga_event list \<Rightarrow> SagaStatus option" where
  "protocol k evs = foldl (protocol_step k) None evs"

definition status_in :: "BudgetManifest \<Rightarrow> string \<Rightarrow> SagaStatus option" where
  "status_in m k = map_option se_status (bm_entries m k)"

fun saga_answer_ok :: "(string \<Rightarrow> SagaStatus option) \<Rightarrow> saga_event \<Rightarrow> bool" where
  "saga_answer_ok s (SV_Stage k r) \<longleftrightarrow> (r = Inl (Saga_AlreadyExists k) \<longleftrightarrow> s k \<noteq> None)"
| "saga_answer_ok s (SV_Commit k r) \<longleftrightarrow> (is_ok r \<longleftrightarrow> s k = Some Saga_Staged)"
| "saga_answer_ok s (SV_Rollback k r) \<longleftrightarrow> (is_ok r \<longleftrightarrow> s k = Some Saga_Staged \<or> s k = Some Saga_Committed)"
| "saga_answer_ok s SV_Crash \<longleftrightarrow> True"

lemma manifest_stage_status:
  assumes "manifest_stage m k class n = (r, m1)"
  shows "(r = Inl (Saga_AlreadyExists k) \<and> m1 = m \<and> status_in m k \<noteq> None)
       \<or> (r = Inr () \<and> status_in m k = None \<and> (\<forall>j. status_in m1 j = (if j = k then Some Saga_Staged else status_in m j)))"
  using assms by (auto simp: manifest_stage_def status_in_def split: if_splits)

lemma manifest_commit_status:
  assumes "manifest_commit m k = (r, m1)"
  shows "is_ok r \<longleftrightarrow> status_in m k = Some Saga_Staged"
    and "status_in m1 j = (if j = k \<and> is_ok r then Some Saga_Committed else status_in m j)"
  using assms by (auto simp: manifest_commit_def status_in_def split: if_splits option.splits)

lemma manifest_rollback_status:
  assumes "manifest_rollback m k = (r, m1)"
  shows "is_ok r \<longleftrightarrow> status_in m k = Some Saga_Staged \<or> status_in m k = Some Saga_Committed"
    and "status_in m1 j = (if j = k \<and> is_ok r then Some Saga_RolledBack else status_in m j)"
  using assms
  by (auto simp: manifest_rollback_def status_in_def intro: SagaStatus.exhaust split: if_splits option.splits)

lemma stage_write_memory:
  assumes ds: "ds_store ds = None" and s: "stage_write E ds now k class n = (r, ds1)"
  shows "ds_store ds1 = None"
    and "status_in (ds_manifest ds1) j = protocol_step j (status_in (ds_manifest ds) j) (SV_Stage k r)"
    and "r = Inl (Saga_AlreadyExists k) \<longleftrightarrow> status_in (ds_manifest ds) k \<noteq> None"
proof -
  let ?m = "ds_manifest ds"
  let ?x = "\<lparr>sw_write_key = k, sw_class = class, sw_size_bytes = n, sw_staged_at = now\<rparr>"
  obtain r1 m1 where m: "manifest_stage ?m k class n = (r1, m1)" by force
  from manifest_stage_status [OF m] consider
    (dup) "r1 = Inl (Saga_AlreadyExists k)" "m1 = ?m" "status_in ?m k \<noteq> None"
  | (new) "r1 = Inr ()" "status_in ?m k = None"
      "\<forall>j. status_in m1 j = (if j = k then Some Saga_Staged else status_in ?m j)" by auto
  then have "ds_store ds1 = None
      \<and> status_in (ds_manifest ds1) j = protocol_step j (status_in ?m j) (SV_Stage k r)
      \<and> (r = Inl (Saga_AlreadyExists k) \<longleftrightarrow> status_in ?m k \<noteq> None)"
  proof cases
    case dup
    then show ?thesis using s m ds by (auto simp: stage_write_def)
  next
    case new
    obtain r2 q2 where q: "try_enqueue staged_classified (ds_queues ds) ?x = (r2, q2)" by force
    show ?thesis
    proof (cases r2)
      case (Inr u)
      then have "r = Inr ?x" "ds1 = ds\<lparr>ds_manifest := m1, ds_queues := q2\<rparr>"
        using s m ds new(1) q by (auto simp: stage_write_def Let_def)
      then show ?thesis using new ds by simp
    next
      case (Inl e)
      obtain r3 m3 where m3: "manifest_rollback m1 k = (r3, m3)" by force
      note rb = manifest_rollback_status [OF m3]
      have "r = Inl (Saga_BudgetReserveFailed (sv_queue_text E e))"
        "ds1 = ds\<lparr>ds_manifest := m3, ds_queues := q2\<rparr>"
        using s m ds new(1) q Inl m3 by (auto simp: stage_write_def Let_def)
      then show ?thesis using new ds rb by simp
    qed
  qed
  then show "ds_store ds1 = None"
    "status_in (ds_manifest ds1) j = protocol_step j (status_in (ds_manifest ds) j) (SV_Stage k r)"
    "r = Inl (Saga_AlreadyExists k) \<longleftrightarrow> status_in (ds_manifest ds) k \<noteq> None" by blast+
qed

lemma saga_step_memory:
  assumes ds: "ds_store ds = None" and s: "saga_step E ds call = (ev, ds1)"
  shows "ds_store ds1 = None
         \<and> status_in (ds_manifest ds1) j = protocol_step j (status_in (ds_manifest ds) j) ev
         \<and> saga_answer_ok (status_in (ds_manifest ds)) ev"
proof (cases call)
  case (SO_Stage now k cl n)
  then obtain r where r: "stage_write E ds now k cl n = (r, ds1)" and ev: "ev = SV_Stage k r"
    using s by (auto split: prod.splits)
  show ?thesis unfolding ev using stage_write_memory [OF ds r] by simp
next
  case (SO_Commit k)
  then obtain r m1 where r: "manifest_commit (ds_manifest ds) k = (r, m1)" and ev: "ev = SV_Commit k r"
    and ds1: "ds1 = ds\<lparr>ds_manifest := m1\<rparr>"
    using s ds by (auto simp: saga_commit_def split: prod.splits)
  show ?thesis using manifest_commit_status [OF r] ds by (auto simp: ev ds1)
next
  case (SO_Rollback k)
  then obtain r where r: "saga_rollback E ds k = (r, ds1)" and ev: "ev = SV_Rollback k r"
    using s by (auto split: prod.splits)
  show ?thesis
  proof (cases "bm_entries (ds_manifest ds) k")
    case None
    then have "r = Inl (Saga_NotFound k)" "ds1 = ds"
      using r by (auto simp: saga_rollback_def get_class_for_key_def)
    then show ?thesis using None ds by (simp add: ev status_in_def)
  next
    case (Some e)
    obtain r1 m1 where m: "manifest_rollback (ds_manifest ds) k = (r1, m1)" by force
    have "r = r1" "ds_store ds1 = None" "ds_manifest ds1 = m1"
      using r Some ds m by (auto simp: saga_rollback_def get_class_for_key_def Let_def)
    then show ?thesis using manifest_rollback_status [OF m] by (auto simp: ev)
  qed
next
  case SO_Crash
  then show ?thesis
    using s ds by (cases "bm_entries (ds_manifest ds) j")
      (auto simp: recover_from_crash_def recover_staged_as_rolled_back_def status_in_def)
qed

lemma saga_run_memory:
  assumes "run_trace (saga_step E) ds calls = (evs, ds1)" and "ds_store ds = None"
  shows "ds_store ds1 = None
         \<and> status_in (ds_manifest ds1) j = foldl (protocol_step j) (status_in (ds_manifest ds) j) evs"
  using assms
proof (induction calls arbitrary: ds evs)
  case (Cons call calls)
  from run_trace_cons [OF Cons.prems(1)] obtain ev ds2 evs2 where
    s: "saga_step E ds call = (ev, ds2)" "run_trace (saga_step E) ds2 calls = (evs2, ds1)" "evs = ev # evs2" .
  have st: "ds_store ds2 = None"
    "status_in (ds_manifest ds2) j = protocol_step j (status_in (ds_manifest ds) j) ev"
    using saga_step_memory [OF Cons.prems(2) s(1), of j] by blast+
  show ?case using Cons.IH [OF s(2) st(1)] by (simp add: s(3) st(2))
qed simp

lemma saga_step_durable:
  assumes "ds_store ds \<noteq> None" and "bm_entries (ds_manifest ds) = Map.empty"
    and s: "saga_step E ds call = (ev, ds1)"
  shows "ds_store ds1 \<noteq> None \<and> bm_entries (ds_manifest ds1) = Map.empty
         \<and> (\<forall>k r. ev = SV_Rollback k r \<longrightarrow> r = Inl (Saga_NotFound k) \<and> ds1 = ds)"
proof (cases call)
  case (SO_Stage now k cl n)
  then show ?thesis using assms
    by (auto simp: stage_write_def Let_def split: prod.splits option.splits sum.splits)
next
  case (SO_Commit k)
  then show ?thesis using assms by (auto simp: saga_commit_def split: prod.splits option.splits)
next
  case (SO_Rollback k)
  then show ?thesis using assms by (auto simp: saga_rollback_def get_class_for_key_def split: prod.splits)
next
  case SO_Crash
  then show ?thesis using assms by (auto simp: recover_from_crash_def recover_staged_as_rolled_back_def)
qed

lemma saga_run_durable:
  assumes "run_trace (saga_step E) ds calls = (evs, ds1)"
    and "ds_store ds \<noteq> None" and "bm_entries (ds_manifest ds) = Map.empty"
  shows "\<forall>k r. SV_Rollback k r \<in> set evs \<longrightarrow> r = Inl (Saga_NotFound k)"
  using assms
proof (induction calls arbitrary: ds evs)
  case (Cons call calls)
  from run_trace_cons [OF Cons.prems(1)] obtain ev ds2 evs2 where
    s: "saga_step E ds call = (ev, ds2)" "run_trace (saga_step E) ds2 calls = (evs2, ds1)" "evs = ev # evs2" .
  note st = saga_step_durable [OF Cons.prems(2,3) s(1)]
  show ?case using Cons.IH [OF s(2)] st by (auto simp: s(3))
qed simp

section \<open>Properties of the saga\<close>

text \<open>
  (C32) A saga without a durable store follows the protocol of each write in every run,
  crashes included: a key is staged at most once, even after its write was refused by the
  queues; a commit succeeds exactly on a staged write; a rollback succeeds exactly on a
  staged or committed one, so that a committed write can still be rolled back; and a
  rolled-back write stays so.
\<close>

theorem saga_follows_protocol:
  fixes E :: "'k saga_env"
  assumes "run_trace (saga_step E) (DurableBudgetSaga_new queues) calls = (pre @ ev # post, ds)"
  shows "(\<forall>k r. ev = SV_Stage k r \<longrightarrow> (r = Inl (Saga_AlreadyExists k) \<longleftrightarrow> protocol k pre \<noteq> None))
         \<and> (\<forall>k r. ev = SV_Commit k r \<longrightarrow> (is_ok r \<longleftrightarrow> protocol k pre = Some Saga_Staged))
         \<and> (\<forall>k r. ev = SV_Rollback k r \<longrightarrow>
              (is_ok r \<longleftrightarrow> protocol k pre = Some Saga_Staged \<or> protocol k pre = Some Saga_Committed))
         \<and> (\<forall>k. status_in (ds_manifest ds) k = protocol k (pre @ ev # post))"
proof -
  let ?ds = "DurableBudgetSaga_new queues :: 'k DurableBudgetSaga"
  have n: "ds_store ?ds = None" "status_in (ds_manifest ?ds) k = None" for k
    by (simp_all add: DurableBudgetSaga_new_def BudgetManifest_default_def status_in_def)
  obtain c1 c2 ds1 where s: "run_trace (saga_step E) ?ds c1 = (pre, ds1)"
    "run_trace (saga_step E) ds1 c2 = (ev # post, ds)"
    using run_trace_split [OF assms] by blast
  obtain call c3 where "c2 = call # c3" using s(2) by (cases c2) auto
  then obtain ds2 where ev: "saga_step E ds1 call = (ev, ds2)" using s(2) by (auto split: prod.splits)
  have p: "ds_store ds1 = None" "status_in (ds_manifest ds1) k = protocol k pre" for k
    using saga_run_memory [OF s(1) n(1), of k] n(2) by (simp_all add: protocol_def)
  have "saga_answer_ok (status_in (ds_manifest ds1)) ev"
    using saga_step_memory [OF p(1) ev] by blast
  moreover have "status_in (ds_manifest ds) k = protocol k (pre @ ev # post)" for k
    using saga_run_memory [OF assms n(1), of k] n(2) by (simp add: protocol_def)
  ultimately show ?thesis using p(2) by auto
qed

definition demo_saga_env :: "(bytes, bytes) RBT.rbt saga_env" where
  "demo_saga_env =
     \<lparr>sv_keyspace = demo_keyspace, sv_fjall_text = [], sv_to_vec = (\<lambda>e. Inr []),
      sv_from_slice = (\<lambda>b. Inl []), sv_queue_text = (\<lambda>e. [])\<rparr>"

definition demo_queues :: "StagedWrite BudgetQueues" where
  "demo_queues = BudgetQueues_new demo_config (WriteBudget_new 9 9 9)"

lemmas saga_eval = demo_queues_def stage_write_def saga_commit_def saga_rollback_def manifest_stage_def
  manifest_commit_def manifest_rollback_def get_class_for_key_def staged_classified_def
  DurableBudgetSaga_new_def BudgetManifest_default_def

theorem saga_follows_protocol_witness:
  "\<exists>ds. run_trace (saga_step demo_saga_env) (DurableBudgetSaga_new demo_queues)
          [SO_Stage 1 ''a'' BulkBlob 3, SO_Commit ''a'', SO_Rollback ''a'']
        = ([SV_Stage ''a'' (Inr \<lparr>sw_write_key = ''a'', sw_class = BulkBlob, sw_size_bytes = 3, sw_staged_at = 1\<rparr>),
            SV_Commit ''a'' (Inr ())] @ SV_Rollback ''a'' (Inr ()) # [], ds)
     \<and> status_in (ds_manifest ds) ''a'' = Some Saga_RolledBack"
proof -
  let ?pre = "[SV_Stage ''a'' (Inr \<lparr>sw_write_key = ''a'', sw_class = BulkBlob, sw_size_bytes = 3, sw_staged_at = 1\<rparr>),
            SV_Commit ''a'' (Inr ())]"
  obtain ds where run: "run_trace (saga_step demo_saga_env) (DurableBudgetSaga_new demo_queues)
          [SO_Stage 1 ''a'' BulkBlob 3, SO_Commit ''a'', SO_Rollback ''a'']
        = (?pre @ SV_Rollback ''a'' (Inr ()) # [], ds)"
    by (simp add: saga_eval queue_eval)
  have "status_in (ds_manifest ds) ''a'' = protocol ''a'' (?pre @ SV_Rollback ''a'' (Inr ()) # [])"
    using saga_follows_protocol [OF run] by blast
  then show ?thesis using run by (simp add: protocol_def)
qed

text \<open>
  With a durable store no write can be rolled back: the class of the write is looked
  up in the manifest in memory, which the durable path never fills, so every rollback in
  every run is answered with \<open>NotFound\<close>, whatever was staged or committed before.
\<close>

theorem durable_rollback_never:
  assumes "run_trace (saga_step E) (DurableBudgetSaga_open part queues) calls = (evs, ds)"
    and "SV_Rollback k r \<in> set evs"
  shows "r = Inl (Saga_NotFound k)"
  using saga_run_durable [OF assms(1)] assms(2)
  by (simp add: DurableBudgetSaga_open_def BudgetManifest_default_def)

theorem durable_rollback_never_witness:
  "\<exists>ds. run_trace (saga_step demo_saga_env) (DurableBudgetSaga_open RBT.empty demo_queues)
          [SO_Stage 1 ''a'' BulkBlob 3, SO_Rollback ''a'']
        = ([SV_Stage ''a'' (Inr \<lparr>sw_write_key = ''a'', sw_class = BulkBlob, sw_size_bytes = 3, sw_staged_at = 1\<rparr>),
            SV_Rollback ''a'' (Inl (Saga_NotFound ''a''))], ds)"
proof -
  obtain r ds where run: "run_trace (saga_step demo_saga_env) (DurableBudgetSaga_open RBT.empty demo_queues)
          [SO_Stage 1 ''a'' BulkBlob 3, SO_Rollback ''a'']
        = ([SV_Stage ''a'' (Inr \<lparr>sw_write_key = ''a'', sw_class = BulkBlob, sw_size_bytes = 3, sw_staged_at = 1\<rparr>),
            SV_Rollback ''a'' r], ds)"
    by (simp add: saga_eval queue_eval DurableBudgetSaga_open_def demo_saga_env_def demo_keyspace_def
        stage_entry_def read_entry_def put_entry_def)
  have "r = Inl (Saga_NotFound ''a'')" by (rule durable_rollback_never [OF run]) simp
  then show ?thesis using run by blast
qed

text \<open>
  A rollback takes the wrong write off its queue: after two writes of one class are
  staged, rolling the second one back removes the first from the queue; the rolled-back
  write stays queued and the staged one is lost.
\<close>

theorem rollback_drops_oldest:
  assumes "iq_items (queue_of queues c) = []" and "k1 \<noteq> k2"
    and s1: "stage_write E (DurableBudgetSaga_new queues) t1 k1 c n1 = (Inr w1, ds1)"
    and s2: "stage_write E ds1 t2 k2 c n2 = (Inr w2, ds2)"
    and rb: "saga_rollback E ds2 k2 = (r, ds3)"
  shows "r = Inr () \<and> iq_items (queue_of (ds_queues ds3) c) = [w2]
         \<and> status_in (ds_manifest ds3) k1 = Some Saga_Staged
         \<and> status_in (ds_manifest ds3) k2 = Some Saga_RolledBack"
proof -
  have stage: "ds_store ds' = None \<and> bm_entries (ds_manifest ds') = (bm_entries (ds_manifest ds))(k \<mapsto>
         \<lparr>se_write_key = k, se_class = c, se_size_bytes = n, se_status = Saga_Staged\<rparr>)
       \<and> iq_items (queue_of (ds_queues ds') c) = iq_items (queue_of (ds_queues ds) c) @ [w]"
    if "ds_store ds = None" "stage_write E ds t k c n = (Inr w, ds')" for ds ds' t k n w
    using that
    by (auto simp: stage_write_def manifest_stage_def Let_def try_enqueue_eq staged_classified_def
        split: if_splits prod.splits sum.splits)
  have a: "ds_store ds1 = None" "bm_entries (ds_manifest ds1) = [k1 \<mapsto>
         \<lparr>se_write_key = k1, se_class = c, se_size_bytes = n1, se_status = Saga_Staged\<rparr>]"
    "iq_items (queue_of (ds_queues ds1) c) = [w1]"
    using stage [OF _ s1] assms(1) by (simp_all add: DurableBudgetSaga_new_def BudgetManifest_default_def)
  note b = stage [OF a(1) s2, unfolded a]
  obtain d q where "dequeue (ds_queues ds2) c = (Some w1, q)" "iq_items (queue_of q c) = [w2]"
    using b by (auto simp: dequeue_eq Let_def)
  then show ?thesis
    using rb b assms(2)
    by (auto simp: saga_rollback_def get_class_for_key_def manifest_rollback_def status_in_def Let_def)
qed

theorem rollback_drops_oldest_witness:
  "\<exists>ds1 ds2 ds3 w1 w2. stage_write demo_saga_env (DurableBudgetSaga_new demo_queues) 1 ''a'' CriticalControlPlane 3 = (Inr w1, ds1)
     \<and> stage_write demo_saga_env ds1 2 ''b'' CriticalControlPlane 4 = (Inr w2, ds2)
     \<and> saga_rollback demo_saga_env ds2 ''b'' = (Inr (), ds3)
     \<and> sw_write_key w2 = ''b'' \<and> iq_items (queue_of (ds_queues ds3) CriticalControlPlane) = [w2]"
proof -
  obtain w1 ds1 where s1: "stage_write demo_saga_env (DurableBudgetSaga_new demo_queues) 1 ''a'' CriticalControlPlane 3 = (Inr w1, ds1)"
    by (simp add: saga_eval queue_eval)
  then obtain w2 ds2 where s2: "stage_write demo_saga_env ds1 2 ''b'' CriticalControlPlane 4 = (Inr w2, ds2)"
    and w2: "sw_write_key w2 = ''b''"
    by (auto simp: saga_eval queue_eval)
  obtain r ds3 where rb: "saga_rollback demo_saga_env ds2 ''b'' = (r, ds3)" by force
  have "iq_items (queue_of demo_queues CriticalControlPlane) = []" by (simp add: demo_queues_def queue_eval)
  from rollback_drops_oldest [OF this _ s1 s2 rb] show ?thesis using s1 s2 rb w2 by auto
qed

end
