(* ===== verification/Red_Black_Tree.thy ===== *)
theory Red_Black_Tree
  imports Prelude
begin

text \<open>
  The ordered map of vo-core/src/red_black_tree (node.rs, tree.rs): a left-leaning
  red-black tree.  \<open>Option<Box<Node>>\<close> is a tree whose empty case is \<open>Leaf\<close>; the rotations
  panic on a missing child, so the operations return an option.  The lemmas show that
  insertion, lookup, iteration and range queries are correct and keep the tree balanced,
  and that removal loses entries.
\<close>

section \<open>Nodes\<close>

datatype Color = Red | Black

datatype ('k, 'v) Node =
    Leaf
  | Node (n_key: 'k) (n_value: 'v) (n_color: Color) (n_left: "('k, 'v) Node") (n_right: "('k, 'v) Node")

definition Node_new :: "'k \<Rightarrow> 'v \<Rightarrow> ('k, 'v) Node" where
  "Node_new key val = Node key val Red Leaf Leaf"

fun is_red :: "('k, 'v) Node \<Rightarrow> bool" where
  "is_red Leaf = False"
| "is_red (Node _ _ c _ _) = (c = Red)"

fun toggle :: "('k, 'v) Node \<Rightarrow> ('k, 'v) Node" where
  "toggle Leaf = Leaf"
| "toggle (Node k v c l r) = Node k v (if c = Red then Black else Red) l r"

fun flip :: "('k, 'v) Node \<Rightarrow> ('k, 'v) Node" where
  "flip Leaf = Leaf"
| "flip (Node k v c l r) = Node k v (if c = Red then Black else Red) (toggle l) (toggle r)"

fun rotate_left :: "('k, 'v) Node \<Rightarrow> ('k, 'v) Node option" where
  "rotate_left (Node k v c l (Node xk xv xc xl xr)) = Some (Node xk xv c (Node k v Red l xl) xr)"
| "rotate_left _ = None"

fun rotate_right :: "('k, 'v) Node \<Rightarrow> ('k, 'v) Node option" where
  "rotate_right (Node k v c (Node xk xv xc xl xr) r) = Some (Node xk xv c xl (Node k v Red xr r))"
| "rotate_right _ = None"

fun left_of :: "('k, 'v) Node \<Rightarrow> ('k, 'v) Node" where
  "left_of Leaf = Leaf"
| "left_of (Node _ _ _ l _) = l"

fun right_of :: "('k, 'v) Node \<Rightarrow> ('k, 'v) Node" where
  "right_of Leaf = Leaf"
| "right_of (Node _ _ _ _ r) = r"

definition is_red_left_left :: "('k, 'v) Node \<Rightarrow> bool" where
  "is_red_left_left n = is_red (left_of (left_of n))"

definition is_red_right_right :: "('k, 'v) Node \<Rightarrow> bool" where
  "is_red_right_right n = is_red (right_of (right_of n))"

definition is_red_right_left :: "('k, 'v) Node \<Rightarrow> bool" where
  "is_red_right_left n = is_red (left_of (right_of n))"

definition fix_up :: "('k, 'v) Node \<Rightarrow> ('k, 'v) Node option" where
  "fix_up h =
     Option.bind (if is_red (right_of h) \<and> \<not> is_red (left_of h) then rotate_left h else Some h) (\<lambda>n1.
     Option.bind (if is_red (left_of n1) \<and> is_red_left_left n1 then rotate_right n1 else Some n1) (\<lambda>n2.
     Some (if is_red (left_of n2) \<and> is_red (right_of n2) then flip n2 else n2)))"

fun set_right :: "('k, 'v) Node \<Rightarrow> ('k, 'v) Node \<Rightarrow> ('k, 'v) Node" where
  "set_right Leaf x = Leaf"
| "set_right (Node k v c l r) x = Node k v c l x"

fun set_left :: "('k, 'v) Node \<Rightarrow> ('k, 'v) Node \<Rightarrow> ('k, 'v) Node" where
  "set_left Leaf x = Leaf"
| "set_left (Node k v c l r) x = Node k v c x r"

definition move_red_left :: "('k, 'v) Node \<Rightarrow> ('k, 'v) Node option" where
  "move_red_left h =
     (let n = flip h in
      if is_red_right_right n
      then Option.bind (rotate_left (right_of n)) (\<lambda>x.
           Option.bind (rotate_right (set_right n x)) (\<lambda>n1. Some (flip n1)))
      else Some n)"

definition move_red_right :: "('k, 'v) Node \<Rightarrow> ('k, 'v) Node option" where
  "move_red_right h =
     (let n = flip h in
      if is_red_left_left n then Option.bind (rotate_right n) (\<lambda>n1. Some (flip n1)) else Some n)"

fun min_node :: "('k, 'v) Node \<Rightarrow> ('k \<times> 'v) option" where
  "min_node Leaf = None"
| "min_node (Node k v c l r) = (if l = Leaf then Some (k, v) else min_node l)"

fun max_node :: "('k, 'v) Node \<Rightarrow> ('k \<times> 'v) option" where
  "max_node Leaf = None"
| "max_node (Node k v c l r) = (if r = Leaf then Some (k, v) else max_node r)"

fun collect_inorder :: "('k, 'v) Node \<Rightarrow> ('k \<times> 'v) list \<Rightarrow> ('k \<times> 'v) list" where
  "collect_inorder Leaf acc = acc"
| "collect_inorder (Node k v c l r) acc = collect_inorder r (collect_inorder l acc @ [(k, v)])"

fun collect_range ::
  "('k::linorder, 'v) Node \<Rightarrow> ('k \<times> 'v) list \<Rightarrow> 'k option \<Rightarrow> 'k option \<Rightarrow> ('k \<times> 'v) list" where
  "collect_range Leaf acc lo hi = acc"
| "collect_range (Node k v c l r) acc lo hi =
     (let above = (case lo of None \<Rightarrow> True | Some b \<Rightarrow> b < k);
          from_lo = (case lo of None \<Rightarrow> True | Some b \<Rightarrow> b \<le> k);
          below = (case hi of None \<Rightarrow> True | Some b \<Rightarrow> k < b);
          acc1 = (if above then collect_range l acc lo hi else acc);
          acc2 = (if from_lo \<and> below then acc1 @ [(k, v)] else acc1)
      in if below then collect_range r acc2 lo hi else acc2)"

section \<open>The tree\<close>

record ('k, 'v) RedBlackTree =
  rb_root :: "('k, 'v) Node"
  rb_len :: nat

definition rb_new :: "('k, 'v) RedBlackTree" where
  "rb_new = \<lparr>rb_root = Leaf, rb_len = 0\<rparr>"

definition rb_clear :: "('k, 'v) RedBlackTree \<Rightarrow> ('k, 'v) RedBlackTree" where
  "rb_clear t = t\<lparr>rb_root := Leaf, rb_len := 0\<rparr>"

fun node_get :: "('k::linorder, 'v) Node \<Rightarrow> 'k \<Rightarrow> 'v option" where
  "node_get Leaf key = None"
| "node_get (Node k v c l r) key =
     (if k = key then Some v else if k < key then node_get r key else node_get l key)"

definition rb_get :: "('k::linorder, 'v) RedBlackTree \<Rightarrow> 'k \<Rightarrow> 'v option" where
  "rb_get t key = node_get (rb_root t) key"

definition rb_contains :: "('k::linorder, 'v) RedBlackTree \<Rightarrow> 'k \<Rightarrow> bool" where
  "rb_contains t key \<longleftrightarrow> rb_get t key \<noteq> None"

fun ins :: "('k::linorder, 'v) Node \<Rightarrow> 'k \<Rightarrow> 'v \<Rightarrow> ('k, 'v) Node option" where
  "ins Leaf key val = Some (Node_new key val)"
| "ins (Node k v c l r) key val =
     Option.bind
       (if k = key then Some (Node k val c l r)
        else if k < key then map_option (Node k v c l) (ins r key val)
        else map_option (\<lambda>l1. Node k v c l1 r) (ins l key val))
       fix_up"

fun blacken :: "('k, 'v) Node \<Rightarrow> ('k, 'v) Node" where
  "blacken Leaf = Leaf"
| "blacken (Node k v c l r) = Node k v Black l r"

definition rb_insert ::
  "('k::linorder, 'v) RedBlackTree \<Rightarrow> 'k \<Rightarrow> 'v \<Rightarrow> ('k, 'v) RedBlackTree option" where
  "rb_insert t key val =
     (let dup = rb_contains t key in
      map_option (\<lambda>h. \<lparr>rb_root = blacken h, rb_len = (if dup then rb_len t else rb_len t + 1)\<rparr>)
        (ins (rb_root t) key val))"

text \<open>Rearranging a node keeps its number of entries.\<close>

lemma size_toggle [simp]: "size (toggle n) = size n"
  by (cases n) simp_all

lemma size_flip [simp]: "size (flip n) = size n"
  by (cases n) simp_all

lemma size_rotate_left: "rotate_left n = Some m \<Longrightarrow> size m = size n"
  by (cases n rule: rotate_left.cases) auto

lemma size_rotate_right: "rotate_right n = Some m \<Longrightarrow> size m = size n"
  by (cases n rule: rotate_right.cases) auto

lemma size_set_right: "n \<noteq> Leaf \<Longrightarrow> size x = size (right_of n) \<Longrightarrow> size (set_right n x) = size n"
  by (cases n) auto

lemma size_move_red_left: "move_red_left n = Some m \<Longrightarrow> size m = size n"
  unfolding move_red_left_def Let_def
  by (auto split: if_splits bind_splits dest!: size_rotate_left size_rotate_right)
    (cases n; auto)

lemma size_move_red_right: "move_red_right n = Some m \<Longrightarrow> size m = size n"
  unfolding move_red_right_def Let_def
  by (auto split: if_splits bind_splits dest!: size_rotate_right)

lemma size_left_of: "n \<noteq> Leaf \<Longrightarrow> size (left_of n) < size n"
  by (cases n) auto

lemma size_right_of: "n \<noteq> Leaf \<Longrightarrow> size (right_of n) < size n"
  by (cases n) auto

text \<open>
  Removal.  \<open>Some Leaf\<close> is the value \<open>None\<close> of the source; the two \<open>?\<close> of \<open>del\<close> return it.
\<close>

function del_min :: "('k, 'v) Node \<Rightarrow> ('k, 'v) Node option" where
  "del_min h =
     (if left_of h = Leaf then Some Leaf
      else
        Option.bind (if \<not> is_red (left_of h) \<and> \<not> is_red_left_left h then move_red_left h else Some h) (\<lambda>h1.
        if h1 = Leaf then None
        else Option.bind (del_min (left_of h1)) (\<lambda>l. fix_up (set_left h1 l))))"
  by pat_completeness auto
termination
proof (relation "measure size", simp)
  fix h h1 :: "('k, 'v) Node"
  assume "(if \<not> is_red (left_of h) \<and> \<not> is_red_left_left h then move_red_left h else Some h) = Some h1"
    and "h1 \<noteq> Leaf"
  then show "(left_of h1, h) \<in> measure size"
    using size_left_of [of h1] by (auto dest: size_move_red_left split: if_splits)
qed

function del :: "('k::linorder, 'v) Node \<Rightarrow> 'k \<Rightarrow> ('k, 'v) Node option" where
  "del Leaf key = Some Leaf"
| "del (Node k v c l r) key =
     (let h = Node k v c l r in
      if key < k then
        Option.bind (if \<not> is_red (left_of h) \<and> \<not> is_red_left_left h then move_red_left h else Some h) (\<lambda>h1.
        if h1 = Leaf then None
        else Option.bind (del (left_of h1) key) (\<lambda>l1. fix_up (set_left h1 l1)))
      else
        Option.bind (if is_red (left_of h) then rotate_right h else Some h) (\<lambda>h1.
        if h1 = Leaf then None
        else if key = n_key h1 \<and> right_of h1 = Leaf then Some Leaf
        else
          Option.bind (if \<not> is_red (right_of h1) \<and> \<not> is_red_right_left h1 then move_red_right h1 else Some h1) (\<lambda>h2.
          if h2 = Leaf then None
          else if key = n_key h2 then
            (case min_node (right_of h2) of
               None \<Rightarrow> Some Leaf
             | Some (sk, sv) \<Rightarrow>
                 Option.bind (del_min (right_of h2)) (\<lambda>r1.
                 if r1 = Leaf then Some Leaf
                 else fix_up (Node sk sv (n_color h2) (left_of h2) r1)))
          else Option.bind (del (right_of h2) key) (\<lambda>r1. fix_up (set_right h2 r1)))))"
  by pat_completeness auto
termination
proof (relation "measure (size \<circ> fst)")
  fix k key :: 'k and v :: 'v and c l r h h1
  assume "h = Node k v c l r"
    and "(if \<not> is_red (left_of h) \<and> \<not> is_red_left_left h then move_red_left h else Some h) = Some h1"
    and "h1 \<noteq> Leaf"
  then show "((left_of h1, key), Node k v c l r, key) \<in> measure (size \<circ> fst)"
    using size_left_of [of h1] by (auto dest!: size_move_red_left split: if_splits)
next
  fix k key :: 'k and v :: 'v and c l r h h1 h2
  assume "h = Node k v c l r"
    and "(if is_red (left_of h) then rotate_right h else Some h) = Some h1"
    and "(if \<not> is_red (right_of h1) \<and> \<not> is_red_right_left h1 then move_red_right h1 else Some h1) = Some h2"
    and "h2 \<noteq> Leaf"
  then show "((right_of h2, key), Node k v c l r, key) \<in> measure (size \<circ> fst)"
    using size_right_of [of h2] by (auto dest!: size_rotate_right size_move_red_right split: if_splits)
qed simp

declare del_min.simps [simp del] del.simps [simp del]

definition rb_remove :: "('k::linorder, 'v) RedBlackTree \<Rightarrow> 'k \<Rightarrow> (bool \<times> ('k, 'v) RedBlackTree) option" where
  "rb_remove t key =
     (if \<not> rb_contains t key then Some (False, t)
      else map_option (\<lambda>h. (True, \<lparr>rb_root = blacken h, rb_len = rb_len t - 1\<rparr>)) (del (rb_root t) key))"

definition rb_iter :: "('k, 'v) RedBlackTree \<Rightarrow> ('k \<times> 'v) list" where
  "rb_iter t = collect_inorder (rb_root t) []"

definition rb_range ::
  "('k::linorder, 'v) RedBlackTree \<Rightarrow> 'k option \<Rightarrow> 'k option \<Rightarrow> ('k \<times> 'v) list" where
  "rb_range t lo hi = collect_range (rb_root t) [] lo hi"

definition rb_minimum :: "('k, 'v) RedBlackTree \<Rightarrow> ('k \<times> 'v) option" where
  "rb_minimum t = min_node (rb_root t)"

definition rb_maximum :: "('k, 'v) RedBlackTree \<Rightarrow> ('k \<times> 'v) option" where
  "rb_maximum t = max_node (rb_root t)"

fun rb_extend ::
  "('k::linorder, 'v) RedBlackTree \<Rightarrow> ('k \<times> 'v) list \<Rightarrow> ('k, 'v) RedBlackTree option" where
  "rb_extend t [] = Some t"
| "rb_extend t ((k, v) # kvs) = Option.bind (rb_insert t k v) (\<lambda>t1. rb_extend t1 kvs)"

definition rb_from_iter :: "('k::linorder \<times> 'v) list \<Rightarrow> ('k, 'v) RedBlackTree option" where
  "rb_from_iter kvs = rb_extend rb_new kvs"

section \<open>Order\<close>

fun inorder :: "('k, 'v) Node \<Rightarrow> ('k \<times> 'v) list" where
  "inorder Leaf = []"
| "inorder (Node k v c l r) = inorder l @ (k, v) # inorder r"

abbreviation ascending :: "('k::linorder \<times> 'v) list \<Rightarrow> bool" where
  "ascending xs \<equiv> sorted_wrt (<) (map fst xs)"

text \<open>What an insertion means for the entries.\<close>

fun put_sorted :: "'k::linorder \<Rightarrow> 'v \<Rightarrow> ('k \<times> 'v) list \<Rightarrow> ('k \<times> 'v) list" where
  "put_sorted key val [] = [(key, val)]"
| "put_sorted key val ((k, v) # xs) =
     (if key < k then (key, val) # (k, v) # xs
      else if key = k then (key, val) # xs else (k, v) # put_sorted key val xs)"

lemma put_sorted_keys: "fst ` set (put_sorted key val xs) = insert key (fst ` set xs)"
  by (induction xs rule: put_sorted.induct) auto

lemma put_sorted_ascending: "ascending xs \<Longrightarrow> ascending (put_sorted key val xs)"
proof (induction key val xs rule: put_sorted.induct)
  case (2 key val k v xs)
  have "k < x" if "key > k" "x \<in> fst ` set (put_sorted key val xs)" for x
    using that 2 by (auto simp: put_sorted_keys)
  then show ?case using 2 by (auto simp flip: set_map)
qed simp

lemma put_sorted_map: "map_of (put_sorted key val xs) = (map_of xs)(key \<mapsto> val)" if "ascending xs"
  using that
proof (induction key val xs rule: put_sorted.induct)
  case (2 key val k v xs)
  then show ?case by (auto simp: fun_eq_iff)
qed auto

lemma put_sorted_length:
  "ascending xs \<Longrightarrow> length (put_sorted key val xs) = (if map_of xs key = None then length xs + 1 else length xs)"
proof (induction key val xs rule: put_sorted.induct)
  case (2 key val k v xs)
  have "map_of xs key = None" if "key < k"
  proof -
    have "\<forall>x \<in> fst ` set xs. k < x" using 2(2) by simp
    then have "key \<notin> fst ` set xs" using that by fastforce
    then show ?thesis by (simp add: map_of_eq_None_iff)
  qed
  then show ?case using 2 by auto
qed simp

lemma put_sorted_append:
  assumes "ascending (xs @ (k, v) # ys)"
  shows "key < k \<Longrightarrow> put_sorted key val (xs @ (k, v) # ys) = put_sorted key val xs @ (k, v) # ys"
    and "key = k \<Longrightarrow> put_sorted key val (xs @ (k, v) # ys) = xs @ (k, val) # ys"
    and "k < key \<Longrightarrow> put_sorted key val (xs @ (k, v) # ys) = xs @ (k, v) # put_sorted key val ys"
  using assms by (induction key val xs rule: put_sorted.induct) auto

lemma inorder_toggle [simp]: "inorder (toggle n) = inorder n"
  by (cases n) simp_all

lemma inorder_flip [simp]: "inorder (flip n) = inorder n"
  by (cases n) simp_all

lemma inorder_blacken [simp]: "inorder (blacken n) = inorder n"
  by (cases n) simp_all

lemma inorder_rotate_left: "rotate_left n = Some m \<Longrightarrow> inorder m = inorder n"
  by (cases n rule: rotate_left.cases) auto

lemma inorder_rotate_right: "rotate_right n = Some m \<Longrightarrow> inorder m = inorder n"
  by (cases n rule: rotate_right.cases) auto

text \<open>The rotations of \<open>fix_up\<close> are guarded by a red child, so it never panics.\<close>

lemma rotate_left_total: "is_red (right_of n) \<Longrightarrow> \<exists>m. rotate_left n = Some m"
  by (cases n rule: rotate_left.cases) auto

lemma rotate_right_total: "is_red (left_of n) \<Longrightarrow> \<exists>m. rotate_right n = Some m"
  by (cases n rule: rotate_right.cases) auto

lemma fix_up_total: "\<exists>m. fix_up n = Some m \<and> inorder m = inorder n"
proof -
  obtain n1 where n1: "(if is_red (right_of n) \<and> \<not> is_red (left_of n) then rotate_left n else Some n) = Some n1"
    "inorder n1 = inorder n"
    using rotate_left_total [of n] inorder_rotate_left [of n]
    by (cases "is_red (right_of n) \<and> \<not> is_red (left_of n)") auto
  obtain n2 where n2: "(if is_red (left_of n1) \<and> is_red_left_left n1 then rotate_right n1 else Some n1) = Some n2"
    "inorder n2 = inorder n1"
    using rotate_right_total [of n1] inorder_rotate_right [of n1]
    by (cases "is_red (left_of n1) \<and> is_red_left_left n1") auto
  show ?thesis using n1 n2 by (simp add: fix_up_def)
qed

lemma ins_inorder:
  "ascending (inorder t) \<Longrightarrow> \<exists>t'. ins t key val = Some t' \<and> inorder t' = put_sorted key val (inorder t)"
proof (induction t)
  case Leaf
  then show ?case by (simp add: Node_new_def)
next
  case (Node k v c l r)
  note a = put_sorted_append [OF Node.prems [unfolded inorder.simps], of key val]
  have lr: "ascending (inorder l)" "ascending (inorder r)" using Node.prems by (auto simp: sorted_wrt_append)
  obtain l' where l': "ins l key val = Some l'" "inorder l' = put_sorted key val (inorder l)"
    using Node.IH(1) lr by blast
  obtain r' where r': "ins r key val = Some r'" "inorder r' = put_sorted key val (inorder r)"
    using Node.IH(2) lr by blast
  consider "key < k" | "key = k" | "k < key" by fastforce
  then show ?case
  proof cases
    case 1
    then show ?thesis using a(1) l' fix_up_total [of "Node k v c l' r"] by auto
  next
    case 2
    then show ?thesis using a(2) fix_up_total [of "Node k val c l r"] by auto
  next
    case 3
    then show ?thesis using a(3) r' fix_up_total [of "Node k v c l r'"] by auto
  qed
qed

lemma node_get_map: "ascending (inorder t) \<Longrightarrow> node_get t key = map_of (inorder t) key"
proof (induction t)
  case (Node k v c l r)
  have lr: "ascending (inorder l)" "ascending (inorder r)" using Node.prems by (auto simp: sorted_wrt_append)
  have lk: "x < k" if "x \<in> fst ` set (inorder l)" for x
    using Node.prems that by (auto simp: sorted_wrt_append)
  have rk: "k < x" if "x \<in> fst ` set (inorder r)" for x
    using Node.prems that by (auto simp: sorted_wrt_append)
  have "map_of (inorder l) key = None" if "k \<le> key"
    using lk that leD unfolding map_of_eq_None_iff by blast
  moreover have "map_of (inorder r) key = None" if "key \<le> k"
    using rk that leD unfolding map_of_eq_None_iff by blast
  ultimately show ?case using Node.IH lr by (auto simp: map_add_def split: option.splits)
qed simp

lemma collect_inorder_eq: "collect_inorder t acc = acc @ inorder t"
  by (induction t arbitrary: acc) simp_all

lemma collect_range_eq:
  assumes "ascending (inorder t)"
  shows "collect_range t acc lo hi =
           acc @ filter (\<lambda>(k, _). (case lo of None \<Rightarrow> True | Some b \<Rightarrow> b \<le> k)
                                \<and> (case hi of None \<Rightarrow> True | Some b \<Rightarrow> k < b)) (inorder t)"
  using assms
proof (induction t arbitrary: acc)
  case (Node k v c l r)
  let ?lo = "\<lambda>k. case lo of None \<Rightarrow> True | Some b \<Rightarrow> b \<le> k"
  let ?hi = "\<lambda>k. case hi of None \<Rightarrow> True | Some b \<Rightarrow> k < b"
  let ?p = "\<lambda>(k, _). ?lo k \<and> ?hi k"
  have lr: "ascending (inorder l)" "ascending (inorder r)" using Node.prems by (auto simp: sorted_wrt_append)
  have lk: "fst x < k" if "x \<in> set (inorder l)" for x
    using Node.prems that by (auto simp: sorted_wrt_append)
  have rk: "k < fst x" if "x \<in> set (inorder r)" for x
    using Node.prems that by (auto simp: sorted_wrt_append)
  have l_empty: "filter ?p (inorder l) = []" if "\<not> (case lo of None \<Rightarrow> True | Some b \<Rightarrow> b < k)"
    using lk that by (fastforce simp: filter_empty_conv split: option.splits)
  have r_empty: "filter ?p (inorder r) = []" if "\<not> ?hi k"
    using rk that by (fastforce simp: filter_empty_conv split: option.splits)
  show ?case
    using Node.IH(1) [OF lr(1)] Node.IH(2) [OF lr(2)] l_empty r_empty
    by (simp add: Let_def)
qed simp

section \<open>Balance\<close>

fun leaning :: "('k, 'v) Node \<Rightarrow> bool" where
  "leaning Leaf = True"
| "leaning (Node k v c l r) \<longleftrightarrow>
     leaning l \<and> leaning r \<and> \<not> is_red r \<and> (c = Red \<longrightarrow> \<not> is_red l)"

fun black_height :: "('k, 'v) Node \<Rightarrow> nat" where
  "black_height Leaf = 0"
| "black_height (Node k v c l r) = black_height l + (if c = Black then 1 else 0)"

fun balanced :: "('k, 'v) Node \<Rightarrow> bool" where
  "balanced Leaf = True"
| "balanced (Node k v c l r) \<longleftrightarrow> balanced l \<and> balanced r \<and> black_height l = black_height r"

text \<open>A node that may have a red left child although it is red itself.\<close>

fun nearly :: "('k, 'v) Node \<Rightarrow> bool" where
  "nearly Leaf = True"
| "nearly (Node k v c l r) \<longleftrightarrow> leaning l \<and> leaning r \<and> \<not> is_red r"

lemma leaning_nearly: "leaning t \<Longrightarrow> nearly t"
  by (cases t) simp_all

lemma nearly_black: "nearly t \<Longrightarrow> \<not> is_red t \<Longrightarrow> leaning t"
  by (cases t) auto

lemma Color_not [simp]: "c \<noteq> Red \<longleftrightarrow> c = Black" "c \<noteq> Black \<longleftrightarrow> c = Red"
  by (cases c; simp)+

lemmas fix_up_simps = fix_up_def is_red_left_left_def

lemma fix_up_left_black:
  assumes "nearly l" "leaning r" "\<not> is_red r" "balanced l" "balanced r" "black_height l = black_height r"
  shows "\<exists>t. fix_up (Node k v Black l r) = Some t \<and> leaning t \<and> balanced t \<and> black_height t = black_height r + 1"
proof (cases l)
  case Leaf
  then show ?thesis using assms by (simp add: fix_up_simps)
next
  case (Node lk lv lc ll lr)
  show ?thesis
  proof (cases "lc = Red \<and> is_red ll")
    case True
    then obtain xk xv xl xr where "ll = Node xk xv Red xl xr" by (cases ll) auto
    then show ?thesis using assms Node True by (cases r) (auto simp: fix_up_simps)
  next
    case False
    then show ?thesis using assms Node by (cases ll) (auto simp: fix_up_simps)
  qed
qed

lemma fix_up_left_red:
  assumes "leaning l" "leaning r" "\<not> is_red r"
  shows "fix_up (Node k v Red l r) = Some (Node k v Red l r)"
  using assms by (cases l; cases "left_of l") (auto simp: fix_up_simps)

lemma fix_up_right_black:
  assumes "leaning l" "leaning r" "balanced l" "balanced r" "black_height l = black_height r"
  shows "\<exists>t. fix_up (Node k v Black l r) = Some t \<and> leaning t \<and> balanced t \<and> black_height t = black_height l + 1"
proof (cases "is_red r")
  case False
  then show ?thesis using fix_up_left_black [of l r k v] leaning_nearly assms by auto
next
  case True
  then obtain xk xv xl xr where r: "r = Node xk xv Red xl xr" by (cases r) auto
  show ?thesis
  proof (cases "is_red l")
    case True
    then obtain yk yv yl yr where "l = Node yk yv Red yl yr" by (cases l) auto
    then show ?thesis using assms r by (cases yl) (auto simp: fix_up_simps)
  next
    case False
    then show ?thesis using assms r by (auto simp: fix_up_simps)
  qed
qed

lemma fix_up_right_red:
  assumes "leaning l" "leaning r" "\<not> is_red l" "balanced l" "balanced r" "black_height l = black_height r"
  shows "\<exists>t. fix_up (Node k v Red l r) = Some t \<and> nearly t \<and> balanced t \<and> black_height t = black_height l"
proof (cases "is_red r")
  case False
  then show ?thesis using fix_up_left_red [of l r k v] assms by auto
next
  case True
  then obtain xk xv xl xr where r: "r = Node xk xv Red xl xr" by (cases r) auto
  then show ?thesis using assms by (auto simp: fix_up_simps)
qed

text \<open>Insertion keeps the black height; only below a red node it may leave two reds in a row.\<close>

lemma ins_balance:
  assumes "leaning t" "balanced t"
  shows "\<exists>t'. ins t key val = Some t' \<and> nearly t' \<and> balanced t' \<and> black_height t' = black_height t
           \<and> (\<not> is_red t \<longrightarrow> leaning t')"
  using assms
proof (induction t)
  case Leaf
  then show ?case by (simp add: Node_new_def)
next
  case (Node k v c l r)
  have p: "leaning l" "leaning r" "balanced l" "balanced r" "black_height l = black_height r" "\<not> is_red r"
    and cl: "c = Red \<Longrightarrow> \<not> is_red l"
    using Node.prems by auto
  obtain l' where l': "ins l key val = Some l'" "nearly l'" "balanced l'" "black_height l' = black_height l"
    "\<not> is_red l \<Longrightarrow> leaning l'" using Node.IH(1) p by auto
  obtain r' where r': "ins r key val = Some r'" "balanced r'" "black_height r' = black_height r" "leaning r'"
    using Node.IH(2) p by auto
  show ?case
  proof (cases c)
    case Red
    have u: "fix_up (Node k val Red l r) = Some (Node k val Red l r)" by (rule fix_up_left_red [OF p(1,2,6)])
    have ul: "fix_up (Node k v Red l' r) = Some (Node k v Red l' r)"
      by (rule fix_up_left_red) (use l' cl Red p in auto)
    obtain t where ur: "fix_up (Node k v Red l r') = Some t" "nearly t" "balanced t" "black_height t = black_height l"
      using fix_up_right_red [of l r' k v] p r' cl Red by auto
    show ?thesis using u ul ur l' r' p cl Red leaning_nearly by auto
  next
    case Black
    obtain t0 where u: "fix_up (Node k val Black l r) = Some t0" "leaning t0" "balanced t0"
      "black_height t0 = black_height r + 1"
      using fix_up_left_black [of l r k val] p leaning_nearly by auto
    obtain t1 where ul: "fix_up (Node k v Black l' r) = Some t1" "leaning t1" "balanced t1"
      "black_height t1 = black_height r + 1"
      using fix_up_left_black [of l' r k v] p l' by auto
    obtain t2 where ur: "fix_up (Node k v Black l r') = Some t2" "leaning t2" "balanced t2"
      "black_height t2 = black_height l + 1"
      using fix_up_right_black [of l r' k v] p r' by auto
    show ?thesis using u ul ur l' r' p Black leaning_nearly by auto
  qed
qed

fun node_height :: "('k, 'v) Node \<Rightarrow> nat" where
  "node_height Leaf = 0"
| "node_height (Node k v c l r) = Suc (max (node_height l) (node_height r))"

lemma black_height_bound: "balanced t \<Longrightarrow> 2 ^ black_height t \<le> length (inorder t) + 1"
  by (induction t) (auto simp: )

lemma node_height_bound:
  "leaning t \<Longrightarrow> balanced t \<Longrightarrow> node_height t \<le> 2 * black_height t + (if is_red t then 1 else 0)"
  by (induction t) (auto split: if_splits)

section \<open>Properties\<close>

definition rb_ok :: "('k::linorder, 'v) RedBlackTree \<Rightarrow> bool" where
  "rb_ok t \<longleftrightarrow> ascending (inorder (rb_root t)) \<and> rb_len t = length (inorder (rb_root t))
     \<and> leaning (rb_root t) \<and> balanced (rb_root t) \<and> \<not> is_red (rb_root t)"

lemma blacken_ok: "nearly t \<Longrightarrow> balanced t \<Longrightarrow> leaning (blacken t) \<and> balanced (blacken t) \<and> \<not> is_red (blacken t)"
  by (cases t) auto

lemma rb_insert_ok:
  assumes "rb_ok t"
  shows "\<exists>t'. rb_insert t key val = Some t' \<and> rb_ok t'
           \<and> inorder (rb_root t') = put_sorted key val (inorder (rb_root t))"
proof -
  have asc: "ascending (inorder (rb_root t))" and b: "leaning (rb_root t)" "balanced (rb_root t)"
    and len: "rb_len t = length (inorder (rb_root t))"
    using assms by (simp_all add: rb_ok_def)
  obtain h where h: "ins (rb_root t) key val = Some h" "inorder h = put_sorted key val (inorder (rb_root t))"
    using ins_inorder [OF asc] by blast
  have "nearly h" "balanced h" using ins_balance [OF b, of key val] h(1) by auto
  note bl = blacken_ok [OF this]
  have "map_of (inorder (rb_root t)) key = None \<longleftrightarrow> \<not> rb_contains t key"
    by (simp add: rb_contains_def rb_get_def node_get_map [OF asc])
  then show ?thesis
    using h bl put_sorted_ascending [OF asc] put_sorted_length [OF asc, of key val] len
    by (auto simp: rb_insert_def rb_ok_def Let_def)
qed

lemma rb_extend_ok:
  assumes "rb_ok t"
  shows "\<exists>t'. rb_extend t kvs = Some t' \<and> rb_ok t'
           \<and> map_of (inorder (rb_root t')) = map_of (inorder (rb_root t)) ++ map_of (rev kvs)"
  using assms
proof (induction kvs arbitrary: t)
  case (Cons kv kvs)
  obtain k v where kv: "kv = (k, v)" by force
  obtain t1 where t1: "rb_insert t k v = Some t1" "rb_ok t1"
    "inorder (rb_root t1) = put_sorted k v (inorder (rb_root t))"
    using rb_insert_ok [OF Cons.prems] by blast
  have m: "map_of (inorder (rb_root t1)) = (map_of (inorder (rb_root t)))(k \<mapsto> v)"
    unfolding t1(3) by (rule put_sorted_map) (use Cons.prems in \<open>simp add: rb_ok_def\<close>)
  obtain t2 where "rb_extend t1 kvs = Some t2" "rb_ok t2"
    "map_of (inorder (rb_root t2)) = map_of (inorder (rb_root t1)) ++ map_of (rev kvs)"
    using Cons.IH [OF t1(2)] by blast
  then show ?case using t1(1) by (auto simp: kv m map_add_def fun_eq_iff split: option.splits)
qed auto

lemma rb_ok_new: "rb_ok rb_new"
  by (simp add: rb_ok_def rb_new_def)

lemma rb_clear_new: "rb_clear (t :: ('k, 'v) RedBlackTree) = rb_new"
  by (simp add: rb_clear_def rb_new_def)

text \<open>
  (C33) A tree built from any list of entries is the map of that list: building never
  panics, lookup returns the last value given for a key, iteration lists each key once in
  ascending order, a range query lists exactly the entries from its lower bound up to and
  without its upper bound, the length is the number of keys, and the height is at most
  twice the logarithm of the number of entries.
\<close>

theorem rb_map_correct:
  "\<exists>t. rb_from_iter kvs = Some t
     \<and> (\<forall>k. rb_get t k = map_of (rev kvs) k)
     \<and> sorted_wrt (<) (map fst (rb_iter t)) \<and> map_of (rb_iter t) = map_of (rev kvs)
     \<and> (\<forall>lo hi. rb_range t lo hi =
          filter (\<lambda>(k, _). (case lo of None \<Rightarrow> True | Some b \<Rightarrow> b \<le> k)
                         \<and> (case hi of None \<Rightarrow> True | Some b \<Rightarrow> k < b)) (rb_iter t))
     \<and> rb_len t = card (fst ` set kvs)
     \<and> 2 ^ ((node_height (rb_root t) + 1) div 2) \<le> rb_len t + 1"
proof -
  obtain t where t: "rb_extend rb_new kvs = Some t" "rb_ok t"
    "map_of (inorder (rb_root t)) = map_of (rev kvs)"
    using rb_extend_ok [OF rb_ok_new, of kvs] by (auto simp: rb_new_def)
  have ok: "ascending (inorder (rb_root t))" "rb_len t = length (inorder (rb_root t))"
    "leaning (rb_root t)" "balanced (rb_root t)" "\<not> is_red (rb_root t)"
    using t(2) by (simp_all add: rb_ok_def)
  have it: "rb_iter t = inorder (rb_root t)" by (simp add: rb_iter_def collect_inorder_eq)
  have "distinct (map fst (inorder (rb_root t)))" using ok(1) by (simp add: strict_sorted_iff)
  then have "rb_len t = card (fst ` set (inorder (rb_root t)))"
    using distinct_card [of "map fst (inorder (rb_root t))"] ok(2) by simp
  also have "fst ` set (inorder (rb_root t)) = fst ` set kvs"
    using dom_map_of_conv_image_fst [of "inorder (rb_root t)"] dom_map_of_conv_image_fst [of "rev kvs"] t(3)
    by simp
  finally have len: "rb_len t = card (fst ` set kvs)" .
  have "node_height (rb_root t) \<le> 2 * black_height (rb_root t)"
    using node_height_bound [OF ok(3,4)] ok(5) by simp
  then have "(node_height (rb_root t) + 1) div 2 \<le> black_height (rb_root t)" by linarith
  then have "(2::nat) ^ ((node_height (rb_root t) + 1) div 2) \<le> 2 ^ black_height (rb_root t)" by simp
  also have "\<dots> \<le> rb_len t + 1" using black_height_bound [OF ok(4)] ok(2) by simp
  finally have h: "2 ^ ((node_height (rb_root t) + 1) div 2) \<le> rb_len t + 1" .
  show ?thesis
    using t(1,3) ok(1) len h node_get_map [OF ok(1)] collect_range_eq [OF ok(1), of "[]"]
    by (auto simp: rb_from_iter_def it rb_get_def rb_range_def)
qed

text \<open>
  Removal loses entries: in the tree built from any three ascending keys, removing the
  middle one empties the tree, while the length says two entries are left.
\<close>

theorem rb_remove_loses:
  assumes "a < b" and "b < c"
  shows "\<exists>t t'. rb_from_iter [(a, x), (b, y), (c, z)] = Some t
           \<and> rb_get t a = Some x \<and> rb_get t c = Some z
           \<and> rb_remove t b = Some (True, t') \<and> rb_len t' = 2
           \<and> rb_get t' a = None \<and> rb_get t' c = None \<and> rb_iter t' = []"
proof -
  have n: "a < c" "a \<noteq> b" "b \<noteq> c" "a \<noteq> c" "\<not> b < a" "\<not> c < b" "\<not> c < a" using assms by auto
  let ?t = "\<lparr>rb_root = Node b y Black (Node a x Black Leaf Leaf) (Node c z Black Leaf Leaf), rb_len = 3\<rparr>"
  have "rb_from_iter [(a, x), (b, y), (c, z)] = Some ?t"
    using assms n
    by (simp add: rb_from_iter_def rb_insert_def rb_new_def rb_contains_def rb_get_def Node_new_def
        fix_up_simps Let_def)
  moreover have "rb_remove ?t b = Some (True, \<lparr>rb_root = Leaf, rb_len = 2\<rparr>)"
    by (simp add: rb_remove_def rb_contains_def rb_get_def del.simps del_min.simps move_red_right_def
        is_red_left_left_def is_red_right_left_def Let_def)
  ultimately show ?thesis using assms n by (auto simp: rb_get_def rb_iter_def)
qed

theorem rb_remove_loses_witness:
  "\<exists>t t'. rb_from_iter [(1::nat, ''a''), (2, ''b''), (3, ''c'')] = Some t
     \<and> rb_get t 1 = Some ''a'' \<and> rb_remove t 2 = Some (True, t') \<and> rb_get t' 1 = None"
  using rb_remove_loses [of "1::nat" 2 3 "''a''" "''b''" "''c''"] by auto

end
