(* ===== verification/Merkle_Tree.thy ===== *)
theory Merkle_Tree
  imports Bytes
begin

text \<open>
  Checksums of chunked data (vo-storage/src/checksum.rs) and the Merkle tree over them
  (vo-storage/src/merkle_tree.rs).  The three hash functions are parameters: a streaming
  hasher is the bytes it was fed, since the crates document that a hash depends on the
  concatenation of its updates only.
\<close>

section \<open>Checksums\<close>

record hash_api =
  crc32_of :: "bytes \<Rightarrow> u32"
  sha256_of :: "bytes \<Rightarrow> bytes"
  blake3_of :: "bytes \<Rightarrow> bytes"

datatype ChecksumAlgorithm = Crc32 | Sha256 | Blake3

record Checksum =
  cs_crc32 :: u32
  cs_sha256 :: bytes
  cs_blake3 :: bytes

type_synonym StreamingHasher = bytes

definition StreamingHasher_new :: StreamingHasher where
  "StreamingHasher_new = []"

definition hasher_update :: "StreamingHasher \<Rightarrow> bytes \<Rightarrow> StreamingHasher" where
  "hasher_update h data = h @ data"

definition hasher_finalize :: "hash_api \<Rightarrow> StreamingHasher \<Rightarrow> Checksum" where
  "hasher_finalize H h = \<lparr>cs_crc32 = crc32_of H h, cs_sha256 = sha256_of H h, cs_blake3 = blake3_of H h\<rparr>"

definition compute_checksum :: "hash_api \<Rightarrow> bytes \<Rightarrow> Checksum" where
  "compute_checksum H data = hasher_finalize H (hasher_update StreamingHasher_new data)"

text \<open>A mismatch names the first algorithm that differs; the values are its texts' content.\<close>

datatype ChecksumError =
    Mismatch_hash ChecksumAlgorithm bytes bytes
  | Mismatch_crc u32 u32

definition verify_checksum :: "hash_api \<Rightarrow> bytes \<Rightarrow> Checksum \<Rightarrow> ChecksumError + unit" where
  "verify_checksum H data expected =
     (let computed = compute_checksum H data in
      if cs_sha256 computed \<noteq> cs_sha256 expected
      then Inl (Mismatch_hash Sha256 (cs_sha256 expected) (cs_sha256 computed))
      else if cs_blake3 computed \<noteq> cs_blake3 expected
      then Inl (Mismatch_hash Blake3 (cs_blake3 expected) (cs_blake3 computed))
      else if cs_crc32 computed \<noteq> cs_crc32 expected
      then Inl (Mismatch_crc (cs_crc32 expected) (cs_crc32 computed))
      else Inr ())"

section \<open>Chunked hashing\<close>

record ChunkInfo =
  ci_offset :: u64
  ci_size :: u64
  ci_checksum :: Checksum

record ChunkedHasher =
  ch_chunk_size :: u64
  ch_current_offset :: u64
  ch_current_hasher :: StreamingHasher
  ch_chunks :: "ChunkInfo list"

definition ChunkedHasher_new :: "u64 \<Rightarrow> ChunkedHasher" where
  "ChunkedHasher_new chunk_size =
     \<lparr>ch_chunk_size = chunk_size, ch_current_offset = 0, ch_current_hasher = StreamingHasher_new,
      ch_chunks = []\<rparr>"

definition bytes_to_process :: "ChunkedHasher \<Rightarrow> bytes \<Rightarrow> nat" where
  "bytes_to_process h data =
     min (unat (ch_chunk_size h - ch_current_offset h mod ch_chunk_size h)) (length data)"

text \<open>One turn of the loop of \<open>update\<close>.\<close>

definition absorb :: "hash_api \<Rightarrow> ChunkedHasher \<Rightarrow> bytes \<Rightarrow> ChunkedHasher" where
  "absorb H h piece =
     (let hasher = hasher_update (ch_current_hasher h) piece;
          offset = ch_current_offset h + of_nat (length piece);
          h1 = h\<lparr>ch_current_offset := offset, ch_current_hasher := hasher\<rparr>
      in if offset mod ch_chunk_size h = 0
         then h1\<lparr>ch_chunks := ch_chunks h @
                   [\<lparr>ci_offset = offset - ch_chunk_size h, ci_size = ch_chunk_size h,
                     ci_checksum = hasher_finalize H hasher\<rparr>],
                 ch_current_hasher := StreamingHasher_new\<rparr>
         else h1)"

lemma bytes_to_process_pos:
  assumes "ch_chunk_size h \<noteq> 0" and "data \<noteq> []"
  shows "0 < bytes_to_process h data"
proof -
  have "unat (ch_current_offset h mod ch_chunk_size h) < unat (ch_chunk_size h)"
    using assms(1) by (simp add: unat_mod_distrib unat_gt_0)
  then have "ch_current_offset h mod ch_chunk_size h < ch_chunk_size h" by (simp add: word_less_nat_alt)
  then show ?thesis using assms(2) by (simp add: bytes_to_process_def unat_gt_0)
qed

text \<open>\<open>None\<close> is the panic of the division by a chunk size of zero.\<close>

function chunked_update :: "hash_api \<Rightarrow> ChunkedHasher \<Rightarrow> bytes \<Rightarrow> ChunkedHasher option" where
  "chunked_update H h data =
     (if data = [] then Some h
      else if ch_chunk_size h = 0 then None
      else (let n = bytes_to_process h data in
            chunked_update H (absorb H h (take n data)) (drop n data)))"
  by pat_completeness auto
termination
  by (relation "measure (\<lambda>(H, h, data). length data)") (auto simp: bytes_to_process_pos)

declare chunked_update.simps [simp del]

definition chunked_finalize :: "hash_api \<Rightarrow> ChunkedHasher \<Rightarrow> ChunkInfo list option" where
  "chunked_finalize H h =
     (if ch_chunk_size h = 0 then None
      else if ch_current_offset h mod ch_chunk_size h \<noteq> 0 \<or> ch_current_offset h = 0
      then (let rest = ch_current_offset h mod ch_chunk_size h;
                size_bytes = (if rest = 0 then ch_chunk_size h else rest)
            in Some (ch_chunks h @ [\<lparr>ci_offset = ch_current_offset h - size_bytes, ci_size = size_bytes,
                                      ci_checksum = hasher_finalize H (ch_current_hasher h)\<rparr>]))
      else Some (ch_chunks h))"

section \<open>The tree\<close>

record MerkleNode =
  mn_hash :: bytes
  mn_offset :: u64
  mn_size :: u64

record MerkleTree =
  mt_root_hash :: bytes
  mt_leaf_hashes :: "Checksum list"
  mt_chunk_size :: u64
  mt_levels :: "MerkleNode list list"

fun pair_and_hash :: "hash_api \<Rightarrow> MerkleNode list \<Rightarrow> MerkleNode list" where
  "pair_and_hash H [] = []"
| "pair_and_hash H [a] =
     [\<lparr>mn_hash = blake3_of H (mn_hash a @ mn_hash a), mn_offset = mn_offset a, mn_size = mn_size a * 2\<rparr>]"
| "pair_and_hash H (a # b # nodes) =
     \<lparr>mn_hash = blake3_of H (mn_hash a @ mn_hash b), mn_offset = mn_offset a,
      mn_size = mn_size a + mn_size b\<rparr> # pair_and_hash H nodes"

lemma length_pair_and_hash: "length (pair_and_hash H nodes) = (length nodes + 1) div 2"
  by (induction H nodes rule: pair_and_hash.induct) simp_all

text \<open>The levels from the given one up to the root.\<close>

function build_levels :: "hash_api \<Rightarrow> MerkleNode list \<Rightarrow> MerkleNode list list" where
  "build_levels H nodes =
     nodes # (if 1 < length nodes then build_levels H (pair_and_hash H nodes) else [])"
  by pat_completeness auto
termination
  by (relation "measure (\<lambda>(H, nodes). length nodes)") (auto simp: length_pair_and_hash)

declare build_levels.simps [simp del]

definition MerkleTree_new :: "hash_api \<Rightarrow> bytes \<Rightarrow> u64 \<Rightarrow> MerkleTree option" where
  "MerkleTree_new H data chunk_size =
     (if data = []
      then Some \<lparr>mt_root_hash = replicate 32 0, mt_leaf_hashes = [], mt_chunk_size = chunk_size, mt_levels = []\<rparr>
      else
        Option.bind (chunked_update H (ChunkedHasher_new chunk_size) data) (\<lambda>h.
        Option.bind (chunked_finalize H h) (\<lambda>chunks.
        let levels = build_levels H
              (map (\<lambda>c. \<lparr>mn_hash = cs_blake3 (ci_checksum c), mn_offset = ci_offset c, mn_size = ci_size c\<rparr>) chunks)
        in Some \<lparr>mt_root_hash = (case last levels of node # _ \<Rightarrow> mn_hash node | [] \<Rightarrow> replicate 32 0),
                 mt_leaf_hashes = map ci_checksum chunks, mt_chunk_size = chunk_size, mt_levels = levels\<rparr>)))"

record MerkleProof =
  mp_leaf_hash :: bytes
  mp_leaf_index :: nat
  mp_proof_hashes :: "(bytes \<times> bool) list"
  mp_chunk_size :: u64

fun proof_loop :: "MerkleNode list list \<Rightarrow> nat \<Rightarrow> (bytes \<times> bool) list" where
  "proof_loop (level # upper # levels) current_index =
     (let is_left = even current_index;
          sibling_index = (if is_left then current_index + 1 else current_index - 1);
          sibling = (if sibling_index < length level then sibling_index else current_index)
      in (mn_hash (level ! sibling), is_left) # proof_loop (upper # levels) (current_index div 2))"
| "proof_loop _ current_index = []"

definition merkle_proof :: "MerkleTree \<Rightarrow> nat \<Rightarrow> MerkleProof option" where
  "merkle_proof t leaf_index =
     (if length (mt_leaf_hashes t) \<le> leaf_index then None
      else Some \<lparr>mp_leaf_hash = cs_blake3 (mt_leaf_hashes t ! leaf_index), mp_leaf_index = leaf_index,
                 mp_proof_hashes = proof_loop (mt_levels t) leaf_index, mp_chunk_size = mt_chunk_size t\<rparr>)"

fun verify_input :: "bytes \<Rightarrow> bytes \<times> bool \<Rightarrow> bytes" where
  "verify_input current (sibling, is_left) = (if is_left then current @ sibling else sibling @ current)"

definition merkle_verify :: "hash_api \<Rightarrow> MerkleProof \<Rightarrow> bytes \<Rightarrow> bool" where
  "merkle_verify H p expected_root \<longleftrightarrow>
     foldl (\<lambda>current step. blake3_of H (verify_input current step)) (mp_leaf_hash p) (mp_proof_hashes p)
       = expected_root"

section \<open>What chunked hashing computes\<close>

text \<open>The data cut into pieces of \<open>cs\<close> bytes, the last one possibly shorter.\<close>

function chunk_infos :: "hash_api \<Rightarrow> nat \<Rightarrow> nat \<Rightarrow> bytes \<Rightarrow> ChunkInfo list" where
  "chunk_infos H cs off d =
     (if d = [] \<or> cs = 0 then []
      else \<lparr>ci_offset = of_nat off, ci_size = of_nat (min cs (length d)),
            ci_checksum = compute_checksum H (take cs d)\<rparr> # chunk_infos H cs (off + cs) (drop cs d))"
  by pat_completeness auto
termination
  by (relation "measure (\<lambda>(H, cs, off, d). length d)") auto

declare chunk_infos.simps [simp del]

lemma chunk_infos_Nil [simp]: "chunk_infos H cs off [] = []"
  by (simp add: chunk_infos.simps)

lemma chunk_infos_short:
  "d \<noteq> [] \<Longrightarrow> length d \<le> cs \<Longrightarrow> chunk_infos H cs off d =
     [\<lparr>ci_offset = of_nat off, ci_size = of_nat (length d), ci_checksum = compute_checksum H d\<rparr>]"
  by (cases d; subst chunk_infos.simps) auto

lemma chunk_infos_append:
  assumes "cs \<noteq> 0"
  shows "length a = n * cs \<Longrightarrow> chunk_infos H cs off (a @ b) = chunk_infos H cs off a @ chunk_infos H cs (off + length a) b"
proof (induction n arbitrary: a off)
  case (Suc n)
  have a: "a \<noteq> []" "cs \<le> length a" "length (drop cs a) = n * cs" using Suc.prems assms by auto
  have "chunk_infos H cs off (a @ b) =
      \<lparr>ci_offset = of_nat off, ci_size = of_nat cs, ci_checksum = compute_checksum H (take cs a)\<rparr>
        # chunk_infos H cs (off + cs) (drop cs a @ b)"
    using a assms by (subst chunk_infos.simps) (simp add: min_def)
  also have "chunk_infos H cs (off + cs) (drop cs a @ b)
      = chunk_infos H cs (off + cs) (drop cs a) @ chunk_infos H cs (off + cs + (length a - cs)) b"
    using Suc.IH [OF a(3)] by simp
  also have "off + cs + (length a - cs) = off + length a" using a(2) by simp
  finally show ?case using a assms chunk_infos.simps [of H cs off a] by (simp add: min_def)
qed simp

text \<open>The state of a hasher that absorbed \<open>d\<close>.\<close>

definition absorbed :: "hash_api \<Rightarrow> ChunkedHasher \<Rightarrow> bytes \<Rightarrow> bool" where
  "absorbed H h d \<longleftrightarrow>
     ch_chunk_size h \<noteq> 0
     \<and> ch_current_offset h = of_nat (length d)
     \<and> ch_chunks h = chunk_infos H (unat (ch_chunk_size h)) 0
          (take (length d div unat (ch_chunk_size h) * unat (ch_chunk_size h)) d)
     \<and> ch_current_hasher h = drop (length d div unat (ch_chunk_size h) * unat (ch_chunk_size h)) d"

lemma unat_of_len: "n < 2 ^ 64 \<Longrightarrow> unat (of_nat n :: u64) = n"
  by (simp add: unat_of_nat take_bit_nat_eq_self)

lemma word_mod_0: "n < 2 ^ 64 \<Longrightarrow> (of_nat n :: u64) mod c = 0 \<longleftrightarrow> n mod unat c = 0"
proof -
  assume "n < 2 ^ 64"
  then have "unat ((of_nat n :: u64) mod c) = n mod unat c" by (simp add: unat_mod_distrib unat_of_len)
  then show ?thesis by (metis unat_eq_zero)
qed

lemma absorb_step:
  assumes ab: "absorbed H h d" and p: "piece \<noteq> []"
    and fits: "length piece \<le> unat (ch_chunk_size h) - length d mod unat (ch_chunk_size h)"
    and len: "length d + length piece < 2 ^ 64"
  shows "absorbed H (absorb H h piece) (d @ piece)" and "ch_chunk_size (absorb H h piece) = ch_chunk_size h"
proof -
  define cs q r where "cs = unat (ch_chunk_size h)" and "q = length d div cs" and "r = length d mod cs"
  have cs0: "cs \<noteq> 0" using ab by (simp add: absorbed_def cs_def unat_eq_zero)
  have d: "length d = q * cs + r" "r < cs" using cs0 by (simp_all add: q_def r_def)
  have off: "ch_current_offset h = of_nat (length d)" and ch: "ch_chunks h = chunk_infos H cs 0 (take (q * cs) d)"
    and ha: "ch_current_hasher h = drop (q * cs) d" and c0: "ch_chunk_size h \<noteq> 0"
    using ab by (simp_all add: absorbed_def cs_def q_def)
  have off': "ch_current_offset h + of_nat (length piece) = of_nat (length (d @ piece))" by (simp add: off)
  have "length piece \<le> cs - r" using fits by (simp add: cs_def r_def)
  then have n: "0 < length piece" "r + length piece \<le> cs" using p d(2) by simp_all
  have m: "(of_nat (length (d @ piece)) :: u64) mod ch_chunk_size h = 0 \<longleftrightarrow> length (d @ piece) mod cs = 0"
    using word_mod_0 [of "length (d @ piece)" "ch_chunk_size h"] len by (simp add: cs_def)
  have "absorbed H (absorb H h piece) (d @ piece) \<and> ch_chunk_size (absorb H h piece) = ch_chunk_size h"
  proof (cases "r + length piece = cs")
    case True
    then have l: "length (d @ piece) = (q + 1) * cs" using d by simp
    then have z: "length (d @ piece) mod cs = 0" "length (d @ piece) div cs = q + 1" using cs0 by simp_all
    let ?b = "drop (q * cs) d @ piece"
    have b: "length ?b = cs" "d @ piece = take (q * cs) d @ ?b" "length (take (q * cs) d) = q * cs"
      using d True by simp_all
    have nb: "?b \<noteq> []" using p by simp
    have "chunk_infos H cs 0 (d @ piece) = chunk_infos H cs 0 (take (q * cs) d) @ chunk_infos H cs (q * cs) ?b"
      unfolding b(2) using chunk_infos_append [OF cs0 b(3), of H 0 ?b] b(3) by simp
    also have "chunk_infos H cs (q * cs) ?b =
        [\<lparr>ci_offset = of_nat (q * cs), ci_size = of_nat cs, ci_checksum = compute_checksum H ?b\<rparr>]"
      using chunk_infos_short [OF nb eq_refl [OF b(1)], of H "q * cs"] by (simp only: b(1))
    finally have ci: "chunk_infos H cs 0 (d @ piece) = ch_chunks h @
        [\<lparr>ci_offset = of_nat (q * cs), ci_size = of_nat cs, ci_checksum = compute_checksum H ?b\<rparr>]"
      by (simp add: ch)
    have o: "of_nat (length (d @ piece)) - ch_chunk_size h = (of_nat (q * cs) :: u64)"
      "ch_chunk_size h = of_nat cs" unfolding l by (simp_all add: cs_def algebra_simps)
    have st: "absorb H h piece = h\<lparr>ch_current_offset := of_nat (length (d @ piece)), ch_current_hasher := [],
        ch_chunks := chunk_infos H cs 0 (d @ piece)\<rparr>"
      using m z(1) off' o
      by (simp add: absorb_def Let_def ci hasher_update_def ha compute_checksum_def StreamingHasher_new_def
          hasher_finalize_def del: of_nat_add length_append)
    have "absorbed H (h\<lparr>ch_current_offset := of_nat (length D), ch_current_hasher := [],
        ch_chunks := chunk_infos H cs 0 D\<rparr>) D" if "length D div cs * cs = length D" for D
      using c0 that by (simp add: absorbed_def cs_def [symmetric])
    moreover have "length (d @ piece) div cs * cs = length (d @ piece)" unfolding z(2) by (rule l [symmetric])
    ultimately have "absorbed H (absorb H h piece) (d @ piece)" unfolding st by blast
    moreover have "ch_chunk_size (absorb H h piece) = ch_chunk_size h" unfolding st by simp
    ultimately show ?thesis by blast
  next
    case False
    then have rn: "r + length piece < cs" using n by simp
    obtain x where x: "x = r + length piece" by simp
    have "length (d @ piece) = x + q * cs" using d x by simp
    then have z: "length (d @ piece) mod cs \<noteq> 0" "length (d @ piece) div cs = q"
      using rn n cs0 x by (simp_all del: length_append)
    have st: "absorb H h piece = h\<lparr>ch_current_offset := of_nat (length (d @ piece)),
        ch_current_hasher := drop (q * cs) d @ piece\<rparr>"
      using m z(1) off'
      by (simp add: absorb_def Let_def hasher_update_def ha del: of_nat_add length_append)
    have "take (q * cs) (d @ piece) = take (q * cs) d" "drop (q * cs) (d @ piece) = drop (q * cs) d @ piece"
      using d by simp_all
    then show ?thesis using c0 z(2) by (simp add: absorbed_def st ch cs_def [symmetric] del: length_append take_append drop_append)
  qed
  then show "absorbed H (absorb H h piece) (d @ piece)" "ch_chunk_size (absorb H h piece) = ch_chunk_size h"
    by blast+
qed

lemma chunked_update_absorbed:
  assumes "absorbed H h d" and "length d + length data < 2 ^ 64"
  shows "\<exists>h'. chunked_update H h data = Some h' \<and> absorbed H h' (d @ data) \<and> ch_chunk_size h' = ch_chunk_size h"
  using assms
proof (induction H h data arbitrary: d rule: chunked_update.induct)
  case (1 H h data)
  show ?case
  proof (cases "data = []")
    case True
    then show ?thesis using "1.prems" by (simp add: chunked_update.simps)
  next
    case False
    have c0: "ch_chunk_size h \<noteq> 0" using "1.prems"(1) by (simp add: absorbed_def)
    define n where "n = bytes_to_process h data"
    have n0: "0 < n" "n \<le> length data"
      using bytes_to_process_pos [OF c0 False] by (simp_all add: n_def bytes_to_process_def)
    have o: "ch_current_offset h = of_nat (length d)" using "1.prems"(1) by (simp add: absorbed_def)
    have "ch_current_offset h mod ch_chunk_size h \<le> ch_chunk_size h"
      using c0 by (simp add: word_le_nat_alt unat_mod_distrib less_imp_le unat_gt_0)
    then have "unat (ch_chunk_size h - ch_current_offset h mod ch_chunk_size h)
        = unat (ch_chunk_size h) - length d mod unat (ch_chunk_size h)"
      using "1.prems"(2) by (simp add: unat_sub unat_mod_distrib o unat_of_len)
    then have fits: "length (take n data) \<le> unat (ch_chunk_size h) - length d mod unat (ch_chunk_size h)"
      by (simp add: n_def bytes_to_process_def)
    note st = absorb_step [OF "1.prems"(1) _ fits]
    have t: "take n data \<noteq> []" "length d + length (take n data) < 2 ^ 64"
      using n0 False "1.prems"(2) by auto
    have "\<exists>h'. chunked_update H (absorb H h (take n data)) (drop n data) = Some h'
        \<and> absorbed H h' ((d @ take n data) @ drop n data) \<and> ch_chunk_size h' = ch_chunk_size (absorb H h (take n data))"
      by (rule "1.IH" [OF False c0 n_def st(1) [OF t]]) (use n0 "1.prems"(2) in simp)
    then show ?thesis
      using False c0 st(2) [OF t] by (subst chunked_update.simps) (simp add: n_def [symmetric] Let_def)
  qed
qed

lemma chunked_finalize_absorbed:
  assumes ab: "absorbed H h d" and "d \<noteq> []" and len: "length d < 2 ^ 64"
  shows "chunked_finalize H h = Some (chunk_infos H (unat (ch_chunk_size h)) 0 d)"
proof -
  define cs q r where "cs = unat (ch_chunk_size h)" and "q = length d div cs" and "r = length d mod cs"
  have c0: "ch_chunk_size h \<noteq> 0" and off: "ch_current_offset h = of_nat (length d)"
    and ch: "ch_chunks h = chunk_infos H cs 0 (take (q * cs) d)" and ha: "ch_current_hasher h = drop (q * cs) d"
    using ab by (simp_all add: absorbed_def cs_def q_def)
  have cs0: "cs \<noteq> 0" using c0 by (simp add: cs_def unat_eq_zero)
  have d: "length d = q * cs + r" "r < cs" using cs0 by (simp_all add: q_def r_def)
  have nz: "(of_nat (length d) :: u64) \<noteq> 0" using unat_of_len [OF len] assms(2) by (metis length_0_conv unat_0)
  have rest: "unat ((of_nat (length d) :: u64) mod ch_chunk_size h) = r"
    by (simp add: unat_mod_distrib unat_of_len [OF len] r_def cs_def)
  have tl: "length (take (q * cs) d) = q * cs" using d by simp
  have split: "chunk_infos H cs 0 d = ch_chunks h @ chunk_infos H cs (q * cs) (drop (q * cs) d)"
    using chunk_infos_append [OF cs0 tl, of H 0 "drop (q * cs) d"] tl by (simp add: ch)
  show ?thesis
  proof (cases "r = 0")
    case True
    then have "(of_nat (length d) :: u64) mod ch_chunk_size h = 0" using rest by (simp add: unat_eq_zero)
    moreover have "drop (q * cs) d = []" using d True by simp
    ultimately show ?thesis using c0 nz split by (simp add: chunked_finalize_def off cs_def [symmetric])
  next
    case False
    then have w: "(of_nat (length d) :: u64) mod ch_chunk_size h \<noteq> 0" using rest by (metis unat_0)
    have wr: "(of_nat (length d) :: u64) mod ch_chunk_size h = of_nat r"
      unfolding rest [symmetric] by simp
    have rb: "drop (q * cs) d \<noteq> []" "length (drop (q * cs) d) \<le> cs" "length (drop (q * cs) d) = r"
      using d False by auto
    have "of_nat (length d) - of_nat r = (of_nat (q * cs) :: u64)" by (simp add: d(1))
    moreover have "chunk_infos H cs (q * cs) (drop (q * cs) d) =
        [\<lparr>ci_offset = of_nat (q * cs), ci_size = of_nat r, ci_checksum = compute_checksum H (drop (q * cs) d)\<rparr>]"
      using chunk_infos_short [OF rb(1,2), of H "q * cs"] by (simp only: rb(3))
    ultimately show ?thesis
      using c0 w split
      by (simp add: chunked_finalize_def off wr ha Let_def compute_checksum_def hasher_update_def
          StreamingHasher_new_def cs_def [symmetric])
  qed
qed

section \<open>Levels and proofs\<close>

lemma build_levels_nonempty: "\<exists>rest. build_levels H nodes = nodes # rest"
  by (subst build_levels.simps) simp

lemma pair_and_hash_nth:
  "i < length nodes \<Longrightarrow> mn_hash (pair_and_hash H nodes ! (i div 2)) =
     blake3_of H (verify_input (mn_hash (nodes ! i))
       (mn_hash (nodes ! (let s = (if even i then i + 1 else i - 1) in if s < length nodes then s else i)), even i))"
proof (induction H nodes arbitrary: i rule: pair_and_hash.induct)
  case (3 H a b nodes)
  show ?case
  proof (cases "i < 2")
    case True
    then have "i = 0 \<or> i = 1" by auto
    then show ?thesis by auto
  next
    case False
    then obtain j where j: "i = j + 2" by (metis add.commute le_Suc_ex not_less)
    then show ?thesis using 3 by (cases "even j") (auto simp: Let_def nth_Cons' split: if_splits)
  qed
qed auto

text \<open>The path a proof lists leads from its leaf to the root.\<close>

lemma proof_loop_root:
  "i < length nodes \<Longrightarrow>
   foldl (\<lambda>current step. blake3_of H (verify_input current step)) (mn_hash (nodes ! i)) (proof_loop (build_levels H nodes) i)
     = mn_hash (hd (last (build_levels H nodes)))"
proof (induction H nodes arbitrary: i rule: build_levels.induct)
  case (1 H nodes)
  show ?case
  proof (cases "1 < length nodes")
    case False
    then have "build_levels H nodes = [nodes]" by (subst build_levels.simps) simp
    moreover have "i = 0" "nodes \<noteq> []" using False "1.prems" by auto
    ultimately show ?thesis by (simp add: hd_conv_nth)
  next
    case True
    let ?up = "pair_and_hash H nodes"
    have bl: "build_levels H nodes = nodes # build_levels H ?up" using True by (subst build_levels.simps) simp
    obtain rest where up: "build_levels H ?up = ?up # rest" using build_levels_nonempty by blast
    have i2: "i div 2 < length ?up" using "1.prems" by (simp add: length_pair_and_hash)
    note IH = "1.IH" [OF True i2]
    have "proof_loop (build_levels H nodes) i =
        (mn_hash (nodes ! (let s = (if even i then i + 1 else i - 1) in if s < length nodes then s else i)), even i)
        # proof_loop (build_levels H ?up) (i div 2)"
      unfolding bl up by (simp add: Let_def)
    then show ?thesis
      using IH pair_and_hash_nth [OF "1.prems", of H] by (simp add: bl up)
  qed
qed

definition leaf_nodes :: "ChunkInfo list \<Rightarrow> MerkleNode list" where
  "leaf_nodes chunks =
     map (\<lambda>c. \<lparr>mn_hash = cs_blake3 (ci_checksum c), mn_offset = ci_offset c, mn_size = ci_size c\<rparr>) chunks"

lemma absorbed_new: "chunk_size \<noteq> 0 \<Longrightarrow> absorbed H (ChunkedHasher_new chunk_size) []"
  by (simp add: absorbed_def ChunkedHasher_new_def StreamingHasher_new_def)

lemma last_level_nonempty: "nodes \<noteq> [] \<Longrightarrow> last (build_levels H nodes) \<noteq> []"
proof (induction H nodes rule: build_levels.induct)
  case (1 H nodes)
  show ?case
  proof (cases "1 < length nodes")
    case True
    then have "pair_and_hash H nodes \<noteq> []" using length_pair_and_hash [of H nodes] by auto
    then show ?thesis using "1.IH" [OF True] True build_levels_nonempty [of H "pair_and_hash H nodes"]
      by (subst build_levels.simps) auto
  next
    case False
    then show ?thesis using "1.prems" by (subst build_levels.simps) simp
  qed
qed

lemma merkle_new_eq:
  assumes "data \<noteq> []" and "chunk_size \<noteq> 0" and "length data < 2 ^ 64"
  shows "MerkleTree_new H data chunk_size =
     (let chunks = chunk_infos H (unat chunk_size) 0 data; levels = build_levels H (leaf_nodes chunks) in
      Some \<lparr>mt_root_hash = mn_hash (hd (last levels)), mt_leaf_hashes = map ci_checksum chunks,
            mt_chunk_size = chunk_size, mt_levels = levels\<rparr>)"
proof -
  obtain h where h: "chunked_update H (ChunkedHasher_new chunk_size) data = Some h" "absorbed H h data"
    "ch_chunk_size h = chunk_size"
    using chunked_update_absorbed [OF absorbed_new [OF assms(2), of H], of data] assms(3)
    by (auto simp: ChunkedHasher_new_def)
  let ?chunks = "chunk_infos H (unat chunk_size) 0 data"
  have f: "chunked_finalize H h = Some ?chunks"
    using chunked_finalize_absorbed [OF h(2) assms(1,3)] h(3) by simp
  have "?chunks \<noteq> []" using assms(1,2) by (subst chunk_infos.simps) (simp add: unat_eq_zero)
  then have "last (build_levels H (leaf_nodes ?chunks)) \<noteq> []" by (simp add: last_level_nonempty leaf_nodes_def)
  then show ?thesis
    using assms(1) h(1) f
    by (auto simp: MerkleTree_new_def Let_def leaf_nodes_def [symmetric] hd_def split: list.split)
qed

fun path_inputs :: "hash_api \<Rightarrow> bytes \<Rightarrow> (bytes \<times> bool) list \<Rightarrow> bytes list" where
  "path_inputs H current [] = []"
| "path_inputs H current (s # steps) =
     verify_input current s # path_inputs H (blake3_of H (verify_input current s)) steps"

lemma verify_input_inj:
  assumes "verify_input x (s, d) = verify_input y (t, d)" and "length x = length y" and "length s = length t"
  shows "x = y \<and> s = t"
  using assms by (auto split: if_splits)

lemma path_binding:
  assumes "map snd ps = map snd qs" and "length x = length y"
    and "\<forall>b. length (blake3_of H b) = length x"
    and "\<forall>s \<in> set ps \<union> set qs. length (fst s) = length x"
    and "foldl (\<lambda>c s. blake3_of H (verify_input c s)) x ps = foldl (\<lambda>c s. blake3_of H (verify_input c s)) y qs"
    and "x \<noteq> y \<or> ps \<noteq> qs"
  shows "\<exists>j < length ps. path_inputs H x ps ! j \<noteq> path_inputs H y qs ! j
           \<and> blake3_of H (path_inputs H x ps ! j) = blake3_of H (path_inputs H y qs ! j)"
  using assms
proof (induction ps arbitrary: qs x y)
  case Nil
  then show ?case by simp
next
  case (Cons p ps)
  obtain s d where p: "p = (s, d)" by force
  obtain t qs' where qs: "qs = (t, d) # qs'" using Cons.prems(1) p by (cases qs) auto
  let ?x = "verify_input x (s, d)" and ?y = "verify_input y (t, d)"
  have len: "length s = length t" using Cons.prems(4) p qs by simp
  show ?case
  proof (cases "?x \<noteq> ?y \<and> blake3_of H ?x = blake3_of H ?y")
    case True
    then show ?thesis using p qs by (intro exI [of _ 0]) simp
  next
    case False
    have "blake3_of H ?x \<noteq> blake3_of H ?y \<or> ps \<noteq> qs'"
    proof (rule ccontr)
      assume n: "\<not> (blake3_of H ?x \<noteq> blake3_of H ?y \<or> ps \<noteq> qs')"
      then have "?x = ?y" using False by blast
      then have "x = y \<and> s = t" by (rule verify_input_inj [OF _ Cons.prems(2) len])
      then show False using Cons.prems(6) n p qs by simp
    qed
    moreover have "map snd ps = map snd qs'" "length (blake3_of H ?x) = length (blake3_of H ?y)"
      "\<forall>b. length (blake3_of H b) = length (blake3_of H ?x)"
      "\<forall>s \<in> set ps \<union> set qs'. length (fst s) = length (blake3_of H ?x)"
      "foldl (\<lambda>c s. blake3_of H (verify_input c s)) (blake3_of H ?x) ps
         = foldl (\<lambda>c s. blake3_of H (verify_input c s)) (blake3_of H ?y) qs'"
      using Cons.prems p qs by simp_all
    ultimately obtain j where "j < length ps"
      "path_inputs H (blake3_of H ?x) ps ! j \<noteq> path_inputs H (blake3_of H ?y) qs' ! j"
      "blake3_of H (path_inputs H (blake3_of H ?x) ps ! j) = blake3_of H (path_inputs H (blake3_of H ?y) qs' ! j)"
      using Cons.IH [of qs' "blake3_of H ?x" "blake3_of H ?y"] by blast
    then show ?thesis using p qs by (intro exI [of _ "Suc j"]) simp
  qed
qed

lemma pair_and_hash_duplicate:
  assumes "odd (length nodes)" and "mn_hash x = mn_hash (last nodes)" and "mn_size x = mn_size (last nodes)"
  shows "pair_and_hash H (nodes @ [x]) = pair_and_hash H nodes"
  using assms by (induction H nodes rule: pair_and_hash.induct) (auto simp: mult_2_right split: if_splits)

lemma chunk_infos_nth:
  assumes "cs \<noteq> 0"
  shows "i < length (chunk_infos H cs off d) \<longleftrightarrow> i * cs < length d"
    and "i * cs < length d \<Longrightarrow> ci_checksum (chunk_infos H cs off d ! i) = compute_checksum H (take cs (drop (i * cs) d))"
proof (induction i arbitrary: off d)
  case 0
  { case 1 show ?case using assms by (subst chunk_infos.simps) auto
  next
    case 2 then show ?case using assms by (subst chunk_infos.simps) auto }
next
  case (Suc i)
  have l: "length d - cs > i * cs \<longleftrightarrow> Suc i * cs < length d" by auto
  { case 1 show ?case
      using Suc.IH(1) [of "off + cs" "drop cs d"] l assms chunk_infos.simps [of H cs off d] by (cases "d = []") auto
  next
    case 2
    then have "d \<noteq> []" "i * cs < length (drop cs d)" using l by auto
    then show ?case
      using Suc.IH(2) [of "drop cs d" "off + cs"] assms chunk_infos.simps [of H cs off d] by (simp add: add.commute) }
qed

section \<open>Properties\<close>

fun update_all :: "hash_api \<Rightarrow> ChunkedHasher \<Rightarrow> bytes list \<Rightarrow> ChunkedHasher option" where
  "update_all H h [] = Some h"
| "update_all H h (p # ps) = Option.bind (chunked_update H h p) (\<lambda>h1. update_all H h1 ps)"

lemma update_all_absorbed:
  "absorbed H h d \<Longrightarrow> length d + length (concat ps) < 2 ^ 64
   \<Longrightarrow> \<exists>h'. update_all H h ps = Some h' \<and> absorbed H h' (d @ concat ps) \<and> ch_chunk_size h' = ch_chunk_size h"
proof (induction ps arbitrary: h d)
  case (Cons p ps)
  obtain h1 where h1: "chunked_update H h p = Some h1" "absorbed H h1 (d @ p)" "ch_chunk_size h1 = ch_chunk_size h"
    using chunked_update_absorbed [OF Cons.prems(1), of p] Cons.prems(2) by auto
  then show ?case using Cons.IH [OF h1(2)] Cons.prems(2) by auto
qed simp

text \<open>A hasher that got no data reports one full chunk that ends at offset zero.\<close>

lemma chunked_empty_underflow:
  "chunk_size \<noteq> 0 \<Longrightarrow> chunked_finalize H (ChunkedHasher_new chunk_size)
     = Some [\<lparr>ci_offset = - chunk_size, ci_size = chunk_size, ci_checksum = compute_checksum H []\<rparr>]"
  by (simp add: chunked_finalize_def ChunkedHasher_new_def StreamingHasher_new_def compute_checksum_def
      hasher_update_def Let_def)

lemma update_all_empty: "concat pieces = [] \<Longrightarrow> update_all H h pieces = Some h"
  by (induction pieces) (simp_all add: chunked_update.simps)

lemma update_all_zero:
  "ch_chunk_size h = 0 \<Longrightarrow> update_all H h pieces = (if concat pieces = [] then Some h else None)"
  by (induction pieces) (auto simp: chunked_update.simps)

text \<open>
  (C34) The chunks a hasher reports depend on the data only, not on how it was cut into
  updates.  For any sequence of updates with at least one byte and a chunk size that is not
  zero they are the consecutive pieces of \<open>chunk_size\<close> bytes of the data with their
  offsets, sizes and checksums.  With a chunk size of zero the hasher panics, and for no
  data at all it reports one chunk of \<open>chunk_size\<close> bytes that begins \<open>chunk_size\<close> before
  offset zero, where the subtraction wraps (or panics in a build with overflow checks).
\<close>

theorem chunks_cut_independent:
  assumes "length (concat pieces) < 2 ^ 64"
  shows "Option.bind (update_all H (ChunkedHasher_new chunk_size) pieces) (chunked_finalize H)
           = (if chunk_size = 0 then None
              else if concat pieces = []
              then Some [\<lparr>ci_offset = - chunk_size, ci_size = chunk_size, ci_checksum = compute_checksum H []\<rparr>]
              else Some (chunk_infos H (unat chunk_size) 0 (concat pieces)))"
proof (cases "chunk_size = 0")
  case True
  then have zero: "ch_chunk_size (ChunkedHasher_new chunk_size) = 0" by (simp add: ChunkedHasher_new_def)
  then have "chunked_finalize H (ChunkedHasher_new chunk_size) = None" by (simp add: chunked_finalize_def)
  then show ?thesis using True update_all_zero [OF zero, of H pieces] by simp
next
  case size: False
  show ?thesis
  proof (cases "concat pieces = []")
    case True
    then show ?thesis using size chunked_empty_underflow [OF size, of H] update_all_empty [OF True] by simp
  next
    case False
    obtain h where h: "update_all H (ChunkedHasher_new chunk_size) pieces = Some h"
      "absorbed H h (concat pieces)" "ch_chunk_size h = chunk_size"
      using update_all_absorbed [OF absorbed_new [OF size, of H], of pieces] assms
      by (auto simp: ChunkedHasher_new_def)
    then show ?thesis using size chunked_finalize_absorbed [OF h(2) False assms] by (simp only: if_not_P [OF False]) simp
  qed
qed

definition demo_hash :: hash_api where
  "demo_hash = \<lparr>crc32_of = (\<lambda>b. 0), sha256_of = (\<lambda>b. b), blake3_of = (\<lambda>b. replicate 32 (of_nat (length b)))\<rparr>"

theorem chunks_cut_independent_witness:
  "Option.bind (update_all demo_hash (ChunkedHasher_new 2) [[1], [2, 3]]) (chunked_finalize demo_hash)
     = Some (chunk_infos demo_hash 2 0 [1, 2, 3])
   \<and> Option.bind (update_all demo_hash (ChunkedHasher_new 2) [[], []]) (chunked_finalize demo_hash)
     = Some [\<lparr>ci_offset = - 2, ci_size = 2, ci_checksum = compute_checksum demo_hash []\<rparr>]"
  using chunks_cut_independent [of "[[1], [2, 3]]" demo_hash 2] chunks_cut_independent [of "[[], []]" demo_hash 2] by simp

text \<open>
  (C35) Proofs are complete: in the tree of any non-empty data each chunk has a proof, which
  carries the hash of the chunk and verifies against the root.
\<close>

theorem merkle_proof_verifies:
  assumes "data \<noteq> []" and "chunk_size \<noteq> 0" and "length data < 2 ^ 64" and "i * unat chunk_size < length data"
  shows "\<exists>t p. MerkleTree_new H data chunk_size = Some t \<and> merkle_proof t i = Some p
           \<and> mp_leaf_hash p = blake3_of H (take (unat chunk_size) (drop (i * unat chunk_size) data))
           \<and> merkle_verify H p (mt_root_hash t)"
proof -
  let ?c = "chunk_infos H (unat chunk_size) 0 data"
  have c0: "unat chunk_size \<noteq> 0" using assms(2) by (simp add: unat_eq_zero)
  have i: "i < length ?c" using chunk_infos_nth(1) [OF c0] assms(4) by blast
  have ck: "ci_checksum (?c ! i) = compute_checksum H (take (unat chunk_size) (drop (i * unat chunk_size) data))"
    by (rule chunk_infos_nth(2) [OF c0 assms(4)])
  have "i < length (leaf_nodes ?c)" "mn_hash (leaf_nodes ?c ! i) = cs_blake3 (ci_checksum (?c ! i))"
    using i by (simp_all add: leaf_nodes_def)
  then show ?thesis
    using merkle_new_eq [OF assms(1-3), of H] i ck proof_loop_root [of i "leaf_nodes ?c" H]
    by (simp add: Let_def merkle_proof_def merkle_verify_def compute_checksum_def hasher_finalize_def
        hasher_update_def StreamingHasher_new_def)
qed

theorem merkle_proof_verifies_witness:
  "\<exists>t p. MerkleTree_new demo_hash [1, 2, 3, 4, 5] 2 = Some t \<and> merkle_proof t 2 = Some p
     \<and> mp_leaf_hash p = blake3_of demo_hash [5] \<and> merkle_verify demo_hash p (mt_root_hash t)"
  using merkle_proof_verifies [of "[1, 2, 3, 4, 5]" 2 2 demo_hash] by simp

text \<open>
  Proofs are binding: two proofs with the same directions that verify against the
  same root but differ in the leaf or in a sibling exhibit a collision of the hash
  function at one step of their paths.
\<close>

theorem merkle_proof_binding:
  assumes "merkle_verify H p root" and "merkle_verify H q root"
    and "map snd (mp_proof_hashes p) = map snd (mp_proof_hashes q)"
    and "\<forall>b. length (blake3_of H b) = 32"
    and "length (mp_leaf_hash p) = 32" and "length (mp_leaf_hash q) = 32"
    and "\<forall>s \<in> set (mp_proof_hashes p) \<union> set (mp_proof_hashes q). length (fst s) = 32"
    and "mp_leaf_hash p \<noteq> mp_leaf_hash q \<or> mp_proof_hashes p \<noteq> mp_proof_hashes q"
  shows "\<exists>j < length (mp_proof_hashes p).
           path_inputs H (mp_leaf_hash p) (mp_proof_hashes p) ! j \<noteq> path_inputs H (mp_leaf_hash q) (mp_proof_hashes q) ! j
           \<and> blake3_of H (path_inputs H (mp_leaf_hash p) (mp_proof_hashes p) ! j)
               = blake3_of H (path_inputs H (mp_leaf_hash q) (mp_proof_hashes q) ! j)"
  by (rule path_binding) (use assms in \<open>simp_all add: merkle_verify_def\<close>)

theorem merkle_proof_binding_witness:
  "\<exists>j < length [(replicate 32 (0::u8), True)].
     path_inputs demo_hash (replicate 32 1) [(replicate 32 0, True)] ! j
       \<noteq> path_inputs demo_hash (replicate 32 0) [(replicate 32 1, True)] ! j"
proof -
  let ?z = "replicate 32 (0::u8)" and ?o = "replicate 32 (1::u8)"
  let ?p = "\<lparr>mp_leaf_hash = ?o, mp_leaf_index = 0, mp_proof_hashes = [(?z, True)], mp_chunk_size = 2\<rparr>"
  let ?q = "\<lparr>mp_leaf_hash = ?z, mp_leaf_index = 0, mp_proof_hashes = [(?o, True)], mp_chunk_size = 2\<rparr>"
  let ?r = "blake3_of demo_hash (?o @ ?z)"
  have "merkle_verify demo_hash ?p ?r" "merkle_verify demo_hash ?q ?r"
    by (simp_all add: merkle_verify_def demo_hash_def)
  from merkle_proof_binding [OF this] show ?thesis by (auto simp: demo_hash_def)
qed

text \<open>
  The root does not determine the data: when the data fills an odd number of chunks
  greater than one, repeating its last chunk gives different data with the same root.
\<close>

theorem merkle_root_ambiguous:
  assumes "length data = n * unat chunk_size" and "odd n" and "1 < n" and "chunk_size \<noteq> 0"
    and "length data + unat chunk_size < 2 ^ 64"
  shows "\<exists>t t'. MerkleTree_new H data chunk_size = Some t
           \<and> MerkleTree_new H (data @ drop ((n - 1) * unat chunk_size) data) chunk_size = Some t'
           \<and> data @ drop ((n - 1) * unat chunk_size) data \<noteq> data
           \<and> mt_root_hash t = mt_root_hash t'"
proof -
  define cs where "cs = unat chunk_size"
  have c0: "cs \<noteq> 0" using assms(4) by (simp add: cs_def unat_eq_zero)
  obtain m where m: "n = Suc m" "0 < m" using assms(3) by (cases n) auto
  define l where "l = drop (m * cs) data"
  have len: "length data = n * cs" "length l = cs" "length (take (m * cs) data) = m * cs" "l \<noteq> []"
    using assms(1) m c0 by (auto simp: cs_def [symmetric] l_def)
  let ?c = "chunk_infos H cs 0 data" and ?c' = "chunk_infos H cs 0 (data @ l)"
  let ?info = "\<lambda>off. \<lparr>ci_offset = of_nat off, ci_size = of_nat cs, ci_checksum = compute_checksum H l\<rparr>"
  have one: "chunk_infos H cs off l = [?info off]" for off
    using chunk_infos_short [OF len(4) eq_refl [OF len(2)], of H off] by (simp only: len(2))
  have "?c = chunk_infos H cs 0 (take (m * cs) data) @ chunk_infos H cs (m * cs) l"
    using chunk_infos_append [OF c0 len(3), of H 0 l] len(3) by (simp add: l_def)
  then have cl: "?c \<noteq> []" "last ?c = ?info (m * cs)" by (simp_all add: one)
  have c': "?c' = ?c @ [?info (n * cs)]"
    using chunk_infos_append [OF c0 len(1), of H 0 l] len(1) by (simp add: one)
  have "i < length ?c \<longleftrightarrow> i < n" for i using chunk_infos_nth(1) [OF c0, of i H 0 data] len(1) c0 by simp
  then have lc: "length ?c = n" by (metis less_irrefl linorder_neqE_nat)
  let ?x = "\<lparr>mn_hash = cs_blake3 (ci_checksum (?info (n * cs))), mn_offset = of_nat (n * cs), mn_size = of_nat cs\<rparr>"
  have ln: "leaf_nodes ?c' = leaf_nodes ?c @ [?x]" by (simp add: c' leaf_nodes_def)
  have "last (leaf_nodes ?c) = \<lparr>mn_hash = cs_blake3 (ci_checksum (last ?c)), mn_offset = ci_offset (last ?c),
      mn_size = ci_size (last ?c)\<rparr>" using cl(1) by (simp add: leaf_nodes_def last_map)
  then have "pair_and_hash H (leaf_nodes ?c') = pair_and_hash H (leaf_nodes ?c)"
    unfolding ln by (intro pair_and_hash_duplicate) (use cl(2) lc assms(2) in \<open>simp_all add: leaf_nodes_def\<close>)
  moreover have "build_levels H ns = ns # build_levels H (pair_and_hash H ns)" if "1 < length ns" for ns
    using that by (subst build_levels.simps) simp
  moreover have "1 < length (leaf_nodes ?c)" "1 < length (leaf_nodes ?c')"
    using lc assms(3) by (simp_all add: c' leaf_nodes_def)
  ultimately have "last (build_levels H (leaf_nodes ?c')) = last (build_levels H (leaf_nodes ?c))"
    using build_levels_nonempty by (metis last_ConsR list.distinct(1))
  moreover have "data \<noteq> []" "length data < 2 ^ 64" "length (data @ l) < 2 ^ 64"
    using len(1,2) m c0 assms(5) by (auto simp: cs_def [symmetric])
  ultimately show ?thesis
    using merkle_new_eq [of data chunk_size H] merkle_new_eq [of "data @ l" chunk_size H] assms(4) len(4) m
    by (simp add: Let_def cs_def [symmetric] l_def [symmetric])
qed

theorem merkle_root_ambiguous_witness:
  "\<exists>t t'. MerkleTree_new demo_hash [1, 2, 3] 1 = Some t \<and> MerkleTree_new demo_hash [1, 2, 3, 3] 1 = Some t'
     \<and> mt_root_hash t = mt_root_hash t'"
  using merkle_root_ambiguous [of "[1, 2, 3]" 3 1 demo_hash] by simp

end
