(* ===== verification/Workspace_Index.thy ===== *)
theory Workspace_Index
  imports Ids Machines "HOL-Library.RBT"
begin

text \<open>
  The tree of workspaces (vo-types/src/workspace): names, paths, metadata and the index
  with its operations.  \<open>nodes\<close> is a \<open>BTreeMap\<close>, modelled by a red-black tree of the
  library; the path index is only looked up and is a map.  The loops that climb from a
  node to its root, and the one that collects a subtree, follow links between nodes and
  would not end on a cycle of links, so they are partial functions whose value \<open>None\<close> is a
  loop that runs for ever.  The main results are that every operation returns and keeps
  the index a forest, what each operation does to the forest, and that the path index
  agrees with the forest as long as nothing is moved.
\<close>

section \<open>Names and identifiers\<close>

type_synonym WorkspaceId = "128 word"
type_synonym WorkspaceName = string
type_synonym WorkspacePath = "WorkspaceName list"

text \<open>
  \<open>WorkspaceId::generate\<close>: the fresh identifier of the ulid crate is an argument, the
  last one handed out is the process-wide \<open>LAST_ULID\<close>.
\<close>

definition WorkspaceId_generate ::
  "128 word \<Rightarrow> 128 word option \<Rightarrow> WorkspaceId \<times> 128 word option" where
  "WorkspaceId_generate fresh last_ulid =
     (let ulid = (case last_ulid of
                    Some prev \<Rightarrow> if fresh \<le> prev then prev + 1 else fresh
                  | None \<Rightarrow> fresh)
      in (ulid, Some ulid))"

definition is_workspace_char :: "char \<Rightarrow> bool" where
  "is_workspace_char c = (97 \<le> code c \<and> code c \<le> 122 \<or> is_ascii_digit c \<or> c = CHR ''-'')"

definition WorkspaceName_parse :: "string \<Rightarrow> ParseError + WorkspaceName" where
  "WorkspaceName_parse input =
     (if input = [] then Inl (Empty ''WorkspaceName'')
      else if 64 < length input then Inl (ExceedsMaxLength ''WorkspaceName'' 64 (length input))
      else if \<not> list_all is_workspace_char input
      then Inl (InvalidCharacters ''WorkspaceName'' (filter (\<lambda>c. \<not> is_workspace_char c) input))
      else if hd input = CHR ''-''
      then Inl (BoundaryViolation ''WorkspaceName'' ''must not start with hyphen'')
      else if last input = CHR ''-''
      then Inl (BoundaryViolation ''WorkspaceName'' ''must not end with hyphen'')
      else if contains_str ''--'' input then Inl (ConsecutiveHyphens ''WorkspaceName'')
      else Inr input)"

datatype WorkspaceIndexError =
    WI_WorkspaceNotFound WorkspaceId
  | WI_PathNotFound WorkspacePath
  | WI_ParentNotFound WorkspaceId
  | WI_CyclicMoveDetected WorkspaceId WorkspaceId
  | WI_DuplicatePath WorkspacePath
  | WI_DuplicateName WorkspaceId WorkspaceName
  | WI_CannotDeleteWorkspaceWithInstances WorkspaceId u32
  | WI_CannotDeleteWorkspaceWithChildren WorkspaceId u32
  | WI_InvalidWorkspaceName string
  | WI_EmptyPathSegment
  | WI_PathTooDeep u32 u32
  | WI_MetadataKeyTooLong nat nat
  | WI_MetadataValueTooLong nat nat
  | WI_TooManyMetadataEntries nat nat
  | WI_IndexNotInitialized
  | WI_SnapshotCorrupted u64 u64
  | WI_VersionMismatch u64 u64
  | WI_StorageWriteFailed string
  | WI_StorageReadFailed string

section \<open>Paths\<close>

text \<open>A path is a non-empty list of names; every caller below passes one.\<close>

definition WorkspacePath_new :: "WorkspaceName list \<Rightarrow> WorkspaceIndexError + WorkspacePath" where
  "WorkspacePath_new segments =
     (if 16 < length segments then Inl (WI_PathTooDeep 16 (of_nat (length segments)))
      else Inr segments)"

definition path_single :: "WorkspaceName \<Rightarrow> WorkspaceIndexError + WorkspacePath" where
  "path_single name = WorkspacePath_new [name]"

definition path_child :: "WorkspacePath \<Rightarrow> WorkspaceName \<Rightarrow> WorkspaceIndexError + WorkspacePath" where
  "path_child path name = WorkspacePath_new (path @ [name])"

fun path_to_string :: "WorkspacePath \<Rightarrow> string" where
  "path_to_string [] = []"
| "path_to_string [name] = name"
| "path_to_string (name # rest) = name @ CHR ''/'' # path_to_string rest"

text \<open>\<open>str::split('/')\<close>, and the collection of results that stops at the first error.\<close>

fun split_slash :: "string \<Rightarrow> string list" where
  "split_slash [] = [[]]"
| "split_slash (c # cs) =
     (if c = CHR ''/'' then [] # split_slash cs
      else (case split_slash cs of [] \<Rightarrow> [[c]] | s # ss \<Rightarrow> (c # s) # ss))"

fun collect_names :: "string list \<Rightarrow> ParseError + WorkspaceName list" where
  "collect_names [] = Inr []"
| "collect_names (s # ss) =
     and_then (WorkspaceName_parse s) (\<lambda>n. and_then (collect_names ss) (\<lambda>ns. Inr (n # ns)))"

datatype path_text_error = PT_Name ParseError | PT_Empty | PT_Path WorkspaceIndexError

definition path_deserialize :: "string \<Rightarrow> path_text_error + WorkspacePath" where
  "path_deserialize s =
     and_then (map_err PT_Name (collect_names (split_slash s)))
       (\<lambda>segments. and_then (map_err (\<lambda>_. PT_Empty) (NonEmptyVec_new segments))
         (\<lambda>segments. map_err PT_Path (WorkspacePath_new segments)))"

section \<open>Nodes\<close>

text \<open>The entries of the metadata are a \<open>BTreeMap\<close>, listed in the order of their keys.\<close>

type_synonym WorkspaceMetadata = "(string \<times> string) list"

fun check_entries :: "(string \<times> string) list \<Rightarrow> WorkspaceIndexError + unit" where
  "check_entries [] = Inr ()"
| "check_entries ((key, value) # rest) =
     (if 128 < length key then Inl (WI_MetadataKeyTooLong 128 (length key))
      else if 4096 < length value then Inl (WI_MetadataValueTooLong 4096 (length value))
      else check_entries rest)"

definition metadata_validate :: "WorkspaceMetadata \<Rightarrow> WorkspaceIndexError + unit" where
  "metadata_validate entries =
     (if 64 < length entries then Inl (WI_TooManyMetadataEntries 64 (length entries))
      else check_entries entries)"

record WorkspaceNode =
  wn_id :: WorkspaceId
  wn_name :: WorkspaceName
  wn_parent_id :: "WorkspaceId option"
  wn_children :: "WorkspaceId list"
  wn_metadata :: WorkspaceMetadata
  wn_created_at :: TimestampMs
  wn_updated_at :: TimestampMs

definition WorkspaceNode_new_root ::
  "WorkspaceId \<Rightarrow> WorkspaceName \<Rightarrow> WorkspaceMetadata \<Rightarrow> TimestampMs \<Rightarrow> WorkspaceNode" where
  "WorkspaceNode_new_root i name metadata now =
     \<lparr>wn_id = i, wn_name = name, wn_parent_id = None, wn_children = [], wn_metadata = metadata,
      wn_created_at = now, wn_updated_at = now\<rparr>"

definition WorkspaceNode_new_child ::
  "WorkspaceId \<Rightarrow> WorkspaceName \<Rightarrow> WorkspaceId \<Rightarrow> WorkspaceMetadata \<Rightarrow> TimestampMs \<Rightarrow> WorkspaceNode" where
  "WorkspaceNode_new_child i name parent metadata now =
     \<lparr>wn_id = i, wn_name = name, wn_parent_id = Some parent, wn_children = [], wn_metadata = metadata,
      wn_created_at = now, wn_updated_at = now\<rparr>"

section \<open>The index\<close>

type_synonym workspace_nodes = "(WorkspaceId, WorkspaceNode) RBT.rbt"

record WorkspaceIndex =
  wi_nodes :: workspace_nodes
  wi_root_ids :: "WorkspaceId list"
  wi_path_index :: "WorkspacePath \<rightharpoonup> WorkspaceId"
  wi_version :: u64
  wi_initialized :: bool

definition WorkspaceIndex_new :: WorkspaceIndex where
  "WorkspaceIndex_new =
     \<lparr>wi_nodes = RBT.empty, wi_root_ids = [], wi_path_index = Map.empty, wi_version = 0,
      wi_initialized = True\<rparr>"

subsection \<open>Climbing and collecting\<close>

partial_function (option) path_loop ::
  "workspace_nodes \<Rightarrow> WorkspaceId option \<Rightarrow> WorkspaceName list
     \<Rightarrow> (WorkspaceIndexError + WorkspaceName list) option" where
  "path_loop nodes current segments =
     (case current of
        None \<Rightarrow> Some (Inr segments)
      | Some pid \<Rightarrow>
          (case RBT.lookup nodes pid of
             None \<Rightarrow> Some (Inl (WI_WorkspaceNotFound pid))
           | Some parent \<Rightarrow> path_loop nodes (wn_parent_id parent) (wn_name parent # segments)))"

definition compute_path ::
  "WorkspaceIndex \<Rightarrow> WorkspaceId \<Rightarrow> (WorkspaceIndexError + WorkspacePath) option" where
  "compute_path x i =
     (case RBT.lookup (wi_nodes x) i of
        None \<Rightarrow> Some (Inl (WI_WorkspaceNotFound i))
      | Some node \<Rightarrow>
          map_option (\<lambda>r. and_then r WorkspacePath_new)
            (path_loop (wi_nodes x) (wn_parent_id node) [wn_name node]))"

partial_function (option) descendant_loop ::
  "workspace_nodes \<Rightarrow> WorkspaceNode option \<Rightarrow> WorkspaceId \<Rightarrow> bool option" where
  "descendant_loop nodes current ancestor_id =
     (case current of
        None \<Rightarrow> Some False
      | Some node \<Rightarrow>
          if wn_parent_id node = Some ancestor_id then Some True
          else descendant_loop nodes (Option.bind (wn_parent_id node) (RBT.lookup nodes)) ancestor_id)"

definition is_descendant :: "WorkspaceIndex \<Rightarrow> WorkspaceId \<Rightarrow> WorkspaceId \<Rightarrow> bool option" where
  "is_descendant x i ancestor_id = descendant_loop (wi_nodes x) (RBT.lookup (wi_nodes x) i) ancestor_id"

text \<open>The stack is a vector: \<open>pop\<close> takes its last element.\<close>

partial_function (option) collect_loop ::
  "workspace_nodes \<Rightarrow> WorkspaceId list \<Rightarrow> WorkspaceId list \<Rightarrow> WorkspaceId list option" where
  "collect_loop nodes stack result =
     (if stack = [] then Some result
      else collect_loop nodes
             (butlast stack @
                (case RBT.lookup nodes (last stack) of Some node \<Rightarrow> wn_children node | None \<Rightarrow> []))
             (result @ [last stack]))"

definition collect_descendants :: "WorkspaceIndex \<Rightarrow> WorkspaceId \<Rightarrow> WorkspaceId list option" where
  "collect_descendants x i =
     collect_loop (wi_nodes x)
       (case RBT.lookup (wi_nodes x) i of Some node \<Rightarrow> wn_children node | None \<Rightarrow> []) []"

declare path_loop.simps [code] descendant_loop.simps [code] collect_loop.simps [code]

subsection \<open>Insertion\<close>

definition insert_path ::
  "WorkspaceIndex \<Rightarrow> WorkspaceId option \<Rightarrow> WorkspaceName \<Rightarrow> (WorkspaceIndexError + WorkspacePath) option" where
  "insert_path x parent_id name =
     (case parent_id of
        Some pid \<Rightarrow>
          if RBT.lookup (wi_nodes x) pid = None then Some (Inl (WI_ParentNotFound pid))
          else map_option (\<lambda>r. and_then r (\<lambda>parent_path. path_child parent_path name)) (compute_path x pid)
      | None \<Rightarrow> Some (path_single name))"

definition push_child :: "WorkspaceId \<Rightarrow> WorkspaceNode \<Rightarrow> WorkspaceNode" where
  "push_child i node = node\<lparr>wn_children := wn_children node @ [i]\<rparr>"

definition drop_child :: "WorkspaceId \<Rightarrow> WorkspaceNode \<Rightarrow> WorkspaceNode" where
  "drop_child i node = node\<lparr>wn_children := filter (\<lambda>c. c \<noteq> i) (wn_children node)\<rparr>"

definition workspace_insert ::
  "WorkspaceIndex \<Rightarrow> WorkspaceId option \<Rightarrow> WorkspaceName \<Rightarrow> WorkspaceMetadata \<Rightarrow> TimestampMs
     \<Rightarrow> 128 word \<Rightarrow> 128 word option
     \<Rightarrow> ((WorkspaceIndexError + WorkspaceId) \<times> WorkspaceIndex \<times> 128 word option) option" where
  "workspace_insert x parent_id name metadata now fresh last_ulid =
     (if \<not> wi_initialized x then Some (Inl WI_IndexNotInitialized, x, last_ulid)
      else
        (case metadata_validate metadata of
           Inl e \<Rightarrow> Some (Inl e, x, last_ulid)
         | Inr _ \<Rightarrow>
             (case insert_path x parent_id name of
                None \<Rightarrow> None
              | Some (Inl e) \<Rightarrow> Some (Inl e, x, last_ulid)
              | Some (Inr path) \<Rightarrow>
                  if wi_path_index x path \<noteq> None then Some (Inl (WI_DuplicatePath path), x, last_ulid)
                  else
                    (case WorkspaceId_generate fresh last_ulid of
                       (i, last_ulid') \<Rightarrow>
                         let node = (case parent_id of
                                       Some pid \<Rightarrow> WorkspaceNode_new_child i name pid metadata now
                                     | None \<Rightarrow> WorkspaceNode_new_root i name metadata now);
                             nodes = RBT.insert i node (wi_nodes x)
                         in Some (Inr i,
                              x\<lparr>wi_nodes := (case parent_id of
                                              Some pid \<Rightarrow> RBT.map_entry pid (push_child i) nodes
                                            | None \<Rightarrow> nodes),
                                wi_root_ids := (case parent_id of
                                                  Some _ \<Rightarrow> wi_root_ids x
                                                | None \<Rightarrow> wi_root_ids x @ [i]),
                                wi_path_index := (wi_path_index x)(path \<mapsto> i),
                                wi_version := wi_version x + 1\<rparr>,
                              last_ulid')))))"

subsection \<open>Deletion\<close>

fun remove_paths :: "WorkspaceIndex \<Rightarrow> WorkspaceId list \<Rightarrow> WorkspaceIndex option" where
  "remove_paths x [] = Some x"
| "remove_paths x (i # is) =
     (case compute_path x i of
        None \<Rightarrow> None
      | Some (Inr path) \<Rightarrow> remove_paths (x\<lparr>wi_path_index := (wi_path_index x)(path := None)\<rparr>) is
      | Some (Inl _) \<Rightarrow> remove_paths x is)"

definition unlink :: "WorkspaceIndex \<Rightarrow> WorkspaceId option \<Rightarrow> WorkspaceId \<Rightarrow> WorkspaceIndex" where
  "unlink x parent_id i =
     (case parent_id of
        Some pid \<Rightarrow> x\<lparr>wi_nodes := RBT.map_entry pid (drop_child i) (wi_nodes x)\<rparr>
      | None \<Rightarrow> x\<lparr>wi_root_ids := filter (\<lambda>r. r \<noteq> i) (wi_root_ids x)\<rparr>)"

definition workspace_delete ::
  "WorkspaceIndex \<Rightarrow> WorkspaceId \<Rightarrow> ((WorkspaceIndexError + unit) \<times> WorkspaceIndex) option" where
  "workspace_delete x i =
     (if \<not> wi_initialized x then Some (Inl WI_IndexNotInitialized, x)
      else
        (case RBT.lookup (wi_nodes x) i of
           None \<Rightarrow> Some (Inl (WI_WorkspaceNotFound i), x)
         | Some node \<Rightarrow>
             (case collect_descendants x i of
                None \<Rightarrow> None
              | Some descendants \<Rightarrow>
                  (case remove_paths x (i # descendants) of
                     None \<Rightarrow> None
                   | Some x1 \<Rightarrow>
                       let x2 = unlink x1 (wn_parent_id node) i
                       in Some (Inr (),
                            x2\<lparr>wi_nodes := fold RBT.delete (i # descendants) (wi_nodes x2),
                               wi_version := wi_version x2 + 1\<rparr>)))))"

subsection \<open>Moving\<close>

text \<open>The guards of a move to a new parent, in the order of the code.\<close>

definition check_new_parent ::
  "WorkspaceIndex \<Rightarrow> WorkspaceId \<Rightarrow> WorkspaceName \<Rightarrow> WorkspaceId \<Rightarrow> (WorkspaceIndexError + unit) option" where
  "check_new_parent x i node_name npid =
     (if npid = i then Some (Inl (WI_CyclicMoveDetected i npid))
      else if RBT.lookup (wi_nodes x) npid = None then Some (Inl (WI_ParentNotFound npid))
      else
        (case is_descendant x npid i of
           None \<Rightarrow> None
         | Some True \<Rightarrow> Some (Inl (WI_CyclicMoveDetected i npid))
         | Some False \<Rightarrow>
             (case RBT.lookup (wi_nodes x) npid of
                None \<Rightarrow> Some (Inr ())
              | Some new_parent \<Rightarrow>
                  if list_ex (\<lambda>c. case RBT.lookup (wi_nodes x) c of
                                    Some child_node \<Rightarrow> wn_name child_node = node_name
                                  | None \<Rightarrow> False) (wn_children new_parent)
                  then Some (Inl (WI_DuplicateName npid node_name)) else Some (Inr ()))))"

fun computed_paths :: "WorkspaceIndex \<Rightarrow> WorkspaceId list \<Rightarrow> WorkspacePath list option" where
  "computed_paths x [] = Some []"
| "computed_paths x (i # is) =
     (case compute_path x i of
        None \<Rightarrow> None
      | Some r \<Rightarrow>
          map_option (\<lambda>paths. case r of Inr path \<Rightarrow> path # paths | Inl _ \<Rightarrow> paths) (computed_paths x is))"

definition extend_segments ::
  "workspace_nodes \<Rightarrow> WorkspaceId \<Rightarrow> WorkspaceName list \<Rightarrow> WorkspaceName list" where
  "extend_segments nodes d segments =
     (case RBT.lookup nodes d of
        Some desc_node \<Rightarrow>
          (case wn_children desc_node of
             [] \<Rightarrow> segments
           | child # _ \<Rightarrow>
               (case RBT.lookup nodes child of
                  Some child_node \<Rightarrow> segments @ [wn_name child_node]
                | None \<Rightarrow> segments))
      | None \<Rightarrow> segments)"

text \<open>The loop that gives the moved nodes their entries; \<open>n\<close> is its counter.\<close>

fun reindex ::
  "workspace_nodes \<Rightarrow> WorkspaceId list \<Rightarrow> nat \<Rightarrow> WorkspaceId list \<Rightarrow> WorkspaceName list
     \<Rightarrow> (WorkspacePath \<rightharpoonup> WorkspaceId) \<Rightarrow> (WorkspaceIndexError + unit) \<times> (WorkspacePath \<rightharpoonup> WorkspaceId)" where
  "reindex nodes descendants n [] segments index = (Inr (), index)"
| "reindex nodes descendants n (d # rest) segments index =
     (case WorkspacePath_new segments of
        Inl e \<Rightarrow> (Inl e, index)
      | Inr path \<Rightarrow>
          reindex nodes descendants (Suc n) rest
            (if n < length descendants then extend_segments nodes (descendants ! n) segments else segments)
            (index(path \<mapsto> d)))"

definition relink ::
  "WorkspaceIndex \<Rightarrow> WorkspaceId \<Rightarrow> WorkspaceId option \<Rightarrow> WorkspaceId option \<Rightarrow> TimestampMs \<Rightarrow> WorkspaceIndex" where
  "relink x i old_parent_id new_parent_id now =
     (let x1 = unlink x old_parent_id i;
          x2 = (case new_parent_id of
                  Some npid \<Rightarrow> x1\<lparr>wi_nodes := RBT.map_entry npid (push_child i) (wi_nodes x1)\<rparr>
                | None \<Rightarrow> x1\<lparr>wi_root_ids := wi_root_ids x1 @ [i]\<rparr>)
      in x2\<lparr>wi_nodes := RBT.map_entry i
                          (\<lambda>node. node\<lparr>wn_parent_id := new_parent_id, wn_updated_at := now\<rparr>)
                          (wi_nodes x2)\<rparr>)"

definition new_segments ::
  "WorkspaceIndex \<Rightarrow> WorkspaceId option \<Rightarrow> WorkspaceName \<Rightarrow> (WorkspaceIndexError + WorkspaceName list) option" where
  "new_segments x new_parent_id node_name =
     (case new_parent_id of
        Some npid \<Rightarrow>
          map_option (\<lambda>r. and_then r (\<lambda>parent_path. Inr (parent_path @ [node_name]))) (compute_path x npid)
      | None \<Rightarrow> Some (Inr [node_name]))"

definition workspace_move ::
  "WorkspaceIndex \<Rightarrow> WorkspaceId \<Rightarrow> WorkspaceId option \<Rightarrow> TimestampMs
     \<Rightarrow> ((WorkspaceIndexError + unit) \<times> WorkspaceIndex) option" where
  "workspace_move x i new_parent_id now =
     (if \<not> wi_initialized x then Some (Inl WI_IndexNotInitialized, x)
      else
        (case RBT.lookup (wi_nodes x) i of
           None \<Rightarrow> Some (Inl (WI_WorkspaceNotFound i), x)
         | Some node \<Rightarrow>
             if wn_parent_id node = new_parent_id
             then Some (Inr (), x\<lparr>wi_version := wi_version x + 1\<rparr>)
             else
               (case (case new_parent_id of
                        Some npid \<Rightarrow> check_new_parent x i (wn_name node) npid
                      | None \<Rightarrow> Some (Inr ())) of
                  None \<Rightarrow> None
                | Some (Inl e) \<Rightarrow> Some (Inl e, x)
                | Some (Inr _) \<Rightarrow>
                    (case collect_descendants x i of
                       None \<Rightarrow> None
                     | Some descendants \<Rightarrow>
                         let x1 = relink x i (wn_parent_id node) new_parent_id now
                         in (case computed_paths x1 (i # descendants) of
                               None \<Rightarrow> None
                             | Some old_paths \<Rightarrow>
                                 let x2 = x1\<lparr>wi_path_index :=
                                               fold (\<lambda>path m. m(path := None)) old_paths (wi_path_index x1)\<rparr>
                                 in (case new_segments x2 new_parent_id (wn_name node) of
                                       None \<Rightarrow> None
                                     | Some (Inl e) \<Rightarrow> Some (Inl e, x2)
                                     | Some (Inr segments) \<Rightarrow>
                                         (case reindex (wi_nodes x2) descendants 0 (i # descendants) segments
                                                 (wi_path_index x2) of
                                            (Inl e, index) \<Rightarrow> Some (Inl e, x2\<lparr>wi_path_index := index\<rparr>)
                                          | (Inr _, index) \<Rightarrow>
                                              Some (Inr (), x2\<lparr>wi_path_index := index,
                                                               wi_version := wi_version x2 + 1\<rparr>))))))))"

subsection \<open>Metadata and queries\<close>

definition update_metadata ::
  "WorkspaceIndex \<Rightarrow> WorkspaceId \<Rightarrow> WorkspaceMetadata \<Rightarrow> TimestampMs
     \<Rightarrow> (WorkspaceIndexError + unit) \<times> WorkspaceIndex" where
  "update_metadata x i metadata now =
     (if \<not> wi_initialized x then (Inl WI_IndexNotInitialized, x)
      else
        (case metadata_validate metadata of
           Inl e \<Rightarrow> (Inl e, x)
         | Inr _ \<Rightarrow>
             if RBT.lookup (wi_nodes x) i = None then (Inl (WI_WorkspaceNotFound i), x)
             else (Inr (),
                   x\<lparr>wi_nodes := RBT.map_entry i
                                   (\<lambda>node. node\<lparr>wn_metadata := metadata, wn_updated_at := now\<rparr>) (wi_nodes x),
                     wi_version := wi_version x + 1\<rparr>)))"

definition find_by_path :: "WorkspaceIndex \<Rightarrow> WorkspacePath \<Rightarrow> WorkspaceIndexError + WorkspaceId" where
  "find_by_path x path = ok_or (WI_PathNotFound path) (wi_path_index x path)"

definition find_by_id :: "WorkspaceIndex \<Rightarrow> WorkspaceId \<Rightarrow> WorkspaceIndexError + WorkspaceNode" where
  "find_by_id x i = ok_or (WI_WorkspaceNotFound i) (RBT.lookup (wi_nodes x) i)"

definition list_children :: "WorkspaceIndex \<Rightarrow> WorkspaceId \<Rightarrow> WorkspaceIndexError + WorkspaceId list" where
  "list_children x i =
     and_then (ok_or (WI_WorkspaceNotFound i) (RBT.lookup (wi_nodes x) i)) (\<lambda>node. Inr (wn_children node))"

partial_function (option) ancestor_loop ::
  "workspace_nodes \<Rightarrow> WorkspaceId option \<Rightarrow> WorkspaceId list
     \<Rightarrow> (WorkspaceIndexError + WorkspaceId list) option" where
  "ancestor_loop nodes current ancestors =
     (case current of
        None \<Rightarrow> Some (Inr ancestors)
      | Some pid \<Rightarrow>
          (case RBT.lookup nodes pid of
             None \<Rightarrow> Some (Inl (WI_WorkspaceNotFound pid))
           | Some parent \<Rightarrow> ancestor_loop nodes (wn_parent_id parent) (ancestors @ [pid])))"

declare ancestor_loop.simps [code]

definition get_ancestors ::
  "WorkspaceIndex \<Rightarrow> WorkspaceId \<Rightarrow> (WorkspaceIndexError + WorkspaceId list) option" where
  "get_ancestors x i =
     (case RBT.lookup (wi_nodes x) i of
        None \<Rightarrow> Some (Inl (WI_WorkspaceNotFound i))
      | Some node \<Rightarrow>
          map_option (\<lambda>r. and_then r (\<lambda>ancestors. Inr (rev ancestors)))
            (ancestor_loop (wi_nodes x) (wn_parent_id node) []))"

definition get_descendants ::
  "WorkspaceIndex \<Rightarrow> WorkspaceId \<Rightarrow> (WorkspaceIndexError + WorkspaceId list) option" where
  "get_descendants x i =
     (case RBT.lookup (wi_nodes x) i of
        None \<Rightarrow> Some (Inl (WI_WorkspaceNotFound i))
      | Some node \<Rightarrow> map_option Inr (collect_loop (wi_nodes x) (wn_children node) []))"

fun missing_child :: "workspace_nodes \<Rightarrow> WorkspaceId list \<Rightarrow> WorkspaceIndexError + unit" where
  "missing_child nodes [] = Inr ()"
| "missing_child nodes (c # cs) =
     (if RBT.lookup nodes c = None then Inl (WI_WorkspaceNotFound c) else missing_child nodes cs)"

definition verify_node ::
  "WorkspaceIndex \<Rightarrow> WorkspaceId \<Rightarrow> WorkspaceNode \<Rightarrow> (WorkspaceIndexError + unit) option" where
  "verify_node x i node =
     map_option (\<lambda>r. and_then r (\<lambda>_. missing_child (wi_nodes x) (wn_children node)))
       (case wn_parent_id node of
          None \<Rightarrow>
            Some (if i \<in> set (wi_root_ids x) then Inr ()
                  else and_then (path_single (wn_name node)) (\<lambda>path. Inl (WI_DuplicatePath path)))
        | Some pid \<Rightarrow>
            (case RBT.lookup (wi_nodes x) pid of
               None \<Rightarrow> Some (Inl (WI_ParentNotFound pid))
             | Some parent \<Rightarrow>
                 if i \<in> set (wn_children parent) then Some (Inr ())
                 else map_option (\<lambda>r. and_then r (\<lambda>path. Inl (WI_DuplicatePath path))) (compute_path x i)))"

fun verify_nodes ::
  "WorkspaceIndex \<Rightarrow> (WorkspaceId \<times> WorkspaceNode) list \<Rightarrow> (WorkspaceIndexError + unit) option" where
  "verify_nodes x [] = Some (Inr ())"
| "verify_nodes x ((i, node) # rest) =
     (case verify_node x i node of
        None \<Rightarrow> None
      | Some (Inl e) \<Rightarrow> Some (Inl e)
      | Some (Inr _) \<Rightarrow> verify_nodes x rest)"

fun verify_roots :: "workspace_nodes \<Rightarrow> WorkspaceId list \<Rightarrow> WorkspaceIndexError + unit" where
  "verify_roots nodes [] = Inr ()"
| "verify_roots nodes (r # rs) =
     (case RBT.lookup nodes r of
        None \<Rightarrow> Inl (WI_WorkspaceNotFound r)
      | Some node \<Rightarrow>
          if wn_parent_id node \<noteq> None
          then and_then (path_single (wn_name node)) (\<lambda>path. Inl (WI_DuplicatePath path))
          else verify_roots nodes rs)"

definition verify_invariants :: "WorkspaceIndex \<Rightarrow> (WorkspaceIndexError + unit) option" where
  "verify_invariants x =
     (if \<not> wi_initialized x then Some (Inl WI_IndexNotInitialized)
      else map_option (\<lambda>r. and_then r (\<lambda>_. verify_roots (wi_nodes x) (wi_root_ids x)))
             (verify_nodes x (RBT.entries (wi_nodes x))))"

section \<open>Forests\<close>

text \<open>
  \<open>parents N\<close> relates each node to its children, read from the parent links.  In a forest
  the lists of children and the list of roots say the same, and there is no cycle.
\<close>

definition parents :: "(WorkspaceId \<rightharpoonup> WorkspaceNode) \<Rightarrow> (WorkspaceId \<times> WorkspaceId) set" where
  "parents N = {(p, c). \<exists>n. N c = Some n \<and> wn_parent_id n = Some p}"

definition forest :: "(WorkspaceId \<rightharpoonup> WorkspaceNode) \<Rightarrow> WorkspaceId list \<Rightarrow> bool" where
  "forest N roots \<longleftrightarrow>
     finite (dom N)
     \<and> (\<forall>i n. N i = Some n \<longrightarrow> wn_id n = i \<and> distinct (wn_children n)
                \<and> set (wn_children n) = parents N `` {i})
     \<and> fst ` parents N \<subseteq> dom N
     \<and> distinct roots \<and> (\<forall>i. i \<in> set roots \<longleftrightarrow> (\<exists>n. N i = Some n \<and> wn_parent_id n = None))
     \<and> acyclic (parents N)"

lemma parents_unique: "(p, c) \<in> parents N \<Longrightarrow> (q, c) \<in> parents N \<Longrightarrow> p = q"
  by (auto simp: parents_def)

lemma parents_dom: "(p, c) \<in> parents N \<Longrightarrow> c \<in> dom N"
  by (auto simp: parents_def)

lemma forest_parent_dom: "forest N roots \<Longrightarrow> (p, c) \<in> parents N \<Longrightarrow> p \<in> dom N"
  unfolding forest_def by (auto simp: image_iff)

lemma forest_children: "forest N roots \<Longrightarrow> N i = Some n \<Longrightarrow> set (wn_children n) = parents N `` {i}"
  by (simp add: forest_def)

lemma forest_wf:
  assumes "forest N roots"
  shows "wf (parents N)" and "wf ((parents N)\<inverse>)"
proof -
  have "parents N \<subseteq> dom N \<times> dom N"
    using parents_dom forest_parent_dom [OF assms] by fast
  then have f: "finite (parents N)"
    using assms by (meson finite_SigmaI finite_subset forest_def)
  show "wf (parents N)" using f assms by (simp add: forest_def finite_acyclic_wf)
  show "wf ((parents N)\<inverse>)" using f assms by (simp add: forest_def finite_acyclic_wf_converse)
qed

lemma forest_finite_below:
  assumes "forest N roots" and "finite S"
  shows "finite ((parents N)\<^sup>* `` S)"
proof -
  have "(parents N)\<^sup>* `` S \<subseteq> S \<union> dom N"
    by (auto elim: rtranclE dest: parents_dom)
  then show ?thesis using assms by (meson finite_UnI finite_subset forest_def)
qed

lemma forest_no_self: "forest N roots \<Longrightarrow> (i, i) \<notin> (parents N)\<^sup>+"
  by (simp add: forest_def acyclic_def)

subsection \<open>Paths\<close>

inductive is_path :: "(WorkspaceId \<rightharpoonup> WorkspaceNode) \<Rightarrow> WorkspaceId \<Rightarrow> WorkspacePath \<Rightarrow> bool"
  for N where
  root: "N i = Some n \<Longrightarrow> wn_parent_id n = None \<Longrightarrow> is_path N i [wn_name n]"
| child: "N i = Some n \<Longrightarrow> wn_parent_id n = Some p \<Longrightarrow> is_path N p path \<Longrightarrow> is_path N i (path @ [wn_name n])"

inductive_cases is_path_cases: "is_path N i path"

lemma is_path_dom: "is_path N i path \<Longrightarrow> i \<in> dom N"
  by (auto elim: is_path.cases)

lemma is_path_nonempty: "is_path N i path \<Longrightarrow> path \<noteq> []"
  by (auto elim: is_path.cases)

lemma is_path_unique: "is_path N i path \<Longrightarrow> is_path N i path' \<Longrightarrow> path = path'"
proof (induction arbitrary: path' rule: is_path.induct)
  case (root i n)
  then show ?case by (auto elim: is_path.cases)
next
  case (child i n p path)
  from child.prems show ?case
  proof cases
    case root
    then show ?thesis using child.hyps by simp
  next
    case (child m q s)
    then show ?thesis using child.IH child.hyps by simp
  qed
qed

lemma forest_path_ex:
  assumes "forest N roots" and "i \<in> dom N"
  shows "\<exists>path. is_path N i path"
  using forest_wf(1) [OF assms(1)] assms(2)
proof (induction i rule: wf_induct_rule)
  case (less i)
  then obtain n where n: "N i = Some n" by auto
  show ?case
  proof (cases "wn_parent_id n")
    case None
    then show ?thesis using n is_path.root by blast
  next
    case (Some p)
    then have p: "(p, i) \<in> parents N" using n by (auto simp: parents_def)
    then obtain path where "is_path N p path" using less forest_parent_dom [OF assms(1)] by blast
    then show ?thesis using n Some is_path.child by blast
  qed
qed

lemma path_loop_None: "path_loop nodes None segments = Some (Inr segments)"
  by (subst path_loop.simps) simp

lemma path_loop_Some:
  "RBT.lookup nodes p = Some n \<Longrightarrow>
     path_loop nodes (Some p) segments = path_loop nodes (wn_parent_id n) (wn_name n # segments)"
  by (subst path_loop.simps) simp

lemma path_loop_is_path:
  "is_path (RBT.lookup nodes) p path \<Longrightarrow> path_loop nodes (Some p) segments = Some (Inr (path @ segments))"
  by (induction arbitrary: segments rule: is_path.induct) (simp_all add: path_loop_Some path_loop_None)

lemma compute_path_is_path:
  assumes "is_path (RBT.lookup (wi_nodes x)) i path"
  shows "compute_path x i = Some (WorkspacePath_new path)"
  using assms by cases (simp_all add: compute_path_def path_loop_None path_loop_is_path)

lemma forest_compute_path:
  assumes "forest (RBT.lookup (wi_nodes x)) roots" and "i \<in> dom (RBT.lookup (wi_nodes x))"
  obtains path where "is_path (RBT.lookup (wi_nodes x)) i path" "compute_path x i = Some (WorkspacePath_new path)"
  using forest_path_ex [OF assms] compute_path_is_path by blast

lemma compute_path_total:
  "forest (RBT.lookup (wi_nodes x)) roots \<Longrightarrow> compute_path x i \<noteq> None"
  by (cases "i \<in> dom (RBT.lookup (wi_nodes x))")
    (use forest_compute_path in \<open>blast\<close>, simp add: compute_path_def domIff)

subsection \<open>Ancestors\<close>

lemma descendant_loop_exact:
  assumes "forest (RBT.lookup nodes) roots"
  shows "descendant_loop nodes (RBT.lookup nodes i) a = Some ((a, i) \<in> (parents (RBT.lookup nodes))\<^sup>+)"
  using forest_wf(1) [OF assms]
proof (induction i rule: wf_induct_rule)
  case (less i)
  let ?P = "parents (RBT.lookup nodes)"
  show ?case
  proof (cases "RBT.lookup nodes i")
    case None
    then have "(a, i) \<notin> ?P\<^sup>+" by (auto simp: parents_def dest: tranclD2)
    then show ?thesis using None by (subst descendant_loop.simps) simp
  next
    case (Some n)
    show ?thesis
    proof (cases "wn_parent_id n")
      case None
      then have "(p, i) \<notin> ?P" for p using Some by (auto simp: parents_def)
      then have "(a, i) \<notin> ?P\<^sup>+" by (auto dest: tranclD2)
      then show ?thesis using Some None
        by (subst descendant_loop.simps) (simp, subst descendant_loop.simps, simp)
    next
      fix p assume p: "wn_parent_id n = Some p"
      then have pi: "(p, i) \<in> ?P" using Some by (auto simp: parents_def)
      have "(a, i) \<in> ?P\<^sup>+ \<longleftrightarrow> a = p \<or> (a, p) \<in> ?P\<^sup>+"
        by (auto elim: trancl.cases dest: parents_unique [OF pi] intro: pi trancl_into_trancl)
      then show ?thesis using Some p less.IH [OF pi] by (subst descendant_loop.simps) simp
    qed
  qed
qed

inductive ancestry :: "(WorkspaceId \<rightharpoonup> WorkspaceNode) \<Rightarrow> WorkspaceId \<Rightarrow> WorkspaceId list \<Rightarrow> bool"
  for N where
  top: "N i = Some n \<Longrightarrow> wn_parent_id n = None \<Longrightarrow> ancestry N i []"
| below: "N i = Some n \<Longrightarrow> wn_parent_id n = Some p \<Longrightarrow> ancestry N p as \<Longrightarrow> ancestry N i (as @ [p])"

lemma ancestor_loop_None: "ancestor_loop nodes None acc = Some (Inr acc)"
  by (subst ancestor_loop.simps) simp

lemma ancestor_loop_Some:
  "RBT.lookup nodes p = Some n \<Longrightarrow>
     ancestor_loop nodes (Some p) acc = ancestor_loop nodes (wn_parent_id n) (acc @ [p])"
  by (subst ancestor_loop.simps) simp

lemma ancestor_loop_ancestry:
  "ancestry (RBT.lookup nodes) p as \<Longrightarrow> ancestor_loop nodes (Some p) acc = Some (Inr (acc @ p # rev as))"
  by (induction arbitrary: acc rule: ancestry.induct) (simp_all add: ancestor_loop_Some ancestor_loop_None)

lemma get_ancestors_ancestry:
  assumes "ancestry (RBT.lookup (wi_nodes x)) i as"
  shows "get_ancestors x i = Some (Inr as)"
  using assms by cases (simp_all add: get_ancestors_def ancestor_loop_None ancestor_loop_ancestry)

lemma is_path_ancestry:
  "is_path N i path \<Longrightarrow> \<exists>as. ancestry N i as \<and> path = map (\<lambda>a. wn_name (the (N a))) (as @ [i])"
proof (induction rule: is_path.induct)
  case (root i n)
  then show ?case using ancestry.top by fastforce
next
  case (child i n p path)
  then obtain as where "ancestry N p as" "path = map (\<lambda>a. wn_name (the (N a))) (as @ [p])" by blast
  then show ?case using ancestry.below [where N = N, OF child(1,2)] child(1) by (intro exI [of _ "as @ [p]"]) simp
qed

subsection \<open>Subtrees\<close>

definition subtree :: "(WorkspaceId \<rightharpoonup> WorkspaceNode) \<Rightarrow> WorkspaceId \<Rightarrow> WorkspaceId set" where
  "subtree N i = (parents N)\<^sup>* `` {i}"

definition unrelated :: "(WorkspaceId \<rightharpoonup> WorkspaceNode) \<Rightarrow> WorkspaceId list \<Rightarrow> bool" where
  "unrelated N ids \<longleftrightarrow> distinct ids \<and> (\<forall>a \<in> set ids. \<forall>b \<in> set ids. (a, b) \<in> (parents N)\<^sup>* \<longrightarrow> a = b)"

lemma unrelated_children:
  assumes "forest N roots" and "unrelated N (ids @ [i])" and "distinct cs" and "set cs = parents N `` {i}"
  shows "unrelated N (ids @ cs)"
proof -
  let ?P = "parents N"
  have i: "i \<notin> set ids" "distinct ids" using assms(2) by (auto simp: unrelated_def)
  have up: "a = c \<or> (a, i) \<in> ?P\<^sup>*" if "(a, c) \<in> ?P\<^sup>*" "c \<in> set cs" for a c
    using that assms(4) by (metis Image_singleton_iff parents_unique rtranclE)
  have down: "(i, b) \<in> ?P\<^sup>+" if "(c, b) \<in> ?P\<^sup>*" "c \<in> set cs" for b c
    using that assms(4) by (metis Image_singleton_iff rtrancl_into_trancl2)
  have no: "(i, b) \<notin> ?P\<^sup>*" "(b, i) \<notin> ?P\<^sup>*" if "b \<in> set ids" for b
    using that i assms(2) by (auto simp: unrelated_def)
  have disj: "set ids \<inter> set cs = {}"
    using no assms(4) by (auto dest: r_into_rtrancl)
  have cc: "a = b" if "a \<in> set cs" "b \<in> set cs" "(a, b) \<in> ?P\<^sup>*" for a b
    using up [OF that(3,2)] down [of a i] that(1) forest_no_self [OF assms(1)] by blast
  have ic: "False" if "a \<in> set ids" "b \<in> set cs" "(a, b) \<in> ?P\<^sup>*" for a b
    using up [OF that(3,2)] that(1,2) disj no(2) by blast
  have ci: "False" if "a \<in> set cs" "b \<in> set ids" "(a, b) \<in> ?P\<^sup>*" for a b
    using down [OF that(3,1)] no(1) [OF that(2)] by (meson trancl_into_rtrancl)
  have ii: "a = b" if "a \<in> set ids" "b \<in> set ids" "(a, b) \<in> ?P\<^sup>*" for a b
    using that assms(2) by (auto simp: unrelated_def)
  have "\<forall>a \<in> set (ids @ cs). \<forall>b \<in> set (ids @ cs). (a, b) \<in> ?P\<^sup>* \<longrightarrow> a = b"
    using cc ic ci ii unfolding set_append by blast
  then show ?thesis unfolding unrelated_def using i disj assms(3) by simp
qed

lemma below_step:
  "parents N `` {i} = cs \<Longrightarrow> (parents N)\<^sup>* `` (S \<union> {i}) = insert i ((parents N)\<^sup>* `` (S \<union> cs))"
proof -
  assume cs: "parents N `` {i} = cs"
  have "(parents N)\<^sup>* `` {i} = insert i ((parents N)\<^sup>* `` cs)"
    using cs by (auto intro: converse_rtrancl_into_rtrancl elim: converse_rtranclE)
  then show ?thesis by auto
qed

lemma collect_loop_below:
  assumes "forest (RBT.lookup nodes) roots"
  shows "unrelated (RBT.lookup nodes) stack \<Longrightarrow> set stack \<subseteq> dom (RBT.lookup nodes) \<Longrightarrow>
         \<exists>ds. collect_loop nodes stack acc = Some (acc @ ds) \<and> distinct ds
              \<and> set ds = (parents (RBT.lookup nodes))\<^sup>* `` set stack"
proof (induction "card ((parents (RBT.lookup nodes))\<^sup>* `` set stack)" arbitrary: stack acc rule: less_induct)
  case less
  let ?N = "RBT.lookup nodes" and ?P = "parents (RBT.lookup nodes)"
  show ?case
  proof (cases stack rule: rev_cases)
    case Nil
    then show ?thesis by (subst collect_loop.simps) simp
  next
    case (snoc ids i)
    then obtain n where n: "?N i = Some n" using less.prems(2) by auto
    have c: "set (wn_children n) = ?P `` {i}" "distinct (wn_children n)"
      using assms n by (simp_all add: forest_def)
    let ?s = "ids @ wn_children n"
    have u: "unrelated ?N ?s"
      using unrelated_children [OF assms _ c(2,1)] less.prems(1) snoc by simp
    have d: "set ?s \<subseteq> dom ?N" using c(1) less.prems(2) snoc by (auto dest: parents_dom)
    have step: "?P\<^sup>* `` set stack = insert i (?P\<^sup>* `` set ?s)"
      using below_step [of ?N i "set (wn_children n)" "set ids"] c(1) snoc by simp
    have i: "i \<notin> ?P\<^sup>* `` set ?s"
    proof
      assume "i \<in> ?P\<^sup>* `` set ?s"
      then obtain s where s: "s \<in> set ?s" "(s, i) \<in> ?P\<^sup>*" by auto
      show False
      proof (cases "s \<in> set ids")
        case True
        then show ?thesis using s(2) less.prems(1) snoc by (auto simp: unrelated_def)
      next
        case False
        then have "(i, s) \<in> ?P" using s(1) c(1) by simp
        then show ?thesis using s(2) forest_no_self [OF assms] rtrancl_into_trancl2 by metis
      qed
    qed
    have f: "finite (?P\<^sup>* `` set ?s)" by (rule forest_finite_below [OF assms]) simp
    have "card (?P\<^sup>* `` set ?s) < card (?P\<^sup>* `` set stack)" using step i f by simp
    from less.hyps [OF this u d, of "acc @ [i]"] obtain ds where
      ds: "collect_loop nodes ?s (acc @ [i]) = Some ((acc @ [i]) @ ds)" "distinct ds" "set ds = ?P\<^sup>* `` set ?s"
      by blast
    have "collect_loop nodes stack acc = Some (acc @ i # ds)"
      using ds(1) n snoc by (subst collect_loop.simps) simp
    then show ?thesis using ds i step by (intro exI [of _ "i # ds"]) simp
  qed
qed

lemma children_unrelated:
  assumes "forest N roots" and "N i = Some n"
  shows "unrelated N (wn_children n)" and "set (wn_children n) \<subseteq> dom N"
proof -
  have c: "distinct (wn_children n)" "set (wn_children n) = parents N `` {i}"
    using assms by (simp_all add: forest_def)
  show "unrelated N (wn_children n)"
    using unrelated_children [OF assms(1) _ c, of "[]"] by (simp add: unrelated_def)
  show "set (wn_children n) \<subseteq> dom N" using c(2) by (auto dest: parents_dom)
qed

lemma subtree_insert:
  "N i = Some n \<Longrightarrow> forest N roots \<Longrightarrow> subtree N i = insert i ((parents N)\<^sup>* `` set (wn_children n))"
  using below_step [of N i "set (wn_children n)" "{}"] by (simp add: subtree_def forest_children)

lemma collect_descendants_exact:
  assumes "forest (RBT.lookup (wi_nodes x)) roots" and "RBT.lookup (wi_nodes x) i = Some n"
  obtains ds where "collect_descendants x i = Some ds" "distinct (i # ds)"
    "set (i # ds) = subtree (RBT.lookup (wi_nodes x)) i" "set ds = (parents (RBT.lookup (wi_nodes x)))\<^sup>+ `` {i}"
proof -
  let ?N = "RBT.lookup (wi_nodes x)" and ?P = "parents (RBT.lookup (wi_nodes x))"
  obtain ds where ds: "collect_loop (wi_nodes x) (wn_children n) [] = Some ds" "distinct ds"
    "set ds = ?P\<^sup>* `` set (wn_children n)"
    using collect_loop_below [OF assms(1) children_unrelated [OF assms], of "[]"] by auto
  have plus: "?P\<^sup>* `` set (wn_children n) = ?P\<^sup>+ `` {i}"
    using forest_children [OF assms] by (auto dest: tranclD intro: rtrancl_into_trancl2)
  then have "i \<notin> set ds" using ds(3) forest_no_self [OF assms(1)] by auto
  then show thesis
    using that [of ds] ds plus subtree_insert [of ?N, OF assms(2,1)] assms(2) by (simp add: collect_descendants_def)
qed

section \<open>The operations keep a forest\<close>

lemma forest_nodeD:
  assumes "forest N roots" and "N i = Some n"
  shows "wn_id n = i" and "distinct (wn_children n)" and "set (wn_children n) = parents N `` {i}"
  using assms by (simp_all add: forest_def)

lemma forest_new_root:
  assumes "forest N roots" and "i \<notin> dom N"
  shows "forest (N(i \<mapsto> WorkspaceNode_new_root i name metadata now)) (roots @ [i])"
    and "parents (N(i \<mapsto> WorkspaceNode_new_root i name metadata now)) = parents N"
proof -
  let ?N = "N(i \<mapsto> WorkspaceNode_new_root i name metadata now)"
  show p: "parents ?N = parents N"
    using assms(2) by (auto simp: parents_def WorkspaceNode_new_root_def)
  have "parents N `` {i} = {}" using assms forest_parent_dom by blast
  then show "forest ?N (roots @ [i])"
    using assms unfolding forest_def p by (auto simp: WorkspaceNode_new_root_def)
qed

lemma forest_new_child:
  assumes "forest N roots" and "i \<notin> dom N" and "N pid = Some pn"
  shows "forest (N(i \<mapsto> WorkspaceNode_new_child i name pid metadata now, pid \<mapsto> push_child i pn)) roots"
    and "parents (N(i \<mapsto> WorkspaceNode_new_child i name pid metadata now, pid \<mapsto> push_child i pn))
           = insert (pid, i) (parents N)"
proof -
  let ?N = "N(i \<mapsto> WorkspaceNode_new_child i name pid metadata now, pid \<mapsto> push_child i pn)"
  have ne: "pid \<noteq> i" using assms by auto
  show p: "parents ?N = insert (pid, i) (parents N)"
    using assms ne by (auto simp: parents_def WorkspaceNode_new_child_def push_child_def)
  have leaf: "(i, c) \<notin> parents N" and fresh: "(c, i) \<notin> parents N" for c
    using assms forest_parent_dom parents_dom by blast+
  have "(i, pid) \<notin> (parents N)\<^sup>*" using leaf ne by (auto elim: converse_rtranclE)
  then have ac: "acyclic (parents ?N)" using assms(1) unfolding p by (simp add: forest_def)
  have node: "wn_id n = j \<and> distinct (wn_children n) \<and> set (wn_children n) = parents ?N `` {j}"
    if j: "?N j = Some n" for j n
  proof -
    consider "j = pid" | "j = i" | "j \<noteq> pid" "j \<noteq> i" by blast
    then show ?thesis
    proof cases
      case 1
      then show ?thesis using j forest_nodeD [OF assms(1,3)] fresh unfolding p by (auto simp: push_child_def)
    next
      case 2
      then show ?thesis using j ne leaf unfolding p by (auto simp: WorkspaceNode_new_child_def)
    next
      case 3
      then have "N j = Some n" using j by simp
      then show ?thesis using forest_nodeD [OF assms(1), of j n] 3 unfolding p by auto
    qed
  qed
  have dm: "fst ` parents ?N \<subseteq> dom ?N" "finite (dom ?N)"
    using assms(1,3) unfolding p forest_def by auto
  have rt: "j \<in> set roots \<longleftrightarrow> (\<exists>n. ?N j = Some n \<and> wn_parent_id n = None)" for j
    using assms ne unfolding forest_def by (auto simp: WorkspaceNode_new_child_def push_child_def)
  show "forest ?N roots"
    using node dm rt ac assms(1) unfolding forest_def by blast
qed

lemma forest_same_shape:
  assumes "forest N roots" and "N i = Some n"
    and "wn_id m = wn_id n" and "wn_parent_id m = wn_parent_id n" and "wn_children m = wn_children n"
  shows "forest (N(i \<mapsto> m)) roots" and "parents (N(i \<mapsto> m)) = parents N"
proof -
  show p: "parents (N(i \<mapsto> m)) = parents N" using assms by (auto simp: parents_def)
  show "forest (N(i \<mapsto> m)) roots" using assms unfolding forest_def p by auto
qed

lemma subtree_closed:
  "p \<in> subtree N i \<Longrightarrow> (p, c) \<in> parents N \<Longrightarrow> c \<in> subtree N i"
  by (auto simp: subtree_def)

lemma subtree_up:
  "c \<in> subtree N i \<Longrightarrow> c \<noteq> i \<Longrightarrow> (p, c) \<in> parents N \<Longrightarrow> p \<in> subtree N i"
  by (auto simp: subtree_def elim: rtranclE dest: parents_unique)

text \<open>What is left when a subtree is cut off.\<close>

definition cut :: "(WorkspaceId \<rightharpoonup> WorkspaceNode) \<Rightarrow> WorkspaceId \<Rightarrow> (WorkspaceId \<rightharpoonup> WorkspaceNode)" where
  "cut N i = (\<lambda>j. if j \<in> subtree N i then None else map_option (drop_child i) (N j))"

lemma drop_child_simps [simp]:
  "wn_id (drop_child i n) = wn_id n" "wn_parent_id (drop_child i n) = wn_parent_id n"
  "wn_name (drop_child i n) = wn_name n" "wn_children (drop_child i n) = filter (\<lambda>c. c \<noteq> i) (wn_children n)"
  by (simp_all add: drop_child_def)

lemma push_child_simps [simp]:
  "wn_id (push_child i n) = wn_id n" "wn_parent_id (push_child i n) = wn_parent_id n"
  "wn_name (push_child i n) = wn_name n" "wn_children (push_child i n) = wn_children n @ [i]"
  by (simp_all add: push_child_def)

lemma drop_child_id: "i \<notin> set (wn_children n) \<Longrightarrow> drop_child i n = n"
  by (cases n) (auto simp: drop_child_def intro!: filter_True)

lemma parents_cut: "parents (cut N i) = {(p, c) \<in> parents N. c \<notin> subtree N i}"
  by (auto simp: parents_def cut_def)

lemma forest_cut:
  assumes "forest N roots"
  shows "forest (cut N i) (filter (\<lambda>r. r \<noteq> i) roots)"
proof -
  let ?S = "subtree N i" and ?N = "cut N i"
  have i: "i \<in> ?S" by (simp add: subtree_def)
  have node: "wn_id n = j \<and> distinct (wn_children n) \<and> set (wn_children n) = parents ?N `` {j}"
    if j: "?N j = Some n" for j n
  proof -
    obtain m where m: "N j = Some m" "n = drop_child i m" "j \<notin> ?S"
      using j by (auto simp: cut_def split: if_splits)
    have "parents ?N `` {j} = parents N `` {j} - {i}"
      using m(3) i subtree_up [of _ N i j] unfolding parents_cut by auto
    then show ?thesis using m forest_nodeD [OF assms m(1)] by auto
  qed
  have dm: "fst ` parents ?N \<subseteq> dom ?N" "finite (dom ?N)"
  proof -
    show "fst ` parents ?N \<subseteq> dom ?N"
    proof
      fix p assume "p \<in> fst ` parents ?N"
      then obtain c where c: "(p, c) \<in> parents N" "c \<notin> ?S" by (auto simp: parents_cut)
      then have "p \<notin> ?S" "p \<in> dom N" using subtree_closed forest_parent_dom [OF assms] by blast+
      then show "p \<in> dom ?N" by (auto simp: cut_def)
    qed
    have "dom ?N \<subseteq> dom N" by (auto simp: cut_def split: if_splits)
    then show "finite (dom ?N)" using assms by (meson finite_subset forest_def)
  qed
  have root: "j \<notin> ?S" if "N j = Some n" "wn_parent_id n = None" "j \<noteq> i" for j n
    using that by (auto simp: subtree_def parents_def elim: rtranclE)
  have rt: "j \<in> set (filter (\<lambda>r. r \<noteq> i) roots) \<longleftrightarrow> (\<exists>n. ?N j = Some n \<and> wn_parent_id n = None)" for j
    using assms root i unfolding forest_def by (auto simp: cut_def split: if_splits)
  have ac: "acyclic (parents N)" and ds: "distinct (filter (\<lambda>r. r \<noteq> i) roots)"
    using assms by (simp_all add: forest_def)
  have "acyclic (parents ?N)" by (rule acyclic_subset [OF ac]) (auto simp: parents_cut)
  then show ?thesis using node dm rt ds unfolding forest_def by blast
qed

text \<open>What a move makes of the forest.\<close>

definition regraft ::
  "(WorkspaceId \<rightharpoonup> WorkspaceNode) \<Rightarrow> WorkspaceId \<Rightarrow> WorkspaceId option \<Rightarrow> TimestampMs
     \<Rightarrow> (WorkspaceId \<rightharpoonup> WorkspaceNode)" where
  "regraft N i new_parent now =
     (\<lambda>j. map_option
            (\<lambda>n. if j = i then n\<lparr>wn_parent_id := new_parent, wn_updated_at := now\<rparr>
                 else if new_parent = Some j then push_child i n
                 else drop_child i n) (N j))"

lemma parents_regraft:
  "i \<in> dom N \<Longrightarrow> parents (regraft N i new now)
     = {(p, c) \<in> parents N. c \<noteq> i} \<union> {(p, c). c = i \<and> new = Some p}"
proof -
  assume i: "i \<in> dom N"
  have "(p, c) \<in> parents (regraft N i new now)
          \<longleftrightarrow> (\<exists>n. N c = Some n \<and> (if c = i then new else wn_parent_id n) = Some p)" for p c
    by (cases "N c") (simp_all add: parents_def regraft_def)
  then show ?thesis using i by (auto simp: parents_def)
qed

lemma forest_regraft:
  assumes "forest N roots" and n: "N i = Some n" and new: "wn_parent_id n \<noteq> new"
    and ok: "\<forall>np. new = Some np \<longrightarrow> np \<in> dom N \<and> (i, np) \<notin> (parents N)\<^sup>*"
  shows "forest (regraft N i new now) (filter (\<lambda>r. r \<noteq> i) roots @ (if new = None then [i] else []))"
proof -
  let ?N = "regraft N i new now" and ?P = "parents N"
  have p: "parents ?N = {(p, c) \<in> ?P. c \<noteq> i} \<union> {(p, c). c = i \<and> new = Some p}"
    using n by (intro parents_regraft) auto
  have dom: "dom ?N = dom N" by (auto simp: regraft_def)
  have ii: "(i, i) \<notin> ?P" using forest_no_self [OF assms(1)] by blast
  have node: "wn_id m = j \<and> distinct (wn_children m) \<and> set (wn_children m) = parents ?N `` {j}"
    if j: "?N j = Some m" for j m
  proof -
    obtain m0 where m0: "N j = Some m0" using j by (auto simp: regraft_def)
    note f = forest_nodeD [OF assms(1) m0]
    have im: "parents ?N `` {j} = (if new = Some j then insert i (?P `` {j}) else ?P `` {j} - {i})"
      by (auto simp: p)
    consider "j = i" | "j \<noteq> i" "new = Some j" | "j \<noteq> i" "new \<noteq> Some j" by blast
    then show ?thesis
    proof cases
      case 1
      have "new \<noteq> Some i" using ok by blast
      then have "parents ?N `` {j} = ?P `` {j}" unfolding im using 1 ii by simp
      moreover have "m = m0\<lparr>wn_parent_id := new, wn_updated_at := now\<rparr>" using j 1 m0 by (simp add: regraft_def)
      ultimately show ?thesis using f by simp
    next
      case 2
      then have "i \<notin> set (wn_children m0)" unfolding f(3) using n new by (auto simp: parents_def)
      moreover have "m = push_child i m0" using j 2 m0 by (simp add: regraft_def)
      ultimately show ?thesis using f 2(2) unfolding im by simp
    next
      case 3
      have "m = drop_child i m0" using j 3 m0 by (simp add: regraft_def)
      then show ?thesis using 3 f unfolding im by auto
    qed
  qed
  have dm: "fst ` parents ?N \<subseteq> dom ?N" "finite (dom ?N)"
  proof -
    show "fst ` parents ?N \<subseteq> dom ?N"
      using ok forest_parent_dom [OF assms(1)] unfolding dom p by fastforce
    show "finite (dom ?N)" using assms(1) by (simp add: dom forest_def)
  qed
  have rt: "j \<in> set (filter (\<lambda>r. r \<noteq> i) roots @ (if new = None then [i] else []))
              \<longleftrightarrow> (\<exists>m. ?N j = Some m \<and> wn_parent_id m = None)" for j
  proof -
    have "j \<in> set roots \<longleftrightarrow> (\<exists>m. N j = Some m \<and> wn_parent_id m = None)"
      using assms(1) by (simp add: forest_def)
    then show ?thesis using n by (cases "N j") (auto simp: regraft_def)
  qed
  have ac: "acyclic ?P" and "distinct roots" using assms(1) by (simp_all add: forest_def)
  then have ds: "distinct (filter (\<lambda>r. r \<noteq> i) roots @ (if new = None then [i] else []))" by auto
  have "acyclic (parents ?N)"
  proof (cases new)
    case None
    have "parents ?N \<subseteq> ?P" unfolding p using None by blast
    then show ?thesis by (rule acyclic_subset [OF ac])
  next
    case (Some np)
    have eq: "parents ?N = insert (np, i) {(p, c) \<in> ?P. c \<noteq> i}" unfolding p using Some by auto
    have "{(p, c) \<in> ?P. c \<noteq> i}\<^sup>* \<subseteq> ?P\<^sup>*" by (rule rtrancl_mono) auto
    then have "(i, np) \<notin> {(p, c) \<in> ?P. c \<noteq> i}\<^sup>*" using ok Some by blast
    moreover have "acyclic {(p, c) \<in> ?P. c \<noteq> i}" by (rule acyclic_subset [OF ac]) auto
    ultimately show ?thesis unfolding eq by (simp add: acyclic_insert)
  qed
  then show ?thesis using node dm rt ds unfolding forest_def by blast
qed

lemma relink_regraft:
  assumes "forest (RBT.lookup (wi_nodes x)) roots" and n: "RBT.lookup (wi_nodes x) i = Some n"
    and new: "wn_parent_id n \<noteq> new" "new \<noteq> Some i"
  shows "RBT.lookup (wi_nodes (relink x i (wn_parent_id n) new now))
           = regraft (RBT.lookup (wi_nodes x)) i new now"
proof
  fix j
  let ?N = "RBT.lookup (wi_nodes x)"
  have other: "drop_child i m = m" if "?N j = Some m" "wn_parent_id n \<noteq> Some j" for m
    using that n forest_children [OF assms(1) that(1)] by (intro drop_child_id) (auto simp: parents_def)
  have self: "wn_parent_id n \<noteq> Some i"
    using n forest_no_self [OF assms(1), of i] by (auto simp: parents_def)
  show "RBT.lookup (wi_nodes (relink x i (wn_parent_id n) new now)) j = regraft ?N i new now j"
  proof (cases "?N j")
    case None
    then show ?thesis using n
      by (cases "wn_parent_id n"; cases new) (auto simp: relink_def unlink_def regraft_def Let_def)
  next
    case (Some m)
    have "wn_parent_id n \<noteq> Some j \<Longrightarrow> drop_child i m = m" using other Some by blast
    then show ?thesis using n new self Some
      by (cases "wn_parent_id n"; cases new) (auto simp: relink_def unlink_def regraft_def Let_def)
  qed
qed

lemma relink_roots:
  assumes "forest (RBT.lookup (wi_nodes x)) (wi_root_ids x)" and n: "RBT.lookup (wi_nodes x) i = Some n"
  shows "wi_root_ids (relink x i (wn_parent_id n) new now)
           = filter (\<lambda>r. r \<noteq> i) (wi_root_ids x) @ (if new = None then [i] else [])"
proof -
  have "i \<notin> set (wi_root_ids x)" if "wn_parent_id n \<noteq> None"
    using that assms by (auto simp: forest_def)
  then have "filter (\<lambda>r. r \<noteq> i) (wi_root_ids x) = wi_root_ids x" if "wn_parent_id n \<noteq> None"
    using that by (intro filter_True) auto
  then show ?thesis
    by (cases "wn_parent_id n"; cases new) (simp_all add: relink_def unlink_def Let_def)
qed

section \<open>Runs\<close>

datatype ws_op =
    WS_Insert "WorkspaceId option" WorkspaceName WorkspaceMetadata TimestampMs "128 word"
  | WS_Delete WorkspaceId
  | WS_Move WorkspaceId "WorkspaceId option" TimestampMs
  | WS_Update WorkspaceId WorkspaceMetadata TimestampMs

text \<open>Every call answers with the identifier it is about, or with its error.\<close>

definition answer_of :: "WorkspaceId \<Rightarrow> WorkspaceIndexError + unit \<Rightarrow> WorkspaceIndexError + WorkspaceId" where
  "answer_of i r = and_then r (\<lambda>_. Inr i)"

fun ws_step ::
  "WorkspaceIndex \<times> 128 word option \<Rightarrow> ws_op
     \<Rightarrow> ((WorkspaceIndexError + WorkspaceId) \<times> WorkspaceIndex \<times> 128 word option) option" where
  "ws_step (x, l) (WS_Insert parent_id name metadata now fresh) =
     workspace_insert x parent_id name metadata now fresh l"
| "ws_step (x, l) (WS_Delete i) = map_option (\<lambda>(r, y). (answer_of i r, y, l)) (workspace_delete x i)"
| "ws_step (x, l) (WS_Move i new_parent_id now) =
     map_option (\<lambda>(r, y). (answer_of i r, y, l)) (workspace_move x i new_parent_id now)"
| "ws_step (x, l) (WS_Update i metadata now) =
     (case update_metadata x i metadata now of (r, y) \<Rightarrow> Some (answer_of i r, y, l))"

fun ws_run ::
  "WorkspaceIndex \<times> 128 word option \<Rightarrow> ws_op list
     \<Rightarrow> ((WorkspaceIndexError + WorkspaceId) list \<times> WorkspaceIndex \<times> 128 word option) option" where
  "ws_run s [] = Some ([], s)"
| "ws_run s (op # ops) =
     (case ws_step s op of
        None \<Rightarrow> None
      | Some (r, s1) \<Rightarrow> map_option (\<lambda>(rs, s2). (r # rs, s2)) (ws_run s1 ops))"

fun fresh_below :: "nat \<Rightarrow> ws_op \<Rightarrow> bool" where
  "fresh_below k (WS_Insert _ _ _ _ fresh) = (unat fresh + k < 2 ^ 128)"
| "fresh_below k _ = True"

text \<open>
  The identifiers handed out so far do not exceed \<open>LAST_ULID\<close>, and there is room for \<open>k\<close>
  more.
\<close>

definition ids_ok :: "(WorkspaceId \<rightharpoonup> WorkspaceNode) \<Rightarrow> 128 word option \<Rightarrow> nat \<Rightarrow> bool" where
  "ids_ok N l k \<longleftrightarrow> (\<forall>i \<in> dom N. \<exists>p. l = Some p \<and> i \<le> p) \<and> (\<forall>p. l = Some p \<longrightarrow> unat p + k < 2 ^ 128)"

definition ws_ok :: "nat \<Rightarrow> WorkspaceIndex \<times> 128 word option \<Rightarrow> bool" where
  "ws_ok k = (\<lambda>(x, l). wi_initialized x \<and> forest (RBT.lookup (wi_nodes x)) (wi_root_ids x)
                \<and> ids_ok (RBT.lookup (wi_nodes x)) l k)"

lemma generate_fresh:
  assumes "ids_ok N l (Suc k)" and "unat fresh + Suc k < 2 ^ 128"
    and "WorkspaceId_generate fresh l = (i, l')"
  shows "i \<notin> dom N" and "l' = Some i" and "\<forall>j \<in> dom N. j \<le> i" and "unat i + k < 2 ^ 128"
proof -
  have eq: "l' = Some i" "i = (case l of Some prev \<Rightarrow> if fresh \<le> prev then prev + 1 else fresh | None \<Rightarrow> fresh)"
    using assms(3) by (auto simp: WorkspaceId_generate_def Let_def)
  have "(\<forall>j \<in> dom N. j < i) \<and> unat i + k < 2 ^ 128"
  proof (cases l)
    case None
    then show ?thesis using assms(1,2) eq by (auto simp: ids_ok_def)
  next
    case (Some prev)
    have bound: "unat prev + Suc k < 2 ^ 128" "\<forall>j \<in> dom N. j \<le> prev" using assms(1) Some by (auto simp: ids_ok_def)
    have suc: "unat (prev + 1) = Suc (unat prev)"
      using bound(1) by (subst unat_add_lem [THEN iffD1]) auto
    show ?thesis
    proof (cases "fresh \<le> prev")
      case True
      then have "i = prev + 1" using eq Some by simp
      moreover have "j < prev + 1" if "j \<le> prev" for j
        using that suc by (simp add: word_less_nat_alt word_le_nat_alt)
      ultimately show ?thesis using bound suc by auto
    next
      case False
      then have "i = fresh" "prev < fresh" using eq Some by auto
      then show ?thesis using bound assms(2) by (auto intro: le_less_trans)
    qed
  qed
  then show "i \<notin> dom N" "\<forall>j \<in> dom N. j \<le> i" "unat i + k < 2 ^ 128" by (blast intro: less_imp_le)+
  show "l' = Some i" by (rule eq(1))
qed

lemma ids_ok_mono: "ids_ok N l (Suc k) \<Longrightarrow> dom M \<subseteq> dom N \<Longrightarrow> ids_ok M l k"
proof -
  assume a: "ids_ok N l (Suc k)" "dom M \<subseteq> dom N"
  have "unat p + k < 2 ^ 128" if "l = Some p" for p
  proof -
    have "unat p + Suc k < 2 ^ 128" using a(1) that by (simp add: ids_ok_def)
    then show ?thesis by linarith
  qed
  then show ?thesis using a unfolding ids_ok_def by blast
qed

lemma compute_path_nodes: "wi_nodes y = wi_nodes x \<Longrightarrow> compute_path y i = compute_path x i"
  unfolding compute_path_def by (rule arg_cong)

lemma remove_paths_exact:
  assumes "forest (RBT.lookup (wi_nodes x)) roots"
  shows "remove_paths x ids = Some (x\<lparr>wi_path_index :=
           (\<lambda>p. if \<exists>i \<in> set ids. compute_path x i = Some (Inr p) then None else wi_path_index x p)\<rparr>)"
  using assms
proof (induction ids arbitrary: x)
  case Nil
  then show ?case by simp
next
  case (Cons i rest)
  obtain r where r: "compute_path x i = Some r" using compute_path_total [OF Cons.prems] by blast
  show ?case
  proof (cases r)
    case (Inl e)
    then show ?thesis using r Cons.IH [OF Cons.prems] by simp
  next
    case (Inr path)
    let ?y = "x\<lparr>wi_path_index := (wi_path_index x)(path := None)\<rparr>"
    have "compute_path ?y j = compute_path x j" for j by (rule compute_path_nodes) simp
    moreover have "forest (RBT.lookup (wi_nodes ?y)) roots" using Cons.prems by simp
    ultimately show ?thesis using r Inr Cons.IH [of ?y] by (auto simp: fun_eq_iff)
  qed
qed

lemma computed_paths_exact:
  assumes "forest (RBT.lookup (wi_nodes x)) roots"
  shows "\<exists>paths. computed_paths x ids = Some paths
           \<and> set paths = {p. \<exists>i \<in> set ids. compute_path x i = Some (Inr p)}"
proof (induction ids)
  case Nil
  then show ?case by simp
next
  case (Cons i rest)
  obtain r where r: "compute_path x i = Some r" using compute_path_total [OF assms] by blast
  then show ?case using Cons by (cases r) auto
qed

lemma new_segments_total:
  "forest (RBT.lookup (wi_nodes x)) roots \<Longrightarrow> new_segments x new name \<noteq> None"
  using compute_path_total by (auto simp: new_segments_def split: option.splits)

lemma insert_path_total:
  "forest (RBT.lookup (wi_nodes x)) roots \<Longrightarrow> insert_path x parent_id name \<noteq> None"
  using compute_path_total by (auto simp: insert_path_def split: option.splits)

lemma lookup_fold_delete: "RBT.lookup (fold RBT.delete ids t) = (RBT.lookup t) |` (- set ids)"
  by (induction ids arbitrary: t) (auto simp: restrict_map_def fun_eq_iff)

text \<open>A call of \<open>insert\<close> that succeeds, and one that fails.\<close>

lemma workspace_insert_ok:
  assumes "ws_ok (Suc k) (x, l)" and "unat fresh + Suc k < 2 ^ 128"
    and "metadata_validate metadata = Inr ()" and "insert_path x parent_id name = Some (Inr path)"
    and "wi_path_index x path = None"
  obtains i y where "workspace_insert x parent_id name metadata now fresh l = Some (Inr i, y, Some i)"
    "i \<notin> dom (RBT.lookup (wi_nodes x))" "ws_ok k (y, Some i)"
    "wi_path_index y = (wi_path_index x)(path \<mapsto> i)" "wi_version y = wi_version x + 1"
    "RBT.lookup (wi_nodes y) =
       (case parent_id of
          None \<Rightarrow> (RBT.lookup (wi_nodes x))(i \<mapsto> WorkspaceNode_new_root i name metadata now)
        | Some pid \<Rightarrow> (RBT.lookup (wi_nodes x))(i \<mapsto> WorkspaceNode_new_child i name pid metadata now,
                        pid \<mapsto> push_child i (the (RBT.lookup (wi_nodes x) pid))))"
proof -
  let ?N = "RBT.lookup (wi_nodes x)"
  have ok: "wi_initialized x" "forest ?N (wi_root_ids x)" "ids_ok ?N l (Suc k)" using assms(1) by (simp_all add: ws_ok_def)
  obtain i l' where g: "WorkspaceId_generate fresh l = (i, l')" by fastforce
  note fr = generate_fresh [OF ok(3) assms(2) g]
  define y where "y = x\<lparr>wi_nodes := (case parent_id of
        Some pid \<Rightarrow> RBT.map_entry pid (push_child i) (RBT.insert i (WorkspaceNode_new_child i name pid metadata now) (wi_nodes x))
      | None \<Rightarrow> RBT.insert i (WorkspaceNode_new_root i name metadata now) (wi_nodes x)),
      wi_root_ids := (case parent_id of Some _ \<Rightarrow> wi_root_ids x | None \<Rightarrow> wi_root_ids x @ [i]),
      wi_path_index := (wi_path_index x)(path \<mapsto> i), wi_version := wi_version x + 1\<rparr>"
  have y: "workspace_insert x parent_id name metadata now fresh l = Some (Inr i, y, l')"
    "wi_initialized y" "wi_path_index y = (wi_path_index x)(path \<mapsto> i)" "wi_version y = wi_version x + 1"
    "wi_nodes y = (case parent_id of
        Some pid \<Rightarrow> RBT.map_entry pid (push_child i) (RBT.insert i (WorkspaceNode_new_child i name pid metadata now) (wi_nodes x))
      | None \<Rightarrow> RBT.insert i (WorkspaceNode_new_root i name metadata now) (wi_nodes x))"
    "wi_root_ids y = (case parent_id of Some _ \<Rightarrow> wi_root_ids x | None \<Rightarrow> wi_root_ids x @ [i])"
    unfolding y_def using ok(1) assms(3-5) g
    by (simp_all add: workspace_insert_def Let_def split: option.splits)
  have N: "RBT.lookup (wi_nodes y) =
       (case parent_id of
          None \<Rightarrow> ?N(i \<mapsto> WorkspaceNode_new_root i name metadata now)
        | Some pid \<Rightarrow> ?N(i \<mapsto> WorkspaceNode_new_child i name pid metadata now,
                        pid \<mapsto> push_child i (the (?N pid))))"
    and f: "forest (RBT.lookup (wi_nodes y)) (wi_root_ids y)"
    and d: "dom (RBT.lookup (wi_nodes y)) = insert i (dom ?N)"
  proof -
    have "RBT.lookup (wi_nodes y) =
       (case parent_id of
          None \<Rightarrow> ?N(i \<mapsto> WorkspaceNode_new_root i name metadata now)
        | Some pid \<Rightarrow> ?N(i \<mapsto> WorkspaceNode_new_child i name pid metadata now,
                        pid \<mapsto> push_child i (the (?N pid))))
      \<and> forest (RBT.lookup (wi_nodes y)) (wi_root_ids y) \<and> dom (RBT.lookup (wi_nodes y)) = insert i (dom ?N)"
    proof (cases parent_id)
      case None
      then show ?thesis using y(5,6) forest_new_root [OF ok(2) fr(1)] by simp
    next
      case (Some pid)
      then obtain pn where pn: "?N pid = Some pn"
        using assms(4) by (auto simp: insert_path_def split: if_splits)
      then have "pid \<noteq> i" using fr(1) by auto
      then have L: "RBT.lookup (wi_nodes y)
          = ?N(i \<mapsto> WorkspaceNode_new_child i name pid metadata now, pid \<mapsto> push_child i pn)"
        using y(5) Some pn by (simp add: fun_eq_iff)
      then show ?thesis using forest_new_child(1) [OF ok(2) fr(1) pn] Some y(6) pn by (auto simp del: fun_upd_apply)
    qed
    then show "RBT.lookup (wi_nodes y) =
       (case parent_id of
          None \<Rightarrow> ?N(i \<mapsto> WorkspaceNode_new_root i name metadata now)
        | Some pid \<Rightarrow> ?N(i \<mapsto> WorkspaceNode_new_child i name pid metadata now,
                        pid \<mapsto> push_child i (the (?N pid))))"
      "forest (RBT.lookup (wi_nodes y)) (wi_root_ids y)" "dom (RBT.lookup (wi_nodes y)) = insert i (dom ?N)" by blast+
  qed
  have "ids_ok (RBT.lookup (wi_nodes y)) (Some i) k" using d fr(3,4) by (simp add: ids_ok_def)
  then have "ws_ok k (y, Some i)" using f y(2) by (simp add: ws_ok_def)
  then show thesis using that [of i y] y(1,3,4) fr(1,2) N by simp
qed

lemma unlink_lookup:
  assumes "forest (RBT.lookup (wi_nodes x)) roots" and n: "RBT.lookup (wi_nodes x) i = Some n"
  shows "RBT.lookup (wi_nodes (unlink x (wn_parent_id n) i)) j
           = map_option (drop_child i) (RBT.lookup (wi_nodes x) j)"
proof (cases "RBT.lookup (wi_nodes x) j")
  case None
  then show ?thesis by (cases "wn_parent_id n") (auto simp: unlink_def)
next
  case (Some m)
  have "drop_child i m = m" if "wn_parent_id n \<noteq> Some j"
    using that n forest_children [OF assms(1) Some] by (intro drop_child_id) (auto simp: parents_def)
  then show ?thesis using Some by (cases "wn_parent_id n") (auto simp: unlink_def)
qed

lemma unlink_roots:
  assumes "forest (RBT.lookup (wi_nodes x)) (wi_root_ids x)" and n: "RBT.lookup (wi_nodes x) i = Some n"
  shows "wi_root_ids (unlink x (wn_parent_id n) i) = filter (\<lambda>r. r \<noteq> i) (wi_root_ids x)"
proof (cases "wn_parent_id n")
  case None
  then show ?thesis by (simp add: unlink_def)
next
  case (Some p)
  then have "i \<notin> set (wi_root_ids x)" using assms by (simp add: forest_def)
  then have "filter (\<lambda>r. r \<noteq> i) (wi_root_ids x) = wi_root_ids x" by (intro filter_True) auto
  then show ?thesis using Some by (simp add: unlink_def)
qed

lemma unlink_rest [simp]:
  "wi_path_index (unlink x p i) = wi_path_index x" "wi_version (unlink x p i) = wi_version x"
  "wi_initialized (unlink x p i) = wi_initialized x"
  by (simp_all add: unlink_def split: option.split)

lemma relink_rest [simp]:
  "wi_path_index (relink x i old new now) = wi_path_index x" "wi_version (relink x i old new now) = wi_version x"
  "wi_initialized (relink x i old new now) = wi_initialized x"
  by (simp_all add: relink_def Let_def split: option.split)

lemma workspace_delete_ok:
  assumes "wi_initialized x" and f: "forest (RBT.lookup (wi_nodes x)) (wi_root_ids x)"
    and n: "RBT.lookup (wi_nodes x) i = Some n"
  obtains y where "workspace_delete x i = Some (Inr (), y)"
    "RBT.lookup (wi_nodes y) = cut (RBT.lookup (wi_nodes x)) i"
    "wi_root_ids y = filter (\<lambda>r. r \<noteq> i) (wi_root_ids x)" "wi_initialized y"
    "wi_path_index y = (\<lambda>p. if \<exists>j \<in> subtree (RBT.lookup (wi_nodes x)) i. compute_path x j = Some (Inr p)
                            then None else wi_path_index x p)"
    "wi_version y = wi_version x + 1"
proof -
  let ?N = "RBT.lookup (wi_nodes x)"
  obtain ds where ds: "collect_descendants x i = Some ds" "set (i # ds) = subtree ?N i"
    by (rule collect_descendants_exact [OF f n])
  define pi where "pi = (\<lambda>p. if \<exists>j \<in> subtree ?N i. compute_path x j = Some (Inr p) then None else wi_path_index x p)"
  define x1 where "x1 = x\<lparr>wi_path_index := pi\<rparr>"
  define x2 where "x2 = unlink x1 (wn_parent_id n) i"
  have rp: "remove_paths x (i # ds) = Some x1"
    unfolding remove_paths_exact [OF f] ds(2) x1_def pi_def ..
  define y where "y = x2\<lparr>wi_nodes := fold RBT.delete (i # ds) (wi_nodes x2), wi_version := wi_version x2 + 1\<rparr>"
  have d: "workspace_delete x i = Some (Inr (), y)"
    using assms(1) n ds(1) rp by (simp add: workspace_delete_def y_def x2_def Let_def)
  have f1: "forest (RBT.lookup (wi_nodes x1)) (wi_root_ids x1)" and n1: "RBT.lookup (wi_nodes x1) i = Some n"
    using f n by (simp_all add: x1_def)
  have "RBT.lookup (wi_nodes y) j = cut ?N i j" for j
  proof -
    have "RBT.lookup (wi_nodes y) j = (if j \<in> set (i # ds) then None else RBT.lookup (wi_nodes x2) j)"
      unfolding y_def using lookup_fold_delete [of "i # ds" "wi_nodes x2"] by (simp add: restrict_map_def)
    then show ?thesis using unlink_lookup [OF f1 n1, of j] unfolding ds(2) x2_def by (simp add: cut_def x1_def)
  qed
  moreover have "wi_root_ids y = filter (\<lambda>r. r \<noteq> i) (wi_root_ids x)"
    using unlink_roots [OF f1 n1] by (simp add: y_def x2_def x1_def)
  ultimately show thesis
    using that [of y] d assms(1) by (simp add: y_def x2_def x1_def pi_def fun_eq_iff)
qed

lemma check_new_parent_total:
  "forest (RBT.lookup (wi_nodes x)) roots \<Longrightarrow> check_new_parent x i name npid \<noteq> None"
  using descendant_loop_exact [of "wi_nodes x" roots npid i]
  by (auto simp: check_new_parent_def is_descendant_def split: option.splits bool.splits)

lemma check_new_parent_ok:
  assumes "forest (RBT.lookup (wi_nodes x)) roots"
  shows "check_new_parent x i name npid = Some (Inr ()) \<longleftrightarrow>
           npid \<in> dom (RBT.lookup (wi_nodes x)) \<and> npid \<notin> subtree (RBT.lookup (wi_nodes x)) i
           \<and> (\<forall>c n. (npid, c) \<in> parents (RBT.lookup (wi_nodes x)) \<longrightarrow> RBT.lookup (wi_nodes x) c = Some n
                     \<longrightarrow> wn_name n \<noteq> name)"
proof -
  let ?N = "RBT.lookup (wi_nodes x)"
  have sub: "npid \<in> subtree ?N i \<longleftrightarrow> npid = i \<or> (i, npid) \<in> (parents ?N)\<^sup>+"
    by (auto simp: subtree_def rtrancl_eq_or_trancl)
  show ?thesis
  proof (cases "?N npid")
    case None
    then show ?thesis by (auto simp: check_new_parent_def)
  next
    case (Some m)
    have "list_ex (\<lambda>c. case ?N c of Some cn \<Rightarrow> wn_name cn = name | None \<Rightarrow> False) (wn_children m)
            \<longleftrightarrow> (\<exists>c n. (npid, c) \<in> parents ?N \<and> ?N c = Some n \<and> wn_name n = name)"
      using forest_children [OF assms Some] by (auto simp: list_ex_iff split: option.splits)
    then show ?thesis
      using Some sub descendant_loop_exact [OF assms, of npid i]
      by (auto simp: check_new_parent_def is_descendant_def split: bool.splits)
  qed
qed

definition move_allowed :: "(WorkspaceId \<rightharpoonup> WorkspaceNode) \<Rightarrow> WorkspaceId \<Rightarrow> WorkspaceId option \<Rightarrow> bool" where
  "move_allowed N i new \<longleftrightarrow>
     (\<forall>np. new = Some np \<longrightarrow> np \<in> dom N \<and> np \<notin> subtree N i
        \<and> (\<forall>c m. (np, c) \<in> parents N \<longrightarrow> N c = Some m \<longrightarrow> wn_name m \<noteq> wn_name (the (N i))))"

lemma workspace_move_refused:
  assumes "wi_initialized x" and f: "forest (RBT.lookup (wi_nodes x)) (wi_root_ids x)"
    and n: "RBT.lookup (wi_nodes x) i = Some n" "wn_parent_id n \<noteq> new"
    and no: "\<not> move_allowed (RBT.lookup (wi_nodes x)) i new"
  obtains e where "workspace_move x i new now = Some (Inl e, x)"
proof -
  obtain np where np: "new = Some np" "check_new_parent x i (wn_name n) np \<noteq> Some (Inr ())"
    using no n(1) check_new_parent_ok [OF f, of i "wn_name n"] unfolding move_allowed_def by auto
  then obtain e where "check_new_parent x i (wn_name n) np = Some (Inl e)"
    using check_new_parent_total [OF f, of i "wn_name n" np]
    by (metis (full_types) not_None_eq old.unit.exhaust sum.exhaust)
  then show thesis using that [of e] assms(1) n np(1) by (simp add: workspace_move_def)
qed

lemma workspace_move_ok:
  assumes "wi_initialized x" and f: "forest (RBT.lookup (wi_nodes x)) (wi_root_ids x)"
    and n: "RBT.lookup (wi_nodes x) i = Some n" "wn_parent_id n \<noteq> new"
    and ok: "move_allowed (RBT.lookup (wi_nodes x)) i new"
  obtains ds x2 r y where "collect_descendants x i = Some ds" "set (i # ds) = subtree (RBT.lookup (wi_nodes x)) i"
    "RBT.lookup (wi_nodes x2) = regraft (RBT.lookup (wi_nodes x)) i new now"
    "wi_root_ids x2 = filter (\<lambda>r. r \<noteq> i) (wi_root_ids x) @ (if new = None then [i] else [])"
    "wi_initialized x2" "wi_version x2 = wi_version x"
    "forest (RBT.lookup (wi_nodes x2)) (wi_root_ids x2)"
    "wi_path_index x2 = (\<lambda>p. if \<exists>j \<in> subtree (RBT.lookup (wi_nodes x)) i. compute_path x2 j = Some (Inr p)
                             then None else wi_path_index x p)"
    "workspace_move x i new now = Some (r, y)"
    "(r, y) = (case new_segments x2 new (wn_name n) of
                 Some (Inr segments) \<Rightarrow>
                   (case reindex (wi_nodes x2) ds 0 (i # ds) segments (wi_path_index x2) of
                      (Inl e, index) \<Rightarrow> (Inl e, x2\<lparr>wi_path_index := index\<rparr>)
                    | (Inr _, index) \<Rightarrow> (Inr (), x2\<lparr>wi_path_index := index, wi_version := wi_version x2 + 1\<rparr>))
               | Some (Inl e) \<Rightarrow> (Inl e, x2))"
proof -
  let ?N = "RBT.lookup (wi_nodes x)"
  have guard: "(case new of Some np \<Rightarrow> check_new_parent x i (wn_name n) np | None \<Rightarrow> Some (Inr ())) = Some (Inr ())"
    using ok n(1) check_new_parent_ok [OF f, of i "wn_name n"] by (auto simp: move_allowed_def split: option.split)
  obtain ds where ds: "collect_descendants x i = Some ds" "set (i # ds) = subtree ?N i"
    by (rule collect_descendants_exact [OF f n(1)])
  define x1 where "x1 = relink x i (wn_parent_id n) new now"
  have "i \<in> subtree ?N i" by (simp add: subtree_def)
  then have self: "new \<noteq> Some i" using ok by (auto simp: move_allowed_def)
  have L: "RBT.lookup (wi_nodes x1) = regraft ?N i new now"
    unfolding x1_def by (rule relink_regraft [OF f n self])
  have R: "wi_root_ids x1 = filter (\<lambda>r. r \<noteq> i) (wi_root_ids x) @ (if new = None then [i] else [])"
    unfolding x1_def by (rule relink_roots [OF f n(1)])
  have f1: "forest (RBT.lookup (wi_nodes x1)) (wi_root_ids x1)"
    unfolding L R by (rule forest_regraft [OF f n]) (use ok in \<open>auto simp: move_allowed_def subtree_def\<close>)
  obtain ps where ps: "computed_paths x1 (i # ds) = Some ps"
    "set ps = {p. \<exists>j \<in> set (i # ds). compute_path x1 j = Some (Inr p)}"
    using computed_paths_exact [OF f1] by blast
  have fold: "fold (\<lambda>path m. m(path := None)) ps m = (\<lambda>p. if p \<in> set ps then None else m p)"
    for m :: "WorkspacePath \<rightharpoonup> WorkspaceId"
    by (induction ps arbitrary: m) (auto simp: fun_eq_iff)
  define x2 where "x2 = x1\<lparr>wi_path_index := fold (\<lambda>path m. m(path := None)) ps (wi_path_index x1)\<rparr>"
  have c2: "compute_path x2 j = compute_path x1 j" for j by (rule compute_path_nodes) (simp add: x2_def)
  have P: "wi_path_index x2 = (\<lambda>p. if \<exists>j \<in> subtree ?N i. compute_path x2 j = Some (Inr p) then None else wi_path_index x p)"
  proof -
    have "wi_path_index x2 = (\<lambda>p. if p \<in> set ps then None else wi_path_index x p)"
      by (simp add: x2_def fold) (simp only: x1_def relink_rest cong: if_cong)
    then show ?thesis unfolding ps(2) ds(2) c2 mem_Collect_eq .
  qed
  have f2: "forest (RBT.lookup (wi_nodes x2)) (wi_root_ids x2)" using f1 by (simp add: x2_def)
  obtain s where s: "new_segments x2 new (wn_name n) = Some s" using new_segments_total [OF f2] by blast
  define ry where "ry = (case new_segments x2 new (wn_name n) of
                 Some (Inr segments) \<Rightarrow>
                   (case reindex (wi_nodes x2) ds 0 (i # ds) segments (wi_path_index x2) of
                      (Inl e, index) \<Rightarrow> (Inl e, x2\<lparr>wi_path_index := index\<rparr>)
                    | (Inr _, index) \<Rightarrow> (Inr (), x2\<lparr>wi_path_index := index, wi_version := wi_version x2 + 1\<rparr>))
               | Some (Inl e) \<Rightarrow> (Inl e, x2))"
  have "workspace_move x i new now = Some ry"
    using assms(1) n guard ds(1) ps(1) s
    by (simp add: workspace_move_def ry_def Let_def x1_def [symmetric] x2_def [symmetric] split: sum.splits prod.splits)
  moreover have "wi_initialized x2" "wi_version x2 = wi_version x" "RBT.lookup (wi_nodes x2) = regraft ?N i new now"
    "wi_root_ids x2 = filter (\<lambda>r. r \<noteq> i) (wi_root_ids x) @ (if new = None then [i] else [])"
    using assms(1) L R by (simp_all add: x2_def x1_def)
  ultimately show thesis using that [of ds x2 "fst ry" "snd ry"] ds f2 P unfolding ry_def by simp
qed

lemma workspace_move_result:
  assumes "wi_initialized x" and "forest (RBT.lookup (wi_nodes x)) (wi_root_ids x)"
    and "RBT.lookup (wi_nodes x) i = Some n" "wn_parent_id n \<noteq> new"
    and "move_allowed (RBT.lookup (wi_nodes x)) i new"
  obtains r y where "workspace_move x i new now = Some (r, y)" "wi_initialized y"
    "RBT.lookup (wi_nodes y) = regraft (RBT.lookup (wi_nodes x)) i new now"
    "wi_root_ids y = filter (\<lambda>r. r \<noteq> i) (wi_root_ids x) @ (if new = None then [i] else [])"
    "forest (RBT.lookup (wi_nodes y)) (wi_root_ids y)"
proof (rule workspace_move_ok [OF assms])
  fix ds x2 r y
  assume a: "RBT.lookup (wi_nodes x2) = regraft (RBT.lookup (wi_nodes x)) i new now"
    "wi_root_ids x2 = filter (\<lambda>r. r \<noteq> i) (wi_root_ids x) @ (if new = None then [i] else [])"
    "wi_initialized x2" "forest (RBT.lookup (wi_nodes x2)) (wi_root_ids x2)"
    "workspace_move x i new now = Some (r, y)"
    "(r, y) = (case new_segments x2 new (wn_name n) of
                 Some (Inr segments) \<Rightarrow>
                   (case reindex (wi_nodes x2) ds 0 (i # ds) segments (wi_path_index x2) of
                      (Inl e, index) \<Rightarrow> (Inl e, x2\<lparr>wi_path_index := index\<rparr>)
                    | (Inr _, index) \<Rightarrow> (Inr (), x2\<lparr>wi_path_index := index, wi_version := wi_version x2 + 1\<rparr>))
               | Some (Inl e) \<Rightarrow> (Inl e, x2))"
  have "new_segments x2 new (wn_name n) \<noteq> None" using new_segments_total [OF a(4)] .
  then have "wi_nodes y = wi_nodes x2" "wi_root_ids y = wi_root_ids x2" "wi_initialized y = wi_initialized x2"
    using a(6) by (auto split: option.splits sum.splits prod.splits)
  then show thesis using that [of r y] a by simp
qed

lemma update_metadata_ok:
  assumes "wi_initialized x" and "forest (RBT.lookup (wi_nodes x)) (wi_root_ids x)"
    and "update_metadata x i metadata now = (r, y)"
  shows "wi_initialized y" and "forest (RBT.lookup (wi_nodes y)) (wi_root_ids y)"
    and "dom (RBT.lookup (wi_nodes y)) = dom (RBT.lookup (wi_nodes x))"
    and "wi_path_index y = wi_path_index x"
    and "RBT.lookup (wi_nodes x) j = Some n \<Longrightarrow>
           \<exists>m. RBT.lookup (wi_nodes y) j = Some m \<and> wn_name m = wn_name n \<and> wn_parent_id m = wn_parent_id n"
proof -
  let ?N = "RBT.lookup (wi_nodes x)"
  consider "y = x" | n where "?N i = Some n" "wi_initialized y" "wi_root_ids y = wi_root_ids x"
      "wi_path_index y = wi_path_index x"
      "RBT.lookup (wi_nodes y) = ?N(i \<mapsto> n\<lparr>wn_metadata := metadata, wn_updated_at := now\<rparr>)"
    using assms by (cases "?N i") (auto simp: update_metadata_def split: sum.splits)
  then have "wi_initialized y \<and> forest (RBT.lookup (wi_nodes y)) (wi_root_ids y)
    \<and> dom (RBT.lookup (wi_nodes y)) = dom ?N \<and> wi_path_index y = wi_path_index x
    \<and> (\<forall>j n. ?N j = Some n \<longrightarrow>
           (\<exists>m. RBT.lookup (wi_nodes y) j = Some m \<and> wn_name m = wn_name n \<and> wn_parent_id m = wn_parent_id n))"
  proof cases
    case 1
    then show ?thesis using assms(1,2) by simp
  next
    case (2 n)
    have "forest (?N(i \<mapsto> n\<lparr>wn_metadata := metadata, wn_updated_at := now\<rparr>)) (wi_root_ids x)"
      by (rule forest_same_shape(1) [OF assms(2) 2(1)]) simp_all
    then show ?thesis using 2 by auto
  qed
  then show "wi_initialized y" "forest (RBT.lookup (wi_nodes y)) (wi_root_ids y)"
    "dom (RBT.lookup (wi_nodes y)) = dom ?N" "wi_path_index y = wi_path_index x"
    "?N j = Some n \<Longrightarrow>
       \<exists>m. RBT.lookup (wi_nodes y) j = Some m \<and> wn_name m = wn_name n \<and> wn_parent_id m = wn_parent_id n"
    by blast+
qed

lemma workspace_insert_fails:
  assumes "forest (RBT.lookup (wi_nodes x)) (wi_root_ids x)"
    and "\<nexists>path. metadata_validate metadata = Inr () \<and> insert_path x parent_id name = Some (Inr path)
                \<and> wi_path_index x path = None"
  obtains e where "workspace_insert x parent_id name metadata now fresh l = Some (Inl e, x, l)"
proof -
  obtain p where "insert_path x parent_id name = Some p" using insert_path_total [OF assms(1)] by blast
  then show thesis using that assms(2)
    by (cases "metadata_validate metadata"; cases p; cases "wi_initialized x") (auto simp: workspace_insert_def)
qed

lemma dom_cut: "dom (cut N i) = dom N - subtree N i"
  by (auto simp: cut_def split: if_splits)

lemma dom_regraft: "dom (regraft N i new now) = dom N"
  by (auto simp: regraft_def)

lemma ws_step_ok:
  assumes ok: "ws_ok (Suc k) s" and "fresh_below (Suc k) op"
  shows "\<exists>r s'. ws_step s op = Some (r, s') \<and> ws_ok k s'"
proof -
  obtain x l where s: "s = (x, l)" by fastforce
  let ?N = "RBT.lookup (wi_nodes x)"
  have x: "wi_initialized x" "forest ?N (wi_root_ids x)" "ids_ok ?N l (Suc k)" using ok s by (simp_all add: ws_ok_def)
  have keep: "ws_ok k (x, l)" using x ids_ok_mono [OF x(3) order_refl] by (simp add: ws_ok_def)
  show ?thesis
  proof (cases op)
    case (WS_Insert parent_id name metadata now fresh)
    show ?thesis
    proof (cases "\<exists>path. metadata_validate metadata = Inr () \<and> insert_path x parent_id name = Some (Inr path)
                        \<and> wi_path_index x path = None")
      case True
      then obtain path where p: "metadata_validate metadata = Inr ()" "insert_path x parent_id name = Some (Inr path)"
        "wi_path_index x path = None" by blast
      have "unat fresh + Suc k < 2 ^ 128" using assms(2) WS_Insert by simp
      from workspace_insert_ok [OF ok [unfolded s] this p, of now] obtain i y where
        "workspace_insert x parent_id name metadata now fresh l = Some (Inr i, y, Some i)" "ws_ok k (y, Some i)" .
      then show ?thesis using s WS_Insert by simp
    next
      case False
      from workspace_insert_fails [OF x(2) False] obtain e where
        "workspace_insert x parent_id name metadata now fresh l = Some (Inl e, x, l)" .
      then show ?thesis using s WS_Insert keep by simp
    qed
  next
    case (WS_Delete i)
    show ?thesis
    proof (cases "?N i")
      case None
      then show ?thesis using s WS_Delete keep x(1) by (simp add: workspace_delete_def)
    next
      case (Some n)
      from workspace_delete_ok [OF x(1,2) Some] obtain y where y: "workspace_delete x i = Some (Inr (), y)"
        "RBT.lookup (wi_nodes y) = cut ?N i" "wi_root_ids y = filter (\<lambda>r. r \<noteq> i) (wi_root_ids x)" "wi_initialized y" .
      have "ws_ok k (y, l)"
        using y forest_cut [OF x(2)] ids_ok_mono [OF x(3), of "cut ?N i"] by (simp add: ws_ok_def dom_cut)
      then show ?thesis using y(1) s WS_Delete by simp
    qed
  next
    case (WS_Move i new now)
    show ?thesis
    proof (cases "?N i")
      case None
      then show ?thesis using s WS_Move keep x(1) by (simp add: workspace_move_def)
    next
      case (Some n)
      consider "wn_parent_id n = new" | "wn_parent_id n \<noteq> new" "\<not> move_allowed ?N i new"
        | "wn_parent_id n \<noteq> new" "move_allowed ?N i new" by blast
      then show ?thesis
      proof cases
        case 1
        then show ?thesis using s WS_Move keep x(1) Some by (simp add: workspace_move_def ws_ok_def)
      next
        case 2
        from workspace_move_refused [OF x(1,2) Some 2] obtain e where "workspace_move x i new now = Some (Inl e, x)" .
        then show ?thesis using s WS_Move keep by simp
      next
        case 3
        from workspace_move_result [OF x(1,2) Some 3] obtain r y where y: "workspace_move x i new now = Some (r, y)"
          "wi_initialized y" "RBT.lookup (wi_nodes y) = regraft ?N i new now"
          "forest (RBT.lookup (wi_nodes y)) (wi_root_ids y)" .
        have "ws_ok k (y, l)"
          using y ids_ok_mono [OF x(3), of "regraft ?N i new now"] by (simp add: ws_ok_def dom_regraft)
        then show ?thesis using y(1) s WS_Move by simp
      qed
    qed
  next
    case (WS_Update i metadata now)
    obtain r y where y: "update_metadata x i metadata now = (r, y)" by fastforce
    note u = update_metadata_ok [OF x(1,2) y]
    have "ws_ok k (y, l)" using u(1-3) ids_ok_mono [OF x(3), of "RBT.lookup (wi_nodes y)"] by (simp add: ws_ok_def)
    then show ?thesis using y s WS_Update by simp
  qed
qed

lemma fresh_below_mono: "fresh_below k op \<Longrightarrow> j \<le> k \<Longrightarrow> fresh_below j op"
  by (cases op) auto

lemma ws_run_ok:
  "ws_ok (k + length ops) s \<Longrightarrow> \<forall>op \<in> set ops. fresh_below (k + length ops) op
     \<Longrightarrow> \<exists>rs s'. ws_run s ops = Some (rs, s') \<and> ws_ok k s'"
proof (induction ops arbitrary: s)
  case Nil
  then show ?case by simp
next
  case (Cons op ops)
  obtain r s1 where s1: "ws_step s op = Some (r, s1)" "ws_ok (k + length ops) s1"
    using ws_step_ok [of "k + length ops" s op] Cons.prems by auto
  have "\<forall>op \<in> set ops. fresh_below (k + length ops) op"
    using Cons.prems(2) by (auto intro: fresh_below_mono)
  then obtain rs s' where "ws_run s1 ops = Some (rs, s')" "ws_ok k s'" using Cons.IH [OF s1(2)] by blast
  then show ?case using s1(1) by simp
qed

text \<open>
  The assumption under which a run is considered: the identifiers the ulid crate and
  \<open>LAST_ULID\<close> supply leave room for the calls of the run below \<open>2 ^ 128\<close>.
\<close>

definition ids_room :: "128 word option \<Rightarrow> ws_op list \<Rightarrow> bool" where
  "ids_room l ops \<longleftrightarrow> (\<forall>p. l = Some p \<longrightarrow> unat p + length ops < 2 ^ 128)
     \<and> (\<forall>op \<in> set ops. fresh_below (length ops) op)"

lemma ws_ok_new: "ids_room l ops \<Longrightarrow> ws_ok (length ops) (WorkspaceIndex_new, l)"
  by (simp add: ids_room_def ws_ok_def WorkspaceIndex_new_def ids_ok_def forest_def parents_def acyclic_def)

lemma ws_run_new:
  assumes "ids_room l ops"
  obtains rs x l' where "ws_run (WorkspaceIndex_new, l) ops = Some (rs, x, l')" "ws_ok 0 (x, l')"
  using ws_run_ok [of 0 ops "(WorkspaceIndex_new, l)"] ws_ok_new [OF assms] assms
  by (auto simp: ids_room_def)

lemma ws_run_forest:
  assumes "ids_room l ops" and "ws_run (WorkspaceIndex_new, l) ops = Some (rs, x, l')"
  shows "wi_initialized x" and "forest (RBT.lookup (wi_nodes x)) (wi_root_ids x)"
  using ws_run_new [OF assms(1)] assms(2) by (auto simp: ws_ok_def)

lemma missing_child_ok: "set cs \<subseteq> dom (RBT.lookup nodes) \<Longrightarrow> missing_child nodes cs = Inr ()"
  by (induction cs) auto

lemma verify_node_ok:
  assumes "forest (RBT.lookup (wi_nodes x)) (wi_root_ids x)" and n: "RBT.lookup (wi_nodes x) i = Some n"
  shows "verify_node x i n = Some (Inr ())"
proof -
  let ?N = "RBT.lookup (wi_nodes x)"
  have m: "missing_child (wi_nodes x) (wn_children n) = Inr ()"
    using children_unrelated(2) [OF assms] by (rule missing_child_ok)
  show ?thesis
  proof (cases "wn_parent_id n")
    case None
    then have "i \<in> set (wi_root_ids x)" using assms by (simp add: forest_def)
    then show ?thesis using None m by (simp add: verify_node_def)
  next
    case (Some p)
    then have pi: "(p, i) \<in> parents ?N" using n by (auto simp: parents_def)
    then obtain pn where "?N p = Some pn" using forest_parent_dom [OF assms(1)] by blast
    then show ?thesis using Some m pi forest_children [OF assms(1)] by (simp add: verify_node_def)
  qed
qed

lemma forest_verified:
  assumes "wi_initialized x" and "forest (RBT.lookup (wi_nodes x)) (wi_root_ids x)"
  shows "verify_invariants x = Some (Inr ())"
proof -
  have "verify_nodes x es = Some (Inr ())" if "set es \<subseteq> set (RBT.entries (wi_nodes x))" for es
    using that
  proof (induction es)
    case Nil
    then show ?case by simp
  next
    case (Cons e es)
    obtain i n where e: "e = (i, n)" by fastforce
    then have "RBT.lookup (wi_nodes x) i = Some n" using Cons.prems by (simp add: lookup_in_tree)
    then show ?case using e Cons verify_node_ok [OF assms(2)] by simp
  qed
  moreover have "verify_roots (wi_nodes x) rs = Inr ()" if "set rs \<subseteq> set (wi_root_ids x)" for rs
    using that assms(2) by (induction rs) (auto simp: forest_def)
  ultimately show ?thesis using assms(1) by (simp add: verify_invariants_def)
qed

lemma get_ancestors_total: "forest (RBT.lookup (wi_nodes x)) roots \<Longrightarrow> get_ancestors x i \<noteq> None"
  using forest_path_ex [of "RBT.lookup (wi_nodes x)" roots i] is_path_ancestry get_ancestors_ancestry
  by (cases "i \<in> dom (RBT.lookup (wi_nodes x))") (fastforce, simp add: get_ancestors_def domIff)

lemma get_descendants_exact:
  assumes "forest (RBT.lookup (wi_nodes x)) roots" and "RBT.lookup (wi_nodes x) i = Some n"
  obtains ds where "get_descendants x i = Some (Inr ds)" "distinct ds" "i \<notin> set ds"
    "insert i (set ds) = subtree (RBT.lookup (wi_nodes x)) i"
    "set ds = (parents (RBT.lookup (wi_nodes x)))\<^sup>+ `` {i}"
proof (rule collect_descendants_exact [OF assms])
  fix ds assume "collect_descendants x i = Some ds" "distinct (i # ds)"
    "set (i # ds) = subtree (RBT.lookup (wi_nodes x)) i" "set ds = (parents (RBT.lookup (wi_nodes x)))\<^sup>+ `` {i}"
  then show thesis using that [of ds] assms(2) by (simp add: get_descendants_def collect_descendants_def)
qed

lemma ancestry_above: "ancestry N j as \<Longrightarrow> a \<in> set as \<longleftrightarrow> (a, j) \<in> (parents N)\<^sup>+"
proof (induction rule: ancestry.induct)
  case (top i n)
  then have "(p, i) \<notin> parents N" for p by (auto simp: parents_def)
  then show ?case by (auto dest: tranclD2)
next
  case (below i n p as)
  then have pi: "(p, i) \<in> parents N" by (auto simp: parents_def)
  have "(a, i) \<in> (parents N)\<^sup>+ \<longleftrightarrow> a = p \<or> (a, p) \<in> (parents N)\<^sup>+"
    by (auto elim: trancl.cases dest: parents_unique [OF pi] intro: pi trancl_into_trancl)
  then show ?case using below.IH by auto
qed

lemma listed_ancestors:
  assumes "forest (RBT.lookup (wi_nodes x)) roots"
  shows "(\<exists>bs. get_ancestors x j = Some (Inr bs) \<and> i \<in> set bs) \<longleftrightarrow> (i, j) \<in> (parents (RBT.lookup (wi_nodes x)))\<^sup>+"
proof (cases "j \<in> dom (RBT.lookup (wi_nodes x))")
  case True
  then obtain as where "ancestry (RBT.lookup (wi_nodes x)) j as"
    using forest_path_ex [OF assms] is_path_ancestry by blast
  then show ?thesis using ancestry_above get_ancestors_ancestry by fastforce
next
  case False
  then have "(i, j) \<notin> (parents (RBT.lookup (wi_nodes x)))\<^sup>+" by (auto dest: tranclD2 parents_dom)
  then show ?thesis using False by (auto simp: get_ancestors_def domIff)
qed

text \<open>
  (C36) Every run of insertions, deletions, moves and updates returns, failed calls included,
  and leaves a forest: the loops that climb to a root or collect a subtree never run for
  ever, the consistency check of the code succeeds, the ancestors of every workspace can be
  listed and spell its path, and its descendants are listed each once.
\<close>

theorem workspace_calls_return:
  assumes "ids_room l ops"
  shows "\<exists>rs x l'. ws_run (WorkspaceIndex_new, l) ops = Some (rs, x, l')
           \<and> verify_invariants x = Some (Inr ())
           \<and> (\<forall>i n. find_by_id x i = Inr n \<longrightarrow>
                (\<exists>as ds. get_ancestors x i = Some (Inr as)
                   \<and> compute_path x i = Some (WorkspacePath_new (map (\<lambda>a. wn_name (the (RBT.lookup (wi_nodes x) a))) (as @ [i])))
                   \<and> get_descendants x i = Some (Inr ds) \<and> distinct ds \<and> i \<notin> set ds
                   \<and> (\<forall>j. j \<in> set ds \<longleftrightarrow> (\<exists>bs. get_ancestors x j = Some (Inr bs) \<and> i \<in> set bs))))"
proof -
  obtain rs x l' where r: "ws_run (WorkspaceIndex_new, l) ops = Some (rs, x, l')"
    by (rule ws_run_new [OF assms])
  note f = ws_run_forest [OF assms r]
  let ?N = "RBT.lookup (wi_nodes x)"
  have anc: "\<exists>as. ancestry ?N j as \<and> is_path ?N j (map (\<lambda>a. wn_name (the (?N a))) (as @ [j]))" if "j \<in> dom ?N" for j
    using forest_path_ex [OF f(2) that] is_path_ancestry by blast
  note listed = listed_ancestors [OF f(2)]
  have "\<exists>as ds. get_ancestors x i = Some (Inr as)
                   \<and> compute_path x i = Some (WorkspacePath_new (map (\<lambda>a. wn_name (the (?N a))) (as @ [i])))
                   \<and> get_descendants x i = Some (Inr ds) \<and> distinct ds \<and> i \<notin> set ds
                   \<and> (\<forall>j. j \<in> set ds \<longleftrightarrow> (\<exists>bs. get_ancestors x j = Some (Inr bs) \<and> i \<in> set bs))"
    if "find_by_id x i = Inr n" for i n
  proof -
    have n: "?N i = Some n" using that by (simp add: find_by_id_def)
    obtain as where "ancestry ?N i as" "is_path ?N i (map (\<lambda>a. wn_name (the (?N a))) (as @ [i]))"
      using anc [of i] n by auto
    then have as: "get_ancestors x i = Some (Inr as)"
      "compute_path x i = Some (WorkspacePath_new (map (\<lambda>a. wn_name (the (?N a))) (as @ [i])))"
      by (simp_all add: get_ancestors_ancestry compute_path_is_path)
    obtain ds where ds: "get_descendants x i = Some (Inr ds)" "distinct ds" "i \<notin> set ds" "set ds = (parents ?N)\<^sup>+ `` {i}"
      by (rule get_descendants_exact [OF f(2) n])
    then have "\<forall>j. j \<in> set ds \<longleftrightarrow> (\<exists>bs. get_ancestors x j = Some (Inr bs) \<and> i \<in> set bs)" by (simp add: listed)
    then show ?thesis using as ds by blast
  qed
  then show ?thesis using r forest_verified [OF f] by blast
qed

definition demo_ws_ops :: "ws_op list" where
  "demo_ws_ops = [WS_Insert None ''a'' [] 5 1, WS_Insert (Some 1) ''b'' [] 6 2, WS_Move 2 None 7, WS_Delete 1]"

lemma demo_ws_room: "ids_room None demo_ws_ops"
  by (simp add: ids_room_def demo_ws_ops_def)

theorem workspace_calls_return_witness:
  "\<exists>rs x l'. ws_run (WorkspaceIndex_new, None) demo_ws_ops = Some (rs, x, l')
     \<and> verify_invariants x = Some (Inr ())"
  using workspace_calls_return [OF demo_ws_room] by blast

section \<open>The path index\<close>

definition paths_ok :: "WorkspaceIndex \<Rightarrow> bool" where
  "paths_ok x \<longleftrightarrow>
     (\<forall>path i. wi_path_index x path = Some i \<longleftrightarrow> is_path (RBT.lookup (wi_nodes x)) i path)
     \<and> (\<forall>path i. is_path (RBT.lookup (wi_nodes x)) i path \<longrightarrow> length path \<le> 16)"

definition covers :: "(WorkspaceId \<rightharpoonup> WorkspaceNode) \<Rightarrow> (WorkspaceId \<rightharpoonup> WorkspaceNode) \<Rightarrow> bool" where
  "covers M N \<longleftrightarrow>
     (\<forall>j n. N j = Some n \<longrightarrow> (\<exists>m. M j = Some m \<and> wn_name m = wn_name n \<and> wn_parent_id m = wn_parent_id n))"

lemma is_path_mono:
  assumes "is_path N i path"
    and "covers M N"
  shows "is_path M i path"
  using assms(1)
proof induction
  case (root i n)
  obtain m where m: "M i = Some m" "wn_name m = wn_name n" "wn_parent_id m = wn_parent_id n"
    using assms(2) root(1) unfolding covers_def by blast
  show ?case using is_path.root [of M, OF m(1)] m root(2) by simp
next
  case (child i n p path)
  obtain m where m: "M i = Some m" "wn_name m = wn_name n" "wn_parent_id m = wn_parent_id n"
    using assms(2) child(1) unfolding covers_def by blast
  show ?case using is_path.child [of M, OF m(1), of p path] m child by simp
qed

lemma is_path_extend_iff:
  assumes "forest N roots"
    and "covers M N"
    and "i \<in> dom N"
  shows "is_path M i path \<longleftrightarrow> is_path N i path"
proof -
  obtain q where "is_path N i q" using forest_path_ex [OF assms(1,3)] by blast
  then have "is_path M i q" "is_path N i q" using is_path_mono [OF _ assms(2)] by blast+
  then show ?thesis using is_path_unique by blast
qed

lemma compute_path_iff:
  assumes "forest (RBT.lookup (wi_nodes x)) roots"
    and "\<forall>path i. is_path (RBT.lookup (wi_nodes x)) i path \<longrightarrow> length path \<le> 16"
  shows "compute_path x i = Some (Inr path) \<longleftrightarrow> is_path (RBT.lookup (wi_nodes x)) i path"
proof (cases "i \<in> dom (RBT.lookup (wi_nodes x))")
  case True
  obtain q where q: "is_path (RBT.lookup (wi_nodes x)) i q" "compute_path x i = Some (WorkspacePath_new q)"
    by (rule forest_compute_path [OF assms(1) True])
  then have "length q \<le> 16" using assms(2) by blast
  then have "compute_path x i = Some (Inr q)" using q(2) by (simp add: WorkspacePath_new_def)
  then show ?thesis using q(1) is_path_unique by auto
next
  case False
  then have "\<not> is_path (RBT.lookup (wi_nodes x)) i path" using is_path_dom by blast
  then show ?thesis using False by (simp add: compute_path_def domIff)
qed

lemma paths_ok_insert:
  assumes ok: "ws_ok (Suc k) (x, l)" "paths_ok x" and "unat fresh + Suc k < 2 ^ 128"
    and ins: "workspace_insert x parent_id name metadata now fresh l = Some (r, y, l')"
  shows "paths_ok y"
proof (cases "\<exists>path. metadata_validate metadata = Inr () \<and> insert_path x parent_id name = Some (Inr path)
                        \<and> wi_path_index x path = None")
  case False
  have "forest (RBT.lookup (wi_nodes x)) (wi_root_ids x)" using ok(1) by (simp add: ws_ok_def)
  from workspace_insert_fails [OF this False] obtain e where
    "workspace_insert x parent_id name metadata now fresh l = Some (Inl e, x, l)" .
  then show ?thesis using ins ok(2) by simp
next
  case True
  let ?N = "RBT.lookup (wi_nodes x)"
  have f: "forest ?N (wi_root_ids x)" using ok(1) by (simp add: ws_ok_def)
  note deep = ok(2) [unfolded paths_ok_def, THEN conjunct2]
  from True obtain path where p: "metadata_validate metadata = Inr ()" "insert_path x parent_id name = Some (Inr path)"
    "wi_path_index x path = None" by blast
  from workspace_insert_ok [OF ok(1) assms(3) p, of now] obtain i z where
    z: "workspace_insert x parent_id name metadata now fresh l = Some (Inr i, z, Some i)"
    and i0: "i \<notin> dom ?N" "wi_path_index z = (wi_path_index x)(path \<mapsto> i)"
    "RBT.lookup (wi_nodes z) =
       (case parent_id of
          None \<Rightarrow> ?N(i \<mapsto> WorkspaceNode_new_root i name metadata now)
        | Some pid \<Rightarrow> ?N(i \<mapsto> WorkspaceNode_new_child i name pid metadata now,
                        pid \<mapsto> push_child i (the (?N pid))))" .
  have "z = y" using z ins by simp
  note i = i0 [unfolded this]
  let ?M = "RBT.lookup (wi_nodes y)"
  have ext: "covers ?M ?N" using i(1) unfolding i(3) covers_def by (cases parent_id) auto
  have "is_path ?M i path \<and> length path \<le> 16"
  proof (cases parent_id)
    case None
    then have "?M i = Some (WorkspaceNode_new_root i name metadata now)" "path = [name]"
      using i(3) p(2) by (auto simp: insert_path_def path_single_def WorkspacePath_new_def)
    then show ?thesis using is_path.root [of ?M i] by (simp add: WorkspaceNode_new_root_def)
  next
    case (Some pid)
    then have pid: "pid \<in> dom ?N" "pid \<noteq> i" using p(2) i(1) by (auto simp: insert_path_def split: if_splits)
    obtain pp where pp: "is_path ?N pid pp" "compute_path x pid = Some (WorkspacePath_new pp)"
      by (rule forest_compute_path [OF f pid(1)])
    have path: "path = pp @ [name]" "length path \<le> 16"
      using p(2) Some pid(1) pp(2) by (auto simp: insert_path_def path_child_def WorkspacePath_new_def split: if_splits)
    have "?M i = Some (WorkspaceNode_new_child i name pid metadata now)" using i(3) Some pid(2) by simp
    then show ?thesis
      using is_path.child [of ?M i _ pid pp] is_path_mono [OF pp(1) ext] path by (simp add: WorkspaceNode_new_child_def)
  qed
  then have new: "is_path ?M i path" "length path \<le> 16" by blast+
  have dom: "dom ?M = insert i (dom ?N)"
    using p(2) unfolding i(3) by (cases parent_id) (auto simp: insert_path_def split: if_splits)
  have iff: "is_path ?M j q \<longleftrightarrow> is_path ?N j q \<or> j = i \<and> q = path" for j q
  proof (cases "j = i")
    case True
    then show ?thesis using new(1) is_path_unique is_path_dom i(1) by blast
  next
    case False
    then show ?thesis using is_path_extend_iff [OF f ext, of j q] is_path_dom dom by blast
  qed
  have idx: "wi_path_index x q = Some j \<longleftrightarrow> is_path ?N j q" for q j using ok(2) by (simp add: paths_ok_def)
  then have none: "\<not> is_path ?N j path" for j using p(3) by (metis option.discI)
  have "(wi_path_index y q = Some j) = is_path ?M j q" for q j
    unfolding iff i(2) using idx [of q j] none by auto
  moreover have "length q \<le> 16" if "is_path ?M j q" for q j
    using that deep new(2) unfolding iff by blast
  ultimately show ?thesis by (simp add: paths_ok_def)
qed

lemma paths_ok_delete:
  assumes x: "wi_initialized x" "forest (RBT.lookup (wi_nodes x)) (wi_root_ids x)" "paths_ok x"
    and del: "workspace_delete x i = Some (r, y)"
  shows "paths_ok y"
proof (cases "RBT.lookup (wi_nodes x) i")
  case None
  then show ?thesis using x del by (simp add: workspace_delete_def)
next
  case (Some n)
  let ?N = "RBT.lookup (wi_nodes x)" and ?S = "subtree (RBT.lookup (wi_nodes x)) i"
  note deep = x(3) [unfolded paths_ok_def, THEN conjunct2]
  from workspace_delete_ok [OF x(1,2) Some] obtain z where z: "workspace_delete x i = Some (Inr (), z)"
    "RBT.lookup (wi_nodes z) = cut ?N i"
    "wi_path_index z = (\<lambda>p. if \<exists>j \<in> ?S. compute_path x j = Some (Inr p) then None else wi_path_index x p)" .
  then have y: "RBT.lookup (wi_nodes y) = cut ?N i"
    "wi_path_index y = (\<lambda>p. if \<exists>j \<in> ?S. is_path ?N j p then None else wi_path_index x p)"
    using del compute_path_iff [OF x(2) deep] by simp_all
  have iff: "is_path (cut ?N i) j q \<longleftrightarrow> is_path ?N j q \<and> j \<notin> ?S" for j q
  proof -
    have down: "covers ?N (cut ?N i)" by (auto simp: covers_def cut_def split: if_splits)
    show ?thesis
    proof (cases "j \<in> dom (cut ?N i)")
      case True
      then show ?thesis using is_path_extend_iff [OF forest_cut [OF x(2)] down, where i = j] by (auto simp: dom_cut)
    next
      case False
      then show ?thesis using is_path_dom dom_cut by blast
    qed
  qed
  have idx: "wi_path_index x p = Some j \<longleftrightarrow> is_path ?N j p" for p j using x(3) by (simp add: paths_ok_def)
  have "wi_path_index y p = Some j \<longleftrightarrow> is_path (cut ?N i) j p" for p j
    unfolding y(2) iff using idx [of p] idx [of p j] by (metis option.discI option.inject)
  then show ?thesis unfolding paths_ok_def y(1) using deep iff by blast
qed

fun is_move :: "ws_op \<Rightarrow> bool" where
  "is_move (WS_Move _ _ _) = True"
| "is_move _ = False"

lemma paths_ok_step:
  assumes "ws_ok (Suc k) (x, l)" and "paths_ok x" and "fresh_below (Suc k) op" and "\<not> is_move op"
    and step: "ws_step (x, l) op = Some (r, y, l')"
  shows "paths_ok y"
proof -
  have x: "wi_initialized x" "forest (RBT.lookup (wi_nodes x)) (wi_root_ids x)" using assms(1) by (simp_all add: ws_ok_def)
  show ?thesis
  proof (cases op)
    case (WS_Insert parent_id name metadata now fresh)
    then show ?thesis using paths_ok_insert [OF assms(1,2)] assms(3) step by simp
  next
    case (WS_Delete i)
    then show ?thesis using paths_ok_delete [OF x assms(2)] step by auto
  next
    case (WS_Move i new now)
    then show ?thesis using assms(4) by simp
  next
    case (WS_Update i metadata now)
    then obtain q where y: "update_metadata x i metadata now = (q, y)" using step by (auto split: prod.splits)
    note u = update_metadata_ok [OF x y]
    have c: "covers (RBT.lookup (wi_nodes y)) (RBT.lookup (wi_nodes x))" using u(5) unfolding covers_def by blast
    have "is_path (RBT.lookup (wi_nodes y)) j p \<longleftrightarrow> is_path (RBT.lookup (wi_nodes x)) j p" for j p
      using is_path_extend_iff [OF x(2) c, of j p] is_path_dom u(3) by blast
    then show ?thesis using assms(2) u(4) by (simp add: paths_ok_def)
  qed
qed

lemma ws_run_paths_ok:
  "ws_ok (k + length ops) s \<Longrightarrow> paths_ok (fst s) \<Longrightarrow> \<forall>op \<in> set ops. fresh_below (k + length ops) op \<and> \<not> is_move op
     \<Longrightarrow> ws_run s ops = Some (rs, x, l) \<Longrightarrow> paths_ok x"
proof (induction ops arbitrary: s rs)
  case Nil
  then show ?case by simp
next
  case (Cons op ops)
  obtain y m where s: "s = (y, m)" by fastforce
  obtain r y1 m1 where s1: "ws_step s op = Some (r, y1, m1)" "ws_ok (k + length ops) (y1, m1)"
    using ws_step_ok [of "k + length ops" s op] Cons.prems by auto
  have ok1: "ws_ok (Suc (k + length ops)) (y, m)" "fresh_below (Suc (k + length ops)) op" "\<not> is_move op" "paths_ok y"
    using Cons.prems(1-3) s by simp_all
  have "paths_ok (fst (y1, m1))"
    using paths_ok_step [OF ok1(1,4,2,3)] s1(1) s by simp
  moreover have "\<forall>op \<in> set ops. fresh_below (k + length ops) op \<and> \<not> is_move op"
    using Cons.prems(3) by (auto intro: fresh_below_mono)
  moreover obtain rs' where "ws_run (y1, m1) ops = Some (rs', x, l)" using Cons.prems(4) s1(1) by (auto split: option.splits)
  ultimately show ?case using Cons.IH [OF s1(2)] by blast
qed

lemma ws_run_paths:
  assumes "ids_room l ops" and "ws_run (WorkspaceIndex_new, l) ops = Some (rs, x, l')"
    and "\<forall>op \<in> set ops. \<not> is_move op"
  shows "paths_ok x"
proof (rule ws_run_paths_ok [of 0 ops "(WorkspaceIndex_new, l)" rs x l'])
  show "ws_ok (0 + length ops) (WorkspaceIndex_new, l)" using ws_ok_new [OF assms(1)] by simp
  show "paths_ok (fst (WorkspaceIndex_new, l))"
    by (auto simp: paths_ok_def WorkspaceIndex_new_def elim: is_path.cases)
  show "\<forall>op \<in> set ops. fresh_below (0 + length ops) op \<and> \<not> is_move op" using assms(1,3) by (simp add: ids_room_def)
qed (rule assms(2))

text \<open>
  (C37) As long as nothing is moved the path index is exact: after any run of insertions,
  deletions and updates, looking a path up finds the one workspace whose chain of parents
  spells it, every workspace is found under its path, and an unused path is reported as
  not found.
\<close>

theorem workspace_paths_exact:
  assumes "ids_room l ops" and "\<forall>op \<in> set ops. \<not> is_move op"
    and "ws_run (WorkspaceIndex_new, l) ops = Some (rs, x, l')"
  shows "(find_by_path x path = Inr i \<longleftrightarrow> compute_path x i = Some (Inr path))
         \<and> (find_by_path x path = Inl (WI_PathNotFound path) \<longleftrightarrow> (\<forall>j. compute_path x j \<noteq> Some (Inr path)))
         \<and> (find_by_id x i = Inr n \<longrightarrow> (\<exists>q. compute_path x i = Some (Inr q) \<and> find_by_path x q = Inr i))"
proof -
  let ?N = "RBT.lookup (wi_nodes x)"
  note f = ws_run_forest [OF assms(1,3)] and ok = ws_run_paths [OF assms(1,3,2)]
  have deep: "\<forall>path i. is_path ?N i path \<longrightarrow> length path \<le> 16" using ok by (simp add: paths_ok_def)
  note c = compute_path_iff [OF f(2) deep]
  have idx: "wi_path_index x p = Some j \<longleftrightarrow> compute_path x j = Some (Inr p)" for p j
    using ok by (simp add: paths_ok_def c)
  have "\<exists>q. compute_path x i = Some (Inr q)" if "find_by_id x i = Inr n"
    using that forest_path_ex [OF f(2), of i] by (auto simp: find_by_id_def c)
  then show ?thesis unfolding idx [symmetric] by (cases "wi_path_index x path") (auto simp: find_by_path_def)
qed

lemmas ws_eval = workspace_insert_def insert_path_def metadata_validate_def path_single_def path_child_def
  WorkspacePath_new_def WorkspaceId_generate_def WorkspaceNode_new_root_def WorkspaceNode_new_child_def
  WorkspaceIndex_new_def compute_path_def path_loop_None path_loop_Some push_child_def

definition demo_ws_tree :: "ws_op list" where
  "demo_ws_tree = [WS_Insert None ''a'' [] 5 1, WS_Insert None ''b'' [] 6 2, WS_Insert (Some 1) ''c'' [] 7 3]"

definition demo_ws_index :: WorkspaceIndex where
  "demo_ws_index = fst (snd (the (ws_run (WorkspaceIndex_new, None) demo_ws_tree)))"

lemma demo_ws_tree_room: "ids_room None demo_ws_tree"
  by (simp add: ids_room_def demo_ws_tree_def)

lemma demo_ws_tree_run:
  "ws_run (WorkspaceIndex_new, None) demo_ws_tree = Some ([Inr 1, Inr 2, Inr 3], demo_ws_index, Some 3)"
  by (simp add: demo_ws_tree_def demo_ws_index_def ws_eval)

lemma demo_ws_tree_no_move: "\<forall>op \<in> set demo_ws_tree. \<not> is_move op"
  by (simp add: demo_ws_tree_def)

lemma demo_ws_path: "compute_path demo_ws_index 3 = Some (Inr [''a'', ''c''])"
  by (simp add: demo_ws_tree_def demo_ws_index_def ws_eval)

theorem workspace_paths_exact_witness: "find_by_path demo_ws_index [''a'', ''c''] = Inr 3"
  using workspace_paths_exact [OF demo_ws_tree_room demo_ws_tree_no_move demo_ws_tree_run] demo_ws_path by blast

section \<open>What deletion and moving do\<close>

text \<open>
  In every reachable state deleting a workspace succeeds and removes the workspace and
  exactly its descendants; every other workspace stays as it was, except that the deleted
  one is taken off the list of its parent or of the roots.
\<close>

theorem workspace_delete_exact:
  assumes "ids_room l ops" and "ws_run (WorkspaceIndex_new, l) ops = Some (rs, x, l')"
    and "find_by_id x i = Inr n"
  shows "\<exists>ds y. get_descendants x i = Some (Inr ds) \<and> workspace_delete x i = Some (Inr (), y)
           \<and> (\<forall>j. find_by_id y j = (if j = i \<or> j \<in> set ds then Inl (WI_WorkspaceNotFound j)
                                   else and_then (find_by_id x j) (\<lambda>m. Inr (drop_child i m))))
           \<and> wi_root_ids y = filter (\<lambda>r. r \<noteq> i) (wi_root_ids x)"
proof -
  let ?N = "RBT.lookup (wi_nodes x)"
  note f = ws_run_forest [OF assms(1,2)]
  have n: "?N i = Some n" using assms(3) by (simp add: find_by_id_def)
  obtain ds where ds: "get_descendants x i = Some (Inr ds)" "insert i (set ds) = subtree ?N i"
    by (rule get_descendants_exact [OF f(2) n])
  from workspace_delete_ok [OF f n] obtain y where y: "workspace_delete x i = Some (Inr (), y)"
    "RBT.lookup (wi_nodes y) = cut ?N i" "wi_root_ids y = filter (\<lambda>r. r \<noteq> i) (wi_root_ids x)" .
  have "find_by_id y j = (if j = i \<or> j \<in> set ds then Inl (WI_WorkspaceNotFound j)
                          else and_then (find_by_id x j) (\<lambda>m. Inr (drop_child i m)))" for j
    using ds(2) [symmetric] by (cases "?N j") (simp_all add: find_by_id_def y(2) cut_def)
  then show ?thesis using ds(1) y(1,3) by blast
qed

theorem workspace_delete_exact_witness:
  "\<exists>ds y. get_descendants demo_ws_index 1 = Some (Inr ds) \<and> workspace_delete demo_ws_index 1 = Some (Inr (), y)
     \<and> find_by_id y 1 = Inl (WI_WorkspaceNotFound 1) \<and> wi_root_ids y = [2]"
proof -
  have "find_by_id demo_ws_index 1 = Inr (the (RBT.lookup (wi_nodes demo_ws_index) 1))" "wi_root_ids demo_ws_index = [1, 2]"
    by (simp_all add: demo_ws_tree_def demo_ws_index_def ws_eval find_by_id_def)
  then show ?thesis using workspace_delete_exact [OF demo_ws_tree_room demo_ws_tree_run, of 1] by fastforce
qed

lemma workspace_move_elsewhere:
  assumes "ids_room l ops" and "ws_run (WorkspaceIndex_new, l) ops = Some (rs, x, l')"
    and "find_by_id x i = Inr n" and "wn_parent_id n \<noteq> new"
  shows "\<exists>ds r y. get_descendants x i = Some (Inr ds) \<and> workspace_move x i new now = Some (r, y)
           \<and> (if \<exists>np. new = Some np \<and> (np = i \<or> np \<in> set ds \<or> \<not> is_ok (find_by_id x np)
                      \<or> (\<exists>cs c m. list_children x np = Inr cs \<and> c \<in> set cs \<and> find_by_id x c = Inr m
                                 \<and> wn_name m = wn_name n))
              then \<not> is_ok r \<and> y = x
              else (\<forall>j. find_by_id y j =
                      and_then (find_by_id x j)
                        (\<lambda>m. Inr (if j = i then m\<lparr>wn_parent_id := new, wn_updated_at := now\<rparr>
                                  else if new = Some j then push_child i m else drop_child i m)))
                   \<and> wi_root_ids y = filter (\<lambda>r. r \<noteq> i) (wi_root_ids x) @ (if new = None then [i] else []))"
proof -
  let ?N = "RBT.lookup (wi_nodes x)"
  note f = ws_run_forest [OF assms(1,2)]
  have n: "?N i = Some n" using assms(3) by (simp add: find_by_id_def)
  obtain ds where ds: "get_descendants x i = Some (Inr ds)" "insert i (set ds) = subtree ?N i"
    by (rule get_descendants_exact [OF f(2) n])
  let ?bad = "\<exists>np. new = Some np \<and> (np = i \<or> np \<in> set ds \<or> \<not> is_ok (find_by_id x np)
                 \<or> (\<exists>cs c m. list_children x np = Inr cs \<and> c \<in> set cs \<and> find_by_id x c = Inr m \<and> wn_name m = wn_name n))"
  have child: "(\<exists>cs c m. list_children x np = Inr cs \<and> c \<in> set cs \<and> find_by_id x c = Inr m \<and> wn_name m = wn_name n)
                 \<longleftrightarrow> (\<exists>c m. (np, c) \<in> parents ?N \<and> ?N c = Some m \<and> wn_name m = wn_name n)" if np: "np \<in> dom ?N" for np
  proof -
    obtain pn where pn: "?N np = Some pn" using np by blast
    have "find_by_id x c = Inr m \<longleftrightarrow> ?N c = Some m" for c m by (simp add: find_by_id_def)
    moreover have "list_children x np = Inr cs \<longleftrightarrow> cs = wn_children pn" for cs
      using pn by (auto simp: list_children_def)
    moreover have "c \<in> set (wn_children pn) \<longleftrightarrow> (np, c) \<in> parents ?N" for c
      unfolding forest_children [OF f(2) pn] by simp
    ultimately show ?thesis by (simp only: simp_thms ex_simps)
  qed
  have isok: "is_ok (find_by_id x np) \<longleftrightarrow> np \<in> dom ?N" for np
    by (cases "?N np") (auto simp: find_by_id_def)
  have bad: "?bad \<longleftrightarrow> \<not> move_allowed ?N i new"
  proof (cases new)
    case None
    then show ?thesis by (simp add: move_allowed_def)
  next
    case (Some np)
    have "np \<in> subtree ?N i \<longleftrightarrow> np = i \<or> np \<in> set ds" unfolding ds(2) [symmetric] by simp
    then show ?thesis using Some child [of np] isok [of np] n unfolding move_allowed_def by auto
  qed
  show ?thesis
  proof (cases "move_allowed ?N i new")
    case True
    from workspace_move_result [OF f n assms(4) True] obtain r y where y: "workspace_move x i new now = Some (r, y)"
      "RBT.lookup (wi_nodes y) = regraft ?N i new now"
      "wi_root_ids y = filter (\<lambda>r. r \<noteq> i) (wi_root_ids x) @ (if new = None then [i] else [])" .
    have "find_by_id y j = and_then (find_by_id x j)
                        (\<lambda>m. Inr (if j = i then m\<lparr>wn_parent_id := new, wn_updated_at := now\<rparr>
                                  else if new = Some j then push_child i m else drop_child i m))" for j
      by (cases "?N j") (simp_all add: find_by_id_def y(2) regraft_def)
    moreover have "\<not> ?bad" unfolding bad using True by simp
    ultimately show ?thesis using ds(1) y(1,3)
      by (intro exI [of _ ds] exI [of _ r] exI [of _ y]) (subst if_not_P, blast+)
  next
    case False
    from workspace_move_refused [OF f n assms(4) False] obtain e where "workspace_move x i new now = Some (Inl e, x)" .
    moreover have "?bad" unfolding bad by (rule False)
    ultimately show ?thesis using ds(1)
      by (intro exI [of _ ds] exI [of _ "Inl e"] exI [of _ x]) (subst if_P, blast, simp)
  qed
qed

text \<open>
  A workspace may not be moved below a parent that does not exist, that is the workspace
  itself or one of its descendants, or that has a child of the same name.
\<close>

definition move_refused :: "WorkspaceIndex \<Rightarrow> WorkspaceId \<Rightarrow> WorkspaceNode \<Rightarrow> WorkspaceId option \<Rightarrow> bool" where
  "move_refused x i n new \<longleftrightarrow>
     (\<exists>np. new = Some np \<and>
        (np = i \<or> (\<exists>ds. get_descendants x i = Some (Inr ds) \<and> np \<in> set ds) \<or> \<not> is_ok (find_by_id x np)
         \<or> (\<exists>cs c m. list_children x np = Inr cs \<and> c \<in> set cs \<and> find_by_id x c = Inr m \<and> wn_name m = wn_name n)))"

text \<open>
  (C38) What a move does in every reachable state, whatever workspace and new parent it
  names.  A workspace that does not exist is refused as not found, and a move to the
  parent the workspace already has succeeds and only counts up the version.  A move to
  another parent is refused, without any change, exactly when that parent does not exist,
  is the workspace itself or one of its descendants, or has a child of the same name; a
  move below another ancestor is accepted.  Otherwise the workspace hangs below its new
  parent, last in its list, and nothing else changes in the forest; this holds also when
  the call then reports that the new path is too deep.
\<close>

theorem workspace_move_exact:
  assumes "ids_room l ops" and "ws_run (WorkspaceIndex_new, l) ops = Some (rs, x, l')"
  shows "\<exists>r y. workspace_move x i new now = Some (r, y)
     \<and> (case find_by_id x i of
          Inl e \<Rightarrow> r = Inl (WI_WorkspaceNotFound i) \<and> y = x
        | Inr n \<Rightarrow>
            if wn_parent_id n = new then r = Inr () \<and> y = x\<lparr>wi_version := wi_version x + 1\<rparr>
            else if move_refused x i n new then \<not> is_ok r \<and> y = x
            else (\<forall>j. find_by_id y j =
                    and_then (find_by_id x j)
                      (\<lambda>m. Inr (if j = i then m\<lparr>wn_parent_id := new, wn_updated_at := now\<rparr>
                                else if new = Some j then push_child i m else drop_child i m)))
                 \<and> wi_root_ids y = filter (\<lambda>r. r \<noteq> i) (wi_root_ids x) @ (if new = None then [i] else []))"
proof (cases "find_by_id x i")
  case (Inl e)
  then have "RBT.lookup (wi_nodes x) i = None" by (simp add: find_by_id_def split: option.splits)
  then show ?thesis using Inl ws_run_forest(1) [OF assms] by (simp add: workspace_move_def)
next
  case (Inr n)
  show ?thesis
  proof (cases "wn_parent_id n = new")
    case True
    have "RBT.lookup (wi_nodes x) i = Some n" using Inr by (simp add: find_by_id_def split: option.splits)
    then show ?thesis using Inr True ws_run_forest(1) [OF assms] by (simp add: workspace_move_def)
  next
    case False
    from workspace_move_elsewhere [OF assms Inr False, of now] obtain ds r y where
      m: "get_descendants x i = Some (Inr ds)" "workspace_move x i new now = Some (r, y)"
      "if \<exists>np. new = Some np \<and> (np = i \<or> np \<in> set ds \<or> \<not> is_ok (find_by_id x np)
            \<or> (\<exists>cs c m. list_children x np = Inr cs \<and> c \<in> set cs \<and> find_by_id x c = Inr m \<and> wn_name m = wn_name n))
       then \<not> is_ok r \<and> y = x
       else (\<forall>j. find_by_id y j =
               and_then (find_by_id x j)
                 (\<lambda>m. Inr (if j = i then m\<lparr>wn_parent_id := new, wn_updated_at := now\<rparr>
                           else if new = Some j then push_child i m else drop_child i m)))
            \<and> wi_root_ids y = filter (\<lambda>r. r \<noteq> i) (wi_root_ids x) @ (if new = None then [i] else [])"
      by blast
    have "move_refused x i n new \<longleftrightarrow> (\<exists>np. new = Some np \<and> (np = i \<or> np \<in> set ds \<or> \<not> is_ok (find_by_id x np)
            \<or> (\<exists>cs c m. list_children x np = Inr cs \<and> c \<in> set cs \<and> find_by_id x c = Inr m \<and> wn_name m = wn_name n)))"
      using m(1) by (simp add: move_refused_def)
    from m(3) [folded this] show ?thesis using m(2) Inr False by simp
  qed
qed

theorem workspace_move_exact_witness:
  "\<exists>r y m. workspace_move demo_ws_index 3 None 9 = Some (r, y)
     \<and> find_by_id y 3 = Inr m \<and> wn_parent_id m = None \<and> wi_root_ids y = [1, 2, 3]
     \<and> workspace_move demo_ws_index 3 (Some 1) 9 = Some (Inr (), demo_ws_index\<lparr>wi_version := wi_version demo_ws_index + 1\<rparr>)
     \<and> workspace_move demo_ws_index 7 None 9 = Some (Inl (WI_WorkspaceNotFound 7), demo_ws_index)"
proof -
  have e: "find_by_id demo_ws_index 3 = Inr (WorkspaceNode_new_child 3 ''c'' 1 [] 7)"
    "find_by_id demo_ws_index 7 = Inl (WI_WorkspaceNotFound 7)" "wi_root_ids demo_ws_index = [1, 2]"
    by (simp_all add: demo_ws_tree_def demo_ws_index_def ws_eval find_by_id_def)
  have p: "wn_parent_id (WorkspaceNode_new_child 3 ''c'' 1 [] 7) = Some 1" by (simp add: WorkspaceNode_new_child_def)
  note move = workspace_move_exact [OF demo_ws_tree_room demo_ws_tree_run, where now = 9]
  have "\<exists>r y. workspace_move demo_ws_index 3 None 9 = Some (r, y)
     \<and> (\<exists>m. find_by_id y 3 = Inr m \<and> wn_parent_id m = None) \<and> wi_root_ids y = [1, 2, 3]"
    using move [of 3 None] e p by (auto simp: move_refused_def)
  moreover have "workspace_move demo_ws_index 3 (Some 1) 9 =
      Some (Inr (), demo_ws_index\<lparr>wi_version := wi_version demo_ws_index + 1\<rparr>)"
    using move [of 3 "Some 1"] e p by auto
  moreover have "workspace_move demo_ws_index 7 None 9 = Some (Inl (WI_WorkspaceNotFound 7), demo_ws_index)"
    using move [of 7 None] e by auto
  ultimately show ?thesis by blast
qed

subsection \<open>The path index after a move\<close>

lemma regraft_other:
  assumes "N j = Some n" and "j \<noteq> i"
  obtains m where "regraft N i new now j = Some m" "wn_name m = wn_name n" "wn_parent_id m = wn_parent_id n"
  using that [of "if new = Some j then push_child i n else drop_child i n"] assms by (simp add: regraft_def split: if_splits)

lemma is_path_regraft:
  "is_path N j q \<Longrightarrow> j \<notin> subtree N i \<Longrightarrow> is_path (regraft N i new now) j q"
proof (induction rule: is_path.induct)
  case (root j n)
  then have "j \<noteq> i" by (auto simp: subtree_def)
  then obtain m where "regraft N i new now j = Some m" "wn_name m = wn_name n" "wn_parent_id m = wn_parent_id n"
    by (rule regraft_other [where N = N, OF root(1)])
  then show ?case using is_path.root [of "regraft N i new now" j m] root(2) by simp
next
  case (child j n p q)
  then have j: "j \<noteq> i" "p \<notin> subtree N i"
    using subtree_closed [of p N i j] by (auto simp: subtree_def parents_def)
  obtain m where "regraft N i new now j = Some m" "wn_name m = wn_name n" "wn_parent_id m = wn_parent_id n"
    by (rule regraft_other [where N = N, OF child(1) j(1)])
  then show ?case using is_path.child [of "regraft N i new now" j m p q] child j(2) by simp
qed

lemma is_path_regraft_self:
  assumes "N i = Some n" and "is_path N np q" and "np \<notin> subtree N i"
  shows "is_path (regraft N i (Some np) now) i (q @ [wn_name n])"
  using is_path.child [of "regraft N i (Some np) now" i "n\<lparr>wn_parent_id := Some np, wn_updated_at := now\<rparr>" np q]
    assms is_path_regraft [OF assms(2,3)] by (simp add: regraft_def)

text \<open>The path of a workspace differs from the path it would have elsewhere.\<close>

lemma paths_ok_elsewhere:
  assumes ok: "paths_ok x" and i: "RBT.lookup (wi_nodes x) i = Some n" "is_path (RBT.lookup (wi_nodes x)) i p"
    and q: "is_path (RBT.lookup (wi_nodes x)) np q" "wn_parent_id n \<noteq> Some np"
    and free: "\<forall>c m. (np, c) \<in> parents (RBT.lookup (wi_nodes x)) \<longrightarrow> RBT.lookup (wi_nodes x) c = Some m
                 \<longrightarrow> wn_name m \<noteq> wn_name n"
  shows "p \<noteq> q @ [wn_name n]" and "p \<noteq> (q @ [wn_name n]) @ [c]"
proof -
  let ?N = "RBT.lookup (wi_nodes x)"
  have inj: "a = b" if "is_path ?N a s" "is_path ?N b s" for a b s
    using that ok by (metis option.inject paths_ok_def)
  have parent: "wn_parent_id m = Some np" if "?N j = Some m" "is_path ?N j (q @ [s])" for j m s
    using that(2)
  proof cases
    case (root k)
    then show ?thesis using is_path_nonempty [OF q(1)] by simp
  next
    case (child k p r)
    then show ?thesis using inj [OF q(1), of p] that(1) by simp
  qed
  show "p \<noteq> q @ [wn_name n]" using parent [OF i(1)] i(2) q(2) by auto
  show "p \<noteq> (q @ [wn_name n]) @ [c]"
  proof
    assume eq: "p = (q @ [wn_name n]) @ [c]"
    from i(2) show False
    proof cases
      case (root k)
      then show ?thesis using eq by simp
    next
      case (child k j r)
      then have j: "is_path ?N j (q @ [wn_name n])" using eq by simp
      then obtain m where m: "?N j = Some m" using is_path_dom by blast
      have "wn_name m = wn_name n" using j m by cases auto
      moreover have "(np, j) \<in> parents ?N" using parent [OF m j] m by (auto simp: parents_def)
      ultimately show ?thesis using free m by blast
    qed
  qed
qed

text \<open>
  A move leaves the path index wrong: when a workspace with one child, which has none, is
  moved below another workspace, the call succeeds, but the new path of the workspace
  resolves to its child and its old path still resolves to it.
\<close>

theorem workspace_move_misdirects:
  assumes "ids_room l ops" and "\<forall>op \<in> set ops. \<not> is_move op"
    and "ws_run (WorkspaceIndex_new, l) ops = Some (rs, x, l')"
    and "find_by_id x i = Inr n" and "wn_children n = [c]" and "list_children x c = Inr []"
    and "compute_path x i = Some (Inr p)" and "compute_path x np = Some (Inr q)" and "length q < 16"
    and "wn_parent_id n \<noteq> Some np" and "np \<noteq> i" and "np \<noteq> c"
    and "\<forall>cs d m. list_children x np = Inr cs \<longrightarrow> d \<in> set cs \<longrightarrow> find_by_id x d = Inr m \<longrightarrow> wn_name m \<noteq> wn_name n"
  shows "\<exists>y. workspace_move x i (Some np) now = Some (Inr (), y)
           \<and> compute_path y i = Some (Inr (q @ [wn_name n]))
           \<and> find_by_path y (q @ [wn_name n]) = Inr c \<and> find_by_path y p = Inr i"
proof -
  let ?N = "RBT.lookup (wi_nodes x)"
  note f = ws_run_forest [OF assms(1,3)] and ok = ws_run_paths [OF assms(1,3,2)]
  have deep: "\<forall>path i. is_path ?N i path \<longrightarrow> length path \<le> 16" using ok by (simp add: paths_ok_def)
  note cp = compute_path_iff [OF f(2) deep]
  have n: "?N i = Some n" using assms(4) by (simp add: find_by_id_def)
  obtain cn where cn: "?N c = Some cn" "wn_children cn = []" using assms(6) by (auto simp: list_children_def)
  have paths: "is_path ?N i p" "is_path ?N np q" using assms(7,8) cp by blast+
  have kids: "parents ?N `` {i} = {c}" "parents ?N `` {c} = {}"
    using forest_children [OF f(2) n] forest_children [OF f(2) cn(1)] assms(5) cn(2) by auto
  have S: "subtree ?N i = {i, c}"
    using below_step [of ?N i "{c}" "{}"] below_step [of ?N c "{}" "{}"] kids by (simp add: subtree_def)
  have np: "np \<in> dom ?N" "np \<notin> subtree ?N i" using is_path_dom [OF paths(2)] assms(11,12) S by auto
  obtain pn where pn: "?N np = Some pn" using np(1) by blast
  have free: "wn_name m \<noteq> wn_name n" if "(np, d) \<in> parents ?N" "?N d = Some m" for d m
    using that assms(13) forest_children [OF f(2) pn] pn by (auto simp: list_children_def find_by_id_def)
  have "move_allowed ?N i (Some np)" using np free n by (auto simp: move_allowed_def)
  from workspace_move_ok [OF f n assms(10) this, of now] obtain ds x2 r y where
    m: "collect_descendants x i = Some ds" "set (i # ds) = subtree ?N i"
      "RBT.lookup (wi_nodes x2) = regraft ?N i (Some np) now" "forest (RBT.lookup (wi_nodes x2)) (wi_root_ids x2)"
      "wi_path_index x2 = (\<lambda>p. if \<exists>j \<in> subtree ?N i. compute_path x2 j = Some (Inr p) then None else wi_path_index x p)"
      "workspace_move x i (Some np) now = Some (r, y)"
      "(r, y) = (case new_segments x2 (Some np) (wn_name n) of
                 Some (Inr segments) \<Rightarrow>
                   (case reindex (wi_nodes x2) ds 0 (i # ds) segments (wi_path_index x2) of
                      (Inl e, index) \<Rightarrow> (Inl e, x2\<lparr>wi_path_index := index\<rparr>)
                    | (Inr _, index) \<Rightarrow> (Inr (), x2\<lparr>wi_path_index := index, wi_version := wi_version x2 + 1\<rparr>))
               | Some (Inl e) \<Rightarrow> (Inl e, x2))" .
  have ds: "ds = [c]"
    using m(1) n assms(5) cn by (simp add: collect_descendants_def collect_loop.simps)
  let ?s = "q @ [wn_name n]"
  have np2: "is_path (RBT.lookup (wi_nodes x2)) np q" and i2: "is_path (RBT.lookup (wi_nodes x2)) i ?s"
    unfolding m(3) by (rule is_path_regraft [OF paths(2) np(2)], rule is_path_regraft_self [of ?N, OF n paths(2) np(2)])
  have seg: "new_segments x2 (Some np) (wn_name n) = Some (Inr ?s)"
    using compute_path_is_path [OF np2] assms(9) by (simp add: new_segments_def WorkspacePath_new_def)
  have ci: "c \<noteq> i" using kids(1) forest_no_self [OF f(2), of i] by auto
  define cm where "cm = drop_child i cn"
  have cm: "regraft ?N i (Some np) now c = Some cm" "wn_children cm = []" "wn_parent_id cm = wn_parent_id cn"
    using ci assms(12) cn by (simp_all add: regraft_def cm_def)
  have "extend_segments (wi_nodes x2) c ?s = ?s" using cm by (simp add: extend_segments_def m(3))
  then have re: "reindex (wi_nodes x2) ds 0 (i # ds) ?s (wi_path_index x2) = (Inr (), (wi_path_index x2)(?s \<mapsto> i, ?s \<mapsto> c))"
    using assms(9) by (simp add: ds WorkspacePath_new_def)
  have ry: "r = Inr ()" "y = x2\<lparr>wi_path_index := (wi_path_index x2)(?s \<mapsto> i, ?s \<mapsto> c), wi_version := wi_version x2 + 1\<rparr>"
    using m(7) [unfolded seg option.case sum.case re prod.case] by simp_all
  have "(i, c) \<in> parents ?N" using kids(1) by blast
  then have "wn_parent_id cm = Some i" using cm(3) cn(1) by (auto simp: parents_def)
  then have "is_path (RBT.lookup (wi_nodes x2)) c (?s @ [wn_name cm])"
    using is_path.child [of "RBT.lookup (wi_nodes x2)" c cm i ?s] cm(1) i2 by (simp add: m(3))
  then have "compute_path x2 i = Some (WorkspacePath_new ?s)" "compute_path x2 c = Some (WorkspacePath_new (?s @ [wn_name cm]))"
    using compute_path_is_path i2 by blast+
  moreover have "p \<noteq> ?s" "p \<noteq> ?s @ [wn_name cm]"
    using paths_ok_elsewhere [OF ok n paths assms(10)] free by blast+
  ultimately have "wi_path_index x2 p = wi_path_index x p" "p \<noteq> ?s"
    unfolding m(5) S by (auto simp: WorkspacePath_new_def split: if_splits)
  moreover have "wi_path_index x p = Some i" using ok paths(1) by (simp add: paths_ok_def)
  ultimately have "find_by_path y p = Inr i" "find_by_path y ?s = Inr c" by (simp_all add: ry find_by_path_def)
  moreover have "compute_path y i = Some (Inr ?s)"
    using compute_path_nodes [of y x2 i] compute_path_is_path [OF i2] assms(9) by (simp add: ry WorkspacePath_new_def)
  ultimately show ?thesis using m(6) ry(1) by blast
qed

theorem workspace_move_misdirects_witness:
  "\<exists>y. workspace_move demo_ws_index 1 (Some 2) 9 = Some (Inr (), y)
     \<and> find_by_path y [''b'', ''a''] = Inr 3 \<and> find_by_path y [''a''] = Inr 1"
proof -
  note e = demo_ws_tree_def demo_ws_index_def ws_eval find_by_id_def list_children_def
  let ?n = "push_child 3 (WorkspaceNode_new_root 1 ''a'' [] 5)"
  have a: "find_by_id demo_ws_index 1 = Inr ?n" by (simp add: e)
  have c: "wn_children ?n = [3]" "wn_parent_id ?n \<noteq> Some 2" by (simp_all add: WorkspaceNode_new_root_def)
  have l: "list_children demo_ws_index 3 = Inr []" "list_children demo_ws_index 2 = Inr []" by (simp_all add: e)
  have p: "compute_path demo_ws_index 1 = Some (Inr [''a''])" "compute_path demo_ws_index 2 = Some (Inr [''b''])"
    by (simp_all add: e)
  have "\<exists>y. workspace_move demo_ws_index 1 (Some 2) 9 = Some (Inr (), y)
           \<and> compute_path y 1 = Some (Inr ([''b''] @ [wn_name ?n]))
           \<and> find_by_path y ([''b''] @ [wn_name ?n]) = Inr 3 \<and> find_by_path y [''a''] = Inr 1"
    by (rule workspace_move_misdirects [OF demo_ws_tree_room demo_ws_tree_no_move demo_ws_tree_run a c(1) l(1) p _ c(2)])
      (use l(2) in simp_all)
  then show ?thesis by (auto simp: WorkspaceNode_new_root_def)
qed

section \<open>Paths as text\<close>

lemma split_slash_nonempty: "split_slash s \<noteq> []"
  by (induction s) (auto split: list.splits)

lemma join_split: "path_to_string (split_slash s) = s"
proof (induction s)
  case Nil
  then show ?case by simp
next
  case (Cons c s)
  obtain t ts where t: "split_slash s = t # ts" using split_slash_nonempty by (cases "split_slash s") auto
  then show ?case using Cons by (cases ts) auto
qed

lemma split_slash_single: "CHR ''/'' \<notin> set n \<Longrightarrow> split_slash n = [n]"
  by (induction n) auto

lemma split_slash_append: "CHR ''/'' \<notin> set n \<Longrightarrow> split_slash (n @ CHR ''/'' # s) = n # split_slash s"
  by (induction n) auto

lemma split_join: "p \<noteq> [] \<Longrightarrow> \<forall>n \<in> set p. CHR ''/'' \<notin> set n \<Longrightarrow> split_slash (path_to_string p) = p"
  by (induction p rule: path_to_string.induct) (simp_all add: split_slash_single split_slash_append)

lemma WorkspaceName_parse_same: "WorkspaceName_parse s = Inr n \<Longrightarrow> n = s \<and> CHR ''/'' \<notin> set s"
proof -
  assume a: "WorkspaceName_parse s = Inr n"
  then have "n = s" "list_all is_workspace_char s" by (auto simp: WorkspaceName_parse_def split: if_splits)
  moreover have "\<not> is_workspace_char (CHR ''/'')" by (simp add: is_workspace_char_def is_ascii_digit_def code_def)
  ultimately show ?thesis by (auto simp: list_all_iff)
qed

lemma collect_names_iff:
  "collect_names ss = Inr ns \<longleftrightarrow> ns = ss \<and> list_all (\<lambda>n. WorkspaceName_parse n = Inr n) ss"
proof (induction ss arbitrary: ns)
  case Nil
  then show ?case by auto
next
  case (Cons s ss)
  show ?case
  proof (cases "WorkspaceName_parse s")
    case (Inl e)
    then show ?thesis by simp
  next
    case (Inr n)
    then have "n = s" using WorkspaceName_parse_same by blast
    then show ?thesis using Inr Cons by auto
  qed
qed

text \<open>
  The text of a path determines it: a text is read as a path exactly when the path is
  non-empty, at most sixteen names deep, consists of valid names, and is written as this
  text.
\<close>

theorem path_text_roundtrip:
  "path_deserialize s = Inr p \<longleftrightarrow>
     p \<noteq> [] \<and> length p \<le> 16 \<and> list_all (\<lambda>n. WorkspaceName_parse n = Inr n) p \<and> path_to_string p = s"
proof -
  have "path_deserialize s = Inr p \<longleftrightarrow>
          p = split_slash s \<and> length p \<le> 16 \<and> list_all (\<lambda>n. WorkspaceName_parse n = Inr n) p"
    by (auto simp: path_deserialize_def collect_names_iff NonEmptyVec_new_def WorkspacePath_new_def
        split_slash_nonempty split: if_splits)
  moreover have "split_slash (path_to_string p) = p" if "p \<noteq> []" "list_all (\<lambda>n. WorkspaceName_parse n = Inr n) p"
    using that WorkspaceName_parse_same by (intro split_join) (auto simp: list_all_iff)
  ultimately show ?thesis using join_split [of s] split_slash_nonempty [of s] by auto
qed

end
