(* ===== verification/Spec2Isabelle.thy ===== *)
theory Spec2Isabelle
  imports Lifecycle Workflow Effect_Journal Lease_Store Commands Event_Sourcing Event_Store
    Compensation_Order Sagas Connectors Scheduling Timer_Index
    Spsc_Queue Ipc_Envelope Job_Scheduler
    Compensation_Saga Circuit_Breaker Write_Budget Red_Black_Tree Merkle_Tree Workspace_Index
begin

text \<open>
  vo-engine: a durable workflow engine.

  The program (src/crates) runs workflows that are directed acyclic graphs of steps.
  A definition is validated once (vo-types/src/workflow).  Commands enter through a
  deduplicating ingress (vo-types/src/command_envelope, vo-core/src/command_dedup.rs,
  vo-storage/src/dedupe_partition); everything that happens to an instance is an event
  in an append-only store (vo-types/src/events, vo-storage/src/event_store); the state of
  an instance is rebuilt by replaying its events, old schemas being lifted by upcasters
  (vo-core/src/replay, vo-core/src/upcaster, vo-types/src/events/upcaster.rs).  Steps are
  chosen by the dependency resolver (vo-types/src/dependency_graph_resolver.rs,
  next_step_selection.rs, edge_tracking.rs), guarded by fenced leases
  (vo-storage/src/lease_partition, vo-core/src/lease_calc) and run in worker processes
  that talk frames over pipes (vo-ipc).  Side effects are prepared, committed or rolled
  back through a journal and connectors (vo-types/src/effects, connector,
  vo-storage/src/effect_journal); failed runs are undone by sagas in compensation order
  (vo-types/src/compensation.rs, saga_coordinator.rs, tx_coordinator,
  vo-core/src/compensation_order).  Timers wake instances up (vo-storage/src/timer_index)
  and a background scheduler runs jobs (vo-scheduler).

  \<^bold>\<open>Conventions.\<close>  Rust's u8, u32 and u64 are words, \<open>+\<close> wraps as in a release build,
  checked and saturating operations are in \<open>Prelude\<close>; \<open>usize\<close> lengths are nat.  A
  \<open>String\<close> is the list of its UTF-8 bytes.  \<open>Result\<close> is \<open>'e + 'a\<close> with \<open>Inl\<close> for \<open>Err\<close>;
  a panic, or fuel running out, is the value \<open>None\<close>.  Structs are records, enums are
  datatypes, and stateful code passes its state.  A Mutex-protected store is its content:
  every operation of the in-memory stores takes the lock once, so operations are atomic;
  where the source takes a lock twice (\<open>append\<close> of the event store) the two halves are
  separate steps and the race between them is a theorem.  Hash tables are association
  lists in iteration order, or maps with the iteration order as an argument about which
  only \<open>iter_law\<close> of \<open>Graphs\<close> is assumed.  Clock readings are arguments.  Code outside
  src (serde_json, postcard, ulid, uuid, regex, fjall, blake3, pipes) and implementations
  of traits are records of functions over an arbitrary state, passed as arguments; what
  is relied on is a named predicate in the statement, and the witness of such a theorem
  instantiates it.

  \<^bold>\<open>Foundations.\<close>  \<open>Prelude\<close>: words, results, mutexes, association lists.  \<open>Machines\<close>: the
  locales \<open>machine\<close> and \<open>bounded_machine\<close> of fallible step functions, interpreted on the
  lifecycle, the effect, saga, compensation, transaction and connector machines.  \<open>Bytes\<close>:
  big-endian encodings and the locale \<open>codec\<close> of round trips.  \<open>Graphs\<close>: adjacency maps,
  walks, simple cycles, acyclicity.

  \<^bold>\<open>Definitions and their validation.\<close>  \<open>Ids\<close>: every parse function of validated names and
  integers, with the exact set of accepted texts.  \<open>Workflow\<close>: retry policies, edge
  conditions, \<open>validate_unvalidated\<close>, the depth-first \<open>detect_cycle\<close>, the connectivity
  check and \<open>next_nodes\<close>; both searches carry fuel and the entry points supply
  Suc of the number of nodes (of edges where a search re-visits), which the lemmas show
  to be enough, so the theorems state that the functions return.  \<open>Scheduling\<close>: readiness,
  layers, transitive searches, attempts, the edge log and fan-in; the main theorem is that
  repeated selection, with any outcomes, keeps the order and the conditions of the edges,
  stops only when these block it and otherwise completes every validated definition.

  \<^bold>\<open>Lifecycle, events and replay.\<close>  \<open>Lifecycle\<close>: \<open>apply\<close>, its classification functions, and the
  transition table compiler with the table that is meant to agree with \<open>apply\<close>.  \<open>Events\<close>:
  envelopes, metadata and the payload decoder.  \<open>Upcasters\<close>: both registries, with
  termination of every chain built through \<open>register\<close>.  \<open>Replay\<close>: the replay loop and an
  exact description of the histories it accepts.  \<open>Event_Sourcing\<close>: snapshots, their
  compatibility check and the two recovery functions.  \<open>Event_Store\<close>: optimistic append and
  reading; the locale \<open>append_only_log\<close> carries the numbering invariant.

  \<^bold>\<open>Storage.\<close>  \<open>Key_Encoding\<close>: the binary keys, their inverses and their order.
  \<open>Lease_Store\<close>, \<open>Dedupe_Store\<close> with \<open>Commands\<close>, \<open>Effect_Journal\<close>: the in-memory stores,
  each the interpretation of the locale of its trait (\<open>fenced_leases\<close>, \<open>admission_store\<close>,
  \<open>decision_journal\<close>), in which the properties over sequences of operations are proved.
  \<open>Timer_Index\<close>: timer keys, the operations over a byte store that may fail at any call,
  and the Bloom filter with its rebuild; what a scan reports of a timer is compared with
  what was set, identifier included.

  \<^bold>\<open>Effects and rollback.\<close>  \<open>Effects\<close>, \<open>Sagas\<close>, \<open>Connectors\<close>: the protocol machines and the
  connector runtime, whose retry loop recurses on the remaining attempts and whose calls
  are shown to keep to the protocol of the connector.
  \<open>Compensation_Order\<close>: the queue-based sort and the depth-first search of the rollback
  planner for every iteration order, the second by simulation of the search of \<open>Workflow\<close>.
  \<open>Compensation_Saga\<close>: the manifest of compensations of vo-storage/src/compensation_saga.rs
  behind its mutex, decided once in every run, and an exact description of the execution
  order it reports.

  \<^bold>\<open>Processes and jobs.\<close>  \<open>Spsc_Queue\<close>: the ring buffer as an interleaving of atomic
  accesses, a refinement of a bounded queue for one sender and one receiver.
  \<open>Ipc_Envelope\<close>: frames over a stream delivered in arbitrary pieces, the checks of both
  builds with the exact set of envelopes the engine accepts (the decoders serde_json and
  postcard are parameters without any law), the bounded capture of output, worker
  configuration; the read loop is fuelled by the
  number of pieces, which bounds its iterations.  \<open>Job_Queue\<close> and \<open>Job_Scheduler\<close>: the
  queue (a heap beside a table, consistent after every operation) and the scheduler over
  an arbitrary store and dispatcher, reduced to a small transition system of jobs.  Times
  of jobs are integers without bound; the source panics where a due time leaves the range
  of its type.

  \<^bold>\<open>Admission and limits.\<close>  \<open>Circuit_Breaker\<close>: the registration circuit breaker of
  vo-core/src/circuit_breaker: rate limit, failure window, quarantine and release, as a
  trace of calls at given times, and the token bucket over an arbitrary floating point
  arithmetic; the window is related to the full history of failures.  \<open>Write_Budget\<close>: the
  classified write queues of vo-storage/src/append with their byte budget, statistics and
  back pressure, refined to one list per class, and the budget saga above them
  (vo-storage/src/budget_saga), refined to a protocol automaton per key.

  \<^bold>\<open>Data structures.\<close>  \<open>Red_Black_Tree\<close>: the left-leaning tree of vo-core/src/red_black_tree
  with the order, colour and height invariants of insertion; removal is modelled with the
  early return that loses entries.  \<open>Merkle_Tree\<close>: chunked hashing and the hash tree of
  vo-storage/src/checksum.rs and merkle_tree.rs over arbitrary hash functions; the loop
  over the levels is a recursion on a shrinking level.

  \<^bold>\<open>Workspaces.\<close>  \<open>Workspace_Index\<close>: the tree of workspaces of vo-types/src/workspace with its
  operations and queries.  Its loops follow links and are partial functions; the theorems
  show that every call of every run returns and keeps a forest, by well-founded induction
  over the parent links, and that the path index is exact until something is moved.

  \<^bold>\<open>Not modelled.\<close>  The actors (vo-actor), the HTTP interface (vo-api), the command line
  (vo-cli), the user interface (vo-frontend, oya_frontend), the SDK and its macros
  (vo-sdk, vo-sdk-macros), the linter (vo-linter), the worker and executor processes
  (vo-worker, vo-executor) and the process and pipe code of vo-ipc (bus.rs, pipe.rs,
  run.rs, syscalls.rs) are asynchronous glue around operating system and framework calls
  whose content is the calls.  The fjall stores need the database behind them; the
  in-memory stores that share their traits are modelled instead, and the commit batches,
  indexes, snapshots and projections of vo-core and vo-storage that only talk to the
  database are left out with it.  Of the remaining parts, admission control and load
  shedding (vo-core/src/admission, resource_quota, shedding.rs), hot reload, lineage,
  signals, the vault, and the containers nothing else uses (heaps, trees and the rope of
  vo-types, the segment tree and quadtree of vo-core) are left out.  Modules that lib.rs
  does not declare are not compiled and left out.  Delays computed with floating point
  numbers and random jitter are arguments where they occur and otherwise left out, as are
  labels, rendering and accessors.
\<close>

end
